(* ===== verification/Prelude.thy ===== *)
theory Prelude
  imports Main "HOL-Library.Word"
begin

section \<open>Shared vocabulary\<close>

text \<open>
  What every component theory uses: the names of the machine integer types, the parts of
  Rust's standard library that the sources call (checked arithmetic on \<open>u64\<close>,
  \<open>partition_point\<close>, \<open>position\<close>, \<open>copy_within\<close> on slices), the fixed arrays with a live
  prefix that the allocators keep their records in, and the theory of sorted, disjoint
  address spans.
\<close>

unbundle bit_operations_syntax

type_synonym u8 = "8 word"
type_synonym u16 = "16 word"
type_synonym u32 = "32 word"
type_synonym u64 = "64 word"

subsection \<open>Checked arithmetic on addresses\<close>

text \<open>
  Addresses, byte counts and epochs are natural numbers below \<open>2 ^ 64\<close>. Where the source
  checks an operation for overflow, the check is written out.
\<close>

abbreviation u64_limit :: nat where
  "u64_limit \<equiv> 2 ^ 64"

definition checked_add :: "nat \<Rightarrow> nat \<Rightarrow> nat option" where
  "checked_add a b = (if a + b < u64_limit then Some (a + b) else None)"

definition checked_mul :: "nat \<Rightarrow> nat \<Rightarrow> nat option" where
  "checked_mul a b = (if a * b < u64_limit then Some (a * b) else None)"

definition saturating_add :: "nat \<Rightarrow> nat \<Rightarrow> nat" where
  "saturating_add a b = min (a + b) (u64_limit - 1)"

definition checked_next_multiple_of :: "nat \<Rightarrow> nat \<Rightarrow> nat option" where
  "checked_next_multiple_of a g =
     (if g = 0 then None
      else if a mod g = 0 then Some a
      else checked_add a (g - a mod g))"

lemma checked_add_Some_iff [simp]:
  "checked_add a b = Some c \<longleftrightarrow> c = a + b \<and> a + b < u64_limit"
  by (auto simp: checked_add_def)

lemma checked_add_None_iff [simp]: "checked_add a b = None \<longleftrightarrow> u64_limit \<le> a + b"
  by (auto simp: checked_add_def)

lemma checked_mul_Some_iff [simp]:
  "checked_mul a b = Some c \<longleftrightarrow> c = a * b \<and> a * b < u64_limit"
  by (auto simp: checked_mul_def)

lemma checked_mul_None_iff [simp]: "checked_mul a b = None \<longleftrightarrow> u64_limit \<le> a * b"
  by (auto simp: checked_mul_def)

lemma checked_next_multiple_of_SomeD:
  assumes "checked_next_multiple_of a g = Some s" and "a < u64_limit"
  shows "0 < g \<and> a \<le> s \<and> s < a + g \<and> s mod g = 0 \<and> s < u64_limit"
proof (cases "a mod g = 0")
  case True
  with assms show ?thesis
    by (auto simp: checked_next_multiple_of_def split: if_splits)
next
  case False
  with assms have g: "0 < g" and s: "s = a + (g - a mod g)" and lim: "s < u64_limit"
    by (auto simp: checked_next_multiple_of_def split: if_splits)
  have lt: "a mod g < g" using g by simp
  have "a = g * (a div g) + a mod g" by simp
  with s lt have "s = g * (a div g) + g" by linarith
  then have "s mod g = 0" by simp
  moreover have "a \<le> s \<and> s < a + g" using s lt False by simp
  ultimately show ?thesis using g lim by simp
qed

subsection \<open>Two 32-bit halves of a 64-bit word\<close>

lemma bit_u32_high [simp]: "\<not> bit (a :: u32) (32 + n)"
  using bit_imp_le_length [of a "32 + n"] by auto

lemma ucast_ucast_u32 [simp]: "ucast (ucast (a :: u32) :: u64) = a"
  by (rule bit_word_eqI) (simp add: bit_simps)

lemma u32_pair_low: "ucast (ucast (i :: u32) OR push_bit 32 (ucast (g :: u32)) :: u64) = i"
  by (rule bit_word_eqI) (simp add: bit_simps)

lemma u32_pair_high: "ucast (drop_bit 32 (ucast (i :: u32) OR push_bit 32 (ucast (g :: u32)) :: u64)) = g"
  by (rule bit_word_eqI) (simp add: bit_simps)

lemma u32_pair_join:
  "ucast (ucast w :: u32) OR push_bit 32 (ucast (ucast (drop_bit 32 w) :: u32)) = (w :: u64)"
  by (rule bit_word_eqI) (auto simp add: bit_simps)

lemma u32_high_zero: "drop_bit 32 (w :: u64) = 0 \<Longrightarrow> ucast (ucast w :: u32) = w"
  using u32_pair_join [of w] by simp

lemma drop_bit_ucast_u32 [simp]: "drop_bit 32 (ucast (a :: u32) :: u64) = 0"
  by (rule bit_word_eqI) (simp add: bit_simps)

lemma u32_shift_back [simp]: "ucast (drop_bit 32 (push_bit 32 (ucast (a :: u32) :: u64))) = a"
  by (rule bit_word_eqI) (simp add: bit_simps)

lemmas u32_pair = u32_pair_low u32_pair_high u32_pair_join

section \<open>Slices\<close>

text \<open>\<open>iter().position\<close> and \<open>enumerate().find\<close>: the first index whose element passes.\<close>

fun find_index :: "('a \<Rightarrow> bool) \<Rightarrow> 'a list \<Rightarrow> nat option" where
  "find_index P [] = None"
| "find_index P (x # xs) = (if P x then Some 0 else map_option Suc (find_index P xs))"

lemma find_index_SomeD:
  "find_index P xs = Some i \<Longrightarrow> i < length xs \<and> P (xs ! i) \<and> (\<forall>j < i. \<not> P (xs ! j))"
proof (induction xs arbitrary: i)
  case (Cons x xs)
  then show ?case by (cases i) (auto split: if_splits simp: less_Suc_eq_0_disj)
qed simp

lemma find_index_None_iff: "find_index P xs = None \<longleftrightarrow> (\<forall>x \<in> set xs. \<not> P x)"
  by (induction xs) auto

text \<open>\<open>partition_point\<close>: where the elements that satisfy the predicate stop, on a slice they open.\<close>

definition partition_point :: "('a \<Rightarrow> bool) \<Rightarrow> 'a list \<Rightarrow> nat" where
  "partition_point P xs = length (takeWhile P xs)"

lemma partition_point_simps:
  "partition_point P [] = 0" "partition_point P (x # xs) = (if P x then Suc (partition_point P xs) else 0)"
  by (simp_all add: partition_point_def)

lemma partition_point_le: "partition_point P xs \<le> length xs"
  by (simp add: partition_point_def length_takeWhile_le)

lemma partition_point_below: "j < partition_point P xs \<Longrightarrow> P (xs ! j)"
  by (metis nth_mem partition_point_def set_takeWhileD takeWhile_nth)

lemma partition_point_at: "partition_point P xs < length xs \<Longrightarrow> \<not> P (xs ! partition_point P xs)"
  by (simp add: partition_point_def nth_length_takeWhile)

lemma partition_point_Suc_nth: "Suc n = partition_point P xs \<Longrightarrow> P (xs ! n)"
  by (simp add: partition_point_below)

text \<open>
  \<open>copy_within(s..e, d)\<close>: the elements of the range, written from index \<open>d\<close> on. The source calls
  it with both ranges inside the slice, which is what the equations below need.
\<close>

definition copy_within :: "'a list \<Rightarrow> nat \<Rightarrow> nat \<Rightarrow> nat \<Rightarrow> 'a list" where
  "copy_within xs s e d = take d xs @ take (e - s) (drop s xs) @ drop (d + (e - s)) xs"

lemma copy_within_length [simp]:
  "s \<le> e \<Longrightarrow> e \<le> length xs \<Longrightarrow> d + (e - s) \<le> length xs \<Longrightarrow> length (copy_within xs s e d) = length xs"
  by (simp add: copy_within_def)

subsection \<open>Arrays of which a prefix is live\<close>

definition insert_nth :: "nat \<Rightarrow> 'a \<Rightarrow> 'a list \<Rightarrow> 'a list" where
  "insert_nth i v xs = take i xs @ v # drop i xs"

definition remove_nth :: "nat \<Rightarrow> 'a list \<Rightarrow> 'a list" where
  "remove_nth i xs = take i xs @ drop (Suc i) xs"

lemma insert_nth_length [simp]: "i \<le> length xs \<Longrightarrow> length (insert_nth i v xs) = Suc (length xs)"
  by (simp add: insert_nth_def)

lemma remove_nth_length [simp]: "i < length xs \<Longrightarrow> length (remove_nth i xs) = length xs - 1"
  by (simp add: remove_nth_def)

lemma copy_within_insert:
  assumes "i \<le> n" and "n < length xs"
  shows "take (Suc n) ((copy_within xs i n (Suc i))[i := v]) = insert_nth i v (take n xs)"
proof (rule nth_equalityI)
  show "length (take (Suc n) ((copy_within xs i n (Suc i))[i := v])) = length (insert_nth i v (take n xs))"
    using assms by simp
  fix j
  assume "j < length (take (Suc n) ((copy_within xs i n (Suc i))[i := v]))"
  then have "j \<le> n" using assms by simp
  then show "take (Suc n) ((copy_within xs i n (Suc i))[i := v]) ! j = insert_nth i v (take n xs) ! j"
  proof (cases "j = i")
    case True
    then show ?thesis using assms by (simp add: insert_nth_def nth_append)
  next
    case False
    then show ?thesis using assms \<open>j \<le> n\<close>
      by (auto simp: copy_within_def insert_nth_def nth_append nth_list_update min_def nth_Cons')
  qed
qed

lemma copy_within_remove:
  assumes "i < n" and "n \<le> length xs"
  shows "take (n - 1) ((copy_within xs (Suc i) n i)[n - 1 := v]) = remove_nth i (take n xs)"
proof (rule nth_equalityI)
  show "length (take (n - 1) ((copy_within xs (Suc i) n i)[n - 1 := v])) = length (remove_nth i (take n xs))"
    using assms by simp
  fix j
  assume "j < length (take (n - 1) ((copy_within xs (Suc i) n i)[n - 1 := v]))"
  then have "j < n - 1" using assms by simp
  then show "take (n - 1) ((copy_within xs (Suc i) n i)[n - 1 := v]) ! j = remove_nth i (take n xs) ! j"
    using assms by (cases "j < i") (auto simp: copy_within_def remove_nth_def nth_append min_def)
qed

lemma take_split_nth:
  "i < n \<Longrightarrow> n \<le> length xs \<Longrightarrow> take n xs = take i xs @ xs ! i # drop (Suc i) (take n xs)"
  using id_take_nth_drop [of i "take n xs"] by (simp add: min_def)

text \<open>
  The loop that both the address space and the leaf counts tidy their slice with: walk the live
  prefix, and where two neighbours join, replace the first and remove the second.
\<close>

definition array_remove :: "'a \<Rightarrow> 'a list \<Rightarrow> nat \<Rightarrow> nat \<Rightarrow> 'a list" where
  "array_remove e xs n i = (copy_within xs (i + 1) n i)[n - 1 := e]"

lemma array_remove_length [simp]: "i < n \<Longrightarrow> n \<le> length xs \<Longrightarrow> length (array_remove e xs n i) = length xs"
  by (simp add: array_remove_def)

lemma array_remove_live: "i < n \<Longrightarrow> n \<le> length xs \<Longrightarrow> take (n - 1) (array_remove e xs n i) = remove_nth i (take n xs)"
  unfolding array_remove_def using copy_within_remove [of i n xs e] by simp

function join_from ::
  "('a \<Rightarrow> 'a \<Rightarrow> bool) \<Rightarrow> ('a \<Rightarrow> 'a \<Rightarrow> 'a) \<Rightarrow> 'a \<Rightarrow> 'a list \<Rightarrow> nat \<Rightarrow> nat \<Rightarrow> 'a list \<times> nat" where
  "join_from J f e xs n i =
     (if i + 1 < n then
        (if J (xs ! i) (xs ! (i + 1))
         then join_from J f e (array_remove e (xs[i := f (xs ! i) (xs ! (i + 1))]) n (i + 1)) (n - 1) i
         else join_from J f e xs n (i + 1))
      else (xs, n))"
  by auto
termination
  by (relation "measure (\<lambda>(J, f, e, xs, n, i). n - i)") auto

declare join_from.simps [simp del]

fun join_list :: "('a \<Rightarrow> 'a \<Rightarrow> bool) \<Rightarrow> ('a \<Rightarrow> 'a \<Rightarrow> 'a) \<Rightarrow> 'a list \<Rightarrow> 'a list" where
  "join_list J f (p # n # xs) =
     (if J p n then join_list J f (f p n # xs) else p # join_list J f (n # xs))"
| "join_list J f xs = xs"

lemma join_list_short: "length xs \<le> 1 \<Longrightarrow> join_list J f xs = xs"
  by (cases "(J, f, xs)" rule: join_list.cases) auto

lemma join_list_induct [case_names short join skip]:
  assumes "\<And>xs. length xs \<le> 1 \<Longrightarrow> P xs"
    and "\<And>p n xs. J p n \<Longrightarrow> P (f p n # xs) \<Longrightarrow> P (p # n # xs)"
    and "\<And>p n xs. \<not> J p n \<Longrightarrow> P (n # xs) \<Longrightarrow> P (p # n # xs)"
  shows "P xs"
proof (induction "length xs" arbitrary: xs rule: less_induct)
  case less
  show ?case
  proof (cases "length xs \<le> 1")
    case False
    then obtain p n ys where "xs = p # n # ys" by (metis Suc_le_length_iff le_less_linear numeral_2_eq_2 Suc_leI One_nat_def)
    then show ?thesis using less assms(2,3) [of p n ys] by (cases "J p n") simp_all
  qed (simp add: assms(1))
qed

lemma join_from_list:
  "n \<le> length xs \<Longrightarrow>
   (case join_from J f e xs n i of (ys, m) \<Rightarrow>
      take m ys = take i (take n xs) @ join_list J f (drop i (take n xs)) \<and> m \<le> length ys \<and> length ys = length xs)"
proof (induction J f e xs n i rule: join_from.induct)
  case (1 J f e xs n i)
  consider (stop) "\<not> i + 1 < n" | (join) "i + 1 < n" "J (xs ! i) (xs ! (i + 1))"
    | (skip) "i + 1 < n" "\<not> J (xs ! i) (xs ! (i + 1))" by blast
  then show ?case
  proof cases
    case stop
    then have "join_list J f (drop i (take n xs)) = drop i (take n xs)"
      using "1.prems" by (intro join_list_short) simp
    then have "take i (take n xs) @ join_list J f (drop i (take n xs)) = take n xs"
      by (simp only: append_take_drop_id)
    then show ?thesis using stop "1.prems" by (simp add: join_from.simps [of J f e xs n i])
  next
    case join
    let ?q = "f (xs ! i) (xs ! (i + 1))"
    let ?ys = "array_remove e (xs[i := ?q]) n (i + 1)"
    have tail: "drop i (take n xs) = xs ! i # xs ! (i + 1) # drop (i + 2) (take n xs)"
      using join(1) "1.prems" by (simp add: Cons_nth_drop_Suc [symmetric])
    have "take (n - 1) ?ys = remove_nth (i + 1) ((take n xs)[i := ?q])"
      using join(1) "1.prems" array_remove_live [of "i + 1" n "xs[i := ?q]" e] by (simp add: take_update_swap)
    also have "\<dots> = take i (take n xs) @ ?q # drop (i + 2) (take n xs)"
      using join(1) "1.prems" by (simp add: remove_nth_def upd_conv_take_nth_drop min_def)
    finally have live: "take (n - 1) ?ys = take i (take n xs) @ ?q # drop (i + 2) (take n xs)" .
    have parts: "take i (take (n - 1) ?ys) = take i (take n xs)" "drop i (take (n - 1) ?ys) = ?q # drop (i + 2) (take n xs)"
      unfolding live using join(1) "1.prems" by (simp_all add: min_def)
    have len: "length ?ys = length xs" using join(1) "1.prems" by simp
    then have "n - 1 \<le> length ?ys" using "1.prems" by linarith
    from "1.IH"(1) [OF join this] show ?thesis
      using join len unfolding join_from.simps [of J f e xs n i] parts tail by simp
  next
    case skip
    have tail: "drop i (take n xs) = xs ! i # xs ! (i + 1) # drop (i + 2) (take n xs)"
      and front: "take (i + 1) (take n xs) = take i (take n xs) @ [xs ! i]"
      and rest: "drop (i + 1) (take n xs) = xs ! (i + 1) # drop (i + 2) (take n xs)"
      using skip(1) "1.prems" by (simp_all add: Cons_nth_drop_Suc [symmetric] take_Suc_conv_app_nth)
    from "1.IH"(2) [OF skip "1.prems"] show ?thesis
      using skip unfolding join_from.simps [of J f e xs n i] front rest tail by (simp split: prod.splits)
  qed
qed

end
