(* ===== verification/Effect.thy ===== *)
theory Effect
  imports Prelude
begin

text \<open>
  Fallible operations on a state: a function from the state to a result and the state it leaves,
  also when it fails. \<open>and_then\<close> is the \<open>?\<close> operator of the sources: the first error ends the
  operation and keeps the state reached so far.
\<close>

type_synonym ('s, 'e, 'a) eff = "'s \<Rightarrow> ('e + 'a) \<times> 's"

definition ok :: "'a \<Rightarrow> ('s, 'e, 'a) eff" where
  "ok x s = (Inr x, s)"

definition fail :: "'e \<Rightarrow> ('s, 'e, 'a) eff" where
  "fail e s = (Inl e, s)"

definition and_then :: "('s, 'e, 'a) eff \<Rightarrow> ('a \<Rightarrow> ('s, 'e, 'b) eff) \<Rightarrow> ('s, 'e, 'b) eff" where
  "and_then m f s = (case m s of (Inl e, s') \<Rightarrow> (Inl e, s') | (Inr x, s') \<Rightarrow> f x s')"

definition gets :: "('s \<Rightarrow> 'a) \<Rightarrow> ('s, 'e, 'a) eff" where
  "gets f s = (Inr (f s), s)"

definition modify :: "('s \<Rightarrow> 's) \<Rightarrow> ('s, 'e, unit) eff" where
  "modify f s = (Inr (), f s)"

definition of_result :: "'e + 'a \<Rightarrow> ('s, 'e, 'a) eff" where
  "of_result r s = (r, s)"

definition ok_or :: "'e \<Rightarrow> 'a option \<Rightarrow> 'e + 'a" where
  "ok_or e x = (case x of None \<Rightarrow> Inl e | Some y \<Rightarrow> Inr y)"

lemma eff_simps [simp]:
  "ok x s = (Inr x, s)" "fail e s = (Inl e, s)" "gets f s = (Inr (f s), s)"
  "modify g s = (Inr (), g s)" "of_result r s = (r, s)"
  by (simp_all add: ok_def fail_def gets_def modify_def of_result_def)

lemma ok_or_simps [simp]:
  "ok_or e None = Inl e" "ok_or e (Some x) = Inr x"
  "ok_or e y = Inl e' \<longleftrightarrow> y = None \<and> e' = e" "ok_or e y = Inr x \<longleftrightarrow> y = Some x"
  by (auto simp: ok_or_def split: option.splits)

lemma and_then_Inr: "m s = (Inr x, s') \<Longrightarrow> and_then m f s = f x s'"
  by (simp add: and_then_def)

lemma and_then_Inl: "m s = (Inl e, s') \<Longrightarrow> and_then m f s = (Inl e, s')"
  by (simp add: and_then_def)

lemma and_then_simps [simp]:
  "and_then (ok x) f = f x" "and_then (fail e) f = fail e" "and_then (gets g) f s = f (g s) s"
  "and_then (modify h) k s = k () (h s)" "and_then (of_result (Inr x)) f = f x"
  "and_then (of_result (Inl e)) f = fail e"
  by (auto simp: and_then_def)

lemma and_then_InrE:
  assumes "and_then m f s = (Inr y, s'')"
  obtains x s' where "m s = (Inr x, s')" and "f x s' = (Inr y, s'')"
  using assms by (auto simp: and_then_def split: prod.splits sum.splits)

lemma and_then_InlE:
  assumes "and_then m f s = (Inl e, s'')"
  obtains "m s = (Inl e, s'')" | x s' where "m s = (Inr x, s')" and "f x s' = (Inl e, s'')"
  using assms by (auto simp: and_then_def split: prod.splits sum.splits)

lemma and_then_assoc: "and_then (and_then m f) g = and_then m (\<lambda>x. and_then (f x) g)"
  by (rule ext) (auto simp: and_then_def split: prod.splits sum.splits)

end
