(* ===== verification/Bytes.thy ===== *)
theory Bytes
  imports Prelude
begin

text \<open>
  Typed values as bytes (crates/base/repr/src/lib.rs). A window is a list of bytes; \<open>sub_slice\<close> and
  \<open>put_slice\<close> are the indexing and the \<open>copy_from_slice\<close> of a sub-slice, \<open>at_le\<close>, \<open>field_be\<close>,
  \<open>put_le\<close> and \<open>put_be\<close> the integer fields at a constant offset. The compile-time assertion that
  a field lies inside its window is the side condition of the laws. Integers are natural numbers,
  truncated to the field's width when written.
\<close>

section \<open>Integers as bytes\<close>

type_synonym byte = "8 word"

fun le_bytes :: "nat \<Rightarrow> nat \<Rightarrow> byte list" where
  "le_bytes 0 v = []"
| "le_bytes (Suc n) v = of_nat v # le_bytes n (v div 256)"

fun le_value :: "byte list \<Rightarrow> nat" where
  "le_value [] = 0"
| "le_value (b # bs) = unat b + 256 * le_value bs"

definition be_bytes :: "nat \<Rightarrow> nat \<Rightarrow> byte list" where
  "be_bytes n v = rev (le_bytes n v)"

definition be_value :: "byte list \<Rightarrow> nat" where
  "be_value bs = le_value (rev bs)"

lemma le_bytes_length [simp]: "length (le_bytes n v) = n"
  by (induction n arbitrary: v) simp_all

lemma be_bytes_length [simp]: "length (be_bytes n v) = n"
  by (simp add: be_bytes_def)

lemma le_value_bytes: "le_value (le_bytes n v) = v mod 256 ^ n"
proof (induction n arbitrary: v)
  case (Suc n)
  have "v mod 256 + 256 * (v div 256 mod 256 ^ n) = v mod (256 * 256 ^ n)"
    by (metis add.commute mod_mult2_eq mult.commute)
  then show ?case using Suc by (simp add: unat_of_nat)
qed simp

lemma unat_byte_lt: "unat (b :: byte) < 256"
  using unsigned_less [of b, where ?'a = nat] by simp

lemma le_value_lt: "le_value bs < 256 ^ length bs"
proof (induction bs)
  case (Cons b bs)
  have "unat b < 256" by (rule unat_byte_lt)
  then show ?case using Cons by simp
qed simp

lemma le_bytes_value: "le_bytes (length bs) (le_value bs) = bs"
proof (induction bs)
  case (Cons b bs)
  have "unat b < 256" by (rule unat_byte_lt)
  moreover have "of_nat (unat b + 256 * le_value bs) = (of_nat (unat b) :: byte)"
    unfolding word_of_nat_eq_iff by (simp add: take_bit_eq_mod)
  ultimately show ?case using Cons by simp
qed simp

lemma be_value_bytes: "be_value (be_bytes n v) = v mod 256 ^ n"
  by (simp add: be_value_def be_bytes_def le_value_bytes)

lemma be_value_lt: "be_value bs < 256 ^ length bs"
  using le_value_lt [of "rev bs"] by (simp add: be_value_def)

lemma be_bytes_value: "be_bytes (length bs) (be_value bs) = bs"
  using le_bytes_value [of "rev bs"] by (simp add: be_bytes_def be_value_def)

lemma be_bytes_simps [simp]:
  "be_bytes 0 v = []" "be_bytes (Suc n) v = be_bytes n (v div 256) @ [of_nat v]"
  by (simp_all add: be_bytes_def)

section \<open>Slices and fields of a window\<close>

definition sub_slice :: "nat \<Rightarrow> nat \<Rightarrow> 'a list \<Rightarrow> 'a list" where
  "sub_slice at n w = take n (drop at w)"

definition put_slice :: "nat \<Rightarrow> 'a list \<Rightarrow> 'a list \<Rightarrow> 'a list" where
  "put_slice at bs w = take at w @ bs @ drop (at + length bs) w"

definition at_le :: "nat \<Rightarrow> nat \<Rightarrow> byte list \<Rightarrow> nat" where
  "at_le n at w = le_value (sub_slice at n w)"

definition field_be :: "nat \<Rightarrow> nat \<Rightarrow> byte list \<Rightarrow> nat" where
  "field_be n at w = be_value (sub_slice at n w)"

definition put_le :: "nat \<Rightarrow> nat \<Rightarrow> nat \<Rightarrow> byte list \<Rightarrow> byte list" where
  "put_le n at v w = put_slice at (le_bytes n v) w"

definition put_be :: "nat \<Rightarrow> nat \<Rightarrow> nat \<Rightarrow> byte list \<Rightarrow> byte list" where
  "put_be n at v w = put_slice at (be_bytes n v) w"

definition put_byte :: "nat \<Rightarrow> byte \<Rightarrow> byte list \<Rightarrow> byte list" where
  "put_byte at b w = w[at := b]"

text \<open>The fixed-size records a table is cut into; a shorter tail is not yielded.\<close>

fun records :: "nat \<Rightarrow> 'a list \<Rightarrow> 'a list list" where
  "records n bs = (if n = 0 \<or> length bs < n then [] else take n bs # records n (drop n bs))"

declare records.simps [simp del]

named_theorems window_laws \<open>reading back what was written into a window\<close>

lemma slice_length: "at + n \<le> length w \<Longrightarrow> length (sub_slice at n w) = n"
  by (simp add: sub_slice_def)

lemma put_slice_length [window_laws]: "at + length bs \<le> length w \<Longrightarrow> length (put_slice at bs w) = length w"
  by (simp add: put_slice_def)

lemma slice_put_slice [window_laws]:
  "at + length bs \<le> length w \<Longrightarrow> n = length bs \<Longrightarrow> sub_slice at n (put_slice at bs w) = bs"
  by (simp add: sub_slice_def put_slice_def)

lemma slice_put_before [window_laws]:
  "at' + n \<le> at \<Longrightarrow> at \<le> length w \<Longrightarrow> sub_slice at' n (put_slice at bs w) = sub_slice at' n w"
  by (simp add: sub_slice_def put_slice_def drop_take take_append)

lemma slice_put_after [window_laws]:
  "at + length bs \<le> at' \<Longrightarrow> at \<le> length w \<Longrightarrow> sub_slice at' n (put_slice at bs w) = sub_slice at' n w"
  by (simp add: sub_slice_def put_slice_def)

lemma put_byte_slice: "at < length w \<Longrightarrow> put_byte at b w = put_slice at [b] w"
  by (simp add: put_byte_def put_slice_def upd_conv_take_nth_drop)

lemma nth_put_slice:
  "at + length bs \<le> length w \<Longrightarrow> i < length w \<Longrightarrow>
   put_slice at bs w ! i = (if at \<le> i \<and> i < at + length bs then bs ! (i - at) else w ! i)"
  by (auto simp: put_slice_def nth_append)

lemma field_lengths [window_laws]:
  "at + n \<le> length w \<Longrightarrow> length (put_le n at v w) = length w"
  "at + n \<le> length w \<Longrightarrow> length (put_be n at v w) = length w"
  "length (put_byte at b w) = length w"
  by (simp_all add: put_le_def put_be_def put_byte_def put_slice_length)

lemma slice_put_field [window_laws]:
  "at' + m \<le> at \<or> at + n \<le> at' \<Longrightarrow> at \<le> length w \<Longrightarrow> sub_slice at' m (put_le n at v w) = sub_slice at' m w"
  "at' + m \<le> at \<or> at + n \<le> at' \<Longrightarrow> at \<le> length w \<Longrightarrow> sub_slice at' m (put_be n at v w) = sub_slice at' m w"
  "at' + m \<le> at \<or> at < at' \<Longrightarrow> at < length w \<Longrightarrow> sub_slice at' m (put_byte at b w) = sub_slice at' m w"
  by (auto simp: put_le_def put_be_def put_byte_slice slice_put_before slice_put_after)

lemma field_put_same [window_laws]:
  "at + n \<le> length w \<Longrightarrow> at_le n at (put_le n at v w) = v mod 256 ^ n"
  "at + n \<le> length w \<Longrightarrow> field_be n at (put_be n at v w) = v mod 256 ^ n"
  by (simp_all add: at_le_def put_le_def field_be_def put_be_def slice_put_slice le_value_bytes be_value_bytes)

lemma field_put_other [window_laws]:
  "at' + m \<le> at \<or> at + n \<le> at' \<Longrightarrow> at \<le> length w \<Longrightarrow> at_le m at' (put_le n at v w) = at_le m at' w"
  "at' + m \<le> at \<or> at + n \<le> at' \<Longrightarrow> at \<le> length w \<Longrightarrow> field_be m at' (put_be n at v w) = field_be m at' w"
  "at' + m \<le> at \<or> at < at' \<Longrightarrow> at < length w \<Longrightarrow> at_le m at' (put_byte at b w) = at_le m at' w"
  "at' + m \<le> at \<or> at + length bs \<le> at' \<Longrightarrow> at \<le> length w \<Longrightarrow> at_le m at' (put_slice at bs w) = at_le m at' w"
  by (auto simp: at_le_def field_be_def slice_put_field slice_put_before slice_put_after)

lemma byte_put [window_laws]:
  "i < at \<or> at + n \<le> i \<Longrightarrow> at + n \<le> length w \<Longrightarrow> i < length w \<Longrightarrow> put_le n at v w ! i = w ! i"
  "i < at \<or> at + length bs \<le> i \<Longrightarrow> at + length bs \<le> length w \<Longrightarrow> i < length w \<Longrightarrow> put_slice at bs w ! i = w ! i"
  "i < length w \<Longrightarrow> put_byte at b w ! i = (if i = at then b else w ! i)"
  by (auto simp: put_le_def put_byte_def nth_put_slice)

lemma at_le_lt: "at + n \<le> length w \<Longrightarrow> at_le n at w < 256 ^ n"
  using le_value_lt [of "sub_slice at n w"] by (simp add: at_le_def slice_length)

lemma slice_as_field: "at + n \<le> length w \<Longrightarrow> sub_slice at n w = le_bytes n (at_le n at w)"
  using le_bytes_value [of "sub_slice at n w"] by (simp add: at_le_def slice_length)

lemma slice_split: "sub_slice at (m + n) w = sub_slice at m w @ sub_slice (at + m) n w"
  by (simp add: sub_slice_def take_add add.commute)

lemma slice_all: "length w = n \<Longrightarrow> sub_slice 0 n w = w"
  by (simp add: sub_slice_def)

lemma slice_slice: "i + m \<le> n \<Longrightarrow> sub_slice i m (sub_slice at n w) = sub_slice (at + i) m w"
  by (simp add: sub_slice_def drop_take min_def add.commute)

lemma nth_slice: "i < n \<Longrightarrow> at + n \<le> length w \<Longrightarrow> sub_slice at n w ! i = w ! (at + i)"
  by (simp add: sub_slice_def)

text \<open>
  A row of field writes. \<open>last_put\<close> says what a field of the window reads afterwards: the value
  last written there, nothing if every write missed it, and no answer where one overlaps it.
\<close>

definition put_all :: "(nat \<times> nat \<times> nat) list \<Rightarrow> byte list \<Rightarrow> byte list" where
  "put_all fs w = fold (\<lambda>(n, at, v). put_le n at v) fs w"

definition fields_in :: "nat \<Rightarrow> (nat \<times> nat \<times> nat) list \<Rightarrow> bool" where
  "fields_in len fs = list_all (\<lambda>(n, at, v). at + n \<le> len) fs"

definition fields_miss :: "nat \<Rightarrow> nat \<Rightarrow> (nat \<times> nat \<times> nat) list \<Rightarrow> bool" where
  "fields_miss n at fs = list_all (\<lambda>(m, b, v). at + n \<le> b \<or> b + m \<le> at) fs"

fun last_put :: "nat \<Rightarrow> nat \<Rightarrow> (nat \<times> nat \<times> nat) list \<Rightarrow> nat option" where
  "last_put n at [] = None"
| "last_put n at ((m, b, v) # fs) =
     (if m = n \<and> b = at \<and> fields_miss n at fs then Some v else last_put n at fs)"

lemma put_all_simps: "put_all [] w = w" "put_all ((n, at, v) # fs) w = put_all fs (put_le n at v w)"
  by (simp_all add: put_all_def)

lemma put_all_length: "fields_in (length w) fs \<Longrightarrow> length (put_all fs w) = length w"
  by (induction fs arbitrary: w) (auto simp: put_all_simps fields_in_def field_lengths)

lemma put_all_slice:
  "fields_in (length w) fs \<Longrightarrow> fields_miss n at fs \<Longrightarrow> sub_slice at n (put_all fs w) = sub_slice at n w"
  by (induction fs arbitrary: w) (auto simp: put_all_simps fields_in_def fields_miss_def field_lengths slice_put_field)

lemma put_all_miss:
  "fields_in (length w) fs \<Longrightarrow> fields_miss n at fs \<Longrightarrow> at_le n at (put_all fs w) = at_le n at w"
  by (simp add: at_le_def put_all_slice)

lemma put_all_get:
  "fields_in (length w) fs \<Longrightarrow> last_put n at fs = Some v \<Longrightarrow> at_le n at (put_all fs w) = v mod 256 ^ n"
proof (induction n at fs arbitrary: w rule: last_put.induct)
  case (2 n at m b u fs)
  then show ?case
    by (auto simp: put_all_simps fields_in_def field_lengths put_all_miss field_put_same split: if_splits)
qed (simp add: put_all_simps)

lemmas put_all_eval = fields_in_def fields_miss_def

text \<open>Rows of a table, written one after the other from an offset on.\<close>

fun put_rows :: "nat \<Rightarrow> 'a list list \<Rightarrow> 'a list \<Rightarrow> 'a list" where
  "put_rows at [] w = w"
| "put_rows at (r # rs) w = put_rows (at + length r) rs (put_slice at r w)"

lemma put_rows_length:
  "at + length (concat rs) \<le> length w \<Longrightarrow> length (put_rows at rs w) = length w"
  by (induction rs arbitrary: at w) (simp_all add: put_slice_length)

lemma put_rows_slice:
  "at + length (concat rs) \<le> length w \<Longrightarrow> i + n \<le> at \<or> at + length (concat rs) \<le> i
   \<Longrightarrow> sub_slice i n (put_rows at rs w) = sub_slice i n w"
proof (induction rs arbitrary: at w)
  case (Cons r rs)
  then have "sub_slice i n (put_rows at (r # rs) w) = sub_slice i n (put_slice at r w)"
    by (auto simp: put_slice_length)
  also have "\<dots> = sub_slice i n w" using Cons.prems by (auto simp: slice_put_before slice_put_after)
  finally show ?case .
qed simp

lemma put_rows_row:
  assumes "at + length rs * n \<le> length w" and "\<forall>r \<in> set rs. length r = n" and "i < length rs"
  shows "sub_slice (at + i * n) n (put_rows at rs w) = rs ! i"
  using assms
proof (induction rs arbitrary: at w i)
  case (Cons r rs)
  have cat: "length (concat xs) = length xs * n" if "\<forall>r \<in> set xs. length r = n" for xs :: "'a list list"
    using that by (induction xs) simp_all
  have r: "length r = n" "at + n + length rs * n \<le> length w" using Cons.prems by auto
  then have w: "length (put_slice at r w) = length w" by (simp add: put_slice_length)
  show ?case
  proof (cases i)
    case 0
    have "sub_slice at n (put_rows (at + n) rs (put_slice at r w)) = sub_slice at n (put_slice at r w)"
      using put_rows_slice [of "at + n" rs "put_slice at r w" at n] cat [of rs] w r Cons.prems(2) by simp
    then show ?thesis using 0 r by (simp add: slice_put_slice)
  next
    case (Suc j)
    then show ?thesis using Cons.IH [of "at + n" "put_slice at r w" j] Cons.prems r w by (simp add: add.assoc)
  qed
qed simp

end
