(* ===== verification/Fs_Crc.thy ===== *)
theory Fs_Crc
  imports Bytes
begin

text \<open>
  The checksum every block of a volume carries (crates/storage/fs/src/crc.rs): crc32c by table,
  eight bytes a round, and by the instruction, which is a parameter. Both are compared with the
  definition of the code, one bit at a time.
\<close>

section \<open>crc32c (crates/storage/fs/src/crc.rs)\<close>

definition crc_POLY :: u32 where "crc_POLY = 0x82f63b78"

definition crc_SLICES :: nat where "crc_SLICES = 8"

definition crc_bit :: "u32 \<Rightarrow> u32" where
  "crc_bit residue = drop_bit 1 residue XOR (crc_POLY AND (- (residue AND 1)))"

fun crc_TABLE :: "nat \<Rightarrow> nat \<Rightarrow> u32" where
  "crc_TABLE 0 b = (crc_bit ^^ 8) (of_nat b)"
| "crc_TABLE (Suc n) b =
     (let shorter = crc_TABLE n b in drop_bit 8 shorter XOR crc_TABLE 0 (unat (shorter AND 0xff)))"

declare crc_TABLE.simps [simp del]

text \<open>A byte through the table, and a round of eight.\<close>

definition crc_byte :: "u32 \<Rightarrow> byte \<Rightarrow> u32" where
  "crc_byte crc b = drop_bit 8 crc XOR crc_TABLE 0 (unat ((crc XOR ucast b) AND 0xff))"

definition crc_round :: "u32 \<Rightarrow> byte list \<Rightarrow> u32" where
  "crc_round crc r =
     (let low = of_nat (le_value (sub_slice 0 4 r)) XOR crc; high = of_nat (le_value (sub_slice 4 4 r)) :: u32
      in crc_TABLE 7 (unat (low AND 0xff)) XOR crc_TABLE 6 (unat (drop_bit 8 low AND 0xff))
         XOR crc_TABLE 5 (unat (drop_bit 16 low AND 0xff)) XOR crc_TABLE 4 (unat (drop_bit 24 low))
         XOR crc_TABLE 3 (unat (high AND 0xff)) XOR crc_TABLE 2 (unat (drop_bit 8 high AND 0xff))
         XOR crc_TABLE 1 (unat (drop_bit 16 high AND 0xff)) XOR crc_TABLE 0 (unat (drop_bit 24 high)))"

function crc_sliced :: "u32 \<Rightarrow> byte list \<Rightarrow> u32" where
  "crc_sliced crc bytes =
     (if crc_SLICES \<le> length bytes
      then crc_sliced (crc_round crc (take crc_SLICES bytes)) (drop crc_SLICES bytes)
      else foldl crc_byte crc bytes)"
  by auto
termination
  by (relation "measure (\<lambda>(crc, bytes). length bytes)") (auto simp: crc_SLICES_def)

declare crc_sliced.simps [simp del]

text \<open>The path through the instruction: \<open>wide_op\<close> and \<open>byte_op\<close> are the two intrinsics.\<close>

function crc_wide :: "(u64 \<Rightarrow> u64 \<Rightarrow> u64) \<Rightarrow> u64 \<Rightarrow> byte list \<Rightarrow> u64 \<times> byte list" where
  "crc_wide wide_op wide bytes =
     (if 8 \<le> length bytes
      then crc_wide wide_op (wide_op wide (of_nat (le_value (take 8 bytes)))) (drop 8 bytes)
      else (wide, bytes))"
  by auto
termination
  by (relation "measure (\<lambda>(wide_op, wide, bytes). length bytes)") auto

declare crc_wide.simps [simp del]

definition crc_intrinsic :: "(u64 \<Rightarrow> u64 \<Rightarrow> u64) \<Rightarrow> (u32 \<Rightarrow> byte \<Rightarrow> u32) \<Rightarrow> u32 \<Rightarrow> byte list \<Rightarrow> u32" where
  "crc_intrinsic wide_op byte_op crc bytes =
     (case crc_wide wide_op (ucast crc) bytes of (wide, rest) \<Rightarrow> foldl byte_op (ucast wide) rest)"

definition crc_fold :: "bool \<Rightarrow> (u64 \<Rightarrow> u64 \<Rightarrow> u64) \<Rightarrow> (u32 \<Rightarrow> byte \<Rightarrow> u32) \<Rightarrow> u32 \<Rightarrow> byte list \<Rightarrow> u32" where
  "crc_fold present wide_op byte_op crc bytes = (if present then crc_intrinsic wide_op byte_op crc bytes else crc_sliced crc bytes)"

definition crc_new :: u32 where "crc_new = NOT 0"

definition crc_update :: "u32 \<Rightarrow> byte list \<Rightarrow> u32" where
  "crc_update crc bytes = crc_sliced crc bytes"

definition crc_finish :: "u32 \<Rightarrow> u32" where "crc_finish crc = NOT crc"

definition crc32c :: "byte list \<Rightarrow> u32" where
  "crc32c bytes = crc_finish (crc_update crc_new bytes)"

subsection \<open>The code one bit at a time\<close>

text \<open>The reference: the unit tests' \<open>bitwise\<close>, folded from any start.\<close>

definition crc_step :: "u32 \<Rightarrow> byte \<Rightarrow> u32" where
  "crc_step crc b = (crc_bit ^^ 8) (crc XOR ucast b)"

lemma crc_bit_if: "crc_bit r = drop_bit 1 r XOR (if odd r then crc_POLY else 0)"
proof -
  have "r AND 1 = of_bool (odd r)" by (simp add: and_one_eq mod_2_eq_odd)
  then show ?thesis by (simp add: crc_bit_def)
qed

lemma crc_bit_xor: "crc_bit (a XOR b) = crc_bit a XOR crc_bit b"
proof -
  have "odd (a XOR b) \<longleftrightarrow> odd a \<noteq> odd b" by (simp add: even_xor_iff)
  then show ?thesis by (auto simp: crc_bit_if drop_bit_xor ac_simps)
qed

lemma crc_bits_xor: "(crc_bit ^^ n) (a XOR b) = (crc_bit ^^ n) a XOR (crc_bit ^^ n) b"
  by (induction n) (simp_all add: crc_bit_xor)

lemma crc_bits_0 [simp]: "(crc_bit ^^ n) 0 = 0"
  by (induction n) (simp_all add: crc_bit_if)

lemma crc_bit_push:
  assumes "n < 32" and "\<And>i. 31 - n \<le> i \<Longrightarrow> \<not> bit y i"
  shows "crc_bit (push_bit (Suc n) y) = push_bit n (y :: u32)"
proof -
  have "drop_bit 1 (push_bit (Suc n) y) = push_bit n y"
  proof (rule bit_word_eqI)
    fix i
    assume "i < LENGTH(32)"
    then show "bit (drop_bit 1 (push_bit (Suc n) y)) i = bit (push_bit n y) i"
      using assms(2) [of "i - n"] by (cases "i = 31") (auto simp: bit_simps simp del: push_bit_Suc)
  qed
  then show ?thesis by (simp add: crc_bit_if even_push_bit_iff del: push_bit_Suc)
qed

lemma crc_bits_push:
  assumes "n \<le> m" and "m \<le> 32" and "\<And>i. 32 - m \<le> i \<Longrightarrow> \<not> bit y i"
  shows "(crc_bit ^^ n) (push_bit m y) = push_bit (m - n) (y :: u32)"
  using assms(1)
proof (induction n)
  case (Suc n)
  then have m: "m - n = Suc (m - Suc n)" by simp
  have "(crc_bit ^^ Suc n) (push_bit m y) = crc_bit (push_bit (Suc (m - Suc n)) y)" using Suc m by simp
  also have "\<dots> = push_bit (m - Suc n) y" by (rule crc_bit_push) (use assms(2,3) Suc.prems in auto)
  finally show ?case .
qed simp

text \<open>The step of a whole byte drops the low byte and adds its residue.\<close>

abbreviation crc_shift :: "u32 \<Rightarrow> u32" where "crc_shift \<equiv> crc_bit ^^ 8"

lemma and_ff: "(x :: u32) AND 0xff = take_bit 8 x"
  by (simp add: take_bit_eq_mask mask_eq_exp_minus_1)

lemma low_byte_split: "(x :: u32) = push_bit 8 (drop_bit 8 x) XOR (x AND 0xff)"
  unfolding and_ff by (rule bit_word_eqI) (auto simp: bit_simps)

lemma crc_shift_table: "crc_shift x = drop_bit 8 x XOR crc_TABLE 0 (unat (x AND 0xff))"
proof -
  have "(crc_bit ^^ 8) (push_bit 8 (drop_bit 8 x)) = drop_bit 8 x"
    by (subst crc_bits_push) (auto simp: bit_drop_bit_eq dest: bit_imp_le_length)
  then show ?thesis by (subst low_byte_split [of x]) (simp add: crc_bits_xor crc_TABLE.simps)
qed

lemma crc_TABLE_shift: "crc_TABLE n b = (crc_shift ^^ Suc n) (of_nat b)"
proof (induction n)
  case (Suc n)
  then show ?case by (simp add: crc_TABLE.simps(2) crc_shift_table [symmetric] Let_def del: funpow.simps)
      (simp add: funpow_swap1)
qed (simp add: crc_TABLE.simps)

lemma crc_byte_step: "crc_byte crc b = crc_step crc b"
proof -
  have "drop_bit 8 (crc XOR ucast b) = drop_bit 8 crc"
    by (rule bit_word_eqI) (auto simp: bit_simps dest: bit_imp_le_length)
  then show ?thesis by (simp add: crc_byte_def crc_step_def crc_shift_table)
qed

lemma of_nat_le_cons: "of_nat (le_value (b # bs)) = (ucast b XOR push_bit 8 (of_nat (le_value bs)) :: u32)"
proof -
  have "(ucast b :: u32) + push_bit 8 (of_nat (le_value bs)) = ucast b XOR push_bit 8 (of_nat (le_value bs))"
  proof -
    have disj: "(ucast b :: u32) AND push_bit 8 (of_nat (le_value bs)) = 0"
      by (rule bit_word_eqI) (auto simp: bit_simps dest: bit_imp_le_length)
    then show ?thesis by (rule disjunctive_add_eq_xor)
  qed
  then show ?thesis by (simp add: push_bit_eq_mult of_nat_unat mult.commute)
qed

lemma of_nat_le_high:
  assumes "length bs \<le> 3" and "24 \<le> i"
  shows "\<not> bit (of_nat (le_value bs) :: u32) i"
proof -
  have "le_value bs < 256 ^ 3"
    using le_value_lt [of bs] power_increasing [OF assms(1), of "256::nat"] by simp
  then have "of_nat (le_value bs) = (take_bit 24 (of_nat (le_value bs)) :: u32)"
    by (simp add: take_bit_of_nat take_bit_nat_eq_self)
  then show ?thesis using assms(2) by (metis bit_take_bit_iff linorder_not_less)
qed

lemma crc_burst: "length us \<le> 4 \<Longrightarrow> foldl crc_step c us = (crc_shift ^^ length us) (c XOR of_nat (le_value us))"
proof (induction us arbitrary: c)
  case (Cons u us)
  let ?v = "of_nat (le_value us) :: u32"
  have "\<not> bit ?v i" if "24 \<le> i" for i using of_nat_le_high [of us i] Cons.prems that by simp
  then have "crc_shift (push_bit 8 ?v) = ?v" by (subst crc_bits_push) auto
  then have "crc_shift (c XOR of_nat (le_value (u # us))) = crc_step c u XOR ?v"
    unfolding of_nat_le_cons crc_step_def by (simp add: crc_bits_xor ac_simps)
  then show ?case using Cons by (simp add: funpow_swap1 del: le_value.simps)
qed simp

text \<open>Four bytes of a word, each shifted into its own table.\<close>

lemma crc_shifts_xor: "(crc_shift ^^ n) (a XOR b) = (crc_shift ^^ n) a XOR (crc_shift ^^ n) b"
  by (induction n) (simp_all add: crc_bits_xor)

lemma crc_shifts_0 [simp]: "(crc_shift ^^ n) 0 = 0"
  by (induction n) simp_all

lemma crc_shifts_low: "(crc_shift ^^ Suc n) w = (crc_shift ^^ n) (drop_bit 8 w) XOR crc_TABLE n (unat (w AND 0xff))"
proof -
  have "crc_shift w = drop_bit 8 w XOR crc_shift (of_nat (unat (w AND 0xff)))"
    by (subst crc_shift_table) (simp add: crc_TABLE_shift)
  then show ?thesis
    by (simp add: funpow_swap1 crc_shifts_xor crc_TABLE_shift)
qed

lemma crc_word_bytes:
  "(crc_shift ^^ (n + 4)) w = crc_TABLE (n + 3) (unat (w AND 0xff)) XOR crc_TABLE (n + 2) (unat (drop_bit 8 w AND 0xff))
    XOR crc_TABLE (n + 1) (unat (drop_bit 16 w AND 0xff)) XOR crc_TABLE n (unat (drop_bit 24 w))"
proof -
  have top: "drop_bit 24 w AND 0xff = drop_bit 24 w" "drop_bit 32 w = 0"
    by (rule bit_word_eqI; auto simp: and_ff bit_simps dest: bit_imp_le_length)+
  have "n + 4 = Suc (Suc (Suc (Suc n)))" by simp
  then show ?thesis
    by (simp only: crc_shifts_low top drop_bit_drop_bit crc_shifts_0) (simp add: ac_simps numeral_3_eq_3 top)
qed

lemma crc_round_steps:
  assumes "length r = 8"
  shows "crc_round crc r = foldl crc_step crc r"
proof -
  let ?l = "sub_slice 0 4 r" and ?h = "sub_slice 4 4 r"
  have r: "r = ?l @ ?h" and len: "length ?l = 4" "length ?h = 4"
    using assms by (simp_all add: sub_slice_def)
  let ?low = "of_nat (le_value ?l) XOR crc" and ?high = "of_nat (le_value ?h) :: u32"
  have "foldl crc_step crc r = foldl crc_step (foldl crc_step crc ?l) ?h" by (subst r) simp
  also have "\<dots> = (crc_shift ^^ 4) ((crc_shift ^^ 4) ?low XOR ?high)"
    using len by (simp add: crc_burst ac_simps)
  also have "\<dots> = (crc_shift ^^ (4 + 4)) ?low XOR (crc_shift ^^ (0 + 4)) ?high"
    by (simp only: crc_shifts_xor funpow_add comp_apply add_0)
  also have "\<dots> = crc_round crc r"
    unfolding crc_word_bytes crc_round_def Let_def by (simp add: xor.assoc numeral_2_eq_2)
  finally show ?thesis by simp
qed

lemma crc_sliced_steps: "crc_sliced crc bytes = foldl crc_step crc bytes"
proof (induction crc bytes rule: crc_sliced.induct)
  case (1 crc bytes)
  show ?case
  proof (cases "crc_SLICES \<le> length bytes")
    case True
    then have "crc_sliced crc bytes = foldl crc_step (foldl crc_step crc (take 8 bytes)) (drop 8 bytes)"
      using "1.IH" by (subst crc_sliced.simps) (simp add: crc_round_steps crc_SLICES_def)
    also have "\<dots> = foldl crc_step crc (take 8 bytes @ drop 8 bytes)" by (simp only: foldl_append)
    finally show ?thesis by simp
  next
    case False
    have "crc_byte = crc_step" by (intro ext) (rule crc_byte_step)
    then show ?thesis using False by (subst crc_sliced.simps) simp
  qed
qed

lemma crc_update_append: "crc_update (crc_update crc xs) ys = crc_update crc (xs @ ys)"
  by (simp add: crc_update_def crc_sliced_steps)

lemma crc_wide_steps:
  assumes "\<And>c w. wide_op (ucast c) w = ucast (foldl crc_step c (le_bytes 8 (unat w)))"
  shows "\<exists>c' rest. crc_wide wide_op (ucast c) bytes = (ucast c', rest) \<and> foldl crc_step c' rest = foldl crc_step c bytes"
proof (induction "length bytes" arbitrary: bytes c rule: less_induct)
  case less
  show ?case
  proof (cases "8 \<le> length bytes")
    case True
    have "le_value (take 8 bytes) < 2 ^ 64" using le_value_lt [of "take 8 bytes"] True by simp
    then have "unat (of_nat (le_value (take 8 bytes)) :: u64) = le_value (take 8 bytes)"
      by (simp add: unat_of_nat take_bit_nat_eq_self)
    then have "wide_op (ucast c) (of_nat (le_value (take 8 bytes))) = ucast (foldl crc_step c (take 8 bytes))"
      using assms le_bytes_value [of "take 8 bytes"] True by simp
    moreover have "foldl crc_step c bytes = foldl crc_step (foldl crc_step c (take 8 bytes)) (drop 8 bytes)"
      by (simp only: foldl_append [symmetric] append_take_drop_id)
    ultimately show ?thesis
      using less [of "drop 8 bytes" "foldl crc_step c (take 8 bytes)"] True by (subst crc_wide.simps) simp
  next
    case False
    then show ?thesis by (subst crc_wide.simps) auto
  qed
qed

text \<open>
  C21. The checksum through the eight-way table, and through the wide and byte instructions
  whenever those fold bytes as documented, is the bit by bit crc32c over the whole input.
\<close>

theorem crc_paths_agree:
  assumes "\<And>c w. wide_op (ucast c) w = ucast (foldl crc_step c (le_bytes 8 (unat w)))" and "\<And>c b. byte_op c b = crc_step c b"
  shows "crc_fold present wide_op byte_op crc bytes = foldl crc_step crc bytes \<and>
    crc32c bytes = NOT (foldl crc_step (NOT 0) bytes)"
proof -
  obtain c' rest where "crc_wide wide_op (ucast crc) bytes = (ucast c', rest)" "foldl crc_step c' rest = foldl crc_step crc bytes"
    using crc_wide_steps [OF assms(1)] by blast
  moreover have "byte_op = crc_step" by (intro ext) (rule assms(2))
  ultimately have "crc_intrinsic wide_op byte_op crc bytes = foldl crc_step crc bytes" by (simp add: crc_intrinsic_def)
  then show ?thesis
    by (simp add: crc_fold_def crc_sliced_steps crc32c_def crc_finish_def crc_update_def crc_new_def)
qed

theorem crc_paths_agree_witness:
  "crc_fold True (\<lambda>c w. ucast (foldl crc_step (ucast c) (le_bytes 8 (unat w)))) crc_step crc_new [0x6d, 0x6f, 0x6c, 0x74] =
   foldl crc_step crc_new [0x6d, 0x6f, 0x6c, 0x74]"
  using crc_paths_agree [where wide_op = "\<lambda>c w. ucast (foldl crc_step (ucast c) (le_bytes 8 (unat w)))" and byte_op = crc_step
      and present = True and crc = crc_new and bytes = "[0x6d, 0x6f, 0x6c, 0x74]"]
  by simp

lemma crc_bit_inj: "crc_bit a = crc_bit b \<Longrightarrow> a = b"
proof -
  assume eq: "crc_bit a = crc_bit b"
  have top: "bit (crc_bit x) 31 \<longleftrightarrow> odd x" for x
    by (auto simp: crc_bit_if bit_simps crc_POLY_def dest: bit_imp_le_length)
  have odds: "odd a \<longleftrightarrow> odd b" using top [of a] top [of b] eq by simp
  let ?p = "if odd b then crc_POLY else 0"
  have "(drop_bit 1 a XOR ?p) XOR ?p = (drop_bit 1 b XOR ?p) XOR ?p" using eq odds by (simp add: crc_bit_if)
  then have "drop_bit 1 a = drop_bit 1 b" by (simp only: xor.assoc xor_self_eq xor.right_neutral)
  then have "bit a (Suc i) = bit b (Suc i)" for i by (metis bit_drop_bit_eq comp_apply plus_1_eq_Suc)
  then have "bit a i = bit b i" for i using odds by (cases i) (simp_all add: bit_0)
  then show "a = b" by (rule bit_word_eqI)
qed

lemma crc_bits_inj: "(crc_bit ^^ n) a = (crc_bit ^^ n) b \<Longrightarrow> a = b"
  by (induction n) (auto dest: crc_bit_inj)

lemma crc_shifts_inj: "(crc_shift ^^ n) a = (crc_shift ^^ n) b \<Longrightarrow> a = b"
  by (induction n) (auto dest: crc_bits_inj)

lemma crc_steps_inj: "foldl crc_step c xs = foldl crc_step c' xs \<Longrightarrow> c = c'"
proof (induction xs arbitrary: c c')
  case (Cons x xs)
  then have "crc_step c x = crc_step c' x" by simp
  then have "c XOR ucast x = c' XOR ucast x" unfolding crc_step_def by (rule crc_bits_inj)
  then have "(c XOR ucast x) XOR ucast x = (c' XOR ucast x) XOR ucast x" by simp
  then show ?case by (simp only: xor.assoc xor_self_eq xor.right_neutral)
qed simp

lemma crc_burst_differs:
  assumes "length us = length vs" and "length us \<le> 4" and "us \<noteq> vs"
  shows "crc32c (xs @ us @ ys) \<noteq> crc32c (xs @ vs @ ys)"
proof
  let ?c = "foldl crc_step (NOT 0) xs"
  assume "crc32c (xs @ us @ ys) = crc32c (xs @ vs @ ys)"
  then have "foldl crc_step (foldl crc_step ?c us) ys = foldl crc_step (foldl crc_step ?c vs) ys"
    by (simp add: crc32c_def crc_finish_def crc_update_def crc_new_def crc_sliced_steps)
  then have "foldl crc_step ?c us = foldl crc_step ?c vs" by (rule crc_steps_inj)
  then have "?c XOR of_nat (le_value us) = ?c XOR of_nat (le_value vs)"
    using assms(1,2) by (simp add: crc_burst crc_shifts_inj)
  then have "?c XOR (?c XOR of_nat (le_value us)) = ?c XOR (?c XOR of_nat (le_value vs))" by simp
  then have "(of_nat (le_value us) :: u32) = of_nat (le_value vs)"
    by (simp only: xor.assoc [symmetric] xor_self_eq xor.left_neutral)
  moreover have "le_value us < 2 ^ 32" "le_value vs < 2 ^ 32"
    using le_value_lt [of us] le_value_lt [of vs] power_increasing [OF assms(2), of "256::nat"] assms(1) by simp_all
  ultimately have "le_value us = le_value vs" by (simp add: word_of_nat_eq_iff take_bit_nat_eq_self)
  then have "us = vs" using le_bytes_value [of us] le_bytes_value [of vs] assms(1) by metis
  then show False using assms(3) by simp
qed

end
