(* ===== verification/Capability.thy ===== *)
theory Capability
  imports Prelude
begin

section \<open>Authority handles and the audit log (crates/sys/core/src/capability.rs, audit.rs)\<close>

text \<open>
  A capability is one 64-bit value, the table index in the low half and the slot's
  generation in the high half. Its type parameter \<open>R\<close> is the mask \<open>R::MASK\<close>, passed as an
  argument here. The table is supervisor-owned and its slots carry the rights the resource
  was inserted with.
\<close>

subsection \<open>Rights and handles\<close>

type_synonym rights = u8
type_synonym cell_id = u32
type_synonym capability = u64

definition READ :: rights where "READ = push_bit 0 1"
definition WRITE :: rights where "WRITE = push_bit 1 1"
definition READ_WRITE :: rights where "READ_WRITE = READ OR WRITE"

definition rights_contains :: "rights \<Rightarrow> rights \<Rightarrow> bool" where
  "rights_contains self requested \<longleftrightarrow> self AND requested = requested"

definition capability_new :: "u32 \<Rightarrow> u32 \<Rightarrow> capability" where
  "capability_new index generation = ucast index OR push_bit 32 (ucast generation)"

definition capability_index :: "capability \<Rightarrow> nat" where
  "capability_index c = unat (ucast c :: u32)"

definition capability_generation :: "capability \<Rightarrow> u32" where
  "capability_generation c = ucast (drop_bit 32 c)"

datatype capability_error = Invalid | Stale | InsufficientRights

subsection \<open>The audit log\<close>

datatype action = Grant | Delegate | Revoke

record event =
  actor :: cell_id
  holder :: cell_id
  ev_resource :: u32
  ev_rights :: rights
  ev_action :: action

definition event_grant :: "cell_id \<Rightarrow> u32 \<Rightarrow> rights \<Rightarrow> event" where
  "event_grant own res r =
     \<lparr>actor = own, holder = own, ev_resource = res, ev_rights = r, ev_action = Grant\<rparr>"

definition event_delegate :: "cell_id \<Rightarrow> cell_id \<Rightarrow> u32 \<Rightarrow> rights \<Rightarrow> event" where
  "event_delegate src dst res r =
     \<lparr>actor = src, holder = dst, ev_resource = res, ev_rights = r, ev_action = Delegate\<rparr>"

definition event_revoke :: "cell_id \<Rightarrow> u32 \<Rightarrow> rights \<Rightarrow> event" where
  "event_revoke own res r =
     \<lparr>actor = own, holder = own, ev_resource = res, ev_rights = r, ev_action = Revoke\<rparr>"

record log =
  log_events :: "event option list"
  log_len :: nat
  log_next :: nat
  log_dropped :: nat

definition log_new :: "nat \<Rightarrow> log" where
  "log_new n = \<lparr>log_events = replicate n None, log_len = 0, log_next = 0, log_dropped = 0\<rparr>"

definition log_record :: "log \<Rightarrow> event \<Rightarrow> log" where
  "log_record l e =
     (let n = length (log_events l);
          l1 = (if log_events l ! log_next l \<noteq> None then l\<lparr>log_dropped := log_dropped l + 1\<rparr>
                else l\<lparr>log_len := log_len l + 1\<rparr>)
      in l1\<lparr>log_events := (log_events l1)[log_next l1 := Some e],
            log_next := (log_next l1 + 1) mod n\<rparr>)"

definition log_last :: "log \<Rightarrow> event option" where
  "log_last l =
     (if log_len l = 0 then None
      else log_events l ! ((log_next l + length (log_events l) - 1) mod length (log_events l)))"

definition log_iter :: "log \<Rightarrow> event list" where
  "log_iter l =
     (let n = length (log_events l); start = (if log_len l = n then log_next l else 0)
      in List.map_filter (\<lambda>off. log_events l ! ((start + off) mod n)) [0..<log_len l])"

subsection \<open>The table\<close>

record 'a slot =
  generation :: u32
  owner :: cell_id
  slot_rights :: rights
  resource :: "'a option"

definition slot_empty :: "'a slot" where
  "slot_empty = \<lparr>generation = 1, owner = 0, slot_rights = 0, resource = None\<rparr>"

definition advance_generation :: "'a slot \<Rightarrow> 'a slot" where
  "advance_generation s =
     (let s' = s\<lparr>generation := generation s + 1\<rparr>
      in if generation s' = 0 then s'\<lparr>generation := 1\<rparr> else s')"

definition slot_clear :: "'a slot \<Rightarrow> 'a slot" where
  "slot_clear s = advance_generation (s\<lparr>resource := None, slot_rights := 0\<rparr>)"

type_synonym 'a table = "'a slot list"

definition table_new :: "nat \<Rightarrow> 'a table" where
  "table_new n = replicate n slot_empty"

definition table_insert :: "rights \<Rightarrow> 'a table \<Rightarrow> cell_id \<Rightarrow> 'a \<Rightarrow> ('a + capability) \<times> 'a table" where
  "table_insert want t own res =
     (case find_index (\<lambda>s. resource s = None) t of
        None \<Rightarrow> (Inl res, t)
      | Some i \<Rightarrow>
          (let s = (t ! i)\<lparr>owner := own, slot_rights := want, resource := Some res\<rparr>
           in (Inr (capability_new (of_nat i) (generation s)), t[i := s])))"

definition table_validate :: "rights \<Rightarrow> 'a table \<Rightarrow> capability \<Rightarrow> capability_error + 'a slot" where
  "table_validate want t c =
     (if capability_index c \<ge> length t then Inl Invalid
      else (let s = t ! capability_index c
            in if generation s \<noteq> capability_generation c \<or> resource s = None then Inl Stale
               else if \<not> rights_contains (slot_rights s) want then Inl InsufficientRights
               else Inr s))"

definition table_attenuate ::
  "rights \<Rightarrow> rights \<Rightarrow> 'a table \<Rightarrow> capability \<Rightarrow> capability_error + capability" where
  "table_attenuate frm to t c =
     (case table_validate frm t c of
        Inl e \<Rightarrow> Inl e
      | Inr s \<Rightarrow>
          if \<not> rights_contains frm to \<or> \<not> rights_contains (slot_rights s) to
          then Inl InsufficientRights else Inr c)"

text \<open>\<open>delegate\<close> takes any sink that implements the \<open>Audit\<close> trait: its \<open>record\<close> is a parameter.\<close>

definition table_delegate ::
  "('l \<Rightarrow> event \<Rightarrow> 'l) \<Rightarrow> rights \<Rightarrow> rights \<Rightarrow> 'a table \<Rightarrow> capability \<Rightarrow> cell_id \<Rightarrow> cell_id \<Rightarrow> 'l \<Rightarrow>
   (capability_error + capability) \<times> 'l" where
  "table_delegate rec frm to t c src dst audit =
     (case table_attenuate frm to t c of
        Inl e \<Rightarrow> (Inl e, audit)
      | Inr c' \<Rightarrow> (Inr c', rec audit (event_delegate src dst (of_nat (capability_index c)) to)))"

definition table_get :: "rights \<Rightarrow> 'a table \<Rightarrow> capability \<Rightarrow> capability_error + 'a" where
  "table_get want t c =
     (case table_validate want t c of
        Inl e \<Rightarrow> Inl e
      | Inr s \<Rightarrow> (case resource s of None \<Rightarrow> Inl Stale | Some r \<Rightarrow> Inr r))"

text \<open>\<open>get_mut\<close> hands out a mutable borrow; \<open>f\<close> is what the borrower does with it.\<close>

definition table_get_mut ::
  "rights \<Rightarrow> 'a table \<Rightarrow> capability \<Rightarrow> ('a \<Rightarrow> 'a) \<Rightarrow> (capability_error + 'a) \<times> 'a table" where
  "table_get_mut want t c f =
     (let index = capability_index c; gen = capability_generation c
      in if index \<ge> length t then (Inl Invalid, t)
         else (let s = t ! index
               in if generation s \<noteq> gen \<or> resource s = None then (Inl Stale, t)
                  else if \<not> rights_contains (slot_rights s) want then (Inl InsufficientRights, t)
                  else (case resource s of
                          None \<Rightarrow> (Inl Stale, t)
                        | Some r \<Rightarrow> (Inr (f r), t[index := s\<lparr>resource := Some (f r)\<rparr>]))))"

definition table_revoke :: "rights \<Rightarrow> 'a table \<Rightarrow> capability \<Rightarrow> (capability_error + 'a) \<times> 'a table" where
  "table_revoke want t c =
     (let index = capability_index c; gen = capability_generation c
      in if index \<ge> length t then (Inl Invalid, t)
         else (let s = t ! index
               in if generation s \<noteq> gen then (Inl Stale, t)
                  else if \<not> rights_contains (slot_rights s) want then (Inl InsufficientRights, t)
                  else (case resource s of
                          None \<Rightarrow> (Inl Stale, t)
                        | Some r \<Rightarrow>
                            (Inr r, t[index := slot_clear s]))))"

definition table_first :: "rights \<Rightarrow> 'a table \<Rightarrow> capability option" where
  "table_first want t =
     map_option (\<lambda>i. capability_new (of_nat i) (generation (t ! i)))
       (find_index (\<lambda>s. resource s \<noteq> None \<and> rights_contains (slot_rights s) want) t)"

fun table_revoke_owner :: "'a table \<Rightarrow> cell_id \<Rightarrow> nat \<times> 'a table" where
  "table_revoke_owner [] own = (0, [])"
| "table_revoke_owner (s # t) own =
     (case table_revoke_owner t own of (revoked, t') \<Rightarrow>
        if resource s \<noteq> None \<and> owner s = own then (Suc revoked, slot_clear s # t')
        else (revoked, s # t'))"

fun table_revoke_all :: "'a table \<Rightarrow> nat \<times> 'a table" where
  "table_revoke_all [] = (0, [])"
| "table_revoke_all (s # t) =
     (case table_revoke_all t of (revoked, t') \<Rightarrow>
        if resource s \<noteq> None then (Suc revoked, slot_clear s # t') else (revoked, s # t'))"

subsection \<open>Handles and generations\<close>

lemma capability_new_parts [simp]:
  "capability_generation (capability_new i g) = g"
  "capability_index (capability_new i g) = unat i"
  by (simp_all add: capability_new_def capability_generation_def capability_index_def u32_pair)

lemma capability_rebuild:
  "capability_new (ucast c) (capability_generation c) = c"
  by (simp add: capability_new_def capability_generation_def u32_pair)

definition gen_next :: "u32 \<Rightarrow> u32" where
  "gen_next g = (if g + 1 = 0 then 1 else g + 1)"

lemma advance_generation_fields [simp]:
  "generation (advance_generation s) = gen_next (generation s)"
  "owner (advance_generation s) = owner s"
  "slot_rights (advance_generation s) = slot_rights s"
  "resource (advance_generation s) = resource s"
  by (simp_all add: advance_generation_def gen_next_def Let_def)

lemma slot_clear_fields [simp]:
  "generation (slot_clear s) = gen_next (generation s)"
  "slot_rights (slot_clear s) = 0" "resource (slot_clear s) = None" "owner (slot_clear s) = owner s"
  by (simp_all add: slot_clear_def)

text \<open>Generations go round the \<open>2 ^ 32 - 1\<close> nonzero values, so a handle is only named again after
  that many revocations of its slot.\<close>

lemma gen_next_nonzero [simp]: "gen_next g \<noteq> 0"
  by (simp add: gen_next_def)

definition gen_period :: nat where
  "gen_period = 2 ^ 32 - 1"

lemma unat_gen_next:
  assumes "unat g = Suc n"
  shows "unat (gen_next g) = Suc (Suc n mod gen_period)"
proof (cases "g + 1 = 0")
  case True
  then have "g = - 1" by (simp add: add_eq_0_iff2)
  also have "- 1 = (4294967295 :: u32)" by simp
  finally have "unat g = 4294967295" by simp
  then show ?thesis using assms True by (simp add: gen_next_def gen_period_def)
next
  case False
  have "unat g < 2 ^ LENGTH(32)" by (rule unsigned_less)
  moreover have "unat g \<noteq> 4294967295"
  proof
    assume "unat g = 4294967295"
    then have "unat g = unat (4294967295 :: u32)" by simp
    then have "g = 4294967295" by (simp only: word_unat_eq_iff)
    with False show False by simp
  qed
  ultimately have "Suc (unat g) < 2 ^ LENGTH(32)" by simp
  then show ?thesis using False assms by (simp add: gen_next_def gen_period_def unat_word_ariths)
qed

lemma unat_gen_iter:
  assumes "unat g = Suc n" and "n < gen_period"
  shows "unat ((gen_next ^^ k) g) = Suc ((n + k) mod gen_period)"
proof (induction k)
  case 0
  then show ?case using assms by simp
next
  case (Suc k)
  then have "unat ((gen_next ^^ Suc k) g) = Suc (Suc ((n + k) mod gen_period) mod gen_period)"
    by (simp add: unat_gen_next)
  then show ?case by (simp add: mod_Suc_eq)
qed

lemma gen_nonzero_pred:
  assumes "g \<noteq> 0"
  obtains n where "unat (g :: u32) = Suc n" and "n < gen_period"
proof -
  have "unat g < 2 ^ LENGTH(32)" by (rule unsigned_less)
  moreover have "0 < unat g" using assms by (simp add: unat_gt_0)
  ultimately show ?thesis using that [of "unat g - 1"] by (simp add: gen_period_def)
qed

lemma gen_iter_eq_iff:
  assumes "g \<noteq> 0"
  shows "(gen_next ^^ k) g = g \<longleftrightarrow> gen_period dvd k"
proof -
  obtain n where n: "unat g = Suc n" "n < gen_period" using gen_nonzero_pred [OF assms] .
  have "(gen_next ^^ k) g = g \<longleftrightarrow> (n + k) mod gen_period = (n + 0) mod gen_period"
    using unat_gen_iter [OF n, of k] n by (simp add: word_unat_eq_iff)
  also have "\<dots> \<longleftrightarrow> gen_period dvd k"
    using mod_eq_dvd_iff_nat [of n "n + k" gen_period] by simp
  finally show ?thesis .
qed

lemma gen_iter_fresh:
  assumes "g \<noteq> 0" and "0 < k" and "k < gen_period"
  shows "(gen_next ^^ k) g \<noteq> g"
  using assms gen_iter_eq_iff [of g k] by (auto dest: dvd_imp_le)

lemma gen_iter_nonzero: "g \<noteq> 0 \<Longrightarrow> (gen_next ^^ k) g \<noteq> 0"
  by (cases k) simp_all

subsection \<open>The table as a map from handles to resources\<close>

definition table_ok :: "'a table \<Rightarrow> bool" where
  "table_ok t \<longleftrightarrow> length t \<le> 2 ^ 32 \<and>
     (\<forall>s \<in> set t. generation s \<noteq> 0 \<and> (resource s = None \<longrightarrow> slot_rights s = 0))"

lemma table_get_eq:
  "table_get want t c =
     (if length t \<le> capability_index c then Inl Invalid
      else if generation (t ! capability_index c) \<noteq> capability_generation c then Inl Stale
      else case resource (t ! capability_index c) of
             None \<Rightarrow> Inl Stale
           | Some r \<Rightarrow> if rights_contains (slot_rights (t ! capability_index c)) want then Inr r
                       else Inl InsufficientRights)"
  by (auto simp: table_get_def table_validate_def Let_def split: option.splits)

lemma table_ok_update:
  "table_ok t \<Longrightarrow> generation s \<noteq> 0 \<Longrightarrow> (resource s = None \<Longrightarrow> slot_rights s = 0) \<Longrightarrow> table_ok (t[i := s])"
  unfolding table_ok_def by (auto dest!: set_update_subset_insert [THEN subsetD])

lemma table_ok_nth: "table_ok t \<Longrightarrow> i < length t \<Longrightarrow> generation (t ! i) \<noteq> 0"
  by (simp add: table_ok_def)

lemma table_new_ok: "n \<le> 2 ^ 32 \<Longrightarrow> table_ok (table_new n)"
  by (simp add: table_ok_def table_new_def slot_empty_def)

lemma table_get_update_other:
  "capability_index c' \<noteq> i \<Longrightarrow> table_get v (t[i := s]) c' = table_get v t c'"
  by (simp add: table_get_eq nth_list_update_neq [of i "capability_index c'"] split: option.split)

lemma table_insert_InrD:
  assumes "table_ok t" and "table_insert want t own res = (Inr c, t')"
  shows "capability_index c < length t" and "resource (t ! capability_index c) = None"
    and "capability_generation c = generation (t ! capability_index c)"
    and "t' = t[capability_index c :=
           (t ! capability_index c)\<lparr>owner := own, slot_rights := want, resource := Some res\<rparr>]"
proof -
  obtain i where i: "find_index (\<lambda>s. resource s = None) t = Some i"
    and c: "c = capability_new (of_nat i) (generation (t ! i))"
    and t': "t' = t[i := (t ! i)\<lparr>owner := own, slot_rights := want, resource := Some res\<rparr>]"
    using assms(2) by (auto simp: table_insert_def Let_def split: option.splits)
  note found = find_index_SomeD [OF i]
  then have "i < 2 ^ LENGTH(32)" using assms(1) by (simp add: table_ok_def)
  then have "capability_index c = i" using c by (simp add: unat_of_nat)
  then show "capability_index c < length t" and "resource (t ! capability_index c) = None"
    and "capability_generation c = generation (t ! capability_index c)"
    and "t' = t[capability_index c :=
           (t ! capability_index c)\<lparr>owner := own, slot_rights := want, resource := Some res\<rparr>]"
    using found c t' by simp_all
qed

theorem table_insert_lookup:
  assumes "table_ok t" and "table_insert want t own res = (Inr c, t')"
  shows "(\<forall>v. table_get v t c = Inl Stale) \<and>
    (\<forall>v. table_get v t' c = (if rights_contains want v then Inr res else Inl InsufficientRights)) \<and>
    (\<forall>v c'. capability_index c' \<noteq> capability_index c \<longrightarrow> table_get v t' c' = table_get v t c') \<and>
    (\<forall>v c' r. table_get v t c' = Inr r \<longrightarrow> table_get v t' c' = Inr r)"
proof -
  note ins = table_insert_InrD [OF assms]
  have other: "table_get v t' c' = table_get v t c'" if "capability_index c' \<noteq> capability_index c" for v c'
    unfolding ins(4) using that by (rule table_get_update_other)
  have "table_get v t c = Inl Stale" for v using ins by (simp add: table_get_eq)
  moreover have "table_get v t' c = (if rights_contains want v then Inr res else Inl InsufficientRights)" for v
    using ins by (simp add: table_get_eq)
  moreover have "table_get v t' c' = Inr r" if "table_get v t c' = Inr r" for v c' r
  proof -
    have "capability_index c' \<noteq> capability_index c"
      using that ins(2) by (auto simp: table_get_eq split: if_splits)
    then show ?thesis using other that by simp
  qed
  ultimately show ?thesis using other by blast
qed

subsection \<open>Operation sequences\<close>

datatype 'a table_op =
  TInsert rights cell_id 'a
| TUpdate rights capability "'a \<Rightarrow> 'a"
| TRevoke rights capability
| TRevokeOwner cell_id
| TRevokeAll

fun table_apply :: "'a table \<Rightarrow> 'a table_op \<Rightarrow> 'a table" where
  "table_apply t (TInsert w own r) = snd (table_insert w t own r)"
| "table_apply t (TUpdate w c f) = snd (table_get_mut w t c f)"
| "table_apply t (TRevoke w c) = snd (table_revoke w t c)"
| "table_apply t (TRevokeOwner own) = snd (table_revoke_owner t own)"
| "table_apply t TRevokeAll = snd (table_revoke_all t)"

text \<open>One operation moves a slot in one of two ways: its generation stays, or it was live and is
  cleared, which moves the generation on by one.\<close>

definition slot_moves :: "'a slot \<Rightarrow> 'a slot \<Rightarrow> bool" where
  "slot_moves s s' \<longleftrightarrow> generation s' = generation s \<or> (resource s \<noteq> None \<and> s' = slot_clear s)"

lemma slot_moves_refl [simp]: "slot_moves s s"
  by (simp add: slot_moves_def)

lemma revoke_owner_eq:
  "table_revoke_owner t own =
     (length (filter (\<lambda>s. resource s \<noteq> None \<and> owner s = own) t),
      map (\<lambda>s. if resource s \<noteq> None \<and> owner s = own then slot_clear s else s) t)"
  by (induction t) auto

lemma revoke_all_eq:
  "table_revoke_all t =
     (length (filter (\<lambda>s. resource s \<noteq> None) t),
      map (\<lambda>s. if resource s \<noteq> None then slot_clear s else s) t)"
  by (induction t) auto

lemma update_moves:
  "i < length t \<Longrightarrow> slot_moves (t ! i) s \<Longrightarrow> list_all2 slot_moves t (t[i := s])"
  by (auto simp: list_all2_conv_all_nth nth_list_update)

lemma table_apply_moves: "list_all2 slot_moves t (table_apply t opn)"
proof (cases opn)
  case (TInsert w own r)
  then show ?thesis
    by (auto simp: table_insert_def Let_def list_all2_same slot_moves_def dest!: find_index_SomeD
        split: option.splits intro!: update_moves)
next
  case (TUpdate w c f)
  then show ?thesis
    by (auto simp: table_get_mut_def Let_def list_all2_same slot_moves_def
        split: option.splits intro!: update_moves)
next
  case (TRevoke w c)
  then show ?thesis
    by (auto simp: table_revoke_def Let_def list_all2_same slot_moves_def
        split: option.splits intro!: update_moves)
qed (auto simp: revoke_owner_eq revoke_all_eq list_all2_conv_all_nth slot_moves_def)

lemma slot_moves_steps:
  "slot_moves s s' \<Longrightarrow> \<exists>k \<le> 1. generation s' = (gen_next ^^ k) (generation s)"
  by (auto simp: slot_moves_def intro: exI [of _ 0] exI [of _ "1::nat"])

lemma table_apply_ok: "table_ok t \<Longrightarrow> table_ok (table_apply t opn)"
proof (cases opn)
  case (TInsert w own r)
  moreover assume "table_ok t"
  ultimately show ?thesis
    by (auto simp: table_insert_def Let_def dest!: find_index_SomeD
        split: option.splits intro!: table_ok_update dest: table_ok_nth)
next
  case (TUpdate w c f)
  moreover assume "table_ok t"
  ultimately show ?thesis using table_ok_nth [of t "capability_index c"]
    by (auto simp: table_get_mut_def Let_def split: option.splits intro!: table_ok_update dest: table_ok_nth)
next
  case (TRevoke w c)
  moreover assume "table_ok t"
  ultimately show ?thesis
    by (auto simp: table_revoke_def Let_def split: option.splits intro!: table_ok_update)
qed (auto simp: revoke_owner_eq revoke_all_eq table_ok_def)

lemma foldl_apply_ok: "table_ok t \<Longrightarrow> table_ok (foldl table_apply t ops)"
  by (induction ops arbitrary: t) (auto intro: table_apply_ok)

lemma table_revoke_InrD:
  assumes "table_revoke want t c = (Inr r, t')"
  shows "capability_index c < length t" and "generation (t ! capability_index c) = capability_generation c"
    and "resource (t ! capability_index c) = Some r"
    and "rights_contains (slot_rights (t ! capability_index c)) want"
    and "t' = t[capability_index c := slot_clear (t ! capability_index c)]"
  using assms by (auto simp: table_revoke_def Let_def split: if_splits option.splits)

text \<open>A handle that is behind its slot: between one and \<open>k\<close> clears have passed since it was issued.\<close>

definition handle_past :: "'a table \<Rightarrow> capability \<Rightarrow> nat \<Rightarrow> bool" where
  "handle_past t c k \<longleftrightarrow> capability_index c < length t \<and> capability_generation c \<noteq> 0 \<and>
     (\<exists>j. 0 < j \<and> j \<le> k \<and>
        generation (t ! capability_index c) = (gen_next ^^ j) (capability_generation c))"

lemma handle_past_stale:
  assumes "handle_past t c k" and "k < gen_period"
  shows "table_get v t c = Inl Stale"
proof -
  obtain j where j: "capability_generation c \<noteq> 0" "0 < j" "j \<le> k" "capability_index c < length t"
    "generation (t ! capability_index c) = (gen_next ^^ j) (capability_generation c)"
    using assms(1) by (auto simp: handle_past_def)
  then have "generation (t ! capability_index c) \<noteq> capability_generation c"
    using gen_iter_fresh [OF j(1,2)] assms(2) by simp
  then show ?thesis using j by (simp add: table_get_eq)
qed

lemma handle_past_apply:
  assumes "handle_past t c k"
  shows "handle_past (table_apply t opn) c (Suc k)"
proof -
  let ?i = "capability_index c" and ?g = "capability_generation c"
  obtain j where j: "?i < length t" "?g \<noteq> 0" "0 < j" "j \<le> k" "generation (t ! ?i) = (gen_next ^^ j) ?g"
    using assms by (auto simp: handle_past_def)
  have len: "length (table_apply t opn) = length t"
    and "slot_moves (t ! ?i) (table_apply t opn ! ?i)"
    using table_apply_moves [of t opn] j(1) by (auto simp: list_all2_conv_all_nth)
  then obtain m where m: "m \<le> 1" "generation (table_apply t opn ! ?i) = (gen_next ^^ m) (generation (t ! ?i))"
    using slot_moves_steps by blast
  then have "generation (table_apply t opn ! ?i) = (gen_next ^^ (m + j)) ?g"
    using j(5) by (simp add: funpow_add)
  then show ?thesis using j m(1) len unfolding handle_past_def by (auto intro!: exI [of _ "m + j"])
qed

lemma handle_past_foldl: "handle_past t c k \<Longrightarrow> handle_past (foldl table_apply t ops) c (k + length ops)"
proof (induction ops arbitrary: t k)
  case (Cons opn ops)
  then show ?case using Cons.IH [OF handle_past_apply [OF Cons.prems]] by simp
qed simp

lemma cleared_past:
  assumes "table_ok t" and "capability_index c < length t"
    and "generation (t ! capability_index c) = capability_generation c"
    and "length t' = length t" and "t' ! capability_index c = slot_clear (t ! capability_index c)"
  shows "handle_past t' c 1"
  using assms table_ok_nth [OF assms(1,2)] by (auto simp: handle_past_def intro!: exI [of _ "1::nat"])

text \<open>
  C13. After a revoke, the handle is Stale in every later state, through any sequence of
  inserts, updates and revocations that is shorter than the generation period of 2^32 - 1.
\<close>

theorem table_revoked_stays_stale:
  assumes "table_ok t" and "table_revoke want t c = (Inr r, t')"
    and "length ops + 1 < gen_period"
  shows "table_get v (foldl table_apply t' ops) c = Inl Stale"
proof -
  note rev = table_revoke_InrD [OF assms(2)]
  have "handle_past t' c 1" using rev by (intro cleared_past [OF assms(1)]) simp_all
  from handle_past_foldl [OF this, of ops] show ?thesis
    using assms(3) by (intro handle_past_stale) simp_all
qed

theorem table_generation_alias:
  assumes "table_ok t" and "i < length t"
  shows "generation ((slot_clear ^^ gen_period) (t ! i)) = generation (t ! i)"
proof -
  have "generation ((slot_clear ^^ k) s) = (gen_next ^^ k) (generation s)" for k and s :: "'a slot"
    by (induction k) simp_all
  then show ?thesis using gen_iter_eq_iff [OF table_ok_nth [OF assms]] by simp
qed

theorem table_revoke_exact:
  "(table_get want t c = Inr r \<longleftrightarrow> (\<exists>t'. table_revoke want t c = (Inr r, t'))) \<and>
   (table_revoke want t c = (Inl e, t') \<longrightarrow> t' = t) \<and>
   (table_revoke want t c = (Inr r, t') \<longrightarrow>
      (\<forall>v. table_get v t' c = Inl Stale) \<and>
      (\<forall>v c'. capability_index c' \<noteq> capability_index c \<longrightarrow> table_get v t' c' = table_get v t c'))"
proof (intro conjI impI allI)
  show "table_get want t c = Inr r \<longleftrightarrow> (\<exists>t'. table_revoke want t c = (Inr r, t'))"
    by (auto simp: table_get_eq table_revoke_def Let_def split: if_splits option.splits)
  show "table_revoke want t c = (Inl e, t') \<Longrightarrow> t' = t"
    by (auto simp: table_revoke_def Let_def split: if_splits option.splits)
  assume rev: "table_revoke want t c = (Inr r, t')"
  show "table_get v t' c = Inl Stale" for v
    using table_revoke_InrD [OF rev] by (simp add: table_get_eq)
  show "table_get v t' c' = table_get v t c'" if "capability_index c' \<noteq> capability_index c" for v c'
    using that table_revoke_InrD(5) [OF rev] by (simp add: table_get_update_other)
qed

lemma rights_contains_trans:
  assumes "rights_contains a b" and "rights_contains b c"
  shows "rights_contains a c"
proof -
  have "a AND c = a AND (b AND c)" using assms(2) by (simp add: rights_contains_def)
  also have "\<dots> = b AND c" using assms(1) by (simp add: rights_contains_def and.assoc [symmetric])
  finally show ?thesis using assms(2) by (simp add: rights_contains_def)
qed

subsection \<open>The audit sink as an interface\<close>

locale audit_sink =
  fixes rec :: "'l \<Rightarrow> event \<Rightarrow> 'l"
    and retained :: "'l \<Rightarrow> event list"
    and capacity :: "'l \<Rightarrow> nat"
    and holds :: "'l \<Rightarrow> event list \<Rightarrow> bool"
  assumes holds_rec: "holds l h \<Longrightarrow> holds (rec l e) (h @ [e])"
    and holds_retained: "holds l h \<Longrightarrow> retained l = drop (length h - capacity l) h"
    and capacity_rec: "capacity (rec l e) = capacity l"
begin

lemma capacity_foldl: "capacity (foldl rec l es) = capacity l"
  by (induction es arbitrary: l) (simp_all add: capacity_rec)

lemma holds_foldl: "holds l h \<Longrightarrow> holds (foldl rec l es) (h @ es)"
proof (induction es arbitrary: l h)
  case (Cons e es)
  then show ?case using Cons.IH [OF holds_rec [OF Cons.prems], of e] by simp
qed simp

lemma foldl_retained:
  "holds l h \<Longrightarrow> retained (foldl rec l es) = drop (length h + length es - capacity l) (h @ es)"
  using holds_retained [OF holds_foldl, of l h es] by (simp add: capacity_foldl)

end

definition log_holds :: "log \<Rightarrow> event list \<Rightarrow> bool" where
  "log_holds l h \<longleftrightarrow> 0 < length (log_events l) \<and>
     log_next l = length h mod length (log_events l) \<and>
     log_len l = min (length (log_events l)) (length h) \<and>
     log_dropped l = length h - length (log_events l) \<and>
     (\<forall>i < length h. length h \<le> i + length (log_events l) \<longrightarrow>
        log_events l ! (i mod length (log_events l)) = Some (h ! i)) \<and>
     (\<forall>i < length (log_events l). length h \<le> i \<longrightarrow> log_events l ! i = None)"

lemma log_new_holds: "0 < n \<Longrightarrow> log_holds (log_new n) []"
  by (simp add: log_holds_def log_new_def)

lemma log_next_full:
  assumes "log_holds l h"
  shows "log_events l ! log_next l \<noteq> None \<longleftrightarrow> length (log_events l) \<le> length h"
proof (cases "length (log_events l) \<le> length h")
  case True
  define i where "i = length h - length (log_events l)"
  have i: "length h = i + length (log_events l)" using True by (simp add: i_def)
  then have "log_next l = i mod length (log_events l)" using assms by (simp add: log_holds_def)
  moreover have "i < length h" using i assms by (simp add: log_holds_def)
  ultimately show ?thesis using True i assms by (simp add: log_holds_def)
next
  case False
  then show ?thesis using assms by (simp add: log_holds_def)
qed

lemma log_record_fields:
  assumes "log_holds l h"
  shows "log_events (log_record l e) = (log_events l)[log_next l := Some e]"
    and "log_next (log_record l e) = Suc (log_next l) mod length (log_events l)"
    and "log_len (log_record l e) = min (length (log_events l)) (Suc (length h))"
    and "log_dropped (log_record l e) = Suc (length h) - length (log_events l)"
  using assms log_next_full [OF assms]
  by (auto simp: log_record_def Let_def log_holds_def min_def)

lemma log_record_holds:
  assumes "log_holds l h"
  shows "log_holds (log_record l e) (h @ [e])"
proof -
  note fields = log_record_fields [OF assms, of e]
  define n where "n = length (log_events l)"
  have n: "0 < n" and nxt: "log_next l = length h mod n" and lt: "log_next l < n"
    using assms by (auto simp: log_holds_def n_def)
  have kept: "log_events (log_record l e) ! (i mod n) = Some ((h @ [e]) ! i)"
    if "i < Suc (length h)" "Suc (length h) \<le> i + n" for i
  proof (cases "i = length h")
    case True
    then show ?thesis using lt fields(1) nxt by (simp add: n_def)
  next
    case False
    have "i mod n \<noteq> length h mod n"
    proof
      assume "i mod n = length h mod n"
      then have "n dvd length h - i" using that mod_eq_dvd_iff_nat [of i "length h" n] by simp
      then show False using that False by (auto dest: dvd_imp_le)
    qed
    then have "log_events (log_record l e) ! (i mod n) = log_events l ! (i mod n)"
      using fields(1) nxt by (simp add: nth_list_update_neq)
    then show ?thesis using assms that False by (simp add: log_holds_def n_def nth_append)
  qed
  have blank: "log_events (log_record l e) ! i = None" if "i < n" "Suc (length h) \<le> i" for i
  proof -
    have "log_next l \<noteq> i" using that nxt by simp
    then show ?thesis using assms that fields(1) by (simp add: log_holds_def n_def)
  qed
  have "length (log_events (log_record l e)) = n" using fields(1) by (simp add: n_def)
  then show ?thesis
    using kept blank fields n nxt by (simp add: log_holds_def n_def mod_Suc_eq)
qed

lemma log_iter_holds:
  assumes "log_holds l h"
  shows "log_iter l = drop (length h - length (log_events l)) h"
proof -
  define n where "n = length (log_events l)"
  define b where "b = length h - n"
  have n: "0 < n" using assms by (simp add: log_holds_def n_def)
  have len: "log_len l = length h - b" using assms by (simp add: log_holds_def n_def b_def min_def)
  have start: "(if log_len l = n then log_next l else 0) mod n = b mod n"
  proof (cases "n \<le> length h")
    case True
    then have "length h = b + n" by (simp add: b_def)
    then show ?thesis using assms by (simp add: log_holds_def n_def)
  next
    case False
    then show ?thesis using assms by (simp add: log_holds_def n_def b_def)
  qed
  have slot: "log_events l ! (((if log_len l = n then log_next l else 0) + j) mod n) = Some (h ! (b + j))"
    if "j < length h - b" for j
  proof -
    have "((if log_len l = n then log_next l else 0) + j) mod n = (b + j) mod n"
      using start by (metis mod_add_left_eq)
    then show ?thesis using assms that by (simp add: log_holds_def n_def b_def)
  qed
  have "log_iter l = map (\<lambda>j. h ! (b + j)) [0..<length h - b]"
    using slot unfolding log_iter_def Let_def n_def [symmetric] len
    by (simp add: List.map_filter_def cong: map_cong)
  also have "\<dots> = drop b h" by (rule nth_equalityI) simp_all
  finally show ?thesis by (simp add: b_def n_def)
qed

lemma log_last_holds:
  assumes "log_holds l h"
  shows "log_last l = (if h = [] then None else Some (last h))"
proof (cases "h = []")
  case False
  define n where "n = length (log_events l)"
  have n: "0 < n" and nxt: "log_next l = length h mod n" using assms by (simp_all add: log_holds_def n_def)
  have "(log_next l + n - 1) mod n = (length h mod n + (n - 1)) mod n"
    using n nxt by simp
  also have "\<dots> = (length h + (n - 1)) mod n" by (rule mod_add_left_eq)
  also have "length h + (n - 1) = length h - 1 + n" using False n by (cases h) simp_all
  finally have at: "(log_next l + n - 1) mod n = (length h - 1) mod n" by simp
  have "length h - 1 < length h" and "length h \<le> length h - 1 + n" using n False by (cases h; simp)+
  then have "log_events l ! ((length h - 1) mod n) = Some (h ! (length h - 1))"
    using assms unfolding log_holds_def n_def by blast
  then show ?thesis using False at assms n by (simp add: log_last_def last_conv_nth log_holds_def n_def)
qed (use assms in \<open>simp add: log_last_def log_holds_def\<close>)

interpretation audit_log: audit_sink log_record log_iter "\<lambda>l. length (log_events l)" log_holds
proof unfold_locales
  show "length (log_events (log_record l e)) = length (log_events l)" for l e
    by (simp add: log_record_def Let_def)
qed (simp_all add: log_record_holds log_iter_holds)

theorem log_keeps_most_recent:
  assumes "0 < n"
  shows "log_iter (foldl log_record (log_new n) es) = drop (length es - n) es \<and>
    log_last (foldl log_record (log_new n) es) = (if es = [] then None else Some (last es)) \<and>
    log_len (foldl log_record (log_new n) es) = min n (length es) \<and>
    log_dropped (foldl log_record (log_new n) es) = length es - n"
proof -
  let ?l = "foldl log_record (log_new n) es"
  have holds: "log_holds ?l es" using audit_log.holds_foldl [OF log_new_holds [OF assms], of es] by simp
  have "length (log_events ?l) = n" by (simp add: audit_log.capacity_foldl log_new_def)
  then show ?thesis using holds log_iter_holds [OF holds] log_last_holds [OF holds]
    by (simp add: log_holds_def)
qed

subsection \<open>Delegation chains\<close>

fun delegate_chain ::
  "('l \<Rightarrow> event \<Rightarrow> 'l) \<Rightarrow> 'a table \<Rightarrow> rights \<Rightarrow> cell_id \<Rightarrow> (rights \<times> cell_id) list \<Rightarrow> capability \<Rightarrow> 'l \<Rightarrow>
   (capability_error + capability) \<times> 'l" where
  "delegate_chain rec t frm src [] c audit = (Inr c, audit)"
| "delegate_chain rec t frm src ((to, dst) # hops) c audit =
     (case table_delegate rec frm to t c src dst audit of
        (Inl e, audit') \<Rightarrow> (Inl e, audit')
      | (Inr c', audit') \<Rightarrow> delegate_chain rec t to dst hops c' audit')"

fun chain_events :: "capability \<Rightarrow> cell_id \<Rightarrow> (rights \<times> cell_id) list \<Rightarrow> event list" where
  "chain_events c src [] = []"
| "chain_events c src ((to, dst) # hops) =
     event_delegate src dst (of_nat (capability_index c)) to # chain_events c dst hops"

lemma table_attenuate_InrD:
  assumes "table_attenuate frm to t c = Inr c'"
  shows "c' = c" and "rights_contains frm to" and "\<exists>r. table_get frm t c = Inr r \<and> table_get to t c = Inr r"
  using assms
  by (auto simp: table_attenuate_def table_get_def table_validate_def Let_def
      split: sum.splits if_splits option.splits)

lemma delegate_chain_InrD:
  assumes "delegate_chain rec t frm src hops c audit = (Inr c', audit')"
  shows "c' = c \<and> audit' = foldl rec audit (chain_events c src hops) \<and>
    (\<forall>(to, dst) \<in> set hops. rights_contains frm to \<and>
       (\<exists>r. table_get frm t c = Inr r \<and> table_get to t c = Inr r))"
  using assms
proof (induction hops arbitrary: frm src audit)
  case (Cons hop hops)
  obtain to dst where hop: "hop = (to, dst)" by (cases hop)
  let ?e = "event_delegate src dst (of_nat (capability_index c)) to"
  from Cons.prems have att: "table_attenuate frm to t c = Inr c"
    and rest: "delegate_chain rec t to dst hops c (rec audit ?e) = (Inr c', audit')"
    by (auto simp: hop table_delegate_def split: sum.splits dest: table_attenuate_InrD(1))
  note step = table_attenuate_InrD [OF att]
  from step Cons.IH [OF rest] show ?case by (auto simp: hop dest: rights_contains_trans)
qed simp

text \<open>
  C29. Along any chain of delegations that succeeds, every rights mask handed on is contained in
  the first holder's and names the same resource, the handle is unchanged, and the audit log
  holds, up to its capacity, one delegation event per hop after what it held before.
\<close>

theorem delegation_never_amplifies:
  assumes "0 < n"
    and "delegate_chain log_record t frm src hops c (foldl log_record (log_new n) es) = (Inr c', l')"
  shows "c' = c \<and>
    (\<forall>(to, dst) \<in> set hops. rights_contains frm to \<and>
       (\<exists>r. table_get frm t c = Inr r \<and> table_get to t c = Inr r)) \<and>
    log_iter l' = drop (length es + length hops - n) (es @ chain_events c src hops)"
proof -
  note chain = delegate_chain_InrD [OF assms(2)]
  have "length (chain_events c src hops) = length hops"
    by (induction c src hops rule: chain_events.induct) simp_all
  moreover have "log_holds (foldl log_record (log_new n) es) es"
    using audit_log.holds_foldl [OF log_new_holds [OF assms(1)], of es] by simp
  ultimately have "log_iter l' = drop (length es + length hops - n) (es @ chain_events c src hops)"
    using audit_log.foldl_retained [of _ es "chain_events c src hops"] chain
    by (simp add: audit_log.capacity_foldl log_new_def)
  then show ?thesis using chain by blast
qed

theorem table_insert_lookup_witness:
  "table_ok (table_new 2 :: nat table) \<and>
   table_get READ (snd (table_insert READ (table_new 2) 7 (5 :: nat))) (capability_new 0 1) = Inr 5"
proof -
  have ok: "table_ok (table_new 2 :: nat table)" by (simp add: table_new_ok)
  have run: "table_insert READ (table_new 2) 7 (5 :: nat) =
      (Inr (capability_new 0 1), snd (table_insert READ (table_new 2) 7 (5 :: nat)))"
    by (simp add: table_insert_def table_new_def slot_empty_def numeral_2_eq_2 Let_def)
  show ?thesis using ok table_insert_lookup [OF ok run] by (simp add: rights_contains_def)
qed

definition one_live :: "nat table" where
  "one_live = [\<lparr>generation = 1, owner = 7, slot_rights = READ_WRITE, resource = Some 5\<rparr>]"

lemma one_live_ok: "table_ok one_live"
  by (simp add: table_ok_def one_live_def)

lemma one_live_revoke:
  "table_revoke READ one_live (capability_new 0 1) =
     (Inr 5, [\<lparr>generation = 2, owner = 7, slot_rights = 0, resource = None\<rparr>])"
  by (simp add: table_revoke_def one_live_def rights_contains_def READ_WRITE_def READ_def WRITE_def
      slot_clear_def advance_generation_def)

theorem table_revoked_stays_stale_witness:
  "table_get READ (foldl table_apply (snd (table_revoke READ one_live (capability_new 0 1)))
     [TInsert READ 8 6, TRevokeAll]) (capability_new 0 1) = Inl Stale"
  using table_revoked_stays_stale [OF one_live_ok one_live_revoke, of "[TInsert READ 8 6, TRevokeAll]" READ]
  by (simp add: one_live_revoke gen_period_def)

theorem table_revoke_exact_witness:
  "table_revoke READ one_live (capability_new 0 1) =
     (Inr 5, [\<lparr>generation = 2, owner = 7, slot_rights = 0, resource = None\<rparr>]) \<and>
   table_get READ one_live (capability_new 0 1) = Inr 5"
  using table_revoke_exact [of READ one_live "capability_new 0 1" 5] one_live_revoke by blast

theorem log_keeps_most_recent_witness:
  "log_iter (foldl log_record (log_new 2) [event_grant 1 0 READ, event_grant 2 0 READ, event_grant 3 0 READ])
     = [event_grant 2 0 READ, event_grant 3 0 READ]"
  using log_keeps_most_recent [of 2 "[event_grant 1 0 READ, event_grant 2 0 READ, event_grant 3 0 READ]"]
  by simp

theorem delegation_never_amplifies_witness:
  "log_iter (snd (delegate_chain log_record one_live READ_WRITE 7 [(READ, 8)] (capability_new 0 1) (log_new 4)))
     = [event_delegate 7 8 0 READ]"
proof -
  have "fst (delegate_chain log_record one_live READ_WRITE 7 [(READ, 8)] (capability_new 0 1) (log_new 4))
      = Inr (capability_new 0 1)"
    by (simp add: table_delegate_def table_attenuate_def table_validate_def one_live_def
        rights_contains_def READ_WRITE_def READ_def WRITE_def)
  then have "delegate_chain log_record one_live READ_WRITE 7 [(READ, 8)] (capability_new 0 1) (log_new 4)
      = (Inr (capability_new 0 1),
         snd (delegate_chain log_record one_live READ_WRITE 7 [(READ, 8)] (capability_new 0 1) (log_new 4)))"
    by (metis prod.collapse)
  then show ?thesis
    using delegation_never_amplifies [of 4 one_live READ_WRITE 7 "[(READ, 8)]" "capability_new 0 1" "[]"]
    by simp
qed

end
