(* ===== verification/Io_Buffer.thy ===== *)
theory Io_Buffer
  imports Capability Bytes
begin

text \<open>
  Registered buffers (crates/sys/core/src/buffer.rs). A buffer is the bytes behind a capability; an
  operation names a range of it. \<open>resolve_write\<close> hands out a mutable slice, so what the borrower does
  with it is an argument: a function from the slice to an answer and the bytes it leaves.
\<close>

record buffer_operation =
  bo_buffer :: capability
  bo_offset :: nat
  bo_len :: nat

datatype buffer_error = BufferCapability capability_error | OutOfBounds

type_synonym buffer_registry = "byte list table"

definition buffers_new :: "nat \<Rightarrow> buffer_registry" where
  "buffers_new n = table_new n"

definition register :: "rights \<Rightarrow> buffer_registry \<Rightarrow> cell_id \<Rightarrow> byte list \<Rightarrow> (byte list + capability) \<times> buffer_registry" where
  "register want regs own bytes =
     (case table_insert want regs own bytes of
        (Inr c, regs') \<Rightarrow> (Inr c, regs')
      | (Inl buffer, regs') \<Rightarrow> (Inl buffer, regs'))"

definition read_capability :: "buffer_registry \<Rightarrow> capability \<Rightarrow> capability_error + capability" where
  "read_capability regs c = table_attenuate READ_WRITE READ regs c"

definition write_capability :: "buffer_registry \<Rightarrow> capability \<Rightarrow> capability_error + capability" where
  "write_capability regs c = table_attenuate READ_WRITE WRITE regs c"

definition buffer_range :: "byte list \<Rightarrow> nat \<Rightarrow> nat \<Rightarrow> buffer_error + byte list" where
  "buffer_range bytes offset len =
     (case checked_add offset len of None \<Rightarrow> Inl OutOfBounds
      | Some e \<Rightarrow> if e \<le> length bytes then Inr (sub_slice offset len bytes) else Inl OutOfBounds)"

definition resolve_read :: "buffer_registry \<Rightarrow> buffer_operation \<Rightarrow> buffer_error + byte list" where
  "resolve_read regs operation =
     (case table_get READ regs (bo_buffer operation) of Inl e \<Rightarrow> Inl (BufferCapability e)
      | Inr bytes \<Rightarrow> buffer_range bytes (bo_offset operation) (bo_len operation))"

definition resolve_write ::
  "(byte list \<Rightarrow> 'a \<times> byte list) \<Rightarrow> buffer_registry \<Rightarrow> buffer_operation \<Rightarrow> (buffer_error + 'a) \<times> buffer_registry" where
  "resolve_write f regs operation =
     (case table_get_mut WRITE regs (bo_buffer operation) id of
        (Inl e, _) \<Rightarrow> (Inl (BufferCapability e), regs)
      | (Inr bytes, _) \<Rightarrow>
          (case buffer_range bytes (bo_offset operation) (bo_len operation) of
             Inl e \<Rightarrow> (Inl e, regs)
           | Inr target \<Rightarrow>
               (case f target of (x, target') \<Rightarrow>
                  (Inr x, snd (table_get_mut WRITE regs (bo_buffer operation) (put_slice (bo_offset operation) target'))))))"

section \<open>What a write is seen through\<close>

lemma buffer_range_Inr:
  "buffer_range bytes offset len = Inr b \<longleftrightarrow> offset + len < u64_limit \<and> offset + len \<le> length bytes \<and> b = sub_slice offset len bytes"
  by (auto simp: buffer_range_def checked_add_def split: option.splits)

lemma table_get_mut_get:
  "fst (table_get_mut want t c f) = map_sum id f (table_get want t c)"
  by (auto simp: table_get_mut_def table_get_eq Let_def split: option.splits)

lemma table_get_mut_after:
  assumes "table_get want t c = Inr r"
  shows "snd (table_get_mut want t c f) = t[capability_index c := (t ! capability_index c)\<lparr>resource := Some (f r)\<rparr>]"
  using assms by (auto simp: table_get_mut_def table_get_eq Let_def split: option.splits if_splits)

lemma resolve_write_cases:
  obtains (capability) e where "table_get WRITE regs (bo_buffer operation) = Inl e" "resolve_write f regs operation = (Inl (BufferCapability e), regs)"
  | (bounds) bytes e where "table_get WRITE regs (bo_buffer operation) = Inr bytes"
      "buffer_range bytes (bo_offset operation) (bo_len operation) = Inl e" "resolve_write f regs operation = (Inl e, regs)"
  | (slice) bytes target x target' where "table_get WRITE regs (bo_buffer operation) = Inr bytes"
      "buffer_range bytes (bo_offset operation) (bo_len operation) = Inr target" "f target = (x, target')"
      "resolve_write f regs operation = (Inr x, regs[capability_index (bo_buffer operation) :=
         (regs ! capability_index (bo_buffer operation))\<lparr>resource := Some (put_slice (bo_offset operation) target' bytes)\<rparr>])"
proof (cases "table_get WRITE regs (bo_buffer operation)")
  case (Inl e)
  then obtain t where "table_get_mut WRITE regs (bo_buffer operation) id = (Inl e, t)"
    using table_get_mut_get [of WRITE regs "bo_buffer operation" id]
    by (cases "table_get_mut WRITE regs (bo_buffer operation) id") simp
  with capability [OF Inl] show ?thesis by (simp add: resolve_write_def)
next
  case (Inr bytes)
  then obtain t where got: "table_get_mut WRITE regs (bo_buffer operation) id = (Inr bytes, t)"
    using table_get_mut_get [of WRITE regs "bo_buffer operation" id]
    by (cases "table_get_mut WRITE regs (bo_buffer operation) id") simp
  show ?thesis
  proof (cases "buffer_range bytes (bo_offset operation) (bo_len operation)")
    case (Inl e)
    with bounds [OF Inr this] got show ?thesis by (simp add: resolve_write_def)
  next
    fix target
    assume r: "buffer_range bytes (bo_offset operation) (bo_len operation) = Inr target"
    obtain x target' where "f target = (x, target')" by (cases "f target")
    with slice [OF Inr r this] show ?thesis
      using got r table_get_mut_after [OF Inr] by (simp add: resolve_write_def)
  qed
qed

text \<open>
  A handle of the same buffer reads what was written where the ranges meet; a handle of another buffer
  reads what it read before.
\<close>

lemma resolve_write_table:
  assumes "resolve_write f regs operation = (Inr x, regs')"
  obtains bytes target target' where
    "table_get WRITE regs (bo_buffer operation) = Inr bytes"
    "buffer_range bytes (bo_offset operation) (bo_len operation) = Inr target" "f target = (x, target')"
    "\<And>v c. capability_index c \<noteq> capability_index (bo_buffer operation) \<Longrightarrow> table_get v regs' c = table_get v regs c"
    "\<And>v c. capability_index c = capability_index (bo_buffer operation) \<Longrightarrow>
       table_get v regs' c = map_sum id (put_slice (bo_offset operation) target') (table_get v regs c)"
proof (cases rule: resolve_write_cases [of regs operation f])
  case (slice bytes target y target')
  let ?i = "capability_index (bo_buffer operation)"
  have y: "y = x" and regs': "regs' = regs[?i := (regs ! ?i)\<lparr>resource := Some (put_slice (bo_offset operation) target' bytes)\<rparr>]"
    using slice(4) assms by auto
  have res: "resource (regs ! ?i) = Some bytes" and i: "?i < length regs"
    using slice(1) by (auto simp: table_get_eq split: option.splits if_splits)
  show thesis
  proof (rule that [OF slice(1,2)])
    show "f target = (x, target')" using slice(3) y by simp
    show "table_get v regs' c = table_get v regs c" if "capability_index c \<noteq> ?i" for v c
      using that by (simp add: regs' table_get_update_other)
    show "table_get v regs' c = map_sum id (put_slice (bo_offset operation) target') (table_get v regs c)"
      if "capability_index c = ?i" for v c
      using that res i by (auto simp: regs' table_get_eq)
  qed
qed (use assms in auto)

end
