(* ===== verification/Registry.thy ===== *)
theory Registry
  imports Capability
begin

section \<open>Which cell answers for a kind of service (crates/sys/core/src/registry.rs)\<close>

text \<open>
  A registry is a capability table of published endpoints. The scheme \<open>S\<close> contributes its
  rights mask, the argument \<open>mask_s\<close>. What the registry relies on is the interface
  \<open>lease_table\<close>, which the capability table provides.
\<close>

type_synonym cpu_id = u16

datatype registry_error = Unavailable | Full

record 'e published =
  pub_cpu :: cpu_id
  pub_endpoint :: 'e

type_synonym 'e registry = "'e published table"

definition registry_new :: "nat \<Rightarrow> 'e registry" where
  "registry_new n = table_new n"

definition registry_publish ::
  "rights \<Rightarrow> 'e registry \<Rightarrow> cell_id \<Rightarrow> cpu_id \<Rightarrow> 'e \<Rightarrow> (registry_error + capability) \<times> 'e registry" where
  "registry_publish mask_s reg provider cpu ep =
     (case table_insert mask_s reg provider \<lparr>pub_cpu = cpu, pub_endpoint = ep\<rparr> of
        (Inl _, reg') \<Rightarrow> (Inl Full, reg')
      | (Inr c, reg') \<Rightarrow> (Inr c, reg'))"

definition registry_acquire :: "rights \<Rightarrow> 'e registry \<Rightarrow> registry_error + capability" where
  "registry_acquire mask_s reg =
     (case table_first mask_s reg of None \<Rightarrow> Inl Unavailable | Some c \<Rightarrow> Inr c)"

definition registry_endpoint :: "rights \<Rightarrow> 'e registry \<Rightarrow> capability \<Rightarrow> capability_error + 'e" where
  "registry_endpoint mask_s reg lease = map_sum id pub_endpoint (table_get mask_s reg lease)"

definition registry_home :: "rights \<Rightarrow> 'e registry \<Rightarrow> capability \<Rightarrow> capability_error + cpu_id" where
  "registry_home mask_s reg lease = map_sum id pub_cpu (table_get mask_s reg lease)"

definition registry_withdraw :: "'e registry \<Rightarrow> cell_id \<Rightarrow> nat \<times> 'e registry" where
  "registry_withdraw reg provider = table_revoke_owner reg provider"

subsection \<open>The interface the registry relies on\<close>

datatype 'p lease_op = Insert cell_id 'p | Withdraw cell_id

locale lease_table =
  fixes insert_at :: "'t \<Rightarrow> cell_id \<Rightarrow> 'p \<Rightarrow> ('p + capability) \<times> 't"
    and first_of :: "'t \<Rightarrow> capability option"
    and get_at :: "'t \<Rightarrow> capability \<Rightarrow> capability_error + 'p"
    and withdraw :: "'t \<Rightarrow> cell_id \<Rightarrow> nat \<times> 't"
    and names :: "'t \<Rightarrow> capability \<Rightarrow> cell_id \<Rightarrow> 'p \<Rightarrow> bool"
    and past :: "'t \<Rightarrow> capability \<Rightarrow> nat \<Rightarrow> bool"
    and ok :: "'t \<Rightarrow> bool"
    and horizon :: nat
  assumes ok_insert: "ok t \<Longrightarrow> ok (snd (insert_at t own p))"
    and ok_withdraw: "ok t \<Longrightarrow> ok (snd (withdraw t own))"
    and insert_names: "ok t \<Longrightarrow> insert_at t own p = (Inr c, t') \<Longrightarrow> names t' c own p"
    and insert_keeps: "ok t \<Longrightarrow> names t c own p \<Longrightarrow> names (snd (insert_at t own' p')) c own p"
    and withdraw_keeps: "names t c own p \<Longrightarrow> own \<noteq> own' \<Longrightarrow> names (snd (withdraw t own')) c own p"
    and withdraw_ends: "ok t \<Longrightarrow> names t c own p \<Longrightarrow> past (snd (withdraw t own)) c 1"
    and insert_past: "past t c k \<Longrightarrow> past (snd (insert_at t own p)) c (Suc k)"
    and withdraw_past: "past t c k \<Longrightarrow> past (snd (withdraw t own)) c (Suc k)"
    and past_stale: "past t c k \<Longrightarrow> k < horizon \<Longrightarrow> get_at t c = Inl Stale"
    and names_get: "names t c own p \<Longrightarrow> get_at t c = Inr p"
    and first_names: "ok t \<Longrightarrow> first_of t = Some c \<Longrightarrow> \<exists>p. get_at t c = Inr p"
    and first_complete: "get_at t c = Inr p \<Longrightarrow> first_of t \<noteq> None"
begin

fun apply_op :: "'t \<Rightarrow> 'p lease_op \<Rightarrow> 't" where
  "apply_op t (Insert own p) = snd (insert_at t own p)"
| "apply_op t (Withdraw own) = snd (withdraw t own)"

lemma ok_run: "ok t \<Longrightarrow> ok (foldl apply_op t ops)"
proof (induction ops arbitrary: t)
  case (Cons opn ops)
  then show ?case by (cases opn) (simp_all add: ok_insert ok_withdraw)
qed simp

lemma names_run:
  "ok t \<Longrightarrow> names t c own p \<Longrightarrow> Withdraw own \<notin> set ops \<Longrightarrow> names (foldl apply_op t ops) c own p"
proof (induction ops arbitrary: t)
  case (Cons opn ops)
  then show ?case
    by (cases opn) (simp_all add: insert_keeps withdraw_keeps ok_insert ok_withdraw)
qed simp

lemma past_run: "past t c k \<Longrightarrow> past (foldl apply_op t ops) c (k + length ops)"
proof (induction ops arbitrary: t k)
  case (Cons opn ops)
  have "past (apply_op t opn) c (Suc k)"
    using Cons.prems by (cases opn) (simp_all add: insert_past withdraw_past)
  from Cons.IH [OF this] show ?case by simp
qed simp

lemma lifetime:
  assumes "ok t" and "insert_at t own p = (Inr c, t0)" and "Withdraw own \<notin> set before"
    and t1: "t1 = foldl apply_op t0 before" and t2: "t2 = foldl apply_op (snd (withdraw t1 own)) after"
    and "length after + 1 < horizon"
  shows "get_at t1 c = Inr p" and "first_of t1 \<noteq> None" and "get_at t2 c = Inl Stale"
proof -
  have ok0: "ok t0" using ok_insert [OF assms(1), of own p] assms(2) by simp
  have names: "names t1 c own p"
    unfolding t1 using ok0 insert_names [OF assms(1,2)] assms(3) by (rule names_run)
  then show "get_at t1 c = Inr p" by (rule names_get)
  then show "first_of t1 \<noteq> None" by (rule first_complete)
  have "past t2 c (1 + length after)"
    unfolding t2 using withdraw_ends [OF _ names] ok_run [OF ok0] t1 by (intro past_run) simp
  then show "get_at t2 c = Inl Stale" using assms(6) by (intro past_stale) simp_all
qed

end

subsection \<open>The capability table provides it\<close>

definition lease_names :: "rights \<Rightarrow> 'p table \<Rightarrow> capability \<Rightarrow> cell_id \<Rightarrow> 'p \<Rightarrow> bool" where
  "lease_names mask_s t c own p \<longleftrightarrow> capability_index c < length t \<and>
     t ! capability_index c =
       \<lparr>generation = capability_generation c, owner = own, slot_rights = mask_s, resource = Some p\<rparr>"

lemma lease_names_get: "lease_names m t c own p \<Longrightarrow> table_get m t c = Inr p"
  by (simp add: lease_names_def table_get_eq rights_contains_def)

lemma lease_names_insert_keeps:
  assumes "table_ok t" and "lease_names m t c own p"
  shows "lease_names m (snd (table_insert m t own' p')) c own p"
proof (cases "table_insert m t own' p'")
  case (Pair res t')
  show ?thesis
  proof (cases res)
    case (Inl x)
    then show ?thesis using assms(2) Pair by (auto simp: table_insert_def Let_def split: option.splits)
  next
    case (Inr c')
    note ins = table_insert_InrD [OF assms(1) Pair [unfolded Inr]]
    have "capability_index c \<noteq> capability_index c'" using ins(2) assms(2) by (auto simp: lease_names_def)
    then show ?thesis using assms(2) Pair ins(4) by (simp add: lease_names_def)
  qed
qed

lemma lease_names_withdraw_ends:
  assumes "table_ok t" and "lease_names m t c own p"
  shows "handle_past (snd (table_revoke_owner t own)) c 1"
  using assms(2) by (intro cleared_past [OF assms(1)]) (simp_all add: lease_names_def revoke_owner_eq)

lemma table_first_SomeD:
  assumes "table_ok t" and "table_first m t = Some c"
  shows "\<exists>p. table_get m t c = Inr p"
proof -
  obtain i where i: "find_index (\<lambda>s. resource s \<noteq> None \<and> rights_contains (slot_rights s) m) t = Some i"
    and c: "c = capability_new (of_nat i) (generation (t ! i))"
    using assms(2) by (auto simp: table_first_def)
  note found = find_index_SomeD [OF i]
  then have "i < 2 ^ LENGTH(32)" using assms(1) by (simp add: table_ok_def)
  then have "capability_index c = i" using c by (simp add: unat_of_nat)
  then show ?thesis using found c by (auto simp: table_get_eq)
qed

lemma table_first_complete:
  assumes "table_get m t c = Inr p"
  shows "table_first m t \<noteq> None"
proof -
  let ?s = "t ! capability_index c"
  have "?s \<in> set t" "resource ?s \<noteq> None" "rights_contains (slot_rights ?s) m"
    using assms by (auto simp: table_get_eq split: if_splits option.splits)
  then show ?thesis by (auto simp: table_first_def find_index_None_iff)
qed

interpretation leases: lease_table
  "table_insert m" "table_first m" "table_get m" table_revoke_owner "lease_names m"
  handle_past table_ok gen_period
  for m :: rights
proof unfold_locales
  show "table_ok (snd (table_insert m t own p))" if "table_ok t" for t own and p :: 'p
    using table_apply_ok [OF that, of "TInsert m own p"] by simp
  show "table_ok (snd (table_revoke_owner t own))" if "table_ok t" for t own
    using table_apply_ok [OF that, of "TRevokeOwner own"] by simp
  show "lease_names m t' c own p" if "table_ok t" "table_insert m t own p = (Inr c, t')" for t t' c own p
    using table_insert_InrD [OF that] by (simp add: lease_names_def)
  show "lease_names m (snd (table_revoke_owner t own')) c own p"
    if "lease_names m t c own p" "own \<noteq> own'" for t c own own' p
    using that by (simp add: lease_names_def revoke_owner_eq)
  show "handle_past (snd (table_insert m t own p)) c (Suc k)" if "handle_past t c k" for t c k own p
    using handle_past_apply [OF that, of "TInsert m own p"] by simp
  show "handle_past (snd (table_revoke_owner t own)) c (Suc k)" if "handle_past t c k" for t c k own
    using handle_past_apply [OF that, of "TRevokeOwner own"] by simp
  show "handle_past (snd (table_revoke_owner t own)) c 1"
    if "table_ok t" "lease_names m t c own p" for t c own p
    using that by (rule lease_names_withdraw_ends)
qed (auto intro: lease_names_insert_keeps handle_past_stale lease_names_get
     table_first_SomeD dest: table_first_complete)

subsection \<open>Leases\<close>

datatype 'e registry_op = RPublish cell_id cpu_id 'e | RWithdraw cell_id

fun registry_apply :: "rights \<Rightarrow> 'e registry \<Rightarrow> 'e registry_op \<Rightarrow> 'e registry" where
  "registry_apply mask_s reg (RPublish provider cpu ep) = snd (registry_publish mask_s reg provider cpu ep)"
| "registry_apply mask_s reg (RWithdraw provider) = snd (registry_withdraw reg provider)"

fun lease_op_of :: "'e registry_op \<Rightarrow> 'e published lease_op" where
  "lease_op_of (RPublish provider cpu ep) = Insert provider \<lparr>pub_cpu = cpu, pub_endpoint = ep\<rparr>"
| "lease_op_of (RWithdraw provider) = Withdraw provider"

lemma registry_apply_lease: "registry_apply m reg opn = leases.apply_op m reg (lease_op_of opn)"
  by (cases opn) (auto simp: registry_publish_def registry_withdraw_def split: prod.splits sum.splits)

lemma registry_run_lease:
  "foldl (registry_apply m) reg ops = foldl (leases.apply_op m) reg (map lease_op_of ops)"
  by (induction ops arbitrary: reg) (simp_all add: registry_apply_lease)

lemma withdraw_lease_op: "Withdraw own \<in> set (map lease_op_of ops) \<longleftrightarrow> RWithdraw own \<in> set ops"
proof (induction ops)
  case (Cons opn ops)
  then show ?case by (cases opn) auto
qed simp



end
