(* ===== verification/Fs_Layout.thy ===== *)
theory Fs_Layout
  imports Fs_Crc Io_Buffer Registry
begin

text \<open>
  The on-disk shape of a volume (crates/storage/fs/src/layout.rs), the filesystem's errors (lib.rs)
  and the inline entry names (name.rs). A superblock is 220 bytes: a signature, the checkpoint's
  fields and a checksum. \<open>Area\<close> has the one constructor \<open>Log\<close>, so the array of regions is one
  region. Fields are natural numbers; \<open>super_wf\<close> says that they fit their widths.
\<close>

section \<open>Errors\<close>

text \<open>
  \<open>FsDiverge\<close> is not an error of the source: it is the value of a walk that has not ended within
  the steps it was given, where the source has no bound.
\<close>

datatype block_error = BlkRange | BlkUnaligned | BlkDevice | BlkTimeout | BlkReadOnly | BlkPowerLoss

datatype fs_error =
    FsMagic
  | FsVersion nat
  | FsChecksum
  | FsCorrupt
  | FsMissing
  | FsExists
  | FsName
  | FsKind
  | FsRange
  | FsDevice block_error
  | FsSealed
  | FsCancelled
  | FsNamespace registry_error
  | FsHandle capability_error
  | FsBuffer buffer_error
  | FsHandles
  | FsFull
  | FsFailed
  | FsMemory
  | FsDiverge

section \<open>Names\<close>

definition MAX_NAME :: nat where
  "MAX_NAME = 255"

text \<open>A name is its live bytes; the rest of the inline array is never read.\<close>

definition name_new :: "byte list \<Rightarrow> fs_error + byte list" where
  "name_new bytes =
     (if bytes = [] \<or> length bytes > MAX_NAME then Inl FsName
      else if list_ex (\<lambda>b. b = 47 \<or> b = 0) bytes then Inl FsName
      else Inr bytes)"

definition name_wf :: "byte list \<Rightarrow> bool" where
  "name_wf n = (name_new n = Inr n)"

lemma name_new_Inr: "name_new bs = Inr n \<longleftrightarrow> n = bs \<and> bs \<noteq> [] \<and> length bs \<le> 255 \<and> 47 \<notin> set bs \<and> 0 \<notin> set bs"
  by (auto simp: name_new_def MAX_NAME_def list_ex_iff)

lemma name_wf_iff: "name_wf n \<longleftrightarrow> n \<noteq> [] \<and> length n \<le> 255 \<and> 47 \<notin> set n \<and> 0 \<notin> set n"
  by (simp add: name_wf_def name_new_Inr)

section \<open>Objects\<close>

datatype fs_kind = KDir | KFile

fun kind_byte :: "fs_kind \<Rightarrow> byte" where
  "kind_byte KDir = 0"
| "kind_byte KFile = 1"

record fs_object =
  ob_kind :: fs_kind
  ob_count :: nat
  ob_size :: nat

section \<open>Regions and superblocks\<close>

definition BLOCK :: nat where
  "BLOCK = 4096"

definition SECTOR :: nat where
  "SECTOR = 512"

definition SUPER_MAGIC :: "byte list" where
  "SUPER_MAGIC = [77, 79, 76, 84, 70, 83, 48, 53]"

definition SUPER_VERSION :: nat where
  "SUPER_VERSION = 5"

definition SUPERS :: nat where
  "SUPERS = 2"

definition LOG_BANKS :: nat where
  "LOG_BANKS = 3"

definition MAX_TREE_BLOCKS :: nat where
  "MAX_TREE_BLOCKS = 2 ^ 16"

record fs_region =
  rg_at :: nat
  rg_bytes :: nat
  rg_crc :: nat

definition region_blocks :: "fs_region \<Rightarrow> nat" where
  "region_blocks r = (rg_bytes r + BLOCK - 1) div BLOCK"

record super =
  sp_generation :: nat
  sp_blocks :: nat
  sp_root :: nat
  sp_log_blocks :: nat
  sp_tree_at :: nat
  sp_tree_blocks :: nat
  sp_tree_root :: nat
  sp_region :: fs_region

definition super_default :: super where
  "super_default =
     \<lparr>sp_generation = 0, sp_blocks = 0, sp_root = 0, sp_log_blocks = 0, sp_tree_at = 0,
      sp_tree_blocks = 0, sp_tree_root = 0, sp_region = \<lparr>rg_at = 0, rg_bytes = 0, rg_crc = 0\<rparr>\<rparr>"

definition super_check :: "super \<Rightarrow> fs_error + unit" where
  "super_check s =
     (case checked_mul (sp_log_blocks s) LOG_BANKS of None \<Rightarrow> Inl FsCorrupt | Some log_span \<Rightarrow>
      if sp_blocks s < log_span then Inl FsCorrupt else
      let log_start = sp_blocks s - log_span in
      case checked_add (sp_tree_at s) (sp_tree_blocks s) of None \<Rightarrow> Inl FsCorrupt | Some tree_end \<Rightarrow>
      if sp_log_blocks s = 0 \<or> sp_tree_blocks s = 0 \<or> sp_tree_blocks s > MAX_TREE_BLOCKS
         \<or> sp_tree_at s < SUPERS \<or> tree_end > log_start
         \<or> (sp_tree_root s \<noteq> 0 \<and> (sp_tree_root s < sp_tree_at s \<or> sp_tree_root s \<ge> tree_end))
      then Inl FsCorrupt else
      let region = sp_region s in
      case checked_add (rg_at region) (region_blocks region) of None \<Rightarrow> Inl FsCorrupt | Some end \<Rightarrow>
      if rg_at region < SUPERS \<or> end > sp_blocks s then Inl FsCorrupt else
      case checked_mul (sp_log_blocks s) BLOCK of None \<Rightarrow> Inl FsCorrupt | Some bank_bytes \<Rightarrow>
      if \<not> list_ex (\<lambda>bank. rg_at region = log_start + bank * sp_log_blocks s) [0..<LOG_BANKS]
         \<or> rg_bytes region > bank_bytes
      then Inl FsCorrupt else Inr ())"

definition super_parse :: "byte list \<Rightarrow> fs_error + super" where
  "super_parse bytes =
     (if length bytes < 220 then Inl FsCorrupt else
      let block = take 220 bytes in
      if sub_slice 0 8 block \<noteq> SUPER_MAGIC then Inl FsMagic
      else if unat (crc32c (take 216 block)) \<noteq> at_le 4 216 block then Inl FsChecksum
      else if at_le 4 8 block \<noteq> SUPER_VERSION then Inl (FsVersion (at_le 4 8 block))
      else if at_le 4 12 block \<noteq> BLOCK then Inl FsCorrupt else
      let region = hd (records 24 (drop 64 block));
          parsed = \<lparr>sp_generation = at_le 8 16 block, sp_blocks = at_le 8 24 block, sp_root = at_le 4 32 block,
                    sp_log_blocks = at_le 4 184 block, sp_tree_at = at_le 8 192 block,
                    sp_tree_blocks = at_le 4 200 block, sp_tree_root = at_le 8 208 block,
                    sp_region = \<lparr>rg_at = at_le 8 0 region, rg_bytes = at_le 8 8 region, rg_crc = at_le 4 16 region\<rparr>\<rparr>
      in case super_check parsed of Inl e \<Rightarrow> Inl e | Inr _ \<Rightarrow> Inr parsed)"

definition super_body :: "super \<Rightarrow> byte list" where
  "super_body s =
     (let block = replicate 220 0;
          block = put_slice 0 SUPER_MAGIC block;
          block = put_le 4 8 SUPER_VERSION block;
          block = put_le 4 12 BLOCK block;
          block = put_le 8 16 (sp_generation s) block;
          block = put_le 8 24 (sp_blocks s) block;
          block = put_le 4 32 (sp_root s) block;
          block = put_le 4 184 (sp_log_blocks s) block;
          block = put_le 8 192 (sp_tree_at s) block;
          block = put_le 4 200 (sp_tree_blocks s) block;
          block = put_le 8 208 (sp_tree_root s) block;
          block = put_le 8 64 (rg_at (sp_region s)) block;
          block = put_le 8 72 (rg_bytes (sp_region s)) block
      in put_le 4 80 (rg_crc (sp_region s)) block)"

definition super_encode :: "super \<Rightarrow> byte list \<Rightarrow> byte list" where
  "super_encode s bytes =
     (let block = super_body s in put_le 4 216 (unat (crc32c (take 216 block))) block @ drop 220 bytes)"

definition log_bank :: "super \<Rightarrow> nat \<Rightarrow> fs_error + nat" where
  "log_bank s bank =
     (if bank \<ge> LOG_BANKS then Inl FsCorrupt else
      case checked_mul (sp_log_blocks s) LOG_BANKS of None \<Rightarrow> Inl FsCorrupt | Some span \<Rightarrow>
      if sp_blocks s < span then Inl FsCorrupt
      else Inr (sp_blocks s - span + bank * sp_log_blocks s))"

section \<open>What a superblock promises\<close>

definition super_wf :: "super \<Rightarrow> bool" where
  "super_wf s \<longleftrightarrow>
     sp_generation s < 2 ^ 64 \<and> sp_blocks s < 2 ^ 64 \<and> sp_root s < 2 ^ 32 \<and> sp_log_blocks s < 2 ^ 32
     \<and> sp_tree_at s < 2 ^ 64 \<and> sp_tree_blocks s < 2 ^ 32 \<and> sp_tree_root s < 2 ^ 64
     \<and> rg_at (sp_region s) < 2 ^ 64 \<and> rg_bytes (sp_region s) < 2 ^ 64 \<and> rg_crc (sp_region s) < 2 ^ 32"

definition log_start :: "super \<Rightarrow> nat" where
  "log_start s = sp_blocks s - sp_log_blocks s * 3"

lemma super_check_iff:
  "super_check s = Inr () \<longleftrightarrow>
     sp_log_blocks s * 3 < 2 ^ 64 \<and> sp_log_blocks s * 3 \<le> sp_blocks s \<and> sp_tree_at s + sp_tree_blocks s < 2 ^ 64
     \<and> 0 < sp_log_blocks s \<and> 0 < sp_tree_blocks s \<and> sp_tree_blocks s \<le> 2 ^ 16 \<and> 2 \<le> sp_tree_at s
     \<and> sp_tree_at s + sp_tree_blocks s \<le> log_start s
     \<and> (sp_tree_root s = 0 \<or> sp_tree_root s \<in> {sp_tree_at s ..< sp_tree_at s + sp_tree_blocks s})
     \<and> rg_at (sp_region s) + region_blocks (sp_region s) < 2 ^ 64 \<and> 2 \<le> rg_at (sp_region s)
     \<and> rg_at (sp_region s) + region_blocks (sp_region s) \<le> sp_blocks s
     \<and> sp_log_blocks s * BLOCK < 2 ^ 64 \<and> rg_bytes (sp_region s) \<le> sp_log_blocks s * BLOCK
     \<and> (\<exists>bank < 3. rg_at (sp_region s) = log_start s + bank * sp_log_blocks s)"
  by (auto simp: super_check_def log_start_def LOG_BANKS_def SUPERS_def MAX_TREE_BLOCKS_def Let_def list_ex_iff
      split: option.splits if_splits)

lemma records_hd: "0 < n \<Longrightarrow> n \<le> length bs \<Longrightarrow> hd (records n bs) = take n bs"
  by (subst records.simps) simp

lemma region_field: "64 + at + n \<le> 88 \<Longrightarrow> 88 \<le> length b \<Longrightarrow> at_le n at (hd (records 24 (drop 64 b))) = at_le n (64 + at) b"
  using slice_slice [of at n 24 64 b] by (simp add: records_hd at_le_def sub_slice_def)

lemma super_body_puts:
  "super_body s =
     put_all [(4, 8, 5), (4, 12, 4096), (8, 16, sp_generation s), (8, 24, sp_blocks s), (4, 32, sp_root s),
              (4, 184, sp_log_blocks s), (8, 192, sp_tree_at s), (4, 200, sp_tree_blocks s), (8, 208, sp_tree_root s),
              (8, 64, rg_at (sp_region s)), (8, 72, rg_bytes (sp_region s)), (4, 80, rg_crc (sp_region s))]
       (put_slice 0 SUPER_MAGIC (replicate 220 0))"
  by (simp add: super_body_def put_all_simps Let_def SUPER_VERSION_def BLOCK_def)

lemma super_magic_length: "length SUPER_MAGIC = 8"
  by (simp add: SUPER_MAGIC_def)

lemma super_blank [simp]: "length (put_slice 0 SUPER_MAGIC (replicate 220 0)) = 220"
  by (simp add: put_slice_length SUPER_MAGIC_def)

lemma super_body_length [simp]: "length (super_body s) = 220"
  unfolding super_body_puts by (subst put_all_length) (simp_all add: put_all_eval)

lemma super_encode_length: "length bytes \<ge> 220 \<Longrightarrow> length (super_encode s bytes) = length bytes"
  by (simp add: super_encode_def Let_def window_laws)

lemma super_body_fields:
  "sub_slice 0 8 (super_body s) = SUPER_MAGIC"
  "at_le 4 8 (super_body s) = 5" "at_le 4 12 (super_body s) = 4096"
  "at_le 8 16 (super_body s) = sp_generation s mod 2 ^ 64" "at_le 8 24 (super_body s) = sp_blocks s mod 2 ^ 64"
  "at_le 4 32 (super_body s) = sp_root s mod 2 ^ 32" "at_le 4 184 (super_body s) = sp_log_blocks s mod 2 ^ 32"
  "at_le 8 192 (super_body s) = sp_tree_at s mod 2 ^ 64" "at_le 4 200 (super_body s) = sp_tree_blocks s mod 2 ^ 32"
  "at_le 8 208 (super_body s) = sp_tree_root s mod 2 ^ 64"
  "at_le 8 64 (super_body s) = rg_at (sp_region s) mod 2 ^ 64"
  "at_le 8 72 (super_body s) = rg_bytes (sp_region s) mod 2 ^ 64"
  "at_le 4 80 (super_body s) = rg_crc (sp_region s) mod 2 ^ 32"
  unfolding super_body_puts
  by (simp_all add: put_all_slice put_all_get put_all_eval slice_put_slice super_magic_length)

lemma super_encode_block:
  "length bytes \<ge> 220 \<Longrightarrow> take 220 (super_encode s bytes) = put_le 4 216 (unat (crc32c (take 216 (super_body s)))) (super_body s)"
  by (simp add: super_encode_def Let_def window_laws)

lemma unat_u32_mod: "unat (c :: u32) mod 4294967296 = unat c"
  using unsigned_less [of c, where ?'a = nat] by simp

lemma super_parse_encode:
  assumes "super_wf s" and "super_check s = Inr ()" and "220 \<le> length bytes"
  shows "super_parse (super_encode s bytes) = Inr s \<and> length (super_encode s bytes) = length bytes"
proof -
  let ?c = "unat (crc32c (take 216 (super_body s)))"
  let ?b = "put_le 4 216 ?c (super_body s)"
  have b: "take 220 (super_encode s bytes) = ?b" "length (super_encode s bytes) = length bytes"
    using assms(3) by (simp_all add: super_encode_block super_encode_length)
  have keep: "at_le n at ?b = at_le n at (super_body s)" if "at + n \<le> 216" for n at
    using that by (simp add: window_laws)
  have "sub_slice 0 216 ?b = sub_slice 0 216 (super_body s)" by (simp add: window_laws)
  then have head: "take 216 ?b = take 216 (super_body s)" by (simp add: sub_slice_def)
  have magic: "sub_slice 0 8 ?b = SUPER_MAGIC" by (simp add: window_laws super_body_fields)
  have sum: "at_le 4 216 ?b = ?c" by (simp add: window_laws unat_u32_mod)
  have len: "length ?b = 220" by (simp add: window_laws)
  have version: "at_le 4 8 ?b = SUPER_VERSION" "at_le 4 12 ?b = BLOCK"
    by (simp_all add: keep super_body_fields SUPER_VERSION_def BLOCK_def)
  let ?r = "hd (records 24 (drop 64 ?b))"
  have "\<lparr>sp_generation = at_le 8 16 ?b, sp_blocks = at_le 8 24 ?b, sp_root = at_le 4 32 ?b,
         sp_log_blocks = at_le 4 184 ?b, sp_tree_at = at_le 8 192 ?b, sp_tree_blocks = at_le 4 200 ?b,
         sp_tree_root = at_le 8 208 ?b,
         sp_region = \<lparr>rg_at = at_le 8 0 ?r, rg_bytes = at_le 8 8 ?r, rg_crc = at_le 4 16 ?r\<rparr>\<rparr> = s"
    using assms(1) by (simp add: keep region_field len super_body_fields super_wf_def)
  then show ?thesis
    using assms(2,3) b version by (simp add: super_parse_def Let_def head magic sum)
qed

theorem super_roundtrip:
  assumes "super_wf s" and "super_check s = Inr ()" and "220 \<le> length bytes"
  shows "super_parse (super_encode s bytes) = Inr s \<and> length (super_encode s bytes) = length bytes"
  by (rule super_parse_encode [OF assms])

definition sample_super :: super where
  "sample_super =
     \<lparr>sp_generation = 7, sp_blocks = 96, sp_root = 0, sp_log_blocks = 4, sp_tree_at = 2,
      sp_tree_blocks = 64, sp_tree_root = 3, sp_region = \<lparr>rg_at = 84, rg_bytes = 0, rg_crc = 0\<rparr>\<rparr>"

lemma sample_super_ok: "super_wf sample_super" "super_check sample_super = Inr ()"
  unfolding super_check_iff
  by (simp_all add: sample_super_def super_wf_def log_start_def BLOCK_def region_blocks_def exI [of _ "0::nat"])

theorem super_roundtrip_witness: "super_parse (super_encode sample_super (replicate 512 0)) = Inr sample_super"
  using super_roundtrip [OF sample_super_ok, of "replicate 512 0"] by simp

text \<open>The fields of an accepted superblock: its copies, its arena and its three banks are apart.\<close>

lemma super_parse_Inr:
  assumes "super_parse bytes = Inr s"
  shows "super_check s = Inr () \<and> super_wf s"
proof -
  let ?b = "take 220 bytes" and ?r = "hd (records 24 (drop 64 (take 220 bytes)))"
  have len: "length ?b = 220" and chk: "super_check s = Inr ()"
    and s: "s = \<lparr>sp_generation = at_le 8 16 ?b, sp_blocks = at_le 8 24 ?b, sp_root = at_le 4 32 ?b,
               sp_log_blocks = at_le 4 184 ?b, sp_tree_at = at_le 8 192 ?b, sp_tree_blocks = at_le 4 200 ?b,
               sp_tree_root = at_le 8 208 ?b,
               sp_region = \<lparr>rg_at = at_le 8 0 ?r, rg_bytes = at_le 8 8 ?r, rg_crc = at_le 4 16 ?r\<rparr>\<rparr>"
    using assms by (auto simp: super_parse_def Let_def split: if_splits sum.splits)
  have "length ?r = 24" using len by (simp add: records_hd)
  then show ?thesis
    using chk len at_le_lt [of _ 8 ?b] at_le_lt [of _ 4 ?b] at_le_lt [of _ 8 ?r] at_le_lt [of _ 4 ?r]
    by (simp add: s super_wf_def)
qed

theorem super_geometry:
  assumes "super_parse bytes = Inr s"
  shows "SUPERS \<le> sp_tree_at s \<and> sp_tree_at s + sp_tree_blocks s \<le> log_start s
    \<and> (\<forall>bank < LOG_BANKS. \<exists>at. log_bank s bank = Inr at \<and> log_start s \<le> at \<and> at + sp_log_blocks s \<le> sp_blocks s)
    \<and> (\<forall>i j x y. log_bank s i = Inr x \<and> log_bank s j = Inr y \<and> i < j \<longrightarrow> x + sp_log_blocks s \<le> y)
    \<and> (\<exists>bank. log_bank s bank = Inr (rg_at (sp_region s))) \<and> region_blocks (sp_region s) \<le> sp_log_blocks s
    \<and> 0 < sp_tree_blocks s \<and> sp_tree_blocks s \<le> MAX_TREE_BLOCKS
    \<and> (sp_tree_root s = 0 \<or> sp_tree_at s \<le> sp_tree_root s \<and> sp_tree_root s < sp_tree_at s + sp_tree_blocks s)"
proof -
  have chk: "super_check s = Inr ()" using super_parse_Inr [OF assms] by simp
  note c = chk [unfolded super_check_iff]
  have bank: "log_bank s i = (if i < 3 then Inr (log_start s + i * sp_log_blocks s) else Inl FsCorrupt)" for i
    using c by (simp add: log_bank_def LOG_BANKS_def log_start_def checked_mul_def)
  have "log_start s + i * sp_log_blocks s + sp_log_blocks s \<le> sp_blocks s" if "i < 3" for i
  proof -
    have "Suc i * sp_log_blocks s \<le> 3 * sp_log_blocks s" using that by (intro mult_le_mono1) simp
    moreover have "3 * sp_log_blocks s \<le> sp_blocks s" using c by simp
    ultimately show ?thesis unfolding log_start_def mult_Suc by linarith
  qed
  moreover have "log_start s + i * sp_log_blocks s + sp_log_blocks s \<le> log_start s + j * sp_log_blocks s" if "i < j" for i j
  proof -
    have "Suc i * sp_log_blocks s \<le> j * sp_log_blocks s" using that by (intro mult_le_mono1) simp
    then show ?thesis by simp
  qed
  moreover have "region_blocks (sp_region s) \<le> sp_log_blocks s"
  proof -
    have "rg_bytes (sp_region s) \<le> sp_log_blocks s * 4096" using c by (simp add: BLOCK_def)
    then show ?thesis by (simp add: region_blocks_def BLOCK_def)
  qed
  moreover have "\<exists>i < 3. rg_at (sp_region s) = log_start s + i * sp_log_blocks s" using c by blast
  ultimately show ?thesis using c by (auto simp: bank SUPERS_def LOG_BANKS_def MAX_TREE_BLOCKS_def split: if_splits)
qed

theorem super_geometry_witness:
  "log_start sample_super = 84 \<and> SUPERS \<le> sp_tree_at sample_super"
  using super_geometry [OF super_parse_encode [THEN conjunct1, OF sample_super_ok, of "replicate 512 0"]]
  by (simp add: sample_super_def log_start_def)

lemma super_bad_sum:
  "220 \<le> length b \<Longrightarrow> unat (crc32c (take 216 b)) \<noteq> at_le 4 216 (take 220 b)
   \<Longrightarrow> super_parse b \<in> {Inl FsMagic, Inl FsChecksum}"
  by (simp add: super_parse_def Let_def)

text \<open>Damage confined to four bytes in a row never yields a superblock.\<close>

text \<open>
  C33. Damage to at most four bytes in a row of a superblock, its checksum field apart, is never
  accepted.
\<close>

theorem super_burst_rejected:
  assumes "super_parse bytes = Inr s" and "length us = length vs" and "length us \<le> 4" and "us \<noteq> vs"
    and "bytes = xs @ us @ ys" and "length xs + length us \<le> 216"
  shows "super_parse (xs @ vs @ ys) \<in> {Inl FsMagic, Inl FsChecksum}"
proof -
  let ?n = "length xs + length us"
  have len: "length ys + ?n \<ge> 220"
    by (rule ccontr) (use assms(1,5) in \<open>simp add: super_parse_def\<close>)
  have old: "unat (crc32c (take 216 bytes)) = at_le 4 216 (take 220 bytes)"
    by (rule ccontr) (use assms(1) in \<open>simp add: super_parse_def Let_def split: if_splits\<close>)
  have cut: "take 216 (xs @ ws @ ys) = xs @ ws @ take (216 - ?n) ys" if "length ws = length us" for ws
    using that assms(6) by simp
  have "at_le 4 216 (take 220 (xs @ vs @ ys)) = at_le 4 216 (take 220 bytes)"
    using assms(2,5,6) by (simp add: at_le_def sub_slice_def)
  moreover have "crc32c (take 216 (xs @ vs @ ys)) \<noteq> crc32c (take 216 bytes)"
    using crc_burst_differs [OF assms(2,3,4), of xs "take (216 - ?n) ys"]
    unfolding assms(5) cut [OF refl] cut [OF assms(2) [symmetric]] by (rule not_sym)
  ultimately have "unat (crc32c (take 216 (xs @ vs @ ys))) \<noteq> at_le 4 216 (take 220 (xs @ vs @ ys))"
    using old by (metis word_unat_eq_iff)
  moreover have "220 \<le> length (xs @ vs @ ys)" using len assms(2) by simp
  ultimately show ?thesis by (rule super_bad_sum [rotated])
qed

theorem super_burst_rejected_witness:
  "\<exists>xs v ys. super_encode sample_super (replicate 220 0) \<noteq> xs @ v # ys
     \<and> super_parse (xs @ v # ys) \<in> {Inl FsMagic, Inl FsChecksum}"
proof -
  let ?b = "super_encode sample_super (replicate 220 0)"
  have parse: "super_parse ?b = Inr sample_super" and len: "length ?b = 220"
    using super_parse_encode [OF sample_super_ok, of "replicate 220 0"] by simp_all
  have split: "?b = take 20 ?b @ [?b ! 20] @ drop 21 ?b"
    using id_take_nth_drop [of 20 ?b] len by simp
  have ne: "[?b ! 20] \<noteq> [?b ! 20 + 1]" by simp
  have "super_parse (take 20 ?b @ [?b ! 20 + 1] @ drop 21 ?b) \<in> {Inl FsMagic, Inl FsChecksum}"
    by (rule super_burst_rejected [OF parse _ _ ne split]) (simp_all add: len)
  moreover have "?b \<noteq> take 20 ?b @ (?b ! 20 + 1) # drop 21 ?b"
    using split ne by (metis append_Cons append_Nil same_append_eq list.inject)
  ultimately show ?thesis by auto
qed

end
