(* ===== verification/Blk_Disk.thy ===== *)
theory Blk_Disk
  imports Fs_Layout
begin

text \<open>
  Sector storage (crates/storage/block/src): the bounds check of device.rs, the memory disk of
  loopback.rs and the disk of fault.rs that keeps writes volatile until a flush and loses power at
  a chosen action. The locale \<open>block_disk\<close> is the contract that the traits \<open>Device\<close> and \<open>Disk\<close>
  document; both disks meet it.
\<close>

section \<open>Bounds\<close>

definition blk_bounds :: "nat \<Rightarrow> nat \<Rightarrow> nat \<Rightarrow> block_error + nat" where
  "blk_bounds sectors sector len =
     (if len mod SECTOR \<noteq> 0 then Inl BlkUnaligned else
      let span = len div SECTOR in
      case checked_add sector span of None \<Rightarrow> Inl BlkRange | Some end \<Rightarrow>
      if end > sectors then Inl BlkRange else Inr span)"

section \<open>The disk that loses power\<close>

record faulty =
  flt_stable :: "byte list"
  flt_volatile :: "byte list"
  flt_cut :: "nat option"
  flt_steps :: nat
  flt_failed :: bool

definition fault_new :: "byte list \<Rightarrow> byte list \<Rightarrow> block_error + faulty" where
  "fault_new base cache =
     (if length base \<noteq> length cache \<or> length base mod SECTOR \<noteq> 0 then Inl BlkUnaligned
      else Inr \<lparr>flt_stable = base, flt_volatile = base, flt_cut = None, flt_steps = 0, flt_failed = False\<rparr>)"

definition fault_cut_after :: "nat \<Rightarrow> faulty \<Rightarrow> faulty" where
  "fault_cut_after steps d = d\<lparr>flt_cut := Some steps\<rparr>"

definition fault_action :: "faulty \<Rightarrow> (block_error + unit) \<times> faulty" where
  "fault_action d =
     (if flt_failed d \<or> flt_cut d = Some (flt_steps d)
      then (Inl BlkPowerLoss, d\<lparr>flt_failed := True\<rparr>)
      else (Inr (), d\<lparr>flt_steps := flt_steps d + 1\<rparr>))"

definition fault_sectors :: "faulty \<Rightarrow> nat" where
  "fault_sectors d = length (flt_volatile d) div SECTOR"

definition fault_read :: "nat \<Rightarrow> nat \<Rightarrow> faulty \<Rightarrow> block_error + byte list" where
  "fault_read sector n d =
     (case blk_bounds (fault_sectors d) sector n of Inl e \<Rightarrow> Inl e
      | Inr _ \<Rightarrow> Inr (sub_slice (sector * SECTOR) n (flt_volatile d)))"

definition fault_write :: "nat \<Rightarrow> byte list \<Rightarrow> faulty \<Rightarrow> (block_error + unit) \<times> faulty" where
  "fault_write sector buf d =
     (case blk_bounds (fault_sectors d) sector (length buf) of Inl e \<Rightarrow> (Inl e, d)
      | Inr _ \<Rightarrow>
        (case fault_action d of (Inl e, d') \<Rightarrow> (Inl e, d')
         | (Inr _, d') \<Rightarrow> (Inr (), d'\<lparr>flt_volatile := put_slice (sector * SECTOR) buf (flt_volatile d')\<rparr>)))"

definition fault_flush :: "faulty \<Rightarrow> (block_error + unit) \<times> faulty" where
  "fault_flush d =
     (case fault_action d of (Inl e, d') \<Rightarrow> (Inl e, d')
      | (Inr _, d') \<Rightarrow> (Inr (), d'\<lparr>flt_stable := flt_volatile d'\<rparr>))"

section \<open>The memory disk\<close>

datatype image = ReadImage "byte list" | WriteImage "byte list"

fun image_bytes :: "image \<Rightarrow> byte list" where
  "image_bytes (ReadImage bytes) = bytes"
| "image_bytes (WriteImage bytes) = bytes"

definition loopback_read_only :: "byte list \<Rightarrow> block_error + image" where
  "loopback_read_only bytes = (if length bytes mod SECTOR \<noteq> 0 then Inl BlkUnaligned else Inr (ReadImage bytes))"

definition loopback_writable :: "byte list \<Rightarrow> block_error + image" where
  "loopback_writable bytes = (if length bytes mod SECTOR \<noteq> 0 then Inl BlkUnaligned else Inr (WriteImage bytes))"

definition loopback_sectors :: "image \<Rightarrow> nat" where
  "loopback_sectors d = length (image_bytes d) div SECTOR"

definition loopback_read :: "nat \<Rightarrow> nat \<Rightarrow> image \<Rightarrow> block_error + byte list" where
  "loopback_read sector n d =
     (case blk_bounds (loopback_sectors d) sector n of Inl e \<Rightarrow> Inl e
      | Inr _ \<Rightarrow> Inr (sub_slice (sector * SECTOR) n (image_bytes d)))"

definition loopback_write :: "nat \<Rightarrow> byte list \<Rightarrow> image \<Rightarrow> (block_error + unit) \<times> image" where
  "loopback_write sector buf d =
     (case blk_bounds (loopback_sectors d) sector (length buf) of Inl e \<Rightarrow> (Inl e, d)
      | Inr _ \<Rightarrow>
        (case d of ReadImage _ \<Rightarrow> (Inl BlkReadOnly, d)
         | WriteImage bytes \<Rightarrow> (Inr (), WriteImage (put_slice (sector * SECTOR) buf bytes))))"

definition loopback_flush :: "image \<Rightarrow> (block_error + unit) \<times> image" where
  "loopback_flush d = (Inr (), d)"

section \<open>The contract\<close>

lemma blk_bounds_Inr:
  "blk_bounds sectors sector len = Inr span \<longleftrightarrow>
     len mod 512 = 0 \<and> span = len div 512 \<and> sector + len div 512 < 2 ^ 64 \<and> sector + len div 512 \<le> sectors"
  by (auto simp: blk_bounds_def SECTOR_def Let_def split: option.splits)

lemma blk_bounds_bytes:
  assumes "blk_bounds (size_all div 512) sector len = Inr span"
  shows "sector * 512 + len \<le> size_all"
proof -
  have "len = len div 512 * 512" "sector + len div 512 \<le> size_all div 512"
    using assms by (auto simp: blk_bounds_Inr)
  then have "sector * 512 + len \<le> (size_all div 512) * 512" by (metis add_mult_distrib mult_le_mono1)
  then show ?thesis by (meson div_times_less_eq_dividend order_trans)
qed

text \<open>
  Reads see the content, a successful write replaces exactly its range, a failed operation changes
  nothing a reader or a power loss can see, and what a successful flush covered survives.
\<close>

locale block_disk =
  fixes content :: "'d \<Rightarrow> byte list"
    and durable :: "'d \<Rightarrow> byte list"
    and rd :: "nat \<Rightarrow> nat \<Rightarrow> 'd \<Rightarrow> block_error + byte list"
    and wr :: "nat \<Rightarrow> byte list \<Rightarrow> 'd \<Rightarrow> (block_error + unit) \<times> 'd"
    and fl :: "'d \<Rightarrow> (block_error + unit) \<times> 'd"
  assumes rd_content: "rd sector n d = Inr bs \<Longrightarrow>
      bs = sub_slice (sector * 512) n (content d) \<and> sector * 512 + n \<le> length (content d)"
    and rd_total: "n mod 512 = 0 \<Longrightarrow> sector * 512 + n \<le> length (content d) \<Longrightarrow> length (content d) < 2 ^ 64 \<Longrightarrow>
      \<exists>bs. rd sector n d = Inr bs"
    and wr_content: "wr sector bs d = (Inr (), d') \<Longrightarrow>
      content d' = put_slice (sector * 512) bs (content d) \<and> sector * 512 + length bs \<le> length (content d)"
    and wr_refused: "wr sector bs d = (Inl e, d') \<Longrightarrow> content d' = content d \<and> durable d' = durable d"
    and fl_durable: "fl d = (Inr (), d') \<Longrightarrow> content d' = content d \<and> durable d' = content d"
    and fl_refused: "fl d = (Inl e, d') \<Longrightarrow> content d' = content d \<and> durable d' = durable d"
begin

lemma wr_length: "wr sector bs d = (Inr (), d') \<Longrightarrow> length (content d') = length (content d)"
  using wr_content [of sector bs d d'] by (auto simp: put_slice_length)

lemma rd_written:
  "wr sector bs d = (Inr (), d') \<Longrightarrow> rd sector (length bs) d' = Inr bs' \<Longrightarrow> bs' = bs"
  using wr_content [of sector bs d d'] rd_content [of sector "length bs" d' bs'] by (auto simp: slice_put_slice)

lemma rd_elsewhere:
  assumes "wr sector bs d = (Inr (), d')" and "at * 512 + n \<le> sector * 512 \<or> sector * 512 + length bs \<le> at * 512"
    and "rd at n d' = Inr x" and "rd at n d = Inr y"
  shows "x = y"
proof -
  have "x = sub_slice (at * 512) n (put_slice (sector * 512) bs (content d))"
    and "sector * 512 \<le> length (content d)" and "y = sub_slice (at * 512) n (content d)"
    using rd_content [OF assms(3)] rd_content [OF assms(4)] wr_content [OF assms(1)] by auto
  then show ?thesis using assms(2) by (auto simp: slice_put_before slice_put_after)
qed

lemma write_flush_survives:
  assumes "wr sector bs d = (Inr (), d')" and "fl d' = (Inr (), d'')"
  shows "sub_slice (sector * 512) (length bs) (durable d'') = bs"
  using wr_content [OF assms(1)] fl_durable [OF assms(2)] by (simp add: slice_put_slice)

end

interpretation fault_disk: block_disk flt_volatile flt_stable fault_read fault_write fault_flush
proof (unfold_locales, goal_cases)
  case (1 sector n d bs)
  then show ?case
    using blk_bounds_bytes [of "length (flt_volatile d)" sector n]
    by (auto simp: fault_read_def fault_sectors_def SECTOR_def split: sum.splits)
next
  case (2 n sector d)
  then show ?case
    by (cases "blk_bounds (fault_sectors d) sector n")
      (auto simp: fault_read_def fault_sectors_def blk_bounds_def SECTOR_def Let_def split: option.splits if_splits)
next
  case (3 sector bs d d')
  then show ?case
    using blk_bounds_bytes [of "length (flt_volatile d)" sector "length bs"]
    by (auto simp: fault_write_def fault_action_def fault_sectors_def SECTOR_def split: sum.splits prod.splits if_splits)
next
  case (4 sector bs d e d')
  then show ?case by (auto simp: fault_write_def fault_action_def split: sum.splits prod.splits if_splits)
next
  case (5 d d')
  then show ?case by (auto simp: fault_flush_def fault_action_def split: if_splits)
next
  case (6 d e d')
  then show ?case by (auto simp: fault_flush_def fault_action_def split: if_splits)
qed

interpretation loopback_disk: block_disk image_bytes image_bytes loopback_read loopback_write loopback_flush
proof (unfold_locales, goal_cases)
  case (1 sector n d bs)
  then show ?case
    using blk_bounds_bytes [of "length (image_bytes d)" sector n]
    by (auto simp: loopback_read_def loopback_sectors_def SECTOR_def split: sum.splits)
next
  case (2 n sector d)
  then show ?case
    by (cases "blk_bounds (loopback_sectors d) sector n")
      (auto simp: loopback_read_def loopback_sectors_def blk_bounds_def SECTOR_def Let_def split: option.splits if_splits)
next
  case (3 sector bs d d')
  then show ?case
    using blk_bounds_bytes [of "length (image_bytes d)" sector "length bs"]
    by (auto simp: loopback_write_def loopback_sectors_def SECTOR_def split: sum.splits image.splits)
next
  case (4 sector bs d e d')
  then show ?case by (auto simp: loopback_write_def split: sum.splits image.splits)
qed (auto simp: loopback_flush_def)

section \<open>Power loss\<close>

lemma fault_write_stable: "fault_write sector bs d = (r, d') \<Longrightarrow> flt_stable d' = flt_stable d"
  by (auto simp: fault_write_def fault_action_def split: sum.splits prod.splits if_splits)

lemma fault_write_length: "fault_write sector bs d = (r, d') \<Longrightarrow> length (flt_volatile d') = length (flt_volatile d)"
  using fault_disk.wr_length [of sector bs d d'] fault_disk.wr_refused [of sector bs d _ d'] by (cases r) auto

text \<open>A disk whose power will not fail refuses only what lies outside it.\<close>

definition powered :: "faulty \<Rightarrow> bool" where
  "powered d \<longleftrightarrow> flt_cut d = None \<and> \<not> flt_failed d"

lemma powered_write:
  assumes "powered d" and "fault_write sector bs d = (r, d')"
  shows "powered d'" "length bs mod 512 = 0 \<Longrightarrow> sector * 512 + length bs \<le> length (flt_volatile d) \<Longrightarrow> length (flt_volatile d) < 2 ^ 64 \<Longrightarrow> r = Inr ()"
proof -
  show "powered d'" using assms by (auto simp: powered_def fault_write_def fault_action_def split: sum.splits)
  assume fits: "length bs mod 512 = 0" "sector * 512 + length bs \<le> length (flt_volatile d)" "length (flt_volatile d) < 2 ^ 64"
  then have "sector + length bs div 512 \<le> length (flt_volatile d) div 512" by (auto simp: div_le_mono less_eq_div_iff_mult_less_eq algebra_simps)
  then have "blk_bounds (fault_sectors d) sector (length bs) = Inr (length bs div 512)"
    using fits by (simp add: blk_bounds_Inr fault_sectors_def SECTOR_def)
  then show "r = Inr ()" using assms by (simp add: powered_def fault_write_def fault_action_def)
qed

lemma powered_flush: "powered d \<Longrightarrow> fault_flush d = (r, d') \<Longrightarrow> r = Inr () \<and> powered d'"
  by (auto simp: powered_def fault_flush_def fault_action_def)

lemma fault_dead:
  "flt_failed d \<Longrightarrow> isl (fst (fault_write sector bs d)) \<and> flt_failed (snd (fault_write sector bs d))"
  "flt_failed d \<Longrightarrow> isl (fst (fault_flush d)) \<and> flt_failed (snd (fault_flush d))"
  by (auto simp: fault_write_def fault_flush_def fault_action_def split: sum.splits)

end
