(* ===== verification/Fs_Log.thy ===== *)
theory Fs_Log
  imports Fs_Layout
begin

text \<open>
  File payload records of the checkpoint log (crates/storage/fs/src/log.rs): a 32-byte header, one
  checksum of four bytes for each block of payload, the payload, and padding to a whole sector.
\<close>

section \<open>Records\<close>

definition ALIGN :: nat where
  "ALIGN = SECTOR"

definition HEADER :: nat where
  "HEADER = 32"

definition LOG_MAGIC :: "byte list" where
  "LOG_MAGIC = [77, 76, 79, 71]"

definition LOG_WRITE :: byte where
  "LOG_WRITE = 2"

record payload_record =
  lr_object :: nat
  lr_offset :: nat
  lr_bytes :: nat

definition record_write :: "nat \<Rightarrow> nat \<Rightarrow> nat \<Rightarrow> fs_error + payload_record" where
  "record_write object offset bytes =
     (if bytes \<ge> 2 ^ 32 then Inl FsRange
      else if bytes = 0 then Inl FsRange
      else Inr \<lparr>lr_object = object, lr_offset = offset, lr_bytes = bytes\<rparr>)"

definition record_checked :: "nat \<Rightarrow> nat \<Rightarrow> nat \<Rightarrow> fs_error + payload_record" where
  "record_checked object offset bytes =
     (if bytes = 0 then Inl FsRange else Inr \<lparr>lr_object = object, lr_offset = offset, lr_bytes = bytes\<rparr>)"

definition record_chunks :: "payload_record \<Rightarrow> nat" where
  "record_chunks r = (lr_bytes r + BLOCK - 1) div BLOCK"

definition record_payload_at :: "payload_record \<Rightarrow> fs_error + nat" where
  "record_payload_at r =
     (case checked_add HEADER (record_chunks r * 4) of None \<Rightarrow> Inl FsRange | Some at \<Rightarrow> Inr at)"

definition record_span :: "payload_record \<Rightarrow> fs_error + nat" where
  "record_span r =
     (case record_payload_at r of Inl e \<Rightarrow> Inl e | Inr at \<Rightarrow>
      case checked_add at (lr_bytes r) of None \<Rightarrow> Inl FsRange | Some bytes \<Rightarrow>
      case checked_next_multiple_of bytes ALIGN of None \<Rightarrow> Inl FsRange | Some span \<Rightarrow> Inr span)"

definition record_checksum_at :: "payload_record \<Rightarrow> nat \<Rightarrow> fs_error + nat" where
  "record_checksum_at r chunk =
     (if chunk \<ge> record_chunks r then Inl FsRange
      else case checked_add HEADER (chunk * 4) of None \<Rightarrow> Inl FsRange | Some at \<Rightarrow> Inr at)"

definition record_chunk :: "payload_record \<Rightarrow> nat \<Rightarrow> fs_error + (nat \<times> nat)" where
  "record_chunk r chunk =
     (if chunk \<ge> record_chunks r then Inl FsRange
      else let offset = chunk * BLOCK in Inr (offset, min (lr_bytes r - offset) BLOCK))"

definition record_encode :: "payload_record \<Rightarrow> byte list" where
  "record_encode r =
     (let header = replicate 32 0;
          header = put_slice 0 LOG_MAGIC header;
          header = put_byte 4 LOG_WRITE header;
          header = put_le 4 8 (lr_bytes r) header;
          header = put_le 4 12 (lr_object r) header
      in put_le 8 20 (lr_offset r) header)"

definition record_parse :: "byte list \<Rightarrow> fs_error + payload_record" where
  "record_parse bytes =
     (if length bytes < 32 then Inl FsCorrupt else
      let header = take 32 bytes in
      if sub_slice 0 4 header \<noteq> LOG_MAGIC then Inl FsCorrupt else
      let payload = at_le 4 8 header in
      if header ! 4 \<noteq> LOG_WRITE
         \<or> list_ex (\<lambda>b. b \<noteq> 0) (sub_slice 5 3 header)
         \<or> list_ex (\<lambda>b. b \<noteq> 0) (sub_slice 16 4 header)
         \<or> list_ex (\<lambda>b. b \<noteq> 0) (sub_slice 28 4 header)
         \<or> payload = 0
      then Inl FsCorrupt
      else Inr \<lparr>lr_object = at_le 4 12 header, lr_offset = at_le 8 20 header, lr_bytes = payload\<rparr>)"

section \<open>Spans\<close>

definition record_wf :: "payload_record \<Rightarrow> bool" where
  "record_wf r = (lr_object r < 2 ^ 32 \<and> lr_offset r < 2 ^ 64 \<and> lr_bytes r < 2 ^ 32 \<and> 0 < lr_bytes r)"

lemma record_chunks_bounds:
  assumes "0 < lr_bytes r"
  shows "lr_bytes r \<le> record_chunks r * 4096" "(record_chunks r - 1) * 4096 < lr_bytes r" "0 < record_chunks r"
proof -
  have *: "record_chunks r = (lr_bytes r + 4095) div 4096" by (simp add: record_chunks_def BLOCK_def)
  show "lr_bytes r \<le> record_chunks r * 4096" "(record_chunks r - 1) * 4096 < lr_bytes r" "0 < record_chunks r"
    unfolding * using assms by linarith+
qed

lemma record_payload_at_eq: "lr_bytes r < 2 ^ 32 \<Longrightarrow> record_payload_at r = Inr (32 + record_chunks r * 4)"
  by (simp add: record_payload_at_def HEADER_def record_chunks_def BLOCK_def checked_add_def)

lemma record_span_positive: "record_span r = Inr n \<Longrightarrow> 0 < n"
proof -
  assume "record_span r = Inr n"
  then obtain at b where at: "record_payload_at r = Inr at" and b: "checked_add at (lr_bytes r) = Some b"
    and n: "checked_next_multiple_of b ALIGN = Some n"
    by (auto simp: record_span_def split: sum.splits option.splits)
  have "32 \<le> at" using at by (auto simp: record_payload_at_def HEADER_def split: option.splits)
  then show ?thesis using checked_next_multiple_of_SomeD [OF n] b by simp
qed

lemma record_span_total:
  assumes "lr_bytes r < 2 ^ 32"
  shows "\<exists>n. record_span r = Inr n \<and> n mod 512 = 0 \<and> 32 + record_chunks r * 4 + lr_bytes r \<le> n
    \<and> n < 32 + record_chunks r * 4 + lr_bytes r + 512"
proof -
  let ?b = "32 + record_chunks r * 4 + lr_bytes r"
  have small: "?b + 512 < 2 ^ 64" using assms by (simp add: record_chunks_def BLOCK_def)
  then obtain n where n: "checked_next_multiple_of ?b 512 = Some n"
    by (cases "checked_next_multiple_of ?b 512") (auto simp: checked_next_multiple_of_def split: if_splits)
  have "record_span r = Inr n"
    using assms small n by (simp add: record_span_def record_payload_at_eq ALIGN_def SECTOR_def checked_add_def)
  then show ?thesis using checked_next_multiple_of_SomeD [OF n] small by auto
qed

section \<open>Headers\<close>

lemma record_encode_puts:
  "record_encode r = put_all [(4, 8, lr_bytes r), (4, 12, lr_object r), (8, 20, lr_offset r)]
     ([77, 76, 79, 71, 2] @ replicate 27 0)"
  by (simp add: record_encode_def put_all_simps Let_def LOG_MAGIC_def LOG_WRITE_def put_slice_def put_byte_def numeral_nat)

lemma record_encode_length [simp]: "length (record_encode r) = 32"
  unfolding record_encode_puts by (subst put_all_length) (simp_all add: put_all_eval)

lemma record_encode_fields:
  "sub_slice 0 4 (record_encode r) = LOG_MAGIC" "sub_slice 4 1 (record_encode r) = [LOG_WRITE]"
  "sub_slice 5 3 (record_encode r) = replicate 3 0" "sub_slice 16 4 (record_encode r) = replicate 4 0"
  "sub_slice 28 4 (record_encode r) = replicate 4 0"
  "at_le 4 8 (record_encode r) = lr_bytes r mod 2 ^ 32" "at_le 4 12 (record_encode r) = lr_object r mod 2 ^ 32"
  "at_le 8 20 (record_encode r) = lr_offset r mod 2 ^ 64"
  unfolding record_encode_puts
  by (simp_all add: put_all_slice put_all_get put_all_eval) (simp_all add: sub_slice_def LOG_MAGIC_def LOG_WRITE_def numeral_nat)

lemma record_encode_tag: "record_encode r ! 4 = LOG_WRITE"
  using record_encode_fields(2) [of r] nth_slice [of 0 1 4 "record_encode r"] by simp

lemma record_parse_encode: "record_wf r \<Longrightarrow> record_parse (record_encode r @ rest) = Inr r"
  by (simp add: record_parse_def record_wf_def record_encode_fields record_encode_tag Let_def list_ex_iff)

lemma record_parse_wf: "record_parse bytes = Inr r \<Longrightarrow> record_wf r"
  using at_le_lt [of _ 4 "take 32 bytes"] at_le_lt [of _ 8 "take 32 bytes"]
  by (auto simp: record_parse_def record_wf_def Let_def split: if_splits)

text \<open>The checksum of the record headers, walked from record to record.\<close>

function headers_crc_from :: "byte list \<Rightarrow> nat \<Rightarrow> u32 \<Rightarrow> fs_error + u32" where
  "headers_crc_from bytes cursor crc =
     (if cursor < length bytes then
        (if length bytes < cursor + 32 then Inl FsCorrupt else
         let header = sub_slice cursor 32 bytes in
         case record_parse header of Inl e \<Rightarrow> Inl e | Inr r \<Rightarrow>
         case record_span r of Inl _ \<Rightarrow> Inl FsCorrupt | Inr span \<Rightarrow>
         headers_crc_from bytes (cursor + span) (crc_update crc header))
      else if cursor \<noteq> length bytes then Inl FsCorrupt else Inr (crc_finish crc))"
  by auto
termination
  by (relation "measure (\<lambda>(bytes, cursor, crc). length bytes - cursor)") (auto dest: record_span_positive)

declare headers_crc_from.simps [simp del]

definition headers_crc :: "byte list \<Rightarrow> fs_error + u32" where
  "headers_crc bytes = headers_crc_from bytes 0 crc_new"

text \<open>A record as the log holds it: header, checksum table, payload, padding.\<close>

definition record_image :: "payload_record \<Rightarrow> byte list \<Rightarrow> byte list" where
  "record_image r body = record_encode r @ body"

lemma headers_crc_images:
  assumes "\<forall>(r, body) \<in> set rs. record_wf r \<and> record_span r = Inr (32 + length body)"
  shows "headers_crc (concat (map (\<lambda>(r, body). record_image r body) rs)) = Inr (crc32c (concat (map (\<lambda>(r, body). record_encode r) rs)))"
proof -
  have step: "headers_crc_from (pre @ concat (map (\<lambda>(r, body). record_image r body) rs)) (length pre) c
      = Inr (crc_finish (crc_update c (concat (map (\<lambda>(r, body). record_encode r) rs))))"
    if "\<forall>(r, body) \<in> set rs. record_wf r \<and> record_span r = Inr (32 + length body)" for pre c
    using that
  proof (induction rs arbitrary: pre c)
    case Nil
    then show ?case by (simp add: headers_crc_from.simps crc_update_def crc_sliced_steps)
  next
    case (Cons rb rs)
    obtain r body where rb: "rb = (r, body)" by (cases rb)
    have r: "record_wf r" "record_span r = Inr (32 + length body)" using Cons.prems rb by auto
    let ?rest = "concat (map (\<lambda>(r, body). record_image r body) rs)"
    have slice: "sub_slice (length pre) 32 (pre @ record_image r body @ ?rest) = record_encode r"
      by (simp add: sub_slice_def record_image_def)
    have len: "length (record_image r body) = 32 + length body" by (simp add: record_image_def)
    have parse: "record_parse (record_encode r) = Inr r" using record_parse_encode [OF r(1), of "[]"] by simp
    have "headers_crc_from (pre @ record_image r body @ ?rest) (length pre) c
        = headers_crc_from (pre @ record_image r body @ ?rest) (length pre + (32 + length body)) (crc_update c (record_encode r))"
      using slice parse r(2) len by (subst headers_crc_from.simps) (simp add: Let_def)
    also have "\<dots> = Inr (crc_finish (crc_update (crc_update c (record_encode r)) (concat (map (\<lambda>(r, body). record_encode r) rs))))"
      using Cons.IH [of "pre @ record_image r body" "crc_update c (record_encode r)"] Cons.prems len by simp
    finally show ?case using rb by (simp add: crc_update_append)
  qed
  show ?thesis using step [OF assms, of "[]" crc_new] by (simp add: headers_crc_def crc32c_def)
qed

section \<open>Properties\<close>

theorem record_roundtrip:
  assumes "record_wf r"
  shows "record_parse (record_encode r @ rest) = Inr r \<and> length (record_encode r) = HEADER"
  using record_parse_encode [OF assms] by (simp add: HEADER_def)

theorem record_roundtrip_witness:
  "record_parse (record_encode \<lparr>lr_object = 3, lr_offset = 10, lr_bytes = 5\<rparr> @ [1, 2]) = Inr \<lparr>lr_object = 3, lr_offset = 10, lr_bytes = 5\<rparr>"
  using record_roundtrip [of "\<lparr>lr_object = 3, lr_offset = 10, lr_bytes = 5\<rparr>" "[1, 2]"] by (simp add: record_wf_def)

theorem record_chunks_tile:
  assumes "0 < lr_bytes r" and "lr_bytes r < 2 ^ 32"
  shows "\<exists>at span. record_payload_at r = Inr at \<and> record_span r = Inr span \<and> span mod ALIGN = 0
    \<and> at + lr_bytes r \<le> span \<and> span < at + lr_bytes r + ALIGN
    \<and> (\<forall>chunk < record_chunks r. \<exists>c offset n. record_checksum_at r chunk = Inr c \<and> record_chunk r chunk = Inr (offset, n)
         \<and> c + 4 \<le> at \<and> 0 < n \<and> n \<le> BLOCK \<and> offset + n = min ((chunk + 1) * BLOCK) (lr_bytes r))
    \<and> (\<forall>chunk \<ge> record_chunks r. record_chunk r chunk = Inl FsRange)
    \<and> (\<forall>i < lr_bytes r. i div BLOCK < record_chunks r)"
proof -
  obtain span where span: "record_span r = Inr span" "span mod 512 = 0"
    "32 + record_chunks r * 4 + lr_bytes r \<le> span" "span < 32 + record_chunks r * 4 + lr_bytes r + 512"
    using record_span_total [OF assms(2)] by (elim exE conjE)
  note b = record_chunks_bounds [OF assms(1)]
  have "\<exists>c offset n. record_checksum_at r chunk = Inr c \<and> record_chunk r chunk = Inr (offset, n)
         \<and> c + 4 \<le> 32 + record_chunks r * 4 \<and> 0 < n \<and> n \<le> 4096 \<and> offset + n = min ((chunk + 1) * 4096) (lr_bytes r)"
    if "chunk < record_chunks r" for chunk
  proof -
    have "chunk * 4096 < lr_bytes r" using that b by linarith
    moreover have "32 + chunk * 4 < 2 ^ 64" using \<open>chunk * 4096 < lr_bytes r\<close> assms(2) by simp
    ultimately show ?thesis using that
      by (auto simp: record_checksum_at_def record_chunk_def HEADER_def BLOCK_def checked_add_def Let_def)
  qed
  moreover have "i div 4096 < record_chunks r" if "i < lr_bytes r" for i
    using that b by (simp add: less_mult_imp_div_less)
  moreover have "record_chunk r chunk = Inl FsRange" if "record_chunks r \<le> chunk" for chunk
    using that by (simp add: record_chunk_def)
  ultimately show ?thesis
    using span record_payload_at_eq [OF assms(2)] by (auto simp: ALIGN_def SECTOR_def BLOCK_def)
qed

theorem record_chunks_tile_witness:
  "\<exists>at. record_payload_at \<lparr>lr_object = 3, lr_offset = 10, lr_bytes = 5000\<rparr> = Inr at
     \<and> (\<forall>i < 5000. i div BLOCK < record_chunks \<lparr>lr_object = 3, lr_offset = 10, lr_bytes = 5000\<rparr>)"
  using record_chunks_tile [of "\<lparr>lr_object = 3, lr_offset = 10, lr_bytes = 5000\<rparr>"] by auto

end
