(* ===== verification/Fs_Volume.thy ===== *)
theory Fs_Volume
  imports Effect Blk_Disk Fs_Log
begin

text \<open>
  Block input and output of a mounted volume (crates/storage/fs/src/volume.rs): eight slots that
  keep blocks or wait for them, and the writes that go past them. A read is served when it is
  submitted, since the ring serves one client in order, and its result waits in the slot until
  somebody lands it; the ring has room for every slot, so a submission is never refused. The buffer
  kept aside carries one operation at a time and is not state. What is shown: the slots always
  hold what the disk holds, so a block read through them is the block on the disk, and a write
  changes the blocks it names and no other.
\<close>

section \<open>Slots\<close>

definition SECTORS :: nat where
  "SECTORS = BLOCK div SECTOR"

definition SLOTS :: nat where
  "SLOTS = 8"

datatype vslot =
    Here "nat option" "byte list"
  | Flight nat "block_error + unit" "byte list"
  | Lent

record volume =
  vl_disk :: faulty
  vl_sectors :: nat
  vl_slots :: "vslot list"
  vl_hand :: nat
  vl_super :: super
  vl_active :: nat
  vl_prev_log :: "nat option"
  vl_prev_tree :: "nat option"

fun slot_holds :: "nat \<Rightarrow> vslot \<Rightarrow> bool" where
  "slot_holds index (Here block buf) = (block = Some index)"
| "slot_holds index (Flight block r buf) = (block = index)"
| "slot_holds index Lent = False"

definition vol_find :: "nat \<Rightarrow> volume \<Rightarrow> nat option" where
  "vol_find index v = find_index (slot_holds index) (vl_slots v)"

fun vslot_empty :: "vslot \<Rightarrow> bool" where
  "vslot_empty (Here None buf) = True"
| "vslot_empty _ = False"

fun slot_here :: "vslot \<Rightarrow> bool" where
  "slot_here (Here block buf) = True"
| "slot_here _ = False"

definition vol_grow :: "volume \<Rightarrow> nat option \<times> volume" where
  "vol_grow v =
     (if length (vl_slots v) = SLOTS then (None, v)
      else (Some (length (vl_slots v)), v\<lparr>vl_slots := vl_slots v @ [Here None (replicate BLOCK 0)]\<rparr>))"

fun hand_loop :: "nat \<Rightarrow> volume \<Rightarrow> nat option \<times> volume" where
  "hand_loop 0 v = (None, v)"
| "hand_loop (Suc n) v =
     (let at = vl_hand v; v = v\<lparr>vl_hand := (vl_hand v + 1) mod length (vl_slots v)\<rparr> in
      if slot_here (vl_slots v ! at) then (Some at, v) else hand_loop n v)"

definition vol_free :: "volume \<Rightarrow> nat option \<times> volume" where
  "vol_free v =
     (case find_index vslot_empty (vl_slots v) of Some at \<Rightarrow> (Some at, v)
      | None \<Rightarrow>
        (case vol_grow v of (Some at, v) \<Rightarrow> (Some at, v)
         | (None, v) \<Rightarrow> hand_loop (length (vl_slots v)) v))"

definition vol_land :: "nat \<Rightarrow> (volume, fs_error, unit) eff" where
  "vol_land at v =
     (case vl_slots v ! at of
        Flight block result buf \<Rightarrow>
          (let v = v\<lparr>vl_slots := (vl_slots v)[at := Here (if isl result then None else Some block) buf]\<rparr> in
           case result of Inl e \<Rightarrow> (Inl (FsDevice e), v) | Inr _ \<Rightarrow> (Inr (), v))
      | _ \<Rightarrow> (Inr (), v))"

definition vol_spare :: "(volume, fs_error, nat) eff" where
  "vol_spare v =
     (case vol_free v of (Some at, v) \<Rightarrow> (Inr at, v)
      | (None, v) \<Rightarrow>
        if vl_slots v = [] then (Inl FsMemory, v)
        else let at = vl_hand v in (Inr at, snd (vol_land at v)))"

definition vol_start :: "nat \<Rightarrow> nat \<Rightarrow> (volume, fs_error, unit) eff" where
  "vol_start at index v =
     (case checked_mul index SECTORS of None \<Rightarrow> (Inl FsCorrupt, v) | Some sector \<Rightarrow>
      let slot = vl_slots v ! at; v = v\<lparr>vl_slots := (vl_slots v)[at := Lent]\<rparr> in
      case slot of
        Here _ buf \<Rightarrow>
          (let flight = (case fault_read sector BLOCK (vl_disk v) of
                           Inl e \<Rightarrow> Flight index (Inl e) buf | Inr bytes \<Rightarrow> Flight index (Inr ()) bytes)
           in (Inr (), v\<lparr>vl_slots := (vl_slots v)[at := flight]\<rparr>))
      | _ \<Rightarrow> (Inl FsCorrupt, v))"

definition vol_fetch :: "nat \<Rightarrow> (volume, fs_error, nat) eff" where
  "vol_fetch index v =
     (case vol_find index v of Some at \<Rightarrow> (Inr at, v)
      | None \<Rightarrow> and_then vol_spare (\<lambda>at. and_then (vol_start at index) (\<lambda>_. ok at)) v)"

definition vol_block :: "nat \<Rightarrow> (volume, fs_error, byte list) eff" where
  "vol_block index v =
     (if index \<ge> sp_blocks (vl_super v) then (Inl FsCorrupt, v)
      else and_then (vol_fetch index) (\<lambda>at. and_then (vol_land at) (\<lambda>_ v.
        case vl_slots v ! at of Here _ buf \<Rightarrow> (Inr buf, v) | _ \<Rightarrow> (Inl FsCorrupt, v))) v)"

definition vol_prefetch :: "nat \<Rightarrow> (volume, fs_error, unit) eff" where
  "vol_prefetch index v =
     (if index \<ge> sp_blocks (vl_super v) \<or> vol_find index v \<noteq> None then (Inr (), v)
      else case vol_free v of (None, v) \<Rightarrow> (Inr (), v) | (Some at, v) \<Rightarrow> vol_start at index v)"

definition vol_raw :: "nat \<Rightarrow> (volume, fs_error, byte list) eff" where
  "vol_raw index v =
     (case checked_mul index SECTORS of None \<Rightarrow> (Inl FsCorrupt, v) | Some sector \<Rightarrow>
      case fault_read sector BLOCK (vl_disk v) of Inl e \<Rightarrow> (Inl (FsDevice e), v) | Inr bytes \<Rightarrow> (Inr bytes, v))"

section \<open>Writes\<close>

fun slot_covered :: "nat \<Rightarrow> nat \<Rightarrow> vslot \<Rightarrow> bool" where
  "slot_covered lo hi (Here (Some block) buf) = (lo \<le> block \<and> block < hi)"
| "slot_covered lo hi (Here None buf) = False"
| "slot_covered lo hi (Flight block r buf) = (lo \<le> block \<and> block < hi)"
| "slot_covered lo hi Lent = False"

definition slot_drop :: "nat \<Rightarrow> volume \<Rightarrow> volume" where
  "slot_drop at v =
     (let v = snd (vol_land at v) in
      case vl_slots v ! at of Here _ buf \<Rightarrow> v\<lparr>vl_slots := (vl_slots v)[at := Here None buf]\<rparr> | _ \<Rightarrow> v)"

definition vol_stale :: "nat \<Rightarrow> nat \<Rightarrow> volume \<Rightarrow> volume" where
  "vol_stale lo hi v =
     fold (\<lambda>at v. if slot_covered lo hi (vl_slots v ! at) then slot_drop at v else v) [0..<length (vl_slots v)] v"

definition vol_aside :: "nat \<Rightarrow> byte list \<Rightarrow> (volume, fs_error, unit) eff" where
  "vol_aside sector bytes v =
     (case fault_write sector bytes (vl_disk v) of
        (Inl e, d) \<Rightarrow> (Inl (FsDevice e), v\<lparr>vl_disk := d\<rparr>) | (Inr _, d) \<Rightarrow> (Inr (), v\<lparr>vl_disk := d\<rparr>))"

definition write_aligned :: "nat \<Rightarrow> nat \<Rightarrow> byte list \<Rightarrow> (volume, fs_error, unit) eff" where
  "write_aligned block offset bytes v =
     (if offset mod SECTOR \<noteq> 0 \<or> length bytes mod SECTOR \<noteq> 0 then (Inl FsCorrupt, v) else
      case Option.bind (checked_mul block SECTORS) (\<lambda>sector. checked_add sector (offset div SECTOR)) of
        None \<Rightarrow> (Inl FsCorrupt, v)
      | Some sector \<Rightarrow>
        let first = block + offset div BLOCK;
            span = (offset mod BLOCK + length bytes + BLOCK - 1) div BLOCK;
            v = vol_stale first (first + span) v
        in if length bytes > BLOCK then (Inl FsCorrupt, v) else vol_aside sector bytes v)"

definition write_tree_block :: "nat \<Rightarrow> byte list \<Rightarrow> (volume, fs_error, unit) eff" where
  "write_tree_block at bytes v =
     (let checkpoint = vl_super v in
      case checked_add (sp_tree_at checkpoint) (sp_tree_blocks checkpoint) of None \<Rightarrow> (Inl FsCorrupt, v) | Some end \<Rightarrow>
      if at < sp_tree_at checkpoint \<or> at \<ge> end then (Inl FsCorrupt, v) else
      case checked_mul at SECTORS of None \<Rightarrow> (Inl FsCorrupt, v) | Some sector \<Rightarrow>
      vol_aside sector bytes (vol_stale at (at + 1) v))"

definition write_checkpoint :: "nat \<Rightarrow> super \<Rightarrow> (volume, fs_error, unit) eff" where
  "write_checkpoint copy value v =
     (if copy \<ge> SUPERS then (Inl FsCorrupt, v)
      else vol_aside (copy * SECTORS) (take SECTOR (super_encode value (replicate BLOCK 0))) (vol_stale copy (copy + 1) v))"

definition vol_flush :: "(volume, fs_error, unit) eff" where
  "vol_flush v =
     (case fault_flush (vl_disk v) of
        (Inl e, d) \<Rightarrow> (Inl (FsDevice e), v\<lparr>vl_disk := d\<rparr>) | (Inr _, d) \<Rightarrow> (Inr (), v\<lparr>vl_disk := d\<rparr>))"

definition vol_commit :: "nat \<Rightarrow> super \<Rightarrow> volume \<Rightarrow> volume" where
  "vol_commit copy checkpoint v =
     (let v = vol_stale 0 (u64_limit - 1) v in
      v\<lparr>vl_prev_log := Some (rg_at (sp_region (vl_super v))),
        vl_prev_tree := (if sp_tree_root (vl_super v) \<noteq> 0 then Some (sp_tree_root (vl_super v)) else None),
        vl_super := checkpoint,
        vl_active := copy\<rparr>)"

section \<open>The log's header checksum\<close>

function log_checksum_from :: "fs_region \<Rightarrow> nat \<Rightarrow> u32 \<Rightarrow> (volume, fs_error, u32) eff" where
  "log_checksum_from region cursor crc v =
     (if cursor < rg_bytes region then
        (let within = cursor mod BLOCK in
         if within + HEADER > BLOCK then (Inl FsCorrupt, v) else
         case vol_block (rg_at region + cursor div BLOCK) v of (Inl e, v) \<Rightarrow> (Inl e, v) | (Inr block, v) \<Rightarrow>
         let header = sub_slice within HEADER block in
         case record_parse header of Inl e \<Rightarrow> (Inl e, v) | Inr r \<Rightarrow>
         case record_span r of Inl _ \<Rightarrow> (Inl FsCorrupt, v) | Inr span \<Rightarrow>
         if u64_limit \<le> cursor + span then (Inl FsCorrupt, v)
         else log_checksum_from region (cursor + span) (crc_update crc header) v)
      else if cursor \<noteq> rg_bytes region then (Inl FsCorrupt, v) else (Inr (crc_finish crc), v))"
  by pat_completeness auto
termination
  by (relation "measure (\<lambda>(region, cursor, crc, v). rg_bytes region - cursor)") (auto dest: record_span_positive)

declare log_checksum_from.simps [simp del]

definition log_checksum :: "fs_region \<Rightarrow> (volume, fs_error, u32) eff" where
  "log_checksum region = log_checksum_from region 0 crc_new"

definition vol_unmounted :: "nat \<Rightarrow> super" where
  "vol_unmounted sectors = super_default\<lparr>sp_blocks := sectors div SECTORS\<rparr>"

section \<open>The slots are coherent\<close>

definition disk_block :: "faulty \<Rightarrow> nat \<Rightarrow> byte list" where
  "disk_block d i = sub_slice (i * 4096) 4096 (flt_volatile d)"

fun slot_ok :: "faulty \<Rightarrow> vslot \<Rightarrow> bool" where
  "slot_ok d (Here (Some b) buf) = (buf = disk_block d b)"
| "slot_ok d (Here None buf) = True"
| "slot_ok d (Flight b (Inr _) buf) = (buf = disk_block d b)"
| "slot_ok d (Flight b (Inl _) buf) = False"
| "slot_ok d Lent = False"

definition vol_ok :: "volume \<Rightarrow> bool" where
  "vol_ok v \<longleftrightarrow> (\<forall>x \<in> set (vl_slots v). slot_ok (vl_disk v) x) \<and> length (vl_slots v) \<le> 8 \<and> vl_hand v < 8
     \<and> sp_blocks (vl_super v) * 4096 \<le> length (flt_volatile (vl_disk v)) \<and> length (flt_volatile (vl_disk v)) < 2 ^ 64"

definition vol_same :: "volume \<Rightarrow> volume \<Rightarrow> bool" where
  "vol_same v v' \<longleftrightarrow> vl_disk v' = vl_disk v \<and> vl_super v' = vl_super v \<and> vl_sectors v' = vl_sectors v \<and> vl_active v' = vl_active v
     \<and> vl_prev_log v' = vl_prev_log v \<and> vl_prev_tree v' = vl_prev_tree v \<and> (vol_ok v \<longrightarrow> vol_ok v')"

lemma vol_same_refl [simp]: "vol_same v v"
  by (simp add: vol_same_def)

lemma vol_same_trans [trans]: "vol_same u v \<Longrightarrow> vol_same v w \<Longrightarrow> vol_same u w"
  by (simp add: vol_same_def)

lemma vol_same_fields:
  assumes "vol_same v v'"
  shows "vl_disk v' = vl_disk v" "vl_super v' = vl_super v" "vl_sectors v' = vl_sectors v" "vl_active v' = vl_active v"
    "vl_prev_log v' = vl_prev_log v" "vl_prev_tree v' = vl_prev_tree v" "vol_ok v \<Longrightarrow> vol_ok v'"
  using assms by (simp_all add: vol_same_def)

lemma vol_same_slots:
  assumes "\<And>x. vol_ok v \<Longrightarrow> x \<in> set slots \<Longrightarrow> slot_ok (vl_disk v) x" and "vol_ok v \<Longrightarrow> length slots \<le> 8"
  shows "vol_same v (v\<lparr>vl_slots := slots\<rparr>)"
  using assms by (auto simp: vol_same_def vol_ok_def)

lemma vol_same_slot:
  assumes "vol_ok v \<Longrightarrow> slot_ok (vl_disk v) x"
  shows "vol_same v (v\<lparr>vl_slots := (vl_slots v)[at := x]\<rparr>)"
proof (rule vol_same_slots)
  fix y
  assume "vol_ok v" and "y \<in> set ((vl_slots v)[at := x])"
  then show "slot_ok (vl_disk v) y"
    using set_update_subset_insert [of "vl_slots v" at x] assms by (auto simp: vol_ok_def)
qed (simp add: vol_ok_def)

lemma vol_ok_nth: "vol_ok v \<Longrightarrow> at < length (vl_slots v) \<Longrightarrow> slot_ok (vl_disk v) (vl_slots v ! at)"
  by (simp add: vol_ok_def)

lemma vol_land_same:
  assumes "vol_ok v" and "at < length (vl_slots v)"
  shows "vol_same v (snd (vol_land at v)) \<and> length (vl_slots (snd (vol_land at v))) = length (vl_slots v)
    \<and> slot_here (vl_slots (snd (vol_land at v)) ! at)"
  using vol_ok_nth [OF assms] assms(2)
  by (cases "(vl_disk v, vl_slots v ! at)" rule: slot_ok.cases) (auto simp: vol_land_def Let_def intro!: vol_same_slot)

lemma vol_land_block:
  assumes "vol_ok v" and "at < length (vl_slots v)" and "slot_holds index (vl_slots v ! at)"
  shows "fst (vol_land at v) = Inr () \<and> vl_slots (snd (vol_land at v)) ! at = Here (Some index) (disk_block (vl_disk v) index)"
  using vol_ok_nth [OF assms(1,2)] assms(2,3)
  by (cases "(vl_disk v, vl_slots v ! at)" rule: slot_ok.cases) (auto simp: vol_land_def Let_def)

lemma hand_loop_same:
  assumes "vol_ok v" and "length (vl_slots v) = 8"
  shows "vol_same v (snd (hand_loop n v)) \<and> vl_slots (snd (hand_loop n v)) = vl_slots v
    \<and> (case fst (hand_loop n v) of None \<Rightarrow> True | Some at \<Rightarrow> at < 8 \<and> slot_here (vl_slots v ! at))"
  using assms
proof (induction n v rule: hand_loop.induct)
  case (2 n v)
  let ?w = "v\<lparr>vl_hand := (vl_hand v + 1) mod length (vl_slots v)\<rparr>"
  have w: "vol_ok ?w" "vl_slots ?w = vl_slots v" "vol_same v ?w" "vl_hand v < 8"
    using 2(2,3) by (auto simp: vol_ok_def vol_same_def)
  show ?case
  proof (cases "slot_here (vl_slots v ! vl_hand v)")
    case True
    then show ?thesis using w by (simp add: Let_def)
  next
    case False
    then have "hand_loop (Suc n) v = hand_loop n ?w" by (simp add: Let_def)
    then show ?thesis using 2(1) [OF refl refl] w False 2(3) vol_same_trans [OF w(3)] by (simp split: option.splits)
  qed
qed simp

lemma vol_free_same:
  assumes "vol_ok v"
  shows "vol_same v (snd (vol_free v)) \<and> vol_ok (snd (vol_free v)) \<and>
    (case fst (vol_free v) of None \<Rightarrow> length (vl_slots (snd (vol_free v))) = 8
     | Some at \<Rightarrow> at < length (vl_slots (snd (vol_free v))) \<and> slot_here (vl_slots (snd (vol_free v)) ! at))"
proof -
  consider (empty) at where "find_index vslot_empty (vl_slots v) = Some at"
    | (grow) "find_index vslot_empty (vl_slots v) = None" "length (vl_slots v) \<noteq> 8"
    | (full) "find_index vslot_empty (vl_slots v) = None" "length (vl_slots v) = 8" by (metis option.exhaust)
  then show ?thesis
  proof cases
    case empty
    have "slot_here x" if "vslot_empty x" for x using that by (cases x rule: vslot_empty.cases) auto
    then show ?thesis using empty find_index_SomeD [OF empty] assms by (simp add: vol_free_def)
  next
    case grow
    have "vol_same v (v\<lparr>vl_slots := vl_slots v @ [Here None (replicate BLOCK 0)]\<rparr>)"
      by (rule vol_same_slots) (use grow(2) in \<open>auto simp: vol_ok_def\<close>)
    then show ?thesis using grow assms vol_same_fields(7) by (auto simp: vol_free_def vol_grow_def SLOTS_def)
  next
    case full
    then show ?thesis using hand_loop_same [OF assms full(2), of "length (vl_slots v)"] assms vol_same_fields(7)
      by (auto simp: vol_free_def vol_grow_def SLOTS_def full split: option.splits)
  qed
qed

lemma vol_spare_same:
  assumes "vol_ok v"
  shows "\<exists>at v'. vol_spare v = (Inr at, v') \<and> vol_same v v' \<and> at < length (vl_slots v') \<and> slot_here (vl_slots v' ! at)"
proof -
  obtain r w where f: "vol_free v = (r, w)" by fastforce
  note same = vol_free_same [OF assms, unfolded f, simplified]
  show ?thesis
  proof (cases r)
    case None
    then have w: "vol_ok w" "vl_hand w < length (vl_slots w)" using same by (auto simp: vol_ok_def)
    then have "vl_slots w \<noteq> []" by auto
    then show ?thesis using f None same w(2) vol_land_same [OF w] vol_same_trans
      by (auto simp: vol_spare_def Let_def)
  next
    case (Some at)
    then show ?thesis using f same by (simp add: vol_spare_def)
  qed
qed

lemma fault_read_block:
  assumes "(i + 1) * 4096 \<le> length (flt_volatile d)" and "length (flt_volatile d) < 2 ^ 64"
  shows "fault_read (i * 8) BLOCK d = Inr (disk_block d i)"
proof -
  obtain bs where "fault_read (i * 8) 4096 d = Inr bs"
    using fault_disk.rd_total [of 4096 "i * 8" d] assms by auto
  then show ?thesis using fault_disk.rd_content [of "i * 8" 4096 d bs] by (simp add: disk_block_def BLOCK_def mult.assoc)
qed

lemma SECTORS_8 [simp]: "SECTORS = 8"
  by (simp add: SECTORS_def BLOCK_def SECTOR_def)

lemma vol_block_fits:
  assumes "vol_ok v" and "i < sp_blocks (vl_super v)"
  shows "(i + 1) * 4096 \<le> length (flt_volatile (vl_disk v))" and "i * 8 < 2 ^ 64"
proof -
  have "(i + 1) * 4096 \<le> sp_blocks (vl_super v) * 4096" using assms(2) by (intro mult_le_mono1) simp
  also have "\<dots> \<le> length (flt_volatile (vl_disk v))" using assms(1) by (simp add: vol_ok_def)
  finally show *: "(i + 1) * 4096 \<le> length (flt_volatile (vl_disk v))" .
  have "length (flt_volatile (vl_disk v)) < 2 ^ 64" using assms(1) by (simp add: vol_ok_def)
  then show "i * 8 < 2 ^ 64" using * by simp
qed

lemma vol_start_same:
  assumes "vol_ok v" and "at < length (vl_slots v)" and "slot_here (vl_slots v ! at)" and "i < sp_blocks (vl_super v)"
  shows "vol_start at i v = (Inr (), v\<lparr>vl_slots := (vl_slots v)[at := Flight i (Inr ()) (disk_block (vl_disk v) i)]\<rparr>)
    \<and> vol_same v (v\<lparr>vl_slots := (vl_slots v)[at := Flight i (Inr ()) (disk_block (vl_disk v) i)]\<rparr>)"
proof -
  have "fault_read (i * 8) BLOCK (vl_disk v) = Inr (disk_block (vl_disk v) i)"
    using fault_read_block vol_block_fits(1) [OF assms(1,4)] assms(1) by (simp add: vol_ok_def)
  moreover obtain b buf where "vl_slots v ! at = Here b buf" using assms(3) by (cases "vl_slots v ! at") auto
  ultimately show ?thesis
    using vol_block_fits(2) [OF assms(1,4)] by (auto simp: vol_start_def checked_mul_def Let_def intro!: vol_same_slot)
qed

lemma vol_fetch_same:
  assumes "vol_ok v" and "i < sp_blocks (vl_super v)"
  shows "\<exists>at v'. vol_fetch i v = (Inr at, v') \<and> vol_same v v' \<and> at < length (vl_slots v') \<and> slot_holds i (vl_slots v' ! at)"
proof (cases "vol_find i v")
  case (Some at)
  then show ?thesis using find_index_SomeD [of "slot_holds i" "vl_slots v" at] by (auto simp: vol_fetch_def vol_find_def)
next
  case None
  obtain at w where spare: "vol_spare v = (Inr at, w)" and w: "vol_same v w" "at < length (vl_slots w)" "slot_here (vl_slots w ! at)"
    using vol_spare_same [OF assms(1)] by blast
  have "vol_ok w" "i < sp_blocks (vl_super w)" using vol_same_fields [OF w(1)] assms by simp_all
  note start = vol_start_same [OF this(1) w(2,3) this(2)]
  then show ?thesis using None spare w vol_same_trans [OF w(1)]
    by (auto simp: vol_fetch_def and_then_def)
qed

lemma vol_block_ok:
  assumes "vol_ok v" and "i < sp_blocks (vl_super v)"
  obtains v' where "vol_block i v = (Inr (disk_block (vl_disk v) i), v')" and "vol_same v v'" and "vol_ok v'"
proof -
  obtain at w where fetch: "vol_fetch i v = (Inr at, w)" and w: "vol_same v w" "at < length (vl_slots w)" "slot_holds i (vl_slots w ! at)"
    using vol_fetch_same [OF assms] by blast
  have ok: "vol_ok w" using vol_same_fields(7) [OF w(1) assms(1)] .
  obtain x where land: "vol_land at w = (Inr (), x)"
    using vol_land_block [OF ok w(2,3)] by (metis prod.collapse)
  have same: "vol_same v x" using vol_land_same [OF ok w(2)] vol_same_trans [OF w(1)] land by simp
  have "vol_block i v = (Inr (disk_block (vl_disk v) i), x)"
    using assms(2) fetch land vol_land_block [OF ok w(2,3)] vol_same_fields(1) [OF w(1)]
    by (simp add: vol_block_def and_then_def)
  then show ?thesis using that same vol_same_fields(7) [OF same assms(1)] by blast
qed

lemma vol_block_refused: "sp_blocks (vl_super v) \<le> i \<Longrightarrow> vol_block i v = (Inl FsCorrupt, v)"
  by (simp add: vol_block_def)

lemma vol_prefetch_same:
  assumes "vol_ok v"
  shows "\<exists>v'. vol_prefetch i v = (Inr (), v') \<and> vol_same v v'"
proof (cases "sp_blocks (vl_super v) \<le> i \<or> vol_find i v \<noteq> None")
  case False
  obtain r w where f: "vol_free v = (r, w)" by fastforce
  note same = vol_free_same [OF assms, unfolded f, simplified]
  show ?thesis
  proof (cases r)
    case (Some at)
    have "i < sp_blocks (vl_super w)" using False vol_same_fields(2) same by (metis not_le)
    then show ?thesis using False f Some same vol_start_same [of w at i] vol_same_trans
      by (auto simp: vol_prefetch_def)
  qed (use False f same in \<open>auto simp: vol_prefetch_def\<close>)
qed (auto simp: vol_prefetch_def)

lemma vol_raw_ok:
  assumes "(i + 1) * 4096 \<le> length (flt_volatile (vl_disk v))" and "length (flt_volatile (vl_disk v)) < 2 ^ 64"
  shows "vol_raw i v = (Inr (disk_block (vl_disk v) i), v)"
  using fault_read_block [OF assms] assms by (simp add: vol_raw_def checked_mul_def)

section \<open>Writes reach the disk and only their blocks\<close>

lemma slot_drop_same:
  assumes "vol_ok v" and "at < length (vl_slots v)"
  shows "vol_same v (slot_drop at v)" and "length (vl_slots (slot_drop at v)) = length (vl_slots v)"
    and "i < length (vl_slots v) \<Longrightarrow> vl_slots (slot_drop at v) ! i = (if i = at then Here None (case vl_slots (snd (vol_land at v)) ! at of Here _ buf \<Rightarrow> buf) else vl_slots v ! i)"
proof -
  let ?w = "snd (vol_land at v)"
  note land = vol_land_same [OF assms]
  obtain b buf where slot: "vl_slots ?w ! at = Here b buf" using land by (cases "vl_slots ?w ! at") auto
  then have drop: "slot_drop at v = ?w\<lparr>vl_slots := (vl_slots ?w)[at := Here None buf]\<rparr>"
    by (simp add: slot_drop_def Let_def)
  show "vol_same v (slot_drop at v)"
    unfolding drop using land vol_same_slot [of ?w "Here None buf" at] vol_same_trans by (metis slot_ok.simps(2))
  show "length (vl_slots (slot_drop at v)) = length (vl_slots v)" using drop land by simp
  have other: "vl_slots ?w ! i = vl_slots v ! i" if "i \<noteq> at" for i
    using that by (auto simp: vol_land_def Let_def split: vslot.splits sum.splits)
  show "vl_slots (slot_drop at v) ! i = (if i = at then Here None (case vl_slots ?w ! at of Here _ buf \<Rightarrow> buf) else vl_slots v ! i)"
    if "i < length (vl_slots v)" using that land other drop slot by (simp add: nth_list_update)
qed

lemma vol_stale_fold:
  assumes "vol_ok v" and "n \<le> length (vl_slots v)"
  shows "let w = fold (\<lambda>at v. if slot_covered lo hi (vl_slots v ! at) then slot_drop at v else v) [0..<n] v in
    vol_same v w \<and> length (vl_slots w) = length (vl_slots v) \<and> (\<forall>i < n. \<not> slot_covered lo hi (vl_slots w ! i))"
  using assms(2)
proof (induction n)
  case (Suc n)
  let ?w = "fold (\<lambda>at v. if slot_covered lo hi (vl_slots v ! at) then slot_drop at v else v) [0..<n] v"
  have w: "vol_same v ?w" "length (vl_slots ?w) = length (vl_slots v)" "\<forall>i < n. \<not> slot_covered lo hi (vl_slots ?w ! i)"
    using Suc by (simp_all add: Let_def)
  have ok: "vol_ok ?w" "n < length (vl_slots ?w)" using vol_same_fields(7) [OF w(1) assms(1)] w(2) Suc(2) by simp_all
  show ?case
    using w slot_drop_same [OF ok] vol_same_trans [OF w(1)] Suc(2) by (auto simp: Let_def less_Suc_eq)
qed simp

lemma vol_stale_same:
  assumes "vol_ok v"
  shows "vol_same v (vol_stale lo hi v)" and "vol_ok (vol_stale lo hi v)"
    and "x \<in> set (vl_slots (vol_stale lo hi v)) \<Longrightarrow> \<not> slot_covered lo hi x"
  using vol_stale_fold [OF assms order_refl, of lo hi] vol_same_fields(7) [OF _ assms]
  by (auto simp: vol_stale_def Let_def in_set_conv_nth)

definition vol_meta :: "volume \<Rightarrow> volume \<Rightarrow> bool" where
  "vol_meta v v' \<longleftrightarrow> vl_super v' = vl_super v \<and> vl_sectors v' = vl_sectors v \<and> vl_active v' = vl_active v
     \<and> vl_prev_log v' = vl_prev_log v \<and> vl_prev_tree v' = vl_prev_tree v"

lemma vol_meta_refl [simp]: "vol_meta v v"
  by (simp add: vol_meta_def)

lemma vol_meta_trans [trans]: "vol_meta u v \<Longrightarrow> vol_meta v w \<Longrightarrow> vol_meta u w"
  by (simp add: vol_meta_def)

lemma vol_same_meta: "vol_same v v' \<Longrightarrow> vol_meta v v'"
  by (simp add: vol_meta_def vol_same_def)

lemma disk_block_put:
  assumes "at + length bs \<le> length (flt_volatile d)" and "flt_volatile d' = put_slice at bs (flt_volatile d)"
    and "lo * 4096 \<le> at" and "at + length bs \<le> hi * 4096" and "i < lo \<or> hi \<le> i"
  shows "disk_block d' i = disk_block d i"
proof -
  have "i * 4096 + 4096 \<le> at \<or> at + length bs \<le> i * 4096"
    using assms(3-5) by linarith
  then show ?thesis using assms(1,2) by (auto simp: disk_block_def slice_put_before slice_put_after)
qed

lemma vol_aside_ok:
  assumes "vol_ok v" and "\<And>x. x \<in> set (vl_slots v) \<Longrightarrow> \<not> slot_covered lo hi x"
    and "lo * 4096 \<le> sector * 512" and "sector * 512 + length bytes \<le> hi * 4096"
    and "vol_aside sector bytes v = (r, v')"
  shows "vol_ok v' \<and> vol_meta v v' \<and> (\<forall>i. i < lo \<or> hi \<le> i \<longrightarrow> disk_block (vl_disk v') i = disk_block (vl_disk v) i)
    \<and> fault_write sector bytes (vl_disk v) = ((case r of Inl (FsDevice e) \<Rightarrow> Inl e | Inr _ \<Rightarrow> Inr ()), vl_disk v')"
proof -
  obtain q d where wr: "fault_write sector bytes (vl_disk v) = (q, d)" by fastforce
  then have v': "v' = v\<lparr>vl_disk := d\<rparr>" "r = (case q of Inl e \<Rightarrow> Inl (FsDevice e) | Inr _ \<Rightarrow> Inr ())"
    using assms(5) by (auto simp: vol_aside_def split: sum.splits)
  have blocks: "disk_block d i = disk_block (vl_disk v) i" if "i < lo \<or> hi \<le> i" for i
  proof (cases q)
    case (Inl e)
    then show ?thesis using fault_disk.wr_refused [of sector bytes "vl_disk v" e d] wr by (simp add: disk_block_def)
  next
    case (Inr u)
    then show ?thesis
      using fault_disk.wr_content [of sector bytes "vl_disk v" d] wr disk_block_put [OF _ _ assms(3,4) that] by simp
  qed
  have len: "length (flt_volatile d) = length (flt_volatile (vl_disk v))"
    using fault_disk.wr_refused [of sector bytes "vl_disk v" _ d] fault_disk.wr_length [of sector bytes "vl_disk v" d] wr
    by (cases q) auto
  have "slot_ok d x" if "slot_ok (vl_disk v) x" "\<not> slot_covered lo hi x" for x
    using that blocks by (cases "(d, x)" rule: slot_ok.cases) auto
  then have "vol_ok v'" using assms(1,2) len by (auto simp: vol_ok_def v')
  then show ?thesis using blocks wr by (auto simp: v' vol_meta_def split: sum.splits)
qed

lemma write_tree_block_ok:
  assumes "vol_ok v" and "sp_tree_at (vl_super v) \<le> at" and "at < sp_tree_at (vl_super v) + sp_tree_blocks (vl_super v)"
    and "sp_tree_at (vl_super v) + sp_tree_blocks (vl_super v) \<le> sp_blocks (vl_super v)" and "length bytes = 4096"
    and "write_tree_block at bytes v = (r, v')"
  shows "vol_ok v' \<and> vol_meta v v' \<and> (\<exists>d. fault_write (at * 8) bytes (vl_disk v) = (d, vl_disk v') \<and> isl d = isl r)
    \<and> (\<forall>i. disk_block (vl_disk v') i = (if i = at \<and> \<not> isl r then bytes else disk_block (vl_disk v) i))"
proof -
  let ?w = "vol_stale at (at + 1) v"
  note stale = vol_stale_same [OF assms(1), where lo = at and hi = "at + 1"]
  have "at < sp_blocks (vl_super v)" using assms(3,4) by simp
  note fits = vol_block_fits [OF assms(1) this]
  have len: "length (flt_volatile (vl_disk v)) < 2 ^ 64" using assms(1) by (simp add: vol_ok_def)
  have "sp_tree_at (vl_super v) + sp_tree_blocks (vl_super v) < 2 ^ 64"
    using assms(1,4) by (auto simp: vol_ok_def)
  then have "vol_aside (at * 8) bytes ?w = (r, v')"
    using assms(2,3,6) fits(2) by (simp add: write_tree_block_def checked_add_def checked_mul_def Let_def)
  note aside = vol_aside_ok [OF stale(2) stale(3) _ _ this]
  have disk: "vl_disk (vol_stale at (Suc at) v) = vl_disk v" using vol_same_fields(1) [OF stale(1)] by simp
  have put: "disk_block (vl_disk v') at = (if isl r then disk_block (vl_disk v) at else bytes)"
  proof -
    have wr: "fault_write (at * 8) bytes (vl_disk v) = ((case r of Inl (FsDevice e) \<Rightarrow> Inl e | Inr _ \<Rightarrow> Inr ()), vl_disk v')"
      using aside assms(5) by (simp add: disk)
    show ?thesis
    proof (cases r)
      case (Inl e)
      obtain e' where "(case r of Inl (FsDevice e) \<Rightarrow> Inl e | Inr _ \<Rightarrow> Inr ()) = Inl e'"
        using \<open>vol_aside (at * 8) bytes ?w = (r, v')\<close> Inl by (auto simp: vol_aside_def split: sum.splits prod.splits)
      then show ?thesis using wr Inl fault_disk.wr_refused [of "at * 8" bytes "vl_disk v" e' "vl_disk v'"]
        by (simp add: disk_block_def)
    next
      case (Inr u)
      then show ?thesis using wr fault_disk.wr_content [of "at * 8" bytes "vl_disk v" "vl_disk v'"] assms(5)
        by (simp add: disk_block_def slice_put_slice mult.assoc)
    qed
  qed
  have other: "disk_block (vl_disk v') i = disk_block (vl_disk v) i" if "i \<noteq> at" for i
    using aside that assms(5) by (cases "i < at") (simp_all add: disk)
  have "disk_block (vl_disk v') i = (if i = at \<and> \<not> isl r then bytes else disk_block (vl_disk v) i)" for i
    using put other [of i] by (cases "i = at") simp_all
  moreover have "vol_ok v'" using aside assms(5) by simp
  moreover have "vol_meta v v'" using aside vol_same_meta [OF stale(1)] vol_meta_trans assms(5) by auto
  moreover have "\<exists>d. fault_write (at * 8) bytes (vl_disk v) = (d, vl_disk v') \<and> isl d = isl r"
    using \<open>vol_aside (at * 8) bytes ?w = (r, v')\<close>
    by (auto simp: vol_aside_def disk split: sum.splits prod.splits)
  ultimately show ?thesis by blast
qed

end
