(* ===== verification/Fs_Key.thy ===== *)
theory Fs_Key
  imports Fs_Layout "HOL-Library.List_Lexorder" "HOL-Library.Product_Lexorder"
begin

text \<open>
  Keys and values of the metadata tree (crates/storage/fs/src/btree.rs). A key is 272 bytes: a tag,
  the object it belongs to, and a name or the end of an extent. The theory gives the three kinds of
  key as a datatype with the byte image that the constructors \<open>Key::object\<close>, \<open>Key::dirent\<close> and
  \<open>Key::extent\<close> write, reads them back as \<open>Key::check\<close> demands, and shows that the byte order
  \<open>Ord for Key\<close> computes is the linear order of the datatype. A value is 32 bytes whose meaning is
  its key's.
\<close>

section \<open>Keys\<close>

definition KEY_BYTES :: nat where
  "KEY_BYTES = 272"

datatype key = KObject nat | KDirent nat "byte list" | KExtent nat nat

abbreviation key_blank :: "byte list" where
  "key_blank \<equiv> replicate 272 0"

fun key_bytes :: "key \<Rightarrow> byte list" where
  "key_bytes (KObject object) = put_le 4 1 object (put_byte 0 1 key_blank)"
| "key_bytes (KDirent parent name) =
     put_slice 6 name (put_byte 5 (of_nat (length name)) (put_le 4 1 parent (put_byte 0 2 key_blank)))"
| "key_bytes (KExtent object end) = put_le 8 8 end (put_le 4 1 object (put_byte 0 3 key_blank))"

definition dirent_start :: "nat \<Rightarrow> key" where
  "dirent_start parent = KDirent parent []"

fun key_as_object :: "key \<Rightarrow> nat option" where
  "key_as_object (KObject object) = Some object"
| "key_as_object _ = None"

fun dirent_parent :: "key \<Rightarrow> nat option" where
  "dirent_parent (KDirent parent name) = Some parent"
| "dirent_parent _ = None"

definition is_dirent :: "nat \<Rightarrow> key \<Rightarrow> bool" where
  "is_dirent parent k = (dirent_parent k = Some parent)"

fun extent_object :: "key \<Rightarrow> nat option" where
  "extent_object (KExtent object end) = Some object"
| "extent_object _ = None"

definition is_extent :: "nat \<Rightarrow> key \<Rightarrow> bool" where
  "is_extent object k = (extent_object k = Some object)"

definition key_end :: "key \<Rightarrow> nat" where
  "key_end k = at_le 8 8 (key_bytes k)"

fun key_name :: "key \<Rightarrow> fs_error + byte list" where
  "key_name (KDirent parent name) = (case name_new name of Inl _ \<Rightarrow> Inl FsCorrupt | Inr n \<Rightarrow> Inr n)"
| "key_name _ = Inl FsCorrupt"

section \<open>Reading a key back\<close>

definition all_zero :: "byte list \<Rightarrow> bool" where
  "all_zero bs = list_all (\<lambda>b. b = 0) bs"

definition key_check :: "byte list \<Rightarrow> fs_error + unit" where
  "key_check bytes =
     (if bytes ! 0 = 1 then (if all_zero (drop 5 bytes) then Inr () else Inl FsCorrupt)
      else if bytes ! 0 = 2 then
        (let len = unat (bytes ! 5) in
         if len = 0 \<or> len > MAX_NAME \<or> \<not> all_zero (drop (6 + len) bytes) then Inl FsCorrupt
         else case name_new (sub_slice 6 len bytes) of Inl _ \<Rightarrow> Inl FsCorrupt | Inr _ \<Rightarrow> Inr ())
      else if bytes ! 0 = 3 then
        (if all_zero (sub_slice 5 3 bytes) \<and> all_zero (drop 16 bytes) then Inr () else Inl FsCorrupt)
      else Inl FsCorrupt)"

definition key_of_bytes :: "byte list \<Rightarrow> key" where
  "key_of_bytes bytes =
     (if bytes ! 0 = 1 then KObject (at_le 4 1 bytes)
      else if bytes ! 0 = 2 then KDirent (at_le 4 1 bytes) (sub_slice 6 (unat (bytes ! 5)) bytes)
      else KExtent (at_le 4 1 bytes) (at_le 8 8 bytes))"

definition key_parse :: "byte list \<Rightarrow> fs_error + key" where
  "key_parse bytes = (case key_check bytes of Inl e \<Rightarrow> Inl e | Inr _ \<Rightarrow> Inr (key_of_bytes bytes))"

section \<open>The order of keys\<close>

datatype ordering = Less | Equal | Greater

definition cmp :: "'a :: linorder \<Rightarrow> 'a \<Rightarrow> ordering" where
  "cmp a b = (if a < b then Less else if a = b then Equal else Greater)"

fun then_with :: "ordering \<Rightarrow> ordering \<Rightarrow> ordering" where
  "then_with Equal o2 = o2"
| "then_with o1 _ = o1"

definition cmp_dirent :: "byte list \<Rightarrow> byte list \<Rightarrow> ordering" where
  "cmp_dirent a b =
     then_with (cmp (at_le 4 1 a) (at_le 4 1 b))
       (cmp (sub_slice 6 (unat (a ! 5)) a) (sub_slice 6 (unat (b ! 5)) b))"

definition key_cmp :: "byte list \<Rightarrow> byte list \<Rightarrow> ordering" where
  "key_cmp a b =
     then_with (cmp (a ! 0) (b ! 0))
       (if a ! 0 = 1 then cmp (at_le 4 1 a) (at_le 4 1 b)
        else if a ! 0 = 2 then cmp_dirent a b
        else if a ! 0 = 3 then then_with (cmp (at_le 4 1 a) (at_le 4 1 b)) (cmp (at_le 8 8 a) (at_le 8 8 b))
        else cmp a b)"

fun key_rank :: "key \<Rightarrow> nat \<times> nat \<times> byte list \<times> nat" where
  "key_rank (KObject object) = (1, object, [], 0)"
| "key_rank (KDirent parent name) = (2, parent, name, 0)"
| "key_rank (KExtent object end) = (3, object, [], end)"

instantiation key :: linorder
begin

definition less_eq_key :: "key \<Rightarrow> key \<Rightarrow> bool" where
  "less_eq_key a b = (key_rank a \<le> key_rank b)"

definition less_key :: "key \<Rightarrow> key \<Rightarrow> bool" where
  "less_key a b = (key_rank a < key_rank b)"

instance
proof
  fix a b :: key
  show "a \<le> b \<Longrightarrow> b \<le> a \<Longrightarrow> a = b"
    unfolding less_eq_key_def by (cases a; cases b; auto simp: less_eq_prod_simp)
qed (auto simp: less_eq_key_def less_key_def)

end

section \<open>Values\<close>

abbreviation value_blank :: "byte list" where
  "value_blank \<equiv> replicate 32 0"

definition value_object :: "fs_object \<Rightarrow> byte list" where
  "value_object obj =
     put_le 8 8 (ob_size obj) (put_le 4 4 (ob_count obj) (put_byte 0 (kind_byte (ob_kind obj)) value_blank))"

definition value_dirent :: "nat \<Rightarrow> byte list" where
  "value_dirent object = put_le 4 0 object value_blank"

definition value_extent :: "nat \<Rightarrow> nat \<Rightarrow> nat \<Rightarrow> byte list" where
  "value_extent at skip len = put_le 4 12 len (put_le 4 8 skip (put_le 8 0 at value_blank))"

definition value_whiteout :: "byte list" where
  "value_whiteout = value_blank"

definition as_object :: "byte list \<Rightarrow> fs_error + fs_object" where
  "as_object v =
     (if v ! 0 = 0 then Inr \<lparr>ob_kind = KDir, ob_count = at_le 4 4 v, ob_size = at_le 8 8 v\<rparr>
      else if v ! 0 = 1 then Inr \<lparr>ob_kind = KFile, ob_count = at_le 4 4 v, ob_size = at_le 8 8 v\<rparr>
      else Inl FsCorrupt)"

definition as_dirent :: "byte list \<Rightarrow> nat" where
  "as_dirent v = at_le 4 0 v"

definition as_extent :: "byte list \<Rightarrow> nat \<times> nat \<times> nat" where
  "as_extent v = (at_le 8 0 v, at_le 4 8 v, at_le 4 12 v)"

section \<open>The codec\<close>

fun key_wf :: "key \<Rightarrow> bool" where
  "key_wf (KObject object) = (object < 2 ^ 32)"
| "key_wf (KDirent parent name) = (parent < 2 ^ 32 \<and> length name \<le> 255)"
| "key_wf (KExtent object end) = (object < 2 ^ 32 \<and> end < 2 ^ 64)"

text \<open>The keys that a node may hold: a directory entry has a name.\<close>

fun key_ok :: "key \<Rightarrow> bool" where
  "key_ok (KDirent parent name) = (parent < 2 ^ 32 \<and> name_wf name)"
| "key_ok k = key_wf k"

lemma key_ok_wf: "key_ok k \<Longrightarrow> key_wf k"
  by (cases k) (auto simp: name_wf_iff)

lemma key_bytes_length: "key_wf k \<Longrightarrow> length (key_bytes k) = 272"
  by (cases k) (simp_all add: window_laws)

lemma key_bytes_tag:
  "key_bytes (KObject object) ! 0 = 1" "key_bytes (KExtent object end) ! 0 = 3"
  "length name \<le> 255 \<Longrightarrow> key_bytes (KDirent parent name) ! 0 = 2"
  by (simp_all add: window_laws)

lemma key_bytes_fields:
  "at_le 4 (Suc 0) (key_bytes (KObject object)) = object mod 2 ^ 32"
  "at_le 4 (Suc 0) (key_bytes (KExtent object end)) = object mod 2 ^ 32"
  "at_le 8 8 (key_bytes (KExtent object end)) = end mod 2 ^ 64"
  "length name \<le> 255 \<Longrightarrow> at_le 4 (Suc 0) (key_bytes (KDirent parent name)) = parent mod 2 ^ 32"
  "length name \<le> 255 \<Longrightarrow> key_bytes (KDirent parent name) ! 5 = of_nat (length name)"
  "length name \<le> 255 \<Longrightarrow> sub_slice 6 (length name) (key_bytes (KDirent parent name)) = name"
  by (simp_all add: window_laws)

declare key_bytes.simps [simp del]

lemma unat_name_length: "length name \<le> 255 \<Longrightarrow> unat (of_nat (length name) :: byte) = length name"
  by (simp add: unat_of_nat)

lemma key_end_extent: "end < 2 ^ 64 \<Longrightarrow> key_end (KExtent object end) = end"
  unfolding key_end_def by (subst key_bytes_fields) simp

lemma cmp_then_prod: "then_with (cmp a b) (cmp c d) = cmp (a, c) (b, d)"
  by (auto simp: cmp_def)

lemma cmp_rank: "cmp a b = cmp (key_rank a) (key_rank b)" for a b :: key
proof -
  have "key_rank a = key_rank b \<longleftrightarrow> a = b" by (metis dual_order.antisym less_eq_key_def order.refl)
  then show ?thesis by (simp add: cmp_def less_key_def)
qed

lemma key_order_bytes:
  assumes "key_wf a" and "key_wf b"
  shows "key_cmp (key_bytes a) (key_bytes b) = cmp a b"
  using assms unfolding cmp_rank [of a b]
  by (cases a; cases b)
    (simp_all add: key_cmp_def cmp_dirent_def key_bytes_tag key_bytes_fields unat_name_length cmp_def less_prod_simp)

lemma replicate_head: "0 < n \<Longrightarrow> (replicate n x)[0 := y] = y # replicate (n - 1) x"
  by (cases n) simp_all

lemma key_bytes_form:
  "key_bytes (KObject object) = [1] @ le_bytes 4 object @ replicate 267 0"
  "key_bytes (KExtent object end) = [3] @ le_bytes 4 object @ replicate 3 0 @ le_bytes 8 end @ replicate 256 0"
  "length name \<le> 255 \<Longrightarrow> key_bytes (KDirent parent name)
     = [2] @ le_bytes 4 parent @ [of_nat (length name)] @ name @ replicate (266 - length name) 0"
  by (simp_all add: key_bytes.simps put_le_def put_slice_def put_byte_def replicate_head take_append drop_append drop_Cons' list_update_append)

lemma all_zero_simps [simp]: "all_zero (replicate n 0)" "all_zero (xs @ ys) = (all_zero xs \<and> all_zero ys)" "all_zero []"
  by (auto simp: all_zero_def list_all_iff)

lemma all_zero_replicate: "all_zero xs \<Longrightarrow> xs = replicate (length xs) 0"
  by (auto simp: all_zero_def list_all_iff intro!: replicate_eqI)

lemma key_parse_bytes: "key_ok k \<Longrightarrow> key_parse (key_bytes k) = Inr k"
proof (cases k)
  case (KObject object)
  then show "key_ok k \<Longrightarrow> ?thesis"
    by (simp add: key_parse_def key_check_def key_of_bytes_def key_bytes_tag key_bytes_fields)
      (simp add: key_bytes_form)
next
  case (KDirent parent name)
  assume "key_ok k"
  then have n: "name_wf name" "length name \<le> 255" "name \<noteq> []" "parent < 2 ^ 32" "name_new name = Inr name"
    using KDirent by (auto simp: name_wf_iff name_new_Inr)
  have rest: "all_zero (drop (6 + length name) (key_bytes (KDirent parent name)))"
    using n(2) by (simp add: key_bytes_form drop_Cons')
  show ?thesis
    using n rest by (simp add: KDirent key_parse_def key_check_def key_of_bytes_def key_bytes_tag key_bytes_fields
        unat_name_length MAX_NAME_def)
next
  case (KExtent object e)
  have "all_zero (sub_slice 5 3 (key_bytes (KExtent object e)))" "all_zero (drop 16 (key_bytes (KExtent object e)))"
    by (simp_all add: key_bytes_form sub_slice_def)
  then show "key_ok k \<Longrightarrow> ?thesis"
    by (simp add: KExtent key_parse_def key_check_def key_of_bytes_def key_bytes_tag key_bytes_fields)
qed

lemma list_head_split: "length bs = Suc n \<Longrightarrow> bs = [bs ! 0] @ drop 1 bs"
  by (cases bs) simp_all

lemma key_bytes_split:
  assumes "length bs = 272"
  shows "bs = [bs ! 0] @ le_bytes 4 (at_le 4 1 bs) @ drop 5 bs"
proof -
  have "bs = sub_slice 0 1 bs @ sub_slice 1 4 bs @ drop 5 bs"
    using slice_split [of 0 1 4 bs] append_take_drop_id [of 5 bs] by (simp add: sub_slice_def)
  moreover have "sub_slice 0 1 bs = [bs ! 0]" using assms by (simp add: sub_slice_def take_Suc_conv_app_nth [of 0])
  ultimately show ?thesis using slice_as_field [of 1 4 bs] assms by simp
qed

lemma key_parse_canonical:
  assumes "key_parse bs = Inr k" and len: "length bs = 272"
  shows "key_ok k \<and> key_bytes k = bs"
proof -
  have chk: "key_check bs = Inr ()" and k: "k = key_of_bytes bs"
    using assms(1) by (auto simp: key_parse_def split: sum.splits)
  note split = key_bytes_split [OF len]
  have object: "at_le 4 1 bs < 2 ^ 32" using at_le_lt [of 1 4 bs] len by simp
  consider "bs ! 0 = 1" | "bs ! 0 = 2" | "bs ! 0 = 3" using chk by (auto simp: key_check_def split: if_splits)
  then show ?thesis
  proof cases
    case 1
    then have "drop 5 bs = replicate 267 0"
      using chk all_zero_replicate [of "drop 5 bs"] len by (simp add: key_check_def split: if_splits)
    then show ?thesis using 1 split object by (simp add: k key_of_bytes_def key_bytes_form)
  next
    case 2
    let ?n = "unat (bs ! 5)" and ?name = "sub_slice 6 (unat (bs ! 5)) bs"
    have n: "0 < ?n" "?n \<le> 255" "all_zero (drop (6 + ?n) bs)" "name_new ?name = Inr ?name"
      using 2 chk by (auto simp: key_check_def MAX_NAME_def name_new_Inr Let_def split: if_splits sum.splits)
    have nl: "length ?name = ?n" using n(2) len by (simp add: sub_slice_def)
    have "drop 5 bs = [bs ! 5] @ drop 6 bs" using len Cons_nth_drop_Suc [of 5 bs] by simp
    moreover have "drop 6 bs = ?name @ drop (6 + ?n) bs" 
      using append_take_drop_id [of ?n "drop 6 bs"] by (simp add: sub_slice_def add.commute)
    moreover have "drop (6 + ?n) bs = replicate (266 - ?n) 0"
      using all_zero_replicate [OF n(3)] len by simp
    ultimately have "bs = [2] @ le_bytes 4 (at_le 4 1 bs) @ [bs ! 5] @ ?name @ replicate (266 - ?n) 0"
      using split 2 by simp
    then show ?thesis using 2 n nl object
      by (simp add: k key_of_bytes_def key_bytes_form name_wf_def)
  next
    case 3
    have z: "all_zero (sub_slice 5 3 bs)" "all_zero (drop 16 bs)"
      using 3 chk by (auto simp: key_check_def split: if_splits)
    have "drop 5 bs = sub_slice 5 3 bs @ sub_slice 8 8 bs @ drop 16 bs"
      using append_take_drop_id [of 3 "drop 5 bs"] append_take_drop_id [of 8 "drop 8 bs"] by (simp add: sub_slice_def)
    moreover have "sub_slice 5 3 bs = replicate 3 0" "drop 16 bs = replicate 256 0" "length (sub_slice 5 3 bs) = 3"
      using all_zero_replicate [OF z(1)] all_zero_replicate [OF z(2)] len by (simp_all add: sub_slice_def)
    moreover have "sub_slice 8 8 bs = le_bytes 8 (at_le 8 8 bs)" "at_le 8 8 bs < 2 ^ 64"
      using slice_as_field [of 8 8 bs] at_le_lt [of 8 8 bs] len by simp_all
    ultimately show ?thesis using 3 split object
      by (simp add: k key_of_bytes_def key_bytes_form)
  qed
qed

section \<open>Values read back\<close>

lemma value_object_as:
  "ob_count obj < 2 ^ 32 \<Longrightarrow> ob_size obj < 2 ^ 64 \<Longrightarrow> as_object (value_object obj) = Inr obj"
  by (cases "ob_kind obj") (simp_all add: as_object_def value_object_def window_laws)

lemma value_dirent_as: "object < 2 ^ 32 \<Longrightarrow> as_dirent (value_dirent object) = object"
  by (simp add: as_dirent_def value_dirent_def window_laws)

lemma value_extent_as:
  "at < 2 ^ 64 \<Longrightarrow> skip < 2 ^ 32 \<Longrightarrow> len < 2 ^ 32 \<Longrightarrow> as_extent (value_extent at skip len) = (at, skip, len)"
  by (simp add: as_extent_def value_extent_def window_laws)

lemma value_lengths [simp]:
  "length (value_object obj) = 32" "length (value_dirent object) = 32" "length (value_extent at skip len) = 32"
  "length value_whiteout = 32"
  by (simp_all add: value_object_def value_dirent_def value_extent_def value_whiteout_def window_laws)

text \<open>
  C34. The 272 bytes of a key parse back to it and no other bytes parse to it, and comparing the
  bytes of two keys field by field orders them as the keys are ordered.
\<close>

theorem key_codec:
  assumes "key_ok a" and "key_ok b"
  shows "key_parse (key_bytes a) = Inr a \<and> length (key_bytes a) = KEY_BYTES
    \<and> key_cmp (key_bytes a) (key_bytes b) = cmp a b
    \<and> (\<forall>bs. length bs = KEY_BYTES \<and> key_parse bs = Inr a \<longrightarrow> bs = key_bytes a)"
proof (intro conjI allI impI)
  show "bs = key_bytes a" if "length bs = KEY_BYTES \<and> key_parse bs = Inr a" for bs
    using that key_parse_canonical [of bs a] by (simp add: KEY_BYTES_def)
qed (use assms key_parse_bytes key_bytes_length key_order_bytes key_ok_wf in \<open>simp_all add: KEY_BYTES_def\<close>)

theorem key_codec_witness:
  "key_parse (key_bytes (KDirent 4 [97, 98])) = Inr (KDirent 4 [97, 98])
   \<and> key_cmp (key_bytes (KDirent 4 [97, 98])) (key_bytes (KExtent 0 9)) = cmp (KDirent 4 [97, 98]) (KExtent 0 9)"
  using key_codec [of "KDirent 4 [97, 98]" "KExtent 0 9"] by (simp add: name_wf_iff)

end
