(* ===== verification/Fs_Node.thy ===== *)
theory Fs_Node
  imports Fs_Key
begin

text \<open>
  Nodes of the metadata tree (crates/storage/fs/src/btree.rs): the live prefix of a node's keys,
  values and children, the binary search among its keys, and its 4096-byte block with a checksum.
  A leaf's children and an inner node's values are never written to the block nor read from it; a
  node has the empty list there.
\<close>

section \<open>Nodes\<close>

definition NODE_MAGIC :: "byte list" where
  "NODE_MAGIC = [77, 79, 76, 84, 66, 84, 48, 53]"

definition NODE_HEADER :: nat where
  "NODE_HEADER = 64"

definition VALUE_BYTES :: nat where
  "VALUE_BYTES = 32"

definition CAPACITY :: nat where
  "CAPACITY = 12"

definition MAX_HEIGHT :: nat where
  "MAX_HEIGHT = 8"

record node =
  nd_level :: nat
  nd_generation :: nat
  nd_keys :: "key list"
  nd_values :: "byte list list"
  nd_children :: "nat list"

abbreviation nd_len :: "node \<Rightarrow> nat" where
  "nd_len n \<equiv> length (nd_keys n)"

function node_search :: "(key \<Rightarrow> bool) \<Rightarrow> key list \<Rightarrow> nat \<Rightarrow> nat \<Rightarrow> nat" where
  "node_search before keys low high =
     (if low < high then
        (let middle = low + (high - low) div 2 in
         if before (keys ! middle) then node_search before keys (middle + 1) high
         else node_search before keys low middle)
      else low)"
  by auto
termination
  by (relation "measure (\<lambda>(before, keys, low, high). high - low)") auto

declare node_search.simps [simp del]

definition node_lower :: "node \<Rightarrow> key \<Rightarrow> nat" where
  "node_lower n k = node_search (\<lambda>held. held < k) (nd_keys n) 0 (nd_len n)"

definition node_upper :: "node \<Rightarrow> key \<Rightarrow> nat" where
  "node_upper n k = node_search (\<lambda>held. held \<le> k) (nd_keys n) 0 (nd_len n)"

section \<open>Blocks\<close>

definition node_crc :: "byte list \<Rightarrow> u32" where
  "node_crc block =
     crc_finish (crc_update (crc_update (crc_update crc_new (take 32 block)) (replicate 4 0)) (drop 36 block))"

fun parse_keys :: "nat \<Rightarrow> nat \<Rightarrow> key option \<Rightarrow> byte list \<Rightarrow> fs_error + key list" where
  "parse_keys 0 at prev block = Inr []"
| "parse_keys (Suc n) at prev block =
     (case key_parse (sub_slice (NODE_HEADER + at * KEY_BYTES) KEY_BYTES block) of Inl e \<Rightarrow> Inl e | Inr k \<Rightarrow>
      if (case prev of None \<Rightarrow> False | Some p \<Rightarrow> p \<ge> k) then Inl FsCorrupt else
      case parse_keys n (at + 1) (Some k) block of Inl e \<Rightarrow> Inl e | Inr ks \<Rightarrow> Inr (k # ks))"

definition node_parse :: "byte list \<Rightarrow> fs_error + node" where
  "node_parse block =
     (if sub_slice 0 8 block \<noteq> NODE_MAGIC \<or> at_le 4 8 block \<noteq> 5 then Inl FsCorrupt
      else if unat (node_crc block) \<noteq> at_le 4 32 block then Inl FsChecksum else
      let level = unat (block ! 12); len = unat (block ! 13) in
      if level \<ge> MAX_HEIGHT \<or> len = 0 \<or> len > CAPACITY then Inl FsCorrupt else
      case parse_keys len 0 None block of Inl e \<Rightarrow> Inl e | Inr keys \<Rightarrow>
      let values = NODE_HEADER + CAPACITY * KEY_BYTES in
      if level = 0 then
        Inr \<lparr>nd_level = level, nd_generation = at_le 8 16 block, nd_keys = keys,
             nd_values = map (\<lambda>at. sub_slice (values + at * VALUE_BYTES) VALUE_BYTES block) [0..<len], nd_children = []\<rparr>
      else
        let children = map (\<lambda>at. at_le 8 (values + at * 8) block) [0..<len + 1] in
        if 0 \<in> set children then Inl FsCorrupt
        else Inr \<lparr>nd_level = level, nd_generation = at_le 8 16 block, nd_keys = keys, nd_values = [], nd_children = children\<rparr>)"

definition node_body :: "node \<Rightarrow> byte list" where
  "node_body n =
     (let block = replicate BLOCK 0;
          block = put_slice 0 NODE_MAGIC block;
          block = put_le 4 8 5 block;
          block = put_byte 12 (of_nat (nd_level n)) block;
          block = put_byte 13 (of_nat (nd_len n)) block;
          block = put_le 8 16 (nd_generation n) block;
          block = put_rows NODE_HEADER (map key_bytes (nd_keys n)) block;
          values = NODE_HEADER + CAPACITY * KEY_BYTES
      in if nd_level n = 0 then put_rows values (nd_values n) block
         else put_rows values (map (le_bytes 8) (nd_children n)) block)"

definition node_encode :: "node \<Rightarrow> byte list" where
  "node_encode n = (let block = node_body n in put_le 4 32 (unat (node_crc block)) block)"

section \<open>The search\<close>

text \<open>On keys in order the binary search finds the point where the predicate stops holding.\<close>

lemma node_search_point:
  assumes "low \<le> partition_point before keys" and "partition_point before keys \<le> high" and "high \<le> length keys"
    and "\<And>i j. i \<le> j \<Longrightarrow> j < length keys \<Longrightarrow> before (keys ! j) \<Longrightarrow> before (keys ! i)"
  shows "node_search before keys low high = partition_point before keys"
  using assms
proof (induction before keys low high rule: node_search.induct)
  case (1 before keys low high)
  let ?m = "low + (high - low) div 2" and ?p = "partition_point before keys"
  show ?case
  proof (cases "low < high")
    case True
    then have m: "low \<le> ?m" "?m < high" by auto
    show ?thesis
    proof (cases "before (keys ! ?m)")
      case b: True
      have "?m < ?p"
      proof (rule ccontr)
        assume "\<not> ?m < ?p"
        then have "?p \<le> ?m" "?m < length keys" using m 1(5) by auto
        then have "before (keys ! ?p)" using b 1(6) by blast
        then show False using partition_point_at [of before keys] \<open>?p \<le> ?m\<close> \<open>?m < length keys\<close> by auto
      qed
      then have "node_search before keys (?m + 1) high = ?p" using 1(1) [OF True refl b] 1(4-6) by simp
      then show ?thesis using True b by (subst node_search.simps) (simp add: Let_def)
    next
      case b: False
      have "?p \<le> ?m" using b partition_point_below [of ?m before keys] by (meson not_le_imp_less)
      then have "node_search before keys low ?m = ?p" using 1(2) [OF True refl b] 1(3,5,6) m by simp
      then show ?thesis using True b by (subst node_search.simps) (simp add: Let_def)
    qed
  next
    case False
    then show ?thesis using 1(3,4) by (subst node_search.simps) simp
  qed
qed

lemma strict_sorted_nth_le: "sorted_wrt (<) ks \<Longrightarrow> i \<le> j \<Longrightarrow> j < length ks \<Longrightarrow> ks ! i \<le> (ks ! j :: key)"
  by (metis le_neq_implies_less less_imp_le order_refl sorted_wrt_nth_less)

lemma node_lower_point: "sorted_wrt (<) (nd_keys n) \<Longrightarrow> node_lower n k = partition_point (\<lambda>held. held < k) (nd_keys n)"
  unfolding node_lower_def
  by (rule node_search_point) (auto simp: partition_point_le intro: le_less_trans strict_sorted_nth_le)

lemma node_upper_point: "sorted_wrt (<) (nd_keys n) \<Longrightarrow> node_upper n k = partition_point (\<lambda>held. held \<le> k) (nd_keys n)"
  unfolding node_upper_def
  by (rule node_search_point) (auto simp: partition_point_le intro: order_trans strict_sorted_nth_le)

section \<open>A node survives its block\<close>

definition node_wf :: "node \<Rightarrow> bool" where
  "node_wf n \<longleftrightarrow> nd_level n < 8 \<and> nd_keys n \<noteq> [] \<and> nd_len n \<le> 12 \<and> nd_generation n < 2 ^ 64
     \<and> sorted_wrt (<) (nd_keys n) \<and> list_all key_ok (nd_keys n)
     \<and> (if nd_level n = 0 then nd_children n = [] \<and> length (nd_values n) = nd_len n \<and> list_all (\<lambda>v. length v = 32) (nd_values n)
        else nd_values n = [] \<and> length (nd_children n) = nd_len n + 1 \<and> list_all (\<lambda>c. 0 < c \<and> c < 2 ^ 64) (nd_children n))"

lemma concat_rows_length: "\<forall>r \<in> set rs. length r = n \<Longrightarrow> length (concat rs) = length rs * n"
  by (induction rs) simp_all

definition node_head :: "node \<Rightarrow> byte list" where
  "node_head n =
     put_le 8 16 (nd_generation n) (put_byte 13 (of_nat (nd_len n)) (put_byte 12 (of_nat (nd_level n))
       (put_le 4 8 5 (put_slice 0 NODE_MAGIC (replicate BLOCK 0)))))"

lemma node_head_fields:
  "length (node_head n) = 4096" "sub_slice 0 8 (node_head n) = NODE_MAGIC" "at_le 4 8 (node_head n) = 5"
  "sub_slice 12 (Suc 0) (node_head n) = [of_nat (nd_level n)]" "sub_slice 13 (Suc 0) (node_head n) = [of_nat (nd_len n)]"
  "at_le 8 16 (node_head n) = nd_generation n mod 2 ^ 64" "sub_slice 32 4 (node_head n) = replicate 4 0"
  by (simp_all add: node_head_def BLOCK_def window_laws NODE_MAGIC_def put_byte_slice)
    (simp add: sub_slice_def)

definition node_rows :: "node \<Rightarrow> byte list list" where
  "node_rows n = (if nd_level n = 0 then nd_values n else map (le_bytes 8) (nd_children n))"

lemma node_body_rows: "node_body n = put_rows 3328 (node_rows n) (put_rows 64 (map key_bytes (nd_keys n)) (node_head n))"
  by (simp add: node_body_def node_head_def node_rows_def Let_def NODE_HEADER_def CAPACITY_def KEY_BYTES_def)

lemma node_key_rows:
  assumes "node_wf n"
  shows "\<forall>r \<in> set (map key_bytes (nd_keys n)). length r = 272" "length (concat (map key_bytes (nd_keys n))) \<le> 3264"
proof -
  show *: "\<forall>r \<in> set (map key_bytes (nd_keys n)). length r = 272"
    using assms key_bytes_length key_ok_wf by (auto simp: node_wf_def list_all_iff)
  show "length (concat (map key_bytes (nd_keys n))) \<le> 3264"
    using concat_rows_length [OF *] assms by (simp add: node_wf_def)
qed

lemma node_value_rows:
  assumes "node_wf n"
  shows "\<forall>r \<in> set (node_rows n). length r = (if nd_level n = 0 then 32 else 8)" "length (concat (node_rows n)) \<le> 384"
proof -
  show *: "\<forall>r \<in> set (node_rows n). length r = (if nd_level n = 0 then 32 else 8)"
    using assms by (auto simp: node_wf_def node_rows_def list_all_iff)
  show "length (concat (node_rows n)) \<le> 384"
    using concat_rows_length [OF *] assms by (auto simp: node_wf_def node_rows_def split: if_splits)
qed

lemma node_keyed_length: "node_wf n \<Longrightarrow> length (put_rows 64 (map key_bytes (nd_keys n)) (node_head n)) = 4096"
  by (subst put_rows_length) (use node_key_rows(2) [of n] in \<open>simp_all add: node_head_fields del: length_concat\<close>)

lemma node_body_length: "node_wf n \<Longrightarrow> length (node_body n) = 4096"
  unfolding node_body_rows
  by (subst put_rows_length) (use node_value_rows(2) [of n] in \<open>simp_all add: node_keyed_length del: length_concat\<close>)

lemma node_body_low:
  assumes "node_wf n" and "i + m \<le> 3328"
  shows "sub_slice i m (node_body n) = sub_slice i m (put_rows 64 (map key_bytes (nd_keys n)) (node_head n))"
  unfolding node_body_rows
  by (rule put_rows_slice) (use node_value_rows(2) [OF assms(1)] assms in \<open>simp_all add: node_keyed_length del: length_concat\<close>)

lemma node_body_head:
  assumes "node_wf n" and "i + m \<le> 64"
  shows "sub_slice i m (node_body n) = sub_slice i m (node_head n)"
proof -
  have "sub_slice i m (put_rows 64 (map key_bytes (nd_keys n)) (node_head n)) = sub_slice i m (node_head n)"
    by (rule put_rows_slice) (use node_key_rows(2) [OF assms(1)] assms(2) in \<open>simp_all add: node_head_fields del: length_concat\<close>)
  then show ?thesis using node_body_low [OF assms(1), of i m] assms(2) by simp
qed

lemma node_body_key:
  assumes "node_wf n" and "i < nd_len n"
  shows "sub_slice (64 + i * 272) 272 (node_body n) = key_bytes (nd_keys n ! i)"
proof -
  let ?w = "put_rows 64 (map key_bytes (nd_keys n)) (node_head n)"
  have len: "length ?w = 4096" "nd_len n \<le> 12"
    using node_keyed_length [OF assms(1)] assms(1) by (simp_all add: node_wf_def)
  have "i * 272 + 272 \<le> 3264" using assms(2) len(2) by simp
  then have "sub_slice (64 + i * 272) 272 (node_body n) = sub_slice (64 + i * 272) 272 ?w"
    using node_body_low [OF assms(1), of "64 + i * 272" 272] by simp
  also have "\<dots> = key_bytes (nd_keys n ! i)"
    using put_rows_row [of 64 "map key_bytes (nd_keys n)" 272 "node_head n" i] node_key_rows [OF assms(1)] assms(2) len(2)
    by (simp add: node_head_fields)
  finally show ?thesis .
qed

lemma node_body_row:
  assumes "node_wf n" and "i < length (node_rows n)" and "m = (if nd_level n = 0 then 32 else 8)"
  shows "sub_slice (3328 + i * m) m (node_body n) = node_rows n ! i"
proof -
  let ?w = "put_rows 64 (map key_bytes (nd_keys n)) (node_head n)"
  have "length ?w = 4096" using node_keyed_length [OF assms(1)] .
  moreover have "length (node_rows n) * m \<le> 384"
    using node_value_rows [OF assms(1)] concat_rows_length [of "node_rows n" m] assms(3) by (simp del: length_concat)
  ultimately show ?thesis
    using put_rows_row [of 3328 "node_rows n" m ?w i] node_value_rows(1) [OF assms(1)] assms(2,3)
    by (simp add: node_body_rows)
qed

lemma node_encode_slice:
  "node_wf n \<Longrightarrow> i + m \<le> 32 \<or> 36 \<le> i \<Longrightarrow> sub_slice i m (node_encode n) = sub_slice i m (node_body n)"
  by (auto simp: node_encode_def Let_def window_laws node_body_length)

lemma node_encode_length: "node_wf n \<Longrightarrow> length (node_encode n) = 4096"
  by (simp add: node_encode_def Let_def window_laws node_body_length)

lemma node_encode_crc: "node_wf n \<Longrightarrow> unat (node_crc (node_encode n)) = at_le 4 32 (node_encode n)"
proof -
  assume wf: "node_wf n"
  have "take 32 (node_encode n) = take 32 (node_body n)"
    using node_encode_slice [OF wf, of 0 32] by (simp add: sub_slice_def)
  moreover have "drop 36 (node_encode n) = drop 36 (node_body n)"
    using node_encode_slice [OF wf, of 36 4060] by (simp add: sub_slice_def node_encode_length [OF wf] node_body_length [OF wf])
  ultimately have "node_crc (node_encode n) = node_crc (node_body n)" by (simp add: node_crc_def)
  moreover have "at_le 4 32 (node_encode n) = unat (node_crc (node_body n))"
    using wf by (simp add: node_encode_def Let_def window_laws node_body_length unat_u32_mod)
  ultimately show ?thesis by simp
qed

lemma nth_as_slice: "i < length w \<Longrightarrow> sub_slice i (Suc 0) w = [w ! i]"
  by (simp add: sub_slice_def take_Suc_conv_app_nth [of 0])

lemma node_encode_bytes:
  assumes "node_wf n"
  shows "unat (node_encode n ! 12) = nd_level n" "unat (node_encode n ! 13) = nd_len n"
proof -
  have "sub_slice 12 1 (node_encode n) = [of_nat (nd_level n)]" "sub_slice 13 1 (node_encode n) = [of_nat (nd_len n)]"
    using assms by (simp_all add: node_encode_slice node_body_head node_head_fields)
  then have "node_encode n ! 12 = of_nat (nd_level n)" "node_encode n ! 13 = of_nat (nd_len n)"
    using nth_as_slice [of 12 "node_encode n"] nth_as_slice [of 13 "node_encode n"] node_encode_length [OF assms] by simp_all
  moreover have "nd_level n < 256" "nd_len n < 256" using assms by (simp_all add: node_wf_def)
  ultimately show "unat (node_encode n ! 12) = nd_level n" "unat (node_encode n ! 13) = nd_len n"
    by (simp_all add: unat_of_nat)
qed

lemma parse_keys_encode:
  assumes "node_wf n" and "m + at = nd_len n" and "\<And>p. prev = Some p \<Longrightarrow> 0 < at \<and> p = nd_keys n ! (at - 1)"
  shows "parse_keys m at prev (node_encode n) = Inr (drop at (nd_keys n))"
  using assms(2,3)
proof (induction m arbitrary: at prev)
  case (Suc m)
  have at: "at < nd_len n" using Suc.prems by simp
  have wf: "sorted_wrt (<) (nd_keys n)" "key_ok (nd_keys n ! at)" using assms(1) at by (auto simp: node_wf_def list_all_length)
  have "sub_slice (64 + at * 272) 272 (node_encode n) = key_bytes (nd_keys n ! at)"
    using assms(1) at by (simp add: node_encode_slice node_body_key)
  then have key: "key_parse (sub_slice (64 + at * 272) 272 (node_encode n)) = Inr (nd_keys n ! at)"
    using key_parse_bytes wf(2) by simp
  have prev: "\<not> p \<ge> nd_keys n ! at" if "prev = Some p" for p
    using Suc.prems(2) [OF that] sorted_wrt_nth_less [OF wf(1), of "at - 1" at] at by simp
  have "parse_keys m (at + 1) (Some (nd_keys n ! at)) (node_encode n) = Inr (drop (at + 1) (nd_keys n))"
    by (rule Suc.IH) (use Suc.prems in auto)
  then show ?case
    using key prev Cons_nth_drop_Suc [OF at] by (simp add: NODE_HEADER_def KEY_BYTES_def split: option.splits)
qed simp

lemma node_parse_encode: "node_wf n \<Longrightarrow> node_parse (node_encode n) = Inr n"
proof -
  assume wf: "node_wf n"
  have magic: "sub_slice 0 8 (node_encode n) = NODE_MAGIC"
    using wf by (simp add: node_encode_slice node_body_head node_head_fields)
  have field: "at_le m i (node_encode n) = at_le m i (node_head n)" if "i + m \<le> 32" for m i
    using that wf by (simp add: at_le_def node_encode_slice node_body_head)
  have keys: "parse_keys (nd_len n) 0 None (node_encode n) = Inr (nd_keys n)"
    using parse_keys_encode [OF wf, of "nd_len n" 0 None] by simp
  have row: "sub_slice (3328 + i * m) m (node_encode n) = node_rows n ! i"
    if "i < length (node_rows n)" "m = (if nd_level n = 0 then 32 else 8)" for i m
    using node_body_row [OF wf that] wf by (simp add: node_encode_slice)
  have bounds: "nd_level n < 8" "nd_len n \<noteq> 0" "nd_len n \<le> 12" "nd_generation n < 2 ^ 64"
    using wf by (auto simp: node_wf_def)
  have leaf: "map (\<lambda>at. sub_slice (3328 + at * 32) 32 (node_encode n)) [0..<nd_len n] = nd_values n" if "nd_level n = 0"
    using row [of _ 32] wf that by (auto simp: node_rows_def node_wf_def intro: nth_equalityI)
  have inner: "map (\<lambda>at. at_le 8 (3328 + at * 8) (node_encode n)) [0..<Suc (nd_len n)] = nd_children n \<and> 0 \<notin> set (map (\<lambda>at. at_le 8 (3328 + at * 8) (node_encode n)) [0..<Suc (nd_len n)])"
    if "nd_level n \<noteq> 0"
  proof -
    have c: "length (nd_children n) = nd_len n + 1" "list_all (\<lambda>c. 0 < c \<and> c < 2 ^ 64) (nd_children n)"
      using wf that by (auto simp: node_wf_def)
    have "at_le 8 (3328 + at * 8) (node_encode n) = nd_children n ! at" if "at < nd_len n + 1" for at
      using row [of at 8] c that \<open>nd_level n \<noteq> 0\<close> by (simp add: at_le_def node_rows_def le_value_bytes list_all_length)
    then have "map (\<lambda>at. at_le 8 (3328 + at * 8) (node_encode n)) [0..<Suc (nd_len n)] = nd_children n"
      using c(1) by (intro nth_equalityI) (simp_all del: upt_Suc)
    moreover from this have "0 \<notin> set (map (\<lambda>at. at_le 8 (3328 + at * 8) (node_encode n)) [0..<Suc (nd_len n)])"
      using c(2) by (metis list_all_iff less_irrefl)
    ultimately show ?thesis by blast
  qed
  show ?thesis
  proof (cases "nd_level n = 0")
    case True
    then show ?thesis
      using magic field [of 8 4] field [of 16 8] node_encode_crc [OF wf] node_encode_bytes [OF wf] keys bounds leaf wf
      by (simp add: node_parse_def node_head_fields Let_def MAX_HEIGHT_def CAPACITY_def NODE_HEADER_def KEY_BYTES_def
          VALUE_BYTES_def node_wf_def)
  next
    case False
    then show ?thesis
      using magic field [of 8 4] field [of 16 8] node_encode_crc [OF wf] node_encode_bytes [OF wf] keys bounds inner wf
      by (simp add: node_parse_def node_head_fields Let_def MAX_HEIGHT_def CAPACITY_def NODE_HEADER_def KEY_BYTES_def
          VALUE_BYTES_def node_wf_def del: upt_Suc)
  qed
qed

section \<open>What a parsed node satisfies\<close>

lemma parse_keys_sorted:
  assumes "parse_keys n at prev block = Inr ks" and "length block = 4096" and "at + n \<le> 12"
  shows "length ks = n \<and> sorted_wrt (<) ks \<and> list_all key_ok ks \<and> (\<forall>p. prev = Some p \<longrightarrow> (\<forall>k \<in> set ks. p < k))"
  using assms
proof (induction n arbitrary: at prev ks)
  case (Suc n)
  let ?row = "sub_slice (64 + at * 272) 272 block"
  obtain k ks' where k: "key_parse ?row = Inr k" and prev: "\<And>p. prev = Some p \<Longrightarrow> p < k"
    and rest: "parse_keys n (at + 1) (Some k) block = Inr ks'" and ks: "ks = k # ks'"
    using Suc.prems(1) by (auto simp: NODE_HEADER_def KEY_BYTES_def split: sum.splits if_splits option.splits)
  have "length ?row = 272" using Suc.prems(2,3) by (simp add: sub_slice_def)
  then have "key_ok k" using key_parse_canonical [OF k] by simp
  then show ?case using Suc.IH [OF rest Suc.prems(2)] Suc.prems(3) prev ks by (auto intro: less_trans)
qed simp

lemma node_parse_wf:
  assumes "node_parse block = Inr n" and "length block = 4096"
  shows "node_wf n"
proof -
  let ?level = "unat (block ! 12)" and ?len = "unat (block ! 13)"
  let ?children = "map (\<lambda>at. at_le 8 (3328 + at * 8) block) [0..<?len + 1]"
  obtain keys where keys: "parse_keys ?len 0 None block = Inr keys" and b: "?level < 8" "?len \<noteq> 0" "?len \<le> 12"
    and n: "n = (if ?level = 0 then \<lparr>nd_level = 0, nd_generation = at_le 8 16 block, nd_keys = keys,
              nd_values = map (\<lambda>at. sub_slice (3328 + at * 32) 32 block) [0..<?len], nd_children = []\<rparr>
            else \<lparr>nd_level = ?level, nd_generation = at_le 8 16 block, nd_keys = keys, nd_values = [], nd_children = ?children\<rparr>)"
    and nz: "?level \<noteq> 0 \<Longrightarrow> 0 \<notin> set ?children"
    using assms(1)
    by (auto simp: node_parse_def Let_def MAX_HEIGHT_def CAPACITY_def NODE_HEADER_def KEY_BYTES_def VALUE_BYTES_def
        simp del: upt_Suc split: if_splits sum.splits)
  have ks: "length keys = ?len" "sorted_wrt (<) keys" "list_all key_ok keys"
    using parse_keys_sorted [OF keys assms(2)] b(3) by auto
  have gen: "at_le 8 16 block < 2 ^ 64" using at_le_lt [of 16 8 block] assms(2) by simp
  have vals: "length (sub_slice (3328 + at * 32) 32 block) = 32" if "at < ?len" for at
    using that b(3) assms(2) by (simp add: sub_slice_def)
  have child: "at_le 8 (3328 + at * 8) block < 2 ^ 64" if "at < ?len + 1" for at
    using at_le_lt [of "3328 + at * 8" 8 block] that b(3) assms(2) by simp
  show ?thesis
  proof (cases "?level = 0")
    case True
    then show ?thesis using n ks b gen vals by (auto simp: node_wf_def list_all_iff)
  next
    case False
    then have "list_all (\<lambda>c. 0 < c \<and> c < 2 ^ 64) ?children"
      using nz child by (auto simp: list_all_iff simp del: upt_Suc)
    then show ?thesis using False n ks b gen by (auto simp: node_wf_def simp del: upt_Suc)
  qed
qed

end
