(* ===== verification/Fs_Bitmap.thy ===== *)
theory Fs_Bitmap
  imports Prelude
begin

text \<open>
  The run of bits that tracks the metadata arena (crates/storage/fs/src/bitmap.rs): 64-bit words
  and the number of indices they stand for. The laws say that the words are a set of indices
  below that number, that \<open>set\<close> and \<open>clear\<close> change exactly one of them, and that \<open>first_clear\<close>
  is the least index outside the set.
\<close>

section \<open>The bits\<close>

record bitmap =
  bm_words :: "u64 list"
  bm_bits :: nat

definition bm_mask :: "nat \<Rightarrow> u64" where
  "bm_mask at = push_bit (at mod 64) 1"

definition bm_new :: "nat \<Rightarrow> bitmap" where
  "bm_new bits = \<lparr>bm_words = replicate ((bits + 63) div 64) 0, bm_bits = bits\<rparr>"

definition bm_get :: "bitmap \<Rightarrow> nat \<Rightarrow> bool" where
  "bm_get m at = (at div 64 < length (bm_words m) \<and> (bm_words m ! (at div 64)) AND bm_mask at \<noteq> 0)"

definition bm_set :: "nat \<Rightarrow> bitmap \<Rightarrow> bitmap" where
  "bm_set at m =
     (if at < bm_bits m \<and> at div 64 < length (bm_words m)
      then m\<lparr>bm_words := (bm_words m)[at div 64 := (bm_words m ! (at div 64)) OR bm_mask at]\<rparr>
      else m)"

definition bm_clear :: "nat \<Rightarrow> bitmap \<Rightarrow> bitmap" where
  "bm_clear at m =
     (if at div 64 < length (bm_words m)
      then m\<lparr>bm_words := (bm_words m)[at div 64 := (bm_words m ! (at div 64)) AND NOT (bm_mask at)]\<rparr>
      else m)"

definition trailing_ones :: "u64 \<Rightarrow> nat" where
  "trailing_ones w = length (takeWhile (bit w) [0..<64])"

fun find_clear :: "nat \<Rightarrow> nat \<Rightarrow> u64 list \<Rightarrow> nat option" where
  "find_clear bits index [] = None"
| "find_clear bits index (word # words) =
     (let free = trailing_ones word; at = index * 64 + free in
      if free < 64 \<and> at < bits then Some at else find_clear bits (Suc index) words)"

definition bm_first_clear :: "bitmap \<Rightarrow> nat option" where
  "bm_first_clear m = find_clear (bm_bits m) 0 (bm_words m)"

definition bm_ok :: "bitmap \<Rightarrow> bool" where
  "bm_ok m = (length (bm_words m) = (bm_bits m + 63) div 64)"

section \<open>The set of indices\<close>

lemma bm_get_bit: "bm_get m at = (at div 64 < length (bm_words m) \<and> bit (bm_words m ! (at div 64)) (at mod 64))"
proof -
  have "w AND bm_mask at \<noteq> 0 \<longleftrightarrow> bit w (at mod 64)" for w :: u64
  proof -
    have "w AND bm_mask at = 0 \<longleftrightarrow> (\<forall>i. \<not> (bit w i \<and> i = at mod 64))"
      unfolding bm_mask_def by (subst bit_eq_iff) (auto simp: bit_simps dest: spec [of _ "at mod 64"])
    then show ?thesis by auto
  qed
  then show ?thesis by (simp add: bm_get_def)
qed

lemma bm_new_ok [simp]: "bm_ok (bm_new n)"
  by (simp add: bm_ok_def bm_new_def)

lemma bm_get_new [simp]: "\<not> bm_get (bm_new n) at"
  by (simp add: bm_get_bit bm_new_def)

lemma bm_bits_simps [simp]:
  "bm_bits (bm_new n) = n" "bm_bits (bm_set at m) = bm_bits m" "bm_bits (bm_clear at m) = bm_bits m"
  by (simp_all add: bm_new_def bm_set_def bm_clear_def)

lemma bm_update_ok [simp]: "bm_ok m \<Longrightarrow> bm_ok (bm_set at m)" "bm_ok m \<Longrightarrow> bm_ok (bm_clear at m)"
  by (simp_all add: bm_ok_def bm_set_def bm_clear_def)

lemma same_index: "(i :: nat) div 64 = j div 64 \<Longrightarrow> i mod 64 = j mod 64 \<longleftrightarrow> i = j"
  by (metis div_mult_mod_eq)

lemma bm_get_set: "bm_ok m \<Longrightarrow> at < bm_bits m \<Longrightarrow> bm_get (bm_set at m) i \<longleftrightarrow> i = at \<or> bm_get m i"
proof -
  assume "bm_ok m" and "at < bm_bits m"
  then have at: "at div 64 < length (bm_words m)" by (simp add: bm_ok_def)
  then show ?thesis using \<open>at < bm_bits m\<close>
    by (auto simp: bm_get_bit bm_set_def bm_mask_def nth_list_update bit_simps same_index)
qed

lemma bm_get_clear: "bm_get (bm_clear at m) i \<longleftrightarrow> i \<noteq> at \<and> bm_get m i"
  by (auto simp: bm_get_bit bm_clear_def bm_mask_def nth_list_update bit_simps same_index)

lemma trailing_ones_le: "trailing_ones w \<le> 64"
  using length_takeWhile_le [of "bit w" "[0..<64]"] by (simp add: trailing_ones_def)

lemma trailing_ones_below: "i < trailing_ones w \<Longrightarrow> bit w i"
proof -
  assume i: "i < trailing_ones w"
  then have "bit w (takeWhile (bit w) [0..<64] ! i)"
    unfolding trailing_ones_def by (meson nth_mem set_takeWhileD)
  moreover have "takeWhile (bit w) [0..<64] ! i = i"
    using i trailing_ones_le [of w] by (simp add: trailing_ones_def takeWhile_nth)
  ultimately show ?thesis by simp
qed

lemma trailing_ones_at: "trailing_ones w < 64 \<Longrightarrow> \<not> bit w (trailing_ones w)"
  using nth_length_takeWhile [of "bit w" "[0..<64]"] by (simp add: trailing_ones_def)

lemma find_clear_Some:
  assumes "find_clear bits k ws = Some at"
  shows "k * 64 \<le> at \<and> at < bits \<and> at div 64 - k < length ws \<and> \<not> bit (ws ! (at div 64 - k)) (at mod 64)
         \<and> (\<forall>i. k * 64 \<le> i \<and> i < at \<longrightarrow> bit (ws ! (i div 64 - k)) (i mod 64))"
  using assms
proof (induction bits k ws rule: find_clear.induct)
  case (2 bits k w ws)
  let ?t = "trailing_ones w"
  show ?case
  proof (cases "?t < 64 \<and> k * 64 + ?t < bits")
    case True
    then have at: "at = k * 64 + ?t" using 2(2) by (simp add: Let_def)
    have "bit ((w # ws) ! (i div 64 - k)) (i mod 64)" if "k * 64 \<le> i" "i < at" for i
    proof -
      have "i div 64 = k" using that at True by auto
      then have "i mod 64 < ?t" using that at by (metis add_less_cancel_left div_mult_mod_eq)
      then show ?thesis using \<open>i div 64 = k\<close> by (simp add: trailing_ones_below)
    qed
    moreover have "at div 64 = k" "at mod 64 = ?t" using at True by auto
    ultimately show ?thesis using at True trailing_ones_at by auto
  next
    case False
    then have rec: "find_clear bits (Suc k) ws = Some at" using 2(2) by (simp add: Let_def split: if_splits)
    note IH = 2(1) [OF refl refl False rec]
    have full: "?t = 64"
    proof (rule ccontr)
      assume "?t \<noteq> 64"
      then have "?t < 64" using trailing_ones_le [of w] by simp
      then show False using False IH by simp
    qed
    have "bit ((w # ws) ! (i div 64 - k)) (i mod 64)" if "k * 64 \<le> i" "i < at" for i
    proof (cases "i < Suc k * 64")
      case True
      then have "i div 64 = k" using that by auto
      then show ?thesis using trailing_ones_below [of "i mod 64" w] full by simp
    next
      case False
      then have "Suc k \<le> i div 64" by auto
      moreover have "bit (ws ! (i div 64 - Suc k)) (i mod 64)" using IH False that by simp
      ultimately show ?thesis by (simp add: nth_Cons')
    qed
    moreover have "Suc k \<le> at div 64" using IH by auto
    ultimately show ?thesis using IH by (auto simp: nth_Cons')
  qed
qed simp

lemma find_clear_None:
  assumes "find_clear bits k ws = None" and "k * 64 \<le> i" and "i < bits" and "i div 64 - k < length ws"
  shows "bit (ws ! (i div 64 - k)) (i mod 64)"
  using assms
proof (induction bits k ws rule: find_clear.induct)
  case (2 bits k w ws)
  let ?t = "trailing_ones w"
  have no: "\<not> (?t < 64 \<and> k * 64 + ?t < bits)" and rec: "find_clear bits (Suc k) ws = None"
    using 2(2) by (auto simp: Let_def split: if_splits)
  show ?case
  proof (cases "i < Suc k * 64")
    case True
    then have div: "i div 64 = k" using 2(3) by auto
    then have "i = k * 64 + i mod 64" by (metis div_mult_mod_eq)
    moreover have "i mod 64 < 64" by simp
    ultimately have "i mod 64 < ?t" using no 2(4) by linarith
    then show ?thesis using div by (simp add: trailing_ones_below)
  next
    case False
    then have "Suc k \<le> i div 64" by auto
    then have "i div 64 - Suc k < length ws" using 2(5) by simp
    then have "bit (ws ! (i div 64 - Suc k)) (i mod 64)" using 2(1) [OF refl refl no rec] False 2(4) by simp
    then show ?thesis using \<open>Suc k \<le> i div 64\<close> by (simp add: nth_Cons')
  qed
qed simp

lemma bm_first_clear_Some:
  "bm_first_clear m = Some at \<Longrightarrow> at < bm_bits m \<and> \<not> bm_get m at \<and> (\<forall>i < at. bm_get m i)"
proof -
  assume "bm_first_clear m = Some at"
  note f = find_clear_Some [OF this [unfolded bm_first_clear_def]]
  have "i div 64 < length (bm_words m)" if "i < at" for i
    using f div_le_mono [of i at 64] that by simp
  then show ?thesis using f by (auto simp: bm_get_bit)
qed

lemma bm_first_clear_None: "bm_ok m \<Longrightarrow> bm_first_clear m = None \<Longrightarrow> i < bm_bits m \<Longrightarrow> bm_get m i"
  using find_clear_None [of "bm_bits m" 0 "bm_words m" i]
  by (auto simp: bm_first_clear_def bm_get_bit bm_ok_def)

end
