(* ===== verification/Fs_Tree.thy ===== *)
theory Fs_Tree
  imports Fs_Volume Fs_Node Fs_Bitmap
begin

text \<open>
  The copy-on-write metadata tree (crates/storage/fs/src/btree.rs): the bounded cache of parsed
  nodes with its SIEVE eviction, lookups, the walk in key order, insertion by path copying, the
  arena's two bitmaps, and the check of a whole tree at mount. The pool of spare node allocations
  has no effect but memory and is left out, as are refusals of the heap. A path is the list of its
  block and child pairs, innermost first. This theory holds the definitions; the next ones show
  what they do.
\<close>

section \<open>The node cache\<close>

definition CACHE_SLOTS :: nat where
  "CACHE_SLOTS = 16"

record cache_entry =
  ce_visited :: bool
  ce_block :: nat
  ce_node :: node

record cache =
  ch_entries :: "cache_entry list"
  ch_hand :: nat
  ch_hits :: nat
  ch_misses :: nat
  ch_evictions :: nat

definition cache_new :: cache where
  "cache_new = \<lparr>ch_entries = [], ch_hand = 0, ch_hits = 0, ch_misses = 0, ch_evictions = 0\<rparr>"

definition cache_get :: "nat \<Rightarrow> cache \<Rightarrow> node option \<times> cache" where
  "cache_get block c =
     (case find_index (\<lambda>e. ce_block e = block) (ch_entries c) of
        Some i \<Rightarrow> (Some (ce_node (ch_entries c ! i)),
                   c\<lparr>ch_entries := (ch_entries c)[i := (ch_entries c ! i)\<lparr>ce_visited := True\<rparr>], ch_hits := ch_hits c + 1\<rparr>)
      | None \<Rightarrow> (None, c\<lparr>ch_misses := ch_misses c + 1\<rparr>))"

text \<open>The hand passes visited entries, clearing them, and takes the first that is not.\<close>

function cache_evict :: "nat \<Rightarrow> node \<Rightarrow> cache \<Rightarrow> node option \<times> cache" where
  "cache_evict block n c =
     (let at = ch_hand c; entries = ch_entries c in
      if at < length entries then
        (if ce_visited (entries ! at)
         then cache_evict block n
                (c\<lparr>ch_hand := (at + 1) mod CACHE_SLOTS, ch_entries := entries[at := (entries ! at)\<lparr>ce_visited := False\<rparr>]\<rparr>)
         else (Some (ce_node (entries ! at)),
               c\<lparr>ch_hand := (at + 1) mod CACHE_SLOTS,
                 ch_entries := entries[at := \<lparr>ce_visited = False, ce_block = block, ce_node = n\<rparr>],
                 ch_evictions := ch_evictions c + 1\<rparr>))
      else (None, c))"
  by pat_completeness auto

definition visited_count :: "cache \<Rightarrow> nat" where
  "visited_count c = length (filter ce_visited (ch_entries c))"

lemma filter_update_less:
  "i < length xs \<Longrightarrow> P (xs ! i) \<Longrightarrow> \<not> P y \<Longrightarrow> length (filter P (xs[i := y])) < length (filter P xs)"
  by (induction xs arbitrary: i) (auto split: nat.splits)

termination cache_evict
  by (relation "measure (\<lambda>(block, n, c). visited_count c)") (auto simp: visited_count_def filter_update_less)

declare cache_evict.simps [simp del]

definition cache_put :: "nat \<Rightarrow> node \<Rightarrow> cache \<Rightarrow> node option \<times> cache" where
  "cache_put block n c =
     (case find_index (\<lambda>e. ce_block e = block) (ch_entries c) of
        Some i \<Rightarrow> (Some (ce_node (ch_entries c ! i)),
                   c\<lparr>ch_entries := (ch_entries c)[i := (ch_entries c ! i)\<lparr>ce_visited := True, ce_node := n\<rparr>]\<rparr>)
      | None \<Rightarrow>
        if length (ch_entries c) < CACHE_SLOTS
        then (None, c\<lparr>ch_entries := ch_entries c @ [\<lparr>ce_visited = False, ce_block = block, ce_node = n\<rparr>]\<rparr>)
        else cache_evict block n c)"

definition swap_remove :: "nat \<Rightarrow> 'a list \<Rightarrow> 'a list" where
  "swap_remove i xs = butlast (xs[i := last xs])"

definition cache_forget :: "nat \<Rightarrow> cache \<Rightarrow> node option \<times> cache" where
  "cache_forget block c =
     (case find_index (\<lambda>e. ce_block e = block) (ch_entries c) of
        None \<Rightarrow> (None, c)
      | Some i \<Rightarrow> (Some (ce_node (ch_entries c ! i)), c\<lparr>ch_entries := swap_remove i (ch_entries c)\<rparr>))"

section \<open>Reading nodes\<close>

record store =
  st_vol :: volume
  st_cache :: cache

definition tree_offset :: "super \<Rightarrow> nat \<Rightarrow> fs_error + nat" where
  "tree_offset checkpoint at =
     (if at < sp_tree_at checkpoint then Inl FsCorrupt else
      let offset = at - sp_tree_at checkpoint in
      if offset \<ge> sp_tree_blocks checkpoint then Inl FsCorrupt
      else if offset \<ge> 2 ^ 32 then Inl FsCorrupt else Inr offset)"

definition tree_keep :: "nat \<Rightarrow> node \<Rightarrow> store \<Rightarrow> store" where
  "tree_keep at n s = s\<lparr>st_cache := snd (cache_put at n (st_cache s))\<rparr>"

definition tree_read :: "nat \<Rightarrow> (store, fs_error, node) eff" where
  "tree_read at s =
     (case tree_offset (vl_super (st_vol s)) at of Inl e \<Rightarrow> (Inl e, s) | Inr _ \<Rightarrow>
      case cache_get at (st_cache s) of
        (Some n, c) \<Rightarrow> (Inr n, s\<lparr>st_cache := c\<rparr>)
      | (None, c) \<Rightarrow>
        (case vol_block at (st_vol s) of
           (Inl e, v) \<Rightarrow> (Inl e, s\<lparr>st_vol := v, st_cache := c\<rparr>)
         | (Inr block, v) \<Rightarrow>
           (case node_parse block of
              Inl e \<Rightarrow> (Inl e, s\<lparr>st_vol := v, st_cache := c\<rparr>)
            | Inr n \<Rightarrow> (Inr n, tree_keep at n (s\<lparr>st_vol := v, st_cache := c\<rparr>)))))"

section \<open>Lookups\<close>

definition leaf_find :: "node \<Rightarrow> key \<Rightarrow> byte list option" where
  "leaf_find n k =
     (let index = node_lower n k in
      if index < nd_len n \<and> nd_keys n ! index = k then Some (nd_values n ! index) else None)"

fun tree_get_from :: "nat \<Rightarrow> nat \<Rightarrow> key \<Rightarrow> (store, fs_error, byte list option) eff" where
  "tree_get_from 0 at k = fail FsCorrupt"
| "tree_get_from (Suc steps) at k =
     and_then (tree_read at) (\<lambda>n.
       if nd_level n = 0 then ok (leaf_find n k)
       else tree_get_from steps (nd_children n ! node_upper n k) k)"

definition tree_get :: "nat \<Rightarrow> key \<Rightarrow> (store, fs_error, byte list option) eff" where
  "tree_get root k = (if root = 0 then ok None else tree_get_from MAX_HEIGHT root k)"

type_synonym path = "(nat \<times> nat) list"

text \<open>Down the left edge of a subtree. The source does not bound this walk; a verified tree is lower.\<close>

fun leftmost :: "nat \<Rightarrow> nat \<Rightarrow> (store, fs_error, (key \<times> byte list) option) eff" where
  "leftmost 0 at = fail FsDiverge"
| "leftmost (Suc steps) at =
     and_then (tree_read at) (\<lambda>n.
       if nd_level n = 0 then ok (if nd_len n > 0 then Some (nd_keys n ! 0, nd_values n ! 0) else None)
       else leftmost steps (nd_children n ! 0))"

fun next_up :: "path \<Rightarrow> (store, fs_error, (key \<times> byte list) option) eff" where
  "next_up [] = ok None"
| "next_up ((parent_at, child) # p) =
     and_then (tree_read parent_at) (\<lambda>parent.
       if child \<ge> nd_len parent then next_up p
       else leftmost MAX_HEIGHT (nd_children parent ! (child + 1)))"

text \<open>The descent pushes every inner node; the ninth is refused, so the room left bounds it.\<close>

fun next_down :: "nat \<Rightarrow> path \<Rightarrow> nat \<Rightarrow> key \<Rightarrow> bool \<Rightarrow> (store, fs_error, (key \<times> byte list) option) eff" where
  "next_down room p at k inclusive =
     and_then (tree_read at) (\<lambda>n.
       if nd_level n = 0 then
         (let index = (if inclusive then node_lower n k else node_upper n k) in
          if index < nd_len n then ok (Some (nd_keys n ! index, nd_values n ! index)) else next_up p)
       else
         (let child = node_upper n k in
          case room of 0 \<Rightarrow> fail FsCorrupt
          | Suc room \<Rightarrow> next_down room ((at, child) # p) (nd_children n ! child) k inclusive))"

declare next_down.simps [simp del]

definition tree_next :: "nat \<Rightarrow> key \<Rightarrow> bool \<Rightarrow> (store, fs_error, (key \<times> byte list) option) eff" where
  "tree_next root k inclusive = (if root = 0 then ok None else next_down MAX_HEIGHT [] root k inclusive)"

section \<open>Transactions\<close>

record tree_tx =
  tx_root :: nat
  tx_generation :: nat
  tx_tree_at :: nat
  tx_protected :: bitmap
  tx_used :: bitmap

text \<open>A mutation works on the transaction and the store together.\<close>

type_synonym 'a tree_op = "(tree_tx \<times> store, fs_error, 'a) eff"

definition on_store :: "(store, fs_error, 'a) eff \<Rightarrow> 'a tree_op" where
  "on_store m ts = (case m (snd ts) of (r, s) \<Rightarrow> (r, (fst ts, s)))"

datatype branch = One nat | Split nat key nat

definition write_new :: "node \<Rightarrow> nat tree_op" where
  "write_new n ts =
     (let t = fst ts; s = snd ts; checkpoint = vl_super (st_vol s) in
      case bm_first_clear (tx_used t) of None \<Rightarrow> (Inl FsFull, ts) | Some offset \<Rightarrow>
      let t = t\<lparr>tx_used := bm_set offset (tx_used t)\<rparr>; at = sp_tree_at checkpoint + offset in
      case write_tree_block at (node_encode n) (st_vol s) of
        (Inl e, v) \<Rightarrow> (Inl e, (t, s\<lparr>st_vol := v\<rparr>))
      | (Inr _, v) \<Rightarrow> (Inr at, (t, tree_keep at n (s\<lparr>st_vol := v\<rparr>))))"

definition tree_release :: "nat \<Rightarrow> tree_tx \<times> store \<Rightarrow> tree_tx \<times> store" where
  "tree_release at ts =
     (let t = fst ts; s = snd ts in
      if at < tx_tree_at t then ts else
      let offset = at - tx_tree_at t in
      if offset \<ge> 2 ^ 32 then ts
      else if \<not> bm_get (tx_protected t) offset \<and> bm_get (tx_used t) offset
      then (t\<lparr>tx_used := bm_clear offset (tx_used t)\<rparr>, s\<lparr>st_cache := snd (cache_forget at (st_cache s))\<rparr>)
      else ts)"

text \<open>A sequence with one element spliced in at an index, read by position.\<close>

definition spliced :: "nat \<Rightarrow> 'a \<Rightarrow> 'a list \<Rightarrow> nat \<Rightarrow> 'a" where
  "spliced index x xs slot =
     (if slot < index then xs ! slot else if slot = index then x else xs ! (slot - 1))"

definition leaf_fill :: "node \<Rightarrow> nat \<Rightarrow> key \<Rightarrow> byte list \<Rightarrow> nat \<Rightarrow> nat \<Rightarrow> nat \<Rightarrow> node" where
  "leaf_fill leaf index k v gen from to =
     \<lparr>nd_level = 0, nd_generation = gen,
      nd_keys = map (spliced index k (nd_keys leaf)) [from..<to],
      nd_values = map (spliced index v (nd_values leaf)) [from..<to],
      nd_children = []\<rparr>"

definition insert_leaf :: "node \<Rightarrow> key \<Rightarrow> byte list \<Rightarrow> branch tree_op" where
  "insert_leaf leaf k v ts =
     (let index = node_lower leaf k; gen = tx_generation (fst ts) in
      if index < nd_len leaf \<and> nd_keys leaf ! index = k then
        and_then (write_new (leaf\<lparr>nd_generation := gen, nd_values := (nd_values leaf)[index := v]\<rparr>)) (\<lambda>at. ok (One at)) ts
      else
        let count = nd_len leaf + 1 in
        if count \<le> CAPACITY then
          and_then (write_new (leaf_fill leaf index k v gen 0 count)) (\<lambda>at. ok (One at)) ts
        else
          let middle = count div 2;
              left = leaf_fill leaf index k v gen 0 middle;
              right = leaf_fill leaf index k v gen middle count
          in and_then (write_new left) (\<lambda>left_at.
             and_then (write_new right) (\<lambda>right_at.
             ok (Split left_at (nd_keys right ! 0) right_at))) ts)"

definition child_at :: "node \<Rightarrow> nat \<Rightarrow> nat \<Rightarrow> nat \<Rightarrow> nat \<Rightarrow> nat" where
  "child_at parent child left right slot =
     (if slot < child then nd_children parent ! slot
      else if slot = child then left
      else if slot = child + 1 then right
      else nd_children parent ! (slot - 1))"

definition inner_fill :: "node \<Rightarrow> nat \<Rightarrow> nat \<Rightarrow> key \<Rightarrow> nat \<Rightarrow> nat \<Rightarrow> nat \<Rightarrow> nat \<Rightarrow> node" where
  "inner_fill parent child left separator right gen from to =
     \<lparr>nd_level = nd_level parent, nd_generation = gen,
      nd_keys = map (spliced child separator (nd_keys parent)) [from..<to],
      nd_values = [],
      nd_children = map (child_at parent child left right) [from..<to + 1]\<rparr>"

definition rewrite_parent :: "node \<Rightarrow> nat \<Rightarrow> branch \<Rightarrow> branch tree_op" where
  "rewrite_parent parent child branch ts =
     (let gen = tx_generation (fst ts) in
      case branch of
        One at \<Rightarrow>
          and_then (write_new (parent\<lparr>nd_generation := gen, nd_children := (nd_children parent)[child := at]\<rparr>))
            (\<lambda>at. ok (One at)) ts
      | Split left separator right \<Rightarrow>
          let count = nd_len parent + 1 in
          if count \<le> CAPACITY then
            and_then (write_new (inner_fill parent child left separator right gen 0 count)) (\<lambda>at. ok (One at)) ts
          else
            let middle = count div 2;
                left_node = inner_fill parent child left separator right gen 0 middle;
                right_node = inner_fill parent child left separator right gen (middle + 1) count;
                rising = spliced child separator (nd_keys parent) middle
            in and_then (write_new left_node) (\<lambda>left_at.
               and_then (write_new right_node) (\<lambda>right_at.
               ok (Split left_at rising right_at))) ts)"

section \<open>Insertion\<close>

text \<open>The descent stops at the seventh inner node, so the room left bounds it.\<close>

fun insert_down :: "nat \<Rightarrow> path \<Rightarrow> nat \<Rightarrow> key \<Rightarrow> (store, fs_error, path \<times> nat \<times> node) eff" where
  "insert_down room p at k =
     and_then (tree_read at) (\<lambda>n.
       if nd_level n = 0 then ok (p, at, n)
       else
         (case room of 0 \<Rightarrow> fail FsFull
          | Suc room \<Rightarrow> (let child = node_upper n k in insert_down room ((at, child) # p) (nd_children n ! child) k)))"

declare insert_down.simps [simp del]

fun insert_up :: "path \<Rightarrow> branch \<Rightarrow> branch tree_op" where
  "insert_up [] branch = ok branch"
| "insert_up ((parent_at, child) # p) branch =
     and_then (on_store (tree_read parent_at)) (\<lambda>parent.
     and_then (rewrite_parent parent child branch) (\<lambda>branch.
     and_then (modify (tree_release parent_at)) (\<lambda>_.
     insert_up p branch)))"

definition set_root :: "nat \<Rightarrow> unit tree_op" where
  "set_root at = modify (\<lambda>(t, s). (t\<lparr>tx_root := at\<rparr>, s))"

definition raise_root :: "branch \<Rightarrow> unit tree_op" where
  "raise_root branch ts =
     (case branch of
        One at \<Rightarrow> set_root at ts
      | Split left separator right \<Rightarrow>
          and_then (on_store (tree_read left)) (\<lambda>n ts.
          and_then (write_new \<lparr>nd_level = nd_level n + 1, nd_generation = tx_generation (fst ts),
                               nd_keys = [separator], nd_values = [], nd_children = [left, right]\<rparr>) set_root ts) ts)"

definition tree_insert :: "key \<Rightarrow> byte list \<Rightarrow> unit tree_op" where
  "tree_insert k v ts =
     (if tx_root (fst ts) = 0 then
        and_then (write_new \<lparr>nd_level = 0, nd_generation = tx_generation (fst ts),
                             nd_keys = [k], nd_values = [v], nd_children = []\<rparr>) set_root ts
      else
        and_then (on_store (insert_down (MAX_HEIGHT - 1) [] (tx_root (fst ts)) k)) (\<lambda>(p, leaf_at, leaf).
        and_then (insert_leaf leaf k v) (\<lambda>branch.
        and_then (modify (tree_release leaf_at)) (\<lambda>_.
        and_then (insert_up p branch) raise_root))) ts)"

section \<open>Walks over a whole tree\<close>

text \<open>
  Each step of \<open>mark\<close> takes one pending block off; a block is expanded once, into at most thirteen,
  so thirteen steps for each block of the arena and one more are enough.
\<close>

fun mark_loop :: "nat \<Rightarrow> nat list \<Rightarrow> bitmap \<Rightarrow> (store, fs_error, bitmap) eff" where
  "mark_loop steps [] bits = ok bits"
| "mark_loop 0 (at # pending) bits = fail FsDiverge"
| "mark_loop (Suc steps) (at # pending) bits = (\<lambda>s.
     let checkpoint = vl_super (st_vol s) in
     case tree_offset checkpoint at of Inl e \<Rightarrow> (Inl e, s) | Inr offset \<Rightarrow>
     if bm_get bits offset then mark_loop steps pending bits s
     else and_then (tree_read at) (\<lambda>n.
       if nd_level n > 0 then
         (if length pending + nd_len n + 1 > sp_tree_blocks checkpoint then fail FsCorrupt
          else mark_loop steps (rev (nd_children n) @ pending) (bm_set offset bits))
       else mark_loop steps pending (bm_set offset bits)) s)"

definition tree_mark :: "nat \<Rightarrow> bitmap \<Rightarrow> (store, fs_error, bitmap) eff" where
  "tree_mark root bits s =
     (if root = 0 then (Inr bits, s)
      else mark_loop (13 * sp_tree_blocks (vl_super (st_vol s)) + 1) [root] bits s)"

definition tree_begin :: "(store, fs_error, tree_tx) eff" where
  "tree_begin s =
     (let checkpoint = vl_super (st_vol s) in
      case checked_add (sp_generation checkpoint) 1 of None \<Rightarrow> (Inl FsFull, s) | Some gen \<Rightarrow>
      and_then (tree_mark (sp_tree_root checkpoint) (bm_new (sp_tree_blocks checkpoint))) (\<lambda>protected.
      and_then (case vl_prev_tree (st_vol s) of None \<Rightarrow> ok protected | Some root \<Rightarrow> tree_mark root protected) (\<lambda>protected.
      ok \<lparr>tx_root = sp_tree_root checkpoint, tx_generation = gen, tx_tree_at = sp_tree_at checkpoint,
          tx_protected = protected, tx_used = protected\<rparr>)) s)"

text \<open>
  Every step of \<open>verify\<close> takes a block that no step before it took, so the blocks of the arena and
  one more bound it.
\<close>

fun verify_loop :: "nat \<Rightarrow> super \<Rightarrow> (nat \<times> nat option) list \<Rightarrow> bitmap \<Rightarrow> (volume, fs_error, unit) eff" where
  "verify_loop steps checkpoint [] used = ok ()"
| "verify_loop 0 checkpoint (x # pending) used = fail FsDiverge"
| "verify_loop (Suc steps) checkpoint ((at, expected) # pending) used = (\<lambda>v.
     case tree_offset checkpoint at of Inl e \<Rightarrow> (Inl e, v) | Inr offset \<Rightarrow>
     if bm_get used offset then (Inl FsCorrupt, v)
     else and_then (vol_raw at) (\<lambda>block.
       case node_parse block of Inl e \<Rightarrow> fail e | Inr n \<Rightarrow>
       if nd_generation n > sp_generation checkpoint
          \<or> (at = sp_tree_root checkpoint \<and> nd_generation n \<noteq> sp_generation checkpoint) then fail FsCorrupt
       else if (case expected of None \<Rightarrow> False | Some level \<Rightarrow> level \<noteq> nd_level n) then fail FsCorrupt
       else if nd_level n > 0 then
         (if length pending + nd_len n + 1 > sp_tree_blocks checkpoint then fail FsCorrupt
          else verify_loop steps checkpoint
                 (rev (map (\<lambda>child. (child, Some (nd_level n - 1))) (nd_children n)) @ pending) (bm_set offset used))
       else verify_loop steps checkpoint pending (bm_set offset used)) v)"

definition tree_verify :: "super \<Rightarrow> (volume, fs_error, unit) eff" where
  "tree_verify checkpoint =
     (if sp_tree_root checkpoint = 0 then ok ()
      else verify_loop (sp_tree_blocks checkpoint + 1) checkpoint [(sp_tree_root checkpoint, None)]
             (bm_new (sp_tree_blocks checkpoint)))"

end
