(* ===== verification/Fs_Tree_View.thy ===== *)
theory Fs_Tree_View
  imports Fs_Tree
begin

text \<open>
  The arena as the tree sees it. \<open>node_at\<close> is the node that a block of the disk parses to; the
  invariant \<open>store_ok\<close> says that the cache holds nothing else. Reading through the cache and the
  volume's slots is then reading the arena, \<open>write_new\<close> puts a node on a block that was free, and
  \<open>tree_release\<close> gives back a block that no checkpoint protects.
\<close>

section \<open>The cache\<close>

definition cache_pairs :: "cache \<Rightarrow> (nat \<times> node) set" where
  "cache_pairs c = (\<lambda>e. (ce_block e, ce_node e)) ` set (ch_entries c)"

definition cache_wf :: "cache \<Rightarrow> bool" where
  "cache_wf c \<longleftrightarrow> length (ch_entries c) \<le> 16 \<and> ch_hand c < 16 \<and> distinct (map ce_block (ch_entries c))"

lemma cache_new_wf [simp]: "cache_wf cache_new" "cache_pairs cache_new = {}"
  by (simp_all add: cache_wf_def cache_new_def cache_pairs_def)

lemma map_update_same: "i < length xs \<Longrightarrow> f y = f (xs ! i) \<Longrightarrow> map f (xs[i := y]) = map f xs"
  by (metis list_update_id map_update nth_map)

lemma set_pairs: "cache_pairs c = set (map (\<lambda>e. (ce_block e, ce_node e)) (ch_entries c))"
  by (simp add: cache_pairs_def)

lemma cache_get_wf:
  assumes "cache_wf c" and "cache_get b c = (r, c')"
  shows "cache_wf c' \<and> cache_pairs c' = cache_pairs c \<and> (\<forall>n. r = Some n \<longrightarrow> (b, n) \<in> cache_pairs c)"
proof (cases "find_index (\<lambda>e. ce_block e = b) (ch_entries c)")
  case None
  then show ?thesis using assms by (auto simp: cache_get_def cache_wf_def cache_pairs_def)
next
  case (Some i)
  note i = find_index_SomeD [OF Some]
  let ?e = "(ch_entries c ! i)\<lparr>ce_visited := True\<rparr>"
  have c': "c' = c\<lparr>ch_entries := (ch_entries c)[i := ?e], ch_hits := ch_hits c + 1\<rparr>"
    and r: "r = Some (ce_node (ch_entries c ! i))" using assms(2) Some by (auto simp: cache_get_def)
  have "cache_wf c'" using assms(1) i map_update_same [of i "ch_entries c" ce_block ?e] by (simp add: c' cache_wf_def)
  moreover have "cache_pairs c' = cache_pairs c"
    using i map_update_same [of i "ch_entries c" "\<lambda>e. (ce_block e, ce_node e)" ?e] by (simp add: c' set_pairs del: set_map)
  moreover have "(b, ce_node (ch_entries c ! i)) \<in> cache_pairs c" using i by (force simp: cache_pairs_def)
  ultimately show ?thesis using r by simp
qed

lemma distinct_replace:
  assumes "distinct (map f xs)" and "i < length xs" and "f y \<notin> f ` set xs \<or> f y = f (xs ! i)"
  shows "distinct (map f (xs[i := y]))"
proof -
  have "distinct ((map f xs)[i := f y])"
  proof (rule distinct_list_update)
    show "f y \<notin> set (map f xs) - {map f xs ! i}" using assms by auto
  qed (use assms in auto)
  then show ?thesis by (simp add: map_update)
qed

lemma cache_evict_wf:
  assumes "cache_wf c" and "length (ch_entries c) = 16" and "b \<notin> ce_block ` set (ch_entries c)"
    and "cache_evict b n c = (r, c')"
  shows "cache_wf c' \<and> cache_pairs c' \<subseteq> insert (b, n) (cache_pairs c)"
  using assms
proof (induction b n c rule: cache_evict.induct)
  case (1 b n c)
  let ?at = "ch_hand c" and ?es = "ch_entries c"
  have at: "?at < length ?es" using 1(2,3) by (simp add: cache_wf_def)
  show ?case
  proof (cases "ce_visited (?es ! ?at)")
    case True
    let ?e = "(?es ! ?at)\<lparr>ce_visited := False\<rparr>"
    let ?c = "c\<lparr>ch_hand := (?at + 1) mod CACHE_SLOTS, ch_entries := ?es[?at := ?e]\<rparr>"
    have rec: "cache_evict b n ?c = (r, c')"
      using 1(5) at True cache_evict.simps [of b n c] by (simp add: Let_def)
    have blocks: "map ce_block (?es[?at := ?e]) = map ce_block ?es" by (rule map_update_same [OF at]) simp
    have pairs: "cache_pairs ?c = cache_pairs c"
      using map_update_same [OF at, of "\<lambda>e. (ce_block e, ce_node e)" ?e] by (simp add: set_pairs del: set_map)
    have "cache_wf ?c" using 1(2) blocks by (simp add: cache_wf_def CACHE_SLOTS_def)
    moreover have "b \<notin> ce_block ` set (ch_entries ?c)" using 1(4) arg_cong [OF blocks, of set] by simp
    ultimately show ?thesis using 1(1) [OF refl refl at True] rec 1(3) pairs by simp
  next
    case False
    let ?e = "\<lparr>ce_visited = False, ce_block = b, ce_node = n\<rparr>"
    have c': "c' = c\<lparr>ch_hand := (?at + 1) mod CACHE_SLOTS, ch_entries := ?es[?at := ?e], ch_evictions := ch_evictions c + 1\<rparr>"
      using 1(5) at False cache_evict.simps [of b n c] by (simp add: Let_def)
    have "distinct (map ce_block (?es[?at := ?e]))"
      using distinct_replace [of ce_block ?es ?at ?e] 1(2,4) at by (simp add: cache_wf_def)
    then have "cache_wf c'" using 1(2,3) by (simp add: c' cache_wf_def CACHE_SLOTS_def)
    moreover have "cache_pairs c' \<subseteq> insert (b, n) (cache_pairs c)"
      using set_update_subset_insert [of ?es ?at ?e] by (auto simp: c' cache_pairs_def)
    ultimately show ?thesis by blast
  qed
qed

lemma cache_put_wf:
  assumes "cache_wf c" and "cache_put b n c = (r, c')"
  shows "cache_wf c' \<and> cache_pairs c' \<subseteq> insert (b, n) {p \<in> cache_pairs c. fst p \<noteq> b}"
proof (cases "find_index (\<lambda>e. ce_block e = b) (ch_entries c)")
  case None
  then have fresh: "b \<notin> ce_block ` set (ch_entries c)" by (auto simp: find_index_None_iff)
  then have other: "{p \<in> cache_pairs c. fst p \<noteq> b} = cache_pairs c" by (auto simp: cache_pairs_def)
  show ?thesis
  proof (cases "length (ch_entries c) < CACHE_SLOTS")
    case True
    then show ?thesis using assms None fresh other
      by (auto simp: cache_put_def cache_wf_def cache_pairs_def CACHE_SLOTS_def)
  next
    case False
    then have "length (ch_entries c) = 16" using assms(1) by (simp add: cache_wf_def CACHE_SLOTS_def)
    then show ?thesis using cache_evict_wf [OF assms(1) _ fresh] assms(2) None False other by (simp add: cache_put_def)
  qed
next
  case (Some i)
  note i = find_index_SomeD [OF Some]
  let ?e = "(ch_entries c ! i)\<lparr>ce_visited := True, ce_node := n\<rparr>"
  have c': "c' = c\<lparr>ch_entries := (ch_entries c)[i := ?e]\<rparr>" using assms(2) Some by (auto simp: cache_put_def)
  have blocks: "map ce_block ((ch_entries c)[i := ?e]) = map ce_block (ch_entries c)"
    using map_update_same [of i "ch_entries c" ce_block ?e] i by simp
  then have wf: "cache_wf c'" using assms(1) by (simp add: c' cache_wf_def)
  have "p \<in> insert (b, n) {p \<in> cache_pairs c. fst p \<noteq> b}" if pin: "p \<in> cache_pairs c'" for p
  proof -
    obtain x where "x \<in> set ((ch_entries c)[i := ?e])" and p: "p = (ce_block x, ce_node x)"
      using pin by (auto simp: c' cache_pairs_def)
    then obtain j where j: "j < length (ch_entries c)" "((ch_entries c)[i := ?e]) ! j = x"
      by (metis in_set_conv_nth length_list_update)
    show ?thesis
    proof (cases "j = i")
      case True
      then show ?thesis using j i p by auto
    next
      case False
      then have "ce_block (ch_entries c ! j) \<noteq> b"
        using assms(1) i j(1) nth_eq_iff_index_eq [of "map ce_block (ch_entries c)" i j] by (auto simp: cache_wf_def)
      then show ?thesis using j False p by (auto simp: cache_pairs_def)
    qed
  qed
  then show ?thesis using wf by blast
qed

lemma swap_remove_eq:
  assumes "i < length xs"
  shows "swap_remove i xs = (if Suc i = length xs then take i xs else take i xs @ last xs # butlast (drop (Suc i) xs))"
proof (cases "Suc i = length xs")
  case True
  then have "xs[i := last xs] = xs" using assms by (metis diff_Suc_1 last_conv_nth length_0_conv list_update_id nat.simps(3))
  then show ?thesis using True by (simp add: swap_remove_def butlast_conv_take flip: True)
next
  case False
  then have "drop (Suc i) xs \<noteq> []" using assms by simp
  then show ?thesis using assms False by (simp add: swap_remove_def upd_conv_take_nth_drop butlast_append)
qed

lemma cache_forget_wf:
  assumes "cache_wf c" and "cache_forget b c = (r, c')"
  shows "cache_wf c' \<and> cache_pairs c' \<subseteq> {p \<in> cache_pairs c. fst p \<noteq> b}"
proof (cases "find_index (\<lambda>e. ce_block e = b) (ch_entries c)")
  case None
  then have "c' = c" using assms(2) by (simp add: cache_forget_def)
  then show ?thesis using assms(1) None by (auto simp: cache_pairs_def find_index_None_iff)
next
  case (Some i)
  note i = find_index_SomeD [OF Some]
  let ?es = "ch_entries c"
  have c': "c' = c\<lparr>ch_entries := swap_remove i ?es\<rparr>" using assms(2) Some by (auto simp: cache_forget_def)
  define a where "a = take i ?es"
  define z where "z = drop (Suc i) ?es"
  have es: "?es = a @ ?es ! i # z" using i by (simp add: a_def z_def id_take_nth_drop)
  have d: "distinct (map ce_block (a @ ?es ! i # z))" using assms(1) es by (simp add: cache_wf_def)
  have sr: "swap_remove i ?es = a @ (if z = [] then [] else last z # butlast z)"
    using i es swap_remove_eq [of i ?es] by (auto simp: a_def z_def last_drop)
  have perm: "distinct (map ce_block (last z # butlast z)) \<and> set (last z # butlast z) = set z" if nonempty: "z \<noteq> []"
  proof -
    obtain y x where "z = y @ [x]" using nonempty by (metis rev_exhaust)
    then show ?thesis using d by auto
  qed
  have len: "length (swap_remove i ?es) \<le> 16" using assms(1) by (auto simp: swap_remove_def cache_wf_def)
  have "set (swap_remove i ?es) = set a \<union> set z" using sr perm by (cases "z = []") auto
  moreover have "distinct (map ce_block (swap_remove i ?es))"
  proof (cases "z = []")
    case False
    have "distinct (map ce_block (a @ l))" if "distinct (map ce_block l)" and "set l = set z" for l
      using that d by auto
    then have "distinct (map ce_block (a @ last z # butlast z))" using perm [OF False] by blast
    then show ?thesis using sr False by simp
  qed (use sr d in simp)
  moreover have "b \<notin> ce_block ` (set a \<union> set z)" using d i by auto
  moreover have "set a \<union> set z \<subseteq> set ?es" using set_take_subset set_drop_subset by (auto simp: a_def z_def dest: in_set_takeD in_set_dropD)
  ultimately show ?thesis using assms(1) len by (auto simp: c' cache_wf_def cache_pairs_def)
qed

section \<open>The arena\<close>

type_synonym node_arena = "nat \<Rightarrow> node option"

definition coherent :: "cache \<Rightarrow> node_arena \<Rightarrow> bool" where
  "coherent c V \<longleftrightarrow> (\<forall>p \<in> cache_pairs c. V (fst p) = Some (snd p))"

lemma coherent_get: "cache_wf c \<Longrightarrow> cache_get b c = (r, c') \<Longrightarrow> coherent c' V \<longleftrightarrow> coherent c V"
  using cache_get_wf [of c b r c'] by (simp add: coherent_def)

lemma coherent_put: "cache_wf c \<Longrightarrow> cache_put b n c = (r, c') \<Longrightarrow> coherent c V \<Longrightarrow> coherent c' (V(b \<mapsto> n))"
  unfolding coherent_def by (drule (1) cache_put_wf) fastforce

lemma coherent_forget: "cache_wf c \<Longrightarrow> cache_forget b c = (r, c') \<Longrightarrow> coherent c V \<Longrightarrow> coherent c' V"
  unfolding coherent_def by (drule (1) cache_forget_wf) blast

definition in_arena :: "super \<Rightarrow> nat \<Rightarrow> bool" where
  "in_arena sp at \<longleftrightarrow> sp_tree_at sp \<le> at \<and> at < sp_tree_at sp + sp_tree_blocks sp"

definition node_at :: "store \<Rightarrow> node_arena" where
  "node_at s at =
     (if in_arena (vl_super (st_vol s)) at then
        (case node_parse (disk_block (vl_disk (st_vol s)) at) of Inl _ \<Rightarrow> None | Inr n \<Rightarrow> Some n)
      else None)"

definition arena_fits :: "super \<Rightarrow> bool" where
  "arena_fits sp \<longleftrightarrow> sp_tree_at sp + sp_tree_blocks sp \<le> sp_blocks sp \<and> 0 < sp_tree_at sp \<and> sp_tree_blocks sp \<le> 2 ^ 16"

definition store_ok :: "store \<Rightarrow> bool" where
  "store_ok s \<longleftrightarrow> vol_ok (st_vol s) \<and> arena_fits (vl_super (st_vol s)) \<and> cache_wf (st_cache s)
     \<and> coherent (st_cache s) (node_at s)"

definition store_same :: "store \<Rightarrow> store \<Rightarrow> bool" where
  "store_same s s' \<longleftrightarrow> vol_same (st_vol s) (st_vol s') \<and> (store_ok s \<longrightarrow> store_ok s')"

lemma store_same_refl [simp]: "store_same s s"
  by (simp add: store_same_def)

lemma store_same_trans [trans]: "store_same a b \<Longrightarrow> store_same b c \<Longrightarrow> store_same a c"
  by (auto simp: store_same_def intro: vol_same_trans)

lemma node_at_vol_same: "vol_same (st_vol s) (st_vol s') \<Longrightarrow> node_at s' = node_at s"
  by (rule ext) (simp add: node_at_def vol_same_fields)

lemma store_sameD:
  assumes "store_same s s'"
  shows "node_at s' = node_at s" "store_ok s \<Longrightarrow> store_ok s'" "vl_super (st_vol s') = vl_super (st_vol s)"
    "vl_disk (st_vol s') = vl_disk (st_vol s)" "vol_meta (st_vol s) (st_vol s')"
  using assms node_at_vol_same [of s s'] vol_same_fields [of "st_vol s" "st_vol s'"] vol_same_meta
  by (auto simp: store_same_def)

lemma tree_offset_Inr: "arena_fits sp \<Longrightarrow> tree_offset sp at = (if in_arena sp at then Inr (at - sp_tree_at sp) else Inl FsCorrupt)"
  by (auto simp: tree_offset_def in_arena_def arena_fits_def Let_def)

lemma node_at_in_arena: "node_at s at = Some n \<Longrightarrow> in_arena (vl_super (st_vol s)) at"
  by (simp add: node_at_def split: if_splits)

lemma arena_block:
  "store_ok s \<Longrightarrow> in_arena (vl_super (st_vol s)) at \<Longrightarrow> at < sp_blocks (vl_super (st_vol s))"
  by (auto simp: store_ok_def arena_fits_def in_arena_def)

lemma disk_block_length:
  "vol_ok v \<Longrightarrow> i < sp_blocks (vl_super v) \<Longrightarrow> length (disk_block (vl_disk v) i) = 4096"
  using vol_block_fits(1) [of v i] by (simp add: disk_block_def sub_slice_def)

lemma node_at_wf: "store_ok s \<Longrightarrow> node_at s at = Some n \<Longrightarrow> node_wf n"
  using node_parse_wf [of "disk_block (vl_disk (st_vol s)) at" n] disk_block_length [of "st_vol s" at] arena_block [of s at]
  by (auto simp: node_at_def store_ok_def split: if_splits sum.splits)

lemma tree_keep_ok:
  assumes "store_ok s" and "node_at s at = Some n"
  shows "store_same s (tree_keep at n s)"
proof -
  obtain r c where c: "cache_put at n (st_cache s) = (r, c)" by fastforce
  note put = cache_put_wf [OF _ c]
  have "node_at (tree_keep at n s) = node_at s" by (rule node_at_vol_same) (simp add: tree_keep_def)
  then have "store_ok (tree_keep at n s)"
    using assms put coherent_put [OF _ c, of "node_at s"] by (simp add: store_ok_def tree_keep_def c fun_upd_idem)
  then show ?thesis by (simp add: store_same_def tree_keep_def)
qed

lemma tree_read_ok:
  assumes "store_ok s" and "node_at s at = Some n"
  obtains s' where "tree_read at s = (Inr n, s')" and "store_same s s'"
proof -
  have arena: "in_arena (vl_super (st_vol s)) at" using node_at_in_arena [OF assms(2)] .
  obtain r c where c: "cache_get at (st_cache s) = (r, c)" by fastforce
  note get = cache_get_wf [OF _ c]
  have same: "store_same s (s\<lparr>st_cache := c\<rparr>)"
  proof -
    have "node_at (s\<lparr>st_cache := c\<rparr>) = node_at s" by (rule node_at_vol_same) simp
    then show ?thesis using get coherent_get [OF _ c] by (simp add: store_same_def store_ok_def)
  qed
  have offset: "tree_offset (vl_super (st_vol s)) at = Inr (at - sp_tree_at (vl_super (st_vol s)))"
    using assms(1) arena tree_offset_Inr by (simp add: store_ok_def)
  show ?thesis
  proof (cases r)
    case (Some m)
    then have "m = n" using get assms by (force simp: store_ok_def coherent_def)
    then show ?thesis using that same Some c offset by (simp add: tree_read_def)
  next
    case None
    obtain v where v: "vol_block at (st_vol s) = (Inr (disk_block (vl_disk (st_vol s)) at), v)" "vol_same (st_vol s) v" "vol_ok v"
      using vol_block_ok [of "st_vol s" at] assms(1) arena_block [OF assms(1) arena] by (auto simp: store_ok_def)
    have parse: "node_parse (disk_block (vl_disk (st_vol s)) at) = Inr n"
      using assms(2) by (auto simp: node_at_def split: if_splits sum.splits)
    let ?s = "s\<lparr>st_vol := v, st_cache := c\<rparr>"
    have view: "node_at ?s = node_at s" by (rule node_at_vol_same) (simp add: v)
    have "store_ok ?s"
      using assms(1) get v vol_same_fields(2) [OF v(2)] view coherent_get [OF _ c] by (simp add: store_ok_def)
    then have step: "store_same s ?s" using v by (simp add: store_same_def)
    have "store_same ?s (tree_keep at n ?s)" using tree_keep_ok \<open>store_ok ?s\<close> view assms(2) by metis
    then have "store_same s (tree_keep at n ?s)" by (rule store_same_trans [OF step])
    then show ?thesis using that None c offset v parse by (simp add: tree_read_def)
  qed
qed

section \<open>Taking and giving back blocks\<close>

text \<open>The free blocks are the offsets clear in \<open>used\<close>; what is protected is used.\<close>

definition used_blocks :: "tree_tx \<Rightarrow> nat set" where
  "used_blocks t = {tx_tree_at t + i | i. i < bm_bits (tx_used t) \<and> bm_get (tx_used t) i}"

definition protected_blocks :: "tree_tx \<Rightarrow> nat set" where
  "protected_blocks t = {tx_tree_at t + i | i. i < bm_bits (tx_used t) \<and> bm_get (tx_protected t) i}"

definition tx_ok :: "tree_tx \<Rightarrow> store \<Rightarrow> bool" where
  "tx_ok t s \<longleftrightarrow> store_ok s \<and> bm_ok (tx_used t) \<and> bm_bits (tx_used t) = sp_tree_blocks (vl_super (st_vol s))
     \<and> tx_tree_at t = sp_tree_at (vl_super (st_vol s)) \<and> tx_generation t < 2 ^ 64
     \<and> protected_blocks t \<subseteq> used_blocks t"

lemma tx_ok_store: "tx_ok t s \<Longrightarrow> store_ok s"
  by (simp add: tx_ok_def)

lemma tx_ok_same: "tx_ok t s \<Longrightarrow> store_same s s' \<Longrightarrow> tx_ok t s'"
  using store_sameD [of s s'] by (simp add: tx_ok_def)

definition tx_kept :: "tree_tx \<Rightarrow> tree_tx \<Rightarrow> bool" where
  "tx_kept t t' \<longleftrightarrow> tx_generation t' = tx_generation t \<and> tx_tree_at t' = tx_tree_at t \<and> tx_protected t' = tx_protected t
     \<and> bm_bits (tx_used t') = bm_bits (tx_used t)"

lemma tx_kept_refl [simp]: "tx_kept t t"
  by (simp add: tx_kept_def)

lemma tx_kept_trans [trans]: "tx_kept a b \<Longrightarrow> tx_kept b c \<Longrightarrow> tx_kept a c"
  by (simp add: tx_kept_def)

lemma tx_kept_protected: "tx_kept t t' \<Longrightarrow> protected_blocks t' = protected_blocks t"
  by (simp add: tx_kept_def protected_blocks_def)

lemma used_blocks_set:
  "bm_ok (tx_used t) \<Longrightarrow> i < bm_bits (tx_used t) \<Longrightarrow>
   used_blocks (t\<lparr>tx_used := bm_set i (tx_used t)\<rparr>) = insert (tx_tree_at t + i) (used_blocks t)"
  by (auto simp: used_blocks_def bm_get_set)

lemma used_blocks_clear:
  "used_blocks (t\<lparr>tx_used := bm_clear i (tx_used t)\<rparr>) = used_blocks t - {tx_tree_at t + i}"
  by (auto simp: used_blocks_def bm_get_clear)

text \<open>
  What every step of a mutation keeps: the durable image, the blocks outside the arena and the
  blocks a checkpoint protects.
\<close>

definition tx_frame :: "tree_tx \<times> store \<Rightarrow> tree_tx \<times> store \<Rightarrow> bool" where
  "tx_frame a b \<longleftrightarrow> tx_ok (fst b) (snd b) \<and> tx_kept (fst a) (fst b) \<and> vol_meta (st_vol (snd a)) (st_vol (snd b))
     \<and> flt_stable (vl_disk (st_vol (snd b))) = flt_stable (vl_disk (st_vol (snd a)))
     \<and> length (flt_volatile (vl_disk (st_vol (snd b)))) = length (flt_volatile (vl_disk (st_vol (snd a))))
     \<and> (powered (vl_disk (st_vol (snd a))) \<longrightarrow> powered (vl_disk (st_vol (snd b))))
     \<and> (\<forall>x. x \<in> protected_blocks (fst a) \<or> \<not> in_arena (vl_super (st_vol (snd a))) x
          \<longrightarrow> disk_block (vl_disk (st_vol (snd b))) x = disk_block (vl_disk (st_vol (snd a))) x)"

lemma tx_frame_refl: "tx_ok t s \<Longrightarrow> tx_frame (t, s) (t, s)"
  by (simp add: tx_frame_def)

lemma tx_frame_trans: "tx_frame a b \<Longrightarrow> tx_frame b c \<Longrightarrow> tx_frame a c"
  using tx_kept_protected [of "fst a" "fst b"] tx_kept_trans vol_meta_trans
  by (auto simp: tx_frame_def vol_meta_def tx_kept_def)

lemma tx_frame_same: "tx_ok t s \<Longrightarrow> store_same s s' \<Longrightarrow> tx_frame (t, s) (t, s')"
  using store_sameD [of s s'] tx_ok_same by (simp add: tx_frame_def)

lemma tx_frame_ok: "tx_frame a (t, s) \<Longrightarrow> tx_ok t s"
  by (simp add: tx_frame_def)

lemma tx_frame_arena: "tx_frame a b \<Longrightarrow> in_arena (vl_super (st_vol (snd b))) = in_arena (vl_super (st_vol (snd a)))"
  by (simp add: tx_frame_def vol_meta_def)

text \<open>The blocks left, and why a mutation that needs up to so many of them is refused.\<close>

definition spare :: "tree_tx \<Rightarrow> nat" where
  "spare t = bm_bits (tx_used t) - card (used_blocks t)"

definition short :: "nat \<Rightarrow> tree_tx \<times> store \<Rightarrow> fs_error \<Rightarrow> bool" where
  "short n ts e \<longleftrightarrow> (e = FsFull \<or> (\<exists>d. e = FsDevice d)) \<and> (powered (vl_disk (st_vol (snd ts))) \<longrightarrow> spare (fst ts) < n)"

lemma used_blocks_image: "used_blocks t = (\<lambda>i. tx_tree_at t + i) ` {i. i < bm_bits (tx_used t) \<and> bm_get (tx_used t) i}"
  by (auto simp: used_blocks_def)

lemma used_blocks_finite [simp]: "finite (used_blocks t)"
  by (simp add: used_blocks_image)

lemma spare_used:
  assumes "tx_kept t t'" and "used_blocks t' \<subseteq> used_blocks t \<union> new" and "finite new"
  shows "spare t \<le> spare t' + card new"
proof -
  have "card (used_blocks t') \<le> card (used_blocks t) + card new"
    using card_mono [OF _ assms(2)] card_Un_le [of "used_blocks t" new] assms(3) by (meson finite_UnI order_trans used_blocks_finite)
  then show ?thesis using assms(1) by (simp add: spare_def tx_kept_def)
qed

lemma short_trans:
  assumes "tx_frame a b" and "spare (fst a) \<le> spare (fst b) + m" and "short n b e" and "n + m \<le> k"
  shows "short k a e"
  using assms by (auto simp: short_def tx_frame_def)

text \<open>
  What \<open>write_new\<close> does: it fails only when no block is free or the device refuses, and then the
  arena is as before; otherwise one block that was free holds the node, and no other block changes.
\<close>

lemma write_new_cases:
  assumes "tx_ok t s" and "node_wf n"
  obtains (refused) e t' s' where "write_new n (t, s) = (Inl e, (t', s'))" "tx_frame (t, s) (t', s')" "short 1 (t, s) e"
  | (ok) at t' s' where "write_new n (t, s) = (Inr at, (t', s'))" "tx_frame (t, s) (t', s')" "tx_root t' = tx_root t"
      "at \<notin> used_blocks t" "used_blocks t' = insert at (used_blocks t)" "in_arena (vl_super (st_vol s)) at"
      "node_at s' = (node_at s)(at \<mapsto> n)"
proof (cases "bm_first_clear (tx_used t)")
  case None
  then have "{i. i < bm_bits (tx_used t) \<and> bm_get (tx_used t) i} = {..< bm_bits (tx_used t)}"
    using bm_first_clear_None [of "tx_used t"] assms(1) by (auto simp: tx_ok_def)
  then have "spare t = 0" by (simp add: spare_def used_blocks_image card_image)
  then show ?thesis using None refused [of FsFull t s] tx_frame_refl [OF assms(1)] by (simp add: write_new_def Let_def short_def)
next
  case (Some i)
  note clear = bm_first_clear_Some [OF Some]
  let ?sp = "vl_super (st_vol s)" and ?t = "t\<lparr>tx_used := bm_set i (tx_used t)\<rparr>"
  let ?at = "sp_tree_at ?sp + i"
  have ok: "store_ok s" "bm_ok (tx_used t)" "bm_bits (tx_used t) = sp_tree_blocks ?sp" "tx_tree_at t = sp_tree_at ?sp"
    using assms(1) by (auto simp: tx_ok_def)
  have arena: "in_arena ?sp ?at" using clear ok by (simp add: in_arena_def)
  have used: "used_blocks ?t = insert ?at (used_blocks t)" using used_blocks_set ok clear by simp
  have fresh: "?at \<notin> used_blocks t" using clear ok(4) by (auto simp: used_blocks_def)
  have prot: "protected_blocks ?t = protected_blocks t" by (simp add: protected_blocks_def)
  have kept: "tx_kept t ?t" by (simp add: tx_kept_def)
  obtain r v where wr: "write_tree_block ?at (node_encode n) (st_vol s) = (r, v)" by fastforce
  have w: "vol_ok v" "vol_meta (st_vol s) v" "\<exists>d. fault_write (?at * 8) (node_encode n) (vl_disk (st_vol s)) = (d, vl_disk v) \<and> isl d = isl r"
    and blocks: "\<And>j. disk_block (vl_disk v) j = (if j = ?at \<and> \<not> isl r then node_encode n else disk_block (vl_disk (st_vol s)) j)"
    using write_tree_block_ok [OF _ _ _ _ node_encode_length [OF assms(2)] wr] ok(1) arena
    by (auto simp: store_ok_def arena_fits_def in_arena_def)
  have sp: "vl_super v = ?sp" using w(2) by (simp add: vol_meta_def)
  have stable: "flt_stable (vl_disk v) = flt_stable (vl_disk (st_vol s))" using w(3) fault_write_stable by auto
  have len: "length (flt_volatile (vl_disk v)) = length (flt_volatile (vl_disk (st_vol s)))" using w(3) fault_write_length by auto
  have power: "powered (vl_disk v)" "\<not> isl r" if "powered (vl_disk (st_vol s))"
  proof -
    have "?at < sp_blocks ?sp" "vol_ok (st_vol s)" using ok(1) arena by (auto simp: store_ok_def arena_fits_def in_arena_def)
    then have "?at * 8 * 512 + length (node_encode n) \<le> length (flt_volatile (vl_disk (st_vol s)))" "length (flt_volatile (vl_disk (st_vol s))) < 2 ^ 64"
      using vol_block_fits(1) [of "st_vol s" ?at] node_encode_length [OF assms(2)] by (simp_all add: vol_ok_def mult.assoc)
    moreover obtain d where "fault_write (?at * 8) (node_encode n) (vl_disk (st_vol s)) = (d, vl_disk v)" "isl d = isl r" using w(3) by blast
    ultimately show "powered (vl_disk v)" "\<not> isl r"
      using powered_write [OF that] node_encode_length [OF assms(2)] by fastforce+
  qed
  have others: "disk_block (vl_disk v) x = disk_block (vl_disk (st_vol s)) x"
    if "x \<in> protected_blocks t \<or> \<not> in_arena ?sp x" for x
    using that blocks [of x] fresh arena assms(1) by (auto simp: tx_ok_def)
  show ?thesis
  proof (cases r)
    case (Inl e)
    let ?s = "s\<lparr>st_vol := v\<rparr>"
    have view: "node_at ?s = node_at s" using blocks Inl by (intro ext) (simp add: node_at_def sp)
    have "store_ok ?s" using ok(1) w(1) sp view by (simp add: store_ok_def)
    then have "tx_ok ?t ?s" using assms(1) ok(2) sp used prot by (auto simp: tx_ok_def)
    then have frame: "tx_frame (t, s) (?t, ?s)" using kept w(2) stable len power(1) others by (simp add: tx_frame_def)
    have "\<exists>d. e = FsDevice d" using wr Inl arena ok(1) w(1)
      by (auto simp: write_tree_block_def vol_aside_def Let_def in_arena_def store_ok_def arena_fits_def
          checked_add_def checked_mul_def vol_ok_def sp split: if_splits option.splits sum.splits prod.splits)
    moreover have "write_new n (t, s) = (Inl e, (?t, ?s))" using Some wr Inl by (simp add: write_new_def Let_def)
    ultimately show ?thesis using refused [of e ?t ?s] frame power(2) Inl by (auto simp: short_def)
  next
    case (Inr u)
    let ?s = "s\<lparr>st_vol := v, st_cache := snd (cache_put ?at n (st_cache s))\<rparr>"
    have view: "node_at ?s = (node_at s)(?at \<mapsto> n)"
      using blocks Inr arena node_parse_encode [OF assms(2)] by (intro ext) (auto simp: node_at_def sp)
    obtain q c where c: "cache_put ?at n (st_cache s) = (q, c)" by fastforce
    have "store_ok ?s" using ok(1) w sp cache_put_wf [OF _ c] coherent_put [OF _ c, of "node_at s"] view by (simp add: store_ok_def c)
    then have "tx_ok ?t ?s" using assms(1) ok(2) sp used prot by (auto simp: tx_ok_def)
    then have frame: "tx_frame (t, s) (?t, ?s)" using kept w(2) stable len power(1) others by (simp add: tx_frame_def)
    have "write_new n (t, s) = (Inr ?at, (?t, ?s))"
      using Some wr Inr by (simp add: write_new_def tree_keep_def Let_def)
    then show ?thesis using that(2) [of ?at ?t ?s] frame used fresh arena view by simp
  qed
qed

lemma tree_release_ok:
  assumes "tx_ok t s" and "in_arena (vl_super (st_vol s)) at"
  obtains t' s' where "tree_release at (t, s) = (t', s')" and "tx_frame (t, s) (t', s')" and "tx_root t' = tx_root t"
    and "node_at s' = node_at s" and "used_blocks t' = used_blocks t - ({at} - protected_blocks t)"
proof -
  let ?sp = "vl_super (st_vol s)" and ?i = "at - tx_tree_at t"
  let ?t = "t\<lparr>tx_used := bm_clear ?i (tx_used t)\<rparr>" and ?s = "s\<lparr>st_cache := snd (cache_forget at (st_cache s))\<rparr>"
  have ok: "store_ok s" "bm_bits (tx_used t) = sp_tree_blocks ?sp" "tx_tree_at t = sp_tree_at ?sp" "sp_tree_blocks ?sp \<le> 2 ^ 16"
    using assms(1) by (auto simp: tx_ok_def store_ok_def arena_fits_def)
  have i: "at = tx_tree_at t + ?i" "?i < bm_bits (tx_used t)" "?i < 2 ^ 32"
    using assms(2) ok(2-4) by (auto simp: in_arena_def)
  have rel: "tree_release at (t, s) = (if \<not> bm_get (tx_protected t) ?i \<and> bm_get (tx_used t) ?i then (?t, ?s) else (t, s))"
    using i by (simp add: tree_release_def Let_def)
  have prot: "at \<in> protected_blocks t \<longleftrightarrow> bm_get (tx_protected t) ?i"
    and used: "at \<in> used_blocks t \<longleftrightarrow> bm_get (tx_used t) ?i"
    using i by (auto simp: protected_blocks_def used_blocks_def)
  show ?thesis
  proof (cases "\<not> bm_get (tx_protected t) ?i \<and> bm_get (tx_used t) ?i")
    case True
    obtain q c where c: "cache_forget at (st_cache s) = (q, c)" by fastforce
    have view: "node_at ?s = node_at s" by (rule node_at_vol_same) simp
    have "store_ok ?s" using ok(1) cache_forget_wf [OF _ c] coherent_forget [OF _ c, of "node_at s"] view by (simp add: store_ok_def c)
    moreover have u: "used_blocks ?t = used_blocks t - {at}" using used_blocks_clear [where t = t and i = ?i] i(1) by simp
    moreover have "protected_blocks ?t = protected_blocks t" by (simp add: protected_blocks_def)
    ultimately have "tx_ok ?t ?s" using assms(1) prot True by (auto simp: tx_ok_def)
    then have "tx_frame (t, s) (?t, ?s)" by (simp add: tx_frame_def tx_kept_def)
    then show ?thesis using that [of ?t ?s] rel True view u prot by auto
  next
    case False
    then have "used_blocks t - ({at} - protected_blocks t) = used_blocks t" using prot used by auto
    then show ?thesis using that [of t s] rel False tx_frame_refl [OF assms(1)] by simp
  qed
qed

section \<open>A small store\<close>

text \<open>
  A volume of 32 blocks whose arena of eight holds one leaf in its second block: a root directory
  with one empty file.
\<close>

definition sample_kvs :: "(key \<times> byte list) list" where
  "sample_kvs =
     [(KObject 0, value_object \<lparr>ob_kind = KDir, ob_count = 1, ob_size = 0\<rparr>),
      (KObject 1, value_object \<lparr>ob_kind = KFile, ob_count = 0, ob_size = 0\<rparr>),
      (KDirent 0 [97], value_dirent 1)]"

definition sample_leaf :: node where
  "sample_leaf =
     \<lparr>nd_level = 0, nd_generation = 7, nd_keys = map fst sample_kvs, nd_values = map snd sample_kvs, nd_children = []\<rparr>"

definition sample_disk :: faulty where
  "sample_disk =
     (let image = super_encode sample_super (replicate 4096 0) @ replicate (2 * 4096) 0
            @ node_encode sample_leaf @ replicate (92 * 4096) 0 in
      \<lparr>flt_stable = image, flt_volatile = image, flt_cut = None, flt_steps = 0, flt_failed = False\<rparr>)"

definition sample_store :: store where
  "sample_store =
     \<lparr>st_vol = \<lparr>vl_disk = sample_disk, vl_sectors = 768, vl_slots = [], vl_hand = 0, vl_super = sample_super,
                vl_active = 0, vl_prev_log = None, vl_prev_tree = None\<rparr>,
      st_cache = cache_new\<rparr>"

lemma sample_leaf_wf: "node_wf sample_leaf"
  by (simp add: node_wf_def sample_leaf_def sample_kvs_def name_wf_iff less_key_def less_prod_simp)

lemma sample_blocks:
  "disk_block sample_disk 0 = super_encode sample_super (replicate 4096 0)" "disk_block sample_disk 3 = node_encode sample_leaf"
  "disk_block sample_disk 1 = replicate 4096 0" "length (flt_volatile sample_disk) = 96 * 4096"
  using node_encode_length [OF sample_leaf_wf] super_encode_length [of "replicate 4096 0" sample_super]
  by (simp_all add: sample_disk_def Let_def disk_block_def sub_slice_def)

lemma sample_node: "node_at sample_store 3 = Some sample_leaf"
  using node_parse_encode [OF sample_leaf_wf] sample_blocks(2)
  by (simp add: node_at_def sample_store_def in_arena_def sample_super_def)

lemma sample_store_ok: "store_ok sample_store"
  using sample_blocks(4)
  by (simp add: store_ok_def coherent_def vol_ok_def sample_store_def sample_super_def arena_fits_def)

end
