(* ===== verification/Fs_Tree_Lookup.thy ===== *)
theory Fs_Tree_Lookup
  imports Fs_Tree_View
begin

text \<open>
  What a tree in the arena holds, and that lookups find it. \<open>tree_kvs\<close> lists the entries below a
  block in key order and \<open>tree_ok\<close> says that the nodes below it are well formed, one level lower
  each and at least half full, with separators that part the entries of neighbouring children.
\<close>

section \<open>Trees\<close>

fun tree_kvs :: "node_arena \<Rightarrow> nat \<Rightarrow> nat \<Rightarrow> (key \<times> byte list) list" where
  "tree_kvs V 0 at = (case V at of None \<Rightarrow> [] | Some n \<Rightarrow> zip (nd_keys n) (nd_values n))"
| "tree_kvs V (Suc l) at = (case V at of None \<Rightarrow> [] | Some n \<Rightarrow> concat (map (tree_kvs V l) (nd_children n)))"

fun tree_blocks :: "node_arena \<Rightarrow> nat \<Rightarrow> nat \<Rightarrow> nat list" where
  "tree_blocks V 0 at = [at]"
| "tree_blocks V (Suc l) at = at # (case V at of None \<Rightarrow> [] | Some n \<Rightarrow> concat (map (tree_blocks V l) (nd_children n)))"

fun parted :: "key list \<Rightarrow> (key \<times> byte list) list list \<Rightarrow> bool" where
  "parted [] [xs] = True"
| "parted (k # ks) (xs # xss) =
     ((\<forall>x \<in> set xs. fst x < k) \<and> (\<forall>ys \<in> set xss. \<forall>y \<in> set ys. k \<le> fst y) \<and> parted ks xss)"
| "parted _ _ = False"

text \<open>Splits leave six keys or more in each half, so every node below a root is at least half full.\<close>

definition filled :: "node_arena \<Rightarrow> nat \<Rightarrow> bool" where
  "filled V at \<longleftrightarrow> (\<exists>n. V at = Some n \<and> 6 \<le> nd_len n)"

fun tree_ok :: "node_arena \<Rightarrow> nat \<Rightarrow> nat \<Rightarrow> bool" where
  "tree_ok V 0 at = (\<exists>n. V at = Some n \<and> node_wf n \<and> nd_level n = 0)"
| "tree_ok V (Suc l) at =
     (\<exists>n. V at = Some n \<and> node_wf n \<and> nd_level n = Suc l \<and> (\<forall>c \<in> set (nd_children n). tree_ok V l c \<and> filled V c)
        \<and> parted (nd_keys n) (map (tree_kvs V l) (nd_children n)))"

lemma parted_length: "parted ks xss \<Longrightarrow> length xss = length ks + 1"
  by (induction ks xss rule: parted.induct) simp_all

lemma parted_child:
  "parted ks xss \<Longrightarrow> partition_point P ks < length xss"
  using parted_length [of ks xss] partition_point_le [of P ks] by simp

text \<open>Sorted lists of entries.\<close>

abbreviation kv_sorted :: "(key \<times> byte list) list \<Rightarrow> bool" where
  "kv_sorted kvs \<equiv> sorted_wrt (<) (map fst kvs)"

lemma parted_sorted: "parted ks xss \<Longrightarrow> \<forall>xs \<in> set xss. kv_sorted xs \<Longrightarrow> kv_sorted (concat xss)"
proof (induction ks xss rule: parted.induct)
  case (2 k ks xs xss)
  then have "fst x < fst y" if "x \<in> set xs" "y \<in> set (concat xss)" for x y
    using that by (fastforce intro: less_le_trans)
  then have "\<forall>a \<in> fst ` set xs. \<forall>b \<in> fst ` set (concat xss). a < b" by blast
  then show ?case using 2 by (simp only: concat.simps map_append sorted_wrt_append set_map) simp
qed simp_all

lemma tree_kvs_sorted: "tree_ok V l at \<Longrightarrow> kv_sorted (tree_kvs V l at)"
proof (induction V l at rule: tree_ok.induct)
  case (1 V at)
  then show ?case by (auto simp: node_wf_def)
next
  case (2 V l at)
  then obtain n where n: "V at = Some n" "\<forall>c \<in> set (nd_children n). tree_ok V l c"
    "parted (nd_keys n) (map (tree_kvs V l) (nd_children n))" by auto
  then show ?case using 2(1) parted_sorted [OF n(3)] by auto
qed

lemma tree_kvs_nonempty: "tree_ok V l at \<Longrightarrow> tree_kvs V l at \<noteq> []"
proof (induction V l at rule: tree_ok.induct)
  case (1 V at)
  then show ?case by (auto simp: node_wf_def)
next
  case (2 V l at)
  then obtain n where n: "V at = Some n" "\<forall>c \<in> set (nd_children n). tree_ok V l c" "node_wf n" "nd_level n = Suc l" by auto
  then have "nd_children n ! 0 \<in> set (nd_children n)" by (auto simp: node_wf_def)
  then show ?case using n 2(1) by (auto simp: concat_eq_Nil_conv)
qed

lemma node_wf_children: "node_wf n \<Longrightarrow> 0 < nd_level n \<Longrightarrow> length (nd_children n) = nd_len n + 1"
  by (simp add: node_wf_def)

lemma node_wf_sorted: "node_wf n \<Longrightarrow> sorted_wrt (<) (nd_keys n)"
  by (simp add: node_wf_def)

section \<open>The child that holds a key\<close>

lemma map_of_low: "\<forall>x \<in> set xs. fst x < k' \<Longrightarrow> k' \<le> (k :: key) \<Longrightarrow> map_of xs k = None"
  by (subst map_of_eq_None_iff) (auto dest!: bspec dest: leD)

lemma map_of_high: "\<forall>ys \<in> set xss. \<forall>y \<in> set ys. k' \<le> fst y \<Longrightarrow> (k :: key) < k' \<Longrightarrow> map_of (concat xss) k = None"
  by (subst map_of_eq_None_iff) (auto dest!: bspec dest: leD)

lemma parted_map_of:
  "parted ks xss \<Longrightarrow> map_of (concat xss) k = map_of (xss ! partition_point (\<lambda>held. held \<le> k) ks) k"
proof (induction ks xss rule: parted.induct)
  case (2 k' ks xs xss)
  then show ?case
    using map_of_low [of xs k' k] map_of_high [of xss k' k]
    by (cases "k' \<le> k") (auto simp: partition_point_simps map_add_def split: option.splits)
qed (simp_all add: partition_point_simps)

lemma leaf_point:
  assumes "sorted_wrt (<) ks" and "partition_point (\<lambda>held. held < k) ks = i"
  shows "k \<in> set ks \<longleftrightarrow> i < length ks \<and> ks ! i = (k :: key)"
proof
  assume "k \<in> set ks"
  then obtain j where j: "j < length ks" "ks ! j = k" by (auto simp: in_set_conv_nth)
  have "i \<le> j" using j partition_point_below [of j "\<lambda>held. held < k" ks] assms(2) by (meson less_irrefl not_le_imp_less)
  moreover have "\<not> ks ! i < k" using \<open>i \<le> j\<close> j(1) partition_point_at [of "\<lambda>held. held < k" ks] assms(2) by auto
  ultimately show "i < length ks \<and> ks ! i = k"
    using j strict_sorted_nth_le [OF assms(1), of i j] by auto
qed (auto simp: in_set_conv_nth)

lemma leaf_find_map_of:
  assumes "node_wf n" and "nd_level n = 0"
  shows "leaf_find n k = map_of (zip (nd_keys n) (nd_values n)) k"
proof -
  let ?i = "partition_point (\<lambda>held. held < k) (nd_keys n)"
  have s: "sorted_wrt (<) (nd_keys n)" and len: "length (nd_values n) = nd_len n" using assms by (auto simp: node_wf_def)
  have i: "node_lower n k = ?i" using node_lower_point [OF s] .
  have d: "distinct (nd_keys n)" using s by (simp add: strict_sorted_iff)
  show ?thesis
  proof (cases "k \<in> set (nd_keys n)")
    case True
    then have "?i < nd_len n" "nd_keys n ! ?i = k" using leaf_point [OF s refl] by auto
    then show ?thesis using i len d map_of_zip_nth [of "nd_keys n" "nd_values n" ?i] by (simp add: leaf_find_def Let_def)
  next
    case False
    then have "map_of (zip (nd_keys n) (nd_values n)) k = None" using len by (auto simp: map_of_zip_is_None)
    then show ?thesis using i False leaf_point [OF s refl, of k] by (auto simp: leaf_find_def Let_def)
  qed
qed

section \<open>Lookup\<close>

lemma tree_get_from_ok:
  assumes "store_ok s" and "tree_ok (node_at s) l at" and "l < steps"
  shows "\<exists>s'. tree_get_from steps at k s = (Inr (map_of (tree_kvs (node_at s) l at) k), s') \<and> store_same s s'"
  using assms
proof (induction steps arbitrary: l at s)
  case (Suc steps)
  obtain n where n: "node_at s at = Some n" "node_wf n" "nd_level n = l" using Suc.prems(2) by (cases l) auto
  obtain s' where read: "tree_read at s = (Inr n, s')" and same: "store_same s s'" using tree_read_ok [OF Suc.prems(1) n(1)] .
  note view = store_sameD [OF same]
  show ?case
  proof (cases l)
    case 0
    then show ?thesis using read same n leaf_find_map_of [OF n(2)] by (simp add: and_then_def)
  next
    case (Suc l')
    let ?p = "partition_point (\<lambda>held. held \<le> k) (nd_keys n)"
    have kids: "\<forall>c \<in> set (nd_children n). tree_ok (node_at s) l' c" "parted (nd_keys n) (map (tree_kvs (node_at s) l') (nd_children n))"
      using Suc.prems(2) n(1) Suc by auto
    have p: "?p < length (nd_children n)" using parted_child [OF kids(2)] by simp
    have "tree_ok (node_at s') l' (nd_children n ! ?p)" using kids(1) p view(1) by simp
    then obtain s'' where "tree_get_from steps (nd_children n ! ?p) k s'
        = (Inr (map_of (tree_kvs (node_at s') l' (nd_children n ! ?p)) k), s'')" and "store_same s' s''"
      using Suc.IH [of s' l' "nd_children n ! ?p"] view(2) Suc.prems(1,3) Suc by auto
    moreover have "map_of (tree_kvs (node_at s) l at) k = map_of (tree_kvs (node_at s) l' (nd_children n ! ?p)) k"
      using parted_map_of [OF kids(2), of k] p n(1) Suc by simp
    ultimately show ?thesis
      using read n Suc node_upper_point [OF node_wf_sorted [OF n(2)], of k] store_same_trans [OF same] view(1)
      by (auto simp: and_then_def)
  qed
qed simp

section \<open>The next entry\<close>

lemma find_append: "List.find P (xs @ ys) = (case List.find P xs of None \<Rightarrow> List.find P ys | Some x \<Rightarrow> Some x)"
  by (induction xs) simp_all

definition first_of :: "'a list \<Rightarrow> 'a option" where
  "first_of xs = (case xs of [] \<Rightarrow> None | x # _ \<Rightarrow> Some x)"

lemma first_of_simps [simp]: "first_of [] = None" "first_of (x # xs) = Some x" "xs \<noteq> [] \<Longrightarrow> first_of (xs @ ys) = first_of xs"
  by (auto simp: first_of_def split: list.splits)

lemma first_of_append: "first_of (xs @ ys) = (case first_of xs of Some x \<Rightarrow> Some x | None \<Rightarrow> first_of ys)"
  by (cases xs) simp_all

lemma find_all: "\<forall>x \<in> set xs. P x \<Longrightarrow> List.find P xs = first_of xs"
  by (cases xs) auto

definition beyond :: "key \<Rightarrow> bool \<Rightarrow> key \<times> byte list \<Rightarrow> bool" where
  "beyond k inclusive x = (if inclusive then k \<le> fst x else k < fst x)"

lemma parted_find:
  "parted ks xss \<Longrightarrow>
   List.find (beyond k inclusive) (concat xss) =
     (case List.find (beyond k inclusive) (xss ! partition_point (\<lambda>held. held \<le> k) ks) of Some x \<Rightarrow> Some x
      | None \<Rightarrow> first_of (concat (drop (partition_point (\<lambda>held. held \<le> k) ks + 1) xss)))"
proof (induction ks xss rule: parted.induct)
  case (2 k' ks xs xss)
  show ?case
  proof (cases "k' \<le> k")
    case True
    have "List.find (beyond k inclusive) xs = None"
      using 2(2) True by (auto simp: find_None_iff beyond_def dest!: bspec)
    then show ?thesis using 2 True by (simp add: partition_point_simps find_append split: option.splits)
  next
    case False
    then have "\<forall>y \<in> set (concat xss). beyond k inclusive y"
      using 2(2) by (fastforce simp: beyond_def intro: less_imp_le less_le_trans)
    then have "List.find (beyond k inclusive) (concat xss) = first_of (concat xss)" by (rule find_all)
    then show ?thesis using False by (simp add: partition_point_simps find_append split: option.splits)
  qed
qed (simp_all add: partition_point_simps split: option.splits)

lemma leaf_find_next:
  assumes "node_wf n" and "nd_level n = 0"
  shows "(let index = (if inclusive then node_lower n k else node_upper n k) in
          if index < nd_len n then Some (nd_keys n ! index, nd_values n ! index) else None)
       = List.find (beyond k inclusive) (zip (nd_keys n) (nd_values n))"
proof -
  have s: "sorted_wrt (<) (nd_keys n)" and len: "length (nd_values n) = nd_len n" using assms by (auto simp: node_wf_def)
  have find: "(if partition_point Q ks < length ks then Some (ks ! partition_point Q ks, vs ! partition_point Q ks) else None)
      = List.find (\<lambda>x. \<not> Q (fst x)) (zip ks vs)" if "length vs = length ks" for Q and ks :: "key list" and vs :: "byte list list"
    using that by (induction vs ks rule: list_induct2) (auto simp: partition_point_def)
  have "(if inclusive then node_lower n k else node_upper n k)
      = partition_point (\<lambda>held. if inclusive then held < k else held \<le> k) (nd_keys n)"
    using node_lower_point [OF s] node_upper_point [OF s] by simp
  moreover have "(\<lambda>x. \<not> (if inclusive then fst x < k else fst x \<le> k)) = beyond k inclusive"
    by (rule ext) (auto simp: beyond_def)
  ultimately show ?thesis
    using find [OF len, of "\<lambda>held. if inclusive then held < k else held \<le> k"] by (simp add: Let_def)
qed

lemma leftmost_ok:
  assumes "store_ok s" and "tree_ok (node_at s) l at" and "l < steps"
  shows "\<exists>s'. leftmost steps at s = (Inr (first_of (tree_kvs (node_at s) l at)), s') \<and> store_same s s'"
  using assms
proof (induction steps arbitrary: l at s)
  case (Suc steps)
  obtain n where n: "node_at s at = Some n" "node_wf n" "nd_level n = l" using Suc.prems(2) by (cases l) auto
  obtain s' where read: "tree_read at s = (Inr n, s')" and same: "store_same s s'" using tree_read_ok [OF Suc.prems(1) n(1)] .
  note view = store_sameD [OF same]
  show ?case
  proof (cases l)
    case 0
    have "length (nd_values n) = nd_len n" "nd_keys n \<noteq> []" using n 0 by (auto simp: node_wf_def)
    then have "first_of (zip (nd_keys n) (nd_values n)) = Some (nd_keys n ! 0, nd_values n ! 0)"
      by (cases "nd_keys n"; cases "nd_values n") auto
    then show ?thesis using read same n 0 \<open>nd_keys n \<noteq> []\<close> by (simp add: and_then_def)
  next
    case (Suc l')
    have kids: "\<forall>c \<in> set (nd_children n). tree_ok (node_at s) l' c" using Suc.prems(2) n(1) Suc by auto
    obtain c cs where c: "nd_children n = c # cs" using n(2,3) Suc by (cases "nd_children n") (auto simp: node_wf_def)
    have ok: "tree_ok (node_at s') l' c" using kids c view(1) by simp
    then obtain s'' where "leftmost steps c s' = (Inr (first_of (tree_kvs (node_at s') l' c)), s'')" and "store_same s' s''"
      using Suc.IH [of s' l' c] view(2) Suc.prems(1,3) Suc by auto
    moreover have "first_of (tree_kvs (node_at s) l at) = first_of (tree_kvs (node_at s) l' c)"
      using tree_kvs_nonempty [of "node_at s" l' c] kids c n(1) Suc by simp
    ultimately show ?thesis using read n Suc c store_same_trans [OF same] view(1) by (auto simp: and_then_def)
  qed
qed simp

text \<open>
  A path down a tree: each pair is an inner node one level above the pair before it, with the child
  taken. What lies right of the path is what the walk up finds first.
\<close>

fun path_ok :: "node_arena \<Rightarrow> nat \<Rightarrow> path \<Rightarrow> bool" where
  "path_ok V l [] = True"
| "path_ok V l ((at, child) # p) =
     (\<exists>n. V at = Some n \<and> node_wf n \<and> nd_level n = Suc l \<and> child \<le> nd_len n
        \<and> (\<forall>c \<in> set (nd_children n). tree_ok V l c) \<and> path_ok V (Suc l) p)"

fun path_rest :: "node_arena \<Rightarrow> nat \<Rightarrow> path \<Rightarrow> (key \<times> byte list) list" where
  "path_rest V l [] = []"
| "path_rest V l ((at, child) # p) =
     (case V at of None \<Rightarrow> [] | Some n \<Rightarrow> concat (map (tree_kvs V l) (drop (child + 1) (nd_children n)))) @ path_rest V (Suc l) p"

lemma next_up_ok:
  assumes "store_ok s" and "path_ok (node_at s) l p" and "l + length p \<le> 7"
  shows "\<exists>s'. next_up p s = (Inr (first_of (path_rest (node_at s) l p)), s') \<and> store_same s s'"
  using assms
proof (induction p arbitrary: l s)
  case (Cons x p)
  obtain at child where x: "x = (at, child)" by fastforce
  obtain n where n: "node_at s at = Some n" "node_wf n" "nd_level n = Suc l" "child \<le> nd_len n"
    "\<forall>c \<in> set (nd_children n). tree_ok (node_at s) l c" "path_ok (node_at s) (Suc l) p"
    using Cons.prems(2) x by auto
  obtain s' where read: "tree_read at s = (Inr n, s')" and same: "store_same s s'" using tree_read_ok [OF Cons.prems(1) n(1)] .
  note view = store_sameD [OF same]
  have len: "length (nd_children n) = nd_len n + 1" using node_wf_children [OF n(2)] n(3) by simp
  show ?case
  proof (cases "child < nd_len n")
    case False
    then have "drop (child + 1) (nd_children n) = []" using len by simp
    moreover obtain s'' where "next_up p s' = (Inr (first_of (path_rest (node_at s') (Suc l) p)), s'')" and "store_same s' s''"
      using Cons.IH [of s' "Suc l"] view Cons.prems n(6) by auto
    ultimately show ?thesis using read x False n(1) store_same_trans [OF same] view(1) by (auto simp: and_then_def)
  next
    case True
    let ?c = "nd_children n ! (child + 1)"
    have c: "child + 1 < length (nd_children n)" using True len by simp
    then have ok: "tree_ok (node_at s') l ?c" using n(5) view(1) nth_mem [OF c] by simp
    obtain s'' where "leftmost 8 ?c s' = (Inr (first_of (tree_kvs (node_at s') l ?c)), s'')" and "store_same s' s''"
      using leftmost_ok [of s' l ?c 8] view(2) Cons.prems(1,3) ok by auto
    moreover have "drop (child + 1) (nd_children n) = ?c # drop (child + 2) (nd_children n)"
      using Cons_nth_drop_Suc [OF c] by simp
    ultimately show ?thesis
      using read x True n(1) store_same_trans [OF same] view(1) tree_kvs_nonempty [OF ok]
      by (auto simp: and_then_def MAX_HEIGHT_def)
  qed
qed simp

lemma next_down_ok:
  assumes "store_ok s" and "tree_ok (node_at s) l at" and "path_ok (node_at s) l p" and "l \<le> room" and "l + length p \<le> 7"
  shows "\<exists>s'. next_down room p at k inclusive s =
      (Inr (case List.find (beyond k inclusive) (tree_kvs (node_at s) l at) of Some x \<Rightarrow> Some x
            | None \<Rightarrow> first_of (path_rest (node_at s) l p)), s') \<and> store_same s s'"
  using assms
proof (induction l arbitrary: room at p s)
  case 0
  obtain n where n: "node_at s at = Some n" "node_wf n" "nd_level n = 0" using 0(2) by auto
  obtain s' where read: "tree_read at s = (Inr n, s')" and same: "store_same s s'" using tree_read_ok [OF 0(1) n(1)] .
  note view = store_sameD [OF same]
  obtain s'' where up: "next_up p s' = (Inr (first_of (path_rest (node_at s') 0 p)), s'')" "store_same s' s''"
    using next_up_ok [of s' 0 p] view 0 by auto
  let ?i = "if inclusive then node_lower n k else node_upper n k"
  have "List.find (beyond k inclusive) (zip (nd_keys n) (nd_values n)) =
      (if ?i < nd_len n then Some (nd_keys n ! ?i, nd_values n ! ?i) else None)"
    using leaf_find_next [OF n(2,3), of inclusive k] by (simp add: Let_def)
  then show ?case using read n up same store_same_trans [OF same] view(1)
    by (auto simp: next_down.simps [of room] and_then_def Let_def)
next
  case (Suc l)
  obtain n where n: "node_at s at = Some n" "node_wf n" "nd_level n = Suc l" "\<forall>c \<in> set (nd_children n). tree_ok (node_at s) l c"
    "parted (nd_keys n) (map (tree_kvs (node_at s) l) (nd_children n))" using Suc.prems(2) by auto
  obtain s' where read: "tree_read at s = (Inr n, s')" and same: "store_same s s'" using tree_read_ok [OF Suc.prems(1) n(1)] .
  note view = store_sameD [OF same]
  let ?p = "partition_point (\<lambda>held. held \<le> k) (nd_keys n)"
  have p: "?p < length (nd_children n)" "?p \<le> nd_len n"
    using parted_child [OF n(5)] by (simp_all add: partition_point_le)
  obtain room' where room: "room = Suc room'" using Suc.prems(4) by (cases room) auto
  have "path_ok (node_at s') l ((at, ?p) # p)" using n p Suc.prems(3) view(1) by auto
  moreover have "tree_ok (node_at s') l (nd_children n ! ?p)" using n(4) p view(1) by simp
  ultimately obtain s'' where down: "next_down room' ((at, ?p) # p) (nd_children n ! ?p) k inclusive s' =
      (Inr (case List.find (beyond k inclusive) (tree_kvs (node_at s') l (nd_children n ! ?p)) of Some x \<Rightarrow> Some x
            | None \<Rightarrow> first_of (path_rest (node_at s') l ((at, ?p) # p))), s'')" and "store_same s' s''"
    using Suc.IH [of s' "nd_children n ! ?p" "(at, ?p) # p" room'] view(2) Suc.prems(1,4,5) room by auto
  moreover have "first_of (concat (map (tree_kvs (node_at s) l) (drop (?p + 1) (nd_children n))) @ path_rest (node_at s) (Suc l) p)
      = (case first_of (concat (map (tree_kvs (node_at s) l) (drop (?p + 1) (nd_children n)))) of Some x \<Rightarrow> Some x
         | None \<Rightarrow> first_of (path_rest (node_at s) (Suc l) p))"
    by (rule first_of_append)
  moreover have "next_down room p at k inclusive s = next_down room' ((at, ?p) # p) (nd_children n ! ?p) k inclusive s'"
    using read n(3) room node_upper_point [OF node_wf_sorted [OF n(2)], of k]
    by (subst next_down.simps) (simp add: and_then_def Let_def)
  moreover have "List.find (beyond k inclusive) (tree_kvs (node_at s) (Suc l) at) =
      (case List.find (beyond k inclusive) (tree_kvs (node_at s) l (nd_children n ! ?p)) of Some x \<Rightarrow> Some x
       | None \<Rightarrow> first_of (concat (map (tree_kvs (node_at s) l) (drop (?p + 1) (nd_children n)))))"
    using parted_find [OF n(5), of k inclusive] p(1) n(1) by (simp add: drop_map split: option.splits)
  ultimately show ?case
    using n(1) store_same_trans [OF same \<open>store_same s' s''\<close>] view(1) by (auto split: option.splits)
qed

end
