(* ===== verification/Fs_Tree_Walk.thy ===== *)
theory Fs_Tree_Walk
  imports Fs_Tree_Lookup
begin

text \<open>
  The two walks over a whole tree. \<open>mark\<close> collects the blocks a tree reaches, and it returns on every
  image, damaged or not. \<open>verify\<close> accepts a checkpoint exactly when every block below its root is a
  node of the right level, no block is reached twice and no generation is newer than the checkpoint's.
\<close>

section \<open>Shapes\<close>

fun tree_shape :: "node_arena \<Rightarrow> nat \<Rightarrow> nat \<Rightarrow> bool" where
  "tree_shape V 0 at = (\<exists>n. V at = Some n \<and> nd_level n = 0)"
| "tree_shape V (Suc l) at = (\<exists>n. V at = Some n \<and> nd_level n = Suc l \<and> (\<forall>c \<in> set (nd_children n). tree_shape V l c))"

declare tree_shape.simps [simp del] tree_blocks.simps(2) [simp del]

lemma tree_ok_shape: "tree_ok V l at \<Longrightarrow> tree_shape V l at"
  by (induction V l at rule: tree_ok.induct) (auto simp: tree_shape.simps)

lemma tree_shape_node: "tree_shape V l at \<Longrightarrow> \<exists>n. V at = Some n \<and> nd_level n = l"
  by (cases l) (auto simp: tree_shape.simps)

lemma tree_shape_level: "tree_shape V l at \<Longrightarrow> tree_shape V m at \<Longrightarrow> l = m"
  using tree_shape_node [of V l at] tree_shape_node [of V m at] by auto

lemma tree_blocks_hd: "\<exists>bs. tree_blocks V l at = at # bs"
  by (cases l) (simp_all add: tree_blocks.simps)

definition arena_of :: "faulty \<Rightarrow> super \<Rightarrow> node_arena" where
  "arena_of d cp at =
     (if in_arena cp at then (case node_parse (disk_block d at) of Inl _ \<Rightarrow> None | Inr n \<Rightarrow> Some n) else None)"

lemma node_at_arena_of: "node_at s = arena_of (vl_disk (st_vol s)) (vl_super (st_vol s))"
  by (rule ext) (simp add: node_at_def arena_of_def)

lemma arena_of_in: "arena_of d cp at = Some n \<Longrightarrow> in_arena cp at"
  by (simp add: arena_of_def split: if_splits)

text \<open>A view whose nodes are well formed and lie in an arena.\<close>

definition arena_wf :: "super \<Rightarrow> node_arena \<Rightarrow> bool" where
  "arena_wf cp V \<longleftrightarrow> (\<forall>at n. V at = Some n \<longrightarrow> in_arena cp at \<and> node_wf n)"

lemma arena_wfD: "arena_wf cp V \<Longrightarrow> V at = Some n \<Longrightarrow> in_arena cp at \<and> node_wf n"
  by (auto simp: arena_wf_def)

lemma node_at_arena_wf: "store_ok s \<Longrightarrow> arena_wf (vl_super (st_vol s)) (node_at s)"
  using node_at_wf node_at_in_arena by (auto simp: arena_wf_def)

lemma tree_shape_blocks: "arena_wf cp V \<Longrightarrow> tree_shape V l at \<Longrightarrow> set (tree_blocks V l at) \<subseteq> {sp_tree_at cp ..< sp_tree_at cp + sp_tree_blocks cp}"
proof (induction V l at rule: tree_shape.induct)
  case (2 V l at)
  then obtain n where n: "V at = Some n" "\<forall>c \<in> set (nd_children n). tree_shape V l c" by (auto simp: tree_shape.simps)
  then show ?case using 2 arena_wfD [OF 2(2) n(1)] by (auto simp: tree_blocks.simps in_arena_def)
qed (auto simp: tree_shape.simps dest: arena_wfD simp: in_arena_def)

text \<open>A pending list of roots, with their levels.\<close>

abbreviation forest :: "node_arena \<Rightarrow> (nat \<times> nat) list \<Rightarrow> nat list" where
  "forest V ps \<equiv> concat (map (\<lambda>(l, at). tree_blocks V l at) ps)"

lemma forest_roots: "length ps \<le> length (forest V ps)" "snd ` set ps \<subseteq> set (forest V ps)"
proof -
  show "length ps \<le> length (forest V ps)"
  proof (induction ps)
    case (Cons p ps)
    then show ?case using tree_blocks_hd [of V "fst p" "snd p"] by (cases p) auto
  qed simp
  have "at \<in> set (tree_blocks V l at)" for l at using tree_blocks_hd [of V l at] by auto
  then show "snd ` set ps \<subseteq> set (forest V ps)" by fastforce
qed

lemma forest_bound:
  assumes "arena_wf cp V" and "\<forall>(l, at) \<in> set ps. tree_shape V l at" and "distinct (forest V ps)"
  shows "length (forest V ps) \<le> sp_tree_blocks cp"
proof -
  have "set (forest V ps) \<subseteq> {sp_tree_at cp ..< sp_tree_at cp + sp_tree_blocks cp}"
    using tree_shape_blocks [OF assms(1)] assms(2) by fastforce
  then have "card (set (forest V ps)) \<le> sp_tree_blocks cp" using card_mono [of "{sp_tree_at cp ..< sp_tree_at cp + sp_tree_blocks cp}"] by fastforce
  then show ?thesis using distinct_card [OF assms(3)] by simp
qed

definition kids :: "node \<Rightarrow> (nat \<times> nat) list" where
  "kids n = (if 0 < nd_level n then map (Pair (nd_level n - 1)) (rev (nd_children n)) else [])"

lemma concat_rev: "length (concat (rev xss)) = length (concat xss)" "distinct (concat (rev xss)) = distinct (concat xss)"
  by (induction xss) auto

lemma tree_shape_expand:
  assumes "tree_shape V l at" and "V at = Some n"
  shows "\<forall>(l, at) \<in> set (kids n). tree_shape V l at"
    and "length (tree_blocks V l at) = Suc (length (forest V (kids n)))"
    and "set (tree_blocks V l at) = insert at (set (forest V (kids n)))"
    and "distinct (tree_blocks V l at) = distinct (at # forest V (kids n))"
proof -
  have l: "nd_level n = l" using tree_shape_node [OF assms(1)] assms(2) by simp
  have "\<forall>(l, at) \<in> set (kids n). tree_shape V l at"
    using assms l by (cases l) (auto simp: tree_shape.simps kids_def)
  then show "\<forall>(l, at) \<in> set (kids n). tree_shape V l at" .
  show "length (tree_blocks V l at) = Suc (length (forest V (kids n)))"
    "set (tree_blocks V l at) = insert at (set (forest V (kids n)))"
    "distinct (tree_blocks V l at) = distinct (at # forest V (kids n))"
    using assms l concat_rev [of "map (tree_blocks V (l - 1)) (nd_children n)"]
    by (cases l; simp add: tree_blocks.simps kids_def rev_map comp_def del: length_concat)+
qed

lemma kids_roots: "snd ` set (kids n) = (if 0 < nd_level n then set (nd_children n) else {})"
  by (simp add: kids_def image_image)

lemma tree_shape_fold: "V at = Some n \<Longrightarrow> \<forall>(l, at) \<in> set (kids n). tree_shape V l at \<Longrightarrow> tree_shape V (nd_level n) at"
  by (cases "nd_level n") (auto simp: tree_shape.simps kids_def)

section \<open>Marking\<close>

definition marked :: "super \<Rightarrow> bitmap \<Rightarrow> nat set" where
  "marked cp bits = {sp_tree_at cp + i | i. i < bm_bits bits \<and> bm_get bits i}"

definition closed :: "node_arena \<Rightarrow> nat set \<Rightarrow> nat set \<Rightarrow> bool" where
  "closed V M P \<longleftrightarrow> (\<forall>b \<in> M. \<forall>n. V b = Some n \<and> 0 < nd_level n \<longrightarrow> set (nd_children n) \<subseteq> M \<union> P)"

lemma closed_blocks: "closed V M {} \<Longrightarrow> tree_shape V l at \<Longrightarrow> at \<in> M \<Longrightarrow> set (tree_blocks V l at) \<subseteq> M"
proof (induction V l at rule: tree_shape.induct)
  case (2 V l at)
  then obtain n where n: "V at = Some n" "nd_level n = Suc l" "\<forall>c \<in> set (nd_children n). tree_shape V l c" by (auto simp: tree_shape.simps)
  then have "set (nd_children n) \<subseteq> M" using 2(2,4) by (auto simp: closed_def)
  then show ?case using 2 n by (auto simp: tree_blocks.simps)
qed simp

lemma marked_set:
  assumes "bm_ok bits" and "bm_bits bits = sp_tree_blocks cp" and "in_arena cp at"
  shows "marked cp (bm_set (at - sp_tree_at cp) bits) = insert at (marked cp bits)"
    and "bm_get bits (at - sp_tree_at cp) \<longleftrightarrow> at \<in> marked cp bits"
proof -
  obtain i where "at = sp_tree_at cp + i" "i < sp_tree_blocks cp"
    using assms(3) by (auto simp: in_arena_def le_iff_add)
  then show "marked cp (bm_set (at - sp_tree_at cp) bits) = insert at (marked cp bits)"
    "bm_get bits (at - sp_tree_at cp) \<longleftrightarrow> at \<in> marked cp bits"
    using assms(1,2) by (auto simp: marked_def bm_get_set)
qed

lemma mark_loop_ok:
  assumes "store_ok s" and "cp = vl_super (st_vol s)" and "V = node_at s" and "bm_ok bits" and "bm_bits bits = sp_tree_blocks cp"
    and "\<forall>(l, at) \<in> set ps. tree_shape V l at" and "distinct (forest V ps)" and "length (forest V ps) \<le> steps"
    and "closed V (marked cp bits) (snd ` set ps)"
  shows "\<exists>bits' s'. mark_loop steps (map snd ps) bits s = (Inr bits', s') \<and> store_same s s' \<and> bm_ok bits'
    \<and> bm_bits bits' = sp_tree_blocks cp \<and> marked cp bits \<union> snd ` set ps \<subseteq> marked cp bits'
    \<and> marked cp bits' \<subseteq> marked cp bits \<union> set (forest V ps) \<and> closed V (marked cp bits') {}"
  using assms
proof (induction steps arbitrary: ps bits s)
  case 0
  then have "ps = []" using forest_roots(1) [of ps V] by (simp del: length_concat concat_eq_Nil_conv)
  then show ?case using 0 by simp
next
  case (Suc steps)
  show ?case
  proof (cases ps)
    case Nil
    then show ?thesis using Suc.prems by simp
  next
    case (Cons p qs)
    obtain l at where p: "p = (l, at)" by fastforce
    obtain n where n: "V at = Some n" "nd_level n = l" using Suc.prems(6) Cons p tree_shape_node by fastforce
    have arena: "in_arena cp at" "node_wf n" using arena_wfD [OF node_at_arena_wf [OF Suc.prems(1)]] n Suc.prems(2,3) by auto
    have off: "tree_offset cp at = Inr (at - sp_tree_at cp)"
      using tree_offset_Inr [of cp at] Suc.prems(1,2) arena by (simp add: store_ok_def)
    have sh: "tree_shape V l at" "\<forall>(l, at) \<in> set qs. tree_shape V l at" using Suc.prems(6) Cons p by auto
    note m = marked_set [OF Suc.prems(4,5) arena(1)]
    show ?thesis
    proof (cases "at \<in> marked cp bits")
      case True
      have "closed V (marked cp bits) (snd ` set qs)" using Suc.prems(9) True Cons p by (auto simp: closed_def)
      moreover have "length (forest V qs) \<le> steps" "distinct (forest V qs)"
        using Suc.prems(7,8) Cons p tree_blocks_hd [of V l at] by auto
      moreover have "mark_loop (Suc steps) (map snd ps) bits s = mark_loop steps (map snd qs) bits s"
        using Cons p off True m(2) Suc.prems(2) by (simp add: Let_def)
      ultimately show ?thesis using Suc.IH [OF Suc.prems(1-5) sh(2)] Cons p True by fastforce
    next
      case False
      obtain s1 where rd: "tree_read at s = (Inr n, s1)" "store_same s s1"
        using tree_read_ok [OF Suc.prems(1), of at n] n(1) Suc.prems(3) by auto
      note same = store_sameD [OF rd(2)]
      let ?ks = "kids n" and ?b = "bm_set (at - sp_tree_at cp) bits"
      note ks = tree_shape_expand [OF sh(1) n(1)]
      have D: "distinct (forest V (?ks @ qs))" "length (forest V (?ks @ qs)) \<le> steps"
        using Suc.prems(7,8) Cons p ks(2-4) by (auto simp del: length_concat)
      have S: "\<forall>(l, at) \<in> set (?ks @ qs). tree_shape V l at" using ks(1) sh(2) by auto
      have fit: "length (?ks @ qs) \<le> sp_tree_blocks cp"
        using forest_bound [OF _ S D(1), of cp] forest_roots(1) [of "?ks @ qs" V] node_at_arena_wf [OF Suc.prems(1)] Suc.prems(2,3) by simp
      have kids: "0 < l \<Longrightarrow> length (nd_children n) = nd_len n + 1" using node_wf_children [OF arena(2)] n(2) by simp
      have step: "mark_loop (Suc steps) (map snd ps) bits s = mark_loop steps (map snd (?ks @ qs)) ?b s1"
        using Cons p off False m(2) Suc.prems(2) rd(1) n(2) fit kids
        by (cases "0 < l") (simp_all add: Let_def and_then_def comp_def kids_def)
      have "closed V (marked cp ?b) (snd ` set (?ks @ qs))"
        using Suc.prems(9) Cons p n m(1) unfolding closed_def set_append image_Un kids_roots by auto
      then have IH: "\<exists>bits' s'. mark_loop steps (map snd (?ks @ qs)) ?b s1 = (Inr bits', s') \<and> store_same s1 s' \<and> bm_ok bits'
        \<and> bm_bits bits' = sp_tree_blocks cp \<and> marked cp ?b \<union> snd ` set (?ks @ qs) \<subseteq> marked cp bits'
        \<and> marked cp bits' \<subseteq> marked cp ?b \<union> set (forest V (?ks @ qs)) \<and> closed V (marked cp bits') {}"
        using Suc.IH [of s1 ?b "?ks @ qs"] same Suc.prems(1-5) S D by simp
      then obtain bits' s' where r: "mark_loop (Suc steps) (map snd ps) bits s = (Inr bits', s')" "store_same s1 s'" "bm_ok bits'"
        "bm_bits bits' = sp_tree_blocks cp" "marked cp ?b \<union> snd ` set (?ks @ qs) \<subseteq> marked cp bits'"
        "marked cp bits' \<subseteq> marked cp ?b \<union> set (forest V (?ks @ qs))" "closed V (marked cp bits') {}"
        unfolding step by blast
      have "marked cp bits \<union> snd ` set ps \<subseteq> marked cp bits'" using r(5) m(1) Cons p by auto
      moreover have "marked cp bits' \<subseteq> marked cp bits \<union> set (forest V ps)" using r(6) m(1) ks(3) Cons p by auto
      ultimately show ?thesis using r store_same_trans [OF rd(2) r(2)] by blast
    qed
  qed
qed

text \<open>On any image at all the loop ends: thirteen steps are left for every block not marked yet.\<close>

lemma node_parse_ends: "node_parse block \<noteq> Inl FsDiverge"
proof -
  have key: "key_parse b \<noteq> Inl FsDiverge" for b
    by (auto simp: key_parse_def key_check_def Let_def split: sum.splits if_splits)
  have "parse_keys n at prev block \<noteq> Inl FsDiverge" for n at prev
    by (induction n arbitrary: at prev) (auto split: sum.splits if_splits dest: key [THEN notE])
  then show ?thesis by (auto simp: node_parse_def Let_def split: sum.splits if_splits)
qed

lemma tree_read_total:
  assumes "store_ok s"
  obtains (node) n s' where "tree_read at s = (Inr n, s')" "node_at s at = Some n" "store_same s s'"
  | (bad) e s' where "tree_read at s = (Inl e, s')" "e \<noteq> FsDiverge" "store_same s s'"
proof (cases "node_at s at")
  case (Some n)
  then show ?thesis using tree_read_ok [OF assms] node by metis
next
  case None
  let ?cp = "vl_super (st_vol s)"
  have fits: "arena_fits ?cp" using assms by (simp add: store_ok_def)
  show ?thesis
  proof (cases "in_arena ?cp at")
    case False
    then show ?thesis using bad [of FsCorrupt s] tree_offset_Inr [OF fits, of at] by (simp add: tree_read_def)
  next
    case True
    obtain r c where c: "cache_get at (st_cache s) = (r, c)" by fastforce
    note get = cache_get_wf [OF _ c]
    have r: "r = None" using get assms None by (cases r) (force simp: store_ok_def coherent_def)+
    obtain v where v: "vol_block at (st_vol s) = (Inr (disk_block (vl_disk (st_vol s)) at), v)" "vol_same (st_vol s) v" "vol_ok v"
      using vol_block_ok [of "st_vol s" at] assms arena_block [OF assms True] by (auto simp: store_ok_def)
    obtain e where e: "node_parse (disk_block (vl_disk (st_vol s)) at) = Inl e"
      using None True by (auto simp: node_at_def split: sum.splits)
    let ?s = "s\<lparr>st_vol := v, st_cache := c\<rparr>"
    have view: "node_at ?s = node_at s" by (rule node_at_vol_same) (simp add: v)
    have "store_ok ?s"
      using assms get v vol_same_fields(2) [OF v(2)] view coherent_get [OF _ c] by (simp add: store_ok_def)
    then have "store_same s ?s" using v by (simp add: store_same_def)
    moreover have "tree_read at s = (Inl e, ?s)"
      using r c v e True tree_offset_Inr [OF fits, of at] by (simp add: tree_read_def)
    ultimately show ?thesis using bad e node_parse_ends by metis
  qed
qed

definition unmarked :: "bitmap \<Rightarrow> nat" where
  "unmarked bits = card {i. i < bm_bits bits \<and> \<not> bm_get bits i}"

lemma unmarked_set: "bm_ok bits \<Longrightarrow> i < bm_bits bits \<Longrightarrow> \<not> bm_get bits i \<Longrightarrow> Suc (unmarked (bm_set i bits)) = unmarked bits"
proof -
  assume a: "bm_ok bits" "i < bm_bits bits" "\<not> bm_get bits i"
  then have "{j. j < bm_bits bits \<and> \<not> bm_get bits j} = insert i {j. j < bm_bits bits \<and> \<not> bm_get (bm_set i bits) j}"
    by (auto simp: bm_get_set)
  then show ?thesis using a by (simp add: unmarked_def bm_get_set)
qed

lemma unmarked_new: "unmarked (bm_new n) = n"
  by (simp add: unmarked_def)

lemma mark_loop_ends:
  assumes "store_ok s" and "bm_ok bits" and "bm_bits bits = sp_tree_blocks (vl_super (st_vol s))"
    and "13 * unmarked bits + length pending \<le> steps"
  shows "fst (mark_loop steps pending bits s) \<noteq> Inl FsDiverge"
  using assms
proof (induction steps arbitrary: pending bits s)
  case 0
  then show ?case by simp
next
  case (Suc steps)
  let ?cp = "vl_super (st_vol s)"
  show ?case
  proof (cases pending)
    case (Cons at rest)
    have fits: "arena_fits ?cp" using Suc.prems(1) by (simp add: store_ok_def)
    show ?thesis
    proof (cases "in_arena ?cp at \<and> \<not> bm_get bits (at - sp_tree_at ?cp)")
      case False
      then show ?thesis
        using Suc.IH [OF Suc.prems(1-3), of rest] Suc.prems(4) Cons tree_offset_Inr [OF fits, of at] by (auto simp: Let_def)
    next
      case True
      let ?b = "bm_set (at - sp_tree_at ?cp) bits"
      have i: "at - sp_tree_at ?cp < bm_bits bits" using True Suc.prems(3) by (auto simp: in_arena_def)
      have left: "13 * unmarked ?b + 13 + length rest \<le> steps" using unmarked_set [OF Suc.prems(2) i] True Suc.prems(4) Cons by simp
      show ?thesis
      proof (cases rule: tree_read_total [OF Suc.prems(1), of at])
        case (1 n s1)
        have "nd_len n \<le> 12" "0 < nd_level n \<Longrightarrow> length (nd_children n) = nd_len n + 1"
          using node_at_wf [OF Suc.prems(1) 1(2)] by (simp_all add: node_wf_def)
        then show ?thesis
          using True Cons 1 tree_offset_Inr [OF fits, of at] left store_sameD [OF 1(3)] Suc.prems(1-3)
            Suc.IH [of s1 ?b rest] Suc.IH [of s1 ?b "rev (nd_children n) @ rest"]
          by (auto simp: Let_def and_then_def)
      next
        case (2 e s1)
        then show ?thesis using True Cons tree_offset_Inr [OF fits, of at] by (simp add: Let_def and_then_def)
      qed
    qed
  qed simp
qed

text \<open>
  C32. Marking the blocks a tree reaches returns on every disk image, damaged or not: a
  thirteenfold of the arena's blocks and one more steps are enough.
\<close>

theorem tree_mark_ends:
  assumes "store_ok s" and "bm_ok bits" and "bm_bits bits = sp_tree_blocks (vl_super (st_vol s))"
  shows "fst (tree_mark root bits s) \<noteq> Inl FsDiverge"
proof -
  have "unmarked bits \<le> bm_bits bits" unfolding unmarked_def
    using card_mono [of "{..<bm_bits bits}" "{i. i < bm_bits bits \<and> \<not> bm_get bits i}"] by auto
  then show ?thesis using mark_loop_ends [OF assms, of "[root]"] assms(3) by (simp add: tree_mark_def del: mark_loop.simps)
qed

section \<open>Verifying\<close>

text \<open>The checkpoint's arena lies on the disk.\<close>

definition arena_on :: "super \<Rightarrow> faulty \<Rightarrow> bool" where
  "arena_on cp d \<longleftrightarrow> (sp_tree_at cp + sp_tree_blocks cp) * 4096 \<le> length (flt_volatile d)
     \<and> length (flt_volatile d) < 2 ^ 64 \<and> sp_tree_blocks cp \<le> 2 ^ 16"

definition fresh_enough :: "super \<Rightarrow> nat \<Rightarrow> node \<Rightarrow> bool" where
  "fresh_enough cp at n \<longleftrightarrow>
     nd_generation n \<le> sp_generation cp \<and> (at = sp_tree_root cp \<longrightarrow> nd_generation n = sp_generation cp)"

definition forest_fresh :: "super \<Rightarrow> node_arena \<Rightarrow> (nat \<times> nat) list \<Rightarrow> bool" where
  "forest_fresh cp V ps \<longleftrightarrow> (\<forall>at \<in> set (forest V ps). \<forall>n. V at = Some n \<longrightarrow> fresh_enough cp at n)"

definition expects :: "nat option \<Rightarrow> nat \<Rightarrow> bool" where
  "expects e l \<longleftrightarrow> (case e of None \<Rightarrow> True | Some m \<Rightarrow> m = l)"

text \<open>What a pending list stands for: trees of the expected levels, apart from each other and from what was seen.\<close>

definition sound_forest :: "super \<Rightarrow> node_arena \<Rightarrow> (nat \<times> nat option) list \<Rightarrow> nat set \<Rightarrow> (nat \<times> nat) list \<Rightarrow> bool" where
  "sound_forest cp V pending seen ps \<longleftrightarrow>
     list_all2 (\<lambda>p e. snd p = fst e \<and> expects (snd e) (fst p)) ps pending
     \<and> (\<forall>(l, at) \<in> set ps. tree_shape V l at) \<and> distinct (forest V ps) \<and> set (forest V ps) \<inter> seen = {}
     \<and> forest_fresh cp V ps"

lemma arena_on_read:
  assumes "arena_on cp (vl_disk v)" and "in_arena cp at"
  shows "vol_raw at v = (Inr (disk_block (vl_disk v) at), v)" and "length (disk_block (vl_disk v) at) = 4096"
proof -
  have "(at + 1) * 4096 \<le> (sp_tree_at cp + sp_tree_blocks cp) * 4096" using assms(2) by (auto simp: in_arena_def)
  then have fit: "(at + 1) * 4096 \<le> length (flt_volatile (vl_disk v))" using assms(1) unfolding arena_on_def by linarith
  then show "vol_raw at v = (Inr (disk_block (vl_disk v) at), v)" using vol_raw_ok assms(1) by (simp add: arena_on_def)
  show "length (disk_block (vl_disk v) at) = 4096" using fit by (simp add: disk_block_def sub_slice_def)
qed

lemma arena_of_wf: "arena_on cp d \<Longrightarrow> arena_wf cp (arena_of d cp)"
  unfolding arena_wf_def
proof (intro allI impI)
  fix at n
  assume "arena_on cp d" and at: "arena_of d cp at = Some n"
  have len: "length (disk_block d at) = 4096"
    using arena_on_read(2) [of cp "\<lparr>vl_disk = d, vl_sectors = 0, vl_slots = [], vl_hand = 0, vl_super = cp, vl_active = 0,
        vl_prev_log = None, vl_prev_tree = None\<rparr>" at] \<open>arena_on cp d\<close> arena_of_in [OF at] by simp
  then show "in_arena cp at \<and> node_wf n"
    using at node_parse_wf [of "disk_block d at" n] by (auto simp: arena_of_def split: if_splits sum.splits)
qed

lemma expected_kids:
  "list_all2 (\<lambda>p e. snd p = fst e \<and> expects (snd e) (fst p)) ps (map (\<lambda>(l, c). (c, Some l)) ks @ pending) \<longleftrightarrow>
     (\<exists>qs. ps = ks @ qs \<and> list_all2 (\<lambda>p e. snd p = fst e \<and> expects (snd e) (fst p)) qs pending)"
proof (induction ks arbitrary: ps)
  case (Cons k ks)
  then show ?case by (cases k) (auto simp: list_all2_Cons2 expects_def)
qed simp

lemma sound_forest_Cons:
  assumes "V at = Some n"
  shows "(\<exists>ps. sound_forest cp V ((at, e) # pending) seen ps) \<longleftrightarrow>
    at \<notin> seen \<and> fresh_enough cp at n \<and> expects e (nd_level n)
    \<and> (\<exists>ps. sound_forest cp V (map (\<lambda>(l, c). (c, Some l)) (kids n) @ pending) (insert at seen) ps)" (is "?L = ?R")
proof
  assume ?L
  then obtain l qs where l: "sound_forest cp V ((at, e) # pending) seen ((l, at) # qs)" "tree_shape V l at"
    by (auto simp: sound_forest_def list_all2_Cons2)
  note ex = tree_shape_expand [OF l(2) assms]
  have "nd_level n = l" using tree_shape_node [OF l(2)] assms by simp
  moreover have "sound_forest cp V (map (\<lambda>(l, c). (c, Some l)) (kids n) @ pending) (insert at seen) (kids n @ qs)"
    using l(1) ex unfolding sound_forest_def expected_kids forest_fresh_def by auto
  moreover have "at \<notin> seen" "fresh_enough cp at n" "expects e l"
    using l(1) assms ex(3) by (auto simp: sound_forest_def forest_fresh_def)
  ultimately show ?R by blast
next
  assume ?R
  then obtain qs where qs: "sound_forest cp V (map (\<lambda>(l, c). (c, Some l)) (kids n) @ pending) (insert at seen) (kids n @ qs)"
    unfolding sound_forest_def expected_kids by blast
  have sh: "tree_shape V (nd_level n) at" using tree_shape_fold [of V at n] assms qs by (auto simp: sound_forest_def)
  have "sound_forest cp V ((at, e) # pending) seen ((nd_level n, at) # qs)"
    using qs tree_shape_expand [OF sh assms] \<open>?R\<close> sh assms unfolding sound_forest_def expected_kids forest_fresh_def by auto
  then show ?L by blast
qed

lemma sound_forest_None: "V at = None \<Longrightarrow> \<not> sound_forest cp V ((at, e) # pending) seen ps"
  using tree_shape_node by (fastforce simp: sound_forest_def list_all2_Cons2)

lemma sound_forest_bound:
  assumes "arena_wf cp V" and "sound_forest cp V pending seen ps"
  shows "length pending \<le> sp_tree_blocks cp"
proof -
  have "length ps \<le> sp_tree_blocks cp"
    using forest_bound [OF assms(1), of ps] forest_roots(1) [of ps V] assms(2) by (simp add: sound_forest_def)
  then show ?thesis using assms(2) list_all2_lengthD unfolding sound_forest_def by fastforce
qed

lemma kids_pending:
  "rev (map (\<lambda>child. (child, Some (nd_level n - 1))) (nd_children n)) = map (\<lambda>(l, c). (c, Some l)) (kids n)" if "0 < nd_level n"
  using that by (simp add: kids_def rev_map comp_def)

lemma verify_loop_exact:
  assumes "arena_on cp (vl_disk v)" and "bm_ok used" and "bm_bits used = sp_tree_blocks cp" and "unmarked used + 1 \<le> steps"
    and "V = arena_of (vl_disk v) cp"
  shows "\<exists>r. verify_loop steps cp pending used v = (r, v) \<and> r \<noteq> Inl FsDiverge
    \<and> (r = Inr () \<longleftrightarrow> (\<exists>ps. sound_forest cp V pending (marked cp used) ps))"
  using assms
proof (induction steps arbitrary: pending used)
  case (Suc steps)
  show ?case
  proof (cases pending)
    case Nil
    have "sound_forest cp V [] (marked cp used) []" by (simp add: sound_forest_def forest_fresh_def)
    then show ?thesis using Nil by auto
  next
    case (Cons p rest)
    obtain at e where p: "p = (at, e)" by fastforce
    let ?off = "at - sp_tree_at cp" and ?used = "bm_set (at - sp_tree_at cp) used"
    have bad: "?thesis" if "verify_loop (Suc steps) cp pending used v = (Inl x, v)" "x \<noteq> FsDiverge"
      "\<And>ps. \<not> sound_forest cp V ((at, e) # rest) (marked cp used) ps" for x
      using that Cons p by simp
    have off: "tree_offset cp at = (if in_arena cp at then Inr ?off else Inl FsCorrupt)"
      using Suc.prems(1) by (auto simp: tree_offset_def in_arena_def arena_on_def Let_def)
    show ?thesis
    proof (cases "in_arena cp at")
      case False
      then have "V at = None" using Suc.prems(5) by (simp add: arena_of_def)
      then show ?thesis using bad [of FsCorrupt] sound_forest_None off False Cons p by simp
    next
      case arena: True
      note read = arena_on_read [OF Suc.prems(1) arena]
      note m = marked_set [OF Suc.prems(2,3) arena]
      show ?thesis
      proof (cases "V at")
        case None
        then obtain x where x: "node_parse (disk_block (vl_disk v) at) = Inl x"
          using arena Suc.prems(5) by (auto simp: arena_of_def split: sum.splits)
        then have "x \<noteq> FsDiverge" using node_parse_ends by metis
        then show ?thesis
          using bad [of x] bad [of FsCorrupt] sound_forest_None [of V at cp e rest "marked cp used"] None off arena Cons p read x by (auto simp: and_then_def)
      next
        case (Some n)
        then have parse: "node_parse (disk_block (vl_disk v) at) = Inr n"
          using Suc.prems(5) by (auto simp: arena_of_def split: sum.splits if_splits)
        note sf = sound_forest_Cons [where V = V and at = at and n = n and cp = cp and e = e and pending = rest and seen = "marked cp used", OF Some]
        let ?next = "map (\<lambda>(l, c). (c, Some l)) (kids n) @ rest"
        let ?go = "at \<notin> marked cp used \<and> fresh_enough cp at n \<and> expects e (nd_level n) \<and> (0 < nd_level n \<longrightarrow> length ?next \<le> sp_tree_blocks cp)"
        have len: "0 < nd_level n \<Longrightarrow> length (nd_children n) = nd_len n + 1"
          using node_wf_children arena_wfD [OF arena_of_wf [OF Suc.prems(1)]] Some Suc.prems(5) by blast
        have step: "verify_loop (Suc steps) cp pending used v = (if ?go then verify_loop steps cp ?next ?used v else (Inl FsCorrupt, v))"
          using off arena Cons p read parse m(2) len kids_pending [of n]
          by (auto simp: and_then_def fresh_enough_def expects_def kids_def split: option.splits)
        have dead: "\<not> ?go \<Longrightarrow> \<not> sound_forest cp V ((at, e) # rest) (marked cp used) ps" for ps
          using sf sound_forest_bound [OF arena_of_wf [OF Suc.prems(1)], of ?next] Suc.prems(5) by blast
        show ?thesis
        proof (cases ?go)
          case False
          then have "verify_loop (Suc steps) cp pending used v = (Inl FsCorrupt, v)" unfolding step by (rule if_not_P)
          then show ?thesis by (rule bad) (use dead [OF False] in simp_all)
        next
          case True
          have "?off < bm_bits used" using arena Suc.prems(3) by (auto simp: in_arena_def)
          then have "unmarked ?used + 1 \<le> steps" using unmarked_set [OF Suc.prems(2), of ?off] True m(2) Suc.prems(4) by simp
          moreover have "verify_loop (Suc steps) cp pending used v = verify_loop steps cp ?next ?used v"
            unfolding step using True by (rule if_P)
          ultimately show ?thesis using Suc.IH [of ?used ?next] Suc.prems True sf m(1) Cons p by simp
        qed
      qed
    qed
  qed
qed simp

lemma tree_verify_runs:
  assumes "arena_on cp (vl_disk v)" and "V = arena_of (vl_disk v) cp"
  shows "\<exists>r. tree_verify cp v = (r, v) \<and> r \<noteq> Inl FsDiverge \<and>
    (r = Inr () \<longleftrightarrow> sp_tree_root cp = 0 \<or>
       (\<exists>l. tree_shape V l (sp_tree_root cp) \<and> distinct (tree_blocks V l (sp_tree_root cp))
          \<and> (\<forall>at \<in> set (tree_blocks V l (sp_tree_root cp)). \<forall>n. V at = Some n \<longrightarrow>
               nd_generation n \<le> sp_generation cp \<and> (at = sp_tree_root cp \<longrightarrow> nd_generation n = sp_generation cp))))"
proof (cases "sp_tree_root cp = 0")
  case False
  let ?root = "sp_tree_root cp"
  have empty: "marked cp (bm_new (sp_tree_blocks cp)) = {}" by (simp add: marked_def)
  have sf: "(\<exists>ps. sound_forest cp V [(?root, None)] {} ps) \<longleftrightarrow>
      (\<exists>l. tree_shape V l ?root \<and> distinct (tree_blocks V l ?root)
          \<and> (\<forall>at \<in> set (tree_blocks V l ?root). \<forall>n. V at = Some n \<longrightarrow> fresh_enough cp at n))"
    by (auto simp: sound_forest_def forest_fresh_def list_all2_Cons2 expects_def)
  have "tree_verify cp v = verify_loop (sp_tree_blocks cp + 1) cp [(?root, None)] (bm_new (sp_tree_blocks cp)) v"
    using False by (simp add: tree_verify_def)
  then show ?thesis
    using verify_loop_exact [OF assms(1) bm_new_ok _ _ assms(2), of "sp_tree_blocks cp" "sp_tree_blocks cp + 1" "[(?root, None)]"] False
    unfolding sf [symmetric, unfolded fresh_enough_def] by (simp add: unmarked_new empty)
qed (simp add: tree_verify_def)

section \<open>On the small store\<close>

theorem tree_mark_ends_witness: "fst (tree_mark 3 (bm_new 64) sample_store) \<noteq> Inl FsDiverge"
  using tree_mark_ends [OF sample_store_ok, of "bm_new 64" 3] by (simp add: sample_store_def sample_super_def)

lemma sample_arena: "arena_on sample_super sample_disk" "arena_of sample_disk sample_super 3 = Some sample_leaf"
  using sample_blocks(4) sample_node by (simp_all add: arena_on_def sample_super_def node_at_arena_of sample_store_def)

text \<open>
  C18. Verifying a checkpoint's tree reads nothing it keeps, always returns, and accepts exactly
  when the tree is empty or every block below the root is a node one level below its parent, no
  block is reached twice, and no node is newer than the checkpoint while the root is exactly as
  new.
\<close>

theorem tree_verify_exact:
  assumes "arena_on cp (vl_disk v)" and "V = arena_of (vl_disk v) cp"
  shows "\<exists>r. tree_verify cp v = (r, v) \<and> r \<noteq> Inl FsDiverge \<and>
    (r = Inr () \<longleftrightarrow> sp_tree_root cp = 0 \<or>
       (\<exists>l. tree_shape V l (sp_tree_root cp) \<and> distinct (tree_blocks V l (sp_tree_root cp))
          \<and> (\<forall>at \<in> set (tree_blocks V l (sp_tree_root cp)). \<forall>n. V at = Some n \<longrightarrow>
               nd_generation n \<le> sp_generation cp \<and> (at = sp_tree_root cp \<longrightarrow> nd_generation n = sp_generation cp))))"
  by (rule tree_verify_runs [OF assms])

theorem tree_verify_exact_witness: "tree_verify sample_super (st_vol sample_store) = (Inr (), st_vol sample_store)"
proof -
  have "tree_shape (arena_of sample_disk sample_super) 0 3" using sample_arena(2) by (simp add: tree_shape.simps sample_leaf_def)
  then show ?thesis
    using tree_verify_exact [of sample_super "st_vol sample_store"] sample_arena
    by (auto simp: sample_store_def sample_super_def sample_leaf_def intro!: exI [of _ 0])
qed

end
