(* ===== verification/Fs_Mount.thy ===== *)
theory Fs_Mount
  imports Fs_Tree_Walk
begin

text \<open>
  Choosing the checkpoint to mount (crates/storage/fs/src/volume.rs): both superblock copies are read,
  and the newest that parses, fits the device and verifies is adopted; the other one, if it verifies
  too, is the previous checkpoint whose blocks stay protected. The result is a function of the disk.
\<close>

section \<open>The survey\<close>

record checkpoint =
  ck_super :: super
  ck_active :: nat
  ck_prev_log :: "nat option"
  ck_prev_tree :: "nat option"

fun newest_from :: "nat \<Rightarrow> (super option \<times> bool) list \<Rightarrow> (nat \<times> nat) option \<Rightarrow> (nat \<times> nat) option" where
  "newest_from copy [] best = best"
| "newest_from copy ((parsed, rejected) # rest) best =
     newest_from (copy + 1) rest
       (case parsed of None \<Rightarrow> best
        | Some sp \<Rightarrow>
          if \<not> rejected \<and> (case best of None \<Rightarrow> True | Some (_, gen) \<Rightarrow> sp_generation sp > gen)
          then Some (copy, sp_generation sp) else best)"

definition newest :: "super option list \<Rightarrow> bool list \<Rightarrow> nat option" where
  "newest copies rejected = map_option fst (newest_from 0 (zip copies rejected) None)"

definition verify_checkpoint :: "super \<Rightarrow> (volume, fs_error, unit) eff" where
  "verify_checkpoint sp =
     and_then (log_checksum (sp_region sp)) (\<lambda>crc.
       if unat crc \<noteq> rg_crc (sp_region sp) then fail FsChecksum else tree_verify sp)"

definition fits_device :: "super \<Rightarrow> volume \<Rightarrow> bool" where
  "fits_device sp v \<longleftrightarrow> min (sp_blocks sp * SECTORS) (u64_limit - 1) \<le> vl_sectors v"

fun read_copies :: "nat list \<Rightarrow> fs_error \<Rightarrow> (volume, fs_error, super option list \<times> fs_error) eff" where
  "read_copies [] last_error = ok ([], last_error)"
| "read_copies (copy # rest) last_error =
     and_then (vol_raw copy) (\<lambda>block.
       case super_parse block of
         Inr parsed \<Rightarrow> and_then (read_copies rest last_error) (\<lambda>(copies, e). ok (Some parsed # copies, e))
       | Inl error \<Rightarrow> and_then (read_copies rest error) (\<lambda>(copies, e). ok (None # copies, e)))"

fun find_previous :: "nat \<Rightarrow> (nat \<times> super option) list \<Rightarrow> (volume, fs_error, super option) eff" where
  "find_previous active [] = ok None"
| "find_previous active ((copy, candidate) # rest) = (\<lambda>v.
     if copy = active then find_previous active rest v else
     case candidate of None \<Rightarrow> find_previous active rest v
     | Some parsed \<Rightarrow>
       if \<not> fits_device parsed v then find_previous active rest v else
       (case verify_checkpoint parsed v of
          (Inl _, v) \<Rightarrow> find_previous active rest v
        | (Inr _, v) \<Rightarrow> (Inr (Some parsed), v)))"

fun survey_loop :: "nat \<Rightarrow> super option list \<Rightarrow> bool list \<Rightarrow> fs_error \<Rightarrow> (volume, fs_error, checkpoint) eff" where
  "survey_loop 0 copies rejected last_error = fail last_error"
| "survey_loop (Suc n) copies rejected last_error = (\<lambda>v.
     case newest copies rejected of None \<Rightarrow> (Inl last_error, v) | Some active \<Rightarrow>
     let rejected = rejected[active := True] in
     case copies ! active of None \<Rightarrow> (Inl last_error, v) | Some sp \<Rightarrow>
     if \<not> fits_device sp v then survey_loop n copies rejected FsCorrupt v else
     case verify_checkpoint sp v of
       (Inl e, v) \<Rightarrow> survey_loop n copies rejected e v
     | (Inr _, v) \<Rightarrow>
       and_then (find_previous active (enumerate 0 copies)) (\<lambda>previous.
         ok \<lparr>ck_super = sp, ck_active = active,
             ck_prev_log = map_option (\<lambda>p. rg_at (sp_region p)) previous,
             ck_prev_tree = (case map_option sp_tree_root previous of None \<Rightarrow> None
                             | Some root \<Rightarrow> if root \<noteq> 0 then Some root else None)\<rparr>) v)"

definition vol_survey :: "(volume, fs_error, checkpoint) eff" where
  "vol_survey =
     and_then (read_copies [0..<SUPERS] FsMagic) (\<lambda>(copies, last_error).
       survey_loop SUPERS copies (replicate SUPERS False) last_error)"

definition vol_adopt :: "checkpoint \<Rightarrow> volume \<Rightarrow> volume" where
  "vol_adopt c v =
     v\<lparr>vl_super := ck_super c, vl_active := ck_active c, vl_prev_log := ck_prev_log c, vl_prev_tree := ck_prev_tree c\<rparr>"

definition vol_attached :: "faulty \<Rightarrow> volume" where
  "vol_attached d =
     \<lparr>vl_disk = d, vl_sectors = fault_sectors d, vl_slots = [], vl_hand = 0,
      vl_super = vol_unmounted (fault_sectors d), vl_active = 0, vl_prev_log = None, vl_prev_tree = None\<rparr>"

definition vol_mount :: "faulty \<Rightarrow> fs_error + volume" where
  "vol_mount d =
     (case vol_survey (vol_attached d) of (Inl e, _) \<Rightarrow> Inl e | (Inr c, v) \<Rightarrow> Inr (vol_adopt c v))"

definition vol_remount :: "(volume, fs_error, unit) eff" where
  "vol_remount v =
     (let v = vol_stale 0 (u64_limit - 1) v; v = v\<lparr>vl_super := vol_unmounted (vl_sectors v)\<rparr>
      in and_then vol_survey (\<lambda>c. modify (vol_adopt c)) v)"

section \<open>What a checkpoint needs of the disk\<close>

function log_sum_from :: "faulty \<Rightarrow> fs_region \<Rightarrow> nat \<Rightarrow> u32 \<Rightarrow> fs_error + u32" where
  "log_sum_from d region cursor crc =
     (if cursor < rg_bytes region then
        (if cursor mod 4096 + 32 > 4096 then Inl FsCorrupt else
         let header = sub_slice (cursor mod 4096) 32 (disk_block d (rg_at region + cursor div 4096)) in
         case record_parse header of Inl e \<Rightarrow> Inl e | Inr r \<Rightarrow>
         case record_span r of Inl _ \<Rightarrow> Inl FsCorrupt | Inr span \<Rightarrow>
         if u64_limit \<le> cursor + span then Inl FsCorrupt
         else log_sum_from d region (cursor + span) (crc_update crc header))
      else if cursor \<noteq> rg_bytes region then Inl FsCorrupt else Inr (crc_finish crc))"
  by pat_completeness auto
termination
  by (relation "measure (\<lambda>(d, region, cursor, crc). rg_bytes region - cursor)") (auto dest: record_span_positive)

declare log_sum_from.simps [simp del]

definition log_sum :: "faulty \<Rightarrow> fs_region \<Rightarrow> fs_error + u32" where
  "log_sum d region = log_sum_from d region 0 crc_new"

definition tree_sound :: "faulty \<Rightarrow> super \<Rightarrow> bool" where
  "tree_sound d cp \<longleftrightarrow> sp_tree_root cp = 0 \<or>
     (let V = arena_of d cp; root = sp_tree_root cp in
      \<exists>l. tree_shape V l root \<and> distinct (tree_blocks V l root)
        \<and> (\<forall>at \<in> set (tree_blocks V l root). \<forall>n. V at = Some n \<longrightarrow>
             nd_generation n \<le> sp_generation cp \<and> (at = root \<longrightarrow> nd_generation n = sp_generation cp)))"

definition cp_sound :: "faulty \<Rightarrow> super \<Rightarrow> bool" where
  "cp_sound d cp \<longleftrightarrow>
     (\<exists>crc. log_sum d (sp_region cp) = Inr crc \<and> unat crc = rg_crc (sp_region cp)) \<and> tree_sound d cp"

lemma log_checksum_from_sum:
  assumes "vol_ok v" and "rg_at region * 4096 + rg_bytes region \<le> sp_blocks (vl_super v) * 4096"
  shows "\<exists>v'. log_checksum_from region cursor crc v = (log_sum_from (vl_disk v) region cursor crc, v') \<and> vol_same v v'"
  using assms
proof (induction "rg_bytes region - cursor" arbitrary: cursor crc v rule: less_induct)
  case less
  show ?case
  proof (cases "cursor < rg_bytes region \<and> cursor mod 4096 + 32 \<le> 4096")
    case True
    let ?i = "rg_at region + cursor div 4096"
    have "?i < sp_blocks (vl_super v)" using less.prems(2) True by linarith
    then obtain v1 where b: "vol_block ?i v = (Inr (disk_block (vl_disk v) ?i), v1)" and v1: "vol_same v v1" "vol_ok v1"
      using vol_block_ok [OF less.prems(1)] by blast
    let ?h = "sub_slice (cursor mod 4096) 32 (disk_block (vl_disk v) ?i)"
    show ?thesis
    proof (cases "\<exists>r span. record_parse ?h = Inr r \<and> record_span r = Inr span \<and> cursor + span < u64_limit")
      case False
      then show ?thesis using True b v1
        by (subst log_checksum_from.simps, subst log_sum_from.simps)
          (auto simp: Let_def BLOCK_def HEADER_def split: sum.splits)
    next
      case ok: True
      then obtain r span where r: "record_parse ?h = Inr r" "record_span r = Inr span" "cursor + span < u64_limit" by blast
      have "rg_bytes region - (cursor + span) < rg_bytes region - cursor" using True record_span_positive [OF r(2)] by linarith
      then obtain v' where v': "log_checksum_from region (cursor + span) (crc_update crc ?h) v1 =
          (log_sum_from (vl_disk v) region (cursor + span) (crc_update crc ?h), v')" "vol_same v1 v'"
        using less.hyps [of "cursor + span" v1 "crc_update crc ?h"] v1 vol_same_fields [OF v1(1)] less.prems(2) by auto
      then show ?thesis using True b v1 r vol_same_trans [OF v1(1)]
        by (subst log_checksum_from.simps, subst log_sum_from.simps) (simp add: Let_def BLOCK_def HEADER_def)
    qed
  next
    case False
    then show ?thesis
      by (subst log_checksum_from.simps, subst log_sum_from.simps) (auto simp: BLOCK_def HEADER_def)
  qed
qed

section \<open>The survey is a function of the disk\<close>

definition surveying :: "volume \<Rightarrow> bool" where
  "surveying v \<longleftrightarrow> vol_ok v \<and> vl_sectors v = fault_sectors (vl_disk v) \<and> vl_super v = vol_unmounted (vl_sectors v)
     \<and> 2 * 4096 \<le> length (flt_volatile (vl_disk v))"

definition usable :: "faulty \<Rightarrow> super \<Rightarrow> bool" where
  "usable d sp \<longleftrightarrow> sp_blocks sp * 4096 \<le> length (flt_volatile d) \<and> cp_sound d sp"

definition copy_of :: "faulty \<Rightarrow> nat \<Rightarrow> super option" where
  "copy_of d i = (case super_parse (disk_block d i) of Inl _ \<Rightarrow> None | Inr sp \<Rightarrow> Some sp)"

definition good_copy :: "faulty \<Rightarrow> nat \<Rightarrow> super option" where
  "good_copy d i = (case copy_of d i of None \<Rightarrow> None | Some sp \<Rightarrow> if usable d sp then Some sp else None)"

definition chosen :: "faulty \<Rightarrow> (nat \<times> super \<times> super option) option" where
  "chosen d =
     (case good_copy d 0 of
        None \<Rightarrow> (case good_copy d 1 of None \<Rightarrow> None | Some b \<Rightarrow> Some (1, b, None))
      | Some a \<Rightarrow>
        (case good_copy d 1 of None \<Rightarrow> Some (0, a, None)
         | Some b \<Rightarrow> if sp_generation a < sp_generation b then Some (1, b, Some a) else Some (0, a, Some b)))"

definition checkpoint_of :: "nat \<times> super \<times> super option \<Rightarrow> checkpoint" where
  "checkpoint_of c = (case c of (active, sp, previous) \<Rightarrow>
     \<lparr>ck_super = sp, ck_active = active, ck_prev_log = map_option (\<lambda>p. rg_at (sp_region p)) previous,
      ck_prev_tree = (case map_option sp_tree_root previous of None \<Rightarrow> None | Some root \<Rightarrow> if root \<noteq> 0 then Some root else None)\<rparr>)"

lemma surveying_same: "surveying v \<Longrightarrow> vol_same v v' \<Longrightarrow> surveying v'"
  using vol_same_fields [of v v'] by (simp add: surveying_def)

lemma surveying_fits:
  assumes "surveying v"
  shows "fits_device sp v \<longleftrightarrow> sp_blocks sp * 4096 \<le> length (flt_volatile (vl_disk v))"
    and "sp_blocks sp * 4096 \<le> length (flt_volatile (vl_disk v)) \<Longrightarrow> sp_blocks sp \<le> sp_blocks (vl_super v)"
proof -
  let ?n = "length (flt_volatile (vl_disk v))"
  have v: "vl_sectors v = ?n div 512" "?n < 2 ^ 64" "sp_blocks (vl_super v) = ?n div 512 div 8"
    using assms by (simp_all add: surveying_def vol_ok_def fault_sectors_def SECTOR_def vol_unmounted_def SECTORS_def BLOCK_def)
  have lim: "?n div 512 < u64_limit - 1" using v(2) by (intro less_mult_imp_div_less) simp
  have "sp_blocks sp * 8 \<le> ?n div 512 \<longleftrightarrow> sp_blocks sp * 4096 \<le> ?n"
    using less_eq_div_iff_mult_less_eq [of 512 "sp_blocks sp * 8" ?n] by (simp add: mult.commute)
  then show "fits_device sp v \<longleftrightarrow> sp_blocks sp * 4096 \<le> ?n"
    using lim unfolding fits_device_def v by (simp add: SECTORS_def BLOCK_def SECTOR_def min_le_iff_disj)
  show "sp_blocks sp * 4096 \<le> ?n \<Longrightarrow> sp_blocks sp \<le> sp_blocks (vl_super v)"
    unfolding v using less_eq_div_iff_mult_less_eq [of 8 "sp_blocks sp" "?n div 512"]
      less_eq_div_iff_mult_less_eq [of 512 "sp_blocks sp * 8" ?n] by (simp add: mult.commute)
qed

lemma verify_checkpoint_exact:
  assumes "surveying v" and "super_check sp = Inr ()" and "sp_blocks sp * 4096 \<le> length (flt_volatile (vl_disk v))"
  shows "\<exists>r v'. verify_checkpoint sp v = (r, v') \<and> vol_same v v' \<and> (r = Inr () \<longleftrightarrow> cp_sound (vl_disk v) sp)"
proof -
  note c = assms(2) [unfolded super_check_iff]
  have ok: "vol_ok v" using assms(1) by (simp add: surveying_def)
  have "rg_bytes (sp_region sp) \<le> region_blocks (sp_region sp) * 4096" by (simp add: region_blocks_def BLOCK_def)
  moreover have "rg_at (sp_region sp) + region_blocks (sp_region sp) \<le> sp_blocks (vl_super v)"
    using c surveying_fits(2) [OF assms(1,3)] by linarith
  ultimately have region: "rg_at (sp_region sp) * 4096 + rg_bytes (sp_region sp) \<le> sp_blocks (vl_super v) * 4096" by linarith
  obtain v1 where log: "log_checksum (sp_region sp) v = (log_sum (vl_disk v) (sp_region sp), v1)" "vol_same v v1"
    using log_checksum_from_sum [OF ok region] by (auto simp: log_checksum_def log_sum_def)
  have disk: "vl_disk v1 = vl_disk v" using vol_same_fields [OF log(2)] by simp
  have "sp_tree_at sp + sp_tree_blocks sp \<le> sp_blocks sp" using c by (auto simp: log_start_def)
  then have "(sp_tree_at sp + sp_tree_blocks sp) * 4096 \<le> sp_blocks sp * 4096" by (rule mult_le_mono1)
  then have on: "arena_on sp (vl_disk v1)"
    using c assms(3) ok disk unfolding arena_on_def vol_ok_def by (metis le_trans)
  obtain r where r: "tree_verify sp v1 = (r, v1)" "r = Inr () \<longleftrightarrow> tree_sound (vl_disk v) sp"
    using tree_verify_runs [OF on refl] disk by (auto simp: tree_sound_def Let_def)
  show ?thesis
    using log r by (cases "log_sum (vl_disk v) (sp_region sp)") (auto simp: verify_checkpoint_def and_then_def cp_sound_def)
qed

lemma copy_of_check: "copy_of d i = Some sp \<Longrightarrow> super_check sp = Inr ()"
  using super_parse_Inr [of "disk_block d i" sp] by (auto simp: copy_of_def split: sum.splits)

lemma read_copies_disk:
  assumes "surveying v"
  shows "\<exists>e. read_copies [0..<SUPERS] e0 v = (Inr ([copy_of (vl_disk v) 0, copy_of (vl_disk v) 1], e), v)"
proof -
  have "length (flt_volatile (vl_disk v)) < 2 ^ 64" "2 * 4096 \<le> length (flt_volatile (vl_disk v))"
    using assms by (simp_all add: surveying_def vol_ok_def)
  then have "vol_raw i v = (Inr (disk_block (vl_disk v) i), v)" if "i < 2" for i
    using that by (intro vol_raw_ok) auto
  then show ?thesis
    by (simp add: SUPERS_def upt_rec and_then_def copy_of_def split: sum.splits)
qed

lemma try_copy:
  assumes "surveying v" and "copy_of (vl_disk v) i = Some sp"
  shows "\<not> fits_device sp v \<and> good_copy (vl_disk v) i = None
    \<or> fits_device sp v \<and> (\<exists>e v'. verify_checkpoint sp v = (Inl e, v') \<and> vol_same v v') \<and> good_copy (vl_disk v) i = None
    \<or> fits_device sp v \<and> (\<exists>v'. verify_checkpoint sp v = (Inr (), v') \<and> vol_same v v') \<and> good_copy (vl_disk v) i = Some sp"
proof (cases "fits_device sp v")
  case False
  then show ?thesis using assms surveying_fits(1) [OF assms(1), of sp] by (simp add: good_copy_def usable_def)
next
  case True
  then have fit: "sp_blocks sp * 4096 \<le> length (flt_volatile (vl_disk v))" using surveying_fits(1) [OF assms(1), of sp] by simp
  then obtain r v' where "verify_checkpoint sp v = (r, v')" "vol_same v v'" "r = Inr () \<longleftrightarrow> cp_sound (vl_disk v) sp"
    using verify_checkpoint_exact [OF assms(1) copy_of_check [OF assms(2)]] by blast
  then show ?thesis using True fit assms(2) by (cases r) (auto simp: good_copy_def usable_def)
qed

lemma find_previous_disk:
  assumes "surveying v"
  shows "\<exists>v'. find_previous 0 (enumerate 0 [copy_of (vl_disk v) 0, copy_of (vl_disk v) 1]) v = (Inr (good_copy (vl_disk v) 1), v') \<and> vol_same v v'"
    and "\<exists>v'. find_previous 1 (enumerate 0 [copy_of (vl_disk v) 0, copy_of (vl_disk v) 1]) v = (Inr (good_copy (vl_disk v) 0), v') \<and> vol_same v v'"
proof -
  have none: "copy_of (vl_disk v) i = None \<Longrightarrow> good_copy (vl_disk v) i = None" for i by (simp add: good_copy_def)
  show "\<exists>v'. find_previous 0 (enumerate 0 [copy_of (vl_disk v) 0, copy_of (vl_disk v) 1]) v = (Inr (good_copy (vl_disk v) 1), v') \<and> vol_same v v'"
    using try_copy [OF assms, of 1] none [of 1] by (cases "copy_of (vl_disk v) 1") auto
  show "\<exists>v'. find_previous 1 (enumerate 0 [copy_of (vl_disk v) 0, copy_of (vl_disk v) 1]) v = (Inr (good_copy (vl_disk v) 0), v') \<and> vol_same v v'"
    using try_copy [OF assms, of 0] none [of 0] by (cases "copy_of (vl_disk v) 0") auto
qed

text \<open>One round of the survey's loop: the candidate is adopted, with the other copy as the previous one, or dropped.\<close>

lemma survey_round:
  assumes "surveying v" and "copies = [copy_of (vl_disk v) 0, copy_of (vl_disk v) 1]" and "newest copies rejected = Some active"
    and "active < 2" and "copies ! active = Some sp"
  shows "(\<exists>e v'. survey_loop (Suc n) copies rejected last_error v = survey_loop n copies (rejected[active := True]) e v'
        \<and> vol_same v v' \<and> good_copy (vl_disk v) active = None)
    \<or> (\<exists>v'. survey_loop (Suc n) copies rejected last_error v = (Inr (checkpoint_of (active, sp, good_copy (vl_disk v) (1 - active))), v')
        \<and> vol_same v v' \<and> good_copy (vl_disk v) active = Some sp)"
proof -
  have copy: "copy_of (vl_disk v) active = Some sp" using assms(2,4,5) by (cases active) auto
  have prev: "\<exists>w'. find_previous active (enumerate 0 copies) w = (Inr (good_copy (vl_disk v) (1 - active)), w') \<and> vol_same w w'"
    if "vol_same v w" for w
    using find_previous_disk [OF surveying_same [OF assms(1) that]] vol_same_fields(1) [OF that] assms(2,4)
    by (cases active) (auto simp: numeral_2_eq_2 less_Suc_eq)
  show ?thesis
    using try_copy [OF assms(1) copy]
  proof (elim disjE conjE exE)
    assume "\<not> fits_device sp v" "good_copy (vl_disk v) active = None"
    then show ?thesis using assms(3,5) by (intro disjI1 exI [of _ FsCorrupt] exI [of _ v]) (simp add: Let_def)
  next
    fix w assume w: "fits_device sp v" "verify_checkpoint sp v = (Inr (), w)" "vol_same v w" "good_copy (vl_disk v) active = Some sp"
    then show ?thesis using prev [OF w(3)] assms(3,5) vol_same_trans [OF w(3)]
      by (auto simp: and_then_def Let_def checkpoint_of_def)
  qed (use assms(3,5) in \<open>auto simp: Let_def\<close>)
qed

lemma newest_pair:
  "newest [a, b] [ra, rb] =
     (case if ra then None else a of
        None \<Rightarrow> (case if rb then None else b of None \<Rightarrow> None | Some _ \<Rightarrow> Some 1)
      | Some x \<Rightarrow> (case if rb then None else b of None \<Rightarrow> Some 0 | Some y \<Rightarrow> if sp_generation x < sp_generation y then Some 1 else Some 0))"
  by (auto simp: newest_def split: option.splits)

lemma good_copy_Some: "good_copy d i = Some sp \<Longrightarrow> copy_of d i = Some sp"
  by (auto simp: good_copy_def split: option.splits if_splits)

lemma survey_last:
  assumes "surveying v" and "copies = [copy_of (vl_disk v) 0, copy_of (vl_disk v) 1]" and "active < 2"
    and "good_copy (vl_disk v) active = None" and "rejected = [False, False][active := True]"
  shows "\<exists>r v'. survey_loop (Suc 0) copies rejected e v = (r, v') \<and> vol_same v v' \<and>
    (case good_copy (vl_disk v) (1 - active) of None \<Rightarrow> \<exists>e. r = Inl e
     | Some sp \<Rightarrow> r = Inr (checkpoint_of (1 - active, sp, None)))"
proof (cases "copy_of (vl_disk v) (1 - active)")
  case None
  then have "newest copies rejected = None" using assms(2,3,5)
    by (cases active) (auto simp: newest_pair less_Suc_eq numeral_2_eq_2)
  then show ?thesis using None by (simp add: good_copy_def)
next
  case (Some sp)
  then have n: "newest copies rejected = Some (1 - active)" "copies ! (1 - active) = Some sp" using assms(2,3,5)
    by (cases active; auto simp: newest_pair less_Suc_eq numeral_2_eq_2)+
  have "1 - (1 - active) = active" "1 - active < 2" using assms(3) by simp_all
  then show ?thesis using survey_round [OF assms(1,2) n(1) _ n(2), of 0 e] assms(4) by (auto simp del: survey_loop.simps(2))
qed

lemma vol_survey_disk:
  assumes "surveying v"
  shows "\<exists>r v'. vol_survey v = (r, v') \<and> vol_same v v' \<and>
    (case chosen (vl_disk v) of None \<Rightarrow> \<exists>e. r = Inl e | Some c \<Rightarrow> r = Inr (checkpoint_of c))"
proof -
  let ?d = "vl_disk v" and ?copies = "[copy_of (vl_disk v) 0, copy_of (vl_disk v) 1]"
  obtain e where "read_copies [0..<SUPERS] FsMagic v = (Inr (?copies, e), v)" using read_copies_disk [OF assms] by blast
  then have start: "vol_survey v = survey_loop (Suc (Suc 0)) ?copies [False, False] e v"
    by (simp add: vol_survey_def and_then_def SUPERS_def numeral_2_eq_2)
  show ?thesis
  proof (cases "newest ?copies [False, False]")
    case None
    then have "chosen ?d = None" by (auto simp: newest_pair chosen_def good_copy_def split: option.splits if_splits)
    then show ?thesis using None start by simp
  next
    case (Some active)
    then obtain sp where sp: "active < 2" "?copies ! active = Some sp" by (auto simp: newest_pair split: option.splits if_splits)
    have pick: "chosen ?d = Some (active, sp, good_copy ?d (1 - active))" if good: "good_copy ?d active = Some sp"
    proof -
      have "\<forall>other. good_copy ?d (1 - active) = Some other \<longrightarrow> copy_of ?d (1 - active) = Some other" using good_copy_Some by blast
      moreover have "active = 0 \<or> active = 1" using sp(1) by linarith
      ultimately show ?thesis
        using Some sp(2) good
        by (elim disjE) (cases "good_copy ?d (1 - active)"; auto simp: newest_pair chosen_def split: if_splits)+
    qed
    have drop: "good_copy ?d active = None \<Longrightarrow> chosen ?d = map_option (\<lambda>sp. (1 - active, sp, None)) (good_copy ?d (1 - active))"
      using sp(1) by (cases active) (auto simp: chosen_def less_Suc_eq numeral_2_eq_2 split: option.splits)
    from survey_round [OF assms refl Some sp, of "Suc 0" e] show ?thesis
    proof (elim disjE exE conjE)
      fix e1 w assume w: "survey_loop (Suc (Suc 0)) ?copies [False, False] e v = survey_loop (Suc 0) ?copies ([False, False][active := True]) e1 w"
        "vol_same v w" "good_copy ?d active = None"
      then show ?thesis
        using survey_last [OF surveying_same [OF assms w(2)] _ sp(1), of ?copies "[False, False][active := True]" e1] vol_same_fields(1) [OF w(2)] start drop
          vol_same_trans [OF w(2)] by (auto split: option.splits simp del: survey_loop.simps(2) list_update.simps)
    next
      fix w assume "survey_loop (Suc (Suc 0)) ?copies [False, False] e v = (Inr (checkpoint_of (active, sp, good_copy ?d (1 - active))), w)"
        "vol_same v w" "good_copy ?d active = Some sp"
      then show ?thesis using start pick by (simp del: survey_loop.simps(2))
    qed
  qed
qed

section \<open>Mounting\<close>

lemma vol_attached_surveying:
  assumes "2 * 4096 \<le> length (flt_volatile d)" and "length (flt_volatile d) < 2 ^ 64"
  shows "surveying (vol_attached d)"
proof -
  have "length (flt_volatile d) div 512 div 8 * 4096 \<le> length (flt_volatile d)" by linarith
  then show ?thesis
    using assms by (simp add: surveying_def vol_ok_def vol_attached_def vol_unmounted_def fault_sectors_def SECTORS_def SECTOR_def BLOCK_def)
qed

lemma vol_mount_chosen:
  assumes "2 * 4096 \<le> length (flt_volatile d)" and "length (flt_volatile d) < 2 ^ 64"
  shows "case chosen d of None \<Rightarrow> \<exists>e. vol_mount d = Inl e
    | Some c \<Rightarrow> \<exists>v. vol_mount d = Inr (vol_adopt (checkpoint_of c) v) \<and> vol_same (vol_attached d) v"
proof -
  obtain r v where "vol_survey (vol_attached d) = (r, v)" "vol_same (vol_attached d) v"
    "case chosen d of None \<Rightarrow> \<exists>e. r = Inl e | Some c \<Rightarrow> r = Inr (checkpoint_of c)"
    using vol_survey_disk [OF vol_attached_surveying [OF assms]] by (auto simp: vol_attached_def)
  then show ?thesis by (auto simp: vol_mount_def split: option.splits)
qed

lemma chosen_Some:
  assumes "chosen d = Some (active, sp, previous)"
  shows "active < 2" "good_copy d active = Some sp" "previous = good_copy d (1 - active)"
    "\<And>i other. i < 2 \<Longrightarrow> good_copy d i = Some other \<Longrightarrow> sp_generation other \<le> sp_generation sp"
  using assms by (auto simp: chosen_def less_Suc_eq numeral_2_eq_2 split: option.splits if_splits)

lemma chosen_None: "chosen d = None \<longleftrightarrow> (\<forall>i < 2. good_copy d i = None)"
  by (auto simp: chosen_def less_Suc_eq numeral_2_eq_2 split: option.splits)

text \<open>
  C7. Mounting adopts a superblock copy that parses, fits and verifies, no such copy being
  newer, remembers the other copy's log bank if that one is usable too, and is refused exactly
  when no copy is usable.
\<close>

theorem mount_newest:
  assumes "2 * 4096 \<le> length (flt_volatile d)" and "length (flt_volatile d) < 2 ^ 64"
  shows "case vol_mount d of
      Inl e \<Rightarrow> \<forall>i < 2. \<forall>sp. copy_of d i = Some sp \<longrightarrow> \<not> usable d sp
    | Inr v \<Rightarrow> vl_disk v = d \<and> vl_active v < 2 \<and> copy_of d (vl_active v) = Some (vl_super v) \<and> usable d (vl_super v)
        \<and> (\<forall>i < 2. \<forall>sp. copy_of d i = Some sp \<and> usable d sp \<longrightarrow> sp_generation sp \<le> sp_generation (vl_super v))
        \<and> vl_prev_log v = (case good_copy d (1 - vl_active v) of None \<Rightarrow> None | Some sp \<Rightarrow> Some (rg_at (sp_region sp)))"
proof (cases "chosen d")
  case None
  then obtain e where "vol_mount d = Inl e" using vol_mount_chosen [OF assms] by auto
  then show ?thesis using None by (auto simp: chosen_None good_copy_def split: if_splits)
next
  case (Some c)
  obtain active sp previous where c: "c = (active, sp, previous)" by (cases c)
  note ch = chosen_Some [OF Some [unfolded c]]
  obtain v where v: "vol_mount d = Inr (vol_adopt (checkpoint_of c) v)" "vol_same (vol_attached d) v"
    using vol_mount_chosen [OF assms] Some by auto
  have copy: "copy_of d active = Some sp" "usable d sp" using ch(2) by (auto simp: good_copy_def split: option.splits if_splits)
  have "sp_generation other \<le> sp_generation sp" if "i < 2" "copy_of d i = Some other" "usable d other" for i other
    using ch(4) [OF that(1), of other] that by (simp add: good_copy_def)
  then show ?thesis
    using v(1) copy ch(1,3) vol_same_fields(1) [OF v(2)] c
    by (auto simp: vol_adopt_def checkpoint_of_def vol_attached_def split: option.splits)
qed

lemma sample_usable: "copy_of sample_disk 0 = Some sample_super" "usable sample_disk sample_super" "copy_of sample_disk 1 = None"
proof -
  show "copy_of sample_disk 0 = Some sample_super"
    using super_parse_encode [OF sample_super_ok, of "replicate 4096 0"] sample_blocks(1) by (simp add: copy_of_def)
  have "log_sum sample_disk (sp_region sample_super) = Inr 0"
    by (simp add: log_sum_def log_sum_from.simps sample_super_def crc_new_def crc_finish_def)
  moreover have "tree_sound sample_disk sample_super"
    using sample_arena(2) by (auto simp: tree_sound_def Let_def sample_super_def tree_shape.simps sample_leaf_def intro!: exI [of _ 0])
  ultimately show "usable sample_disk sample_super" using sample_blocks(4) by (simp add: usable_def cp_sound_def sample_super_def)
  have "hd (replicate 8 0) \<noteq> hd SUPER_MAGIC" by (simp add: SUPER_MAGIC_def)
  then have "replicate 8 0 \<noteq> SUPER_MAGIC" by metis
  then show "copy_of sample_disk 1 = None"
    using sample_blocks(3) by (simp add: copy_of_def super_parse_def sub_slice_def Let_def)
qed

theorem mount_newest_witness: "\<exists>v. vol_mount sample_disk = Inr v \<and> vl_super v = sample_super \<and> vl_prev_log v = None"
proof -
  note m = mount_newest [of sample_disk, unfolded sample_blocks(4)]
  then obtain v where v: "vol_mount sample_disk = Inr v" using sample_usable(1,2) by (cases "vol_mount sample_disk") (auto dest: spec [of _ 0])
  then have "vl_active v < 2" "copy_of sample_disk (vl_active v) = Some (vl_super v)" using m by auto
  then have "vl_active v = 0" using sample_usable(3) by (cases "vl_active v = 1") auto
  then show ?thesis using m v sample_usable by (auto simp: good_copy_def)
qed

end
