(* ===== verification/Fs_Journal.thy ===== *)
theory Fs_Journal
  imports Fs_Mount
begin

text \<open>
  The writable view of a checkpoint (crates/storage/fs/src/journal.rs): objects, directories and
  extents of files as keys of the metadata tree, file bytes in records of the log bank that the open
  transaction fills, compaction into the free bank when it is full, and \<open>sync\<close>, which publishes the
  transaction under the next generation. This theory holds the definitions. Loops over the tree that
  the source does not bound take one step for each entry the arena has room for, and one more, and
  end in \<open>FsDiverge\<close> past that. A buffer the source fills is the list of the bytes it receives.
\<close>

section \<open>State\<close>

definition AHEAD :: nat where
  "AHEAD = 4"

definition VERIFIED :: nat where
  "VERIFIED = 8"

record verified_record =
  vr_bank :: nat
  vr_cursor :: nat
  vr_chunk :: nat
  vr_crc :: nat

record extent_hint =
  eh_file :: nat
  eh_start :: nat
  eh_end :: nat
  eh_at :: nat
  eh_skip :: nat
  eh_len :: nat

record transaction =
  tn_at :: nat
  tn_bytes :: nat
  tn_tree :: tree_tx

record journal =
  jn_store :: store
  jn_tx :: "transaction option"
  jn_next :: nat
  jn_verified :: "verified_record option list"
  jn_hand :: nat
  jn_hint :: "extent_hint option"

type_synonym 'a journal_op = "(journal, fs_error, 'a) eff"

definition on_tree :: "(store, fs_error, 'a) eff \<Rightarrow> 'a journal_op" where
  "on_tree m j = (case m (jn_store j) of (r, s) \<Rightarrow> (r, j\<lparr>jn_store := s\<rparr>))"

definition on_volume :: "(volume, fs_error, 'a) eff \<Rightarrow> 'a journal_op" where
  "on_volume m = on_tree (\<lambda>s. case m (st_vol s) of (r, v) \<Rightarrow> (r, s\<lparr>st_vol := v\<rparr>))"

definition jn_checkpoint :: "journal \<Rightarrow> super" where
  "jn_checkpoint j = vl_super (st_vol (jn_store j))"

definition jn_tree_root :: "journal \<Rightarrow> nat" where
  "jn_tree_root j = (case jn_tx j of None \<Rightarrow> sp_tree_root (jn_checkpoint j) | Some t \<Rightarrow> tx_root (tn_tree t))"

definition jn_log_region :: "journal \<Rightarrow> fs_region" where
  "jn_log_region j =
     (case jn_tx j of
        Some t \<Rightarrow> \<lparr>rg_at = tn_at t, rg_bytes = tn_bytes t, rg_crc = 0\<rparr>
      | None \<Rightarrow> sp_region (jn_checkpoint j))"

definition jn_bank :: "(nat \<times> nat) journal_op" where
  "jn_bank j = (case jn_tx j of None \<Rightarrow> (Inl FsCorrupt, j) | Some t \<Rightarrow> (Inr (tn_at t, tn_bytes t), j))"

definition jn_entries :: "journal \<Rightarrow> nat" where
  "jn_entries j = CAPACITY * sp_tree_blocks (jn_checkpoint j) + 1"

definition jn_get :: "key \<Rightarrow> byte list option journal_op" where
  "jn_get k j = on_tree (tree_get (jn_tree_root j) k) j"

definition jn_next_entry :: "nat \<Rightarrow> key \<Rightarrow> bool \<Rightarrow> (key \<times> byte list) option journal_op" where
  "jn_next_entry root k inclusive = on_tree (tree_next root k inclusive)"

definition jn_index :: "key \<Rightarrow> byte list \<Rightarrow> unit journal_op" where
  "jn_index k v j =
     (case jn_tx j of None \<Rightarrow> (Inl FsCorrupt, j) | Some t \<Rightarrow>
      case tree_insert k v (tn_tree t, jn_store j) of
        (r, (tree, s)) \<Rightarrow> (r, j\<lparr>jn_tx := Some (t\<lparr>tn_tree := tree\<rparr>), jn_store := s\<rparr>))"

section \<open>Objects and directories\<close>

definition jn_object :: "nat \<Rightarrow> fs_object journal_op" where
  "jn_object i j =
     (if i \<ge> jn_next j then (Inl FsMissing, j)
      else and_then (jn_get (KObject i)) (\<lambda>found.
        case found of None \<Rightarrow> fail FsCorrupt | Some value \<Rightarrow> of_result (as_object value)) j)"

definition jn_lookup :: "nat \<Rightarrow> byte list \<Rightarrow> nat journal_op" where
  "jn_lookup dir name =
     and_then (jn_object dir) (\<lambda>object.
       if ob_kind object \<noteq> KDir then fail FsKind
       else and_then (jn_get (KDirent dir name)) (\<lambda>found.
         case found of Some value \<Rightarrow> ok (as_dirent value) | None \<Rightarrow> fail FsMissing))"

fun entry_from :: "nat \<Rightarrow> nat \<Rightarrow> key \<Rightarrow> bool \<Rightarrow> (byte list \<times> nat) journal_op" where
  "entry_from left dir k inclusive = (\<lambda>j.
     and_then (jn_next_entry (jn_tree_root j) k inclusive) (\<lambda>found.
       case found of None \<Rightarrow> fail FsCorrupt
       | Some (next, value) \<Rightarrow>
         if \<not> is_dirent dir next then fail FsCorrupt
         else if \<not> inclusive \<and> next \<le> k then fail FsCorrupt
         else (case left of
                 0 \<Rightarrow> of_result (case key_name next of Inl e \<Rightarrow> Inl e | Inr name \<Rightarrow> Inr (name, as_dirent value))
               | Suc left \<Rightarrow> entry_from left dir next False)) j)"

declare entry_from.simps [simp del]

definition jn_entry :: "nat \<Rightarrow> nat \<Rightarrow> (byte list \<times> nat) journal_op" where
  "jn_entry dir index =
     and_then (jn_object dir) (\<lambda>object.
       if ob_kind object \<noteq> KDir then fail FsKind
       else if index \<ge> ob_count object then fail FsMissing
       else entry_from index dir (dirent_start dir) True)"

section \<open>Records of the log\<close>

definition record_in :: "fs_region \<Rightarrow> nat \<Rightarrow> payload_record journal_op" where
  "record_in log cursor =
     (if cursor mod ALIGN \<noteq> 0 \<or> u64_limit \<le> cursor + HEADER \<or> cursor + HEADER > rg_bytes log then fail FsCorrupt
      else and_then (on_volume (vol_block (rg_at log + cursor div BLOCK))) (\<lambda>block.
        case record_parse (sub_slice (cursor mod BLOCK) HEADER block) of Inl e \<Rightarrow> fail e | Inr r \<Rightarrow>
        case record_span r of Inl _ \<Rightarrow> fail FsCorrupt | Inr span \<Rightarrow>
        if u64_limit \<le> cursor + span \<or> cursor + span > rg_bytes log then fail FsCorrupt else ok r))"

function copy_blocks :: "nat \<Rightarrow> nat \<Rightarrow> nat \<Rightarrow> (volume, fs_error, byte list) eff" where
  "copy_blocks base source left v =
     (if left = 0 then (Inr [], v)
      else let within = source mod BLOCK; n = min left (BLOCK - within) in
        case vol_block (base + source div BLOCK) v of (Inl e, v) \<Rightarrow> (Inl e, v) | (Inr block, v) \<Rightarrow>
        case copy_blocks base (source + n) (left - n) v of (Inl e, v) \<Rightarrow> (Inl e, v) | (Inr rest, v) \<Rightarrow>
        (Inr (sub_slice within n block @ rest), v))"
  by pat_completeness auto
termination
  by (relation "measure (\<lambda>(base, source, left, v). left)") (auto simp: BLOCK_def)

declare copy_blocks.simps [simp del]

definition copy_region :: "fs_region \<Rightarrow> nat \<Rightarrow> nat \<Rightarrow> byte list journal_op" where
  "copy_region region source n =
     (if u64_limit \<le> source + n \<or> source + n > rg_bytes region then fail FsCorrupt
      else on_volume (copy_blocks (rg_at region) source n))"

function sum_blocks :: "nat \<Rightarrow> nat \<Rightarrow> nat \<Rightarrow> u32 \<Rightarrow> (volume, fs_error, u32) eff" where
  "sum_blocks base source finish crc v =
     (if source < finish then
        let within = source mod BLOCK; n = min (finish - source) (BLOCK - within) in
        case vol_block (base + source div BLOCK) v of (Inl e, v) \<Rightarrow> (Inl e, v) | (Inr block, v) \<Rightarrow>
        sum_blocks base (source + n) finish (crc_update crc (sub_slice within n block)) v
      else (Inr (crc_finish crc), v))"
  by pat_completeness auto
termination
  by (relation "measure (\<lambda>(base, source, finish, crc, v). finish - source)") (auto simp: BLOCK_def)

declare sum_blocks.simps [simp del]

definition region_checksum :: "fs_region \<Rightarrow> nat \<Rightarrow> nat \<Rightarrow> u32 journal_op" where
  "region_checksum region source n =
     (if u64_limit \<le> source + n \<or> source + n > rg_bytes region then fail FsCorrupt
      else on_volume (sum_blocks (rg_at region) source (source + n) crc_new))"

section \<open>Chunks already verified\<close>

definition is_verified :: "nat \<Rightarrow> nat \<Rightarrow> nat \<Rightarrow> nat \<Rightarrow> verified_record option list \<Rightarrow> bool" where
  "is_verified bank cursor chunk crc rs =
     (Some \<lparr>vr_bank = bank, vr_cursor = cursor, vr_chunk = chunk, vr_crc = crc\<rparr> \<in> set rs)"

definition mark_verified :: "nat \<Rightarrow> nat \<Rightarrow> nat \<Rightarrow> nat \<Rightarrow> journal \<Rightarrow> journal" where
  "mark_verified bank cursor chunk crc j =
     (if is_verified bank cursor chunk crc (jn_verified j) then j
      else j\<lparr>jn_verified := (jn_verified j)[jn_hand j := Some \<lparr>vr_bank = bank, vr_cursor = cursor, vr_chunk = chunk, vr_crc = crc\<rparr>],
             jn_hand := (jn_hand j + 1) mod VERIFIED\<rparr>)"

definition forget_where :: "(verified_record \<Rightarrow> bool) \<Rightarrow> journal \<Rightarrow> journal" where
  "forget_where P j =
     j\<lparr>jn_verified := map (\<lambda>x. case x of None \<Rightarrow> None | Some r \<Rightarrow> if P r then None else Some r) (jn_verified j)\<rparr>"

definition forget_record :: "nat \<Rightarrow> nat \<Rightarrow> journal \<Rightarrow> journal" where
  "forget_record bank cursor = forget_where (\<lambda>r. vr_bank r = bank \<and> vr_cursor r = cursor)"

definition forget_bank :: "nat \<Rightarrow> journal \<Rightarrow> journal" where
  "forget_bank bank = forget_where (\<lambda>r. vr_bank r = bank)"

definition verify_chunk :: "fs_region \<Rightarrow> nat \<Rightarrow> payload_record \<Rightarrow> nat \<Rightarrow> unit journal_op" where
  "verify_chunk log cursor r chunk =
     (case record_checksum_at r chunk of Inl _ \<Rightarrow> fail FsCorrupt | Inr at \<Rightarrow>
      if u64_limit \<le> cursor + at then fail FsCorrupt else
      and_then (copy_region log (cursor + at) 4) (\<lambda>encoded j.
        let crc = le_value encoded in
        if is_verified (rg_at log) cursor chunk crc (jn_verified j) then (Inr (), j) else
        case record_chunk r chunk of Inl _ \<Rightarrow> (Inl FsCorrupt, j) | Inr (offset, bytes) \<Rightarrow>
        case record_payload_at r of Inl _ \<Rightarrow> (Inl FsCorrupt, j) | Inr payload_at \<Rightarrow>
        if u64_limit \<le> cursor + payload_at + offset then (Inl FsCorrupt, j) else
        and_then (region_checksum log (cursor + payload_at + offset) bytes) (\<lambda>found.
          if unat found \<noteq> crc then fail FsChecksum
          else modify (mark_verified (rg_at log) cursor chunk crc)) j))"

fun verify_chunks :: "fs_region \<Rightarrow> nat \<Rightarrow> payload_record \<Rightarrow> nat list \<Rightarrow> unit journal_op" where
  "verify_chunks log cursor r [] = ok ()"
| "verify_chunks log cursor r (chunk # rest) =
     and_then (verify_chunk log cursor r chunk) (\<lambda>_. verify_chunks log cursor r rest)"

definition verify_range :: "fs_region \<Rightarrow> nat \<Rightarrow> nat \<Rightarrow> nat \<Rightarrow> unit journal_op" where
  "verify_range log cursor offset bytes =
     and_then (record_in log cursor) (\<lambda>r.
       if u64_limit \<le> offset + bytes \<or> bytes = 0 \<or> offset + bytes > lr_bytes r then fail FsCorrupt
       else verify_chunks log cursor r [offset div BLOCK ..< (offset + bytes - 1) div BLOCK + 1])"

section \<open>Reading a file\<close>

fun prefetch_ahead :: "nat \<Rightarrow> nat \<Rightarrow> nat \<Rightarrow> nat list \<Rightarrow> (volume, fs_error, unit) eff" where
  "prefetch_ahead base first ahead_end [] = ok ()"
| "prefetch_ahead base first ahead_end (step # steps) =
     (if (first + step) * BLOCK \<ge> ahead_end then ok ()
      else and_then (vol_prefetch (base + (first + step))) (\<lambda>_. prefetch_ahead base first ahead_end steps))"

definition prefetch_around :: "nat \<Rightarrow> nat \<Rightarrow> nat \<Rightarrow> (volume, fs_error, unit) eff" where
  "prefetch_around base first ahead_end =
     and_then (vol_prefetch (base + first)) (\<lambda>_. prefetch_ahead base first ahead_end [1..<AHEAD + 1])"

function payload_blocks :: "nat \<Rightarrow> nat \<Rightarrow> nat \<Rightarrow> nat \<Rightarrow> (volume, fs_error, byte list) eff" where
  "payload_blocks base ahead_end source left v =
     (if left = 0 then (Inr [], v)
      else let within = source mod BLOCK; n = min left (BLOCK - within) in
        case prefetch_around base (source div BLOCK) ahead_end v of (Inl e, v) \<Rightarrow> (Inl e, v) | (Inr _, v) \<Rightarrow>
        case vol_block (base + source div BLOCK) v of (Inl e, v) \<Rightarrow> (Inl e, v) | (Inr block, v) \<Rightarrow>
        case payload_blocks base ahead_end (source + n) (left - n) v of (Inl e, v) \<Rightarrow> (Inl e, v) | (Inr rest, v) \<Rightarrow>
        (Inr (sub_slice within n block @ rest), v))"
  by pat_completeness auto
termination
  by (relation "measure (\<lambda>(base, ahead_end, source, left, v). left)") (auto simp: BLOCK_def)

declare payload_blocks.simps [simp del]

definition copy_payload :: "nat \<Rightarrow> nat \<Rightarrow> nat \<Rightarrow> nat \<Rightarrow> byte list journal_op" where
  "copy_payload cursor payload_offset payload_end n j =
     (let log = jn_log_region j in
      and_then (record_in log cursor) (\<lambda>r.
        if u64_limit \<le> payload_offset + n \<or> payload_offset + n > payload_end \<or> payload_end > lr_bytes r then fail FsCorrupt else
        case record_payload_at r of Inl _ \<Rightarrow> fail FsCorrupt | Inr payload_at \<Rightarrow>
        let source = cursor + payload_at + payload_offset; ahead_end = cursor + payload_at + payload_end in
        if u64_limit \<le> source + n \<or> u64_limit \<le> ahead_end then fail FsCorrupt
        else if source + n > ahead_end \<or> ahead_end > rg_bytes log then fail FsCorrupt else
        and_then (on_volume (prefetch_around (rg_at log) (source div BLOCK) ahead_end)) (\<lambda>_.
        and_then (verify_range log cursor payload_offset n) (\<lambda>_.
        on_volume (payload_blocks (rg_at log) ahead_end source n)))) j)"

fun read_loop :: "nat \<Rightarrow> nat \<Rightarrow> nat \<Rightarrow> nat \<Rightarrow> nat \<Rightarrow> key \<Rightarrow> bool \<Rightarrow> byte list \<Rightarrow> byte list journal_op" where
  "read_loop 0 root file offset read_end k inclusive buf = fail FsDiverge"
| "read_loop (Suc steps) root file offset read_end k inclusive buf =
     and_then (jn_next_entry root k inclusive) (\<lambda>next.
       case next of None \<Rightarrow> ok buf
       | Some (found, value) \<Rightarrow>
         if \<not> is_extent file found then ok buf else
         case as_extent value of (at, skip, len) \<Rightarrow>
         if len = 0 then read_loop steps root file offset read_end found False buf else
         let held_end = key_end found in
         if held_end < len then fail FsCorrupt else
         let held = held_end - len in
         and_then (modify (\<lambda>j. j\<lparr>jn_hint := Some \<lparr>eh_file = file, eh_start = held, eh_end = held_end, eh_at = at, eh_skip = skip, eh_len = len\<rparr>\<rparr>)) (\<lambda>_.
         if held \<ge> read_end then ok buf else
         let start = max offset held; finish = min read_end held_end in
         if start < finish then
           and_then (copy_payload at (skip + (start - held)) (skip + len) (finish - start)) (\<lambda>bytes.
             read_loop steps root file offset read_end found False (put_slice (start - offset) bytes buf))
         else read_loop steps root file offset read_end found False buf))"

definition jn_read :: "nat \<Rightarrow> nat \<Rightarrow> nat \<Rightarrow> byte list journal_op" where
  "jn_read file offset room =
     and_then (jn_object file) (\<lambda>object.
       if ob_kind object \<noteq> KFile then fail FsKind
       else if offset > ob_size object then fail FsRange else
       let want = min (ob_size object - offset) room; buf = replicate want 0 in
       if u64_limit \<le> offset + want then fail FsCorrupt else
       let read_end = offset + want in (\<lambda>j.
       case (case jn_hint j of None \<Rightarrow> None
             | Some h \<Rightarrow> if eh_file h = file \<and> eh_start h \<le> offset \<and> offset < eh_end h then Some h else None) of
         Some h \<Rightarrow>
           let finish = min read_end (eh_end h) in
           and_then (copy_payload (eh_at h) (eh_skip h + (offset - eh_start h)) (eh_skip h + eh_len h) (finish - offset)) (\<lambda>bytes j.
             let buf = put_slice 0 bytes buf in
             if finish = read_end then (Inr buf, j)
             else read_loop (jn_entries j) (jn_tree_root j) file offset read_end (KExtent file (eh_end h)) False buf j) j
       | None \<Rightarrow>
           if u64_limit \<le> offset + 1 then (Inl FsCorrupt, j)
           else read_loop (jn_entries j) (jn_tree_root j) file offset read_end (KExtent file (offset + 1)) True buf j))"

section \<open>Appending records\<close>

definition bank_capacity :: "journal \<Rightarrow> nat option" where
  "bank_capacity j = checked_mul (sp_log_blocks (jn_checkpoint j)) BLOCK"

definition set_bytes :: "nat \<Rightarrow> unit journal_op" where
  "set_bytes n j = (case jn_tx j of None \<Rightarrow> (Inl FsCorrupt, j) | Some t \<Rightarrow> (Inr (), j\<lparr>jn_tx := Some (t\<lparr>tn_bytes := n\<rparr>)\<rparr>))"

text \<open>The chunks whose checksums lie in the sector at an offset of a record.\<close>

definition sector_chunks :: "nat \<Rightarrow> nat \<Rightarrow> nat list" where
  "sector_chunks payload_start written =
     (let checksums_start = max written HEADER; checksums_end = min (written + SECTOR) payload_start in
      if checksums_start < checksums_end
      then [(checksums_start - HEADER) div 4 ..< (checksums_end - HEADER) div 4] else [])"

definition append_sector :: "payload_record \<Rightarrow> nat \<Rightarrow> byte list \<Rightarrow> nat \<Rightarrow> byte list" where
  "append_sector r payload_start payload written =
     (let sector = replicate SECTOR 0;
          sector = (if written = 0 then put_slice 0 (record_encode r) sector else sector);
          sector = fold (\<lambda>chunk sector.
              put_slice (HEADER + chunk * 4 - written) (le_bytes 4 (unat (crc32c (sub_slice (chunk * BLOCK) BLOCK payload)))) sector)
            (sector_chunks payload_start written) sector;
          start = max written payload_start;
          finish = min (written + SECTOR) (payload_start + length payload)
      in if start < finish
         then put_slice (start - written) (sub_slice (start - payload_start) (finish - start) payload) sector
         else sector)"

function append_loop :: "payload_record \<Rightarrow> nat \<Rightarrow> byte list \<Rightarrow> nat \<Rightarrow> nat \<Rightarrow> nat \<Rightarrow> nat \<Rightarrow> (volume, fs_error, unit) eff" where
  "append_loop r payload_start payload at cursor span written v =
     (if written < span then
        case write_aligned at (cursor + written) (append_sector r payload_start payload written) v of
          (Inl e, v) \<Rightarrow> (Inl e, v)
        | (Inr _, v) \<Rightarrow> append_loop r payload_start payload at cursor span (written + ALIGN) v
      else (Inr (), v))"
  by pat_completeness auto
termination
  by (relation "measure (\<lambda>(r, payload_start, payload, at, cursor, span, written, v). span - written)") (auto simp: ALIGN_def SECTOR_def)

declare append_loop.simps [simp del]

fun mark_chunks :: "nat \<Rightarrow> nat \<Rightarrow> nat \<Rightarrow> byte list list \<Rightarrow> journal \<Rightarrow> journal" where
  "mark_chunks at cursor chunk [] j = j"
| "mark_chunks at cursor chunk (bytes # rest) j =
     mark_chunks at cursor (chunk + 1) rest (mark_verified at cursor chunk (unat (crc32c bytes)) j)"

fun chunks_of :: "nat \<Rightarrow> byte list \<Rightarrow> byte list list" where
  "chunks_of n bytes = (if n = 0 \<or> bytes = [] then [] else take n bytes # chunks_of n (drop n bytes))"

declare chunks_of.simps [simp del]

definition jn_append :: "payload_record \<Rightarrow> byte list \<Rightarrow> nat journal_op" where
  "jn_append r payload =
     (if length payload \<noteq> lr_bytes r then fail FsCorrupt else
      and_then jn_bank (\<lambda>(at, cursor).
      and_then (modify (forget_record at cursor)) (\<lambda>_.
      and_then (of_result (record_span r)) (\<lambda>span j.
        if u64_limit \<le> cursor + span then (Inl FsFull, j) else
        case bank_capacity j of None \<Rightarrow> (Inl FsCorrupt, j) | Some capacity \<Rightarrow>
        if cursor + span > capacity then (Inl FsFull, j) else
        and_then (of_result (record_payload_at r)) (\<lambda>payload_start.
        and_then (on_volume (append_loop r payload_start payload at cursor span 0)) (\<lambda>_.
        and_then (set_bytes (cursor + span)) (\<lambda>_.
        and_then (modify (mark_chunks at cursor 0 (chunks_of BLOCK payload))) (\<lambda>_.
        ok cursor)))) j))))"

text \<open>The same sectors with the payload taken from another bank.\<close>

fun copied_sums :: "fs_region \<Rightarrow> nat \<Rightarrow> payload_record \<Rightarrow> nat \<Rightarrow> nat list \<Rightarrow> byte list \<Rightarrow> byte list journal_op" where
  "copied_sums region source_at r written [] sector = ok sector"
| "copied_sums region source_at r written (chunk # rest) sector =
     and_then (of_result (record_chunk r chunk)) (\<lambda>(offset, bytes).
       if u64_limit \<le> source_at + offset then fail FsCorrupt else
       and_then (region_checksum region (source_at + offset) bytes) (\<lambda>crc.
         copied_sums region source_at r written rest
           (put_slice (HEADER + chunk * 4 - written) (le_bytes 4 (unat crc)) sector)))"

definition copied_sector :: "fs_region \<Rightarrow> nat \<Rightarrow> payload_record \<Rightarrow> nat \<Rightarrow> nat \<Rightarrow> byte list journal_op" where
  "copied_sector region source_at r payload_start written =
     (let sector = replicate SECTOR 0;
          sector = (if written = 0 then put_slice 0 (record_encode r) sector else sector);
          start = max written payload_start;
          finish = min (written + SECTOR) (payload_start + lr_bytes r)
      in and_then (copied_sums region source_at r written (sector_chunks payload_start written) sector) (\<lambda>sector.
         if start < finish then
           and_then (copy_region region (source_at + start - payload_start) (finish - start)) (\<lambda>bytes.
             ok (put_slice (start - written) bytes sector))
         else ok sector))"

function append_from_loop :: "fs_region \<Rightarrow> nat \<Rightarrow> payload_record \<Rightarrow> nat \<Rightarrow> nat \<Rightarrow> nat \<Rightarrow> nat \<Rightarrow> nat \<Rightarrow> unit journal_op" where
  "append_from_loop region source_at r payload_start at cursor span written j =
     (if written < span then
        case and_then (copied_sector region source_at r payload_start written)
               (\<lambda>sector. on_volume (write_aligned at (cursor + written) sector)) j of
          (Inl e, j) \<Rightarrow> (Inl e, j)
        | (Inr _, j) \<Rightarrow> append_from_loop region source_at r payload_start at cursor span (written + ALIGN) j
      else (Inr (), j))"
  by pat_completeness auto
termination
  by (relation "measure (\<lambda>(region, source_at, r, payload_start, at, cursor, span, written, j). span - written)")
    (auto simp: ALIGN_def SECTOR_def)

declare append_from_loop.simps [simp del]

definition append_from :: "fs_region \<Rightarrow> nat \<Rightarrow> payload_record \<Rightarrow> nat journal_op" where
  "append_from region source_at r =
     and_then jn_bank (\<lambda>(at, cursor).
     and_then (modify (forget_record at cursor)) (\<lambda>_.
     and_then (of_result (record_span r)) (\<lambda>span j.
       if u64_limit \<le> cursor + span then (Inl FsFull, j) else
       case bank_capacity j of None \<Rightarrow> (Inl FsCorrupt, j) | Some capacity \<Rightarrow>
       if u64_limit \<le> source_at + lr_bytes r then (Inl FsCorrupt, j)
       else if cursor + span > capacity then (Inl FsFull, j)
       else if source_at + lr_bytes r > rg_bytes region then (Inl FsCorrupt, j) else
       and_then (of_result (record_payload_at r)) (\<lambda>payload_start.
       and_then (append_from_loop region source_at r payload_start at cursor span 0) (\<lambda>_.
       and_then (set_bytes (cursor + span)) (\<lambda>_.
       ok cursor))) j)))"

section \<open>Opening a transaction\<close>

definition free_bank :: "nat \<Rightarrow> journal \<Rightarrow> fs_error + nat" where
  "free_bank source j =
     (let checkpoint = jn_checkpoint j; active = rg_at (sp_region checkpoint) in
      case List.find (\<lambda>at. at \<noteq> source \<and> at \<noteq> active \<and> Some at \<noteq> vl_prev_log (st_vol (jn_store j)))
             (concat (map (\<lambda>bank. case log_bank checkpoint bank of Inl _ \<Rightarrow> [] | Inr at \<Rightarrow> [at]) [0..<LOG_BANKS])) of
        None \<Rightarrow> Inl FsFull | Some at \<Rightarrow> Inr at)"

text \<open>One live slice moves to the bank the transaction fills.\<close>

definition move_extent :: "fs_region \<Rightarrow> key \<Rightarrow> nat \<Rightarrow> nat \<Rightarrow> nat \<Rightarrow> nat \<Rightarrow> unit journal_op" where
  "move_extent source found object cursor skip len =
     (let finish = key_end found in
      if finish < len then fail FsCorrupt else
      let start = finish - len in
      and_then (record_in source cursor) (\<lambda>r.
        if lr_object r \<noteq> object \<or> lr_offset r + skip \<noteq> start \<or> u64_limit \<le> lr_offset r + skip \<or> skip + len > lr_bytes r
        then fail FsCorrupt else
        and_then (verify_range source cursor skip len) (\<lambda>_.
          case record_payload_at r of Inl _ \<Rightarrow> fail FsCorrupt | Inr payload_at \<Rightarrow>
          if u64_limit \<le> cursor + payload_at + skip then fail FsCorrupt else
          and_then (of_result (record_checked object start len)) (\<lambda>moved.
          and_then (append_from source (cursor + payload_at + skip) moved) (\<lambda>at.
          jn_index found (value_extent at 0 len))))))"

fun compact_loop :: "nat \<Rightarrow> fs_region \<Rightarrow> nat \<Rightarrow> key \<Rightarrow> bool \<Rightarrow> unit journal_op" where
  "compact_loop 0 source root k inclusive = fail FsDiverge"
| "compact_loop (Suc steps) source root k inclusive =
     and_then (jn_next_entry root k inclusive) (\<lambda>next.
       case next of None \<Rightarrow> ok ()
       | Some (found, value) \<Rightarrow>
         (case extent_object found of None \<Rightarrow> ok ()
          | Some object \<Rightarrow>
            case as_extent value of (cursor, skip, len) \<Rightarrow>
            if len = 0 then compact_loop steps source root found False
            else and_then (move_extent source found object cursor skip len) (\<lambda>_.
              compact_loop steps source root found False)))"

definition jn_compact :: "fs_region \<Rightarrow> nat \<Rightarrow> unit journal_op" where
  "jn_compact source root j = compact_loop (jn_entries j) source root (KExtent 0 0) True j"

definition tx_room :: "nat \<Rightarrow> nat \<Rightarrow> journal \<Rightarrow> bool" where
  "tx_room reserve capacity j =
     (case jn_tx j of None \<Rightarrow> False | Some t \<Rightarrow> tn_bytes t + reserve < u64_limit \<and> tn_bytes t + reserve \<le> capacity)"

definition begin_open :: "transaction \<Rightarrow> nat \<Rightarrow> nat \<Rightarrow> unit journal_op" where
  "begin_open before reserve capacity j =
     (if tx_room reserve capacity j then (Inr (), j) else
      let source = \<lparr>rg_at = tn_at before, rg_bytes = tn_bytes before, rg_crc = 0\<rparr> in
      case free_bank (tn_at before) j of Inl e \<Rightarrow> (Inl e, j) | Inr target \<Rightarrow>
      let j = (forget_bank target j)\<lparr>jn_tx := Some (before\<lparr>tn_at := target, tn_bytes := 0\<rparr>)\<rparr> in
      case jn_compact source (tx_root (tn_tree before)) j of
        (Inl e, j) \<Rightarrow> (Inl e, j\<lparr>jn_tx := Some before\<rparr>)
      | (Inr _, j) \<Rightarrow>
        if tx_room reserve capacity j then (Inr (), j) else (Inl FsFull, j\<lparr>jn_tx := Some before\<rparr>))"

definition begin_new :: "nat \<Rightarrow> nat \<Rightarrow> unit journal_op" where
  "begin_new reserve capacity =
     and_then (on_tree tree_begin) (\<lambda>tree j.
       let checkpoint = jn_checkpoint j; active = sp_region checkpoint in
       if rg_bytes active + reserve < u64_limit \<and> rg_bytes active + reserve \<le> capacity
       then (Inr (), j\<lparr>jn_tx := Some \<lparr>tn_at = rg_at active, tn_bytes = rg_bytes active, tn_tree = tree\<rparr>\<rparr>) else
       case free_bank (rg_at active) j of Inl e \<Rightarrow> (Inl e, j) | Inr target \<Rightarrow>
       let j = (forget_bank target j)\<lparr>jn_tx := Some \<lparr>tn_at = target, tn_bytes = 0, tn_tree = tree\<rparr>\<rparr> in
       case jn_compact active (sp_tree_root checkpoint) j of
         (Inl e, j) \<Rightarrow> (Inl e, j\<lparr>jn_tx := None\<rparr>)
       | (Inr _, j) \<Rightarrow>
         if tx_room reserve capacity j then (Inr (), j) else (Inl FsFull, j\<lparr>jn_tx := None\<rparr>))"

definition jn_begin :: "nat \<Rightarrow> unit journal_op" where
  "jn_begin reserve j =
     (case bank_capacity j of None \<Rightarrow> (Inl FsCorrupt, j) | Some capacity \<Rightarrow>
      if reserve > capacity then (Inl FsFull, j) else
      case jn_tx j of Some t \<Rightarrow> begin_open t reserve capacity j | None \<Rightarrow> begin_new reserve capacity j)"

definition jn_snapshot :: "nat \<Rightarrow> transaction journal_op" where
  "jn_snapshot reserve =
     and_then (jn_begin reserve) (\<lambda>_ j. case jn_tx j of None \<Rightarrow> (Inl FsCorrupt, j) | Some t \<Rightarrow> (Inr t, j))"

text \<open>A mutation that fails puts the copy of the transaction back.\<close>

definition or_rollback :: "transaction \<Rightarrow> 'a journal_op \<Rightarrow> 'a journal_op" where
  "or_rollback before m j =
     (case m j of (Inl e, j) \<Rightarrow> (Inl e, j\<lparr>jn_tx := Some before\<rparr>) | (Inr x, j) \<Rightarrow> (Inr x, j))"

section \<open>Mutations\<close>

definition jn_create :: "nat \<Rightarrow> byte list \<Rightarrow> fs_kind \<Rightarrow> nat journal_op" where
  "jn_create parent name kind =
     and_then (jn_object parent) (\<lambda>parent_object.
       if ob_kind parent_object \<noteq> KDir then fail FsKind else (\<lambda>j.
       case jn_lookup parent name j of
         (Inr _, j) \<Rightarrow> (Inl FsExists, j)
       | (Inl e, j) \<Rightarrow>
         if e \<noteq> FsMissing then (Inl e, j)
         else if jn_next j + 1 \<ge> 2 ^ 32 then (Inl FsFull, j)
         else if ob_count parent_object + 1 \<ge> 2 ^ 32 then (Inl FsFull, j)
         else
           let object = jn_next j; parent_object = parent_object\<lparr>ob_count := ob_count parent_object + 1\<rparr> in
           and_then (jn_snapshot 0) (\<lambda>before.
           and_then (or_rollback before
             (and_then (jn_index (KObject parent) (value_object parent_object)) (\<lambda>_.
              and_then (jn_index (KObject object) (value_object \<lparr>ob_kind = kind, ob_count = 0, ob_size = 0\<rparr>)) (\<lambda>_.
              jn_index (KDirent parent name) (value_dirent object))))) (\<lambda>_.
           and_then (modify (\<lambda>j. j\<lparr>jn_next := object + 1\<rparr>)) (\<lambda>_.
           ok object))) j))"

fun trim_loop :: "nat \<Rightarrow> nat \<Rightarrow> nat \<Rightarrow> nat \<Rightarrow> key \<Rightarrow> bool \<Rightarrow> unit journal_op" where
  "trim_loop 0 file offset finish k inclusive = fail FsDiverge"
| "trim_loop (Suc steps) file offset finish k inclusive = (\<lambda>j.
     and_then (jn_next_entry (jn_tree_root j) k inclusive) (\<lambda>next.
       case next of None \<Rightarrow> ok ()
       | Some (found, value) \<Rightarrow>
         if \<not> is_extent file found then ok () else
         case as_extent value of (at, skip, len) \<Rightarrow>
         if len = 0 then trim_loop steps file offset finish found False else
         let held_end = key_end found in
         if held_end < len then fail FsCorrupt else
         let held = held_end - len in
         if held \<ge> finish then ok () else
         and_then (if held < offset
                   then jn_index (KExtent file offset) (value_extent at skip ((offset - held) mod 2 ^ 32)) else ok ()) (\<lambda>_.
         and_then (if held_end > finish then
                     (let cut = (finish - held) mod 2 ^ 32 in
                      if skip + cut \<ge> 2 ^ 32 then fail FsCorrupt
                      else jn_index found (value_extent at (skip + cut) (len - cut)))
                   else if held_end \<noteq> finish then jn_index found value_whiteout
                   else ok ()) (\<lambda>_.
         trim_loop steps file offset finish found False))) j)"

definition jn_trim :: "nat \<Rightarrow> nat \<Rightarrow> nat \<Rightarrow> unit journal_op" where
  "jn_trim file offset finish j =
     (if u64_limit \<le> offset + 1 then (Inl FsRange, j)
      else trim_loop (jn_entries j) file offset finish (KExtent file (offset + 1)) True j)"

definition jn_write :: "nat \<Rightarrow> nat \<Rightarrow> byte list \<Rightarrow> nat journal_op" where
  "jn_write file offset bytes =
     and_then (jn_object file) (\<lambda>object.
       if ob_kind object \<noteq> KFile then fail FsKind
       else if u64_limit \<le> offset + length bytes then fail FsRange
       else if bytes = [] then ok 0 else
       let finish = offset + length bytes in
       and_then (modify (\<lambda>j. j\<lparr>jn_hint := None\<rparr>)) (\<lambda>_.
       and_then (of_result (record_write file offset (length bytes))) (\<lambda>r.
       and_then (of_result (record_span r)) (\<lambda>span.
       and_then (jn_snapshot span) (\<lambda>before.
       and_then (or_rollback before (jn_append r bytes)) (\<lambda>cursor.
       let object = object\<lparr>ob_size := max (ob_size object) finish\<rparr> in
       and_then (or_rollback before
         (and_then (jn_index (KObject file) (value_object object)) (\<lambda>_.
          and_then (jn_trim file offset finish) (\<lambda>_.
          jn_index (KExtent file finish) (value_extent cursor 0 (length bytes)))))) (\<lambda>_.
       ok (length bytes))))))))"

section \<open>Publishing\<close>

definition jn_sync :: "nat journal_op" where
  "jn_sync j =
     (case jn_tx j of
        None \<Rightarrow> and_then (on_volume vol_flush) (\<lambda>_ j. (Inr (sp_generation (jn_checkpoint j)), j)) j
      | Some t \<Rightarrow>
        and_then (on_volume (log_checksum \<lparr>rg_at = tn_at t, rg_bytes = tn_bytes t, rg_crc = 0\<rparr>)) (\<lambda>crc j.
          let checkpoint = jn_checkpoint j in
          if u64_limit \<le> sp_generation checkpoint + 1 then (Inl FsFull, j) else
          let checkpoint = checkpoint\<lparr>sp_generation := sp_generation checkpoint + 1, sp_tree_root := tx_root (tn_tree t),
                 sp_region := \<lparr>rg_at = tn_at t, rg_bytes = tn_bytes t, rg_crc = unat crc\<rparr>\<rparr>;
              copy = 1 - vl_active (st_vol (jn_store j))
          in and_then (on_volume vol_flush) (\<lambda>_.
             and_then (on_volume (write_checkpoint copy checkpoint)) (\<lambda>_.
             and_then (on_volume vol_flush) (\<lambda>_.
             and_then (on_volume (modify (vol_commit copy checkpoint))) (\<lambda>_.
             and_then (modify (\<lambda>j. j\<lparr>jn_tx := None\<rparr>)) (\<lambda>_.
             ok (sp_generation checkpoint)))))) j) j)"

section \<open>Validating at mount\<close>

function count_objects :: "nat \<Rightarrow> nat journal_op" where
  "count_objects next j =
     (case jn_next_entry (jn_tree_root j) (KObject next) True j of
        (Inl e, j) \<Rightarrow> (Inl e, j)
      | (Inr None, j) \<Rightarrow> (Inr next, j)
      | (Inr (Some (k, value)), j) \<Rightarrow>
        (case key_as_object k of None \<Rightarrow> (Inr next, j) | Some object \<Rightarrow>
         if object \<noteq> next then (Inl FsCorrupt, j) else
         case as_object value of Inl e \<Rightarrow> (Inl e, j) | Inr _ \<Rightarrow>
         if next + 1 < 2 ^ 32 then count_objects (next + 1) j else (Inl FsCorrupt, j)))"
  by pat_completeness auto
termination
  by (relation "measure (\<lambda>(next, j). 2 ^ 32 - next)") (auto simp: diff_less_mono2)

declare count_objects.simps [simp del]

fun count_dirents :: "nat \<Rightarrow> nat \<Rightarrow> key \<Rightarrow> bool \<Rightarrow> nat \<Rightarrow> nat journal_op" where
  "count_dirents 0 dir k inclusive count = fail FsDiverge"
| "count_dirents (Suc steps) dir k inclusive count = (\<lambda>j.
     and_then (jn_next_entry (jn_tree_root j) k inclusive) (\<lambda>found.
       case found of None \<Rightarrow> ok count
       | Some (next, value) \<Rightarrow>
         if dirent_parent next \<noteq> Some dir then ok count else (\<lambda>j.
         if as_dirent value \<ge> jn_next j then (Inl FsCorrupt, j) else
         and_then (of_result (key_name next)) (\<lambda>_.
           if count + 1 \<ge> 2 ^ 32 then fail FsCorrupt
           else count_dirents steps dir next False (count + 1)) j)) j)"

definition validate_object :: "nat \<Rightarrow> unit journal_op" where
  "validate_object i =
     and_then (jn_object i) (\<lambda>object.
       if ob_kind object = KFile then (if ob_count object \<noteq> 0 then fail FsCorrupt else ok ())
       else if ob_size object \<noteq> 0 then fail FsCorrupt
       else (\<lambda>j. and_then (count_dirents (jn_entries j) i (dirent_start i) True 0) (\<lambda>count.
         if count \<noteq> ob_count object then fail FsCorrupt else ok ()) j))"

fun validate_objects :: "nat list \<Rightarrow> unit journal_op" where
  "validate_objects [] = ok ()"
| "validate_objects (i # rest) = and_then (validate_object i) (\<lambda>_. validate_objects rest)"

fun validate_extents :: "nat \<Rightarrow> nat \<Rightarrow> key \<Rightarrow> bool \<Rightarrow> (nat \<times> nat) option \<Rightarrow> unit journal_op" where
  "validate_extents 0 root k inclusive prior = fail FsDiverge"
| "validate_extents (Suc steps) root k inclusive prior =
     and_then (jn_next_entry root k inclusive) (\<lambda>next.
       case next of None \<Rightarrow> ok ()
       | Some (found, value) \<Rightarrow>
         (case extent_object found of None \<Rightarrow> ok ()
          | Some object \<Rightarrow>
            case as_extent value of (at, skip, len) \<Rightarrow>
            if len = 0 then validate_extents steps root found False prior else
            let finish = key_end found in
            if finish < len then fail FsCorrupt else
            let start = finish - len in
            if (case prior of None \<Rightarrow> False | Some (held, held_end) \<Rightarrow> held = object \<and> held_end > start) then fail FsCorrupt else
            (\<lambda>j. and_then (record_in (jn_log_region j) at) (\<lambda>r.
               if lr_object r \<noteq> object \<or> lr_offset r + skip \<noteq> start \<or> u64_limit \<le> lr_offset r + skip \<or> skip + len > lr_bytes r
               then fail FsCorrupt
               else validate_extents steps root found False (Some (object, finish))) j)))"

definition validate_index :: "unit journal_op" where
  "validate_index j =
     (if rg_bytes (jn_log_region j) > 0 \<and> jn_tree_root j = 0 then (Inl FsCorrupt, j)
      else validate_extents (jn_entries j) (jn_tree_root j) (KExtent 0 0) True None j)"

text \<open>Reading records and objects leaves the log region as it is, so the walk takes it once.\<close>

function validate_log_from :: "fs_region \<Rightarrow> nat \<Rightarrow> unit journal_op" where
  "validate_log_from log cursor j =
     (if cursor < rg_bytes log then
        (case record_in log cursor j of (Inl e, j) \<Rightarrow> (Inl e, j) | (Inr r, j) \<Rightarrow>
         if lr_object r \<ge> jn_next j then (Inl FsCorrupt, j) else
         case jn_object (lr_object r) j of (Inl e, j) \<Rightarrow> (Inl e, j) | (Inr object, j) \<Rightarrow>
         if ob_kind object \<noteq> KFile \<or> u64_limit \<le> lr_offset r + lr_bytes r then (Inl FsCorrupt, j) else
         case record_span r of Inl _ \<Rightarrow> (Inl FsCorrupt, j) | Inr span \<Rightarrow>
         if u64_limit \<le> cursor + span then (Inl FsCorrupt, j) else validate_log_from log (cursor + span) j)
      else if cursor \<noteq> rg_bytes log then (Inl FsCorrupt, j) else validate_index j)"
  by pat_completeness auto
termination
  by (relation "measure (\<lambda>(log, cursor, j). rg_bytes log - cursor)") (auto dest: record_span_positive)

declare validate_log_from.simps [simp del]

definition validate_log :: "unit journal_op" where
  "validate_log j = validate_log_from (jn_log_region j) 0 j"

definition jn_replay :: "unit journal_op" where
  "jn_replay j =
     (if jn_tree_root j = 0 then (Inl FsCorrupt, j) else
      and_then (count_objects 0) (\<lambda>next j.
        let root = sp_root (jn_checkpoint j) in
        if next = 0 \<or> root \<ge> next then (Inl FsCorrupt, j) else
        and_then (modify (\<lambda>j. j\<lparr>jn_next := next\<rparr>)) (\<lambda>_.
        and_then (jn_object root) (\<lambda>object.
          if ob_kind object \<noteq> KDir then fail FsCorrupt else
          and_then (validate_objects [0..<next]) (\<lambda>_. validate_log))) j) j)"

definition jn_fresh :: "volume \<Rightarrow> journal" where
  "jn_fresh v =
     \<lparr>jn_store = \<lparr>st_vol = v, st_cache = cache_new\<rparr>, jn_tx = None, jn_next = 0,
      jn_verified = replicate VERIFIED None, jn_hand = 0, jn_hint = None\<rparr>"

definition jn_mount :: "faulty \<Rightarrow> fs_error + journal" where
  "jn_mount d =
     (case vol_mount d of Inl e \<Rightarrow> Inl e | Inr v \<Rightarrow>
      case jn_replay (jn_fresh v) of (Inl e, _) \<Rightarrow> Inl e | (Inr _, j) \<Rightarrow> Inr j)"

definition jn_remount :: "unit journal_op" where
  "jn_remount =
     and_then (on_volume vol_remount) (\<lambda>_.
     and_then (modify (\<lambda>j. j\<lparr>jn_tx := None, jn_store := (jn_store j)\<lparr>st_cache := cache_new\<rparr>,
        jn_verified := replicate VERIFIED None, jn_hand := 0, jn_hint := None\<rparr>)) (\<lambda>_.
     jn_replay))"

end
