(* ===== verification/Fs_Tree_Insert.thy ===== *)
theory Fs_Tree_Insert
  imports Fs_Tree_Lookup
begin

text \<open>
  Insertion. \<open>kv_insert\<close> is the update of a sorted list of entries; the theory shows that a leaf and
  the nodes above it, rewritten and split by position, hold exactly that list, that the new tree
  stands on blocks of its own, and that no block a checkpoint protects is written.
\<close>

section \<open>Sorted lists of entries\<close>

fun kv_insert :: "key \<Rightarrow> byte list \<Rightarrow> (key \<times> byte list) list \<Rightarrow> (key \<times> byte list) list" where
  "kv_insert k v [] = [(k, v)]"
| "kv_insert k v ((k', v') # xs) =
     (if k' < k then (k', v') # kv_insert k v xs else if k' = k then (k, v) # xs else (k, v) # (k', v') # xs)"

lemma kv_insert_keys: "fst ` set (kv_insert k v xs) = insert k (fst ` set xs)"
  by (induction k v xs rule: kv_insert.induct) auto

lemma kv_insert_sorted: "kv_sorted xs \<Longrightarrow> kv_sorted (kv_insert k v xs)"
proof (induction k v xs rule: kv_insert.induct)
  case (2 k v k' v' xs)
  have keys: "set (map fst (kv_insert k v xs)) = insert k (set (map fst xs))" using kv_insert_keys [of k v xs] by simp
  show ?case using 2 keys by (auto simp del: set_map intro: less_trans)
qed simp

lemma kv_insert_map_of: "kv_sorted xs \<Longrightarrow> map_of (kv_insert k v xs) = (map_of xs)(k \<mapsto> v)"
proof (induction k v xs rule: kv_insert.induct)
  case (2 k v k' v' xs)
  then show ?case by (auto simp: fun_upd_twist)
qed simp

lemma kv_insert_nonempty [simp]: "kv_insert k v xs \<noteq> []"
  by (cases "(k, v, xs)" rule: kv_insert.cases) auto

lemma kv_insert_append:
  "\<forall>x \<in> set xs. fst x < k \<Longrightarrow> kv_insert k v (xs @ ys) = xs @ kv_insert k v ys"
  by (induction xs) auto

lemma kv_insert_before:
  "\<forall>y \<in> set ys. k < fst y \<Longrightarrow> kv_insert k v (xs @ ys) = kv_insert k v xs @ ys"
  by (induction k v xs rule: kv_insert.induct) (cases ys; auto dest: less_not_sym)+

section \<open>Leaves\<close>

lemma insert_nth_nth: "i \<le> length xs \<Longrightarrow> j \<le> length xs \<Longrightarrow> insert_nth i x xs ! j = spliced i x xs j"
  by (auto simp: insert_nth_def spliced_def nth_append nth_Cons' min_def)

lemma spliced_map:
  assumes "i \<le> length xs" and "to \<le> length xs + 1"
  shows "map (spliced i x xs) [from..<to] = take (to - from) (drop from (insert_nth i x xs))"
proof (rule nth_equalityI)
  fix j
  assume "j < length (map (spliced i x xs) [from..<to])"
  then have "from + j < to" by simp
  then show "map (spliced i x xs) [from..<to] ! j = take (to - from) (drop from (insert_nth i x xs)) ! j"
    using assms insert_nth_nth [of i xs "from + j" x] by simp
qed (use assms in auto)

lemma zip_insert_nth:
  "length xs = length ys \<Longrightarrow> zip (insert_nth i a xs) (insert_nth i b ys) = insert_nth i (a, b) (zip xs ys)"
  by (simp add: insert_nth_def zip_append take_zip drop_zip)

lemma kv_insert_at:
  assumes "i = partition_point (\<lambda>held. held < k) (map fst xs)" and "kv_sorted xs"
  shows "kv_insert k v xs = (if i < length xs \<and> fst (xs ! i) = k then xs[i := (k, v)] else insert_nth i (k, v) xs)"
  using assms
proof (induction xs arbitrary: i)
  case (Cons x xs)
  obtain k' v' where x: "x = (k', v')" by fastforce
  show ?case
  proof (cases "k' < k")
    case True
    then show ?thesis using Cons.IH [OF refl] Cons.prems x by (simp add: partition_point_simps insert_nth_def)
  next
    case False
    then show ?thesis using Cons.prems x by (auto simp: partition_point_simps insert_nth_def)
  qed
qed (simp add: partition_point_simps insert_nth_def)

lemma leaf_insert:
  assumes "node_wf n" and "nd_level n = 0"
  shows "kv_insert k v (zip (nd_keys n) (nd_values n)) =
    (if node_lower n k < nd_len n \<and> nd_keys n ! node_lower n k = k
     then zip (nd_keys n) ((nd_values n)[node_lower n k := v])
     else zip (insert_nth (node_lower n k) k (nd_keys n)) (insert_nth (node_lower n k) v (nd_values n)))"
proof -
  let ?xs = "zip (nd_keys n) (nd_values n)" and ?i = "node_lower n k"
  have s: "sorted_wrt (<) (nd_keys n)" and len: "length (nd_values n) = nd_len n" using assms by (auto simp: node_wf_def)
  have keys: "map fst ?xs = nd_keys n" using len by simp
  have i: "?i = partition_point (\<lambda>held. held < k) (map fst ?xs)" using node_lower_point [OF s] keys by simp
  have "?xs[?i := (k, v)] = zip (nd_keys n) ((nd_values n)[?i := v])" if "?i < nd_len n" "nd_keys n ! ?i = k"
    using that list_update_id [of "nd_keys n" ?i] update_zip [of "nd_keys n" "nd_values n" ?i "(k, v)"] by simp
  then show ?thesis using kv_insert_at [OF i] s keys len by (auto simp: zip_insert_nth)
qed

lemma insert_nth_sorted:
  assumes "sorted_wrt (<) xs" and "\<forall>x \<in> set (take i xs). x < y" and "\<forall>x \<in> set (drop i xs). y < (x :: key)"
  shows "sorted_wrt (<) (insert_nth i y xs)"
proof -
  have "sorted_wrt (<) (take i xs @ drop i xs)" using assms(1) by simp
  then have "sorted_wrt (<) (take i xs)" "sorted_wrt (<) (drop i xs)" "\<forall>x \<in> set (take i xs). \<forall>z \<in> set (drop i xs). x < z"
    unfolding sorted_wrt_append by blast+
  then show ?thesis using assms(2,3) by (auto simp: insert_nth_def sorted_wrt_append)
qed

section \<open>Inner nodes\<close>

definition child_bounds :: "key list \<Rightarrow> nat \<Rightarrow> key \<Rightarrow> bool" where
  "child_bounds ks p k \<longleftrightarrow> (0 < p \<longrightarrow> ks ! (p - 1) \<le> k) \<and> (p < length ks \<longrightarrow> k < ks ! p)"

lemma point_bounds: "p = partition_point (\<lambda>held. held \<le> k) ks \<Longrightarrow> child_bounds ks p k"
  using partition_point_at [of "\<lambda>held. held \<le> k" ks] partition_point_below [of "p - 1" "\<lambda>held. held \<le> k" ks]
  by (auto simp: child_bounds_def)

lemma child_bounds_Cons:
  "child_bounds (k' # ks) 0 k \<longleftrightarrow> k < k'"
  "child_bounds (k' # ks) (Suc p) k \<longleftrightarrow> (if p = 0 then k' \<le> k else True) \<and> child_bounds ks p k"
  by (auto simp: child_bounds_def nth_Cons split: nat.splits)

lemma parted_bounds:
  "parted ks xss \<Longrightarrow> p < length xss \<Longrightarrow> x \<in> set (xss ! p) \<Longrightarrow> child_bounds ks p (fst x)"
proof (induction ks xss arbitrary: p rule: parted.induct)
  case (2 k ks xs xss)
  then show ?case by (cases p) (auto simp: child_bounds_Cons)
qed (auto simp: child_bounds_def)

lemma bounds_first:
  assumes "child_bounds ks p k" and "sorted_wrt (<) (k' # ks)" and "0 < p" and "p \<le> length ks"
  shows "k' \<le> k"
proof -
  have "ks ! (p - 1) \<in> set ks" using assms(3,4) by simp
  then have "k' < ks ! (p - 1)" using assms(2) by simp
  then show ?thesis using assms(1,3) by (auto simp: child_bounds_def)
qed

lemma parted_update:
  "parted ks xss \<Longrightarrow> sorted_wrt (<) ks \<Longrightarrow> p < length xss \<Longrightarrow> \<forall>x \<in> set ys. child_bounds ks p (fst x) \<Longrightarrow> parted ks (xss[p := ys])"
proof (induction ks xss arbitrary: p rule: parted.induct)
  case (2 k ks xs xss)
  show ?case
  proof (cases p)
    case 0
    then show ?thesis using 2 by (auto simp: child_bounds_Cons)
  next
    case (Suc q)
    have len: "length xss = length ks + 1" using 2(2) parted_length [of ks xss] by simp
    have b: "\<forall>x \<in> set ys. child_bounds ks q (fst x) \<and> k \<le> fst x"
    proof
      fix x
      assume "x \<in> set ys"
      then have x: "child_bounds ks q (fst x)" "q = 0 \<Longrightarrow> k \<le> fst x" using 2(5) Suc by (auto simp: child_bounds_Cons split: if_splits)
      then show "child_bounds ks q (fst x) \<and> k \<le> fst x"
        using bounds_first [of ks q "fst x" k] 2(3,4) len Suc by (cases "q = 0") auto
    qed
    have "parted ks (xss[q := ys])" using 2 Suc b by simp
    moreover have "\<forall>zs \<in> set (xss[q := ys]). \<forall>z \<in> set zs. k \<le> fst z"
    proof (intro ballI)
      fix zs z
      assume "zs \<in> set (xss[q := ys])" and "z \<in> set zs"
      then have "zs = ys \<or> zs \<in> set xss" using set_update_subset_insert [of xss q ys] by blast
      then show "k \<le> fst z" using 2(2) b \<open>z \<in> set zs\<close> by auto
    qed
    ultimately show ?thesis using 2(2) Suc by simp
  qed
qed auto

lemma parted_splice:
  assumes "parted ks xss" and "sorted_wrt (<) ks" and "p < length xss"
    and "\<forall>x \<in> set (ls @ rs). child_bounds ks p (fst x)" and "\<forall>x \<in> set ls. fst x < s" and "\<forall>y \<in> set rs. s \<le> fst y"
    and "ls \<noteq> []" and "rs \<noteq> []"
  shows "parted (insert_nth p s ks) (take p xss @ ls # rs # drop (p + 1) xss) \<and> sorted_wrt (<) (insert_nth p s ks)"
  using assms(1-4)
proof (induction ks xss arbitrary: p rule: parted.induct)
  case (1 xs)
  then show ?case using assms(5,6) by (simp add: insert_nth_def)
next
  case (2 k ks xs xss)
  have len: "length xss = length ks + 1" using 2(2) parted_length [of ks xss] by simp
  have low: "s \<le> fst (hd rs)" "fst (hd ls) < s" using assms(5-8) by auto
  show ?case
  proof (cases p)
    case 0
    have below: "\<forall>x \<in> set (ls @ rs). fst x < k" using 2(5) 0 by (simp add: child_bounds_Cons)
    then have "fst (hd rs) < k" using assms(8) by simp
    then have "s < k" using low(1) by simp
    moreover have "s \<le> fst z" if "z \<in> set zs" "zs \<in> set xss" for z zs
      using that 2(2) \<open>s < k\<close> by (meson less_imp_le order_trans parted.simps(2))
    ultimately show ?thesis using 2(2,3) 0 assms(5,6) below by (auto simp: insert_nth_def intro: less_trans)
  next
    case (Suc q)
    have b: "child_bounds ks q (fst x) \<and> k \<le> fst x" if "x \<in> set (ls @ rs)" for x
    proof -
      have x: "child_bounds ks q (fst x)" "q = 0 \<Longrightarrow> k \<le> fst x" using 2(5) Suc that by (auto simp: child_bounds_Cons split: if_splits)
      then show ?thesis using bounds_first [of ks q "fst x" k] 2(3,4) len Suc by (cases "q = 0") auto
    qed
    then have IH: "parted (insert_nth q s ks) (take q xss @ ls # rs # drop (q + 1) xss)" "sorted_wrt (<) (insert_nth q s ks)"
      using 2(1) [of q] 2(2-4) Suc by auto
    have "k < s" using b [of "hd ls"] low(2) assms(7) by (auto intro: le_less_trans)
    then have sorted: "sorted_wrt (<) (k # insert_nth q s ks)"
      using IH(2) 2(3) by (auto simp: insert_nth_def dest: in_set_takeD in_set_dropD)
    have all: "\<forall>zs \<in> set (take q xss @ ls # rs # drop (q + 1) xss). \<forall>z \<in> set zs. k \<le> fst z"
      using b 2(2) by (auto dest: in_set_takeD in_set_dropD)
    have "insert_nth p s (k # ks) = k # insert_nth q s ks" using Suc by (simp add: insert_nth_def)
    then show ?thesis using IH(1) sorted all 2(2) Suc by simp
  qed
qed auto

lemma parted_halves:
  "parted ks xss \<Longrightarrow> sorted_wrt (<) ks \<Longrightarrow> m < length ks \<Longrightarrow>
   parted (take m ks) (take (m + 1) xss) \<and> parted (drop (m + 1) ks) (drop (m + 1) xss)
   \<and> (\<forall>x \<in> set (concat (take (m + 1) xss)). fst x < ks ! m) \<and> (\<forall>y \<in> set (concat (drop (m + 1) xss)). ks ! m \<le> fst y)"
proof (induction ks xss arbitrary: m rule: parted.induct)
  case (2 k ks xs xss)
  have len: "length xss = length ks + 1" using 2(2) parted_length [of ks xss] by simp
  show ?case
  proof (cases m)
    case 0
    then show ?thesis using 2(2) len by auto
  next
    case (Suc q)
    then have q: "q < length ks" "k < ks ! q" using 2(3,4) by auto
    have IH: "parted (take q ks) (take (q + 1) xss)" "parted (drop (q + 1) ks) (drop (q + 1) xss)"
      "\<forall>x \<in> set (concat (take (q + 1) xss)). fst x < ks ! q" "\<forall>y \<in> set (concat (drop (q + 1) xss)). ks ! q \<le> fst y"
      using 2(1) [of q] 2(2,3) q by auto
    have "\<forall>zs \<in> set (take (q + 1) xss). \<forall>z \<in> set zs. k \<le> fst z" using 2(2) by (auto dest: in_set_takeD)
    then show ?thesis using IH 2(2) Suc q(2) by (auto intro: less_trans)
  qed
qed auto

lemma parted_insert:
  "parted ks xss \<Longrightarrow> p = partition_point (\<lambda>held. held \<le> k) ks \<Longrightarrow>
   concat (xss[p := kv_insert k v (xss ! p)]) = kv_insert k v (concat xss)"
proof (induction ks xss arbitrary: p rule: parted.induct)
  case (2 k' ks xs xss)
  show ?case
  proof (cases "k' \<le> k")
    case True
    then have "\<forall>x \<in> set xs. fst x < k" using 2(2) by (auto intro: less_le_trans)
    then show ?thesis using 2 True by (simp add: partition_point_simps kv_insert_append)
  next
    case False
    then have "\<forall>y \<in> set (concat xss). k < fst y" using 2(2) by (fastforce intro: less_le_trans)
    then show ?thesis using 2(3) False by (simp add: partition_point_simps kv_insert_before)
  qed
qed (auto simp: partition_point_simps)

section \<open>Frames\<close>

lemma tree_root_block: "at \<in> set (tree_blocks V l at)"
  by (cases l) simp_all

lemma filled_frame: "V' at = V at \<Longrightarrow> filled V' at = filled V at"
  by (simp add: filled_def)

lemma tree_frame:
  "\<forall>b \<in> set (tree_blocks V l at). V' b = V b \<Longrightarrow>
   tree_kvs V' l at = tree_kvs V l at \<and> tree_blocks V' l at = tree_blocks V l at \<and> tree_ok V' l at = tree_ok V l at"
proof (induction l arbitrary: at)
  case (Suc l)
  have top: "V' at = V at" using Suc.prems by simp
  show ?case
  proof (cases "V at")
    case (Some n)
    have kid: "tree_kvs V' l c = tree_kvs V l c \<and> tree_blocks V' l c = tree_blocks V l c \<and> tree_ok V' l c = tree_ok V l c"
      if "c \<in> set (nd_children n)" for c
      using Suc.IH [of c] Suc.prems Some that by auto
    then have "map (tree_kvs V' l) (nd_children n) = map (tree_kvs V l) (nd_children n)"
      "map (tree_blocks V' l) (nd_children n) = map (tree_blocks V l) (nd_children n)" by auto
    moreover have "filled V' c = filled V c" if "c \<in> set (nd_children n)" for c
      using that Suc.prems Some tree_root_block [of c V l] by (intro filled_frame) auto
    ultimately show ?thesis using top Some kid by (auto simp del: map_eq_conv)
  qed (use top in auto)
qed simp

fun branch_kvs :: "node_arena \<Rightarrow> nat \<Rightarrow> branch \<Rightarrow> (key \<times> byte list) list" where
  "branch_kvs V l (One a) = tree_kvs V l a"
| "branch_kvs V l (Split a k b) = tree_kvs V l a @ tree_kvs V l b"

fun branch_blocks :: "node_arena \<Rightarrow> nat \<Rightarrow> branch \<Rightarrow> nat list" where
  "branch_blocks V l (One a) = tree_blocks V l a"
| "branch_blocks V l (Split a k b) = tree_blocks V l a @ tree_blocks V l b"

fun branch_ok :: "node_arena \<Rightarrow> nat \<Rightarrow> branch \<Rightarrow> bool" where
  "branch_ok V l (One a) = tree_ok V l a"
| "branch_ok V l (Split a k b) =
     (tree_ok V l a \<and> tree_ok V l b \<and> filled V a \<and> filled V b \<and> key_ok k \<and> (\<forall>x \<in> set (tree_kvs V l a). fst x < k) \<and> (\<forall>y \<in> set (tree_kvs V l b). k \<le> fst y))"

fun branch_tops :: "branch \<Rightarrow> nat set" where
  "branch_tops (One a) = {a}"
| "branch_tops (Split a k b) = {a, b}"

definition branch_filled :: "node_arena \<Rightarrow> branch \<Rightarrow> bool" where
  "branch_filled V br \<longleftrightarrow> (\<forall>a \<in> branch_tops br. filled V a)"

lemma branch_tops_blocks: "branch_tops br \<subseteq> set (branch_blocks V l br)"
  using tree_root_block by (cases br) auto

lemma branch_frame:
  "\<forall>b \<in> set (branch_blocks V l br). V' b = V b \<Longrightarrow>
   branch_kvs V' l br = branch_kvs V l br \<and> branch_blocks V' l br = branch_blocks V l br \<and> branch_ok V' l br = branch_ok V l br"
  using tree_frame [of V l _ V'] tree_root_block [of _ V l] filled_frame [of V' _ V] by (cases br) auto

section \<open>Writing new nodes\<close>

definition refusal :: "fs_error \<Rightarrow> bool" where
  "refusal e \<longleftrightarrow> e = FsFull \<or> (\<exists>d. e = FsDevice d)"

lemma short_refusal: "short n ts e \<Longrightarrow> refusal e"
  by (simp add: short_def refusal_def)

text \<open>What writing up to two nodes changes.\<close>

definition grew :: "tree_tx \<times> store \<Rightarrow> tree_tx \<times> store \<Rightarrow> nat set \<Rightarrow> bool" where
  "grew a b new \<longleftrightarrow> finite new \<and> card new \<le> 2 \<and> tx_frame a b \<and> tx_root (fst b) = tx_root (fst a) \<and> new \<inter> used_blocks (fst a) = {}
     \<and> used_blocks (fst b) = used_blocks (fst a) \<union> new \<and> (\<forall>x \<in> new. in_arena (vl_super (st_vol (snd a))) x)
     \<and> (\<forall>x. x \<notin> new \<longrightarrow> node_at (snd b) x = node_at (snd a) x)
     \<and> (\<forall>x \<in> new. \<forall>n. node_at (snd b) x = Some n \<longrightarrow> nd_generation n = tx_generation (fst a))"

lemma grew_spare: "grew a b new \<Longrightarrow> spare (fst a) \<le> spare (fst b) + 2"
  using spare_used [of "fst a" "fst b" new] by (simp add: grew_def tx_frame_def)

lemma write_one:
  assumes "tx_ok t s" and "node_wf n" and "nd_generation n = tx_generation t"
  obtains (refused) e ts where "and_then (write_new n) (\<lambda>at. ok (f at)) (t, s) = (Inl e, ts)" "tx_frame (t, s) ts" "short 2 (t, s) e"
  | (ok) at t' s' where "and_then (write_new n) (\<lambda>at. ok (f at)) (t, s) = (Inr (f at), (t', s'))"
      "grew (t, s) (t', s') {at}" "node_at s' at = Some n"
proof (cases rule: write_new_cases [OF assms(1,2)])
  case (1 e t' s')
  then show ?thesis using refused [of e "(t', s')"] by (auto simp: and_then_def short_def)
next
  case (2 at t' s')
  then show ?thesis using ok [of at t' s'] assms(3) by (simp add: and_then_def grew_def)
qed

lemma write_two:
  assumes "tx_ok t s" and "node_wf n" and "node_wf m" and "nd_generation n = tx_generation t" and "nd_generation m = tx_generation t"
  obtains (refused) e ts where "and_then (write_new n) (\<lambda>a. and_then (write_new m) (\<lambda>b. ok (f a b))) (t, s) = (Inl e, ts)"
      "tx_frame (t, s) ts" "short 2 (t, s) e"
  | (ok) a b t' s' where "and_then (write_new n) (\<lambda>a. and_then (write_new m) (\<lambda>b. ok (f a b))) (t, s) = (Inr (f a b), (t', s'))"
      "grew (t, s) (t', s') {a, b}" "a \<noteq> b" "node_at s' a = Some n" "node_at s' b = Some m"
proof (cases rule: write_new_cases [OF assms(1,2)])
  case (1 e t' s')
  then show ?thesis using refused [of e "(t', s')"] by (auto simp: and_then_def short_def)
next
  case first: (2 a t1 s1)
  show ?thesis
  proof (cases rule: write_new_cases [OF tx_frame_ok [OF first(2)] assms(3)])
    case (1 e t' s')
    have "spare t \<le> spare t1 + 1"
      using spare_used [of t t1 "{a}"] first(2,5) by (simp add: tx_frame_def)
    then have "short 2 (t, s) e" using short_trans [OF first(2) _ 1(3), of 1 2] by simp
    then show ?thesis using 1 refused [of e "(t', s')"] first tx_frame_trans [OF first(2)] by (simp add: and_then_def)
  next
    case (2 b t' s')
    then show ?thesis using ok [of a b t' s'] first tx_frame_trans [OF first(2)] tx_frame_arena [OF first(2)] assms(4,5)
      by (auto simp: and_then_def grew_def card_insert_if)
  qed
qed

section \<open>The leaf\<close>

lemma leaf_fill_eq:
  assumes "i \<le> nd_len leaf" and "length (nd_values leaf) = nd_len leaf" and "to \<le> nd_len leaf + 1"
  shows "leaf_fill leaf i k v g from to =
    \<lparr>nd_level = 0, nd_generation = g, nd_keys = take (to - from) (drop from (insert_nth i k (nd_keys leaf))),
     nd_values = take (to - from) (drop from (insert_nth i v (nd_values leaf))), nd_children = []\<rparr>"
  using assms by (simp add: leaf_fill_def spliced_map)

lemma sorted_slice: "sorted_wrt (<) xs \<Longrightarrow> sorted_wrt (<) (take m (drop i xs))"
  by (simp add: sorted_wrt_take sorted_wrt_drop)

lemma list_all_slice: "list_all P xs \<Longrightarrow> list_all P (take m (drop i xs))"
  by (auto simp: list_all_iff dest: in_set_takeD in_set_dropD)

lemma list_all_insert_nth: "list_all P xs \<Longrightarrow> P x \<Longrightarrow> list_all P (insert_nth i x xs)"
  by (auto simp: insert_nth_def list_all_iff dest: in_set_takeD in_set_dropD)

lemma leaf_slice_wf:
  assumes "sorted_wrt (<) ks" and "list_all key_ok ks" and "length vs = length ks" and "list_all (\<lambda>v. length v = 32) vs"
    and "from < to" and "to \<le> length ks" and "to - from \<le> 12" and "g < 2 ^ 64"
  shows "node_wf \<lparr>nd_level = 0, nd_generation = g, nd_keys = take (to - from) (drop from ks),
     nd_values = take (to - from) (drop from vs), nd_children = []\<rparr>"
  using assms sorted_slice [OF assms(1)] list_all_slice [OF assms(2)] list_all_slice [OF assms(4)] by (auto simp: node_wf_def)

lemma leaf_splice_sorted:
  assumes "node_wf leaf" and "nd_level leaf = 0" and "\<not> (node_lower leaf k < nd_len leaf \<and> nd_keys leaf ! node_lower leaf k = k)"
  shows "sorted_wrt (<) (insert_nth (node_lower leaf k) k (nd_keys leaf)) \<and> node_lower leaf k \<le> nd_len leaf"
proof -
  let ?ks = "nd_keys leaf" and ?i = "node_lower leaf k"
  have s: "sorted_wrt (<) ?ks" using assms(1) by (simp add: node_wf_def)
  have i: "?i = partition_point (\<lambda>held. held < k) ?ks" using node_lower_point [OF s] .
  have "k < x" if xin: "x \<in> set (drop ?i ?ks)" for x
  proof -
    obtain j where "j < length (drop ?i ?ks)" and "drop ?i ?ks ! j = x" using xin by (metis in_set_conv_nth)
    then have j: "?i + j < length ?ks" "x = ?ks ! (?i + j)" by auto
    have "k < ?ks ! ?i" using partition_point_at [of "\<lambda>held. held < k" ?ks] i j assms(3) by auto
    then show ?thesis using strict_sorted_nth_le [OF s, of ?i "?i + j"] j by auto
  qed
  moreover have "x < k" if "x \<in> set (take ?i ?ks)" for x
    using that partition_point_below [of _ "\<lambda>held. held < k" ?ks] i by (auto simp: in_set_conv_nth)
  moreover have "?i \<le> nd_len leaf" unfolding i by (rule partition_point_le)
  ultimately show ?thesis using insert_nth_sorted [OF s, of ?i k] by blast
qed

lemma insert_leaf_ok:
  assumes "tx_ok t s" and "node_wf leaf" and "nd_level leaf = 0" and "key_ok k" and "length v = 32"
  obtains (refused) e ts where "insert_leaf leaf k v (t, s) = (Inl e, ts)" "tx_frame (t, s) ts" "short 2 (t, s) e"
  | (ok) br t' s' new where "insert_leaf leaf k v (t, s) = (Inr br, (t', s'))" "grew (t, s) (t', s') new"
      "branch_ok (node_at s') 0 br" "branch_kvs (node_at s') 0 br = kv_insert k v (zip (nd_keys leaf) (nd_values leaf))"
      "set (branch_blocks (node_at s') 0 br) = new" "distinct (branch_blocks (node_at s') 0 br)" "branch_tops br \<subseteq> new"
      "6 \<le> nd_len leaf \<Longrightarrow> branch_filled (node_at s') br"
proof -
  let ?i = "node_lower leaf k" and ?g = "tx_generation t"
  let ?K = "insert_nth ?i k (nd_keys leaf)" and ?U = "insert_nth ?i v (nd_values leaf)"
  have g: "?g < 2 ^ 64" using assms(1) by (simp add: tx_ok_def)
  have w: "nd_len leaf \<le> 12" "length (nd_values leaf) = nd_len leaf" "list_all (\<lambda>v. length v = 32) (nd_values leaf)"
    "list_all key_ok (nd_keys leaf)" "nd_keys leaf \<noteq> []" using assms(2,3) by (auto simp: node_wf_def)
  note kvs = leaf_insert [OF assms(2,3), of k v]
  show ?thesis
  proof (cases "?i < nd_len leaf \<and> nd_keys leaf ! ?i = k")
    case True
    let ?n = "leaf\<lparr>nd_generation := ?g, nd_values := (nd_values leaf)[?i := v]\<rparr>"
    have wf: "node_wf ?n"
      using assms(2,3,5) g set_update_subset_insert [of "nd_values leaf" ?i v] by (auto simp: node_wf_def list_all_iff)
    have eq: "insert_leaf leaf k v (t, s) = and_then (write_new ?n) (\<lambda>at. ok (One at)) (t, s)"
      using True by (simp add: insert_leaf_def Let_def)
    show ?thesis
    proof (cases rule: write_one [OF assms(1) wf, where f = One])
      case (2 e ts)
      then show ?thesis using refused eq by simp
    next
      case (3 at t' s')
      then show ?thesis using that(2) [of "One at" t' s' "{at}"] eq wf kvs True assms(3) by (simp add: branch_filled_def filled_def)
    qed simp
  next
    case False
    note sorted = leaf_splice_sorted [OF assms(2,3) False]
    have K: "length ?K = nd_len leaf + 1" "length ?U = nd_len leaf + 1" "list_all key_ok ?K" "list_all (\<lambda>v. length v = 32) ?U"
      using w assms(4,5) sorted by (simp_all add: list_all_insert_nth)
    have kvs': "kv_insert k v (zip (nd_keys leaf) (nd_values leaf)) = zip ?K ?U" using kvs False by simp
    show ?thesis
    proof (cases "nd_len leaf + 1 \<le> 12")
      case True
      let ?n = "leaf_fill leaf ?i k v ?g 0 (nd_len leaf + 1)"
      have n: "?n = \<lparr>nd_level = 0, nd_generation = ?g, nd_keys = ?K, nd_values = ?U, nd_children = []\<rparr>"
        using leaf_fill_eq [of ?i leaf "nd_len leaf + 1" k v ?g 0] sorted w K by simp
      have wf: "node_wf ?n" unfolding n using leaf_slice_wf [of ?K ?U 0 "nd_len leaf + 1" ?g] sorted K True g by simp
      have eq: "insert_leaf leaf k v (t, s) = and_then (write_new ?n) (\<lambda>at. ok (One at)) (t, s)"
        using False True by (auto simp: insert_leaf_def Let_def CAPACITY_def)
      show ?thesis
      proof (cases rule: write_one [OF assms(1) wf, where f = One])
        case (2 e ts)
        then show ?thesis using refused eq by simp
      next
        case (3 at t' s')
        have "nd_level ?n = 0" "zip (nd_keys ?n) (nd_values ?n) = zip ?K ?U" "nd_len ?n = nd_len leaf + 1"
          unfolding n using K(1) by simp_all
        then show ?thesis using 3 that(2) [of "One at" t' s' "{at}"] eq wf kvs' by (simp add: branch_filled_def filled_def)
      qed (simp add: leaf_fill_def)
    next
      case big: False
      then have len: "nd_len leaf = 12" using w(1) by simp
      let ?l = "leaf_fill leaf ?i k v ?g 0 6" and ?r = "leaf_fill leaf ?i k v ?g 6 13"
      have l: "?l = \<lparr>nd_level = 0, nd_generation = ?g, nd_keys = take 6 ?K, nd_values = take 6 ?U, nd_children = []\<rparr>"
        and r: "?r = \<lparr>nd_level = 0, nd_generation = ?g, nd_keys = drop 6 ?K, nd_values = drop 6 ?U, nd_children = []\<rparr>"
        using leaf_fill_eq [of ?i leaf 6 k v ?g 0] leaf_fill_eq [of ?i leaf 13 k v ?g 6] sorted w K len by simp_all
      have wf: "node_wf ?l" "node_wf ?r"
        unfolding l r using leaf_slice_wf [of ?K ?U 0 6 ?g] leaf_slice_wf [of ?K ?U 6 13 ?g] sorted K len g by simp_all
      let ?f = "\<lambda>a b. Split a (nd_keys ?r ! 0) b"
      have eq: "insert_leaf leaf k v (t, s) = and_then (write_new ?l) (\<lambda>a. and_then (write_new ?r) (\<lambda>b. ok (?f a b))) (t, s)"
        using False big len by (auto simp: insert_leaf_def Let_def CAPACITY_def)
      have sep: "nd_keys ?r ! 0 = ?K ! 6" using K(1) len by (simp add: r)
      have order: "\<forall>x \<in> set (take 6 ?K). x < ?K ! 6" "\<forall>y \<in> set (drop 6 ?K). ?K ! 6 \<le> y"
      proof -
        have "?K = take 6 ?K @ ?K ! 6 # drop 7 ?K" using id_take_nth_drop [of 6 ?K] K(1) len by simp
        then have "sorted_wrt (<) (take 6 ?K @ ?K ! 6 # drop 7 ?K)" using sorted by simp
        moreover have "drop 6 ?K = ?K ! 6 # drop 7 ?K" using Cons_nth_drop_Suc [of 6 ?K] K(1) len by simp
        ultimately show "\<forall>x \<in> set (take 6 ?K). x < ?K ! 6" "\<forall>y \<in> set (drop 6 ?K). ?K ! 6 \<le> y"
          by (auto simp: sorted_wrt_append)
      qed
      have sk: "key_ok (?K ! 6)" using K(1,3) len by (simp add: list_all_length)
      have zips: "zip (take 6 ?K) (take 6 ?U) @ zip (drop 6 ?K) (drop 6 ?U) = zip ?K ?U"
        by (simp flip: take_zip drop_zip)
      show ?thesis
      proof (cases rule: write_two [OF assms(1) wf, where f = ?f])
        case (3 e ts)
        then show ?thesis using refused eq by simp
      next
        case (4 a b t' s')
        have fill: "filled (node_at s') a" "filled (node_at s') b" using 4(4,5) K(1) len by (simp_all add: filled_def l r)
        have "branch_ok (node_at s') 0 (?f a b)"
          using 4 wf sep sk order fill by (auto simp: l r dest: set_zip_leftD)
        moreover have "branch_kvs (node_at s') 0 (?f a b) = kv_insert k v (zip (nd_keys leaf) (nd_values leaf))"
          using 4 zips kvs' by (simp add: l r)
        ultimately show ?thesis using that(2) [of "?f a b" t' s' "{a, b}"] 4 eq fill by (simp add: branch_filled_def)
      qed (simp_all add: l r)
    qed
  qed
qed

section \<open>The parent\<close>

definition spliced_children :: "node \<Rightarrow> nat \<Rightarrow> nat list \<Rightarrow> nat list" where
  "spliced_children parent child cs = take child (nd_children parent) @ cs @ drop (child + 1) (nd_children parent)"

lemma child_at_nth:
  assumes "child < length (nd_children parent)" and "j \<le> length (nd_children parent)"
  shows "spliced_children parent child [left, right] ! j = child_at parent child left right j"
proof (cases "j < child + 2")
  case True
  then show ?thesis using assms by (auto simp: spliced_children_def child_at_def nth_append nth_Cons' min_def)
next
  case False
  then obtain i where "j = child + 2 + i" by (metis le_iff_add not_le)
  then show ?thesis using assms by (simp add: spliced_children_def child_at_def nth_append min_def)
qed

lemma inner_fill_eq:
  assumes "child \<le> nd_len parent" and "length (nd_children parent) = nd_len parent + 1" and "to \<le> nd_len parent + 1"
  shows "inner_fill parent child left sep right g from to =
    \<lparr>nd_level = nd_level parent, nd_generation = g, nd_keys = take (to - from) (drop from (insert_nth child sep (nd_keys parent))),
     nd_values = [], nd_children = take (to + 1 - from) (drop from (spliced_children parent child [left, right]))\<rparr>"
proof -
  let ?C = "spliced_children parent child [left, right]"
  have len: "length ?C = nd_len parent + 2" using assms by (simp add: spliced_children_def)
  have "map (child_at parent child left right) [from..<to + 1] = take (to + 1 - from) (drop from ?C)"
  proof (rule nth_equalityI)
    show "length (map (child_at parent child left right) [from..<to + 1]) = length (take (to + 1 - from) (drop from ?C))"
      using assms len by (simp del: upt_Suc)
    fix j
    assume j: "j < length (map (child_at parent child left right) [from..<to + 1])"
    then have "from + j < to + 1" by (simp del: upt_Suc)
    then show "map (child_at parent child left right) [from..<to + 1] ! j = take (to + 1 - from) (drop from ?C) ! j"
      using j assms len child_at_nth [of child parent "from + j" left right] by (simp del: upt_Suc)
  qed
  then show ?thesis using assms by (simp add: inner_fill_def spliced_map)
qed

lemma inner_slice_wf:
  assumes "sorted_wrt (<) ks" and "list_all key_ok ks" and "length cs = length ks + 1" and "list_all (\<lambda>c. 0 < c \<and> c < 2 ^ 64) cs"
    and "from < to" and "to \<le> length ks" and "to - from \<le> 12" and "g < 2 ^ 64" and "0 < l" and "l < 8"
  shows "node_wf \<lparr>nd_level = l, nd_generation = g, nd_keys = take (to - from) (drop from ks),
     nd_values = [], nd_children = take (to + 1 - from) (drop from cs)\<rparr>"
  using assms sorted_slice [OF assms(1)] list_all_slice [OF assms(2)] list_all_slice [OF assms(4)] by (auto simp: node_wf_def)

lemma used_in_arena: "tx_ok t s \<Longrightarrow> x \<in> used_blocks t \<Longrightarrow> in_arena (vl_super (st_vol s)) x"
  by (auto simp: tx_ok_def used_blocks_def in_arena_def)

lemma arena_child: "tx_ok t s \<Longrightarrow> in_arena (vl_super (st_vol s)) x \<Longrightarrow> 0 < x \<and> x < 2 ^ 64"
  by (auto simp: tx_ok_def store_ok_def arena_fits_def in_arena_def vol_ok_def)

lemma inner_tree:
  assumes "V' at = Some n" and "node_wf n" and "nd_level n = Suc l" and "\<forall>c \<in> set (nd_children n). tree_ok V l c \<and> filled V c"
    and "\<forall>c \<in> set (nd_children n). \<forall>b \<in> set (tree_blocks V l c). V' b = V b"
    and "parted (nd_keys n) (map (tree_kvs V l) (nd_children n))"
  shows "tree_ok V' (Suc l) at \<and> tree_kvs V' (Suc l) at = concat (map (tree_kvs V l) (nd_children n))
    \<and> tree_blocks V' (Suc l) at = at # concat (map (tree_blocks V l) (nd_children n))"
proof -
  have kid: "tree_kvs V' l c = tree_kvs V l c \<and> tree_blocks V' l c = tree_blocks V l c \<and> tree_ok V' l c = tree_ok V l c"
    if "c \<in> set (nd_children n)" for c
    using tree_frame [of V l c V'] assms(5) that by blast
  then have "map (tree_kvs V' l) (nd_children n) = map (tree_kvs V l) (nd_children n)"
    "map (tree_blocks V' l) (nd_children n) = map (tree_blocks V l) (nd_children n)" by auto
  moreover have "filled V' c = filled V c" if "c \<in> set (nd_children n)" for c
    using that assms(5) tree_root_block [of c V l] by (intro filled_frame) auto
  ultimately show ?thesis using assms kid by (auto simp del: map_eq_conv)
qed

declare tree_ok.simps(2) [simp del] tree_kvs.simps(2) [simp del] tree_blocks.simps(2) [simp del]

lemma child_bounds_insert:
  assumes "parted ks xss" and "p = partition_point (\<lambda>held. held \<le> k) ks"
  shows "\<forall>x \<in> set (kv_insert k v (xss ! p)). child_bounds ks p (fst x)"
proof
  fix x
  assume "x \<in> set (kv_insert k v (xss ! p))"
  then have "fst x = k \<or> fst x \<in> fst ` set (xss ! p)" using kv_insert_keys [of k v "xss ! p"] by blast
  then show "child_bounds ks p (fst x)"
    using point_bounds [OF assms(2)] parted_bounds [OF assms(1), of p] parted_child [OF assms(1)] assms(2) by auto
qed

text \<open>
  A parent whose child was rewritten: the child held \<open>xs\<close>, its branch holds the update. The
  siblings and the branch stand on used blocks, all apart.
\<close>

definition hole_kvs :: "node_arena \<Rightarrow> nat \<Rightarrow> node \<Rightarrow> nat \<Rightarrow> (key \<times> byte list) list \<Rightarrow> (key \<times> byte list) list list" where
  "hole_kvs V l n child xs =
     map (tree_kvs V l) (take child (nd_children n)) @ xs # map (tree_kvs V l) (drop (child + 1) (nd_children n))"

definition hole_blocks :: "node_arena \<Rightarrow> nat \<Rightarrow> node \<Rightarrow> nat \<Rightarrow> nat list \<Rightarrow> nat list" where
  "hole_blocks V l n child bs =
     concat (map (tree_blocks V l) (take child (nd_children n))) @ bs
       @ concat (map (tree_blocks V l) (drop (child + 1) (nd_children n)))"

definition siblings_ok :: "node_arena \<Rightarrow> nat \<Rightarrow> node \<Rightarrow> nat \<Rightarrow> bool" where
  "siblings_ok V l n child \<longleftrightarrow>
     (\<forall>c \<in> set (take child (nd_children n)) \<union> set (drop (child + 1) (nd_children n)). tree_ok V l c \<and> filled V c)"

definition rewriting ::
  "tree_tx \<Rightarrow> store \<Rightarrow> node \<Rightarrow> nat \<Rightarrow> branch \<Rightarrow> nat \<Rightarrow> key \<Rightarrow> byte list \<Rightarrow> (key \<times> byte list) list \<Rightarrow> bool" where
  "rewriting t s parent child br l k v xs \<longleftrightarrow>
     tx_ok t s \<and> node_wf parent \<and> nd_level parent = Suc l
     \<and> child = partition_point (\<lambda>held. held \<le> k) (nd_keys parent)
     \<and> parted (nd_keys parent) (hole_kvs (node_at s) l parent child xs) \<and> siblings_ok (node_at s) l parent child
     \<and> branch_ok (node_at s) l br \<and> branch_filled (node_at s) br \<and> branch_kvs (node_at s) l br = kv_insert k v xs
     \<and> set (hole_blocks (node_at s) l parent child (branch_blocks (node_at s) l br)) \<subseteq> used_blocks t
     \<and> distinct (hole_blocks (node_at s) l parent child (branch_blocks (node_at s) l br))"

lemma rewritingD:
  assumes "rewriting t s parent child br l k v xs"
  shows "parted (nd_keys parent) (hole_kvs (node_at s) l parent child xs)" "siblings_ok (node_at s) l parent child"
    "branch_ok (node_at s) l br" "branch_kvs (node_at s) l br = kv_insert k v xs"
    "set (hole_blocks (node_at s) l parent child (branch_blocks (node_at s) l br)) \<subseteq> used_blocks t"
    "distinct (hole_blocks (node_at s) l parent child (branch_blocks (node_at s) l br))"
    "child = partition_point (\<lambda>held. held \<le> k) (nd_keys parent)" "node_wf parent" "nd_level parent = Suc l"
    "branch_filled (node_at s) br"
  using assms unfolding rewriting_def by blast+

lemma rewriting_parent:
  assumes "rewriting t s parent child br l k v xs"
  shows "nd_len parent \<le> 12" "length (nd_children parent) = nd_len parent + 1" "sorted_wrt (<) (nd_keys parent)"
    "list_all key_ok (nd_keys parent)" "list_all (\<lambda>c. 0 < c \<and> c < 2 ^ 64) (nd_children parent)" "Suc l < 8"
    "child \<le> nd_len parent" "tx_generation t < 2 ^ 64" "tx_ok t s"
  using assms by (auto simp: rewriting_def node_wf_def tx_ok_def partition_point_le)

lemma rewriting_hole:
  assumes "rewriting t s parent child br l k v xs"
  shows "hole_kvs (node_at s) l parent child xs ! child = xs" "child < length (hole_kvs (node_at s) l parent child xs)"
  using rewriting_parent [OF assms] by (simp_all add: hole_kvs_def nth_append)

lemma rewriting_bounds:
  assumes "rewriting t s parent child br l k v xs"
  shows "\<forall>x \<in> set (kv_insert k v xs). child_bounds (nd_keys parent) child (fst x)"
    and "concat ((hole_kvs (node_at s) l parent child xs)[child := kv_insert k v xs])
       = kv_insert k v (concat (hole_kvs (node_at s) l parent child xs))"
  using rewriting_hole(1) [OF assms] child_bounds_insert [OF rewritingD(1,7) [OF assms], of v]
    parted_insert [OF rewritingD(1,7) [OF assms], of v]
  by simp_all

lemma rewriting_small:
  assumes "rewriting t s parent child br l k v xs" and "x \<in> set (branch_blocks (node_at s) l br)"
  shows "0 < x \<and> x < 2 ^ 64"
proof -
  have "x \<in> used_blocks t" using rewritingD(5) [OF assms(1)] assms(2) by (auto simp: hole_blocks_def)
  then show ?thesis using arena_child used_in_arena rewriting_parent(9) [OF assms(1)] by blast
qed

lemma new_inner:
  assumes "grew (t, s) (t', s') new" and "x \<in> new" and "node_at s' x = Some n" and "node_wf n" and "nd_level n = Suc l"
    and "\<forall>c \<in> set (nd_children n). tree_ok (node_at s) l c \<and> filled (node_at s) c"
    and "set (concat (map (tree_blocks (node_at s) l) (nd_children n))) \<subseteq> used_blocks t"
    and "parted (nd_keys n) (map (tree_kvs (node_at s) l) (nd_children n))"
  shows "tree_ok (node_at s') (Suc l) x \<and> tree_kvs (node_at s') (Suc l) x = concat (map (tree_kvs (node_at s) l) (nd_children n))
    \<and> tree_blocks (node_at s') (Suc l) x = x # concat (map (tree_blocks (node_at s) l) (nd_children n))"
proof -
  have "\<forall>c \<in> set (nd_children n). \<forall>b \<in> set (tree_blocks (node_at s) l c). node_at s' b = node_at s b"
    using assms(1,7) by (fastforce simp: grew_def)
  then show ?thesis
    using inner_tree [where V' = "node_at s'" and V = "node_at s" and n = n and l = l and at = x] assms by blast
qed

lemma rewrite_one_ok:
  assumes rw: "rewriting t s parent child (One a) l k v xs"
  obtains (refused) e ts where "rewrite_parent parent child (One a) (t, s) = (Inl e, ts)" "tx_frame (t, s) ts" "short 2 (t, s) e"
  | (ok) br' t' s' new where "rewrite_parent parent child (One a) (t, s) = (Inr br', (t', s'))" "grew (t, s) (t', s') new"
      "branch_ok (node_at s') (Suc l) br'"
      "branch_kvs (node_at s') (Suc l) br' = kv_insert k v (concat (hole_kvs (node_at s) l parent child xs))"
      "set (branch_blocks (node_at s') (Suc l) br')
         = new \<union> set (hole_blocks (node_at s) l parent child (branch_blocks (node_at s) l (One a)))"
      "distinct (branch_blocks (node_at s') (Suc l) br')" "branch_tops br' \<subseteq> new" "6 \<le> nd_len parent \<Longrightarrow> branch_filled (node_at s') br'"
proof -
  let ?V = "node_at s" and ?xss = "hole_kvs (node_at s) l parent child xs"
  let ?n = "parent\<lparr>nd_generation := tx_generation t, nd_children := (nd_children parent)[child := a]\<rparr>"
  note w = rewriting_parent [OF rw] and d = rewritingD [OF rw]
  have kids: "nd_children ?n = spliced_children parent child [a]"
    using w by (simp add: spliced_children_def upd_conv_take_nth_drop)
  have wf: "node_wf ?n" "nd_level ?n = Suc l"
    using d w rewriting_small [OF rw, of a] tree_root_block [of a ?V l] set_update_subset_insert [of "nd_children parent" child a]
    by (auto simp: node_wf_def list_all_iff)
  have kvs: "map (tree_kvs ?V l) (nd_children ?n) = ?xss[child := kv_insert k v xs]"
    using w d(4) unfolding kids by (simp add: spliced_children_def hole_kvs_def list_update_append)
  have parted: "parted (nd_keys ?n) (map (tree_kvs ?V l) (nd_children ?n))"
    unfolding kvs using parted_update [OF d(1) w(3) rewriting_hole(2) [OF rw] rewriting_bounds(1) [OF rw]] by simp
  have ok: "\<forall>x \<in> set (nd_children ?n). tree_ok ?V l x \<and> filled ?V x"
    using d(2,3,10) unfolding kids by (auto simp: siblings_ok_def spliced_children_def branch_filled_def)
  have bl: "concat (map (tree_blocks ?V l) (nd_children ?n)) = hole_blocks ?V l parent child (tree_blocks ?V l a)"
    unfolding kids by (simp add: spliced_children_def hole_blocks_def)
  have bs: "set (hole_blocks ?V l parent child (tree_blocks ?V l a)) \<subseteq> used_blocks t" "distinct (hole_blocks ?V l parent child (tree_blocks ?V l a))"
    using d(5,6) by simp_all
  have eq: "rewrite_parent parent child (One a) (t, s) = and_then (write_new ?n) (\<lambda>at. ok (One at)) (t, s)"
    by (simp add: rewrite_parent_def Let_def)
  show ?thesis
  proof (cases rule: write_one [OF w(9) wf(1), where f = One])
    case (2 e ts)
    then show ?thesis using refused eq by simp
  next
    case written: (3 x t' s')
    have new: "tree_ok (node_at s') (Suc l) x" "tree_kvs (node_at s') (Suc l) x = kv_insert k v (concat ?xss)"
      "tree_blocks (node_at s') (Suc l) x = x # hole_blocks ?V l parent child (tree_blocks ?V l a)"
      using new_inner [OF written(2) _ written(3) wf ok _ parted] bs(1) rewriting_bounds(2) [OF rw] unfolding bl kvs by simp_all
    have "x \<notin> used_blocks t" using written(2) by (simp add: grew_def)
    then have "x \<notin> set (hole_blocks ?V l parent child (tree_blocks ?V l a))" using bs(1) by blast
    then show ?thesis using that(2) [of "One x" t' s' "{x}"] written eq new bs(2) by (simp add: branch_filled_def filled_def)
  qed simp
qed

lemma split_pieces:
  assumes rw: "rewriting t s parent child (Split a sep b) l k v xs"
    and K: "K = insert_nth child sep (nd_keys parent)" and C: "C = spliced_children parent child [a, b]"
  shows "sorted_wrt (<) K" "list_all key_ok K" "length K = nd_len parent + 1" "length C = nd_len parent + 2"
    "list_all (\<lambda>c. 0 < c \<and> c < 2 ^ 64) C" "parted K (map (tree_kvs (node_at s) l) C)" "\<forall>c \<in> set C. tree_ok (node_at s) l c \<and> filled (node_at s) c"
    "concat (map (tree_kvs (node_at s) l) C) = kv_insert k v (concat (hole_kvs (node_at s) l parent child xs))"
    "concat (map (tree_blocks (node_at s) l) C) = hole_blocks (node_at s) l parent child (branch_blocks (node_at s) l (Split a sep b))"
proof -
  let ?V = "node_at s" and ?xss = "hole_kvs (node_at s) l parent child xs"
  note w = rewriting_parent [OF rw] and d = rewritingD [OF rw]
  have br: "tree_ok ?V l a" "tree_ok ?V l b" "key_ok sep" "\<forall>x \<in> set (tree_kvs ?V l a). fst x < sep"
    "\<forall>y \<in> set (tree_kvs ?V l b). sep \<le> fst y" "tree_kvs ?V l a @ tree_kvs ?V l b = kv_insert k v xs"
    "filled ?V a" "filled ?V b"
    using d(3,4) by simp_all
  have parts: "take child ?xss = map (tree_kvs ?V l) (take child (nd_children parent))"
    "drop (child + 1) ?xss = map (tree_kvs ?V l) (drop (child + 1) (nd_children parent))"
    using w by (simp_all add: hole_kvs_def)
  have splice: "parted K (take child ?xss @ tree_kvs ?V l a # tree_kvs ?V l b # drop (child + 1) ?xss) \<and> sorted_wrt (<) K"
    unfolding K using br rewriting_bounds(1) [OF rw] tree_kvs_nonempty
    by (intro parted_splice [OF d(1) w(3) rewriting_hole(2) [OF rw]]) simp_all
  then show "sorted_wrt (<) K" "parted K (map (tree_kvs ?V l) C)"
    unfolding parts by (simp_all add: C spliced_children_def)
  show "list_all key_ok K" unfolding K using w(4) br(3) by (rule list_all_insert_nth)
  show "length K = nd_len parent + 1" "length C = nd_len parent + 2" using w by (simp_all add: K C spliced_children_def)
  show "list_all (\<lambda>c. 0 < c \<and> c < 2 ^ 64) C"
    using w(5) rewriting_small [OF rw] tree_root_block [of a ?V l] tree_root_block [of b ?V l]
    by (auto simp: C spliced_children_def list_all_iff dest: in_set_takeD in_set_dropD)
  show "\<forall>c \<in> set C. tree_ok ?V l c \<and> filled ?V c" using d(2) br(1,2,7,8) by (auto simp: C spliced_children_def siblings_ok_def)
  have "concat (map (tree_kvs ?V l) C) = concat (?xss[child := kv_insert k v xs])"
    using w br(6) [symmetric] by (simp add: C spliced_children_def hole_kvs_def list_update_append)
  then show "concat (map (tree_kvs ?V l) C) = kv_insert k v (concat ?xss)" using rewriting_bounds(2) [OF rw] by simp
  show "concat (map (tree_blocks ?V l) C) = hole_blocks ?V l parent child (branch_blocks ?V l (Split a sep b))"
    by (simp add: C spliced_children_def hole_blocks_def)
qed

lemma rewrite_split_fits:
  assumes rw: "rewriting t s parent child (Split a sep b) l k v xs" and fits: "nd_len parent < 12"
  obtains (refused) e ts where "rewrite_parent parent child (Split a sep b) (t, s) = (Inl e, ts)" "tx_frame (t, s) ts" "short 2 (t, s) e"
  | (ok) br' t' s' new where "rewrite_parent parent child (Split a sep b) (t, s) = (Inr br', (t', s'))" "grew (t, s) (t', s') new"
      "branch_ok (node_at s') (Suc l) br'"
      "branch_kvs (node_at s') (Suc l) br' = kv_insert k v (concat (hole_kvs (node_at s) l parent child xs))"
      "set (branch_blocks (node_at s') (Suc l) br')
         = new \<union> set (hole_blocks (node_at s) l parent child (branch_blocks (node_at s) l (Split a sep b)))"
      "distinct (branch_blocks (node_at s') (Suc l) br')" "branch_tops br' \<subseteq> new" "6 \<le> nd_len parent \<Longrightarrow> branch_filled (node_at s') br'"
proof -
  let ?g = "tx_generation t" and ?H = "hole_blocks (node_at s) l parent child (branch_blocks (node_at s) l (Split a sep b))"
  note w = rewriting_parent [OF rw] and d = rewritingD [OF rw] and p = split_pieces [OF rw refl refl]
  let ?n = "inner_fill parent child a sep b ?g 0 (nd_len parent + 1)"
  have n: "nd_level ?n = Suc l" "nd_keys ?n = insert_nth child sep (nd_keys parent)" "nd_children ?n = spliced_children parent child [a, b]"
    using inner_fill_eq [OF w(7,2), of "nd_len parent + 1" a sep b ?g 0] d(9) p(3,4) by simp_all
  have wf: "node_wf ?n"
    using inner_slice_wf [OF p(1,2) _ p(5), of 0 "nd_len parent + 1" ?g "Suc l"] inner_fill_eq [OF w(7,2), of "nd_len parent + 1" a sep b ?g 0]
      fits w(6,8) d(9) p(3,4) by simp
  have eq: "rewrite_parent parent child (Split a sep b) (t, s) = and_then (write_new ?n) (\<lambda>at. ok (One at)) (t, s)"
    using fits by (simp add: rewrite_parent_def Let_def CAPACITY_def)
  show ?thesis
  proof (cases rule: write_one [OF w(9) wf, where f = One])
    case (2 e ts)
    then show ?thesis using refused eq by simp
  next
    case (3 x t' s')
    have new: "tree_ok (node_at s') (Suc l) x" "tree_blocks (node_at s') (Suc l) x = x # ?H"
      "tree_kvs (node_at s') (Suc l) x = kv_insert k v (concat (hole_kvs (node_at s) l parent child xs))"
      using new_inner [OF 3(2) _ 3(3) wf n(1), unfolded n(2,3) p(8,9)] d(5) p(6,7) by simp_all
    have "x \<notin> set ?H" using 3(2) d(5) by (auto simp: grew_def)
    moreover have "6 \<le> nd_len parent \<Longrightarrow> branch_filled (node_at s') (One x)"
      using 3(3) n(2) p(3) by (simp add: branch_filled_def filled_def)
    ultimately show ?thesis using that(2) [of "One x" t' s' "{x}"] 3 eq new d(6) by simp
  qed (simp add: inner_fill_def)
qed

lemma split_halves:
  assumes rw: "rewriting t s parent child (Split a sep b) l k v xs" and full: "nd_len parent = 12"
    and left: "left = inner_fill parent child a sep b (tx_generation t) 0 6"
    and right: "right = inner_fill parent child a sep b (tx_generation t) 7 13"
    and K: "K = insert_nth child sep (nd_keys parent)" and C: "C = spliced_children parent child [a, b]"
  shows "node_wf left" "node_wf right" "nd_level left = Suc l" "nd_level right = Suc l"
    "nd_children left = take 7 C" "nd_children right = drop 7 C"
    "parted (nd_keys left) (map (tree_kvs (node_at s) l) (take 7 C))"
    "parted (nd_keys right) (map (tree_kvs (node_at s) l) (drop 7 C))"
    "\<forall>x \<in> set (concat (map (tree_kvs (node_at s) l) (take 7 C))). fst x < K ! 6"
    "\<forall>y \<in> set (concat (map (tree_kvs (node_at s) l) (drop 7 C))). K ! 6 \<le> fst y"
    "nd_len left = 6" "nd_len right = 6" "nd_generation left = tx_generation t" "nd_generation right = tx_generation t"
proof -
  note w = rewriting_parent [OF rw] and d = rewritingD [OF rw] and p = split_pieces [OF rw K C]
  have l: "left = \<lparr>nd_level = Suc l, nd_generation = tx_generation t, nd_keys = take 6 K, nd_values = [], nd_children = take 7 C\<rparr>"
    and r: "right = \<lparr>nd_level = Suc l, nd_generation = tx_generation t, nd_keys = drop 7 K, nd_values = [], nd_children = drop 7 C\<rparr>"
    using inner_fill_eq [OF w(7,2), of 6 a sep b "tx_generation t" 0] inner_fill_eq [OF w(7,2), of 13 a sep b "tx_generation t" 7]
      d(9) p(3,4) full by (simp_all add: left right K C)
  show "node_wf left" "node_wf right"
    unfolding l r
    using inner_slice_wf [OF p(1,2) _ p(5), of 0 6 "tx_generation t" "Suc l"] inner_slice_wf [OF p(1,2) _ p(5), of 7 13 "tx_generation t" "Suc l"]
      w(6,8) p(3,4) full by simp_all
  show "nd_level left = Suc l" "nd_level right = Suc l" "nd_children left = take 7 C" "nd_children right = drop 7 C"
    "nd_len left = 6" "nd_len right = 6" "nd_generation left = tx_generation t" "nd_generation right = tx_generation t"
    using p(3) full by (simp_all add: l r)
  have m: "(6::nat) < length K" using p(3) full by simp
  show "parted (nd_keys left) (map (tree_kvs (node_at s) l) (take 7 C))"
    "parted (nd_keys right) (map (tree_kvs (node_at s) l) (drop 7 C))"
    "\<forall>x \<in> set (concat (map (tree_kvs (node_at s) l) (take 7 C))). fst x < K ! 6"
    "\<forall>y \<in> set (concat (map (tree_kvs (node_at s) l) (drop 7 C))). K ! 6 \<le> fst y"
    using parted_halves [OF p(6,1) m] by (simp_all add: l r take_map drop_map)
qed

lemma rewrite_split_full:
  assumes rw: "rewriting t s parent child (Split a sep b) l k v xs" and full: "nd_len parent = 12"
  obtains (refused) e ts where "rewrite_parent parent child (Split a sep b) (t, s) = (Inl e, ts)" "tx_frame (t, s) ts" "short 2 (t, s) e"
  | (ok) br' t' s' new where "rewrite_parent parent child (Split a sep b) (t, s) = (Inr br', (t', s'))" "grew (t, s) (t', s') new"
      "branch_ok (node_at s') (Suc l) br'"
      "branch_kvs (node_at s') (Suc l) br' = kv_insert k v (concat (hole_kvs (node_at s) l parent child xs))"
      "set (branch_blocks (node_at s') (Suc l) br')
         = new \<union> set (hole_blocks (node_at s) l parent child (branch_blocks (node_at s) l (Split a sep b)))"
      "distinct (branch_blocks (node_at s') (Suc l) br')" "branch_tops br' \<subseteq> new" "6 \<le> nd_len parent \<Longrightarrow> branch_filled (node_at s') br'"
proof -
  let ?V = "node_at s" and ?H = "hole_blocks (node_at s) l parent child (branch_blocks (node_at s) l (Split a sep b))"
  let ?K = "insert_nth child sep (nd_keys parent)" and ?C = "spliced_children parent child [a, b]"
  let ?l = "inner_fill parent child a sep b (tx_generation t) 0 6" and ?r = "inner_fill parent child a sep b (tx_generation t) 7 13"
  note w = rewriting_parent [OF rw] and d = rewritingD [OF rw] and p = split_pieces [OF rw refl refl]
    and h = split_halves [OF rw full refl refl refl refl]
  have rising: "spliced child sep (nd_keys parent) 6 = ?K ! 6" using insert_nth_nth [OF w(7), of 6] full by simp
  let ?f = "\<lambda>x y. Split x (?K ! 6) y"
  have eq: "rewrite_parent parent child (Split a sep b) (t, s) = and_then (write_new ?l) (\<lambda>x. and_then (write_new ?r) (\<lambda>y. ok (?f x y))) (t, s)"
    using full rising by (simp add: rewrite_parent_def Let_def CAPACITY_def)
  have kvs: "concat (map (tree_kvs ?V l) (take 7 ?C)) @ concat (map (tree_kvs ?V l) (drop 7 ?C)) = kv_insert k v (concat (hole_kvs ?V l parent child xs))"
    using p(8) by (metis append_take_drop_id concat_append map_append)
  have bl: "concat (map (tree_blocks ?V l) (take 7 ?C)) @ concat (map (tree_blocks ?V l) (drop 7 ?C)) = ?H"
    using p(9) by (metis append_take_drop_id concat_append map_append)
  then have sub: "set (concat (map (tree_blocks ?V l) (take 7 ?C))) \<subseteq> used_blocks t" "set (concat (map (tree_blocks ?V l) (drop 7 ?C))) \<subseteq> used_blocks t"
    using d(5) by (metis le_sup_iff set_append)+
  have kids: "\<forall>c \<in> set (take 7 ?C). tree_ok ?V l c \<and> filled ?V c" "\<forall>c \<in> set (drop 7 ?C). tree_ok ?V l c \<and> filled ?V c"
    using p(7) by (auto dest: in_set_takeD in_set_dropD)
  have sep: "key_ok (?K ! 6)" using p(2,3) full by (simp add: list_all_length)
  show ?thesis
  proof (cases rule: write_two [OF w(9) h(1,2,13,14), where f = ?f])
    case (1 e ts)
    then show ?thesis using refused eq by simp
  next
    case (2 x y t' s')
    have x: "tree_ok (node_at s') (Suc l) x \<and> tree_kvs (node_at s') (Suc l) x = concat (map (tree_kvs ?V l) (take 7 ?C))
        \<and> tree_blocks (node_at s') (Suc l) x = x # concat (map (tree_blocks ?V l) (take 7 ?C))"
      using new_inner [OF 2(2) _ 2(4) h(1,3), unfolded h(5)] kids(1) sub(1) h(7) by simp
    have y: "tree_ok (node_at s') (Suc l) y \<and> tree_kvs (node_at s') (Suc l) y = concat (map (tree_kvs ?V l) (drop 7 ?C))
        \<and> tree_blocks (node_at s') (Suc l) y = y # concat (map (tree_blocks ?V l) (drop 7 ?C))"
      using new_inner [OF 2(2) _ 2(5) h(2,4), unfolded h(6)] kids(2) sub(2) h(8) by simp
    have fresh: "x \<notin> set ?H" "y \<notin> set ?H" using 2(2) d(5) by (auto simp: grew_def)
    have fill: "filled (node_at s') x" "filled (node_at s') y" using 2(4,5) h(11,12) by (simp_all add: filled_def)
    have "branch_ok (node_at s') (Suc l) (?f x y)" using x y h(9,10) sep fill by simp
    moreover have "branch_kvs (node_at s') (Suc l) (?f x y) = kv_insert k v (concat (hole_kvs ?V l parent child xs))"
      using x y kvs by simp
    moreover have "set (branch_blocks (node_at s') (Suc l) (?f x y)) = {x, y} \<union> set ?H"
      using x y arg_cong [OF bl, of set] by simp
    moreover have "distinct (branch_blocks (node_at s') (Suc l) (?f x y))"
      using x y 2(3) fresh d(6) unfolding bl [symmetric] by simp
    moreover have "rewrite_parent parent child (Split a sep b) (t, s) = (Inr (?f x y), (t', s'))" using eq 2(1) by simp
    moreover have "branch_tops (?f x y) \<subseteq> {x, y}" "branch_filled (node_at s') (?f x y)" using fill by (simp_all add: branch_filled_def)
    ultimately show ?thesis using that(2) 2(2) by blast
  qed
qed

lemma rewrite_parent_ok:
  assumes rw: "rewriting t s parent child br l k v xs"
  obtains (refused) e ts where "rewrite_parent parent child br (t, s) = (Inl e, ts)" "tx_frame (t, s) ts" "short 2 (t, s) e"
  | (ok) br' t' s' new where "rewrite_parent parent child br (t, s) = (Inr br', (t', s'))" "grew (t, s) (t', s') new"
      "branch_ok (node_at s') (Suc l) br'"
      "branch_kvs (node_at s') (Suc l) br' = kv_insert k v (concat (hole_kvs (node_at s) l parent child xs))"
      "set (branch_blocks (node_at s') (Suc l) br')
         = new \<union> set (hole_blocks (node_at s) l parent child (branch_blocks (node_at s) l br))"
      "distinct (branch_blocks (node_at s') (Suc l) br')" "branch_tops br' \<subseteq> new" "6 \<le> nd_len parent \<Longrightarrow> branch_filled (node_at s') br'"
proof (cases br)
  case (One a)
  show ?thesis using rewrite_one_ok [OF rw [unfolded One]] refused ok One by metis
next
  case (Split a sep b)
  show ?thesis
  proof (cases "nd_len parent < 12")
    case True
    show ?thesis using rewrite_split_fits [OF rw [unfolded Split] True] refused ok Split by metis
  next
    case False
    then have "nd_len parent = 12" using rewriting_parent(1) [OF rw] by simp
    then show ?thesis using rewrite_split_full [OF rw [unfolded Split]] refused ok Split by metis
  qed
qed

end
