(* ===== verification/Fs_Tree_Update.thy ===== *)
theory Fs_Tree_Update
  imports Fs_Tree_Insert
begin

text \<open>
  The whole insertion: the descent to the leaf, the path copied bottom up, the root raised. A
  context is the tree around a hole at the end of a path; \<open>ctx_whole\<close> fills the hole. The main
  lemma says that the new root's tree holds the update and that the blocks in use are the
  protected ones and the tree's own, nothing leaked.
\<close>

section \<open>The tree around a hole\<close>

fun ctx_ok :: "node_arena \<Rightarrow> key \<Rightarrow> nat \<Rightarrow> path \<Rightarrow> (key \<times> byte list) list \<Rightarrow> bool" where
  "ctx_ok V k l [] xs = True"
| "ctx_ok V k l ((at, child) # p) xs =
     (\<exists>n. V at = Some n \<and> node_wf n \<and> nd_level n = Suc l \<and> child = partition_point (\<lambda>held. held \<le> k) (nd_keys n)
        \<and> siblings_ok V l n child \<and> parted (nd_keys n) (hole_kvs V l n child xs) \<and> (p \<noteq> [] \<longrightarrow> 6 \<le> nd_len n)
        \<and> ctx_ok V k (Suc l) p (concat (hole_kvs V l n child xs)))"

fun ctx_blocks :: "node_arena \<Rightarrow> nat \<Rightarrow> path \<Rightarrow> nat list" where
  "ctx_blocks V l [] = []"
| "ctx_blocks V l ((at, child) # p) =
     at # (case V at of None \<Rightarrow> [] | Some n \<Rightarrow> hole_blocks V l n child []) @ ctx_blocks V (Suc l) p"

fun ctx_whole :: "node_arena \<Rightarrow> nat \<Rightarrow> path \<Rightarrow> (key \<times> byte list) list \<Rightarrow> (key \<times> byte list) list" where
  "ctx_whole V l [] xs = xs"
| "ctx_whole V l ((at, child) # p) xs =
     ctx_whole V (Suc l) p (case V at of None \<Rightarrow> [] | Some n \<Rightarrow> concat (hole_kvs V l n child xs))"

lemma hole_frame:
  assumes "\<forall>b \<in> set (hole_blocks V l n child []). V' b = V b"
  shows "hole_kvs V' l n child xs = hole_kvs V l n child xs" "hole_blocks V' l n child bs = hole_blocks V l n child bs"
    "siblings_ok V' l n child = siblings_ok V l n child"
proof -
  have kid: "tree_kvs V' l c = tree_kvs V l c \<and> tree_blocks V' l c = tree_blocks V l c \<and> tree_ok V' l c = tree_ok V l c"
    if "c \<in> set (take child (nd_children n)) \<union> set (drop (child + 1) (nd_children n))" for c
    using tree_frame [of V l c V'] assms that by (auto simp: hole_blocks_def)
  then have "map (tree_kvs V' l) (take child (nd_children n)) = map (tree_kvs V l) (take child (nd_children n))"
    "map (tree_kvs V' l) (drop (child + 1) (nd_children n)) = map (tree_kvs V l) (drop (child + 1) (nd_children n))"
    "map (tree_blocks V' l) (take child (nd_children n)) = map (tree_blocks V l) (take child (nd_children n))"
    "map (tree_blocks V' l) (drop (child + 1) (nd_children n)) = map (tree_blocks V l) (drop (child + 1) (nd_children n))"
    by auto
  then show "hole_kvs V' l n child xs = hole_kvs V l n child xs" "hole_blocks V' l n child bs = hole_blocks V l n child bs"
    by (simp_all only: hole_kvs_def hole_blocks_def)
  have "filled V' c = filled V c" if "c \<in> set (take child (nd_children n)) \<union> set (drop (child + 1) (nd_children n))" for c
    using that assms tree_root_block [of c V l] by (intro filled_frame) (auto simp: hole_blocks_def)
  then show "siblings_ok V' l n child = siblings_ok V l n child" unfolding siblings_ok_def using kid by blast
qed

lemma ctx_frame:
  "\<forall>b \<in> set (ctx_blocks V l p). V' b = V b \<Longrightarrow>
   ctx_ok V' k l p xs = ctx_ok V k l p xs \<and> ctx_blocks V' l p = ctx_blocks V l p \<and> ctx_whole V' l p xs = ctx_whole V l p xs"
proof (induction p arbitrary: l xs)
  case (Cons x p)
  obtain at child where x: "x = (at, child)" by fastforce
  have top: "V' at = V at" and rest: "\<forall>b \<in> set (ctx_blocks V (Suc l) p). V' b = V b" using Cons.prems x by auto
  note IH = Cons.IH [OF rest]
  show ?case
  proof (cases "V at")
    case (Some n)
    have "\<forall>b \<in> set (hole_blocks V l n child []). V' b = V b" using Cons.prems x Some by auto
    note hole = hole_frame [OF this]
    show ?thesis using top Some x IH by (simp add: hole)
  qed (use top x IH in auto)
qed simp

lemma hole_blocks_set: "set (hole_blocks V l n child bs) = set (hole_blocks V l n child []) \<union> set bs"
  by (auto simp: hole_blocks_def)

lemma hole_blocks_distinct:
  "distinct (hole_blocks V l n child bs) \<longleftrightarrow>
     distinct (hole_blocks V l n child []) \<and> distinct bs \<and> set bs \<inter> set (hole_blocks V l n child []) = {}"
  by (auto simp: hole_blocks_def)

section \<open>The way up\<close>

text \<open>The nodes a transaction wrote carry its generation.\<close>

definition fresh_nodes :: "tree_tx \<times> store \<Rightarrow> bool" where
  "fresh_nodes ts \<longleftrightarrow> (\<forall>b \<in> used_blocks (fst ts) - protected_blocks (fst ts). \<forall>n.
     node_at (snd ts) b = Some n \<longrightarrow> nd_generation n = tx_generation (fst ts))"

lemma tx_frame_kept:
  assumes "tx_frame a b"
  shows "protected_blocks (fst b) = protected_blocks (fst a)" "tx_generation (fst b) = tx_generation (fst a)"
  using assms by (simp_all add: tx_frame_def tx_kept_protected) (simp add: tx_kept_def)

lemma grew_fresh:
  assumes "grew a b new" and "fresh_nodes a"
  shows "fresh_nodes b"
proof -
  have "tx_frame a b" using assms(1) by (simp add: grew_def)
  from tx_frame_kept [OF this] show ?thesis using assms by (fastforce simp: grew_def fresh_nodes_def)
qed

lemma fresh_less:
  assumes "tx_frame a b" and "node_at (snd b) = node_at (snd a)" and "used_blocks (fst b) \<subseteq> used_blocks (fst a)" and "fresh_nodes a"
  shows "fresh_nodes b"
  using tx_frame_kept [OF assms(1)] assms(2-4) by (auto simp: fresh_nodes_def)

text \<open>What a rewriting leaves, by the blocks it may take and the level and the entries it should have reached.\<close>

definition inserted ::
  "nat \<Rightarrow> tree_tx \<times> store \<Rightarrow> nat \<Rightarrow> (key \<times> byte list) list \<Rightarrow> (fs_error + branch) \<times> (tree_tx \<times> store) \<Rightarrow> bool" where
  "inserted m ts l ys r \<longleftrightarrow> tx_frame ts (snd r) \<and>
     (case fst r of Inl e \<Rightarrow> short m ts e
      | Inr br \<Rightarrow> spare (fst ts) \<le> spare (fst (snd r)) + m \<and> tx_root (fst (snd r)) = tx_root (fst ts) \<and> branch_ok (node_at (snd (snd r))) l br
          \<and> branch_kvs (node_at (snd (snd r))) l br = ys \<and> distinct (branch_blocks (node_at (snd (snd r))) l br)
          \<and> branch_tops br \<inter> protected_blocks (fst ts) = {} \<and> (fresh_nodes ts \<longrightarrow> fresh_nodes (snd r))
          \<and> used_blocks (fst (snd r)) = protected_blocks (fst (snd r)) \<union> set (branch_blocks (node_at (snd (snd r))) l br))"

lemma inserted_trans:
  assumes "tx_frame a b" and "tx_root (fst b) = tx_root (fst a)" and "fresh_nodes a \<Longrightarrow> fresh_nodes b" and "spare (fst a) \<le> spare (fst b) + 2" and "inserted m b l ys r"
  shows "inserted (m + 2) a l ys r"
  using tx_frame_kept [OF assms(1)] tx_frame_trans [OF assms(1), of "snd r"] short_trans [OF assms(1,4), of m] assms(2-5)
  by (auto simp: inserted_def split: sum.splits)

lemma insert_up_ok:
  assumes "tx_ok t s" and "ctx_ok (node_at s) k l p xs" and "branch_ok (node_at s) l br"
    and "branch_kvs (node_at s) l br = kv_insert k v xs"
    and "distinct (branch_blocks (node_at s) l br @ ctx_blocks (node_at s) l p)"
    and "used_blocks t = protected_blocks t \<union> set (branch_blocks (node_at s) l br) \<union> set (ctx_blocks (node_at s) l p)"
    and "p \<noteq> [] \<longrightarrow> branch_filled (node_at s) br" and "branch_tops br \<inter> protected_blocks t = {}"
  shows "inserted (2 * length p) (t, s) (l + length p) (kv_insert k v (ctx_whole (node_at s) l p xs)) (insert_up p br (t, s))"
  using assms
proof (induction p arbitrary: t s l xs br)
  case Nil
  then show ?case using tx_frame_refl by (simp add: inserted_def)
next
  case (Cons x p)
  obtain at child where x: "x = (at, child)" by fastforce
  let ?V = "node_at s"
  obtain n where n: "?V at = Some n" "node_wf n" "nd_level n = Suc l" "child = partition_point (\<lambda>held. held \<le> k) (nd_keys n)"
    "siblings_ok ?V l n child" "parted (nd_keys n) (hole_kvs ?V l n child xs)"
    "ctx_ok ?V k (Suc l) p (concat (hole_kvs ?V l n child xs))" "p \<noteq> [] \<longrightarrow> 6 \<le> nd_len n"
    using Cons.prems(2) x by auto
  let ?H = "hole_blocks ?V l n child (branch_blocks ?V l br)" and ?R = "ctx_blocks ?V (Suc l) p"
  have D: "distinct (at # ?H @ ?R)" "used_blocks t = protected_blocks t \<union> insert at (set ?H \<union> set ?R)"
    using Cons.prems(5,6) x n(1) hole_blocks_set [of ?V l n child "branch_blocks ?V l br"]
      hole_blocks_distinct [of ?V l n child "branch_blocks ?V l br"] by auto
  obtain s1 where read: "tree_read at s = (Inr n, s1)" and same: "store_same s s1"
    using tree_read_ok [OF tx_ok_store [OF Cons.prems(1)] n(1)] .
  have V1: "node_at s1 = ?V" using store_sameD(1) [OF same] .
  have tx1: "tx_ok t s1" using tx_ok_same [OF Cons.prems(1) same] .
  have fr1: "tx_frame (t, s) (t, s1)" using tx_frame_same [OF Cons.prems(1) same] .
  have rw: "rewriting t s1 n child br l k v xs"
    unfolding rewriting_def V1 using tx1 n Cons.prems(3,4,7) D by auto
  have step: "insert_up (x # p) br (t, s) =
      (case rewrite_parent n child br (t, s1) of (Inl e, ts) \<Rightarrow> (Inl e, ts) | (Inr br, ts) \<Rightarrow> insert_up p br (tree_release at ts))"
    using read x by (simp add: and_then_def on_store_def modify_def split: prod.splits sum.splits)
  show ?case
  proof (cases rule: rewrite_parent_ok [OF rw])
    case (1 e ts)
    have "short (2 * length (x # p)) (t, s) e" using short_trans [OF fr1 _ 1(3), of 0] by simp
    then show ?thesis using 1 step tx_frame_trans [OF fr1] by (simp add: inserted_def)
  next
    case (2 br2 t2 s2 new)
    let ?V2 = "node_at s2" and ?B = "branch_blocks (node_at s2) (Suc l) br2"
    have g: "tx_frame (t, s1) (t2, s2)" "tx_root t2 = tx_root t" "new \<inter> used_blocks t = {}" "used_blocks t2 = used_blocks t \<union> new"
      "\<And>b. b \<notin> new \<Longrightarrow> ?V2 b = ?V b"
      using 2(2) V1 by (auto simp: grew_def)
    have B: "set ?B = new \<union> set ?H" "distinct ?B" using 2(5,6) V1 by simp_all
    have arena: "in_arena (vl_super (st_vol s2)) at"
      using used_in_arena [OF tx_frame_ok [OF g(1)], of at] D(2) g(4) by auto
    obtain t3 s3 where rel: "tree_release at (t2, s2) = (t3, s3)" "tx_frame (t2, s2) (t3, s3)" "tx_root t3 = tx_root t2"
      "node_at s3 = ?V2" "used_blocks t3 = used_blocks t2 - ({at} - protected_blocks t2)"
      using tree_release_ok [OF tx_frame_ok [OF g(1)] arena] .
    have prot: "protected_blocks t2 = protected_blocks t" "protected_blocks t3 = protected_blocks t"
      using g(1) rel(2) tx_kept_protected by (auto simp: tx_frame_def)
    have top: "branch_tops br2 \<inter> protected_blocks t3 = {}" using 2(7) g(3) prot D(2) by auto
    have fresh: "fresh_nodes (t3, s3)" if "fresh_nodes (t, s)"
      using fresh_less [OF rel(2)] grew_fresh [OF 2(2)] fresh_less [OF fr1] that rel(4,5) V1 by auto
    have "\<forall>b \<in> set ?R. ?V2 b = ?V b" using g(3,5) D(2) by blast
    note ctx = ctx_frame [OF this, of k "concat (hole_kvs ?V l n child xs)"]
    have "distinct (?B @ ctx_blocks ?V2 (Suc l) p)"
      using B D g(3) ctx by auto
    moreover have "used_blocks t3 = protected_blocks t3 \<union> set ?B \<union> set (ctx_blocks ?V2 (Suc l) p)"
      using rel(5) g(3,4) D B(1) prot ctx by auto
    moreover have "branch_kvs ?V2 (Suc l) br2 = kv_insert k v (concat (hole_kvs ?V l n child xs))" using 2(4) V1 by simp
    ultimately have IH: "inserted (2 * length p) (t3, s3) (Suc l + length p) (kv_insert k v (ctx_whole ?V2 (Suc l) p (concat (hole_kvs ?V l n child xs)))) (insert_up p br2 (t3, s3))"
      using Cons.IH [of t3 s3 "Suc l" "concat (hole_kvs ?V l n child xs)" br2] tx_frame_ok [OF rel(2)] ctx n(7,8) 2(3,8) rel(4) top by simp
    have frame: "tx_frame (t, s) (t3, s3)" using tx_frame_trans [OF fr1 tx_frame_trans [OF g(1) rel(2)]] .
    have up: "insert_up (x # p) br (t, s) = insert_up p br2 (t3, s3)" using step 2(1) rel(1) by simp
    have whole: "ctx_whole ?V l (x # p) xs = ctx_whole ?V2 (Suc l) p (concat (hole_kvs ?V l n child xs))" using x n(1) ctx by simp
    have "spare t \<le> spare t3 + 2" using grew_spare [OF 2(2)] spare_used [of t2 t3 "{}"] rel(2,5) by (auto simp: tx_frame_def)
    then show ?thesis using inserted_trans [OF frame _ fresh _ IH] rel(3) g(2) unfolding up whole by simp
  qed
qed

section \<open>The way down\<close>

lemma hole_filled:
  assumes "child < length (nd_children n)"
  shows "hole_kvs V l n child (tree_kvs V l (nd_children n ! child)) = map (tree_kvs V l) (nd_children n)"
    and "hole_blocks V l n child (tree_blocks V l (nd_children n ! child)) = concat (map (tree_blocks V l) (nd_children n))"
proof -
  have "nd_children n = take child (nd_children n) @ nd_children n ! child # drop (child + 1) (nd_children n)"
    using id_take_nth_drop [OF assms] by simp
  then show "hole_kvs V l n child (tree_kvs V l (nd_children n ! child)) = map (tree_kvs V l) (nd_children n)"
    "hole_blocks V l n child (tree_blocks V l (nd_children n ! child)) = concat (map (tree_blocks V l) (nd_children n))"
    by (metis (no_types, lifting) hole_kvs_def list.simps(9) map_append)
      (metis (no_types, lifting) \<open>nd_children n = take child (nd_children n) @ nd_children n ! child # drop (child + 1) (nd_children n)\<close>
        hole_blocks_def list.simps(9) map_append concat.simps(2) concat_append)
qed

lemma insert_down_ok:
  assumes "store_ok s" and "tree_ok (node_at s) l at" and "ctx_ok (node_at s) k l p (tree_kvs (node_at s) l at)" and "l \<le> room"
    and "distinct (tree_blocks (node_at s) l at @ ctx_blocks (node_at s) l p)" and "p \<noteq> [] \<longrightarrow> filled (node_at s) at"
  shows "\<exists>p' at' leaf s'. insert_down room p at k s = (Inr (p', at', leaf), s') \<and> store_same s s'
    \<and> node_at s at' = Some leaf \<and> node_wf leaf \<and> nd_level leaf = 0 \<and> length p' = l + length p \<and> (p' \<noteq> [] \<longrightarrow> 6 \<le> nd_len leaf)
    \<and> ctx_ok (node_at s) k 0 p' (tree_kvs (node_at s) 0 at')
    \<and> ctx_whole (node_at s) 0 p' (tree_kvs (node_at s) 0 at') = ctx_whole (node_at s) l p (tree_kvs (node_at s) l at)
    \<and> distinct (at' # ctx_blocks (node_at s) 0 p')
    \<and> set (at' # ctx_blocks (node_at s) 0 p') = set (tree_blocks (node_at s) l at @ ctx_blocks (node_at s) l p)"
  using assms
proof (induction l arbitrary: room p at s)
  case 0
  obtain n where n: "node_at s at = Some n" "node_wf n" "nd_level n = 0" using 0(2) by auto
  obtain s' where read: "tree_read at s = (Inr n, s')" "store_same s s'" using tree_read_ok [OF 0(1) n(1)] .
  then have "insert_down room p at k s = (Inr (p, at, n), s')"
    using n by (subst insert_down.simps) (simp add: and_then_def)
  then show ?case using read n 0 by (auto simp: filled_def)
next
  case (Suc l)
  let ?V = "node_at s"
  obtain n where n: "?V at = Some n" "node_wf n" "nd_level n = Suc l" "\<forall>c \<in> set (nd_children n). tree_ok ?V l c \<and> filled ?V c"
    "parted (nd_keys n) (map (tree_kvs ?V l) (nd_children n))" using Suc.prems(2) by (auto simp: tree_ok.simps)
  let ?c = "partition_point (\<lambda>held. held \<le> k) (nd_keys n)"
  have c: "?c < length (nd_children n)" using parted_child [OF n(5)] by simp
  note fill = hole_filled [OF c, of ?V l]
  have kvs: "tree_kvs ?V (Suc l) at = concat (map (tree_kvs ?V l) (nd_children n))"
    and bl: "tree_blocks ?V (Suc l) at = at # concat (map (tree_blocks ?V l) (nd_children n))"
    using n(1) by (simp_all add: tree_kvs.simps tree_blocks.simps)
  obtain s' where read: "tree_read at s = (Inr n, s')" "store_same s s'" using tree_read_ok [OF Suc.prems(1) n(1)] .
  have V': "node_at s' = ?V" using store_sameD(1) [OF read(2)] .
  let ?p = "(at, ?c) # p" and ?at = "nd_children n ! ?c"
  have sib: "siblings_ok ?V l n ?c" using n(4) by (auto simp: siblings_ok_def dest: in_set_takeD in_set_dropD)
  have ctx: "ctx_ok ?V k l ?p (tree_kvs ?V l ?at)" using n sib fill(1) Suc.prems(3,6) kvs by (simp add: filled_def)
  have hb: "distinct (concat (map (tree_blocks ?V l) (nd_children n))) = distinct (hole_blocks ?V l n ?c (tree_blocks ?V l ?at))"
    "set (concat (map (tree_blocks ?V l) (nd_children n))) = set (hole_blocks ?V l n ?c []) \<union> set (tree_blocks ?V l ?at)"
    using fill(2) hole_blocks_set [of ?V l n ?c "tree_blocks ?V l ?at"] by simp_all
  have dist: "distinct (tree_blocks ?V l ?at @ ctx_blocks ?V l ?p)"
    and sets: "set (tree_blocks ?V l ?at @ ctx_blocks ?V l ?p) = set (tree_blocks ?V (Suc l) at @ ctx_blocks ?V (Suc l) p)"
    using Suc.prems(5) n(1) hb hole_blocks_distinct [of ?V l n ?c "tree_blocks ?V l ?at"] unfolding bl by auto
  have whole: "ctx_whole ?V l ?p (tree_kvs ?V l ?at) = ctx_whole ?V (Suc l) p (tree_kvs ?V (Suc l) at)"
    using n(1) fill(1) kvs by simp
  obtain room' where room: "room = Suc room'" using Suc.prems(4) by (cases room) auto
  have "insert_down room p at k s = insert_down room' ?p ?at k s'"
    using read(1) n(3) room node_upper_point [OF node_wf_sorted [OF n(2)], of k]
    by (subst insert_down.simps) (simp add: and_then_def Let_def)
  then show ?case
    using Suc.IH [of s' ?at ?p room'] store_sameD(2) [OF read(2) Suc.prems(1)] n(4) c ctx dist sets whole room Suc.prems(4) V'
      store_same_trans [OF read(2)] by auto
qed

section \<open>The root\<close>

definition tx_holds_at :: "tree_tx \<Rightarrow> store \<Rightarrow> nat \<Rightarrow> (key \<times> byte list) list \<Rightarrow> bool" where
  "tx_holds_at t s l kvs \<longleftrightarrow> tx_ok t s \<and>
     (if tx_root t = 0 then kvs = [] \<and> l = 0 \<and> used_blocks t = protected_blocks t
      else tree_ok (node_at s) l (tx_root t) \<and> tree_kvs (node_at s) l (tx_root t) = kvs
         \<and> distinct (tree_blocks (node_at s) l (tx_root t))
         \<and> used_blocks t = protected_blocks t \<union> set (tree_blocks (node_at s) l (tx_root t)))"

definition root_result :: "nat \<Rightarrow> tree_tx \<times> store \<Rightarrow> nat \<Rightarrow> (key \<times> byte list) list \<Rightarrow> (fs_error + unit) \<times> (tree_tx \<times> store) \<Rightarrow> bool" where
  "root_result m ts l ys r \<longleftrightarrow> tx_frame ts (snd r) \<and>
     (case fst r of Inl e \<Rightarrow> short m ts e
      | Inr _ \<Rightarrow> spare (fst ts) \<le> spare (fst (snd r)) + m \<and> tx_root (fst (snd r)) \<notin> protected_blocks (fst ts) \<and> (fresh_nodes ts \<longrightarrow> fresh_nodes (snd r))
          \<and> (\<exists>l'. l \<le> l' \<and> l' \<le> Suc l \<and> tx_holds_at (fst (snd r)) (snd (snd r)) l' ys))"

lemma tx_root_update:
  "tx_ok (t\<lparr>tx_root := x\<rparr>) s = tx_ok t s" "used_blocks (t\<lparr>tx_root := x\<rparr>) = used_blocks t"
  "protected_blocks (t\<lparr>tx_root := x\<rparr>) = protected_blocks t"
  by (simp_all add: tx_ok_def used_blocks_def protected_blocks_def)

lemma spare_root: "spare (t\<lparr>tx_root := x\<rparr>) = spare t"
  by (simp add: spare_def tx_root_update)

lemma fresh_root: "fresh_nodes (t\<lparr>tx_root := x\<rparr>, s) = fresh_nodes (t, s)"
  by (simp add: fresh_nodes_def tx_root_update)

lemma tx_frame_root: "tx_frame a (t, s) \<Longrightarrow> tx_frame a (t\<lparr>tx_root := x\<rparr>, s)"
  by (simp add: tx_frame_def tx_root_update tx_kept_def)

lemma raise_root_ok:
  assumes "tx_ok t s" and "branch_ok (node_at s) l br" and "distinct (branch_blocks (node_at s) l br)"
    and "used_blocks t = protected_blocks t \<union> set (branch_blocks (node_at s) l br)" and "l < 7"
    and "branch_tops br \<inter> protected_blocks t = {}"
  shows "root_result 1 (t, s) l (branch_kvs (node_at s) l br) (raise_root br (t, s))"
proof (cases br)
  case (One a)
  have "0 < a" using arena_child [OF assms(1) used_in_arena [OF assms(1)], of a] assms(4) One tree_root_block [of a "node_at s" l] by auto
  then have "tx_holds_at (t\<lparr>tx_root := a\<rparr>) s l (tree_kvs (node_at s) l a)"
    using assms One by (simp add: tx_holds_at_def tx_root_update)
  then show ?thesis using One tx_frame_root [OF tx_frame_refl [OF assms(1)]] assms(6)
    by (auto simp: raise_root_def set_root_def root_result_def fresh_root spare_root)
next
  case (Split a sep b)
  let ?V = "node_at s"
  have br: "tree_ok ?V l a" "tree_ok ?V l b" "key_ok sep" "parted [sep] (map (tree_kvs ?V l) [a, b])" "filled ?V a" "filled ?V b"
    using assms(2) Split by auto
  obtain n where n: "?V a = Some n" "nd_level n = l" using br(1) by (cases l) (auto simp: tree_ok.simps)
  obtain s1 where read: "tree_read a s = (Inr n, s1)" "store_same s s1" using tree_read_ok [OF tx_ok_store [OF assms(1)] n(1)] .
  have V1: "node_at s1 = ?V" and tx1: "tx_ok t s1" using store_sameD(1) [OF read(2)] tx_ok_same [OF assms(1) read(2)] by simp_all
  let ?n = "\<lparr>nd_level = Suc l, nd_generation = tx_generation t, nd_keys = [sep], nd_values = [], nd_children = [a, b]\<rparr>"
  have ab: "0 < x \<and> x < 2 ^ 64" if "x \<in> {a, b}" for x
    using that arena_child [OF assms(1) used_in_arena [OF assms(1)], of x] assms(4) Split tree_root_block [of x ?V l] by auto
  have wf: "node_wf ?n" using ab br(3) assms(1,5) by (auto simp: node_wf_def tx_ok_def)
  have eq: "raise_root br (t, s) = and_then (write_new ?n) set_root (t, s1)"
    using Split read(1) n(2) by (simp add: raise_root_def and_then_def on_store_def)
  show ?thesis
  proof (cases rule: write_new_cases [OF tx1 wf])
    case (1 e t' s')
    have "short 1 (t, s) e" using short_trans [OF tx_frame_same [OF assms(1) read(2)] _ 1(3), of 0] by simp
    then show ?thesis using 1 eq tx_frame_trans [OF tx_frame_same [OF assms(1) read(2)]] by (simp add: and_then_def root_result_def)
  next
    case (2 x t' s')
    have gr: "grew (t, s1) (t', s') {x}" using 2 by (simp add: grew_def)
    have fresh: "fresh_nodes (t', s')" if "fresh_nodes (t, s)"
      using grew_fresh [OF gr] fresh_less [OF tx_frame_same [OF assms(1) read(2)]] that V1 by simp
    have blocks: "set (concat (map (tree_blocks ?V l) [a, b])) \<subseteq> used_blocks t" using assms(4) Split by auto
    have top: "tree_ok (node_at s') (Suc l) x" "tree_kvs (node_at s') (Suc l) x = branch_kvs ?V l br"
      "tree_blocks (node_at s') (Suc l) x = x # branch_blocks ?V l br"
      using new_inner [OF gr, of x ?n l] 2(7) wf br blocks V1 Split by simp_all
    have x: "x \<noteq> 0" "x \<notin> set (branch_blocks ?V l br)"
      using arena_child [OF tx1 2(6)] 2(4) blocks Split by auto
    have frame: "tx_frame (t, s) (t'\<lparr>tx_root := x\<rparr>, s')"
      using tx_frame_root tx_frame_trans [OF tx_frame_same [OF assms(1) read(2)] 2(2)] by blast
    have "protected_blocks t' = protected_blocks t" using 2(2) tx_kept_protected by (auto simp: tx_frame_def)
    then have "tx_holds_at (t'\<lparr>tx_root := x\<rparr>) s' (Suc l) (branch_kvs ?V l br)"
      using top x 2(5) assms(3,4) tx_frame_ok [OF 2(2)] by (auto simp: tx_holds_at_def tx_root_update)
    then have "\<exists>l'. l \<le> l' \<and> l' \<le> Suc l \<and> tx_holds_at (t'\<lparr>tx_root := x\<rparr>) s' l' (branch_kvs ?V l br)"
      by (metis le_Suc_eq le_refl)
    moreover have "x \<notin> protected_blocks t" using 2(4) tx1 by (auto simp: tx_ok_def)
    moreover have "spare t \<le> spare t' + 1" using spare_used [of t t' "{x}"] 2(2,5) by (simp add: tx_frame_def)
    ultimately show ?thesis using eq 2(1) frame fresh by (simp add: and_then_def set_root_def root_result_def fresh_root spare_root)
  qed
qed

lemma root_result_trans:
  assumes "tx_frame a b" and "fresh_nodes a \<Longrightarrow> fresh_nodes b" and "spare (fst a) \<le> spare (fst b) + m" and "root_result n b l ys r"
  shows "root_result (n + m) a l ys r"
  using tx_frame_kept [OF assms(1)] tx_frame_trans [OF assms(1), of "snd r"] short_trans [OF assms(1,3), of n] assms(2-4)
  by (auto simp: root_result_def split: sum.splits)

lemma insert_finish:
  assumes "inserted m ts l ys (insert_up p br ts)" and "l < 7"
  shows "root_result (m + 1) ts l ys (and_then (insert_up p br) raise_root ts)"
proof -
  obtain t0 s0 r t s where r: "insert_up p br ts = (r, (t, s))" and ts: "ts = (t0, s0)" by (metis prod.collapse)
  show ?thesis
  proof (cases r)
    case (Inl e)
    then show ?thesis using assms(1) r by (auto simp: inserted_def root_result_def and_then_def short_def)
  next
    case (Inr b)
    then have fr: "tx_frame ts (t, s)" and fresh: "fresh_nodes ts \<Longrightarrow> fresh_nodes (t, s)" using assms(1) r by (simp_all add: inserted_def)
    have "protected_blocks t = protected_blocks t0" using fr ts tx_kept_protected by (auto simp: tx_frame_def)
    then have "root_result 1 (t, s) l ys (raise_root b (t, s))" "tx_frame ts (t, s)" "spare (fst ts) \<le> spare (fst (t, s)) + m"
      using raise_root_ok [of t s l b] assms r ts tx_frame_ok [OF fr [unfolded ts]] Inr by (auto simp: inserted_def)
    note res = this
    show ?thesis using r Inr root_result_trans [OF res(2) fresh res(3,1)] by (simp add: and_then_def)
  qed
qed

lemma tree_insert_ok:
  assumes "tx_holds_at t s l kvs" and "l < 7" and "key_ok k" and "length v = 32"
  shows "root_result (2 * l + 3) (t, s) l (kv_insert k v kvs) (tree_insert k v (t, s))"
proof (cases "tx_root t = 0")
  case True
  let ?n = "\<lparr>nd_level = 0, nd_generation = tx_generation t, nd_keys = [k], nd_values = [v], nd_children = []\<rparr>"
  have tx: "tx_ok t s" and h: "kvs = []" "l = 0" "used_blocks t = protected_blocks t" using assms(1) True by (auto simp: tx_holds_at_def)
  have wf: "node_wf ?n" using assms(3,4) tx by (auto simp: node_wf_def tx_ok_def)
  have eq: "tree_insert k v (t, s) = and_then (write_new ?n) set_root (t, s)" using True by (simp add: tree_insert_def)
  show ?thesis
  proof (cases rule: write_new_cases [OF tx wf])
    case (1 e t' s')
    then show ?thesis using eq by (auto simp: and_then_def root_result_def short_def)
  next
    case (2 x t' s')
    have "x \<noteq> 0" using arena_child [OF tx 2(6)] by simp
    moreover have "protected_blocks t' = protected_blocks t" using 2(2) tx_kept_protected by (auto simp: tx_frame_def)
    ultimately have "tx_holds_at (t'\<lparr>tx_root := x\<rparr>) s' 0 [(k, v)]"
      using 2 wf h tx_frame_ok [OF 2(2)] by (auto simp: tx_holds_at_def tx_root_update)
    moreover have "x \<notin> protected_blocks t" using 2(4) tx by (auto simp: tx_ok_def)
    moreover have "fresh_nodes (t, s) \<Longrightarrow> fresh_nodes (t', s')" using grew_fresh [of "(t, s)" "(t', s')" "{x}"] 2 by (simp add: grew_def)
    moreover have "spare t \<le> spare t' + 1" using spare_used [of t t' "{x}"] 2(2,5) by (simp add: tx_frame_def)
    ultimately show ?thesis using eq 2(1) tx_frame_root [OF 2(2)] h
      by (auto simp: and_then_def set_root_def root_result_def fresh_root spare_root)
  qed
next
  case False
  let ?V = "node_at s"
  have tx: "tx_ok t s" and h: "tree_ok ?V l (tx_root t)" "tree_kvs ?V l (tx_root t) = kvs" "distinct (tree_blocks ?V l (tx_root t))"
    "used_blocks t = protected_blocks t \<union> set (tree_blocks ?V l (tx_root t))" using assms(1) False by (auto simp: tx_holds_at_def)
  obtain p at leaf s1 where down: "insert_down 7 [] (tx_root t) k s = (Inr (p, at, leaf), s1)" "store_same s s1"
    "?V at = Some leaf" "node_wf leaf" "nd_level leaf = 0" "length p = l" "ctx_ok ?V k 0 p (tree_kvs ?V 0 at)"
    "ctx_whole ?V 0 p (tree_kvs ?V 0 at) = kvs" "distinct (at # ctx_blocks ?V 0 p)"
    "set (at # ctx_blocks ?V 0 p) = set (tree_blocks ?V l (tx_root t))" "p \<noteq> [] \<longrightarrow> 6 \<le> nd_len leaf"
    using insert_down_ok [OF tx_ok_store [OF tx] h(1), of k "[]" 7] h assms(2) by auto
  have V1: "node_at s1 = ?V" and tx1: "tx_ok t s1" using store_sameD(1) [OF down(2)] tx_ok_same [OF tx down(2)] by simp_all
  have fr1: "tx_frame (t, s) (t, s1)" using tx_frame_same [OF tx down(2)] .
  have eq: "tree_insert k v (t, s) = (case insert_leaf leaf k v (t, s1) of (Inl e, ts) \<Rightarrow> (Inl e, ts)
      | (Inr br, ts) \<Rightarrow> and_then (insert_up p br) raise_root (tree_release at ts))"
    using False down(1) by (simp add: tree_insert_def and_then_def on_store_def MAX_HEIGHT_def modify_def split: prod.splits sum.splits)
  show ?thesis
  proof (cases rule: insert_leaf_ok [OF tx1 down(4,5) assms(3,4)])
    case (1 e ts)
    have "short (2 * l + 3) (t, s) e" using short_trans [OF fr1 _ 1(3), of 0] by simp
    then show ?thesis using 1 eq tx_frame_trans [OF fr1] by (simp add: root_result_def)
  next
    case (2 br t2 s2 new)
    let ?V2 = "node_at s2" and ?R = "ctx_blocks (node_at s) 0 p"
    have g: "tx_frame (t, s1) (t2, s2)" "tx_root t2 = tx_root t" "new \<inter> used_blocks t = {}" "used_blocks t2 = used_blocks t \<union> new"
      "\<And>b. b \<notin> new \<Longrightarrow> ?V2 b = ?V b" using 2(2) V1 by (auto simp: grew_def)
    have used: "used_blocks t = protected_blocks t \<union> insert at (set ?R)" using h(4) down(10) by simp
    have arena: "in_arena (vl_super (st_vol s2)) at" using used_in_arena [OF tx_frame_ok [OF g(1)], of at] used g(4) by auto
    obtain t3 s3 where rel: "tree_release at (t2, s2) = (t3, s3)" "tx_frame (t2, s2) (t3, s3)" "tx_root t3 = tx_root t2"
      "node_at s3 = ?V2" "used_blocks t3 = used_blocks t2 - ({at} - protected_blocks t2)"
      using tree_release_ok [OF tx_frame_ok [OF g(1)] arena] .
    have prot: "protected_blocks t2 = protected_blocks t" "protected_blocks t3 = protected_blocks t"
      using g(1) rel(2) tx_kept_protected by (auto simp: tx_frame_def)
    have top: "branch_tops br \<inter> protected_blocks t3 = {}" using 2(7) g(3) prot used by auto
    have fresh: "fresh_nodes (t3, s3)" if "fresh_nodes (t, s)"
      using fresh_less [OF rel(2)] grew_fresh [OF 2(2)] fresh_less [OF fr1] that rel(4,5) V1 by auto
    have same: "\<forall>b \<in> set ?R. ?V2 b = ?V b" using g(3,5) used by blast
    note ctx = ctx_frame [OF same, of k "tree_kvs ?V 0 at"]
    have leaf: "tree_kvs ?V 0 at = zip (nd_keys leaf) (nd_values leaf)" using down(3) by simp
    have "distinct (branch_blocks ?V2 0 br @ ctx_blocks ?V2 0 p)" using 2(5,6) down(9) g(3) used ctx by auto
    moreover have "used_blocks t3 = protected_blocks t3 \<union> set (branch_blocks ?V2 0 br) \<union> set (ctx_blocks ?V2 0 p)"
      using rel(5) g(3,4) used down(9) 2(5) prot ctx by auto
    ultimately have up: "inserted (2 * l) (t3, s3) l (kv_insert k v kvs) (insert_up p br (t3, s3))"
      using insert_up_ok [of t3 s3 k 0 p "tree_kvs ?V 0 at" br v] tx_frame_ok [OF rel(2)] ctx down(6-8,11) 2(3,4,8) rel(4) leaf top by simp
    have frame: "tx_frame (t, s) (t3, s3)" using tx_frame_trans [OF fr1 tx_frame_trans [OF g(1) rel(2)]] .
    have "tree_insert k v (t, s) = and_then (insert_up p br) raise_root (t3, s3)" using eq 2(1) rel(1) by simp
    moreover have "spare t \<le> spare t3 + 2" using grew_spare [OF 2(2)] spare_used [of t2 t3 "{}"] rel(2,5) by (auto simp: tx_frame_def)
    ultimately show ?thesis using root_result_trans [OF frame fresh _ insert_finish [OF up assms(2)], of 2] by (simp add: numeral_3_eq_3)
  qed
qed

section \<open>The height\<close>

text \<open>
  Below the root every inner node has seven children or more, so a tree of eight levels needs
  over two hundred thousand blocks and an arena has room for 65536.
\<close>

lemma sum_list_ge: "\<forall>x \<in> set xs. m \<le> f x \<Longrightarrow> length xs * m \<le> sum_list (map f xs)"
  by (induction xs) (auto intro: add_mono)

lemma inner_size:
  assumes "tree_ok V (Suc l) at" and "\<And>c. tree_ok V l c \<Longrightarrow> filled V c \<Longrightarrow> 7 ^ l \<le> length (tree_blocks V l c)"
    and "\<And>n. V at = Some n \<Longrightarrow> m \<le> nd_len n"
  shows "(m + 1) * 7 ^ l \<le> length (tree_blocks V (Suc l) at)"
proof -
  obtain n where n: "V at = Some n" "node_wf n" "nd_level n = Suc l" "\<forall>c \<in> set (nd_children n). tree_ok V l c \<and> filled V c"
    using assms(1) by (auto simp: tree_ok.simps)
  have "m + 1 \<le> length (nd_children n)" using assms(3) [OF n(1)] node_wf_children [OF n(2)] n(3) by simp
  moreover have "length (nd_children n) * 7 ^ l \<le> length (concat (map (tree_blocks V l) (nd_children n)))"
    using sum_list_ge [of "nd_children n" "7 ^ l" "\<lambda>c. length (tree_blocks V l c)"] n(4) assms(2)
    by (simp add: length_concat comp_def)
  ultimately have "(m + 1) * 7 ^ l \<le> length (concat (map (tree_blocks V l) (nd_children n)))"
    by (meson mult_le_mono1 order_trans)
  then show ?thesis using n(1) by (simp add: tree_blocks.simps del: length_concat)
qed

lemma filled_size: "tree_ok V l at \<Longrightarrow> filled V at \<Longrightarrow> 7 ^ l \<le> length (tree_blocks V l at)"
proof (induction l arbitrary: at)
  case (Suc l)
  then show ?case using inner_size [of V l at 6] by (auto simp: filled_def)
qed simp

lemma tree_low:
  assumes "tree_ok V l at" and "distinct (tree_blocks V l at)" and "\<forall>x \<in> set (tree_blocks V l at). in_arena sp x" and "arena_fits sp"
  shows "l \<le> 6"
proof (rule ccontr)
  assume "\<not> l \<le> 6"
  then obtain l' where l': "l = Suc l'" "6 \<le> l'" by (cases l) auto
  have one: "1 \<le> nd_len n" if "V at = Some n" for n
    using assms(1) that l'(1) by (auto simp: tree_ok.simps node_wf_def Suc_le_eq)
  have "2 * 7 ^ 6 \<le> 2 * (7::nat) ^ l'" using power_increasing [OF l'(2), of "7::nat"] by simp
  also have "\<dots> \<le> length (tree_blocks V l at)"
    using inner_size [of V l' at 1] assms(1) filled_size one l'(1) by simp
  also have "\<dots> = card (set (tree_blocks V l at))" using distinct_card [OF assms(2)] by simp
  also have "\<dots> \<le> card {sp_tree_at sp ..< sp_tree_at sp + sp_tree_blocks sp}"
    using assms(3) by (intro card_mono) (auto simp: in_arena_def)
  also have "\<dots> \<le> 2 ^ 16" using assms(4) by (simp add: arena_fits_def)
  finally show False by simp
qed

section \<open>What a root holds\<close>

definition root_level :: "node_arena \<Rightarrow> nat \<Rightarrow> nat" where
  "root_level V root = (case V root of None \<Rightarrow> 0 | Some n \<Rightarrow> nd_level n)"

definition root_blocks :: "node_arena \<Rightarrow> nat \<Rightarrow> nat set" where
  "root_blocks V root = (if root = 0 then {} else set (tree_blocks V (root_level V root) root))"

text \<open>A root of zero is the empty tree.\<close>

definition tree_published :: "node_arena \<Rightarrow> nat \<Rightarrow> (key \<times> byte list) list \<Rightarrow> bool" where
  "tree_published V root kvs \<longleftrightarrow>
     (if root = 0 then kvs = []
      else tree_ok V (root_level V root) root \<and> tree_kvs V (root_level V root) root = kvs
         \<and> distinct (tree_blocks V (root_level V root) root))"

definition tx_holds :: "tree_tx \<Rightarrow> store \<Rightarrow> (key \<times> byte list) list \<Rightarrow> bool" where
  "tx_holds t s kvs \<longleftrightarrow> tx_ok t s \<and> tree_published (node_at s) (tx_root t) kvs
     \<and> used_blocks t = protected_blocks t \<union> root_blocks (node_at s) (tx_root t) \<and> fresh_nodes (t, s)"

lemma tree_ok_level: "tree_ok V l at \<Longrightarrow> root_level V at = l"
  by (cases l) (auto simp: root_level_def tree_ok.simps)

lemma tx_holds_level:
  "tx_holds t s kvs \<longleftrightarrow> (\<exists>l. tx_holds_at t s l kvs) \<and> fresh_nodes (t, s)"
  using tree_ok_level [of "node_at s" _ "tx_root t"]
  by (auto simp: tx_holds_def tx_holds_at_def tree_published_def root_blocks_def)

lemma tx_holds_low:
  assumes "tx_holds_at t s l kvs"
  shows "l \<le> 6"
proof (cases "tx_root t = 0")
  case False
  then show ?thesis
    using tree_low [of "node_at s" l "tx_root t" "vl_super (st_vol s)"] assms used_in_arena [of t s]
    by (auto simp: tx_holds_at_def tx_ok_def store_ok_def)
qed (use assms in \<open>simp add: tx_holds_at_def\<close>)

text \<open>Two blocks for each of the seven levels and one for a new root.\<close>

abbreviation INSERT_BLOCKS :: nat where
  "INSERT_BLOCKS \<equiv> 15"

text \<open>What an insertion leaves: a refusal, or the update under a root of the open generation.\<close>

definition insert_result :: "tree_tx \<times> store \<Rightarrow> (key \<times> byte list) list \<Rightarrow> (fs_error + unit) \<times> (tree_tx \<times> store) \<Rightarrow> bool" where
  "insert_result ts ys r \<longleftrightarrow> tx_frame ts (snd r) \<and>
     (case fst r of Inl e \<Rightarrow> short INSERT_BLOCKS ts e
      | Inr _ \<Rightarrow> spare (fst ts) \<le> spare (fst (snd r)) + INSERT_BLOCKS \<and> tx_root (fst (snd r)) \<notin> protected_blocks (fst ts) \<and> tx_holds (fst (snd r)) (snd (snd r)) ys)"

lemma tree_insert_result:
  assumes "tx_holds t s kvs" and "key_ok k" and "length v = 32"
  shows "insert_result (t, s) (kv_insert k v kvs) (tree_insert k v (t, s))"
proof -
  obtain l where l: "tx_holds_at t s l kvs" "fresh_nodes (t, s)" using assms(1) tx_holds_level by blast
  have "l < 7" using tx_holds_low [OF l(1)] by simp
  from tree_insert_ok [OF l(1) this assms(2,3)] show ?thesis
    using l(2) tx_holds_level tx_holds_low [OF l(1)] by (auto simp: root_result_def insert_result_def short_def split: sum.splits)
qed

end
