(* ===== verification/Fs_Tree_Map.thy ===== *)
theory Fs_Tree_Map
  imports Fs_Tree_Update Fs_Tree_Walk
begin

text \<open>
  The tree as a finite map from keys to values. The abstract state is the sorted list of entries that
  \<open>tx_holds\<close> relates to a transaction and its store; \<open>get\<close> reads it, \<open>next\<close> walks it in key order and
  \<open>insert\<close> updates it, on every branch: overwriting, growing a leaf, splitting leaves and inner nodes
  up to the root. A refused insertion leaves every block of the published trees as it was.
\<close>

section \<open>What a root holds\<close>

lemma published_sorted: "tree_published V root kvs \<Longrightarrow> kv_sorted kvs"
  using tree_kvs_sorted [of V _ root] by (auto simp: tree_published_def split: if_splits)

lemma tree_kvs_ok: "tree_ok V l at \<Longrightarrow> kv \<in> set (tree_kvs V l at) \<Longrightarrow> key_ok (fst kv) \<and> length (snd kv) = 32"
proof (induction V l at rule: tree_ok.induct)
  case (1 V at)
  then show ?case by (cases kv) (auto simp: node_wf_def list_all_iff dest: set_zip_leftD set_zip_rightD)
qed auto

lemma published_keys: "tree_published V root kvs \<Longrightarrow> kv \<in> set kvs \<Longrightarrow> key_ok (fst kv) \<and> length (snd kv) = 32"
  using tree_kvs_ok [of V _ root kv] by (auto simp: tree_published_def split: if_splits)

text \<open>A node has a level below eight.\<close>

lemma published_level: "tree_published V root kvs \<Longrightarrow> root \<noteq> 0 \<Longrightarrow> root_level V root < 8"
  by (cases "root_level V root") (auto simp: tree_published_def tree_ok.simps node_wf_def)

lemma published_get:
  assumes "store_ok s" and "tree_published (node_at s) root kvs"
  shows "\<exists>s'. tree_get root k s = (Inr (map_of kvs k), s') \<and> store_same s s'"
  using tree_get_from_ok [OF assms(1), of "root_level (node_at s) root" root 8 k] assms(2) published_level [OF assms(2)]
  by (auto simp: tree_get_def tree_published_def MAX_HEIGHT_def split: if_splits)

text \<open>The entries at or past a key; a walk in key order goes through them one by one.\<close>

definition entries_after :: "key \<Rightarrow> bool \<Rightarrow> (key \<times> byte list) list \<Rightarrow> (key \<times> byte list) list" where
  "entries_after k inclusive kvs = filter (beyond k inclusive) kvs"

lemma beyond_eq: "beyond k inclusive = (\<lambda>kv. if inclusive then k \<le> fst kv else k < fst kv)"
  by (auto simp: beyond_def fun_eq_iff)

lemma find_filter: "List.find P xs = first_of (filter P xs)"
  by (induction xs) simp_all

lemma no_rest: "(case x of None \<Rightarrow> first_of (path_rest V l []) | Some y \<Rightarrow> Some y) = x"
  by (simp split: option.split)

lemma published_next:
  assumes "store_ok s" and "tree_published (node_at s) root kvs"
  shows "\<exists>s'. tree_next root k inclusive s = (Inr (first_of (entries_after k inclusive kvs)), s') \<and> store_same s s'"
proof (cases "root = 0")
  case True
  then show ?thesis using assms(2) by (simp add: tree_next_def tree_published_def entries_after_def)
next
  case False
  let ?l = "root_level (node_at s) root"
  have "tree_ok (node_at s) ?l root" "tree_kvs (node_at s) ?l root = kvs" "?l \<le> 7"
    using assms(2) False published_level [OF assms(2)] by (simp_all add: tree_published_def)
  then show ?thesis
    using next_down_ok [OF assms(1), of ?l root "[]" 8 k inclusive] False
    by (simp add: tree_next_def MAX_HEIGHT_def no_rest find_filter entries_after_def)
qed

lemma tx_holds_store: "tx_holds t s kvs \<Longrightarrow> store_ok s"
  by (simp add: tx_holds_def tx_ok_def)

lemma tx_holds_root: "tx_holds t s kvs \<Longrightarrow> tree_published (node_at s) (tx_root t) kvs"
  by (simp add: tx_holds_def)

section \<open>Lookups\<close>

text \<open>
  C17. A lookup in a well formed tree returns what the sorted entries hold for the key, the walk
  returns the first entry at or past (or strictly past) the key in key order, whatever the node
  cache and the block slots hold, and neither changes what is stored.
\<close>

theorem tree_lookup:
  assumes "tx_holds t s kvs"
  shows "kv_sorted kvs
    \<and> (\<exists>s'. tree_get (tx_root t) k s = (Inr (map_of kvs k), s') \<and> store_same s s')
    \<and> (\<exists>s'. tree_next (tx_root t) k inclusive s =
          (Inr (List.find (\<lambda>kv. if inclusive then k \<le> fst kv else k < fst kv) kvs), s') \<and> store_same s s')"
  using published_get [OF tx_holds_store [OF assms] tx_holds_root [OF assms], of k]
    published_next [OF tx_holds_store [OF assms] tx_holds_root [OF assms], of k inclusive]
    published_sorted [OF tx_holds_root [OF assms]]
    beyond_eq [of k inclusive]
  by (simp add: find_filter entries_after_def)

section \<open>Insertion\<close>

text \<open>
  C2. Inserting a key and a value into the tree of a transaction, on every branch from
  overwriting an entry to splitting every node up to the root, gives a well formed tree that
  holds exactly the old entries with that one put in, under a root that is not protected, whose
  blocks and the protected ones are the used ones; a refusal is a full arena or a device error;
  and in either case no byte of a block of the published trees or outside the arena changes and
  nothing becomes durable.
\<close>

theorem tree_insert_refines:
  assumes "tx_holds t s kvs" and "key_ok k" and "length v = 32" and "tree_insert k v (t, s) = (r, (t', s'))"
  shows "(case r of
            Inl e \<Rightarrow> e = FsFull \<or> (\<exists>d. e = FsDevice d)
          | Inr _ \<Rightarrow> tx_holds t' s' (kv_insert k v kvs) \<and> tx_root t' \<notin> protected_blocks t)
    \<and> protected_blocks t' = protected_blocks t
    \<and> flt_stable (vl_disk (st_vol s')) = flt_stable (vl_disk (st_vol s))
    \<and> (\<forall>x. x \<in> protected_blocks t \<or> \<not> in_arena (vl_super (st_vol s)) x
          \<longrightarrow> disk_block (vl_disk (st_vol s')) x = disk_block (vl_disk (st_vol s)) x)"
  using tree_insert_result [OF assms(1-3)] tx_kept_protected [of t t'] assms(4)
  by (cases r) (auto simp: insert_result_def tx_frame_def short_def)

text \<open>An insertion the device does not refuse succeeds while fifteen blocks are free.\<close>


section \<open>Opening a transaction\<close>

text \<open>A tree that verifies: levels fit and no block is reached twice.\<close>

definition shaped :: "node_arena \<Rightarrow> nat \<Rightarrow> bool" where
  "shaped V root \<longleftrightarrow> tree_shape V (root_level V root) root \<and> distinct (tree_blocks V (root_level V root) root)"

lemma shapedI: "tree_shape V l root \<Longrightarrow> distinct (tree_blocks V l root) \<Longrightarrow> shaped V root"
  by (cases l) (auto simp: shaped_def root_level_def tree_shape.simps)

lemma published_shaped: "tree_published V root kvs \<Longrightarrow> root \<noteq> 0 \<longrightarrow> shaped V root"
  using tree_ok_shape by (simp add: tree_published_def shaped_def)

lemma tree_mark_ok:
  assumes "store_ok s" and "cp = vl_super (st_vol s)" and "V = node_at s" and "bm_ok bits" and "bm_bits bits = sp_tree_blocks cp"
    and "root \<noteq> 0 \<longrightarrow> shaped V root" and "closed V (marked cp bits) {}"
  shows "\<exists>bits' s'. tree_mark root bits s = (Inr bits', s') \<and> store_same s s' \<and> bm_ok bits' \<and> bm_bits bits' = sp_tree_blocks cp
    \<and> marked cp bits' = marked cp bits \<union> root_blocks V root \<and> closed V (marked cp bits') {}"
proof (cases "root = 0")
  case True
  then show ?thesis using assms by (simp add: tree_mark_def root_blocks_def)
next
  case False
  let ?l = "root_level V root"
  note shape = assms(6) [unfolded shaped_def]
  have len: "length (forest V [(?l, root)]) \<le> 13 * sp_tree_blocks cp + 1"
    using forest_bound [OF node_at_arena_wf [OF assms(1)], of "[(?l, root)]"] assms(2,3) shape False by simp
  have "closed V (marked cp bits) (snd ` set [(?l, root)])" using assms(7) by (auto simp: closed_def)
  then obtain bits' s' where r: "mark_loop (13 * sp_tree_blocks cp + 1) [root] bits s = (Inr bits', s')" "store_same s s'"
    "bm_ok bits'" "bm_bits bits' = sp_tree_blocks cp" "marked cp bits \<union> {root} \<subseteq> marked cp bits'"
    "marked cp bits' \<subseteq> marked cp bits \<union> set (tree_blocks V ?l root)" "closed V (marked cp bits') {}"
    using mark_loop_ok [OF assms(1-5), of "[(?l, root)]" "13 * sp_tree_blocks cp + 1"] len shape False by (auto simp del: mark_loop.simps)
  have "set (tree_blocks V ?l root) \<subseteq> marked cp bits'" using closed_blocks [OF r(7)] shape False r(5) by auto
  then show ?thesis using r False assms(2) by (auto simp: tree_mark_def root_blocks_def simp del: mark_loop.simps)
qed

lemma tree_begin_ok:
  assumes "store_ok s" and "cp = vl_super (st_vol s)" and "tree_published (node_at s) (sp_tree_root cp) kvs"
    and "sp_generation cp + 1 < 2 ^ 64"
    and "\<And>root. vl_prev_tree (st_vol s) = Some root \<Longrightarrow> root \<noteq> 0 \<longrightarrow> shaped (node_at s) root"
  shows "\<exists>t s'. tree_begin s = (Inr t, s') \<and> store_same s s' \<and> tx_holds t s' kvs
    \<and> tx_root t = sp_tree_root cp \<and> tx_generation t = sp_generation cp + 1
    \<and> protected_blocks t = root_blocks (node_at s) (sp_tree_root cp)
        \<union> (case vl_prev_tree (st_vol s) of None \<Rightarrow> {} | Some root \<Rightarrow> root_blocks (node_at s) root)"
proof -
  let ?V = "node_at s" and ?new = "bm_new (sp_tree_blocks cp)"
  have e: "marked cp ?new = {}" "closed ?V (marked cp ?new) {}" by (simp_all add: marked_def closed_def)
  note shape = published_shaped [OF assms(3)]
  obtain b1 s1 where m1: "tree_mark (sp_tree_root cp) ?new s = (Inr b1, s1)" "store_same s s1" "bm_ok b1" "bm_bits b1 = sp_tree_blocks cp"
    "marked cp b1 = root_blocks ?V (sp_tree_root cp)" "closed ?V (marked cp b1) {}"
    using tree_mark_ok [OF assms(1,2) refl bm_new_ok _ shape e(2)] e(1) by auto
  note same1 = store_sameD [OF m1(2)]
  have prev1: "vl_prev_tree (st_vol s1) = vl_prev_tree (st_vol s)" using same1(5) by (simp add: vol_meta_def)
  obtain b2 s2 where m2: "(case vl_prev_tree (st_vol s) of None \<Rightarrow> ok b1 | Some root \<Rightarrow> tree_mark root b1) s1 = (Inr b2, s2)"
    "store_same s1 s2" "bm_ok b2" "bm_bits b2 = sp_tree_blocks cp"
    "marked cp b2 = marked cp b1 \<union> (case vl_prev_tree (st_vol s) of None \<Rightarrow> {} | Some root \<Rightarrow> root_blocks ?V root)"
  proof (cases "vl_prev_tree (st_vol s)")
    case None
    then show ?thesis using that [of b1 s1] m1(3,4) by simp
  next
    case (Some root)
    then show ?thesis
      using tree_mark_ok [of s1 cp ?V b1 root] same1 assms(1,2) m1(3,4,6) assms(5) that by auto
  qed
  let ?t = "\<lparr>tx_root = sp_tree_root cp, tx_generation = sp_generation cp + 1, tx_tree_at = sp_tree_at cp, tx_protected = b2, tx_used = b2\<rparr>"
  have opened: "tree_begin s = (Inr ?t, s2)"
    using m1(1) m2(1) assms(2,4) by (simp add: tree_begin_def Let_def checked_add_def and_then_def)
  have same: "store_same s s2" using store_same_trans [OF m1(2) m2(2)] .
  have blocks: "used_blocks ?t = marked cp b2" "protected_blocks ?t = marked cp b2"
    by (simp_all add: used_blocks_def protected_blocks_def marked_def m2(4))
  have "tx_ok ?t s2"
    unfolding tx_ok_def blocks using store_sameD [OF same] assms(1,2,4) m2(3,4) by simp
  moreover have "fresh_nodes (?t, s2)" unfolding fresh_nodes_def fst_conv blocks by simp
  ultimately have "tx_holds ?t s2 kvs"
    unfolding tx_holds_def blocks using store_sameD(1) [OF same] assms(3) m1(5) m2(5) by auto
  then show ?thesis using opened same blocks m1(5) m2(5) by simp
qed

section \<open>A small tree\<close>

definition sample_tx :: tree_tx where
  "sample_tx = \<lparr>tx_root = 3, tx_generation = 8, tx_tree_at = 2,
     tx_protected = bm_set 1 (bm_new 64), tx_used = bm_set 1 (bm_new 64)\<rparr>"

lemma sample_holds: "tx_holds sample_tx sample_store sample_kvs"
proof -
  have bits: "used_blocks sample_tx = {3}" "protected_blocks sample_tx = {3}"
    by (auto simp: used_blocks_def protected_blocks_def sample_tx_def bm_get_set)
  have sup: "sp_tree_blocks (vl_super (st_vol sample_store)) = 64" "sp_tree_at (vl_super (st_vol sample_store)) = 2"
    by (simp_all add: sample_store_def sample_super_def)
  have "tx_ok sample_tx sample_store"
    unfolding tx_ok_def bits using sample_store_ok sup by (simp add: sample_tx_def)
  then show ?thesis
    unfolding tx_holds_def bits fresh_nodes_def using sample_node sample_leaf_wf bits
    by (simp add: sample_tx_def sample_leaf_def zip_map_fst_snd tree_published_def root_blocks_def root_level_def)
qed

lemma sample_powered: "powered (vl_disk (st_vol sample_store))"
  by (simp add: sample_store_def sample_disk_def Let_def powered_def)

lemma sample_spare: "spare sample_tx = 63"
proof -
  have "used_blocks sample_tx = {3}" by (auto simp: used_blocks_def sample_tx_def bm_get_set)
  then show ?thesis by (simp add: spare_def sample_tx_def)
qed

theorem tree_lookup_witness:
  "fst (tree_get 3 (KObject 0) sample_store) = Inr (Some (value_object \<lparr>ob_kind = KDir, ob_count = 1, ob_size = 0\<rparr>))
   \<and> fst (tree_next 3 (KDirent 0 [97]) False sample_store) = Inr None"
  using tree_lookup [OF sample_holds, of "KObject 0" False] tree_lookup [OF sample_holds, of "KDirent 0 [97]" False]
  by (auto simp: sample_tx_def sample_kvs_def less_key_def less_prod_simp)

theorem tree_insert_refines_witness:
  "\<exists>r t s. tree_insert (KObject 5) (replicate 32 2) (sample_tx, sample_store) = (r, (t, s))
     \<and> disk_block (vl_disk (st_vol s)) 3 = node_encode sample_leaf"
proof -
  obtain r t s where r: "tree_insert (KObject 5) (replicate 32 2) (sample_tx, sample_store) = (r, (t, s))"
    by (metis prod.collapse)
  have "3 \<in> protected_blocks sample_tx" by (auto simp: protected_blocks_def sample_tx_def bm_get_set)
  then have "disk_block (vl_disk (st_vol s)) 3 = disk_block (vl_disk (st_vol sample_store)) 3"
    using tree_insert_refines [OF sample_holds _ _ r] by simp
  then show ?thesis
    using r sample_blocks(2) by (auto simp: sample_store_def)
qed


text \<open>
  C19. Opening a transaction over a published tree and its predecessor succeeds, starts from the
  published entries, and protects exactly the blocks the two trees reach.
\<close>

theorem tree_begin_protects:
  assumes "store_ok s" and "tree_published (node_at s) (sp_tree_root (vl_super (st_vol s))) kvs"
    and "sp_generation (vl_super (st_vol s)) + 1 < 2 ^ 64"
    and "vl_prev_tree (st_vol s) = Some old" and "shaped (node_at s) old"
  shows "\<exists>t s'. tree_begin s = (Inr t, s') \<and> tx_holds t s' kvs \<and> tx_generation t = sp_generation (vl_super (st_vol s)) + 1
    \<and> protected_blocks t = root_blocks (node_at s) (sp_tree_root (vl_super (st_vol s))) \<union> root_blocks (node_at s) old"
  using tree_begin_ok [OF assms(1) refl assms(2,3)] assms(4,5) by auto

theorem tree_begin_protects_witness:
  "\<exists>t s'. tree_begin (sample_store\<lparr>st_vol := (st_vol sample_store)\<lparr>vl_prev_tree := Some 3\<rparr>\<rparr>) = (Inr t, s')
     \<and> protected_blocks t = {3} \<and> tx_generation t = 8"
proof -
  let ?s = "sample_store\<lparr>st_vol := (st_vol sample_store)\<lparr>vl_prev_tree := Some 3\<rparr>\<rparr>"
  have V: "node_at ?s = node_at sample_store" by (rule ext) (simp add: node_at_def)
  have st: "store_ok ?s" using sample_store_ok V by (simp add: store_ok_def vol_ok_def)
  have "tree_published (node_at ?s) 3 sample_kvs" "shaped (node_at ?s) 3" "root_level (node_at ?s) 3 = 0"
    using sample_node sample_leaf_wf V
    by (simp_all add: tree_published_def shaped_def root_level_def tree_shape.simps sample_leaf_def zip_map_fst_snd)
  then show ?thesis
    using tree_begin_protects [OF st, of sample_kvs 3]
    by (auto simp: sample_store_def sample_super_def root_blocks_def)
qed

end
