(* ===== verification/Fs_Journal_View.thy ===== *)
theory Fs_Journal_View
  imports Fs_Journal Fs_Tree_Map
begin

text \<open>
  The journal over the tree as a sorted list of entries: what \<open>get\<close> and \<open>next\<close> read, what \<open>index\<close>
  writes, and what opening a transaction keeps. \<open>jn_holds\<close> relates a journal to the entries of the
  root it works on, published or open.
\<close>

section \<open>Walks in key order\<close>

lemma after_step:
  assumes "kv_sorted kvs" and "entries_after k inclusive kvs = kv # rest"
  shows "entries_after (fst kv) False kvs = rest"
  using assms
proof (induction kvs)
  case (Cons x kvs)
  have tail: "kv_sorted kvs" and least: "\<And>y. y \<in> set kvs \<Longrightarrow> fst x < fst y" using Cons.prems(1) by auto
  show ?case
  proof (cases "beyond k inclusive x")
    case True
    then have kv: "kv = x" "rest = entries_after k inclusive kvs" using Cons.prems(2) by (auto simp: entries_after_def)
    have "rest = kvs"
      unfolding kv entries_after_def using True least by (intro filter_True) (force simp: beyond_eq split: if_splits)
    moreover have "entries_after (fst x) False kvs = kvs" unfolding entries_after_def using least by (intro filter_True) (simp add: beyond_eq)
    ultimately show ?thesis by (simp add: kv(1) entries_after_def beyond_eq)
  next
    case False
    then have rest: "entries_after k inclusive kvs = kv # rest" using Cons.prems(2) by (simp add: entries_after_def)
    then have "kv \<in> set kvs" by (metis entries_after_def filter_is_subset list.set_intros(1) subsetD)
    then show ?thesis using Cons.IH [OF tail rest] least by (simp add: entries_after_def beyond_eq not_less less_imp_le)
  qed
qed (simp add: entries_after_def)

lemma after_subset: "set (entries_after k inclusive kvs) \<subseteq> set kvs"
  by (auto simp: entries_after_def)

lemma after_beyond: "kv \<in> set (entries_after k inclusive kvs) \<Longrightarrow> k \<le> fst kv \<and> (\<not> inclusive \<longrightarrow> k < fst kv)"
  by (auto simp: entries_after_def beyond_eq split: if_splits)

text \<open>The keys of one kind and one object lie together, so a walk meets them before any other.\<close>

lemma after_takeWhile:
  assumes "kv_sorted kvs" and "\<And>x. P x \<Longrightarrow> k \<le> x" and "\<And>x y. k \<le> x \<Longrightarrow> x < y \<Longrightarrow> P y \<Longrightarrow> P x"
  shows "takeWhile (\<lambda>kv. P (fst kv)) (entries_after k True kvs) = filter (\<lambda>kv. P (fst kv)) kvs"
  using assms(1)
proof (induction kvs)
  case (Cons x kvs)
  have IH: "takeWhile (\<lambda>kv. P (fst kv)) (entries_after k True kvs) = filter (\<lambda>kv. P (fst kv)) kvs" using Cons by simp
  have least: "\<And>y. y \<in> set kvs \<Longrightarrow> fst x < fst y" using Cons.prems by auto
  show ?case
  proof (cases "k \<le> fst x")
    case True
    have "filter (\<lambda>kv. P (fst kv)) kvs = []" if "\<not> P (fst x)"
      using that least assms(3) [OF True] by (auto simp: filter_empty_conv)
    then show ?thesis using True IH by (auto simp: entries_after_def beyond_eq)
  next
    case False
    then show ?thesis using IH assms(2) by (auto simp: entries_after_def beyond_eq)
  qed
qed (simp add: entries_after_def)

section \<open>What a journal holds\<close>

text \<open>What lives beside the store and the transaction.\<close>

definition jn_beside :: "journal \<Rightarrow> nat \<times> verified_record option list \<times> nat \<times> extent_hint option" where
  "jn_beside j = (jn_next j, jn_verified j, jn_hand j, jn_hint j)"

definition jn_same :: "journal \<Rightarrow> journal \<Rightarrow> bool" where
  "jn_same j j' \<longleftrightarrow> jn_tx j' = jn_tx j \<and> jn_beside j' = jn_beside j \<and> store_same (jn_store j) (jn_store j')"

definition jn_holds :: "journal \<Rightarrow> (key \<times> byte list) list \<Rightarrow> bool" where
  "jn_holds j kvs \<longleftrightarrow>
     (case jn_tx j of
        None \<Rightarrow> store_ok (jn_store j) \<and> tree_published (node_at (jn_store j)) (sp_tree_root (jn_checkpoint j)) kvs
          \<and> (\<forall>root. vl_prev_tree (st_vol (jn_store j)) = Some root \<and> root \<noteq> 0 \<longrightarrow> shaped (node_at (jn_store j)) root)
      | Some t \<Rightarrow> tx_holds (tn_tree t) (jn_store j) kvs)"

lemma jn_holds_cong: "jn_store j' = jn_store j \<Longrightarrow> jn_tx j' = jn_tx j \<Longrightarrow> jn_holds j' kvs = jn_holds j kvs"
  by (simp add: jn_holds_def jn_checkpoint_def split: option.split)

lemma jn_same_refl [simp]: "jn_same j j"
  by (simp add: jn_same_def)

lemma jn_same_trans [trans]: "jn_same a b \<Longrightarrow> jn_same b c \<Longrightarrow> jn_same a c"
  by (auto simp: jn_same_def intro: store_same_trans)

lemma jn_sameD:
  assumes "jn_same j j'"
  shows "jn_tx j' = jn_tx j" "jn_next j' = jn_next j" "jn_verified j' = jn_verified j" "jn_hand j' = jn_hand j" "jn_hint j' = jn_hint j"
    "store_same (jn_store j) (jn_store j')" "jn_checkpoint j' = jn_checkpoint j" "jn_tree_root j' = jn_tree_root j"
    "jn_log_region j' = jn_log_region j" "jn_entries j' = jn_entries j" "bank_capacity j' = bank_capacity j"
proof -
  show a: "jn_tx j' = jn_tx j" "jn_next j' = jn_next j" "jn_verified j' = jn_verified j" "jn_hand j' = jn_hand j"
    "jn_hint j' = jn_hint j" "store_same (jn_store j) (jn_store j')"
    using assms by (simp_all add: jn_same_def jn_beside_def)
  show b: "jn_checkpoint j' = jn_checkpoint j" using store_sameD(3) [OF a(6)] by (simp add: jn_checkpoint_def)
  show "jn_tree_root j' = jn_tree_root j" "jn_log_region j' = jn_log_region j" "jn_entries j' = jn_entries j"
    "bank_capacity j' = bank_capacity j"
    by (simp_all add: jn_tree_root_def jn_log_region_def jn_entries_def bank_capacity_def a(1) b split: option.split)
qed

lemma tx_holds_same: "tx_holds t s kvs \<Longrightarrow> store_same s s' \<Longrightarrow> tx_holds t s' kvs"
  using tx_ok_same [of t s s'] store_sameD(1) [of s s'] by (simp add: tx_holds_def fresh_nodes_def)

lemma jn_holds_same: "jn_holds j kvs \<Longrightarrow> jn_same j j' \<Longrightarrow> jn_holds j' kvs"
  using jn_sameD [of j j'] store_sameD [of "jn_store j" "jn_store j'"] tx_holds_same
  by (auto simp: jn_holds_def vol_meta_def split: option.splits)

lemma jn_holds_root:
  assumes "jn_holds j kvs"
  shows "store_ok (jn_store j)" "tree_published (node_at (jn_store j)) (jn_tree_root j) kvs"
  using assms tx_holds_store tx_holds_root by (auto simp: jn_holds_def jn_tree_root_def split: option.splits)

lemma jn_holds_sorted: "jn_holds j kvs \<Longrightarrow> kv_sorted kvs"
  using published_sorted [OF jn_holds_root(2)] .

lemma jn_holds_keys: "jn_holds j kvs \<Longrightarrow> kv \<in> set kvs \<Longrightarrow> key_ok (fst kv) \<and> length (snd kv) = 32"
  using published_keys [OF jn_holds_root(2)] .

lemma on_tree_same:
  assumes "m (jn_store j) = (r, s)" and "store_same (jn_store j) s"
  shows "\<exists>j'. on_tree m j = (r, j') \<and> jn_same j j'"
  using assms by (simp add: on_tree_def jn_same_def jn_beside_def)

lemma jn_get_ok:
  assumes "jn_holds j kvs"
  obtains j' where "jn_get k j = (Inr (map_of kvs k), j')" and "jn_same j j'"
proof -
  obtain s where "tree_get (jn_tree_root j) k (jn_store j) = (Inr (map_of kvs k), s)" "store_same (jn_store j) s"
    using published_get [OF jn_holds_root [OF assms]] by blast
  then show ?thesis using that on_tree_same by (metis jn_get_def)
qed

lemma jn_next_ok:
  assumes "jn_holds j kvs"
  obtains j' where "jn_next_entry (jn_tree_root j) k inclusive j = (Inr (first_of (entries_after k inclusive kvs)), j')"
    and "jn_same j j'"
proof -
  obtain s where "tree_next (jn_tree_root j) k inclusive (jn_store j) = (Inr (first_of (entries_after k inclusive kvs)), s)"
    "store_same (jn_store j) s"
    using published_next [OF jn_holds_root [OF assms]] by blast
  then show ?thesis using that on_tree_same by (metis jn_next_entry_def)
qed

section \<open>Indexing\<close>

text \<open>What indexing may change: the tree of the open transaction and the blocks it may write.\<close>

definition jn_frame :: "journal \<Rightarrow> journal \<Rightarrow> bool" where
  "jn_frame j j' \<longleftrightarrow> jn_beside j' = jn_beside j \<and> (\<exists>t t'. jn_tx j = Some t \<and> jn_tx j' = Some t'
     \<and> tn_at t' = tn_at t \<and> tn_bytes t' = tn_bytes t \<and> tx_frame (tn_tree t, jn_store j) (tn_tree t', jn_store j'))"

lemma jn_frame_trans [trans]: "jn_frame a b \<Longrightarrow> jn_frame b c \<Longrightarrow> jn_frame a c"
  unfolding jn_frame_def by (fastforce intro: tx_frame_trans)

lemma jn_frame_same [trans]: "jn_frame a b \<Longrightarrow> jn_same b c \<Longrightarrow> jn_frame a c"
  unfolding jn_frame_def jn_same_def
  by (elim conjE exE) (simp, blast intro: tx_frame_trans tx_frame_same dest: tx_frame_ok)

lemma jn_same_frame: "jn_holds a kvs \<Longrightarrow> jn_same a b \<Longrightarrow> jn_frame b c \<Longrightarrow> jn_frame a c"
proof -
  assume a: "jn_holds a kvs" "jn_same a b" and c: "jn_frame b c"
  obtain t t' where t: "jn_tx b = Some t" "jn_tx c = Some t'" "tn_at t' = tn_at t" "tn_bytes t' = tn_bytes t"
    "tx_frame (tn_tree t, jn_store b) (tn_tree t', jn_store c)" "jn_beside c = jn_beside b"
    using c by (auto simp: jn_frame_def)
  have "tx_ok (tn_tree t) (jn_store a)" using a t(1) by (auto simp: jn_same_def jn_holds_def tx_holds_def split: option.splits)
  then have "tx_frame (tn_tree t, jn_store a) (tn_tree t', jn_store c)"
    using tx_frame_trans [OF tx_frame_same t(5)] a(2) by (simp add: jn_same_def)
  moreover have "jn_tx a = Some t" "jn_beside c = jn_beside a" using t a(2) by (simp_all add: jn_same_def)
  ultimately show ?thesis using t(2-4) by (simp add: jn_frame_def)
qed

lemma jn_frameD:
  assumes "jn_frame j j'"
  shows "jn_next j' = jn_next j" "jn_verified j' = jn_verified j" "jn_hand j' = jn_hand j" "jn_hint j' = jn_hint j"
    "jn_checkpoint j' = jn_checkpoint j" "jn_log_region j' = jn_log_region j" "jn_entries j' = jn_entries j"
    "bank_capacity j' = bank_capacity j" "jn_tx j' \<noteq> None" "store_ok (jn_store j')"
  using assms by (auto simp: jn_frame_def jn_beside_def jn_log_region_def jn_entries_def bank_capacity_def jn_checkpoint_def
      tx_frame_def vol_meta_def dest: tx_ok_store)

text \<open>The open transaction has a root of its own.\<close>

definition jn_dirty :: "journal \<Rightarrow> bool" where
  "jn_dirty j \<longleftrightarrow> (case jn_tx j of None \<Rightarrow> False | Some t \<Rightarrow> tx_root (tn_tree t) \<notin> protected_blocks (tn_tree t))"

text \<open>The power is on and the open transaction has so many blocks left.\<close>

definition jn_roomy :: "nat \<Rightarrow> journal \<Rightarrow> bool" where
  "jn_roomy n j \<longleftrightarrow> powered (vl_disk (st_vol (jn_store j))) \<and> (case jn_tx j of None \<Rightarrow> False | Some t \<Rightarrow> n \<le> spare (tn_tree t))"

lemma jn_roomy_mono: "jn_roomy m j \<Longrightarrow> n \<le> m \<Longrightarrow> jn_roomy n j"
  by (auto simp: jn_roomy_def split: option.splits)

lemma jn_index_ok:
  assumes "jn_holds j kvs" and "jn_tx j \<noteq> None" and "key_ok k" and "length v = 32"
  obtains (refused) e j' where "jn_index k v j = (Inl e, j')" "refusal e" "\<not> jn_roomy 15 j" "jn_frame j j'"
  | (indexed) j' where "jn_index k v j = (Inr (), j')" "jn_holds j' (kv_insert k v kvs)" "jn_frame j j'" "jn_dirty j'"
      "\<And>n. jn_roomy (n + 15) j \<Longrightarrow> jn_roomy n j'"
proof -
  obtain t where t: "jn_tx j = Some t" using assms(2) by blast
  obtain r tree s where ins: "tree_insert k v (tn_tree t, jn_store j) = (r, (tree, s))" by (metis prod.collapse)
  have res: "insert_result (tn_tree t, jn_store j) (kv_insert k v kvs) (r, (tree, s))"
    using tree_insert_result [of "tn_tree t" "jn_store j" kvs k v] assms t ins by (simp add: jn_holds_def)
  let ?j = "j\<lparr>jn_tx := Some (t\<lparr>tn_tree := tree\<rparr>), jn_store := s\<rparr>"
  have eq: "jn_index k v j = (r, ?j)" using t ins by (simp add: jn_index_def)
  have fr: "jn_frame j ?j" using t res by (auto simp: jn_frame_def jn_beside_def insert_result_def)
  show ?thesis
  proof (cases r)
    case (Inl e)
    then show ?thesis using refused [of e ?j] eq fr res t by (auto simp: insert_result_def jn_roomy_def short_def refusal_def)
  next
    case (Inr u)
    have "protected_blocks tree = protected_blocks (tn_tree t)" using res tx_kept_protected by (auto simp: insert_result_def tx_frame_def)
    then show ?thesis using indexed [of ?j] eq fr res t Inr by (auto simp: jn_holds_def insert_result_def jn_dirty_def jn_roomy_def tx_frame_def)
  qed
qed

section \<open>Opening a transaction\<close>

text \<open>The bank has room for a record of a given span.\<close>

definition bank_room :: "nat \<Rightarrow> journal \<Rightarrow> bool" where
  "bank_room n j \<longleftrightarrow> (case bank_capacity j of None \<Rightarrow> False | Some capacity \<Rightarrow> rg_bytes (jn_log_region j) + n \<le> capacity)"

lemma bank_roomE:
  assumes "bank_room n j"
  obtains capacity where "bank_capacity j = Some capacity" and "rg_bytes (jn_log_region j) + n \<le> capacity" and "capacity < u64_limit"
  using assms by (auto simp: bank_room_def bank_capacity_def checked_mul_def split: option.splits if_splits)

lemma bank_room_same: "jn_same j j' \<Longrightarrow> bank_room n j' = bank_room n j"
  using jn_sameD [of j j'] by (simp add: bank_room_def split: option.split)

lemma jn_snapshot_ok:
  assumes "jn_holds j kvs" and "bank_room reserve j"
  obtains (full) j' where "jn_snapshot reserve j = (Inl FsFull, j')" "jn_same j j'"
      "jn_tx j = None" "u64_limit \<le> sp_generation (jn_checkpoint j) + 1"
  | (open_) t j' where "jn_snapshot reserve j = (Inr t, j')" "jn_tx j' = Some t" "jn_holds j' kvs"
      "store_same (jn_store j) (jn_store j')" "jn_beside j' = jn_beside j"
      "tn_at t = rg_at (jn_log_region j)" "tn_bytes t = rg_bytes (jn_log_region j)"
      "case jn_tx j of Some t' \<Rightarrow> t = t' | None \<Rightarrow> tx_generation (tn_tree t) = sp_generation (jn_checkpoint j) + 1
        \<and> tx_root (tn_tree t) = sp_tree_root (jn_checkpoint j) \<and> protected_blocks (tn_tree t) = root_blocks (node_at (jn_store j)) (sp_tree_root (jn_checkpoint j))
            \<union> (case vl_prev_tree (st_vol (jn_store j)) of None \<Rightarrow> {} | Some root \<Rightarrow> root_blocks (node_at (jn_store j)) root)"
proof -
  obtain capacity where bank: "bank_capacity j = Some capacity" "rg_bytes (jn_log_region j) + reserve \<le> capacity" "capacity < u64_limit"
    using bank_roomE [OF assms(2)] .
  have room: "reserve \<le> capacity" "rg_bytes (jn_log_region j) + reserve < u64_limit" using bank by simp_all
  show ?thesis
  proof (cases "jn_tx j")
    case (Some t)
    then have "tx_room reserve capacity j" using bank(2) room by (simp add: tx_room_def jn_log_region_def)
    then have eq: "jn_snapshot reserve j = (Inr t, j)"
      using Some bank(1) room by (simp add: jn_snapshot_def jn_begin_def begin_open_def and_then_def)
    show ?thesis by (rule open_ [OF eq Some assms(1)]) (simp_all add: jn_log_region_def Some)
  next
    case None
    let ?s = "jn_store j" and ?cp = "vl_super (st_vol (jn_store j))"
    have h: "store_ok ?s" "tree_published (node_at ?s) (sp_tree_root ?cp) kvs"
      using assms(1) None by (simp_all add: jn_holds_def jn_checkpoint_def)
    have reg: "jn_log_region j = sp_region ?cp" using None by (simp add: jn_log_region_def jn_checkpoint_def)
    show ?thesis
    proof (cases "sp_generation ?cp + 1 < 2 ^ 64")
      case False
      then have "tree_begin ?s = (Inl FsFull, ?s)" by (simp add: tree_begin_def checked_add_def Let_def)
      then have "jn_snapshot reserve j = (Inl FsFull, j)"
        using None bank(1) room by (simp add: jn_snapshot_def jn_begin_def begin_new_def and_then_def on_tree_def)
      then show ?thesis using full jn_same_refl None False by (simp add: jn_checkpoint_def)
    next
      case True
      have prev: "\<And>root. vl_prev_tree (st_vol ?s) = Some root \<Longrightarrow> root \<noteq> 0 \<longrightarrow> shaped (node_at ?s) root"
        using assms(1) None by (simp add: jn_holds_def)
      obtain tree s' where b: "tree_begin ?s = (Inr tree, s')" "store_same ?s s'" "tx_holds tree s' kvs"
        "tx_root tree = sp_tree_root ?cp" "tx_generation tree = sp_generation ?cp + 1" "protected_blocks tree = root_blocks (node_at ?s) (sp_tree_root ?cp)
          \<union> (case vl_prev_tree (st_vol ?s) of None \<Rightarrow> {} | Some root \<Rightarrow> root_blocks (node_at ?s) root)"
        using tree_begin_ok [OF h(1) refl h(2) True prev] by blast
      let ?t = "\<lparr>tn_at = rg_at (sp_region ?cp), tn_bytes = rg_bytes (sp_region ?cp), tn_tree = tree\<rparr>"
      let ?j = "j\<lparr>jn_store := s', jn_tx := Some ?t\<rparr>"
      have cp: "vl_super (st_vol s') = ?cp" using store_sameD(3) [OF b(2)] .
      have "jn_snapshot reserve j = (Inr ?t, ?j)"
        using None bank room b(1) cp reg
        by (simp add: jn_snapshot_def jn_begin_def begin_new_def and_then_def on_tree_def jn_checkpoint_def Let_def)
      then show ?thesis using open_ [of ?t ?j] b reg None by (simp add: jn_holds_def jn_beside_def jn_checkpoint_def)
    qed
  qed
qed

end
