(* ===== verification/Fs_Names.thy ===== *)
theory Fs_Names
  imports Fs_Journal_View
begin

text \<open>
  Objects and directories of a journal. The abstract state of a directory is its listing, the pairs
  of name and object in bytewise order; \<open>lookup\<close> and \<open>entry\<close> read it and \<open>create\<close> inserts into it.
  \<open>names_ok\<close> is what mount validates, and creating keeps it.
\<close>

section \<open>The entries of one kind\<close>

lemma kv_insert_filter_not: "\<not> P k \<Longrightarrow> filter (\<lambda>kv. P (fst kv)) (kv_insert k v kvs) = filter (\<lambda>kv. P (fst kv)) kvs"
  by (induction k v kvs rule: kv_insert.induct) auto

lemma kv_insert_least: "\<forall>x \<in> set xs. k < fst x \<Longrightarrow> kv_insert k v xs = (k, v) # xs"
  by (cases xs) auto

lemma kv_insert_filter:
  assumes "P k" and "kv_sorted kvs"
  shows "filter (\<lambda>kv. P (fst kv)) (kv_insert k v kvs) = kv_insert k v (filter (\<lambda>kv. P (fst kv)) kvs)"
  using assms(2)
proof (induction kvs)
  case (Cons x kvs)
  have least: "\<forall>y \<in> set kvs. fst x < fst y" and IH: "filter (\<lambda>kv. P (fst kv)) (kv_insert k v kvs) = kv_insert k v (filter (\<lambda>kv. P (fst kv)) kvs)"
    using Cons by auto
  have "kv_insert k v (filter (\<lambda>kv. P (fst kv)) kvs) = (k, v) # filter (\<lambda>kv. P (fst kv)) kvs" if "k \<le> fst x"
    using that least by (intro kv_insert_least) (auto intro: le_less_trans)
  then show ?case using IH assms(1) by (cases x) auto
qed (simp add: assms(1))

lemma kv_insert_length: "kv_sorted kvs \<Longrightarrow> length (kv_insert k v kvs) = (if k \<in> fst ` set kvs then length kvs else Suc (length kvs))"
  by (induction k v kvs rule: kv_insert.induct) (auto dest: less_asym)

lemma kv_insert_set: "kv_sorted kvs \<Longrightarrow> set (kv_insert k v kvs) = insert (k, v) {kv \<in> set kvs. fst kv \<noteq> k}"
  by (induction k v kvs rule: kv_insert.induct) (auto dest: less_asym)

lemma map_of_filter_keys: "map_of (filter (\<lambda>kv. P (fst kv)) kvs) k = (if P k then map_of kvs k else None)"
  by (induction kvs) auto

section \<open>Objects and listings\<close>

definition kv_object :: "(key \<times> byte list) list \<Rightarrow> nat \<Rightarrow> fs_object option" where
  "kv_object kvs i =
     (case map_of kvs (KObject i) of None \<Rightarrow> None | Some v \<Rightarrow> (case as_object v of Inl _ \<Rightarrow> None | Inr ob \<Rightarrow> Some ob))"

definition dirents :: "(key \<times> byte list) list \<Rightarrow> nat \<Rightarrow> (key \<times> byte list) list" where
  "dirents kvs dir = filter (\<lambda>kv. is_dirent dir (fst kv)) kvs"

fun dirent_name :: "key \<Rightarrow> byte list" where
  "dirent_name (KDirent dir name) = name"
| "dirent_name k = []"

definition listing :: "(key \<times> byte list) list \<Rightarrow> nat \<Rightarrow> (byte list \<times> nat) list" where
  "listing kvs dir = map (\<lambda>kv. (dirent_name (fst kv), as_dirent (snd kv))) (dirents kvs dir)"

definition names_ok :: "nat \<Rightarrow> (key \<times> byte list) list \<Rightarrow> bool" where
  "names_ok next kvs \<longleftrightarrow> (\<forall>i. KObject i \<in> fst ` set kvs \<longleftrightarrow> i < next)
     \<and> (\<forall>i < next. \<exists>ob. kv_object kvs i = Some ob
          \<and> (if ob_kind ob = KFile then ob_count ob = 0
             else ob_size ob = 0 \<and> ob_count ob = length (listing kvs i) \<and> (\<forall>e \<in> set (listing kvs i). snd e < next)))"

lemma names_ok_dir:
  assumes "names_ok next kvs" and "i < next" and "kv_object kvs i = Some ob" and "ob_kind ob = KDir"
  shows "ob_size ob = 0 \<and> ob_count ob = length (listing kvs i) \<and> (\<forall>e \<in> set (listing kvs i). snd e < next)"
  using assms unfolding names_ok_def by (drule_tac conjunct2) (drule spec [of _ i], auto)

text \<open>No entry names a parent that does not exist yet.\<close>

definition no_orphans :: "nat \<Rightarrow> (key \<times> byte list) list \<Rightarrow> bool" where
  "no_orphans next kvs \<longleftrightarrow> (\<forall>dir \<ge> next. listing kvs dir = [])"

lemma is_dirent_iff: "is_dirent dir k \<longleftrightarrow> (\<exists>name. k = KDirent dir name)"
  by (cases k) (auto simp: is_dirent_def)

lemma key_kinds [simp]:
  "is_dirent dir (KDirent d n) \<longleftrightarrow> d = dir" "\<not> is_dirent dir (KObject i)" "\<not> is_dirent dir (KExtent i e)"
  "is_extent file (KExtent i e) \<longleftrightarrow> i = file" "\<not> is_extent file (KObject i)" "\<not> is_extent file (KDirent d n)"
  by (auto simp: is_dirent_def is_extent_def)

lemma key_less_simps [simp]:
  "KDirent d n < KDirent d' n' \<longleftrightarrow> d < d' \<or> d = d' \<and> n < n'"
  "KDirent d n \<le> KDirent d' n' \<longleftrightarrow> d < d' \<or> d = d' \<and> n \<le> n'"
  "KObject i < KObject i' \<longleftrightarrow> i < i'" "KObject i \<le> KObject i' \<longleftrightarrow> i \<le> i'"
  "KExtent i e < KExtent i' e' \<longleftrightarrow> i < i' \<or> i = i' \<and> e < e'"
  "KExtent i e \<le> KExtent i' e' \<longleftrightarrow> i < i' \<or> i = i' \<and> e \<le> e'"
  "KObject i < KDirent d n" "KObject i \<le> KDirent d n" "KObject i < KExtent i' e" "KObject i \<le> KExtent i' e"
  "KDirent d n < KExtent i e" "KDirent d n \<le> KExtent i e"
  "\<not> KDirent d n < KObject i" "\<not> KDirent d n \<le> KObject i" "\<not> KExtent i' e < KObject i" "\<not> KExtent i' e \<le> KObject i"
  "\<not> KExtent i e < KDirent d n" "\<not> KExtent i e \<le> KDirent d n"
  by (auto simp: less_key_def less_eq_key_def less_prod_simp less_eq_prod_simp)

lemma dirents_after:
  assumes "kv_sorted kvs"
  shows "takeWhile (\<lambda>kv. is_dirent dir (fst kv)) (entries_after (dirent_start dir) True kvs) = dirents kvs dir"
  unfolding dirents_def
proof (rule after_takeWhile [OF assms])
  show "dirent_start dir \<le> x" if "is_dirent dir x" for x
    using that by (auto simp: dirent_start_def is_dirent_iff)
  show "is_dirent dir x" if "dirent_start dir \<le> x" "x < y" "is_dirent dir y" for x y
    using that by (cases x) (auto simp: dirent_start_def is_dirent_iff)
qed

lemma dirents_form: "kv \<in> set (dirents kvs dir) \<Longrightarrow> fst kv = KDirent dir (dirent_name (fst kv))"
  by (auto simp: dirents_def is_dirent_iff)

lemma dirents_sorted: "kv_sorted kvs \<Longrightarrow> kv_sorted (dirents kvs dir)"
  unfolding dirents_def by (simp add: sorted_wrt_map sorted_wrt_filter)

lemma listing_sorted:
  assumes "kv_sorted kvs"
  shows "sorted_wrt (<) (map fst (listing kvs dir))"
proof -
  have "sorted_wrt (\<lambda>x y. dirent_name (fst x) < dirent_name (fst y)) (dirents kvs dir)"
  proof (rule sorted_wrt_mono_rel [rotated])
    show "sorted_wrt (\<lambda>x y. fst x < fst y) (dirents kvs dir)" using dirents_sorted [OF assms] by (simp add: sorted_wrt_map)
    show "dirent_name (fst x) < dirent_name (fst y)"
      if "x \<in> set (dirents kvs dir)" "y \<in> set (dirents kvs dir)" "fst x < fst y" for x y
      using that(3) dirents_form [OF that(1)] dirents_form [OF that(2)] by (metis key_less_simps(1) less_irrefl)
  qed
  then show ?thesis by (simp add: listing_def sorted_wrt_map)
qed

lemma listing_map_of: "map_of (listing kvs dir) name = map_option as_dirent (map_of kvs (KDirent dir name))"
proof -
  have "map_of (map (\<lambda>kv. (dirent_name (fst kv), as_dirent (snd kv))) xs) name = map_option as_dirent (map_of xs (KDirent dir name))"
    if "\<forall>kv \<in> set xs. is_dirent dir (fst kv)" for xs
    using that by (induction xs) (auto simp: is_dirent_iff)
  then have "map_of (listing kvs dir) name = map_option as_dirent (map_of (dirents kvs dir) (KDirent dir name))"
    by (simp add: listing_def dirents_def)
  then show ?thesis by (simp add: dirents_def map_of_filter_keys)
qed

section \<open>Reading names\<close>

lemma jn_object_ok:
  assumes "jn_holds j kvs" and "names_ok (jn_next j) kvs"
  obtains j' where "jn_object i j = (if i < jn_next j then Inr (the (kv_object kvs i)) else Inl FsMissing, j')" and "jn_same j j'"
proof (cases "i < jn_next j")
  case True
  obtain j' where j': "jn_get (KObject i) j = (Inr (map_of kvs (KObject i)), j')" "jn_same j j'" using jn_get_ok [OF assms(1)] .
  obtain ob where "kv_object kvs i = Some ob" using assms(2) True by (auto simp: names_ok_def)
  then have "jn_object i j = (Inr (the (kv_object kvs i)), j')"
    using True j'(1) by (auto simp: jn_object_def and_then_def kv_object_def split: option.splits sum.splits)
  then show ?thesis using that True j'(2) by simp
next
  case False
  then show ?thesis using that [of j] by (simp add: jn_object_def)
qed

definition dir_find :: "nat \<Rightarrow> (key \<times> byte list) list \<Rightarrow> nat \<Rightarrow> byte list \<Rightarrow> fs_error + nat" where
  "dir_find next kvs dir name =
     (if dir \<ge> next then Inl FsMissing
      else if ob_kind (the (kv_object kvs dir)) \<noteq> KDir then Inl FsKind
      else ok_or FsMissing (map_of (listing kvs dir) name))"

lemma jn_lookup_ok:
  assumes "jn_holds j kvs" and "names_ok (jn_next j) kvs"
  obtains j' where "jn_lookup dir name j = (dir_find (jn_next j) kvs dir name, j')" and "jn_same j j'"
proof -
  obtain j1 where j1: "jn_object dir j = (if dir < jn_next j then Inr (the (kv_object kvs dir)) else Inl FsMissing, j1)" "jn_same j j1"
    using jn_object_ok [OF assms] .
  obtain j2 where j2: "jn_get (KDirent dir name) j1 = (Inr (map_of kvs (KDirent dir name)), j2)" "jn_same j1 j2"
    using jn_get_ok [OF jn_holds_same [OF assms(1) j1(2)]] .
  have same: "jn_same j j2" using jn_same_trans [OF j1(2) j2(2)] .
  consider "dir \<ge> jn_next j" | "dir < jn_next j" "ob_kind (the (kv_object kvs dir)) \<noteq> KDir"
    | "dir < jn_next j" "ob_kind (the (kv_object kvs dir)) = KDir" by linarith
  then show ?thesis
  proof cases
    case 3
    then have "jn_lookup dir name j = (dir_find (jn_next j) kvs dir name, j2)"
      using j1(1) j2(1) by (simp add: jn_lookup_def and_then_def dir_find_def listing_map_of ok_or_def split: option.split)
    then show ?thesis using that same by blast
  qed (use that [of j1] j1 in \<open>simp_all add: jn_lookup_def and_then_def dir_find_def\<close>)
qed

lemma entry_from_ok:
  assumes "jn_holds j kvs" and "left < length ds"
    and "entries_after k inclusive kvs = ds @ rest" and "\<forall>kv \<in> set ds. is_dirent dir (fst kv)"
  shows "\<exists>j'. entry_from left dir k inclusive j = (Inr (dirent_name (fst (ds ! left)), as_dirent (snd (ds ! left))), j') \<and> jn_same j j'"
  using assms
proof (induction left arbitrary: j k inclusive ds)
  case (0 j k inclusive ds)
  then obtain kv ds' where ds: "ds = kv # ds'" by (cases ds) auto
  obtain j' where j': "jn_next_entry (jn_tree_root j) k inclusive j = (Inr (Some kv), j')" "jn_same j j'"
    using jn_next_ok [OF 0(1)] 0(3) ds by (metis append_Cons first_of_simps(2))
  have mem: "kv \<in> set (entries_after k inclusive kvs)" using 0(3) ds by simp
  obtain name where name: "fst kv = KDirent dir name" using 0(4) ds by (auto simp: is_dirent_iff)
  have "key_ok (fst kv)" using jn_holds_keys [OF 0(1)] mem after_subset by blast
  then have "key_name (fst kv) = Inr name" using name by (simp add: name_wf_def)
  then show ?case using j' name ds after_beyond [OF mem]
    by (cases kv) (auto simp: entry_from.simps and_then_def is_dirent_iff)
next
  case (Suc left j k inclusive ds)
  then obtain kv ds' where ds: "ds = kv # ds'" by (cases ds) auto
  obtain j1 where j1: "jn_next_entry (jn_tree_root j) k inclusive j = (Inr (Some kv), j1)" "jn_same j j1"
    using jn_next_ok [OF Suc.prems(1)] Suc.prems(3) ds by (metis append_Cons first_of_simps(2))
  have mem: "kv \<in> set (entries_after k inclusive kvs)" using Suc.prems(3) ds by simp
  have rest: "entries_after (fst kv) False kvs = ds' @ rest"
    using after_step [OF jn_holds_sorted [OF Suc.prems(1)]] Suc.prems(3) ds by simp
  obtain j2 where j2: "entry_from left dir (fst kv) False j1 = (Inr (dirent_name (fst (ds' ! left)), as_dirent (snd (ds' ! left))), j2)" "jn_same j1 j2"
    using Suc.IH [OF jn_holds_same [OF Suc.prems(1) j1(2)] _ rest] Suc.prems(2,4) ds by auto
  have "entry_from (Suc left) dir k inclusive j = entry_from left dir (fst kv) False j1"
    using j1(1) Suc.prems(4) ds after_beyond [OF mem] by (subst entry_from.simps) (cases kv; auto simp: and_then_def)
  then show ?case using j2 jn_same_trans [OF j1(2) j2(2)] ds by simp
qed

text \<open>
  C16. The entries of a directory are its listing in strictly increasing name order: lookup
  returns the object a name is paired with or reports it missing, and the entry at an index is
  the pair at that place, for every index below the count and for none past it.
\<close>

theorem directory_listing:
  assumes "jn_holds j kvs" and "names_ok (jn_next j) kvs"
    and "dir < jn_next j" and "ob_kind (the (kv_object kvs dir)) = KDir"
  shows "sorted_wrt (<) (map fst (listing kvs dir))
    \<and> (\<exists>j'. jn_lookup dir name j = (ok_or FsMissing (map_of (listing kvs dir) name), j') \<and> jn_same j j')
    \<and> (\<exists>j'. jn_entry dir index j = (if index < length (listing kvs dir) then Inr (listing kvs dir ! index) else Inl FsMissing, j')
         \<and> jn_same j j')"
proof -
  obtain ob where ob: "kv_object kvs dir = Some ob" "ob_count ob = length (listing kvs dir)"
    using assms(2-4) by (auto simp: names_ok_def)
  obtain j1 where j1: "jn_object dir j = (Inr ob, j1)" "jn_same j j1"
    using jn_object_ok [OF assms(1,2), of dir] assms(3) ob(1) by auto
  have "\<exists>j'. jn_entry dir index j = (if index < length (listing kvs dir) then Inr (listing kvs dir ! index) else Inl FsMissing, j') \<and> jn_same j j'"
  proof (cases "index < length (listing kvs dir)")
    case True
    let ?after = "entries_after (dirent_start dir) True kvs"
    let ?rest = "dropWhile (\<lambda>kv. is_dirent dir (fst kv)) ?after"
    have split: "?after = dirents kvs dir @ ?rest"
      using dirents_after [OF jn_holds_sorted [OF assms(1)], of dir] takeWhile_dropWhile_id by metis
    have "index < length (dirents kvs dir)" "\<forall>kv \<in> set (dirents kvs dir). is_dirent dir (fst kv)"
      using True by (simp_all add: listing_def dirents_def)
    then obtain j2 where "entry_from index dir (dirent_start dir) True j1 = (Inr (listing kvs dir ! index), j2)" "jn_same j1 j2"
      using entry_from_ok [OF jn_holds_same [OF assms(1) j1(2)] _ split, of index dir] by (auto simp: listing_def)
    then show ?thesis using True j1 ob assms(4) jn_same_trans by (fastforce simp: jn_entry_def and_then_def)
  qed (use j1 ob assms(4) in \<open>simp add: jn_entry_def and_then_def\<close>)
  moreover obtain j2 where "jn_lookup dir name j = (dir_find (jn_next j) kvs dir name, j2)" "jn_same j j2"
    using jn_lookup_ok [OF assms(1,2)] .
  ultimately show ?thesis using listing_sorted [OF jn_holds_sorted [OF assms(1)]] assms(3,4) by (simp add: dir_find_def)
qed

section \<open>Creating\<close>

lemma listing_insert_other: "\<not> is_dirent dir k \<Longrightarrow> listing (kv_insert k v kvs) dir = listing kvs dir"
  by (simp add: listing_def dirents_def kv_insert_filter_not)

fun name_insert :: "byte list \<Rightarrow> nat \<Rightarrow> (byte list \<times> nat) list \<Rightarrow> (byte list \<times> nat) list" where
  "name_insert name i [] = [(name, i)]"
| "name_insert name i ((n, x) # rest) = (if n < name then (n, x) # name_insert name i rest else (name, i) # (n, x) # rest)"

lemma name_insert_set: "set (name_insert name i xs) = insert (name, i) (set xs)"
  by (induction name i xs rule: name_insert.induct) auto

lemma name_insert_length: "length (name_insert name i xs) = Suc (length xs)"
  by (induction name i xs rule: name_insert.induct) auto

lemma listing_insert:
  assumes "kv_sorted kvs" and "map_of kvs (KDirent dir name) = None"
  shows "listing (kv_insert (KDirent dir name) v kvs) dir = name_insert name (as_dirent v) (listing kvs dir)"
proof -
  have ins: "map (\<lambda>kv. (dirent_name (fst kv), as_dirent (snd kv))) (kv_insert (KDirent dir name) v xs)
      = name_insert name (as_dirent v) (map (\<lambda>kv. (dirent_name (fst kv), as_dirent (snd kv))) xs)"
    if "\<forall>kv \<in> set xs. is_dirent dir (fst kv)" "KDirent dir name \<notin> fst ` set xs" for xs
    using that by (induction xs) (auto simp: is_dirent_iff)
  have "KDirent dir name \<notin> fst ` set (dirents kvs dir)" using assms(2) by (auto simp: dirents_def map_of_eq_None_iff)
  then show ?thesis
    using ins [of "dirents kvs dir"] kv_insert_filter [of "is_dirent dir" "KDirent dir name" kvs v] assms(1)
    by (simp add: listing_def dirents_def)
qed

lemma kv_object_insert:
  assumes "kv_sorted kvs"
  shows "kv_object (kv_insert (KObject i) (value_object ob) kvs) =
      (kv_object kvs)(i := (case as_object (value_object ob) of Inl _ \<Rightarrow> None | Inr ob \<Rightarrow> Some ob))"
    "\<forall>i. k \<noteq> KObject i \<Longrightarrow> kv_object (kv_insert k v kvs) = kv_object kvs"
  by (auto simp: kv_object_def fun_eq_iff kv_insert_map_of [OF assms])

text \<open>The index after a creation.\<close>

definition created :: "nat \<Rightarrow> byte list \<Rightarrow> fs_kind \<Rightarrow> nat \<Rightarrow> (key \<times> byte list) list \<Rightarrow> (key \<times> byte list) list" where
  "created parent name kind i kvs =
     (let ob = the (kv_object kvs parent) in
      kv_insert (KDirent parent name) (value_dirent i)
        (kv_insert (KObject i) (value_object \<lparr>ob_kind = kind, ob_count = 0, ob_size = 0\<rparr>)
          (kv_insert (KObject parent) (value_object (ob\<lparr>ob_count := ob_count ob + 1\<rparr>)) kvs)))"

lemma kv_object_bounds:
  assumes "kv_object kvs i = Some ob" and "\<forall>kv \<in> set kvs. length (snd kv) = 32"
  shows "ob_count ob < 2 ^ 32" "ob_size ob < 2 ^ 64"
proof -
  obtain v where v: "map_of kvs (KObject i) = Some v" "as_object v = Inr ob"
    using assms(1) by (auto simp: kv_object_def split: option.splits sum.splits)
  then have "length v = 32" using assms(2) map_of_SomeD [OF v(1)] by fastforce
  then show "ob_count ob < 2 ^ 32" "ob_size ob < 2 ^ 64"
    using v(2) at_le_lt [of 4 4 v] at_le_lt [of 8 8 v] by (auto simp: as_object_def split: if_splits)
qed

lemma created_objects:
  assumes "kv_sorted kvs" and "kv_object kvs parent = Some ob" and "ob_count ob + 1 < 2 ^ 32" and "ob_size ob < 2 ^ 64"
  shows "kv_object (created parent name kind i kvs) =
    (kv_object kvs)(parent \<mapsto> ob\<lparr>ob_count := ob_count ob + 1\<rparr>, i \<mapsto> \<lparr>ob_kind = kind, ob_count = 0, ob_size = 0\<rparr>)"
  using assms by (simp add: created_def Let_def kv_object_insert kv_insert_sorted value_object_as)

lemma created_listing:
  assumes "kv_sorted kvs" and "map_of kvs (KDirent parent name) = None" and "i < 2 ^ 32"
  shows "listing (created parent name kind i kvs) dir =
    (if dir = parent then name_insert name i (listing kvs parent) else listing kvs dir)"
proof (cases "dir = parent")
  case True
  then show ?thesis
    using assms by (simp add: created_def Let_def listing_insert listing_insert_other kv_insert_sorted kv_insert_map_of value_dirent_as)
qed (simp add: created_def Let_def listing_insert_other)

lemma created_names:
  assumes "kv_sorted kvs" and "names_ok next kvs" and "no_orphans next kvs" and "kv_object kvs parent = Some ob"
    and "ob_kind ob = KDir" and "ob_count ob + 1 < 2 ^ 32" and "ob_size ob < 2 ^ 64" and "parent < next" and "next + 1 < 2 ^ 32"
    and "map_of kvs (KDirent parent name) = None"
  shows "names_ok (next + 1) (created parent name kind next kvs)" "no_orphans (next + 1) (created parent name kind next kvs)"
proof -
  let ?kvs = "created parent name kind next kvs"
  note objects = created_objects [OF assms(1,4,6,7), of name kind "next"]
  have list: "listing ?kvs dir = (if dir = parent then name_insert name next (listing kvs parent) else listing kvs dir)" for dir
    using created_listing [OF assms(1,10)] assms(9) by simp
  have empty: "listing kvs next = []" using assms(3) by (simp add: no_orphans_def)
  have par: "ob_size ob = 0" "ob_count ob = length (listing kvs parent)" "\<forall>e \<in> set (listing kvs parent). snd e < next"
    using names_ok_dir [OF assms(2,8,4,5)] by auto
  have "KObject i \<in> fst ` set ?kvs \<longleftrightarrow> i < next + 1" for i
    using assms(2,8) by (auto simp: created_def Let_def kv_insert_keys names_ok_def)
  moreover have "\<exists>ob. kv_object ?kvs i = Some ob
          \<and> (if ob_kind ob = KFile then ob_count ob = 0
             else ob_size ob = 0 \<and> ob_count ob = length (listing ?kvs i) \<and> (\<forall>e \<in> set (listing ?kvs i). snd e < next + 1))"
    if i: "i < next + 1" for i
  proof -
    consider "i = next" | "i = parent" "i \<noteq> next" | "i \<noteq> next" "i \<noteq> parent" "i < next" using i by linarith
    then show ?thesis
    proof cases
      case 1
      then show ?thesis using assms(8) by (simp add: objects list empty)
    next
      case 2
      then show ?thesis using par assms(5) by (auto simp: objects list name_insert_length name_insert_set less_Suc_eq)
    next
      case 3
      then show ?thesis using assms(2) by (fastforce simp: objects list names_ok_def split: if_splits)
    qed
  qed
  ultimately show "names_ok (next + 1) ?kvs" unfolding names_ok_def by blast
  show "no_orphans (next + 1) ?kvs" using assms(3,8) by (simp add: no_orphans_def list)
qed

text \<open>When the parent, the name and the counters allow the creation.\<close>

definition may_create :: "nat \<Rightarrow> (key \<times> byte list) list \<Rightarrow> nat \<Rightarrow> byte list \<Rightarrow> bool" where
  "may_create next kvs parent name \<longleftrightarrow> parent < next \<and> ob_kind (the (kv_object kvs parent)) = KDir
     \<and> dir_find next kvs parent name = Inl FsMissing \<and> next + 1 < 2 ^ 32 \<and> ob_count (the (kv_object kvs parent)) + 1 < 2 ^ 32"

definition create_body :: "nat \<Rightarrow> byte list \<Rightarrow> fs_kind \<Rightarrow> nat \<Rightarrow> fs_object \<Rightarrow> unit journal_op" where
  "create_body parent name kind i ob =
     and_then (jn_index (KObject parent) (value_object (ob\<lparr>ob_count := ob_count ob + 1\<rparr>))) (\<lambda>_.
     and_then (jn_index (KObject i) (value_object \<lparr>ob_kind = kind, ob_count = 0, ob_size = 0\<rparr>)) (\<lambda>_.
     jn_index (KDirent parent name) (value_dirent i)))"

lemma create_body_ok:
  assumes "jn_holds j kvs" and "jn_tx j \<noteq> None" and "name_wf name" and "parent < 2 ^ 32" and "i < 2 ^ 32"
    and "kv_object kvs parent = Some ob"
  obtains (refused) e j' where "create_body parent name kind i ob j = (Inl e, j')" "refusal e" "\<not> jn_roomy 45 j" "jn_frame j j'"
  | (linked) j' where "create_body parent name kind i ob j = (Inr (), j')" "jn_holds j' (created parent name kind i kvs)" "jn_frame j j'" "jn_dirty j'"
proof (rule jn_index_ok [OF assms(1,2), of "KObject parent" "value_object (ob\<lparr>ob_count := ob_count ob + 1\<rparr>)"])
  let ?po = "value_object (ob\<lparr>ob_count := ob_count ob + 1\<rparr>)" and ?io = "value_object \<lparr>ob_kind = kind, ob_count = 0, ob_size = 0\<rparr>"
  fix j1
  assume 1: "jn_index (KObject parent) ?po j = (Inr (), j1)" "jn_holds j1 (kv_insert (KObject parent) ?po kvs)" "jn_frame j j1"
    and room1: "\<And>n. jn_roomy (n + 15) j \<Longrightarrow> jn_roomy n j1"
  show thesis
  proof (rule jn_index_ok [OF 1(2) jn_frameD(9) [OF 1(3)], of "KObject i" ?io])
    fix j2
    assume 2: "jn_index (KObject i) ?io j1 = (Inr (), j2)"
      "jn_holds j2 (kv_insert (KObject i) ?io (kv_insert (KObject parent) ?po kvs))" "jn_frame j1 j2"
      and room2: "\<And>n. jn_roomy (n + 15) j1 \<Longrightarrow> jn_roomy n j2"
    note fr = jn_frame_trans [OF 1(3) 2(3)]
    show thesis
    proof (rule jn_index_ok [OF 2(2) jn_frameD(9) [OF 2(3)], of "KDirent parent name" "value_dirent i"])
      fix j3
      assume 3: "jn_index (KDirent parent name) (value_dirent i) j2 = (Inr (), j3)" "jn_frame j2 j3" "jn_dirty j3"
        "jn_holds j3 (kv_insert (KDirent parent name) (value_dirent i) (kv_insert (KObject i) ?io (kv_insert (KObject parent) ?po kvs)))"
      show thesis using linked [of j3] 1 2 3 assms(6) jn_frame_trans [OF fr 3(2)] by (simp add: create_body_def and_then_def created_def)
    qed (use 1 2 refused assms jn_frame_trans [OF fr] room1 [of 30] room2 [of 15] in \<open>auto simp: create_body_def and_then_def\<close>)
  qed (use 1 refused assms jn_frame_trans [OF 1(3)] room1 [of 30] jn_roomy_mono [of 30 j1 15] in \<open>auto simp: create_body_def and_then_def\<close>)
qed (use assms refused jn_roomy_mono [of 45 j 15] in \<open>auto simp: create_body_def and_then_def\<close>)

lemma jn_create_run:
  assumes "jn_holds j kvs" and "names_ok (jn_next j) kvs"
  obtains j2 where "jn_same j j2"
    and "jn_create parent name kind j =
      (if may_create (jn_next j) kvs parent name
       then and_then (jn_snapshot 0) (\<lambda>before. and_then (or_rollback before (create_body parent name kind (jn_next j) (the (kv_object kvs parent)))) (\<lambda>_.
          and_then (modify (\<lambda>j'. j'\<lparr>jn_next := jn_next j + 1\<rparr>)) (\<lambda>_. ok (jn_next j)))) j2
       else (case dir_find (jn_next j) kvs parent name of
               Inr _ \<Rightarrow> Inl FsExists
             | Inl e \<Rightarrow> if parent < jn_next j \<and> ob_kind (the (kv_object kvs parent)) = KDir then Inl FsFull else Inl e, j2))"
proof -
  obtain j1 where j1: "jn_object parent j = (if parent < jn_next j then Inr (the (kv_object kvs parent)) else Inl FsMissing, j1)" "jn_same j j1"
    using jn_object_ok [OF assms] .
  note d1 = jn_sameD [OF j1(2)]
  obtain j2 where j2: "jn_lookup parent name j1 = (dir_find (jn_next j) kvs parent name, j2)" "jn_same j1 j2"
    using jn_lookup_ok [OF jn_holds_same [OF assms(1) j1(2)]] assms(2) d1(2) by metis
  have same: "jn_same j j2" using jn_same_trans [OF j1(2) j2(2)] .
  consider "\<not> (parent < jn_next j \<and> ob_kind (the (kv_object kvs parent)) = KDir)"
    | "parent < jn_next j" "ob_kind (the (kv_object kvs parent)) = KDir" by blast
  then show ?thesis
  proof cases
    case 1
    then show ?thesis using that [OF j1(2)] j1(1)
      by (auto simp: jn_create_def may_create_def and_then_def dir_find_def)
  next
    case 2
    then show ?thesis using that [OF same] j1(1) j2(1) jn_sameD(2) [OF same]
      by (auto simp: jn_create_def may_create_def and_then_def dir_find_def create_body_def ok_or_def Let_def not_less split: option.splits)
  qed
qed

lemma jn_create_cases:
  assumes "jn_holds j kvs" and "names_ok (jn_next j) kvs" and "jn_next j < 2 ^ 32" and "name_wf name" and "bank_room 0 j"
  obtains (early) e j' where "jn_create parent name kind j = (Inl e, j')" "jn_same j j'"
      "e = FsFull \<or> (case dir_find (jn_next j) kvs parent name of Inr _ \<Rightarrow> e = FsExists | Inl e' \<Rightarrow> e = e' \<and> \<not> (parent < jn_next j \<and> ob_kind (the (kv_object kvs parent)) = KDir))"
      "may_create (jn_next j) kvs parent name \<Longrightarrow> jn_tx j = None \<and> u64_limit \<le> sp_generation (jn_checkpoint j) + 1"
  | (rolled) e t j2 j3 j4 where "jn_create parent name kind j = (Inl e, j4\<lparr>jn_tx := Some t\<rparr>)" "refusal e"
      "jn_same j j2" "jn_snapshot 0 j2 = (Inr t, j3)" "jn_tx j3 = Some t" "jn_frame j3 j4"
      "\<not> jn_roomy 45 j3" "may_create (jn_next j) kvs parent name"
  | (linked) t j2 j3 j4 where "jn_create parent name kind j = (Inr (jn_next j), j4\<lparr>jn_next := jn_next j + 1\<rparr>)"
      "may_create (jn_next j) kvs parent name" "jn_holds j4 (created parent name kind (jn_next j) kvs)" "jn_dirty j4"
      "jn_same j j2" "jn_snapshot 0 j2 = (Inr t, j3)" "jn_frame j3 j4"
proof -
  let ?i = "jn_next j" and ?ob = "the (kv_object kvs parent)"
  let ?body = "create_body parent name kind ?i ?ob"
  obtain j2 where same: "jn_same j j2" and run: "jn_create parent name kind j = (if may_create ?i kvs parent name
       then and_then (jn_snapshot 0) (\<lambda>before. and_then (or_rollback before ?body) (\<lambda>_.
          and_then (modify (\<lambda>j'. j'\<lparr>jn_next := ?i + 1\<rparr>)) (\<lambda>_. ok ?i))) j2
       else (case dir_find ?i kvs parent name of
               Inr _ \<Rightarrow> Inl FsExists
             | Inl e \<Rightarrow> if parent < ?i \<and> ob_kind ?ob = KDir then Inl FsFull else Inl e, j2))"
    using jn_create_run [OF assms(1,2)] .
  show ?thesis
  proof (cases "may_create ?i kvs parent name")
    case False
    then show ?thesis using early [OF _ same] run by (auto split: sum.splits if_splits)
  next
    case True
    then obtain ob where ob: "kv_object kvs parent = Some ob" "parent < ?i" using assms(2) by (auto simp: names_ok_def may_create_def)
    have bank: "bank_room 0 j2" using assms(5) bank_room_same [OF same] by simp
    show ?thesis
    proof (cases rule: jn_snapshot_ok [OF jn_holds_same [OF assms(1) same] bank])
      case (1 j3)
      then show ?thesis using early [OF _ jn_same_trans [OF same 1(2)]] run True jn_sameD(1,7) [OF same] by (simp add: and_then_def)
    next
      case (2 t j3)
      have "jn_tx j3 \<noteq> None" "parent < 2 ^ 32" using 2(2) ob(2) assms(3) by simp_all
      then show ?thesis
      proof (cases rule: create_body_ok [OF 2(3) _ assms(4) _ assms(3) ob(1), of kind])
        case (3 e j4)
        then show ?thesis using rolled [OF _ 3(2) same 2(1,2) 3(4,3) True] run True 2(1) ob(1) by (simp add: and_then_def or_rollback_def)
      next
        case (4 j4)
        then show ?thesis using linked [OF _ True 4(2,4) same 2(1) 4(3)] run True 2(1) ob(1) by (simp add: and_then_def or_rollback_def)
      qed
    qed
  qed
qed

lemma created_keeps:
  assumes "jn_holds j kvs" and "names_ok next kvs" and "no_orphans next kvs" and "may_create next kvs parent name"
  shows "names_ok (next + 1) (created parent name kind next kvs)" "no_orphans (next + 1) (created parent name kind next kvs)"
    "listing (created parent name kind next kvs) dir = (if dir = parent then name_insert name next (listing kvs parent) else listing kvs dir)"
    "x \<noteq> parent \<Longrightarrow> x \<noteq> next \<Longrightarrow> kv_object (created parent name kind next kvs) x = kv_object kvs x"
    "kv_object (created parent name kind next kvs) next = Some \<lparr>ob_kind = kind, ob_count = 0, ob_size = 0\<rparr>"
proof -
  obtain ob where ob: "kv_object kvs parent = Some ob" "ob_kind ob = KDir" "ob_count ob + 1 < 2 ^ 32" "parent < next" "next + 1 < 2 ^ 32"
    using assms(2,4) by (auto simp: names_ok_def may_create_def)
  have absent: "map_of kvs (KDirent parent name) = None"
    using assms(4) by (auto simp: may_create_def dir_find_def listing_map_of split: if_splits)
  have size: "ob_size ob < 2 ^ 64" using kv_object_bounds(2) [OF ob(1)] jn_holds_keys [OF assms(1)] by blast
  note sorted = jn_holds_sorted [OF assms(1)]
  show "names_ok (next + 1) (created parent name kind next kvs)" "no_orphans (next + 1) (created parent name kind next kvs)"
    "listing (created parent name kind next kvs) dir = (if dir = parent then name_insert name next (listing kvs parent) else listing kvs dir)"
    "x \<noteq> parent \<Longrightarrow> x \<noteq> next \<Longrightarrow> kv_object (created parent name kind next kvs) x = kv_object kvs x"
    "kv_object (created parent name kind next kvs) next = Some \<lparr>ob_kind = kind, ob_count = 0, ob_size = 0\<rparr>"
    using created_names [OF sorted assms(2,3) ob(1-3) size ob(4,5) absent, of kind] created_objects [OF sorted ob(1,3) size, of name kind "next"]
      created_listing [OF sorted absent, of "next" kind] ob(5) by auto
qed

text \<open>
  C5. Creating an object in a directory, on every branch, either links a fresh object under the
  name in bytewise order and changes no other listing and no other object, keeping every count
  equal to its listing, or reports the missing parent, the wrong kind, the taken name, the full
  volume or the device, the first three without any effect.
\<close>

theorem create_refines:
  assumes "jn_holds j kvs" and "names_ok (jn_next j) kvs" and "no_orphans (jn_next j) kvs"
    and "jn_next j < 2 ^ 32" and "name_wf name" and "bank_room 0 j"
    and "jn_create parent name kind j = (r, j')"
  shows "case r of
      Inr i \<Rightarrow> parent < jn_next j \<and> dir_find (jn_next j) kvs parent name = Inl FsMissing \<and> i = jn_next j \<and> jn_next j' = i + 1
        \<and> (\<exists>kvs'. jn_holds j' kvs' \<and> names_ok (i + 1) kvs' \<and> no_orphans (i + 1) kvs'
             \<and> (\<forall>dir. listing kvs' dir = (if dir = parent then name_insert name i (listing kvs parent) else listing kvs dir))
             \<and> (\<forall>x. x \<noteq> parent \<and> x \<noteq> i \<longrightarrow> kv_object kvs' x = kv_object kvs x)
             \<and> kv_object kvs' i = Some \<lparr>ob_kind = kind, ob_count = 0, ob_size = 0\<rparr>)
    | Inl e \<Rightarrow> e = FsFull \<or> (\<exists>d. e = FsDevice d)
        \<or> jn_same j j' \<and> (case dir_find (jn_next j) kvs parent name of Inr _ \<Rightarrow> e = FsExists
             | Inl e' \<Rightarrow> e = e' \<and> \<not> (parent < jn_next j \<and> ob_kind (the (kv_object kvs parent)) = KDir))"
proof (cases rule: jn_create_cases [OF assms(1,2,4-6), of parent kind])
  case (1 e j1)
  then show ?thesis using assms(7) by auto
next
  case (2 e t j2 j3 j4)
  then show ?thesis using assms(7) by (auto simp: refusal_def)
next
  case (3 t j2 j3 j4)
  let ?i = "jn_next j" and ?kvs = "created parent name kind (jn_next j) kvs"
  have "jn_holds j' ?kvs" using 3(1,3) assms(7) jn_holds_cong [of j' j4] by auto
  then show ?thesis using created_keeps [OF assms(1-3) 3(2), where kind = kind] 3(1,2) assms(4,7) by (auto simp: may_create_def intro!: exI [of _ ?kvs])
qed

text \<open>
  Creating succeeds while the power is on and the tree has the blocks of three insertions, whether
  the transaction is open or still to be opened.
\<close>

definition jn_spare :: "journal \<Rightarrow> nat" where
  "jn_spare j =
     (case jn_tx j of
        Some t \<Rightarrow> spare (tn_tree t)
      | None \<Rightarrow> sp_tree_blocks (jn_checkpoint j) - card (root_blocks (node_at (jn_store j)) (sp_tree_root (jn_checkpoint j))
          \<union> (case vl_prev_tree (st_vol (jn_store j)) of None \<Rightarrow> {} | Some root \<Rightarrow> root_blocks (node_at (jn_store j)) root)))"

lemma jn_snapshot_roomy:
  assumes "jn_holds j kvs" and "bank_room reserve j" and "powered (vl_disk (st_vol (jn_store j)))" and "n \<le> jn_spare j"
    and "jn_snapshot reserve j = (Inr t, j')"
  shows "jn_roomy n j'"
proof (cases rule: jn_snapshot_ok [OF assms(1,2)])
  case (2 t' j1)
  have eq: "t' = t" "j1 = j'" using 2(1) assms(5) by simp_all
  have tx: "tx_holds (tn_tree t) (jn_store j') kvs" using 2(2,3) eq by (simp add: jn_holds_def)
  have "powered (vl_disk (st_vol (jn_store j')))" using assms(3) store_sameD(4) [OF 2(4)] eq by simp
  moreover have "n \<le> spare (tn_tree t)"
  proof (cases "jn_tx j")
    case None
    have used: "used_blocks (tn_tree t) = protected_blocks (tn_tree t) \<union> root_blocks (node_at (jn_store j)) (tx_root (tn_tree t))"
      "bm_bits (tx_used (tn_tree t)) = sp_tree_blocks (jn_checkpoint j)"
      using tx store_sameD(1,3) [OF 2(4)] eq by (simp_all add: tx_holds_def tx_ok_def jn_checkpoint_def)
    have "used_blocks (tn_tree t) = protected_blocks (tn_tree t)" using used(1) 2(8) None eq by auto
    then show ?thesis using assms(4) used(2) 2(8) None eq by (simp add: jn_spare_def spare_def)
  next
    case (Some t0)
    then show ?thesis using 2(8) eq assms(4) by (simp add: jn_spare_def)
  qed
  ultimately show ?thesis using 2(2) eq by (simp add: jn_roomy_def)
qed (use assms(5) in simp)

lemma jn_create_live:
  assumes "jn_holds j kvs" and "names_ok (jn_next j) kvs" and "jn_next j < 2 ^ 32" and "name_wf name" and "bank_room 0 j"
    and "may_create (jn_next j) kvs parent name" and "powered (vl_disk (st_vol (jn_store j)))" and "45 \<le> jn_spare j"
    and "jn_tx j \<noteq> None \<or> sp_generation (jn_checkpoint j) + 1 < u64_limit"
  obtains j' where "jn_create parent name kind j = (Inr (jn_next j), j')" "jn_holds j' (created parent name kind (jn_next j) kvs)"
    "jn_dirty j'"
    "jn_checkpoint j' = jn_checkpoint j" "powered (vl_disk (st_vol (jn_store j')))"
proof -
  have opened: "jn_roomy 45 j3 \<and> jn_checkpoint j3 = jn_checkpoint j" if "jn_same j j2" "jn_snapshot 0 j2 = (Inr t, j3)" for t j2 j3
  proof -
    note d = jn_sameD [OF that(1)] and h = jn_holds_same [OF assms(1) that(1)]
    have "jn_spare j2 = jn_spare j" using d store_sameD [OF d(6)] by (simp add: jn_spare_def vol_meta_def split: option.split)
    then have "jn_roomy 45 j3"
      using jn_snapshot_roomy [OF h _ _ _ that(2), of 45] bank_room_same [OF that(1)] assms(5,7,8) store_sameD(4) [OF d(6)] by simp
    moreover have "jn_checkpoint j3 = jn_checkpoint j2"
      by (cases rule: jn_snapshot_ok [OF h, of 0])
        (use that(2) bank_room_same [OF that(1)] assms(5) store_sameD(3) in \<open>auto simp: jn_checkpoint_def\<close>)
    ultimately show ?thesis using d(7) by simp
  qed
  show ?thesis
  proof (cases rule: jn_create_cases [OF assms(1-5), of parent kind])
    case (1 e j1)
    then show ?thesis using assms(6,9) by simp
  next
    case (2 e t j2 j3 j4)
    then show ?thesis using opened [OF 2(3,4)] by simp
  next
    case (3 t j2 j3 j4)
    let ?j = "j4\<lparr>jn_next := jn_next j + 1\<rparr>"
    have "powered (vl_disk (st_vol (jn_store j4)))" using 3(7) opened [OF 3(5,6)] by (auto simp: jn_frame_def tx_frame_def jn_roomy_def)
    then show ?thesis
      using that [of ?j] 3(1,3) jn_holds_cong [of ?j j4] jn_frameD(5) [OF 3(7)] opened [OF 3(5,6)] 3(4) by (simp add: jn_checkpoint_def jn_dirty_def)
  qed
qed

section \<open>A small volume\<close>

definition sample_journal :: journal where
  "sample_journal = (jn_fresh (st_vol sample_store))\<lparr>jn_next := 2\<rparr>"

lemma sample_journal_fields:
  "jn_store sample_journal = sample_store" "jn_tx sample_journal = None" "jn_next sample_journal = 2"
  "jn_checkpoint sample_journal = sample_super" "vl_prev_tree (st_vol sample_store) = None"
  by (simp_all add: sample_journal_def jn_fresh_def jn_checkpoint_def sample_store_def)

lemma sample_root:
  "tree_published (node_at sample_store) 3 sample_kvs" "root_blocks (node_at sample_store) 3 = {3}" "sp_tree_root sample_super = 3"
  using sample_node sample_leaf_wf
  by (simp_all add: tree_published_def root_blocks_def root_level_def sample_leaf_def sample_super_def zip_map_fst_snd)

lemma sample_journal_holds: "jn_holds sample_journal sample_kvs"
  using sample_root sample_store_ok by (simp add: jn_holds_def sample_journal_fields)

lemma sample_names: "names_ok 2 sample_kvs" "no_orphans 2 sample_kvs"
proof -
  have listing: "listing sample_kvs dir = (if dir = 0 then [([97], 1)] else [])" for dir
    by (simp add: listing_def dirents_def sample_kvs_def value_dirent_as)
  have object: "kv_object sample_kvs 0 = Some \<lparr>ob_kind = KDir, ob_count = 1, ob_size = 0\<rparr>"
    "kv_object sample_kvs 1 = Some \<lparr>ob_kind = KFile, ob_count = 0, ob_size = 0\<rparr>"
    by (simp_all add: kv_object_def sample_kvs_def value_object_as)
  have keys: "KObject i \<in> fst ` set sample_kvs \<longleftrightarrow> i < 2" for i by (auto simp: sample_kvs_def)
  have "i < 2 \<longleftrightarrow> i = 0 \<or> i = 1" for i :: nat by auto
  then show "names_ok 2 sample_kvs" unfolding names_ok_def using keys object listing by auto
  show "no_orphans 2 sample_kvs" by (simp add: no_orphans_def listing)
qed

lemma sample_room: "bank_room 0 sample_journal"
  by (simp add: bank_room_def bank_capacity_def jn_log_region_def sample_journal_fields sample_super_def checked_mul_def BLOCK_def)

lemma sample_listing: "listing sample_kvs 0 = [([97], 1)]" "kv_object sample_kvs 0 = Some \<lparr>ob_kind = KDir, ob_count = 1, ob_size = 0\<rparr>"
  by (simp_all add: listing_def dirents_def kv_object_def sample_kvs_def value_dirent_as value_object_as)

theorem directory_listing_witness:
  "fst (jn_lookup 0 [97] sample_journal) = Inr 1 \<and> fst (jn_entry 0 0 sample_journal) = Inr ([97], 1)
   \<and> fst (jn_entry 0 1 sample_journal) = Inl FsMissing"
  using directory_listing [OF sample_journal_holds, of 0 "[97]" 0] directory_listing [OF sample_journal_holds, of 0 "[97]" 1]
    sample_names(1) by (auto simp: sample_journal_fields sample_listing ok_or_def)

lemma sample_may_create: "may_create 2 sample_kvs 0 [98]"
  by (simp add: may_create_def dir_find_def sample_listing ok_or_def)

theorem create_refines_witness:
  "case fst (jn_create 0 [98] KFile sample_journal) of
     Inr i \<Rightarrow> i = 2 \<and> jn_next (snd (jn_create 0 [98] KFile sample_journal)) = 3
   | Inl e \<Rightarrow> e = FsFull \<or> (\<exists>d. e = FsDevice d)"
  using create_refines [OF sample_journal_holds _ _ _ _ sample_room, of "[98]" 0 KFile "fst (jn_create 0 [98] KFile sample_journal)"
      "snd (jn_create 0 [98] KFile sample_journal)"] sample_names
  by (auto simp: sample_journal_fields sample_listing dir_find_def ok_or_def name_wf_iff split: sum.splits)

end
