(* ===== verification/Fs_Sync.thy ===== *)
theory Fs_Sync
  imports Fs_Journal_View
begin

text \<open>
  What a power cut leaves. The durable image of a mounted volume, and the image a flush would make
  durable, each hold the active checkpoint. \<open>sync\<close> keeps it so at every step, and the checkpoint a
  mount finds after a cut is the old one until \<open>sync\<close> reports the new.
\<close>

section \<open>Images\<close>

text \<open>The device after a power cut: the cache is gone.\<close>

definition reboot :: "faulty \<Rightarrow> faulty" where
  "reboot d = \<lparr>flt_stable = flt_stable d, flt_volatile = flt_stable d, flt_cut = None, flt_steps = 0, flt_failed = False\<rparr>"

lemma reboot_new:
  "length (flt_stable d) mod 512 = 0 \<Longrightarrow> length cache = length (flt_stable d) \<Longrightarrow> fault_new (flt_stable d) cache = Inr (reboot d)"
  by (simp add: fault_new_def SECTOR_def reboot_def)

lemma disk_block_cong: "flt_volatile d' = flt_volatile d \<Longrightarrow> disk_block d' = disk_block d"
  by (rule ext) (simp add: disk_block_def)

lemma shape_frame:
  "\<forall>b \<in> set (tree_blocks V l at). V' b = V b \<Longrightarrow> tree_shape V' l at = tree_shape V l at"
proof (induction l arbitrary: at)
  case (Suc l)
  have top: "V' at = V at" using Suc.prems tree_root_block [of at V "Suc l"] by simp
  show ?case
  proof (cases "V at")
    case (Some n)
    have "tree_shape V' l c = tree_shape V l c" if "c \<in> set (nd_children n)" for c
      using Suc.IH [of c] Suc.prems Some that by (auto simp: tree_blocks.simps)
    then show ?thesis using top Some by (auto simp: tree_shape.simps)
  qed (use top in \<open>auto simp: tree_shape.simps\<close>)
qed (simp add: tree_shape.simps)

lemma root_frame:
  assumes "\<forall>b \<in> root_blocks V root. V' b = V b"
  shows "root_blocks V' root = root_blocks V root" "root \<noteq> 0 \<Longrightarrow> shaped V' root = shaped V root"
    "tree_published V' root kvs = tree_published V root kvs"
proof -
  have "root_blocks V' root = root_blocks V root \<and> (root \<noteq> 0 \<longrightarrow> shaped V' root = shaped V root)
      \<and> tree_published V' root kvs = tree_published V root kvs"
  proof (cases "root = 0")
    case False
    have all: "\<forall>b \<in> set (tree_blocks V (root_level V root) root). V' b = V b" using assms False by (simp add: root_blocks_def)
    have "root_level V' root = root_level V root" using all tree_root_block [of root V "root_level V root"] by (simp add: root_level_def)
    then show ?thesis using tree_frame [OF all] shape_frame [OF all] False by (simp add: root_blocks_def shaped_def tree_published_def)
  qed (simp add: root_blocks_def tree_published_def)
  then show "root_blocks V' root = root_blocks V root" "root \<noteq> 0 \<Longrightarrow> shaped V' root = shaped V root"
    "tree_published V' root kvs = tree_published V root kvs" by simp_all
qed

text \<open>A checkpoint's tree is no newer than the checkpoint and its root exactly as new.\<close>

definition tree_dated :: "node_arena \<Rightarrow> nat \<Rightarrow> nat \<Rightarrow> bool" where
  "tree_dated V gen root \<longleftrightarrow> (\<forall>at \<in> root_blocks V root. \<forall>n. V at = Some n \<longrightarrow> nd_generation n \<le> gen \<and> (at = root \<longrightarrow> nd_generation n = gen))"

lemma tree_sound_iff:
  "tree_sound d cp \<longleftrightarrow> sp_tree_root cp = 0 \<or> shaped (arena_of d cp) (sp_tree_root cp) \<and> tree_dated (arena_of d cp) (sp_generation cp) (sp_tree_root cp)"
proof -
  have "root_level V at = l" if "tree_shape V l at" for V l at
    using tree_shape_node [OF that] by (auto simp: root_level_def)
  then show ?thesis by (auto simp: tree_sound_def shaped_def tree_dated_def root_blocks_def Let_def)
qed

lemma shape_blocks: "tree_shape V l at \<Longrightarrow> b \<in> set (tree_blocks V l at) \<Longrightarrow> \<exists>n. V b = Some n"
proof (induction l arbitrary: at)
  case (Suc l)
  then obtain n where n: "V at = Some n" "\<forall>c \<in> set (nd_children n). tree_shape V l c" by (auto simp: tree_shape.simps)
  then show ?case using Suc by (auto simp: tree_blocks.simps)
qed (auto simp: tree_shape.simps)

lemma shaped_arena:
  assumes "tree_sound d cp" and "x \<in> root_blocks (arena_of d cp) (sp_tree_root cp)"
  shows "in_arena cp x"
  using assms shape_blocks [of "arena_of d cp" _ "sp_tree_root cp" x] arena_of_in [of d cp x]
  by (auto simp: tree_sound_iff shaped_def root_blocks_def split: if_splits)

lemma slice_part: "sub_slice at n w' = sub_slice at n w \<Longrightarrow> i + m \<le> n \<Longrightarrow> sub_slice (at + i) m w' = sub_slice (at + i) m w"
  by (metis slice_slice)

lemma record_span_header: "record_span r = Inr n \<Longrightarrow> 32 \<le> n"
proof -
  assume "record_span r = Inr n"
  then obtain at b where at: "record_payload_at r = Inr at" and b: "checked_add at (lr_bytes r) = Some b"
    and n: "checked_next_multiple_of b ALIGN = Some n"
    by (auto simp: record_span_def split: sum.splits option.splits)
  have "32 \<le> at" using at by (auto simp: record_payload_at_def HEADER_def split: option.splits)
  then show ?thesis using checked_next_multiple_of_SomeD [OF n] b by simp
qed

lemma log_sum_from_bound: "log_sum_from d region cursor crc = Inr c \<Longrightarrow> cursor \<le> rg_bytes region"
  by (subst (asm) log_sum_from.simps) (simp split: if_splits)

lemma log_sum_from_frame:
  assumes "sub_slice (rg_at region * 4096) (rg_bytes region) (flt_volatile d') = sub_slice (rg_at region * 4096) (rg_bytes region) (flt_volatile d)"
    and "log_sum_from d region cursor crc = Inr c"
  shows "log_sum_from d' region cursor crc = Inr c"
  using assms(2)
proof (induction "rg_bytes region - cursor" arbitrary: cursor crc rule: less_induct)
  case less
  show ?case
  proof (cases "cursor < rg_bytes region")
    case True
    let ?at = "rg_at region + cursor div 4096"
    let ?h = "sub_slice (cursor mod 4096) 32 (disk_block d ?at)"
    obtain r span where r: "cursor mod 4096 + 32 \<le> 4096" "record_parse ?h = Inr r" "record_span r = Inr span" "cursor + span < u64_limit"
      "log_sum_from d region (cursor + span) (crc_update crc ?h) = Inr c"
      using less.prems True by (subst (asm) log_sum_from.simps) (auto simp: Let_def split: if_splits sum.splits)
    have "cursor + 32 \<le> rg_bytes region" using log_sum_from_bound [OF r(5)] record_span_header [OF r(3)] by simp
    note part = slice_part [OF assms(1) this]
    have at: "?at * 4096 + cursor mod 4096 = rg_at region * 4096 + cursor" by (simp add: algebra_simps)
    have h: "sub_slice (cursor mod 4096) 32 (disk_block d' ?at) = ?h"
      using part r(1) unfolding disk_block_def by (simp add: slice_slice at add.commute)
    have "log_sum_from d' region (cursor + span) (crc_update crc ?h) = Inr c"
      using less.hyps [OF _ r(5)] True record_span_positive [OF r(3)] by simp
    then show ?thesis using True r h by (subst log_sum_from.simps) (simp add: Let_def)
  next
    case False
    then show ?thesis using less.prems by (subst (asm) log_sum_from.simps, subst log_sum_from.simps) (simp split: if_splits)
  qed
qed

text \<open>What two images must share for a checkpoint to be as usable in one as in the other.\<close>

definition shares :: "super \<Rightarrow> faulty \<Rightarrow> faulty \<Rightarrow> bool" where
  "shares cp d d' \<longleftrightarrow> length (flt_volatile d') = length (flt_volatile d)
     \<and> (\<forall>x \<in> root_blocks (arena_of d cp) (sp_tree_root cp). disk_block d' x = disk_block d x)
     \<and> sub_slice (rg_at (sp_region cp) * 4096) (rg_bytes (sp_region cp)) (flt_volatile d')
       = sub_slice (rg_at (sp_region cp) * 4096) (rg_bytes (sp_region cp)) (flt_volatile d)"

lemma shares_nodes: "shares cp d d' \<Longrightarrow> \<forall>b \<in> root_blocks (arena_of d cp) (sp_tree_root cp). arena_of d' cp b = arena_of d cp b"
  by (simp add: shares_def arena_of_def)

lemma shares_usable:
  assumes "shares cp d d'" and "usable d cp"
  shows "usable d' cp" and "tree_published (arena_of d' cp) (sp_tree_root cp) kvs = tree_published (arena_of d cp) (sp_tree_root cp) kvs"
proof -
  note root = root_frame [OF shares_nodes [OF assms(1)]]
  show "tree_published (arena_of d' cp) (sp_tree_root cp) kvs = tree_published (arena_of d cp) (sp_tree_root cp) kvs" by (rule root(3))
  obtain crc where crc: "log_sum d (sp_region cp) = Inr crc" "unat crc = rg_crc (sp_region cp)" and ts: "tree_sound d cp"
    using assms(2) by (auto simp: usable_def cp_sound_def)
  have "log_sum d' (sp_region cp) = Inr crc"
    using log_sum_from_frame [of "sp_region cp" d' d 0 crc_new crc] assms(1) crc(1) by (simp add: shares_def log_sum_def)
  moreover have "tree_sound d' cp"
    using ts root(1,2) shares_nodes [OF assms(1)] by (auto simp: tree_sound_iff tree_dated_def)
  ultimately show "usable d' cp" using assms crc(2) by (simp add: usable_def cp_sound_def shares_def)
qed

section \<open>The checkpoint an image holds\<close>

definition image_holds :: "faulty \<Rightarrow> nat \<Rightarrow> super \<Rightarrow> (key \<times> byte list) list \<Rightarrow> bool" where
  "image_holds d a cp kvs \<longleftrightarrow> a < 2 \<and> copy_of d a = Some cp \<and> usable d cp
     \<and> (\<forall>sp. copy_of d (1 - a) = Some sp \<longrightarrow> sp_generation sp < sp_generation cp)
     \<and> tree_published (arena_of d cp) (sp_tree_root cp) kvs"

lemma image_cong: "flt_volatile d' = flt_volatile d \<Longrightarrow> image_holds d' a cp kvs = image_holds d a cp kvs"
proof -
  assume eq: "flt_volatile d' = flt_volatile d"
  have "shares cp d d'" "shares cp d' d" using eq disk_block_cong [OF eq] by (simp_all add: shares_def)
  moreover have "copy_of d' = copy_of d" "arena_of d' cp = arena_of d cp"
    using disk_block_cong [OF eq] by (auto simp: copy_of_def arena_of_def fun_eq_iff)
  ultimately show ?thesis using shares_usable(1) by (auto simp: image_holds_def)
qed

lemma image_shares:
  assumes "image_holds d a cp kvs" and "shares cp d d'" and "disk_block d' 0 = disk_block d 0" and "disk_block d' 1 = disk_block d 1"
  shows "image_holds d' a cp kvs"
proof -
  have "disk_block d' (1 - a) = disk_block d (1 - a)" "disk_block d' a = disk_block d a"
    using assms(1,3,4) by (cases a; auto simp: image_holds_def less_Suc_eq numeral_2_eq_2)+
  then show ?thesis
    using assms(1) shares_usable(1) [OF assms(2)] shares_usable(2) [OF assms(2), of kvs] by (simp add: image_holds_def copy_of_def)
qed

lemma image_mounts:
  assumes "image_holds d a cp kvs" and "length (flt_volatile d) < 2 ^ 64"
  obtains v where "vol_mount d = Inr v" and "vl_super v = cp" and "vl_active v = a" and "vl_disk v = d"
proof -
  have good: "good_copy d a = Some cp" using assms(1) by (simp add: image_holds_def good_copy_def)
  have other: "sp_generation sp < sp_generation cp" if "good_copy d (1 - a) = Some sp" for sp
    using good_copy_Some [OF that] assms(1) by (simp add: image_holds_def)
  have a: "a = 0 \<or> a = 1" using assms(1) by (auto simp: image_holds_def)
  then have ch: "chosen d = Some (a, cp, good_copy d (1 - a))"
    using good other by (elim disjE) (auto simp: chosen_def dest: less_not_sym split: option.splits)
  have "2 \<le> sp_blocks cp" using copy_of_check [of d a cp] assms(1) unfolding super_check_iff image_holds_def log_start_def by linarith
  then have "2 * 4096 \<le> sp_blocks cp * 4096" by simp
  then have "2 * 4096 \<le> length (flt_volatile d)" using assms(1) by (simp add: image_holds_def usable_def)
  from vol_mount_chosen [OF this assms(2)] obtain v where
    v: "vol_mount d = Inr (vol_adopt (checkpoint_of (a, cp, good_copy d (1 - a))) v)" "vol_same (vol_attached d) v"
    using ch by auto
  then show ?thesis using that vol_same_fields(1) [OF v(2)] by (auto simp: vol_adopt_def checkpoint_of_def vol_attached_def)
qed

section \<open>Flushing and writing a superblock\<close>

definition durable :: "volume \<Rightarrow> (key \<times> byte list) list \<Rightarrow> bool" where
  "durable v kvs \<longleftrightarrow> length (flt_stable (vl_disk v)) = length (flt_volatile (vl_disk v))
     \<and> image_holds (vl_disk v) (vl_active v) (vl_super v) kvs \<and> image_holds (reboot (vl_disk v)) (vl_active v) (vl_super v) kvs"

lemma vol_ok_disk:
  assumes "vol_ok v" and "flt_volatile d = flt_volatile (vl_disk v)"
  shows "vol_ok (v\<lparr>vl_disk := d\<rparr>)"
proof -
  have "slot_ok d x = slot_ok (vl_disk v) x" for x
    using disk_block_cong [OF assms(2)] by (cases "(d, x)" rule: slot_ok.cases) auto
  then show ?thesis using assms by (simp add: vol_ok_def)
qed

lemma vol_flush_cases:
  assumes "vol_ok v" and "vol_flush v = (r, v')"
  shows "vol_ok v'" "vol_meta v v'" "flt_volatile (vl_disk v') = flt_volatile (vl_disk v)"
    "flt_stable (vl_disk v') = (if isl r then flt_stable (vl_disk v) else flt_volatile (vl_disk v))"
    "powered (vl_disk v) \<Longrightarrow> \<not> isl r \<and> powered (vl_disk v')"
proof -
  obtain q d where fl: "fault_flush (vl_disk v) = (q, d)" by fastforce
  then have v': "v' = v\<lparr>vl_disk := d\<rparr>" "isl r = isl q" using assms(2) by (auto simp: vol_flush_def split: sum.splits)
  have d: "flt_volatile d = flt_volatile (vl_disk v) \<and> flt_stable d = (if isl q then flt_stable (vl_disk v) else flt_volatile (vl_disk v))"
    using fl fault_disk.fl_refused [of "vl_disk v" _ d] fault_disk.fl_durable [of "vl_disk v" d] by (cases q) auto
  show "vol_ok v'" "vol_meta v v'" "flt_volatile (vl_disk v') = flt_volatile (vl_disk v)"
    "flt_stable (vl_disk v') = (if isl r then flt_stable (vl_disk v) else flt_volatile (vl_disk v))"
    using vol_ok_disk [OF assms(1)] d v' by (simp_all add: vol_meta_def)
  show "powered (vl_disk v) \<Longrightarrow> \<not> isl r \<and> powered (vl_disk v')" using powered_flush [OF _ fl] v' by simp
qed

definition super_sector :: "super \<Rightarrow> byte list" where
  "super_sector sp = take 512 (super_encode sp (replicate 4096 0))"

lemma super_sector_length: "length (super_sector sp) = 512"
  using super_encode_length [of "replicate 4096 0" sp] by (simp add: super_sector_def)

lemma write_checkpoint_cases:
  assumes "vol_ok v" and "copy < 2" and "write_checkpoint copy sp v = (r, v')"
  shows "vol_ok v'" "vol_meta v v'" "flt_stable (vl_disk v') = flt_stable (vl_disk v)"
    "flt_volatile (vl_disk v') = (if isl r then flt_volatile (vl_disk v) else put_slice (copy * 4096) (super_sector sp) (flt_volatile (vl_disk v)))"
    "\<not> isl r \<Longrightarrow> copy * 4096 + 512 \<le> length (flt_volatile (vl_disk v))"
    "powered (vl_disk v) \<Longrightarrow> copy * 4096 + 512 \<le> length (flt_volatile (vl_disk v)) \<Longrightarrow> \<not> isl r \<and> powered (vl_disk v')"
proof -
  let ?w = "vol_stale copy (copy + 1) v" and ?b = "super_sector sp"
  note stale = vol_stale_same [OF assms(1), where lo = copy and hi = "copy + 1"]
  have wr: "vol_aside (copy * 8) ?b ?w = (r, v')"
    using assms(2,3) by (simp add: write_checkpoint_def SUPERS_def SECTORS_def BLOCK_def SECTOR_def super_sector_def)
  have disk: "vl_disk ?w = vl_disk v" using vol_same_fields(1) [OF stale(1)] .
  have aside: "vol_ok v' \<and> vol_meta ?w v'"
    using vol_aside_ok [OF stale(2,3) _ _ wr] super_sector_length by simp
  obtain q d where fw: "fault_write (copy * 8) ?b (vl_disk v) = (q, d)" by fastforce
  then have v': "vl_disk v' = d" "isl r = isl q" using wr disk by (auto simp: vol_aside_def split: sum.splits)
  show "vol_ok v'" "vol_meta v v'" using aside vol_same_meta [OF stale(1)] vol_meta_trans by blast+
  show "flt_stable (vl_disk v') = flt_stable (vl_disk v)" using fault_write_stable [OF fw] v' by simp
  show "flt_volatile (vl_disk v') = (if isl r then flt_volatile (vl_disk v) else put_slice (copy * 4096) ?b (flt_volatile (vl_disk v)))"
    "\<not> isl r \<Longrightarrow> copy * 4096 + 512 \<le> length (flt_volatile (vl_disk v))"
    using fw v' fault_disk.wr_refused [of "copy * 8" ?b "vl_disk v" _ d] fault_disk.wr_content [of "copy * 8" ?b "vl_disk v" d]
      super_sector_length [of sp]
    by (cases q; auto simp: mult.assoc)+
  show "powered (vl_disk v) \<Longrightarrow> copy * 4096 + 512 \<le> length (flt_volatile (vl_disk v)) \<Longrightarrow> \<not> isl r \<and> powered (vl_disk v')"
    using powered_write [OF _ fw] v' assms(1) super_sector_length [of sp] by (auto simp: vol_ok_def mult.assoc)
qed

lemma super_parse_take: "take 220 a = take 220 b \<Longrightarrow> length a \<ge> 220 \<Longrightarrow> length b \<ge> 220 \<Longrightarrow> super_parse a = super_parse b"
  by (simp add: super_parse_def)

lemma image_new:
  assumes "image_holds d a cp kvs0" and "super_wf cp'" and "super_check cp' = Inr ()"
    and "sp_blocks cp' = sp_blocks cp" and "sp_generation cp < sp_generation cp'" and "cp_sound d cp'"
    and "tree_published (arena_of d cp') (sp_tree_root cp') kvs"
    and "flt_volatile d' = put_slice ((1 - a) * 4096) (super_sector cp') (flt_volatile d)"
    and "(1 - a) * 4096 + 512 \<le> length (flt_volatile d)"
  shows "image_holds d' (1 - a) cp' kvs"
proof -
  let ?b = "1 - a"
  have a: "a < 2" "copy_of d a = Some cp" using assms(1) by (simp_all add: image_holds_def)
  have len: "length (flt_volatile d') = length (flt_volatile d)" using assms(8,9) super_sector_length by (simp add: put_slice_length)
  have fits: "sp_blocks cp * 4096 \<le> length (flt_volatile d)" using assms(1) by (simp add: image_holds_def usable_def)
  have two: "2 \<le> sp_blocks cp" using copy_of_check [OF a(2)] unfolding super_check_iff log_start_def by linarith
  have other: "disk_block d' i = disk_block d i" if "i \<noteq> ?b" for i
  proof -
    have "i < ?b \<or> ?b + 1 \<le> i" using that by linarith
    then show ?thesis
      using disk_block_put [of "?b * 4096" "super_sector cp'" d d' ?b "?b + 1" i] assms(8,9) super_sector_length by simp
  qed
  note c = assms(3) [unfolded super_check_iff]
  have "super_parse (disk_block d' ?b) = super_parse (super_encode cp' (replicate 4096 0))"
  proof (rule super_parse_take)
    have "take 220 (disk_block d' ?b) = take 220 (sub_slice (?b * 4096) 512 (flt_volatile d'))"
      by (simp add: disk_block_def sub_slice_def min_def)
    also have "sub_slice (?b * 4096) 512 (flt_volatile d') = super_sector cp'"
      using slice_put_slice [of "?b * 4096" "super_sector cp'" "flt_volatile d"] assms(8,9) super_sector_length by simp
    finally show "take 220 (disk_block d' ?b) = take 220 (super_encode cp' (replicate 4096 0))" by (simp add: super_sector_def min_def)
    have "?b * 4096 + 4096 \<le> length (flt_volatile d')" using fits two len a(1) by (cases a) auto
    then show "220 \<le> length (disk_block d' ?b)" by (simp add: disk_block_def slice_length)
    show "220 \<le> length (super_encode cp' (replicate 4096 0))" using super_encode_length [of "replicate 4096 0" cp'] by simp
  qed
  then have copy: "copy_of d' ?b = Some cp'" using super_parse_encode [OF assms(2,3), of "replicate 4096 0"] by (simp add: copy_of_def)
  have arena: "arena_of d' cp' = arena_of d cp'"
    using other c a(1) by (intro ext) (auto simp: arena_of_def in_arena_def)
  have "shares cp' d d'"
  proof -
    have "rg_at (sp_region cp') * 4096 \<ge> ?b * 4096 + 512" using c a(1) by (cases a) auto
    then have "sub_slice (rg_at (sp_region cp') * 4096) (rg_bytes (sp_region cp')) (flt_volatile d')
        = sub_slice (rg_at (sp_region cp') * 4096) (rg_bytes (sp_region cp')) (flt_volatile d)"
      using assms(8,9) super_sector_length [of cp'] by (simp add: slice_put_after)
    moreover have "disk_block d' x = disk_block d x" if "x \<in> root_blocks (arena_of d cp') (sp_tree_root cp')" for x
      using that assms(6) c a(1) shaped_arena [of d cp' x] by (intro other) (auto simp: cp_sound_def in_arena_def)
    ultimately show ?thesis using len by (simp add: shares_def)
  qed
  moreover have "usable d cp'" using assms(4,6) fits by (simp add: usable_def)
  moreover have "copy_of d' (1 - ?b) = Some cp" using other [of a] a by (cases a) (auto simp: copy_of_def)
  ultimately show ?thesis
    using shares_usable(1) [of cp' d d'] copy arena assms(5,7) by (auto simp: image_holds_def)
qed

section \<open>Transactions ready to publish\<close>

text \<open>The checkpoint a transaction publishes.\<close>

definition next_super :: "super \<Rightarrow> transaction \<Rightarrow> nat \<Rightarrow> super" where
  "next_super cp t crc = cp\<lparr>sp_generation := sp_generation cp + 1, sp_tree_root := tx_root (tn_tree t),
     sp_region := \<lparr>rg_at = tn_at t, rg_bytes = tn_bytes t, rg_crc = crc\<rparr>\<rparr>"

lemma next_super_fields [simp]:
  "sp_generation (next_super cp t crc) = sp_generation cp + 1" "sp_tree_root (next_super cp t crc) = tx_root (tn_tree t)"
  "sp_region (next_super cp t crc) = \<lparr>rg_at = tn_at t, rg_bytes = tn_bytes t, rg_crc = crc\<rparr>"
  "sp_blocks (next_super cp t crc) = sp_blocks cp" "sp_root (next_super cp t crc) = sp_root cp"
  "sp_log_blocks (next_super cp t crc) = sp_log_blocks cp" "sp_tree_at (next_super cp t crc) = sp_tree_at cp"
  "sp_tree_blocks (next_super cp t crc) = sp_tree_blocks cp" "log_start (next_super cp t crc) = log_start cp"
  by (simp_all add: next_super_def log_start_def)

text \<open>
  What an open transaction keeps of the active checkpoint: its generation is the next, the nodes it
  protects are older and include the checkpoint's, and its bank is free or continues the checkpoint's
  and holds whole records.
\<close>

definition tx_follows :: "volume \<Rightarrow> node_arena \<Rightarrow> transaction \<Rightarrow> bool" where
  "tx_follows v V t \<longleftrightarrow> (let cp = vl_super v; tree = tn_tree t; region = sp_region cp in
     tx_generation tree = sp_generation cp + 1
     \<and> (\<forall>b \<in> protected_blocks tree. \<forall>n. V b = Some n \<longrightarrow> nd_generation n \<le> sp_generation cp)
     \<and> root_blocks V (sp_tree_root cp) \<subseteq> protected_blocks tree
     \<and> (\<exists>bank. log_bank cp bank = Inr (tn_at t)) \<and> tn_bytes t \<le> sp_log_blocks cp * 4096
     \<and> (tn_at t = rg_at region \<longrightarrow> rg_bytes region \<le> tn_bytes t)
     \<and> (\<exists>crc. log_sum (vl_disk v) \<lparr>rg_at = tn_at t, rg_bytes = tn_bytes t, rg_crc = 0\<rparr> = Inr crc))"

definition jn_durable :: "journal \<Rightarrow> (key \<times> byte list) list \<Rightarrow> bool" where
  "jn_durable j kvs \<longleftrightarrow> (let s = jn_store j; v = st_vol s; V = node_at s in durable v kvs \<and>
     (case jn_tx j of
        None \<Rightarrow> \<forall>root. vl_prev_tree v = Some root \<longrightarrow> (\<forall>b \<in> root_blocks V root. \<forall>n. V b = Some n \<longrightarrow> nd_generation n \<le> sp_generation (vl_super v))
      | Some t \<Rightarrow> tx_follows v V t))"

lemma published_root_in: "tree_published V root kvs \<Longrightarrow> root \<noteq> 0 \<Longrightarrow> \<exists>n. V root = Some n"
  by (cases "root_level V root") (auto simp: tree_published_def tree_ok.simps)

lemma durable_checks:
  assumes "durable v kvs"
  shows "super_check (vl_super v) = Inr ()" "super_wf (vl_super v)" "vl_active v < 2"
proof -
  have "copy_of (vl_disk v) (vl_active v) = Some (vl_super v)" "vl_active v < 2" using assms by (simp_all add: durable_def image_holds_def)
  then show "super_check (vl_super v) = Inr ()" "super_wf (vl_super v)" "vl_active v < 2"
    using super_parse_Inr [of "disk_block (vl_disk v) (vl_active v)" "vl_super v"] by (auto simp: copy_of_def split: sum.splits)
qed

lemma next_super_ok:
  assumes "tx_holds (tn_tree t) s kvs" and "durable (st_vol s) kvs0" and "tx_follows (st_vol s) (node_at s) t"
    and "sp_generation (vl_super (st_vol s)) + 1 < u64_limit" and "crc < 2 ^ 32"
  shows "super_wf (next_super (vl_super (st_vol s)) t crc)" "super_check (next_super (vl_super (st_vol s)) t crc) = Inr ()"
proof -
  let ?cp = "vl_super (st_vol s)" and ?n = "next_super (vl_super (st_vol s)) t crc"
  note c = durable_checks [OF assms(2)]
  note k = c(1) [unfolded super_check_iff]
  obtain bank where bank: "log_bank ?cp bank = Inr (tn_at t)" using assms(3) by (auto simp: tx_follows_def Let_def)
  then have at: "bank < 3" "tn_at t = log_start ?cp + bank * sp_log_blocks ?cp"
    using k by (auto simp: log_bank_def LOG_BANKS_def log_start_def checked_mul_def split: if_splits)
  have bytes: "tn_bytes t \<le> sp_log_blocks ?cp * 4096" using assms(3) by (auto simp: tx_follows_def Let_def)
  have root: "tx_root (tn_tree t) = 0 \<or> tx_root (tn_tree t) \<in> {sp_tree_at ?cp ..< sp_tree_at ?cp + sp_tree_blocks ?cp}"
    using published_root_in [OF tx_holds_root [OF assms(1)]] node_at_in_arena [of s] by (fastforce simp: in_arena_def)
  have blocks: "(tn_bytes t + 4096 - 1) div 4096 \<le> sp_log_blocks ?cp" using bytes by linarith
  have "Suc bank * sp_log_blocks ?cp \<le> 3 * sp_log_blocks ?cp" using at(1) by (intro mult_le_mono1) simp
  then have fits: "tn_at t + sp_log_blocks ?cp \<le> sp_blocks ?cp" using at(2) k unfolding log_start_def mult_Suc by linarith
  have big: "sp_blocks ?cp < 2 ^ 64" "2 \<le> log_start ?cp" "sp_tree_root ?cp < 2 ^ 64" using c(2) k by (auto simp: super_wf_def)
  have lb: "sp_log_blocks ?cp * 4096 < 2 ^ 64" using k by (simp add: BLOCK_def)
  show "super_wf ?n"
    using c(2) assms(4,5) root fits big lb bytes k unfolding super_wf_def by auto
  have "tn_at t + (tn_bytes t + 4096 - 1) div 4096 \<le> sp_blocks ?cp" "2 \<le> tn_at t" using fits blocks at(2) big(2) by linarith+
  then show "super_check ?n = Inr ()"
    unfolding super_check_iff using k root at bytes big(1) by (auto simp: region_blocks_def BLOCK_def)
qed

lemma next_super_sound:
  assumes "tx_holds (tn_tree t) s kvs" and "tx_follows (st_vol s) (node_at s) t" and "tx_root (tn_tree t) \<notin> protected_blocks (tn_tree t)"
    and "V = arena_of (vl_disk (st_vol s)) (next_super (vl_super (st_vol s)) t crc)"
  shows "V = node_at s" "tree_sound (vl_disk (st_vol s)) (next_super (vl_super (st_vol s)) t crc)"
    "tree_published V (tx_root (tn_tree t)) kvs"
proof -
  let ?cp = "vl_super (st_vol s)" and ?t = "tn_tree t"
  have "in_arena (next_super ?cp t crc) = in_arena ?cp" by (rule ext) (simp add: in_arena_def)
  then show V: "V = node_at s" unfolding assms(4) node_at_arena_of by (intro ext) (simp add: arena_of_def)
  show pub: "tree_published V (tx_root ?t) kvs" using tx_holds_root [OF assms(1)] V by simp
  have gen: "tx_generation ?t = sp_generation ?cp + 1" "\<forall>b \<in> protected_blocks ?t. \<forall>n. V b = Some n \<longrightarrow> nd_generation n \<le> sp_generation ?cp"
    using assms(2) V by (auto simp: tx_follows_def Let_def)
  have fresh: "nd_generation n = sp_generation ?cp + 1" if "b \<in> root_blocks V (tx_root ?t)" "b \<notin> protected_blocks ?t" "V b = Some n" for b n
    using that assms(1) gen(1) V by (auto simp: tx_holds_def fresh_nodes_def)
  have "tree_dated V (sp_generation ?cp + 1) (tx_root ?t)"
    unfolding tree_dated_def using fresh gen(2) assms(3) by (metis le_SucI Suc_eq_plus1 le_refl)
  then show "tree_sound (vl_disk (st_vol s)) (next_super ?cp t crc)"
    unfolding tree_sound_iff assms(4) [symmetric] using published_shaped [OF pub] by auto
qed

section \<open>The steps of a sync\<close>

lemma reboot_cong: "flt_stable d' = flt_stable d \<Longrightarrow> reboot d' = reboot d"
  by (simp add: reboot_def)

lemma image_flushed: "flt_stable d' = flt_volatile d \<Longrightarrow> image_holds (reboot d') a cp kvs = image_holds d a cp kvs"
  by (rule image_cong) (simp add: reboot_def)

lemma tx_region_fits:
  assumes "durable v kvs0" and "tx_follows v V t"
  shows "tn_at t * 4096 + tn_bytes t \<le> sp_blocks (vl_super v) * 4096"
proof -
  let ?cp = "vl_super v"
  note k = durable_checks(1) [OF assms(1), unfolded super_check_iff]
  obtain bank where "log_bank ?cp bank = Inr (tn_at t)" using assms(2) by (auto simp: tx_follows_def Let_def)
  then have at: "bank < 3" "tn_at t = log_start ?cp + bank * sp_log_blocks ?cp"
    using k by (auto simp: log_bank_def LOG_BANKS_def log_start_def checked_mul_def split: if_splits)
  have "Suc bank * sp_log_blocks ?cp \<le> 3 * sp_log_blocks ?cp" using at(1) by (intro mult_le_mono1) simp
  then have "tn_at t + sp_log_blocks ?cp \<le> sp_blocks ?cp" using at(2) k unfolding log_start_def mult_Suc by linarith
  moreover have "tn_bytes t \<le> sp_log_blocks ?cp * 4096" using assms(2) by (auto simp: tx_follows_def Let_def)
  ultimately show ?thesis by linarith
qed

text \<open>The writes of a sync, on the volume; the checksum is read first.\<close>

definition publish :: "nat \<Rightarrow> super \<Rightarrow> (volume, fs_error, unit) eff" where
  "publish copy cp = and_then vol_flush (\<lambda>_. and_then (write_checkpoint copy cp) (\<lambda>_. vol_flush))"

lemma publish_cases:
  assumes "vol_ok v" and "copy < 2" and "publish copy cp v = (r, v')"
  obtains (refused) e where "r = Inl e" "flt_stable (vl_disk v') = flt_stable (vl_disk v) \<or> flt_stable (vl_disk v') = flt_volatile (vl_disk v)"
      "powered (vl_disk v) \<Longrightarrow> length (flt_volatile (vl_disk v)) < copy * 4096 + 512"
  | (published) "r = Inr ()" "vol_ok v'" "vol_meta v v'" "flt_stable (vl_disk v') = flt_volatile (vl_disk v')"
      "flt_volatile (vl_disk v') = put_slice (copy * 4096) (super_sector cp) (flt_volatile (vl_disk v))"
      "copy * 4096 + 512 \<le> length (flt_volatile (vl_disk v))"
proof -
  obtain r1 v1 where f1: "vol_flush v = (r1, v1)" by fastforce
  obtain r2 v2 where w: "write_checkpoint copy cp v1 = (r2, v2)" by fastforce
  obtain r3 v3 where f2: "vol_flush v2 = (r3, v3)" by fastforce
  note c1 = vol_flush_cases [OF assms(1) f1]
  note c2 = write_checkpoint_cases [OF c1(1) assms(2) w]
  note c3 = vol_flush_cases [OF c2(1) f2]
  consider "isl r1" | "\<not> isl r1" "isl r2" | "\<not> isl r1" "\<not> isl r2" "isl r3" | "\<not> isl r1" "\<not> isl r2" "\<not> isl r3" by blast
  then show thesis
  proof cases
    case 1
    then show thesis using refused assms(3) f1 c1(4,5) by (auto simp: publish_def and_then_def isl_def) blast
  next
    case 2
    then show thesis using refused assms(3) f1 w c1(3-5) c2(3,6) by (cases r1; cases r2) (auto simp: publish_def and_then_def, meson not_le)
  next
    case 3
    then show thesis using refused assms(3) f1 w f2 c1(3-5) c2(3,6) c3(4,5) by (cases r1; cases r2; cases r3) (auto simp: publish_def and_then_def, meson not_le)
  next
    case 4
    then have r: "r = Inr ()" "v' = v3" using assms(3) f1 w f2 by (cases r1; cases r2; cases r3; auto simp: publish_def and_then_def)+
    have "vol_meta v v'" using vol_meta_trans [OF c1(2) vol_meta_trans [OF c2(2) c3(2)]] r by simp
    then show thesis using published r 4 c1(3) c2(4,5) c3(1,3,4) by simp
  qed
qed

lemma jn_sync_run:
  assumes "jn_holds j kvs" and "jn_tx j = Some t" and "jn_durable j kvs0" and "v = st_vol (jn_store j)"
  obtains v1 where "vol_same v v1"
    and "jn_sync j = (case log_sum (vl_disk v) \<lparr>rg_at = tn_at t, rg_bytes = tn_bytes t, rg_crc = 0\<rparr> of
        Inl e \<Rightarrow> (Inl e, j\<lparr>jn_store := (jn_store j)\<lparr>st_vol := v1\<rparr>\<rparr>)
      | Inr crc \<Rightarrow>
          if u64_limit \<le> sp_generation (vl_super v) + 1 then (Inl FsFull, j\<lparr>jn_store := (jn_store j)\<lparr>st_vol := v1\<rparr>\<rparr>)
          else (case publish (1 - vl_active v) (next_super (vl_super v) t (unat crc)) v1 of
             (Inl e, v2) \<Rightarrow> (Inl e, j\<lparr>jn_store := (jn_store j)\<lparr>st_vol := v2\<rparr>\<rparr>)
           | (Inr _, v2) \<Rightarrow> (Inr (sp_generation (vl_super v) + 1),
               j\<lparr>jn_store := (jn_store j)\<lparr>st_vol := vol_commit (1 - vl_active v) (next_super (vl_super v) t (unat crc)) v2\<rparr>, jn_tx := None\<rparr>)))"
proof -
  let ?region = "\<lparr>rg_at = tn_at t, rg_bytes = tn_bytes t, rg_crc = 0\<rparr>"
  have ok: "vol_ok v" using jn_holds_root(1) [OF assms(1)] assms(4) by (simp add: store_ok_def)
  have d: "durable v kvs0" "tx_follows v (node_at (jn_store j)) t" using assms(2-4) by (simp_all add: jn_durable_def Let_def)
  obtain v1 where log: "log_checksum ?region v = (log_sum (vl_disk v) ?region, v1)" "vol_same v v1"
    using log_checksum_from_sum [OF ok, of ?region 0 crc_new] tx_region_fits [OF d] by (auto simp: log_checksum_def log_sum_def)
  have m: "vl_super v1 = vl_super v" "vl_active v1 = vl_active v" using vol_same_meta [OF log(2)] by (simp_all add: vol_meta_def)
  show thesis
    by (rule that [OF log(2)])
      (use assms(2,4) log(1) m in \<open>auto simp: jn_sync_def on_volume_def on_tree_def and_then_def publish_def jn_checkpoint_def
         next_super_def Let_def split: sum.splits prod.splits\<close>)
qed

lemma log_sum_crc: "log_sum d \<lparr>rg_at = a, rg_bytes = m, rg_crc = x\<rparr> = log_sum d \<lparr>rg_at = a, rg_bytes = m, rg_crc = y\<rparr>"
proof -
  have "log_sum_from d \<lparr>rg_at = a, rg_bytes = m, rg_crc = x\<rparr> c k = log_sum_from d \<lparr>rg_at = a, rg_bytes = m, rg_crc = y\<rparr> c k" for c k
  proof (induction "m - c" arbitrary: c k rule: less_induct)
    case less
    then show ?case
      by (subst (1 2) log_sum_from.simps) (auto simp: Let_def dest: record_span_positive split: sum.splits)
  qed
  then show ?thesis by (simp add: log_sum_def)
qed

lemma publish_image:
  assumes "tx_holds (tn_tree t) s kvs" and "durable (st_vol s) kvs0" and "tx_follows (st_vol s) (node_at s) t"
    and "tx_root (tn_tree t) \<notin> protected_blocks (tn_tree t)"
    and "log_sum (vl_disk (st_vol s)) \<lparr>rg_at = tn_at t, rg_bytes = tn_bytes t, rg_crc = 0\<rparr> = Inr crc"
    and "sp_generation (vl_super (st_vol s)) + 1 < u64_limit"
    and "cp = next_super (vl_super (st_vol s)) t (unat crc)" and "b = 1 - vl_active (st_vol s)"
    and "flt_volatile d = put_slice (b * 4096) (super_sector cp) (flt_volatile (vl_disk (st_vol s)))"
    and "b * 4096 + 512 \<le> length (flt_volatile (vl_disk (st_vol s)))"
  shows "image_holds d b cp kvs"
proof -
  have crc: "unat crc < 2 ^ 32" using unsigned_less [of crc, where ?'a = nat] by simp
  note n = next_super_sound [OF assms(1,3,4) refl, of "unat crc"]
  have "log_sum (vl_disk (st_vol s)) (sp_region cp) = Inr crc" using assms(5,7) log_sum_crc [of _ _ _ "unat crc" 0] by simp
  then have "cp_sound (vl_disk (st_vol s)) cp" using n(2) assms(7) by (simp add: cp_sound_def)
  then show ?thesis
    using image_new [of "vl_disk (st_vol s)" "vl_active (st_vol s)" "vl_super (st_vol s)" kvs0 cp kvs d] assms(2,7-10) n(3)
      next_super_ok [OF assms(1-3,6) crc] by (simp add: durable_def)
qed

lemma jn_sync_cases:
  assumes "jn_holds j kvs" and "jn_tx j = Some t" and "jn_durable j kvs0" and "jn_sync j = (r, j')" and "v = st_vol (jn_store j)"
  obtains (refused) e where "r = Inl e" "image_holds (reboot (vl_disk (st_vol (jn_store j')))) (vl_active v) (vl_super v) kvs0"
      "length (flt_stable (vl_disk (st_vol (jn_store j')))) = length (flt_volatile (vl_disk v))"
  | (published) crc v2 where "r = Inr (sp_generation (vl_super v) + 1)"
      "log_sum (vl_disk v) \<lparr>rg_at = tn_at t, rg_bytes = tn_bytes t, rg_crc = 0\<rparr> = Inr crc" "sp_generation (vl_super v) + 1 < u64_limit"
      "j' = j\<lparr>jn_store := (jn_store j)\<lparr>st_vol := vol_commit (1 - vl_active v) (next_super (vl_super v) t (unat crc)) v2\<rparr>, jn_tx := None\<rparr>"
      "vol_ok v2" "vol_meta v v2" "flt_stable (vl_disk v2) = flt_volatile (vl_disk v2)"
      "flt_volatile (vl_disk v2) = put_slice ((1 - vl_active v) * 4096) (super_sector (next_super (vl_super v) t (unat crc))) (flt_volatile (vl_disk v))"
      "(1 - vl_active v) * 4096 + 512 \<le> length (flt_volatile (vl_disk v))"
proof -
  let ?region = "\<lparr>rg_at = tn_at t, rg_bytes = tn_bytes t, rg_crc = 0\<rparr>"
  have d: "durable v kvs0" "tx_follows v (node_at (jn_store j)) t" using assms(2,3,5) by (simp_all add: jn_durable_def Let_def)
  have ok: "vol_ok v" using jn_holds_root(1) [OF assms(1)] assms(5) by (simp add: store_ok_def)
  obtain v1 where same: "vol_same v v1" and run: "jn_sync j = (case log_sum (vl_disk v) ?region of
        Inl e \<Rightarrow> (Inl e, j\<lparr>jn_store := (jn_store j)\<lparr>st_vol := v1\<rparr>\<rparr>)
      | Inr crc \<Rightarrow>
          if u64_limit \<le> sp_generation (vl_super v) + 1 then (Inl FsFull, j\<lparr>jn_store := (jn_store j)\<lparr>st_vol := v1\<rparr>\<rparr>)
          else (case publish (1 - vl_active v) (next_super (vl_super v) t (unat crc)) v1 of
             (Inl e, v2) \<Rightarrow> (Inl e, j\<lparr>jn_store := (jn_store j)\<lparr>st_vol := v2\<rparr>\<rparr>)
           | (Inr _, v2) \<Rightarrow> (Inr (sp_generation (vl_super v) + 1),
               j\<lparr>jn_store := (jn_store j)\<lparr>st_vol := vol_commit (1 - vl_active v) (next_super (vl_super v) t (unat crc)) v2\<rparr>, jn_tx := None\<rparr>)))"
    using jn_sync_run [OF assms(1-3,5)] .
  have v1: "vl_disk v1 = vl_disk v" "vol_ok v1" "vol_meta v v1" using vol_same_fields [OF same] vol_same_meta [OF same] ok by simp_all
  obtain crc where crc: "log_sum (vl_disk v) ?region = Inr crc" using d(2) by (auto simp: tx_follows_def Let_def)
  have old: thesis if "r = Inl e" "flt_stable (vl_disk (st_vol (jn_store j'))) = flt_stable (vl_disk v)
      \<or> flt_stable (vl_disk (st_vol (jn_store j'))) = flt_volatile (vl_disk v)" for e
  proof (rule refused [OF that(1)])
    let ?d = "vl_disk (st_vol (jn_store j'))"
    show "image_holds (reboot ?d) (vl_active v) (vl_super v) kvs0" "length (flt_stable ?d) = length (flt_volatile (vl_disk v))"
      using that(2) d(1) image_flushed [of ?d "vl_disk v"] reboot_cong [of ?d "vl_disk v"] by (auto simp: durable_def)
  qed
  show thesis
  proof (cases "u64_limit \<le> sp_generation (vl_super v) + 1")
    case True
    then show thesis using run crc assms(4) old v1(1) by auto
  next
    case False
    let ?b = "1 - vl_active v" and ?cp = "next_super (vl_super v) t (unat crc)"
    obtain q v2 where p: "publish ?b ?cp v1 = (q, v2)" by fastforce
    have b: "?b < 2" by simp
    show thesis
    proof (cases rule: publish_cases [OF v1(2) b p])
      case (1 e)
      then show thesis using run crc False p assms(4) old [of e] v1(1) by auto
    next
      case 2
      then show thesis using published [of crc v2] run crc False p assms(4) v1 vol_meta_trans by auto
    qed
  qed
qed

text \<open>The volume a sync commits, and the nodes it still has.\<close>

lemma jn_committed:
  assumes "durable v kvs0" and "vol_ok v2" and "vol_meta v v2" and "s' = s\<lparr>st_vol := vol_commit (1 - vl_active v) (next_super (vl_super v) t c) v2\<rparr>"
    and "flt_volatile (vl_disk v2) = put_slice ((1 - vl_active v) * 4096) (super_sector (next_super (vl_super v) t c)) (flt_volatile (vl_disk v))"
    and "(1 - vl_active v) * 4096 + 512 \<le> length (flt_volatile (vl_disk v))" and "v = st_vol s"
  shows "vl_disk (st_vol s') = vl_disk v2" "vl_super (st_vol s') = next_super (vl_super v) t c" "vl_active (st_vol s') = 1 - vl_active v"
    "vl_prev_tree (st_vol s') = (if sp_tree_root (vl_super v) \<noteq> 0 then Some (sp_tree_root (vl_super v)) else None)"
    "vol_ok (st_vol s')" "node_at s' = node_at s"
proof -
  let ?w = "vol_stale 0 (u64_limit - 1) v2" and ?b = "1 - vl_active v" and ?cp = "next_super (vl_super v) t c"
  note stale = vol_stale_same(1,2) [OF assms(2), where lo = 0 and hi = "u64_limit - 1"]
  have w: "vl_disk ?w = vl_disk v2" "vl_super ?w = vl_super v" using vol_same_fields [OF stale(1)] assms(3) by (simp_all add: vol_meta_def)
  show fields: "vl_disk (st_vol s') = vl_disk v2" "vl_super (st_vol s') = ?cp" "vl_active (st_vol s') = ?b"
    "vl_prev_tree (st_vol s') = (if sp_tree_root (vl_super v) \<noteq> 0 then Some (sp_tree_root (vl_super v)) else None)"
    using w by (simp_all add: assms(4) vol_commit_def Let_def)
  show "vol_ok (st_vol s')" using stale(2) w(2) by (simp add: assms(4) vol_commit_def vol_ok_def Let_def)
  show "node_at s' = node_at s"
  proof
    fix x
    have "disk_block (vl_disk v2) x = disk_block (vl_disk v) x" if "in_arena (vl_super v) x"
    proof (rule disk_block_put [of "?b * 4096" "super_sector ?cp" _ _ ?b "?b + 1"])
      show "x < ?b \<or> ?b + 1 \<le> x"
        using that durable_checks(1) [OF assms(1), unfolded super_check_iff] by (auto simp: in_arena_def)
    qed (use assms(5,6) super_sector_length in auto)
    then show "node_at s' x = node_at s x" using fields(1,2) assms(7) by (simp add: node_at_def in_arena_def)
  qed
qed

lemma jn_sync_image:
  assumes "jn_holds j kvs" and "jn_tx j = Some t" and "jn_durable j kvs0" and "tx_root (tn_tree t) \<notin> protected_blocks (tn_tree t)"
    and "jn_sync j = (r, j')" and "v = st_vol (jn_store j)" and "v' = st_vol (jn_store j')"
  shows "case r of
      Inl _ \<Rightarrow> image_holds (reboot (vl_disk v')) (vl_active v) (vl_super v) kvs0
        \<and> length (flt_stable (vl_disk v')) = length (flt_volatile (vl_disk v))
    | Inr g \<Rightarrow> g = sp_generation (vl_super v) + 1 \<and> jn_tx j' = None \<and> durable v' kvs \<and> vol_ok v' \<and> st_cache (jn_store j') = st_cache (jn_store j)
        \<and> (\<exists>crc. vl_super v' = next_super (vl_super v) t crc) \<and> node_at (jn_store j') = node_at (jn_store j)
        \<and> vl_prev_tree v' = (if sp_tree_root (vl_super v) \<noteq> 0 then Some (sp_tree_root (vl_super v)) else None)"
proof (cases rule: jn_sync_cases [OF assms(1-3,5,6)])
  case (1 e)
  then show ?thesis using assms(7) by simp
next
  case (2 crc v2)
  have h: "tx_holds (tn_tree t) (jn_store j) kvs" using assms(1,2) by (simp add: jn_holds_def)
  have d: "durable v kvs0" "tx_follows v (node_at (jn_store j)) t" using assms(2,3,6) by (simp_all add: jn_durable_def Let_def)
  note c = jn_committed [OF d(1) 2(5,6) _ 2(8,9) assms(6), of "jn_store j'"]
  have "image_holds (vl_disk v2) (1 - vl_active v) (next_super (vl_super v) t (unat crc)) kvs"
    using publish_image [OF h _ _ assms(4), of kvs0 crc _ _ "vl_disk v2"] d 2(2,3,8,9) assms(6) by simp
  then have "durable v' kvs" using 2(4,7) c(1-3) image_flushed [of "vl_disk v2" "vl_disk v2"] assms(7) by (simp add: durable_def)
  then show ?thesis using 2(1,4) c assms(6,7) by auto
qed

text \<open>
  A transaction that never wrote keeps the root of the checkpoint, whose node is older than the next
  generation: the copy its sync publishes is one no mount accepts.
\<close>

text \<open>
  C40. A sync of a transaction that still has the root of the published checkpoint reports
  success, but the superblock copy it publishes is not one a mount accepts, because the root
  node is older than the generation it is published under.
\<close>

theorem sync_untouched_unusable:
  assumes "jn_holds j kvs" and "jn_durable j kvs0" and "jn_tx j = Some t"
    and "tx_root (tn_tree t) = sp_tree_root (jn_checkpoint j)" and "sp_tree_root (jn_checkpoint j) \<noteq> 0"
    and "jn_sync j = (Inr g, j')"
  shows "\<not> usable (vl_disk (st_vol (jn_store j'))) (jn_checkpoint j')"
proof (cases rule: jn_sync_cases [OF assms(1,3,2,6) refl])
  case (2 crc v2)
  let ?v = "st_vol (jn_store j)" and ?V = "node_at (jn_store j)" and ?root = "sp_tree_root (jn_checkpoint j)"
  have d: "durable ?v kvs0" "tx_follows ?v ?V t" using assms(2,3) by (simp_all add: jn_durable_def Let_def)
  note c = jn_committed [OF d(1) 2(5,6) _ 2(8,9) refl, of "jn_store j'"]
  have cp: "jn_checkpoint j' = next_super (jn_checkpoint j) t (unat crc)" and V: "node_at (jn_store j') = ?V"
    using c(2,6) 2(4) by (simp_all add: jn_checkpoint_def)
  obtain n where n: "?V ?root = Some n"
    using published_root_in [OF jn_holds_root(2) [OF assms(1)]] assms(3-5) by (auto simp: jn_tree_root_def)
  have top: "?root \<in> root_blocks ?V ?root" using assms(5) tree_root_block by (simp add: root_blocks_def)
  then have "nd_generation n \<le> sp_generation (jn_checkpoint j)"
    using d(2) n by (auto simp: tx_follows_def Let_def jn_checkpoint_def)
  then have "\<not> tree_dated ?V (sp_generation (jn_checkpoint j')) ?root"
    using n top cp by (fastforce simp: tree_dated_def)
  then show ?thesis
    using assms(4,5) cp V by (auto simp: usable_def cp_sound_def tree_sound_iff node_at_arena_of jn_checkpoint_def)
qed simp

section \<open>A sync and the power\<close>

lemma jn_synced:
  assumes "jn_holds j kvs" and "jn_durable j kvs0" and "jn_dirty j" and "jn_sync j = (Inr g, j')"
  shows "g = sp_generation (jn_checkpoint j) + 1" "sp_generation (jn_checkpoint j') = g" "jn_tx j' = None" "jn_holds j' kvs" "jn_durable j' kvs"
proof -
  obtain t where t: "jn_tx j = Some t" "tx_root (tn_tree t) \<notin> protected_blocks (tn_tree t)"
    using assms(3) by (auto simp: jn_dirty_def split: option.splits)
  let ?v = "st_vol (jn_store j)" and ?v' = "st_vol (jn_store j')" and ?V = "node_at (jn_store j)"
  note im = jn_sync_image [OF assms(1) t(1) assms(2) t(2) assms(4) refl refl, simplified]
  show g: "g = sp_generation (jn_checkpoint j) + 1" and tx: "jn_tx j' = None" using im by (simp_all add: jn_checkpoint_def)
  obtain crc where sp: "vl_super ?v' = next_super (vl_super ?v) t crc" using im by blast
  then show "sp_generation (jn_checkpoint j') = g" using g by (simp add: jn_checkpoint_def)
  have follows: "tx_follows ?v ?V t" and sound: "tree_sound (vl_disk ?v) (vl_super ?v)"
    using assms(2) t(1) by (simp_all add: jn_durable_def durable_def image_holds_def usable_def cp_sound_def Let_def)
  have h: "store_ok (jn_store j)" "tree_published ?V (tx_root (tn_tree t)) kvs"
    using jn_holds_root [OF assms(1)] t(1) by (simp_all add: jn_tree_root_def)
  have V: "node_at (jn_store j') = ?V" and "st_cache (jn_store j') = st_cache (jn_store j)" using im by blast+
  then have "store_ok (jn_store j')" using h(1) im sp V by (simp add: store_ok_def arena_fits_def)
  moreover have "shaped ?V root" if "vl_prev_tree ?v' = Some root" for root
    using that im sound by (auto simp: tree_sound_iff node_at_arena_of split: if_splits)
  ultimately show "jn_holds j' kvs" using tx V h(2) sp by (simp add: jn_holds_def jn_checkpoint_def)
  have "nd_generation n \<le> g" if "vl_prev_tree ?v' = Some root" "b \<in> root_blocks ?V root" "?V b = Some n" for root b n
    using that im follows g by (fastforce simp: tx_follows_def Let_def jn_checkpoint_def split: if_splits)
  then show "jn_durable j' kvs" using im tx V sp g by (simp add: jn_durable_def jn_checkpoint_def Let_def)
qed


text \<open>A sync the device does not refuse publishes, until the generations run out.\<close>

lemma jn_sync_live:
  assumes "jn_holds j kvs" and "jn_durable j kvs0" and "jn_tx j = Some t" and "powered (vl_disk (st_vol (jn_store j)))"
    and "sp_generation (jn_checkpoint j) + 1 < u64_limit"
  obtains j' where "jn_sync j = (Inr (sp_generation (jn_checkpoint j) + 1), j')"
proof -
  let ?v = "st_vol (jn_store j)"
  note t = assms(3)
  have d: "durable ?v kvs0" "tx_follows ?v (node_at (jn_store j)) t" using assms(2) t by (simp_all add: jn_durable_def Let_def)
  have ok: "vol_ok ?v" using jn_holds_root(1) [OF assms(1)] by (simp add: store_ok_def)
  have "2 \<le> sp_blocks (vl_super ?v)" using durable_checks(1) [OF d(1), unfolded super_check_iff] unfolding log_start_def by linarith
  then have "2 * 4096 \<le> length (flt_volatile (vl_disk ?v))" using ok unfolding vol_ok_def by linarith
  then have fits: "(1 - vl_active ?v) * 4096 + 512 \<le> length (flt_volatile (vl_disk ?v))" by (cases "vl_active ?v") simp_all
  obtain crc where crc: "log_sum (vl_disk ?v) \<lparr>rg_at = tn_at t, rg_bytes = tn_bytes t, rg_crc = 0\<rparr> = Inr crc"
    using d(2) by (auto simp: tx_follows_def Let_def)
  show thesis
  proof (rule jn_sync_run [OF assms(1) t assms(2) refl])
    fix v1
    let ?b = "1 - vl_active ?v" and ?cp = "next_super (vl_super ?v) t (unat crc)"
    assume same: "vol_same ?v v1" and run: "jn_sync j = (case log_sum (vl_disk ?v) \<lparr>rg_at = tn_at t, rg_bytes = tn_bytes t, rg_crc = 0\<rparr> of
        Inl e \<Rightarrow> (Inl e, j\<lparr>jn_store := (jn_store j)\<lparr>st_vol := v1\<rparr>\<rparr>)
      | Inr crc \<Rightarrow>
          if u64_limit \<le> sp_generation (vl_super ?v) + 1 then (Inl FsFull, j\<lparr>jn_store := (jn_store j)\<lparr>st_vol := v1\<rparr>\<rparr>)
          else (case publish (1 - vl_active ?v) (next_super (vl_super ?v) t (unat crc)) v1 of
             (Inl e, v2) \<Rightarrow> (Inl e, j\<lparr>jn_store := (jn_store j)\<lparr>st_vol := v2\<rparr>\<rparr>)
           | (Inr _, v2) \<Rightarrow> (Inr (sp_generation (vl_super ?v) + 1),
               j\<lparr>jn_store := (jn_store j)\<lparr>st_vol := vol_commit (1 - vl_active ?v) (next_super (vl_super ?v) t (unat crc)) v2\<rparr>, jn_tx := None\<rparr>)))"
    have v1: "vol_ok v1" "vl_disk v1 = vl_disk ?v" using vol_same_fields [OF same] ok by simp_all
    obtain q v2 where p: "publish ?b ?cp v1 = (q, v2)" by fastforce
    have b: "?b < 2" by simp
    show thesis
      by (cases rule: publish_cases [OF v1(1) b p])
        (use that run crc p fits v1(2) assms(4,5) in \<open>auto simp: jn_checkpoint_def\<close>)
  qed
qed

end
