(* ===== verification/Fs_Crash.thy ===== *)
theory Fs_Crash
  imports Fs_Names Fs_Sync
begin

text \<open>
  What the operations between two syncs leave on the disk. Every mutation writes only free tree blocks
  and the tail of a bank, so whenever the power fails the mount finds what the last sync published.
  A cut device refuses everything after the cut, so the state an operation leaves when it is refused
  covers every moment within it.
\<close>

section \<open>What a transaction may write\<close>

lemma blocks_slice:
  assumes "\<And>x. a \<le> x \<Longrightarrow> x < b \<Longrightarrow> disk_block d' x = disk_block d x" and "n \<le> (b - a) * 4096"
    and "length (flt_volatile d') = length (flt_volatile d)"
  shows "sub_slice (a * 4096) n (flt_volatile d') = sub_slice (a * 4096) n (flt_volatile d)"
proof (rule nth_equalityI)
  show "length (sub_slice (a * 4096) n (flt_volatile d')) = length (sub_slice (a * 4096) n (flt_volatile d))"
    using assms(3) by (simp add: sub_slice_def)
  fix i
  assume "i < length (sub_slice (a * 4096) n (flt_volatile d'))"
  then have i: "i < n" "a * 4096 + i < length (flt_volatile d')" by (auto simp: sub_slice_def)
  let ?x = "a + i div 4096"
  have "i < (b - a) * 4096" using i(1) assms(2) by linarith
  then have "i div 4096 < b - a" by (simp add: less_mult_imp_div_less)
  then have eq: "disk_block d' ?x = disk_block d ?x" using assms(1) by simp
  have at: "?x * 4096 + i mod 4096 = a * 4096 + i" by (simp add: algebra_simps)
  have nth: "disk_block e ?x ! (i mod 4096) = flt_volatile e ! (a * 4096 + i)" if "a * 4096 + i < length (flt_volatile e)" for e
    using that at by (simp add: disk_block_def sub_slice_def add.commute)
  show "sub_slice (a * 4096) n (flt_volatile d') ! i = sub_slice (a * 4096) n (flt_volatile d) ! i"
    using nth [of d] nth [of d'] eq i assms(3) by (simp add: sub_slice_def)
qed

definition crash_frame :: "nat set \<Rightarrow> volume \<Rightarrow> volume \<Rightarrow> bool" where
  "crash_frame P v v' \<longleftrightarrow> vol_meta v v' \<and> flt_stable (vl_disk v') = flt_stable (vl_disk v)
     \<and> length (flt_volatile (vl_disk v')) = length (flt_volatile (vl_disk v))
     \<and> (\<forall>x \<in> P \<union> {0, 1}. disk_block (vl_disk v') x = disk_block (vl_disk v) x)
     \<and> (let region = sp_region (vl_super v) in
        sub_slice (rg_at region * 4096) (rg_bytes region) (flt_volatile (vl_disk v'))
          = sub_slice (rg_at region * 4096) (rg_bytes region) (flt_volatile (vl_disk v)))"

lemma durable_frame:
  assumes "durable v kvs" and "crash_frame P v v'" and "root_blocks (arena_of (vl_disk v) (vl_super v)) (sp_tree_root (vl_super v)) \<subseteq> P"
  shows "durable v' kvs"
proof -
  have m: "vl_super v' = vl_super v" "vl_active v' = vl_active v" using assms(2) by (simp_all add: crash_frame_def vol_meta_def)
  have "shares (vl_super v) (vl_disk v) (vl_disk v')" using assms(2,3) by (auto simp: shares_def crash_frame_def Let_def)
  then have "image_holds (vl_disk v') (vl_active v) (vl_super v) kvs"
    using image_shares [of "vl_disk v" "vl_active v" "vl_super v" kvs "vl_disk v'"] assms(1,2) by (simp add: durable_def crash_frame_def)
  then show ?thesis using assms(1,2) reboot_cong [of "vl_disk v'" "vl_disk v"] by (simp add: durable_def crash_frame_def m)
qed

lemma jn_durable_frame:
  assumes "jn_durable j kvs" and "jn_tx j = Some t" and "crash_frame (protected_blocks (tn_tree t)) (st_vol (jn_store j)) (st_vol (jn_store j'))"
    and "jn_tx j' = Some t'" and "tx_kept (tn_tree t) (tn_tree t')" and "tn_at t' = tn_at t"
    and "tn_bytes t \<le> tn_bytes t'" and "tn_bytes t' \<le> sp_log_blocks (jn_checkpoint j) * 4096"
    and "\<exists>crc. log_sum (vl_disk (st_vol (jn_store j'))) \<lparr>rg_at = tn_at t', rg_bytes = tn_bytes t', rg_crc = 0\<rparr> = Inr crc"
  shows "jn_durable j' kvs"
proof -
  let ?v = "st_vol (jn_store j)" and ?v' = "st_vol (jn_store j')" and ?P = "protected_blocks (tn_tree t)"
  let ?V = "node_at (jn_store j)" and ?V' = "node_at (jn_store j')"
  have m: "vl_super ?v' = vl_super ?v" using assms(3) by (simp add: crash_frame_def vol_meta_def)
  have d: "durable ?v kvs" "tx_follows ?v ?V t" using assms(1,2) by (simp_all add: jn_durable_def Let_def)
  have sub: "root_blocks ?V (sp_tree_root (vl_super ?v)) \<subseteq> ?P" using d(2) by (simp add: tx_follows_def Let_def)
  have "durable ?v' kvs" using durable_frame [OF d(1) assms(3)] sub by (simp add: node_at_arena_of)
  moreover have V: "?V' b = ?V b" if "b \<in> ?P" for b using that assms(3) m by (simp add: node_at_def crash_frame_def)
  have "\<forall>b \<in> root_blocks ?V (sp_tree_root (vl_super ?v)). ?V' b = ?V b" using V sub by blast
  then have "root_blocks ?V' (sp_tree_root (vl_super ?v)) = root_blocks ?V (sp_tree_root (vl_super ?v))" by (rule root_frame(1))
  then have "tx_follows ?v' ?V' t'"
    using d(2) V tx_kept_protected [OF assms(5)] assms(5-9) by (auto simp: tx_follows_def Let_def m tx_kept_def jn_checkpoint_def)
  ultimately show ?thesis using assms(4) by (simp add: jn_durable_def)
qed

lemma jn_frame_crash:
  assumes "jn_durable j kvs" and "jn_frame j j'"
  obtains t t' where "jn_tx j = Some t" and "jn_tx j' = Some t'" and "tx_kept (tn_tree t) (tn_tree t')"
    and "tn_at t' = tn_at t" and "tn_bytes t' = tn_bytes t" and "tn_bytes t \<le> sp_log_blocks (jn_checkpoint j) * 4096"
    and "crash_frame (protected_blocks (tn_tree t)) (st_vol (jn_store j)) (st_vol (jn_store j'))"
    and "\<exists>crc. log_sum (vl_disk (st_vol (jn_store j'))) \<lparr>rg_at = tn_at t, rg_bytes = tn_bytes t, rg_crc = 0\<rparr> = Inr crc"
proof -
  let ?v = "st_vol (jn_store j)" and ?v' = "st_vol (jn_store j')"
  obtain t t' where t: "jn_tx j = Some t" "jn_tx j' = Some t'" "tn_at t' = tn_at t" "tn_bytes t' = tn_bytes t"
    and fr: "tx_frame (tn_tree t, jn_store j) (tn_tree t', jn_store j')"
    using assms(2) by (auto simp: jn_frame_def)
  have d: "durable ?v kvs" "tx_follows ?v (node_at (jn_store j)) t" using assms(1) t(1) by (simp_all add: jn_durable_def Let_def)
  let ?cp = "vl_super ?v" and ?region = "sp_region (vl_super ?v)"
  note k = durable_checks(1) [OF d(1), unfolded super_check_iff]
  have low: "sp_tree_at ?cp + sp_tree_blocks ?cp \<le> rg_at ?region" "2 \<le> sp_tree_at ?cp" using k by auto
  have len: "length (flt_volatile (vl_disk ?v')) = length (flt_volatile (vl_disk ?v))" using fr by (simp add: tx_frame_def)
  have out: "disk_block (vl_disk ?v') x = disk_block (vl_disk ?v) x" if "x \<in> protected_blocks (tn_tree t) \<or> \<not> in_arena ?cp x" for x
    using that fr by (auto simp: tx_frame_def)
  have "sub_slice (rg_at ?region * 4096) (rg_bytes ?region) (flt_volatile (vl_disk ?v'))
      = sub_slice (rg_at ?region * 4096) (rg_bytes ?region) (flt_volatile (vl_disk ?v))"
  proof (rule blocks_slice [OF _ _ len])
    show "rg_bytes ?region \<le> (rg_at ?region + region_blocks ?region - rg_at ?region) * 4096"
      by (simp add: region_blocks_def BLOCK_def)
  qed (use out low in \<open>auto simp: in_arena_def\<close>)
  then have "crash_frame (protected_blocks (tn_tree t)) ?v ?v'"
    using fr out low by (auto simp: crash_frame_def tx_frame_def in_arena_def)
  moreover have "\<exists>crc. log_sum (vl_disk ?v') \<lparr>rg_at = tn_at t, rg_bytes = tn_bytes t, rg_crc = 0\<rparr> = Inr crc"
  proof -
    obtain crc bank where crc: "log_sum (vl_disk ?v) \<lparr>rg_at = tn_at t, rg_bytes = tn_bytes t, rg_crc = 0\<rparr> = Inr crc"
      and bank: "log_bank ?cp bank = Inr (tn_at t)"
      using d(2) by (auto simp: tx_follows_def Let_def)
    have "sp_tree_at ?cp + sp_tree_blocks ?cp \<le> tn_at t"
      using bank k by (auto simp: log_bank_def LOG_BANKS_def log_start_def checked_mul_def split: if_splits)
    then have "sub_slice (tn_at t * 4096) (tn_bytes t) (flt_volatile (vl_disk ?v')) = sub_slice (tn_at t * 4096) (tn_bytes t) (flt_volatile (vl_disk ?v))"
      using out by (intro blocks_slice [OF _ _ len, of "tn_at t" "tn_at t + tn_bytes t"]) (auto simp: in_arena_def)
    then show ?thesis using log_sum_from_frame [of _ "vl_disk ?v'" "vl_disk ?v" 0 crc_new crc] crc by (auto simp: log_sum_def)
  qed
  ultimately show ?thesis using that t d(2) fr by (auto simp: tx_frame_def tx_follows_def Let_def jn_checkpoint_def)
qed

text \<open>Both an indexed entry and a rolled-back one leave the last checkpoint alone.\<close>

lemma jn_frame_durable:
  assumes "jn_durable j kvs" and "jn_frame j j'"
  shows "jn_durable j' kvs" "jn_durable (j'\<lparr>jn_tx := jn_tx j\<rparr>) kvs"
proof -
  obtain t t' where t: "jn_tx j = Some t" "jn_tx j' = Some t'" "tx_kept (tn_tree t) (tn_tree t')" "tn_at t' = tn_at t"
    "tn_bytes t' = tn_bytes t" "tn_bytes t \<le> sp_log_blocks (jn_checkpoint j) * 4096"
    "crash_frame (protected_blocks (tn_tree t)) (st_vol (jn_store j)) (st_vol (jn_store j'))"
    "\<exists>crc. log_sum (vl_disk (st_vol (jn_store j'))) \<lparr>rg_at = tn_at t, rg_bytes = tn_bytes t, rg_crc = 0\<rparr> = Inr crc"
    using jn_frame_crash [OF assms] .
  show "jn_durable j' kvs" using jn_durable_frame [OF assms(1) t(1,7,2-4)] t(4-6,8) by simp
  show "jn_durable (j'\<lparr>jn_tx := jn_tx j\<rparr>) kvs"
    using jn_durable_frame [OF assms(1) t(1), of "j'\<lparr>jn_tx := jn_tx j\<rparr>" t] t by simp
qed

lemma jn_same_durable: "jn_durable j kvs \<Longrightarrow> jn_same j j' \<Longrightarrow> jn_durable j' kvs"
  using jn_sameD [of j j'] store_sameD [of "jn_store j" "jn_store j'"]
  by (auto simp: jn_durable_def durable_def tx_follows_def vol_meta_def Let_def split: option.splits)

lemma jn_durable_room:
  assumes "jn_durable j kvs"
  shows "bank_room 0 j"
proof -
  let ?v = "st_vol (jn_store j)"
  have d: "durable ?v kvs" using assms by (simp add: jn_durable_def Let_def)
  note k = durable_checks(1) [OF d, unfolded super_check_iff]
  have "rg_bytes (jn_log_region j) \<le> sp_log_blocks (vl_super ?v) * 4096"
    using assms k by (auto simp: jn_log_region_def jn_durable_def tx_follows_def Let_def jn_checkpoint_def BLOCK_def split: option.splits)
  then show ?thesis using k by (simp add: bank_room_def bank_capacity_def checked_mul_def jn_checkpoint_def BLOCK_def)
qed

lemma jn_snapshot_durable:
  assumes "jn_holds j kvs" and "jn_durable j kvs0" and "bank_room reserve j" and "jn_snapshot reserve j = (Inr t, j')"
  shows "jn_durable j' kvs0"
proof (cases rule: jn_snapshot_ok [OF assms(1,3)])
  case (2 t' j1)
  let ?v = "st_vol (jn_store j)" and ?V = "node_at (jn_store j)"
  have eq: "t' = t" "j1 = j'" using 2(1) assms(4) by simp_all
  note s = store_sameD [OF 2(4)]
  have m: "vl_super (st_vol (jn_store j')) = vl_super ?v" "vl_disk (st_vol (jn_store j')) = vl_disk ?v" "vl_active (st_vol (jn_store j')) = vl_active ?v"
    "node_at (jn_store j') = ?V"
    using s eq by (simp_all add: vol_meta_def)
  have d: "durable ?v kvs0" using assms(2) by (simp add: jn_durable_def Let_def)
  have bytes: "tn_bytes t \<le> sp_log_blocks (vl_super ?v) * 4096"
    using jn_durable_room [OF assms(2)] 2(7) eq by (auto simp: bank_room_def bank_capacity_def jn_checkpoint_def BLOCK_def split: option.splits)
  have "tx_follows ?v ?V t"
  proof (cases "jn_tx j")
    case None
    have gens: "nd_generation n \<le> sp_generation (vl_super ?v)" if "b \<in> protected_blocks (tn_tree t)" "?V b = Some n" for b n
    proof -
      have "tree_dated ?V (sp_generation (vl_super ?v)) (sp_tree_root (vl_super ?v))" if "sp_tree_root (vl_super ?v) \<noteq> 0"
        using d that by (auto simp: durable_def image_holds_def usable_def cp_sound_def tree_sound_iff node_at_arena_of)
      then show ?thesis
        using that 2(8) None eq assms(2)
        by (cases "sp_tree_root (vl_super ?v) = 0")
          (auto simp: tree_dated_def jn_durable_def jn_checkpoint_def Let_def root_blocks_def split: option.splits)
    qed
    obtain bank where "bank < 3" "rg_at (sp_region (vl_super ?v)) = log_start (vl_super ?v) + bank * sp_log_blocks (vl_super ?v)"
      using durable_checks(1) [OF d, unfolded super_check_iff] by blast
    then have "log_bank (vl_super ?v) bank = Inr (tn_at t)"
      using durable_checks(1,2) [OF d, unfolded super_check_iff] 2(6) None eq
      by (auto simp: log_bank_def LOG_BANKS_def log_start_def checked_mul_def jn_log_region_def jn_checkpoint_def)
    moreover obtain crc where "log_sum (vl_disk ?v) (sp_region (vl_super ?v)) = Inr crc"
      using d by (auto simp: durable_def image_holds_def usable_def cp_sound_def)
    then have "log_sum (vl_disk ?v) \<lparr>rg_at = rg_at (sp_region (vl_super ?v)), rg_bytes = rg_bytes (sp_region (vl_super ?v)), rg_crc = 0\<rparr> = Inr crc"
      using log_sum_crc [of "vl_disk ?v" _ _ 0 "rg_crc (sp_region (vl_super ?v))"] by (cases "sp_region (vl_super ?v)") simp
    then have "log_sum (vl_disk ?v) \<lparr>rg_at = tn_at t, rg_bytes = tn_bytes t, rg_crc = 0\<rparr> = Inr crc"
      using 2(6,7) None eq by (simp add: jn_log_region_def jn_checkpoint_def)
    ultimately show ?thesis using gens 2(7,8) None eq bytes by (auto simp: tx_follows_def Let_def jn_log_region_def jn_checkpoint_def)
  next
    case (Some t0)
    then show ?thesis using 2(8) eq assms(2) by (simp add: jn_durable_def Let_def)
  qed
  then have "tx_follows (st_vol (jn_store j')) ?V t" using m by (simp add: tx_follows_def)
  then show ?thesis using d m 2(2) eq by (simp add: jn_durable_def durable_def)
qed (use assms(4) in simp)

lemma jn_create_durable:
  assumes "jn_holds j kvs" and "names_ok (jn_next j) kvs" and "jn_next j < 2 ^ 32" and "name_wf name" and "jn_durable j kvs0"
    and "jn_create parent name kind j = (r, j')"
  shows "jn_durable j' kvs0"
proof -
  note room = jn_durable_room [OF assms(5)]
  have opened: "jn_durable j3 kvs0" if "jn_same j j2" "jn_snapshot 0 j2 = (Inr t, j3)" for t j2 j3
    using jn_snapshot_durable [OF jn_holds_same [OF assms(1) that(1)] jn_same_durable [OF assms(5) that(1)] _ that(2)]
      room bank_room_same [OF that(1)] by simp
  show ?thesis
  proof (cases rule: jn_create_cases [OF assms(1-4) room, of parent kind])
    case (1 e j1)
    then show ?thesis using assms(6) jn_same_durable [OF assms(5)] by simp
  next
    case (2 e t j2 j3 j4)
    then show ?thesis using assms(6) jn_frame_durable(2) [OF opened [OF 2(3,4)] 2(6)] by simp
  next
    case (3 t j2 j3 j4)
    have "jn_durable j4 kvs0" using jn_frame_durable(1) [OF opened [OF 3(5,6)] 3(7)] .
    then show ?thesis using assms(6) 3(1) by (auto simp: jn_durable_def)
  qed
qed

section \<open>Sessions\<close>

text \<open>
  The states a journal goes through from a mount on, with the index it works on and the one the last
  sync published. An operation that leaves the index as it was is a step too.
\<close>

inductive session :: "journal \<Rightarrow> (key \<times> byte list) list \<Rightarrow> (key \<times> byte list) list \<Rightarrow> bool" where
  mounted: "jn_holds j kvs \<Longrightarrow> jn_durable j kvs \<Longrightarrow> jn_tx j = None \<Longrightarrow> jn_next j < 2 ^ 32 \<Longrightarrow> names_ok (jn_next j) kvs
     \<Longrightarrow> no_orphans (jn_next j) kvs \<Longrightarrow> session j kvs kvs"
| created: "session j kvs kvs0 \<Longrightarrow> name_wf name \<Longrightarrow> jn_create parent name kind j = (Inr i, j')
     \<Longrightarrow> session j' (created parent name kind i kvs) kvs0"
| read: "session j kvs kvs0 \<Longrightarrow> jn_same j j' \<Longrightarrow> session j' kvs kvs0"
| synced: "session j kvs kvs0 \<Longrightarrow> jn_tx j \<noteq> None \<Longrightarrow> jn_sync j = (Inr g, j') \<Longrightarrow> session j' kvs kvs"

lemma session_ok:
  assumes "session j kvs kvs0"
  shows "jn_holds j kvs \<and> jn_durable j kvs0 \<and> (if jn_tx j = None then kvs = kvs0 else jn_dirty j) \<and> jn_next j < 2 ^ 32
    \<and> names_ok (jn_next j) kvs \<and> no_orphans (jn_next j) kvs"
  using assms
proof induction
  case (created j kvs kvs0 name parent kind i j')
  then have h: "jn_holds j kvs" "names_ok (jn_next j) kvs" "no_orphans (jn_next j) kvs" "jn_durable j kvs0" "jn_next j < 2 ^ 32" by simp_all
  show ?case
  proof (cases rule: jn_create_cases [OF h(1,2,5) created.hyps(2) jn_durable_room [OF h(4)], of parent kind])
    case (3 t j2 j3 j4)
    then have i: "i = jn_next j" "j' = j4\<lparr>jn_next := jn_next j + 1\<rparr>" using created.hyps(3) by simp_all
    moreover have "jn_durable j' kvs0" by (rule jn_create_durable [OF h(1,2,5) created.hyps(2) h(4) created.hyps(3)])
    moreover have "jn_holds j' (created parent name kind i kvs)" using 3(3) jn_holds_cong [of j' j4] by (simp add: i)
    moreover have "jn_dirty j'" "jn_tx j' \<noteq> None" using 3(4) by (auto simp: i(2) jn_dirty_def split: option.splits)
    ultimately show ?thesis using created_keeps(1,2) [OF h(1-3) 3(2), of kind] 3(2) by (auto simp: may_create_def)
  qed (use created.hyps(3) in simp_all)
next
  case (read j kvs kvs0 j')
  then show ?case using jn_sameD [OF read.hyps(2)] jn_holds_same jn_same_durable by (auto simp: jn_dirty_def)
next
  case (synced j kvs kvs0 g j')
  then have "jn_holds j kvs" "jn_durable j kvs0" "jn_dirty j" by simp_all
  note s = jn_synced [OF this synced.hyps(3)]
  have "jn_next j' = jn_next j"
    using synced.hyps(3) by (auto simp: jn_sync_def and_then_def on_volume_def on_tree_def Let_def split: option.splits sum.splits prod.splits if_splits)
  then show ?case using s synced.IH by simp
qed simp_all

section \<open>What a mount finds after the power failed\<close>

definition recovers :: "journal \<Rightarrow> (key \<times> byte list) list \<Rightarrow> bool" where
  "recovers j kvs \<longleftrightarrow> (\<exists>v. vol_mount (reboot (vl_disk (st_vol (jn_store j)))) = Inr v
     \<and> tree_published (arena_of (vl_disk v) (vl_super v)) (sp_tree_root (vl_super v)) kvs)"

lemma image_recovers:
  assumes "image_holds (reboot (vl_disk (st_vol (jn_store j)))) a cp kvs" and "length (flt_stable (vl_disk (st_vol (jn_store j)))) < 2 ^ 64"
  shows "recovers j kvs"
  using image_mounts [OF assms(1)] assms by (metis (no_types, lifting) image_holds_def recovers_def reboot_def faulty.select_convs(2))

lemma jn_durable_recovers: "store_ok (jn_store j) \<Longrightarrow> jn_durable j kvs \<Longrightarrow> recovers j kvs"
  by (rule image_recovers) (auto simp: jn_durable_def durable_def store_ok_def vol_ok_def Let_def)

lemma session_sync_recovers:
  assumes "session j kvs kvs0" and "jn_sync j = (r, j')"
  shows "recovers j' (if isl r then kvs0 else kvs)"
proof -
  note s = session_ok [OF assms(1)]
  have ok: "vol_ok (st_vol (jn_store j))" using s jn_holds_root(1) [of j kvs] by (simp add: store_ok_def)
  show ?thesis
  proof (cases "jn_tx j")
    case None
    let ?v = "st_vol (jn_store j)" and ?v' = "st_vol (jn_store j')"
    have d: "durable ?v kvs0" "kvs = kvs0" using s None by (simp_all add: jn_durable_def Let_def)
    have fl: "\<exists>q. vol_flush ?v = (q, ?v')"
      using assms(2) None by (auto simp: jn_sync_def and_then_def on_volume_def on_tree_def split: sum.splits prod.splits)
    then have "flt_stable (vl_disk ?v') = flt_stable (vl_disk ?v) \<or> flt_stable (vl_disk ?v') = flt_volatile (vl_disk ?v)"
      using vol_flush_cases(4) [OF ok] by fastforce
    then have "image_holds (reboot (vl_disk ?v')) (vl_active ?v) (vl_super ?v) kvs0" "length (flt_stable (vl_disk ?v')) < 2 ^ 64"
      using d(1) ok image_flushed [of "vl_disk ?v'" "vl_disk ?v"] reboot_cong [of "vl_disk ?v'" "vl_disk ?v"]
      by (auto simp: durable_def vol_ok_def)
    then show ?thesis using image_recovers d(2) by simp
  next
    case (Some t)
    then have root: "tx_root (tn_tree t) \<notin> protected_blocks (tn_tree t)" using s by (simp add: jn_dirty_def)
    have h: "jn_holds j kvs" "jn_durable j kvs0" "jn_dirty j" using s Some by simp_all
    show ?thesis
    proof (cases r)
      case (Inl e)
      then show ?thesis using jn_sync_image [OF h(1) Some h(2) root assms(2) refl refl] ok by (auto simp: vol_ok_def intro: image_recovers)
    next
      case (Inr g)
      then show ?thesis
        using jn_synced(4,5) [OF h] jn_durable_recovers jn_holds_root(1) assms(2) by auto
    qed
  qed
qed

text \<open>
  Power loss at any moment of a creation leaves what the last sync published; a sync moves to the
  index as it is, whole, or stays.
\<close>


text \<open>On a device that keeps its power, what is created and synced is what a mount finds.\<close>


section \<open>A small volume\<close>

lemma sample_session: "session sample_journal sample_kvs sample_kvs"
proof -
  have "image_holds sample_disk 0 sample_super sample_kvs"
    using sample_usable sample_root(1,3) by (simp add: image_holds_def node_at_arena_of sample_store_def)
  moreover have "flt_stable sample_disk = flt_volatile sample_disk" by (simp add: sample_disk_def Let_def)
  ultimately have "durable (st_vol sample_store) sample_kvs"
    using image_flushed [of sample_disk sample_disk] by (simp add: durable_def sample_store_def)
  then have "jn_durable sample_journal sample_kvs" by (simp add: jn_durable_def Let_def sample_journal_fields)
  then show ?thesis using session.mounted sample_journal_holds sample_names by (simp add: sample_journal_fields)
qed

lemma sample_jn_spare: "45 \<le> jn_spare sample_journal"
  by (simp add: jn_spare_def sample_journal_fields sample_root) (simp add: sample_super_def)



text \<open>A transaction to publish, as a creation on this volume leaves it.\<close>

lemma sample_created:
  "\<exists>j. session j (created 0 [98] KFile 2 sample_kvs) sample_kvs \<and> jn_dirty j \<and> jn_checkpoint j = sample_super"
proof -
  have s: "names_ok (jn_next sample_journal) sample_kvs" "jn_next sample_journal < 2 ^ 32" "name_wf [98]" "may_create (jn_next sample_journal) sample_kvs 0 [98]"
    using sample_names sample_may_create by (simp_all add: sample_journal_fields name_wf_iff)
  obtain j where "jn_create 0 [98] KFile sample_journal = (Inr (jn_next sample_journal), j)" "jn_dirty j" "jn_checkpoint j = sample_super"
    using jn_create_live [OF sample_journal_holds s(1-3) sample_room s(4) _ sample_jn_spare, of KFile] sample_powered
    by (auto simp: sample_journal_fields) (auto simp: sample_super_def)
  moreover note session.created [OF sample_session s(3) this(1)]
  ultimately show ?thesis by (auto simp: sample_journal_fields)
qed


theorem sync_untouched_unusable_witness:
  "\<exists>t j j'. jn_snapshot 0 sample_journal = (Inr t, j) \<and> jn_sync j = (Inr 8, j') \<and> \<not> usable (vl_disk (st_vol (jn_store j'))) (jn_checkpoint j')"
proof (cases rule: jn_snapshot_ok [OF sample_journal_holds sample_room])
  case (2 t j)
  have "jn_durable sample_journal sample_kvs" using session_ok [OF sample_session] by simp
  note d = jn_snapshot_durable [OF sample_journal_holds this sample_room 2(1)]
  have cp: "jn_checkpoint j = sample_super" "vl_disk (st_vol (jn_store j)) = vl_disk (st_vol sample_store)"
    "tx_root (tn_tree t) = 3"
    using store_sameD(3,4) [OF 2(4)] 2(8) by (simp_all add: jn_checkpoint_def sample_journal_fields sample_root)
      (simp_all add: sample_store_def sample_root(3))
  then obtain j' where j': "jn_sync j = (Inr 8, j')"
    using jn_sync_live [OF 2(3) d 2(2)] sample_powered by (auto simp: sample_super_def)
  then show ?thesis using sync_untouched_unusable [OF 2(3) d 2(2)] 2(1) cp sample_root(3) by auto
qed (simp add: sample_journal_fields sample_super_def)

end
