(* ===== verification/Net_Wire.thy ===== *)
theory Net_Wire
  imports Bytes Effect
begin

unbundle bit_operations_syntax

text \<open>
  The wire formats of the network stack (crates/stack/net/src: addr.rs, checksum.rs, eth.rs, arp.rs,
  ipv4.rs, ipv6.rs, icmpv6.rs). Addresses are lists of octets, of six, four and sixteen; \<open>parse\<close> reads a
  slice and \<open>emit\<close> fills the front of a buffer and returns the bytes it took with the buffer. What is
  emitted parses to what it was, whatever follows it in the buffer, and the Internet checksum is shown
  to be the one's complement sum of its words, so that one damaged byte of a header is always refused.
\<close>

section \<open>Addresses\<close>

type_synonym mac_addr = "byte list"
type_synonym ipv4_addr = "byte list"
type_synonym ipv6_addr = "byte list"

datatype ip_addr = V4 ipv4_addr | V6 ipv6_addr

definition mac_BROADCAST :: mac_addr where
  "mac_BROADCAST = replicate 6 255"

definition mac_multicast :: "ipv6_addr \<Rightarrow> mac_addr" where
  "mac_multicast a = [0x33, 0x33, a ! 12, a ! 13, a ! 14, a ! 15]"

definition mac_is_multicast :: "mac_addr \<Rightarrow> bool" where
  "mac_is_multicast mac \<longleftrightarrow> mac ! 0 AND 1 \<noteq> 0"

text \<open>\<open>Ipv6Addr::new\<close> of the standard library: eight segments, each two octets, the high one first.\<close>

definition ipv6_new :: "nat list \<Rightarrow> ipv6_addr" where
  "ipv6_new segments = concat (map (be_bytes 2) segments)"

definition ipv6_is_multicast :: "ipv6_addr \<Rightarrow> bool" where
  "ipv6_is_multicast a \<longleftrightarrow> a ! 0 = 0xff"

definition ipv6_is_unspecified :: "ipv6_addr \<Rightarrow> bool" where
  "ipv6_is_unspecified a \<longleftrightarrow> a = replicate 16 0"

definition solicited_node :: "ipv6_addr \<Rightarrow> ipv6_addr" where
  "solicited_node a =
     (let low = be_value [a ! 14, a ! 15] in ipv6_new [0xff02, 0, 0, 0, 0, 1, 0xff00 OR unat (a ! 13), low])"

definition link_local :: "mac_addr \<Rightarrow> ipv6_addr" where
  "link_local mac = ipv6_new
     [0xfe80, 0, 0, 0, be_value [mac ! 0 XOR 0x02, mac ! 1], be_value [mac ! 2, 0xff],
      be_value [0xfe, mac ! 3], be_value [mac ! 4, mac ! 5]]"

datatype net_error = NetBuffer | NetMalformed | NetChecksum | NetFragmented | NetUnsupported

section \<open>The Internet checksum\<close>

fun sum_bytes :: "nat \<Rightarrow> byte option \<Rightarrow> byte list \<Rightarrow> nat \<times> byte option" where
  "sum_bytes acc high [] = (acc, high)"
| "sum_bytes acc None (b # bs) = sum_bytes acc (Some b) bs"
| "sum_bytes acc (Some a) (b # bs) = sum_bytes ((acc + be_value [a, b]) mod 2 ^ 32) None bs"

function fold_sum :: "nat \<Rightarrow> nat" where
  "fold_sum acc = (if acc > 65535 then fold_sum (acc mod 65536 + acc div 65536) else acc)"
  by auto
termination
proof (relation "measure id")
  fix acc :: nat
  assume big: "65535 < acc"
  have "acc = acc div 65536 * 65536 + acc mod 65536" by (rule div_mod_decomp)
  moreover have "1 \<le> acc div 65536" using big by simp
  ultimately have "acc mod 65536 + acc div 65536 < acc" by linarith
  then show "(acc mod 65536 + acc div 65536, acc) \<in> measure id" by simp
qed simp

declare fold_sum.simps [simp del]

definition compute_parts :: "byte list list \<Rightarrow> nat" where
  "compute_parts parts =
     (case foldl (\<lambda>(acc, high) part. sum_bytes acc high part) (0, None) parts of (acc, high) \<Rightarrow>
        let acc = (case high of Some b \<Rightarrow> (acc + unat b * 256) mod 2 ^ 32 | None \<Rightarrow> acc)
        in 65535 - fold_sum acc)"

definition checksum_compute :: "byte list \<Rightarrow> nat" where
  "checksum_compute bytes = compute_parts [bytes]"

definition over_ipv4 :: "ipv4_addr \<Rightarrow> ipv4_addr \<Rightarrow> byte \<Rightarrow> byte list \<Rightarrow> nat" where
  "over_ipv4 src dst protocol bytes =
     (let pseudo = replicate 12 0;
          pseudo = put_slice 0 src pseudo;
          pseudo = put_slice 4 dst pseudo;
          pseudo = put_byte 9 protocol pseudo;
          pseudo = put_be 2 10 (length bytes) pseudo
      in compute_parts [pseudo, bytes])"

definition over_ipv6 :: "ipv6_addr \<Rightarrow> ipv6_addr \<Rightarrow> byte \<Rightarrow> byte list \<Rightarrow> nat" where
  "over_ipv6 src dst next_header bytes =
     (let pseudo = replicate 40 0;
          pseudo = put_slice 0 src pseudo;
          pseudo = put_slice 16 dst pseudo;
          pseudo = put_be 4 32 (length bytes) pseudo;
          pseudo = put_byte 39 next_header pseudo
      in compute_parts [pseudo, bytes])"

definition checksum_set :: "nat \<Rightarrow> byte list \<Rightarrow> byte list" where
  "checksum_set offset bytes =
     (if offset + 2 > length bytes then bytes
      else let bytes = put_slice offset [0, 0] bytes in put_be 2 offset (checksum_compute bytes) bytes)"

definition checksum_valid :: "byte list \<Rightarrow> bool" where
  "checksum_valid bytes \<longleftrightarrow> checksum_compute bytes = 0"

section \<open>Ethernet\<close>

datatype ether_type = EtherIpv4 | EtherIpv6 | EtherArp

fun ether_value :: "ether_type \<Rightarrow> nat" where
  "ether_value EtherIpv4 = 0x0800"
| "ether_value EtherIpv6 = 0x86dd"
| "ether_value EtherArp = 0x0806"

definition ether_parse :: "nat \<Rightarrow> net_error + ether_type" where
  "ether_parse value =
     (if value = 0x0800 then Inr EtherIpv4 else if value = 0x86dd then Inr EtherIpv6
      else if value = 0x0806 then Inr EtherArp else Inl NetUnsupported)"

record frame =
  fr_dst :: mac_addr
  fr_src :: mac_addr
  fr_ether_type :: ether_type
  fr_payload :: "byte list"

definition frame_parse :: "byte list \<Rightarrow> net_error + frame" where
  "frame_parse bytes =
     (if length bytes < 14 then Inl NetMalformed else
      case ether_parse (field_be 2 12 bytes) of Inl e \<Rightarrow> Inl e | Inr ether_type \<Rightarrow>
      Inr \<lparr>fr_dst = sub_slice 0 6 bytes, fr_src = sub_slice 6 6 bytes, fr_ether_type = ether_type, fr_payload = drop 14 bytes\<rparr>)"

definition frame_emit :: "frame \<Rightarrow> byte list \<Rightarrow> net_error + (nat \<times> byte list)" where
  "frame_emit f bytes =
     (let len = 14 + length (fr_payload f) in
      if length bytes < len then Inl NetBuffer else
      let bytes = put_slice 0 (fr_dst f) bytes;
          bytes = put_slice 6 (fr_src f) bytes;
          bytes = put_be 2 12 (ether_value (fr_ether_type f)) bytes;
          bytes = put_slice 14 (fr_payload f) bytes
      in Inr (len, bytes))"

section \<open>ARP\<close>

datatype arp_operation = ArpRequest | ArpReply

fun arp_value :: "arp_operation \<Rightarrow> nat" where
  "arp_value ArpRequest = 1"
| "arp_value ArpReply = 2"

definition arp_operation_parse :: "nat \<Rightarrow> net_error + arp_operation" where
  "arp_operation_parse value = (if value = 1 then Inr ArpRequest else if value = 2 then Inr ArpReply else Inl NetUnsupported)"

record arp =
  arp_operation :: arp_operation
  arp_tx_hardware :: mac_addr
  arp_tx_protocol :: ipv4_addr
  arp_rx_hardware :: mac_addr
  arp_rx_protocol :: ipv4_addr

definition arp_parse :: "byte list \<Rightarrow> net_error + arp" where
  "arp_parse bytes =
     (if length bytes < 28 then Inl NetMalformed
      else if sub_slice 0 2 bytes \<noteq> be_bytes 2 1 \<or> sub_slice 2 2 bytes \<noteq> be_bytes 2 0x0800 \<or> bytes ! 4 \<noteq> 6 \<or> bytes ! 5 \<noteq> 4
      then Inl NetUnsupported else
      case arp_operation_parse (field_be 2 6 bytes) of Inl e \<Rightarrow> Inl e | Inr operation \<Rightarrow>
      Inr \<lparr>arp_operation = operation, arp_tx_hardware = sub_slice 8 6 bytes, arp_tx_protocol = sub_slice 14 4 bytes,
        arp_rx_hardware = sub_slice 18 6 bytes, arp_rx_protocol = sub_slice 24 4 bytes\<rparr>)"

definition arp_emit :: "arp \<Rightarrow> byte list \<Rightarrow> net_error + (nat \<times> byte list)" where
  "arp_emit p bytes =
     (if length bytes < 28 then Inl NetBuffer else
      let bytes = put_be 2 0 1 bytes;
          bytes = put_be 2 2 0x0800 bytes;
          bytes = put_byte 4 6 bytes;
          bytes = put_byte 5 4 bytes;
          bytes = put_be 2 6 (arp_value (arp_operation p)) bytes;
          bytes = put_slice 8 (arp_tx_hardware p) bytes;
          bytes = put_slice 14 (arp_tx_protocol p) bytes;
          bytes = put_slice 18 (arp_rx_hardware p) bytes;
          bytes = put_slice 24 (arp_rx_protocol p) bytes
      in Inr (28, bytes))"

section \<open>IPv4\<close>

record ipv4 =
  ip4_src :: ipv4_addr
  ip4_dst :: ipv4_addr
  ip4_protocol :: byte
  ip4_payload :: "byte list"

definition ipv4_parse :: "byte list \<Rightarrow> net_error + ipv4" where
  "ipv4_parse bytes =
     (if length bytes < 20 \<or> drop_bit 4 (bytes ! 0) \<noteq> 4 then Inl NetMalformed else
      let header = unat (bytes ! 0 AND 0x0f) * 4 in
      if header < 20 \<or> length bytes < header then Inl NetMalformed else
      let total = field_be 2 2 bytes in
      if total < header \<or> length bytes < total then Inl NetMalformed
      else if \<not> checksum_valid (take header bytes) then Inl NetChecksum
      else if field_be 2 6 bytes AND 0x3fff \<noteq> 0 then Inl NetFragmented
      else Inr \<lparr>ip4_src = sub_slice 12 4 bytes, ip4_dst = sub_slice 16 4 bytes, ip4_protocol = bytes ! 9,
             ip4_payload = sub_slice header (total - header) bytes\<rparr>)"

definition ipv4_emit :: "ipv4 \<Rightarrow> byte list \<Rightarrow> net_error + (nat \<times> byte list)" where
  "ipv4_emit p bytes =
     (let total = 20 + length (ip4_payload p) in
      if total \<ge> 2 ^ 16 \<or> length bytes < total then Inl NetBuffer else
      let header = replicate 20 0;
          header = put_byte 0 0x45 header;
          header = put_be 2 2 total header;
          header = put_be 2 6 0x4000 header;
          header = put_byte 8 64 header;
          header = put_byte 9 (ip4_protocol p) header;
          header = put_slice 12 (ip4_src p) header;
          header = put_slice 16 (ip4_dst p) header;
          header = checksum_set 10 header
      in Inr (total, put_slice 20 (ip4_payload p) (put_slice 0 header bytes)))"

section \<open>IPv6\<close>

record ipv6 =
  ip6_src :: ipv6_addr
  ip6_dst :: ipv6_addr
  ip6_next_header :: byte
  ip6_hop_limit :: byte
  ip6_payload :: "byte list"

definition ipv6_packet :: "ipv6_addr \<Rightarrow> ipv6_addr \<Rightarrow> byte \<Rightarrow> byte list \<Rightarrow> ipv6" where
  "ipv6_packet src dst next_header payload =
     \<lparr>ip6_src = src, ip6_dst = dst, ip6_next_header = next_header, ip6_hop_limit = 64, ip6_payload = payload\<rparr>"

definition ipv6_parse :: "byte list \<Rightarrow> net_error + ipv6" where
  "ipv6_parse bytes =
     (if length bytes < 40 \<or> drop_bit 4 (bytes ! 0) \<noteq> 6 then Inl NetMalformed else
      let total = 40 + field_be 2 4 bytes in
      if length bytes < total then Inl NetMalformed
      else if bytes ! 6 = 44 then Inl NetFragmented
      else if bytes ! 6 = 0 \<or> bytes ! 6 = 43 \<or> bytes ! 6 = 51 \<or> bytes ! 6 = 60 then Inl NetUnsupported
      else Inr \<lparr>ip6_src = sub_slice 8 16 bytes, ip6_dst = sub_slice 24 16 bytes, ip6_next_header = bytes ! 6,
             ip6_hop_limit = bytes ! 7, ip6_payload = sub_slice 40 (total - 40) bytes\<rparr>)"

definition ipv6_emit :: "ipv6 \<Rightarrow> byte list \<Rightarrow> net_error + (nat \<times> byte list)" where
  "ipv6_emit p bytes =
     (if length (ip6_payload p) \<ge> 2 ^ 16 then Inl NetBuffer else
      let total = 40 + length (ip6_payload p) in
      if length bytes < total then Inl NetBuffer else
      let header = replicate 40 0;
          header = put_byte 0 0x60 header;
          header = put_be 2 4 (length (ip6_payload p)) header;
          header = put_byte 6 (ip6_next_header p) header;
          header = put_byte 7 (ip6_hop_limit p) header;
          header = put_slice 8 (ip6_src p) header;
          header = put_slice 24 (ip6_dst p) header
      in Inr (total, put_slice 40 (ip6_payload p) (put_slice 0 header bytes)))"

section \<open>ICMPv6\<close>

definition ICMP_PROTOCOL :: byte where
  "ICMP_PROTOCOL = 58"

definition ICMP_HOPS :: byte where
  "ICMP_HOPS = 255"

datatype icmp_message =
    EchoRequest nat nat "byte list"
  | EchoReply nat nat "byte list"
  | Solicitation ipv6_addr "mac_addr option"
  | Advertisement ipv6_addr "mac_addr option" bool

function icmp_option :: "byte list \<Rightarrow> byte \<Rightarrow> mac_addr option \<Rightarrow> net_error + mac_addr option" where
  "icmp_option bytes want found =
     (if bytes = [] then Inr found
      else if length bytes < 2 \<or> bytes ! 1 = 0 then Inl NetMalformed else
      let len = unat (bytes ! 1) * 8 in
      if length bytes < len then Inl NetMalformed
      else icmp_option (drop len bytes) want
             (if bytes ! 0 = want \<and> len = 8 \<and> found = None then Some (sub_slice 2 6 bytes) else found))"
  by auto
termination
  by (relation "measure (\<lambda>(bytes, want, found). length bytes)") (auto simp: unat_gt_0)

declare icmp_option.simps [simp del]

definition icmp_parse :: "ipv6_addr \<Rightarrow> ipv6_addr \<Rightarrow> byte list \<Rightarrow> net_error + icmp_message" where
  "icmp_parse src dst bytes =
     (if length bytes < 8 then Inl NetMalformed
      else if over_ipv6 src dst ICMP_PROTOCOL bytes \<noteq> 0 then Inl NetChecksum
      else if bytes ! 1 \<noteq> 0 then Inl NetUnsupported
      else if bytes ! 0 = 128 \<or> bytes ! 0 = 129 then
        (let ident = field_be 2 4 bytes; seq = field_be 2 6 bytes; data = drop 8 bytes
         in Inr (if bytes ! 0 = 128 then EchoRequest ident seq data else EchoReply ident seq data))
      else if bytes ! 0 = 135 \<or> bytes ! 0 = 136 then
        (if length bytes < 24 then Inl NetMalformed else
         let target = sub_slice 8 16 bytes in
         if bytes ! 0 = 135 then
           (case icmp_option (drop 24 bytes) 1 None of Inl e \<Rightarrow> Inl e | Inr source \<Rightarrow> Inr (Solicitation target source))
         else
           (case icmp_option (drop 24 bytes) 2 None of Inl e \<Rightarrow> Inl e
            | Inr hardware \<Rightarrow> Inr (Advertisement target hardware (bytes ! 4 AND 0x40 \<noteq> 0))))
      else Inl NetUnsupported)"

fun icmp_bytes :: "icmp_message \<Rightarrow> nat" where
  "icmp_bytes (EchoRequest ident seq data) = 8 + length data"
| "icmp_bytes (EchoReply ident seq data) = 8 + length data"
| "icmp_bytes (Solicitation target link) = 24 + (if link \<noteq> None then 8 else 0)"
| "icmp_bytes (Advertisement target link solicited) = 24 + (if link \<noteq> None then 8 else 0)"

definition emit_option :: "nat \<Rightarrow> byte \<Rightarrow> mac_addr option \<Rightarrow> byte list \<Rightarrow> byte list" where
  "emit_option at kind link bytes =
     (case link of None \<Rightarrow> bytes
      | Some link \<Rightarrow> put_slice (at + 2) link (put_byte (at + 1) 1 (put_byte at kind bytes)))"

definition emit_echo :: "byte \<Rightarrow> nat \<Rightarrow> nat \<Rightarrow> byte list \<Rightarrow> byte list \<Rightarrow> byte list" where
  "emit_echo kind ident seq data bytes =
     put_slice 8 data (put_be 2 6 seq (put_be 2 4 ident (put_byte 0 kind bytes)))"

fun icmp_body :: "icmp_message \<Rightarrow> byte list \<Rightarrow> byte list" where
  "icmp_body (EchoRequest ident seq data) bytes = emit_echo 128 ident seq data bytes"
| "icmp_body (EchoReply ident seq data) bytes = emit_echo 129 ident seq data bytes"
| "icmp_body (Solicitation target source) bytes =
     emit_option 24 1 source (put_slice 8 target (put_byte 0 135 bytes))"
| "icmp_body (Advertisement target hardware solicited) bytes =
     emit_option 24 2 hardware (put_slice 8 target
       (put_byte 4 (0x20 OR (if solicited then 0x40 else 0)) (put_byte 0 136 bytes)))"

definition icmp_emit :: "icmp_message \<Rightarrow> ipv6_addr \<Rightarrow> ipv6_addr \<Rightarrow> byte list \<Rightarrow> net_error + (nat \<times> byte list)" where
  "icmp_emit m src dst bytes =
     (let len = icmp_bytes m in
      if length bytes < len then Inl NetBuffer else
      let body = icmp_body m (replicate len 0);
          body = put_be 2 2 (over_ipv6 src dst ICMP_PROTOCOL body) body
      in Inr (len, put_slice 0 body bytes))"

section \<open>Lists in segments\<close>

lemma put_slice_segments [simp]:
  "length xs \<le> at \<Longrightarrow> put_slice at bs (xs @ ys) = xs @ put_slice (at - length xs) bs ys"
  "0 < at \<Longrightarrow> put_slice at bs (x # ys) = x # put_slice (at - 1) bs ys"
  "put_slice 0 bs ys = bs @ drop (length bs) ys"
  by (auto simp: put_slice_def gr0_conv_Suc)

lemma put_slice_replicate [simp]:
  "at + length bs \<le> n \<Longrightarrow> put_slice at bs (replicate n x) = replicate at x @ bs @ replicate (n - at - length bs) x"
  by (simp add: put_slice_def min_def)

lemma sub_slice_segments [simp]:
  "length xs \<le> at \<Longrightarrow> sub_slice at n (xs @ ys) = sub_slice (at - length xs) n ys"
  "0 < at \<Longrightarrow> sub_slice at n (x # ys) = sub_slice (at - 1) n ys"
  "length xs = n \<Longrightarrow> sub_slice 0 n (xs @ ys) = xs"
  "length xs = n \<Longrightarrow> sub_slice 0 n xs = xs"
  by (auto simp: sub_slice_def gr0_conv_Suc)

lemma be_bytes_two: "be_bytes 2 v = [of_nat (v div 256), of_nat v]"
  by (simp add: numeral_2_eq_2)

lemma replicate_two: "replicate 2 x = [x, x]"
  by (simp add: numeral_2_eq_2)

lemma be_value_two: "be_value [a, b] = unat a * 256 + unat b"
  by (simp add: be_value_def)

section \<open>The checksum is a one's complement sum\<close>

fun word_sum :: "byte list \<Rightarrow> nat" where
  "word_sum [] = 0"
| "word_sum [a] = unat a * 256"
| "word_sum (a # b # bs) = be_value [a, b] + word_sum bs"

lemma word_sum_le: "word_sum bs \<le> 65535 * ((length bs + 1) div 2)"
proof (induction bs rule: word_sum.induct)
  case (2 a)
  then show ?case using unat_byte_lt [of a] by simp
next
  case (3 a b bs)
  then show ?case using unat_byte_lt [of a] unat_byte_lt [of b] by (simp add: be_value_two)
qed simp

lemma word_sum_append: "even (length xs) \<Longrightarrow> word_sum (xs @ ys) = word_sum xs + word_sum ys"
  by (induction xs rule: word_sum.induct) simp_all

lemma word_sum_update:
  "i < length bs \<Longrightarrow>
   word_sum (bs[i := b]) + unat (bs ! i) * (if even i then 256 else 1) = word_sum bs + unat b * (if even i then 256 else 1)"
proof (induction bs arbitrary: i rule: word_sum.induct)
  case (3 x y bs)
  consider "i = 0" | "i = 1" | k where "i = Suc (Suc k)" by (cases i rule: nat.exhaust) (auto, metis One_nat_def not0_implies_Suc)
  then show ?case using "3.IH" "3.prems" by cases (auto simp: be_value_two)
qed auto

lemma sum_bytes_append: "sum_bytes acc high (xs @ ys) = (case sum_bytes acc high xs of (acc, high) \<Rightarrow> sum_bytes acc high ys)"
  by (induction acc high xs rule: sum_bytes.induct) simp_all

lemma sum_bytes_parts:
  "foldl (\<lambda>(acc, high) part. sum_bytes acc high part) (acc, high) parts = sum_bytes acc high (concat parts)"
  by (induction parts arbitrary: acc high) (simp_all add: sum_bytes_append split: prod.splits)

lemma sum_bytes_total:
  assumes "acc + word_sum ((case high of Some a \<Rightarrow> [a] | None \<Rightarrow> []) @ bs) < 2 ^ 32"
  shows "(case sum_bytes acc high bs of (acc, high) \<Rightarrow>
            (case high of Some b \<Rightarrow> (acc + unat b * 256) mod 2 ^ 32 | None \<Rightarrow> acc))
         = acc + word_sum ((case high of Some a \<Rightarrow> [a] | None \<Rightarrow> []) @ bs)"
  using assms
proof (induction acc high bs rule: sum_bytes.induct)
  case (1 acc high)
  then show ?case by (cases high) simp_all
qed simp_all

lemma fold_sum_value: "fold_sum n = (if n = 0 then 0 else if 65535 dvd n then 65535 else n mod 65535)"
proof (induction n rule: fold_sum.induct)
  case (1 n)
  show ?case
  proof (cases "n > 65535")
    case True
    let ?m = "n mod 65536 + n div 65536"
    have split: "n = n div 65536 * 65536 + n mod 65536" by (rule div_mod_decomp)
    have cong: "n = ?m + 65535 * (n div 65536)" using split by simp
    have "1 \<le> n div 65536" using True by simp
    then have "?m \<noteq> 0" by simp
    moreover have "65535 dvd n \<longleftrightarrow> 65535 dvd ?m" by (subst cong) (simp only: dvd_add_times_triv_right_iff dvd_add_left_iff dvd_triv_left)
    moreover have "n mod 65535 = ?m mod 65535" by (subst cong) (simp only: mod_mult_self2)
    ultimately show ?thesis using 1 True by (subst fold_sum.simps) simp
  next
    case False
    then have "n = 65535 \<or> n < 65535" by auto
    then show ?thesis by (subst fold_sum.simps) (auto dest: dvd_imp_le)
  qed
qed

lemma compute_parts_value:
  assumes "length (concat parts) \<le> 2 ^ 17"
  shows "compute_parts parts = 65535 - fold_sum (word_sum (concat parts))"
proof -
  have "word_sum (concat parts) < 2 ^ 32" using word_sum_le [of "concat parts"] assms by simp
  then show ?thesis using sum_bytes_total [of 0 None "concat parts"]
    by (cases "sum_bytes 0 None (concat parts)") (simp add: compute_parts_def sum_bytes_parts split: option.splits)
qed

lemma compute_parts_zero:
  "length (concat parts) \<le> 2 ^ 17
   \<Longrightarrow> compute_parts parts = 0 \<longleftrightarrow> 0 < word_sum (concat parts) \<and> 65535 dvd word_sum (concat parts)"
  by (auto simp: compute_parts_value fold_sum_value)

lemma checksum_valid_iff:
  "length bs \<le> 2 ^ 17 \<Longrightarrow> checksum_valid bs \<longleftrightarrow> 0 < word_sum bs \<and> 65535 dvd word_sum bs"
  using compute_parts_zero [of "[bs]"] by (simp add: checksum_valid_def checksum_compute_def)

lemma compute_parts_sealed:
  assumes "even (length xs)" and "length xs + length ys + 2 \<le> 2 ^ 17"
    and "concat parts = xs @ [0, 0] @ ys" and "concat parts' = xs @ be_bytes 2 (compute_parts parts) @ ys"
  shows "compute_parts parts' = 0"
proof -
  let ?s = "word_sum (xs @ [0, 0] @ ys)"
  have s: "?s = word_sum xs + word_sum ys" using assms(1) by (simp add: word_sum_append be_value_two)
  have c: "compute_parts parts = 65535 - fold_sum ?s" using assms(2,3) by (simp add: compute_parts_value)
  then have small: "compute_parts parts < 65536" by simp
  have "word_sum (be_bytes 2 (compute_parts parts) @ ys) = compute_parts parts + word_sum ys"
    using be_value_bytes [of 2 "compute_parts parts"] small by (simp add: be_bytes_two)
  then have t: "word_sum (concat parts') = ?s + (65535 - fold_sum ?s)"
    using assms(1,4) s c by (simp add: word_sum_append)
  moreover have "65535 dvd ?s + (65535 - fold_sum ?s)"
  proof (cases "?s = 0 \<or> 65535 dvd ?s")
    case False
    have "?s mod 65535 < 65535" by simp
    then have "?s + (65535 - ?s mod 65535) = ?s div 65535 * 65535 + 65535"
      using div_mod_decomp [of ?s 65535] by linarith
    then show ?thesis using False by (simp add: fold_sum_value)
  qed (auto simp: fold_sum_value)
  moreover have "0 < ?s + (65535 - fold_sum ?s)" by (cases "?s = 0") (simp add: fold_sum_value, linarith)
  ultimately show ?thesis using assms(2,4) by (subst compute_parts_zero) simp_all
qed

lemma checksum_sealed:
  "even (length xs) \<Longrightarrow> length xs + length ys + 2 \<le> 2 ^ 17
   \<Longrightarrow> checksum_valid (xs @ be_bytes 2 (checksum_compute (xs @ [0, 0] @ ys)) @ ys)"
  unfolding checksum_valid_def checksum_compute_def
  by (rule compute_parts_sealed [of xs ys "[xs @ [0, 0] @ ys]"]) simp_all

lemma small_change:
  fixes s t x y w :: nat
  assumes "x < 256" "y < 256" "x \<noteq> y" "w = 1 \<or> w = 256" "s + y * w = t + x * w" "65535 dvd s"
  shows "\<not> 65535 dvd t"
proof
  assume "65535 dvd t"
  then obtain k l where kl: "s = 65535 * k" "t = 65535 * l" using assms(6) by (auto elim!: dvdE)
  show False
  proof (cases rule: linorder_cases [of k l])
    case less
    then show ?thesis using assms(1-5) kl by auto
  next
    case equal
    then show ?thesis using assms(1-5) kl by auto
  next
    case greater
    then show ?thesis using assms(1-5) kl by auto
  qed
qed

lemma checksum_damaged:
  assumes "checksum_valid bs" "length bs \<le> 2 ^ 17" "i < length bs" "b \<noteq> bs ! i"
  shows "\<not> checksum_valid (bs[i := b])"
proof -
  have "word_sum bs + unat b * (if even i then 256 else 1) = word_sum (bs[i := b]) + unat (bs ! i) * (if even i then 256 else 1)"
    using word_sum_update [OF assms(3), of b] by simp
  moreover have "65535 dvd word_sum bs" using assms(1,2) by (simp add: checksum_valid_iff)
  moreover have "unat (bs ! i) \<noteq> unat b" using assms(4) by (auto simp: word_unat_eq_iff)
  ultimately have "\<not> 65535 dvd word_sum (bs[i := b])"
    using small_change [of "unat (bs ! i)" "unat b" "if even i then 256 else 1"] unat_byte_lt by simp
  then show ?thesis using assms(2) by (simp add: checksum_valid_iff)
qed

section \<open>What is emitted parses\<close>

lemma ether_value_parse [simp]: "ether_parse (ether_value t) = Inr t"
  by (cases t) (simp_all add: ether_parse_def)

lemma ether_value_lt: "ether_value t < 65536"
  by (cases t) simp_all

lemma field_be_segment [simp]:
  "length xs \<le> at \<Longrightarrow> field_be n at (xs @ ys) = field_be n (at - length xs) ys"
  "0 < at \<Longrightarrow> field_be n at (x # ys) = field_be n (at - 1) ys"
  "field_be n 0 (be_bytes n v @ ys) = v mod 256 ^ n"
  by (simp_all add: field_be_def be_value_bytes)

definition frame_fits :: "frame \<Rightarrow> bool" where
  "frame_fits f \<longleftrightarrow> length (fr_dst f) = 6 \<and> length (fr_src f) = 6"

lemma frame_emit_image:
  assumes "frame_fits f"
  shows "frame_emit f bytes =
    (if length bytes < 14 + length (fr_payload f) then Inl NetBuffer
     else Inr (14 + length (fr_payload f),
       fr_dst f @ fr_src f @ be_bytes 2 (ether_value (fr_ether_type f)) @ fr_payload f @ drop (14 + length (fr_payload f)) bytes))"
  using assms by (simp add: frame_emit_def frame_fits_def put_be_def Let_def add.commute)

lemma frame_parse_image:
  assumes "frame_fits f"
  shows "frame_parse (fr_dst f @ fr_src f @ be_bytes 2 (ether_value (fr_ether_type f)) @ rest) = Inr (f\<lparr>fr_payload := rest\<rparr>)"
  using assms ether_value_lt [of "fr_ether_type f"] by (cases f) (simp add: frame_parse_def frame_fits_def)

theorem frame_roundtrip:
  assumes "frame_fits f" and "frame_emit f bytes = Inr (n, out)"
  shows "frame_parse (take n out) = Inr f" and "length out = length bytes"
  using assms frame_parse_image [OF assms(1), of "fr_payload f"]
  by (auto simp: frame_emit_image frame_fits_def split: if_splits)

definition arp_fits :: "arp \<Rightarrow> bool" where
  "arp_fits p \<longleftrightarrow> length (arp_tx_hardware p) = 6 \<and> length (arp_tx_protocol p) = 4
     \<and> length (arp_rx_hardware p) = 6 \<and> length (arp_rx_protocol p) = 4"

lemma arp_operation_value [simp]: "arp_operation_parse (arp_value t) = Inr t" "arp_value t < 65536"
  by (cases t; simp add: arp_operation_parse_def)+

lemma slice_be_bytes [simp]: "sub_slice 0 n (be_bytes n v @ ys) = be_bytes n v"
  by simp

lemma nth_segments:
  "length xs \<le> i \<Longrightarrow> (xs @ ys) ! i = ys ! (i - length xs)" "(x # ys) ! 0 = x"
  by (simp_all add: nth_append)

theorem arp_roundtrip:
  assumes "arp_fits p" and "28 \<le> length bytes"
  shows "\<exists>out. arp_emit p bytes = Inr (28, out) \<and> length out = length bytes \<and> arp_parse out = Inr p"
proof -
  let ?out = "be_bytes 2 1 @ be_bytes 2 0x0800 @ [6] @ [4] @ be_bytes 2 (arp_value (arp_operation p)) @ arp_tx_hardware p
    @ arp_tx_protocol p @ arp_rx_hardware p @ arp_rx_protocol p @ drop 28 bytes"
  have "arp_emit p bytes = Inr (28, ?out)"
    using assms by (simp add: arp_emit_def arp_fits_def put_be_def put_byte_slice Let_def)
  moreover have "length ?out = length bytes" using assms by (simp add: arp_fits_def)
  moreover have "arp_parse ?out = Inr p"
    using assms by (cases p) (simp add: arp_parse_def arp_fits_def nth_segments)
  ultimately show ?thesis by blast
qed

lemma emitted_image:
  assumes "emitted = Inr (h + length payload, head @ payload @ drop (h + length payload) bytes)"
    and "length head = h" and "h + length payload \<le> length bytes" and "\<And>padding. parse (head @ payload @ padding) = Inr p"
  shows "\<exists>out. emitted = Inr (h + length payload, out) \<and> length out = length bytes
    \<and> (\<forall>padding. parse (take (h + length payload) out @ padding) = Inr p)"
  using assms by simp

definition ipv4_fits :: "ipv4 \<Rightarrow> bool" where
  "ipv4_fits p \<longleftrightarrow> length (ip4_src p) = 4 \<and> length (ip4_dst p) = 4"

lemma ipv4_emit_image:
  assumes "ipv4_fits p" and "20 + length (ip4_payload p) < 2 ^ 16" and "20 + length (ip4_payload p) \<le> length bytes"
  obtains c where
    "ipv4_emit p bytes = Inr (20 + length (ip4_payload p),
       [0x45, 0] @ be_bytes 2 (20 + length (ip4_payload p)) @ [0, 0] @ be_bytes 2 0x4000 @ [64, ip4_protocol p] @ be_bytes 2 c
       @ ip4_src p @ ip4_dst p @ ip4_payload p @ drop (20 + length (ip4_payload p)) bytes)"
    "checksum_valid ([0x45, 0] @ be_bytes 2 (20 + length (ip4_payload p)) @ [0, 0] @ be_bytes 2 0x4000 @ [64, ip4_protocol p]
       @ be_bytes 2 c @ ip4_src p @ ip4_dst p)"
proof -
  let ?head = "[0x45, 0] @ be_bytes 2 (20 + length (ip4_payload p)) @ [0, 0] @ be_bytes 2 0x4000 @ [64, ip4_protocol p]"
  let ?c = "checksum_compute (?head @ [0, 0] @ ip4_src p @ ip4_dst p)"
  have sealed: "checksum_valid (?head @ be_bytes 2 ?c @ ip4_src p @ ip4_dst p)"
    using assms(1) by (intro checksum_sealed) (simp_all add: ipv4_fits_def)
  have emitted: "ipv4_emit p bytes = Inr (20 + length (ip4_payload p),
       ?head @ be_bytes 2 ?c @ ip4_src p @ ip4_dst p @ ip4_payload p @ drop (20 + length (ip4_payload p)) bytes)"
    using assms by (simp add: ipv4_emit_def ipv4_fits_def put_be_def put_byte_slice checksum_set_def Let_def replicate_two add.commute)
  show thesis using that [of ?c] sealed emitted by simp
qed

theorem ipv4_roundtrip:
  assumes "ipv4_fits p" and "20 + length (ip4_payload p) < 2 ^ 16" and "20 + length (ip4_payload p) \<le> length bytes"
  shows "\<exists>out. ipv4_emit p bytes = Inr (20 + length (ip4_payload p), out) \<and> length out = length bytes
    \<and> (\<forall>padding. ipv4_parse (take (20 + length (ip4_payload p)) out @ padding) = Inr p)"
proof -
  obtain c where emitted: "ipv4_emit p bytes = Inr (20 + length (ip4_payload p),
       [0x45, 0] @ be_bytes 2 (20 + length (ip4_payload p)) @ [0, 0] @ be_bytes 2 0x4000 @ [64, ip4_protocol p] @ be_bytes 2 c
       @ ip4_src p @ ip4_dst p @ ip4_payload p @ drop (20 + length (ip4_payload p)) bytes)"
    and sealed: "checksum_valid ([0x45, 0] @ be_bytes 2 (20 + length (ip4_payload p)) @ [0, 0] @ be_bytes 2 0x4000
       @ [64, ip4_protocol p] @ be_bytes 2 c @ ip4_src p @ ip4_dst p)"
    using ipv4_emit_image [OF assms] .
  have "ipv4_parse ([0x45, 0] @ be_bytes 2 (20 + length (ip4_payload p)) @ [0, 0] @ be_bytes 2 0x4000 @ [64, ip4_protocol p]
       @ be_bytes 2 c @ ip4_src p @ ip4_dst p @ ip4_payload p @ padding) = Inr p" for padding
    using assms sealed by (cases p) (simp add: ipv4_parse_def ipv4_fits_def nth_segments)
  then show ?thesis using assms emitted
    by (intro emitted_image [of _ 20 _ "[0x45, 0] @ be_bytes 2 (20 + length (ip4_payload p)) @ [0, 0] @ be_bytes 2 0x4000
          @ [64, ip4_protocol p] @ be_bytes 2 c @ ip4_src p @ ip4_dst p"]) (simp_all add: ipv4_fits_def)
qed

text \<open>
  C26. A packet that parses no longer does when any one byte of its header after the first,
  options included, is changed in any way: the checksum of the header refuses it.
\<close>

theorem ipv4_damage_refused:
  assumes "ipv4_parse bytes = Inr p" and "0 < i" and "i < unat (bytes ! 0 AND 0x0f) * 4" and "b \<noteq> bytes ! i"
  shows "\<exists>e. ipv4_parse (bytes[i := b]) = Inl e"
proof -
  let ?header = "unat (bytes ! 0 AND 0x0f) * 4"
  have len: "?header \<le> length bytes" and valid: "checksum_valid (take ?header bytes)"
    using assms(1) by (auto simp: ipv4_parse_def Let_def split: if_splits)
  have "unat (bytes ! 0 AND 0x0f) < 256" by (rule unat_byte_lt)
  then have "\<not> checksum_valid ((take ?header bytes)[i := b])"
    using checksum_damaged [OF valid, of i b] len assms(3,4) by simp
  then have "\<not> checksum_valid (take ?header (bytes[i := b]))" by (simp add: take_update_swap)
  moreover have "bytes[i := b] ! 0 = bytes ! 0" using assms(2) by simp
  ultimately show ?thesis by (auto simp: ipv4_parse_def Let_def)
qed

definition ipv6_fits :: "ipv6 \<Rightarrow> bool" where
  "ipv6_fits p \<longleftrightarrow> length (ip6_src p) = 16 \<and> length (ip6_dst p) = 16 \<and> ip6_next_header p \<notin> {0, 43, 44, 51, 60}"

theorem ipv6_roundtrip:
  assumes "ipv6_fits p" and "length (ip6_payload p) < 2 ^ 16" and "40 + length (ip6_payload p) \<le> length bytes"
  shows "\<exists>out. ipv6_emit p bytes = Inr (40 + length (ip6_payload p), out) \<and> length out = length bytes
    \<and> (\<forall>padding. ipv6_parse (take (40 + length (ip6_payload p)) out @ padding) = Inr p)"
proof -
  let ?head = "[0x60, 0, 0, 0] @ be_bytes 2 (length (ip6_payload p)) @ [ip6_next_header p, ip6_hop_limit p] @ ip6_src p @ ip6_dst p"
  have emitted: "ipv6_emit p bytes = Inr (40 + length (ip6_payload p),
      ?head @ ip6_payload p @ drop (40 + length (ip6_payload p)) bytes)"
    using assms by (simp add: ipv6_emit_def ipv6_fits_def put_be_def put_byte_slice Let_def numeral_3_eq_3 add.commute)
  have "ipv6_parse (?head @ ip6_payload p @ padding) = Inr p" for padding
    using assms by (cases p) (simp add: ipv6_parse_def ipv6_fits_def nth_segments)
  then show ?thesis using assms emitted by (intro emitted_image [of _ 40 _ ?head]) (simp_all add: ipv6_fits_def)
qed

section \<open>Checksums over a pseudo-header\<close>

lemma over_ipv6_parts:
  assumes "length src = 16" "length dst = 16"
  shows "over_ipv6 src dst proto bs = compute_parts [src @ dst @ be_bytes 4 (length bs) @ [0, 0, 0, proto], bs]"
proof -
  have "replicate 4 (0::byte) = [0, 0, 0, 0]" by (simp add: eval_nat_numeral)
  then show ?thesis using assms by (simp add: over_ipv6_def Let_def put_be_def put_byte_slice numeral_3_eq_3)
qed

lemma over_ipv4_parts:
  assumes "length src = 4" "length dst = 4"
  shows "over_ipv4 src dst proto bs = compute_parts [src @ dst @ [0, proto] @ be_bytes 2 (length bs), bs]"
  using assms by (simp add: over_ipv4_def Let_def put_be_def put_byte_slice numeral_3_eq_3)

lemma over_ipv6_sealed:
  assumes "length src = 16" "length dst = 16" "even (length xs)" "length xs + length ys < 2 ^ 16"
  shows "over_ipv6 src dst proto (xs @ be_bytes 2 (over_ipv6 src dst proto (xs @ [0, 0] @ ys)) @ ys) = 0"
  unfolding over_ipv6_parts [OF assms(1,2)]
  by (rule compute_parts_sealed [of "src @ dst @ be_bytes 4 (length xs + 2 + length ys) @ [0, 0, 0, proto] @ xs" ys
        "[src @ dst @ be_bytes 4 (length (xs @ [0, 0] @ ys)) @ [0, 0, 0, proto], xs @ [0, 0] @ ys]"]) (use assms in simp_all)

lemma over_ipv4_sealed:
  assumes "length src = 4" "length dst = 4" "even (length xs)" "length xs + length ys < 2 ^ 16"
  shows "over_ipv4 src dst proto (xs @ be_bytes 2 (over_ipv4 src dst proto (xs @ [0, 0] @ ys)) @ ys) = 0"
  unfolding over_ipv4_parts [OF assms(1,2)]
  by (rule compute_parts_sealed [of "src @ dst @ [0, proto] @ be_bytes 2 (length xs + 2 + length ys) @ xs" ys
        "[src @ dst @ [0, proto] @ be_bytes 2 (length (xs @ [0, 0] @ ys)), xs @ [0, 0] @ ys]"]) (use assms in simp_all)

section \<open>Discovery messages\<close>

fun icmp_fits :: "icmp_message \<Rightarrow> bool" where
  "icmp_fits (EchoRequest ident seq data) \<longleftrightarrow> ident < 2 ^ 16 \<and> seq < 2 ^ 16"
| "icmp_fits (EchoReply ident seq data) \<longleftrightarrow> ident < 2 ^ 16 \<and> seq < 2 ^ 16"
| "icmp_fits (Solicitation target link) \<longleftrightarrow> length target = 16 \<and> (case link of None \<Rightarrow> True | Some m \<Rightarrow> length m = 6)"
| "icmp_fits (Advertisement target link solicited) \<longleftrightarrow> length target = 16 \<and> (case link of None \<Rightarrow> True | Some m \<Rightarrow> length m = 6)"

fun link_option :: "byte \<Rightarrow> mac_addr option \<Rightarrow> byte list" where
  "link_option kind None = []"
| "link_option kind (Some m) = [kind, 1] @ m"

fun icmp_kind :: "icmp_message \<Rightarrow> byte" where
  "icmp_kind (EchoRequest ident seq data) = 128"
| "icmp_kind (EchoReply ident seq data) = 129"
| "icmp_kind (Solicitation target link) = 135"
| "icmp_kind (Advertisement target link solicited) = 136"

fun icmp_tail :: "icmp_message \<Rightarrow> byte list" where
  "icmp_tail (EchoRequest ident seq data) = be_bytes 2 ident @ be_bytes 2 seq @ data"
| "icmp_tail (EchoReply ident seq data) = be_bytes 2 ident @ be_bytes 2 seq @ data"
| "icmp_tail (Solicitation target link) = [0, 0, 0, 0] @ target @ link_option 1 link"
| "icmp_tail (Advertisement target link solicited) =
     [0x20 OR (if solicited then 0x40 else 0), 0, 0, 0] @ target @ link_option 2 link"

lemma replicate_small: "replicate 3 x = [x, x, x]" "replicate 4 x = [x, x, x, x]" "replicate 7 x = [x, x, x, x, x, x, x]"
  by (simp_all add: eval_nat_numeral)

lemma icmp_body_image:
  "icmp_fits m \<Longrightarrow> icmp_body m (replicate (icmp_bytes m) 0) = [icmp_kind m, 0, 0, 0] @ icmp_tail m"
  by (cases m) (auto simp: emit_echo_def emit_option_def put_be_def put_byte_slice replicate_small split: option.splits)

lemma icmp_option_link:
  "case link of None \<Rightarrow> True | Some m \<Rightarrow> length m = 6 \<Longrightarrow> icmp_option (link_option kind link) kind None = Inr link"
  by (cases link) (simp_all add: icmp_option.simps)

text \<open>
  C35. A message that is emitted parses back to itself.
\<close>

theorem icmp_roundtrip:
  assumes "icmp_fits m" "length src = 16" "length dst = 16" "icmp_bytes m < 2 ^ 16" "icmp_bytes m \<le> length bytes"
  shows "\<exists>out. icmp_emit m src dst bytes = Inr (icmp_bytes m, out) \<and> length out = length bytes
    \<and> icmp_parse src dst (take (icmp_bytes m) out) = Inr m"
proof -
  let ?c = "over_ipv6 src dst ICMP_PROTOCOL ([icmp_kind m, 0, 0, 0] @ icmp_tail m)"
  let ?out = "[icmp_kind m, 0] @ be_bytes 2 ?c @ icmp_tail m"
  have len: "length ?out = icmp_bytes m" using assms(1) by (cases m) (auto split: option.splits)
  have sealed: "over_ipv6 src dst ICMP_PROTOCOL ?out = 0"
    using over_ipv6_sealed [OF assms(2,3), of "[icmp_kind m, 0]" "icmp_tail m" ICMP_PROTOCOL] assms(4) len by simp
  have parsed: "icmp_parse src dst ?out = Inr m"
  proof -
    have "8 \<le> length ?out" using len by (cases m) auto
    then show ?thesis using assms(1) sealed icmp_option_link by (cases m) (auto simp: icmp_parse_def nth_segments)
  qed
  have "icmp_emit m src dst bytes = Inr (icmp_bytes m, ?out @ drop (icmp_bytes m) bytes)"
    using assms(1,5) len by (simp add: icmp_emit_def Let_def icmp_body_image put_be_def)
  then show ?thesis using parsed len assms(5) by (auto simp del: append.simps)
qed

theorem ipv4_damage_refused_witness:
  "\<exists>bytes e. ipv4_parse bytes = Inr \<lparr>ip4_src = [10, 0, 0, 1], ip4_dst = [10, 0, 0, 2], ip4_protocol = 17, ip4_payload = [1]\<rparr>
    \<and> ipv4_parse (bytes[12 := 11]) = Inl e"
proof -
  let ?p = "\<lparr>ip4_src = [10, 0, 0, 1], ip4_dst = [10, 0, 0, 2], ip4_protocol = 17, ip4_payload = [1 :: byte]\<rparr>"
  obtain bytes where b: "ipv4_parse bytes = Inr ?p"
    using ipv4_roundtrip [of ?p "replicate 21 0"] by (auto simp: ipv4_fits_def)
  then have "sub_slice 12 4 bytes = [10, 0, 0, 1]" "20 \<le> length bytes" "20 \<le> unat (bytes ! 0 AND 0x0f) * 4"
    by (auto simp: ipv4_parse_def Let_def split: if_splits)
  then have "bytes ! 12 = 10" using nth_slice [of 0 4 12 bytes] by simp
  then show ?thesis using ipv4_damage_refused [OF b, of 12 11] b \<open>20 \<le> unat _ * 4\<close> by auto
qed

theorem icmp_roundtrip_witness:
  "\<exists>out. icmp_emit (EchoReply 1 2 [3]) (replicate 16 1) (replicate 16 2) (replicate 9 0) = Inr (9, out)
    \<and> icmp_parse (replicate 16 1) (replicate 16 2) (take 9 out) = Inr (EchoReply 1 2 [3])"
  using icmp_roundtrip [of "EchoReply 1 2 [3]" "replicate 16 1" "replicate 16 2" "replicate 9 0"] by auto

end
