(* ===== verification/Fifo_Spec.thy ===== *)
theory Fifo_Spec
  imports Prelude
begin

section \<open>The contract of a bounded queue, and windows over wrapping counters\<close>

text \<open>
  Every ring of the system promises the same thing: a bounded first-in, first-out queue
  that hands a value back when it is full. The locale states that contract once, and proves
  what a client may conclude from any sequence of calls. The second half is the
  arithmetic the rings share: a window of slots addressed by wrapping counters.
\<close>

datatype 'a fifo_op = Push 'a | Pop

locale bounded_fifo =
  fixes push :: "'q \<Rightarrow> 'a \<Rightarrow> 'q option"
    and pop :: "'q \<Rightarrow> ('a \<times> 'q) option"
    and contents :: "'q \<Rightarrow> 'a list"
    and capacity :: "'q \<Rightarrow> nat"
    and ok :: "'q \<Rightarrow> bool"
  assumes push_None: "ok q \<Longrightarrow> push q x = None \<longleftrightarrow> length (contents q) = capacity q"
    and push_Some: "ok q \<Longrightarrow> push q x = Some q' \<Longrightarrow>
      ok q' \<and> contents q' = contents q @ [x] \<and> capacity q' = capacity q"
    and pop_None: "ok q \<Longrightarrow> pop q = None \<longleftrightarrow> contents q = []"
    and pop_Some: "ok q \<Longrightarrow> pop q = Some (x, q') \<Longrightarrow>
      ok q' \<and> contents q = x # contents q' \<and> capacity q' = capacity q"
    and within_capacity: "ok q \<Longrightarrow> length (contents q) \<le> capacity q"
begin

text \<open>
  A run performs the calls in order and keeps what was accepted and what came out.
\<close>

fun run :: "'q \<Rightarrow> 'a fifo_op list \<Rightarrow> 'a list \<times> 'a list \<times> 'q" where
  "run q [] = ([], [], q)"
| "run q (Push x # ops) =
     (case push q x of
        None \<Rightarrow> run q ops
      | Some q' \<Rightarrow> (case run q' ops of (ins, outs, r) \<Rightarrow> (x # ins, outs, r)))"
| "run q (Pop # ops) =
     (case pop q of
        None \<Rightarrow> run q ops
      | Some (x, q') \<Rightarrow> (case run q' ops of (ins, outs, r) \<Rightarrow> (ins, x # outs, r)))"

lemma run_fifo:
  assumes "ok q" and "run q ops = (ins, outs, r)"
  shows "ok r \<and> capacity r = capacity q \<and> contents q @ ins = outs @ contents r"
  using assms
proof (induction q ops arbitrary: ins outs r rule: run.induct)
  case (1 q)
  then show ?case by simp
next
  case (2 q x ops)
  then show ?case
    by (fastforce dest: push_Some split: option.splits prod.splits)
next
  case (3 q ops)
  then show ?case
    by (fastforce dest: pop_Some split: option.splits prod.splits)
qed

lemma run_bounded:
  assumes "ok q" and "run q ops = (ins, outs, r)"
  shows "length (contents r) \<le> capacity q"
  using run_fifo [OF assms] within_capacity [of r] by simp

lemma run_from_empty:
  assumes "ok q" and "contents q = []" and "run q ops = (ins, outs, r)"
  shows "ins = outs @ contents r \<and> length (contents r) \<le> capacity q"
  using run_fifo [OF assms(1,3)] run_bounded [OF assms(1,3)] assms(2) by simp

end

subsection \<open>Slots named by wrapping counters\<close>

text \<open>
  A counter of type \<open>'l word\<close> wraps at \<open>2 ^ LENGTH('l)\<close>; the slot it names is the counter
  modulo the ring's length. As long as the length divides the counter's period, moving the
  counter moves the slot by the same amount, across the wrap too.
\<close>

definition slot_of :: "nat \<Rightarrow> 'l::len word \<Rightarrow> nat" where
  "slot_of n i = unat i mod n"

definition window :: "nat \<Rightarrow> (nat \<Rightarrow> 'a) \<Rightarrow> 'l::len word \<Rightarrow> nat \<Rightarrow> 'a list" where
  "window n f h k = map (\<lambda>j. f (slot_of n (h + of_nat j))) [0..<k]"

lemma slot_of_less [simp]: "0 < n \<Longrightarrow> slot_of n i < n"
  by (simp add: slot_of_def)

lemma slot_of_add:
  fixes h :: "'l::len word"
  assumes "n dvd 2 ^ LENGTH('l)"
  shows "slot_of n (h + of_nat j) = (unat h + j) mod n"
proof -
  have "unat (h + of_nat j) = (unat h + j) mod 2 ^ LENGTH('l)"
    by (simp add: unat_word_ariths unat_of_nat mod_add_right_eq)
  then show ?thesis
    by (simp add: slot_of_def mod_mod_cancel [OF assms])
qed

lemma mod_add_left_inj:
  assumes "(u + i) mod n = (u + j) mod n" and "i < n" and "j < (n::nat)"
  shows "i = j"
proof (rule ccontr)
  assume "i \<noteq> j"
  then consider "i < j" | "j < i" by linarith
  then show False
  proof cases
    case 1
    then have "n dvd (u + j) - (u + i)"
      using assms(1) mod_eq_dvd_iff_nat [of "u + i" "u + j" n] by simp
    with 1 assms(3) show False by (auto dest: dvd_imp_le)
  next
    case 2
    then have "n dvd (u + i) - (u + j)"
      using assms(1) mod_eq_dvd_iff_nat [of "u + j" "u + i" n] by simp
    with 2 assms(2) show False by (auto dest: dvd_imp_le)
  qed
qed

lemma slot_of_inj:
  fixes h :: "'l::len word"
  assumes dvd: "n dvd 2 ^ LENGTH('l)" and "i < n" and "j < n"
    and eq: "slot_of n (h + of_nat i) = slot_of n (h + of_nat j)"
  shows "i = j"
  using eq mod_add_left_inj [of "unat h" i n j] assms(2,3)
  by (simp add: slot_of_add [OF dvd])

lemma length_window [simp]: "length (window n f h k) = k"
  by (simp add: window_def)

lemma window_0 [simp]: "window n f h 0 = []"
  by (simp add: window_def)

lemma window_Suc_front:
  "window n f h (Suc k) = f (slot_of n h) # window n f (h + 1) k"
proof -
  have "map (\<lambda>j. f (slot_of n (h + of_nat j))) [0..<Suc k] =
    f (slot_of n h) # map (\<lambda>j. f (slot_of n (h + of_nat (Suc j)))) [0..<k]"
    by (simp add: map_upt_Suc del: upt_Suc)
  then show ?thesis by (simp add: window_def algebra_simps)
qed

lemma window_Suc_back:
  "window n f h (Suc k) = window n f h k @ [f (slot_of n (h + of_nat k))]"
  by (simp add: window_def)

lemma window_write_fresh:
  fixes h :: "'l::len word"
  assumes "n dvd 2 ^ LENGTH('l)" and "k < n"
  shows "window n (f(slot_of n (h + of_nat k) := x)) h k = window n f h k"
proof -
  have "slot_of n (h + of_nat j) \<noteq> slot_of n (h + of_nat k)" if "j < k" for j
    using slot_of_inj [OF assms(1), of j k h] assms(2) that by auto
  then show ?thesis by (auto simp: window_def)
qed

lemma window_write_back:
  fixes h :: "'l::len word"
  assumes "n dvd 2 ^ LENGTH('l)" and "k < n"
  shows "window n (f(slot_of n (h + of_nat k) := x)) h (Suc k) = window n f h k @ [x]"
  using window_write_fresh [OF assms] by (simp add: window_Suc_back)

lemma window_write_front:
  fixes h :: "'l::len word"
  assumes "n dvd 2 ^ LENGTH('l)" and "Suc k \<le> n"
  shows "window n (f(slot_of n h := x)) (h + 1) k = window n f (h + 1) k"
proof -
  have "slot_of n (h + 1 + of_nat j) \<noteq> slot_of n h" if "j < k" for j
    using slot_of_inj [OF assms(1), of "Suc j" 0 h] assms(2) that by (auto simp: algebra_simps)
  then show ?thesis by (auto simp: window_def)
qed

lemma window_cong:
  assumes "0 < n" and "\<And>i. i < n \<Longrightarrow> f i = g i"
  shows "window n f h k = window n g h k"
  using assms by (simp add: window_def)

lemma window_update_back:
  fixes h :: "'l::len word"
  assumes "n dvd 2 ^ LENGTH('l)" and "k < n" and "length xs = n"
  shows "window n ((!) (xs[slot_of n (h + of_nat k) := x])) h (Suc k) = window n ((!) xs) h k @ [x]"
proof -
  have "window n ((!) (xs[slot_of n (h + of_nat k) := x])) h (Suc k) =
    window n (((!) xs)(slot_of n (h + of_nat k) := x)) h (Suc k)"
    using assms by (intro window_cong) (auto simp: nth_list_update)
  then show ?thesis by (simp only: window_write_back [OF assms(1,2)])
qed

lemma window_update_front:
  fixes h :: "'l::len word"
  assumes "n dvd 2 ^ LENGTH('l)" and "Suc k \<le> n" and "length xs = n"
  shows "window n ((!) (xs[slot_of n h := x])) (h + 1) k = window n ((!) xs) (h + 1) k"
proof -
  have "window n ((!) (xs[slot_of n h := x])) (h + 1) k =
    window n (((!) xs)(slot_of n h := x)) (h + 1) k"
    using assms by (intro window_cong) (auto simp: nth_list_update)
  then show ?thesis by (simp only: window_write_front [OF assms(1,2)])
qed

text \<open>The distance between two counters, and how it moves with each of them.\<close>

lemma unat_plus_one:
  fixes d :: "'l::len word"
  assumes "Suc (unat d) < 2 ^ LENGTH('l)"
  shows "unat (d + 1) = Suc (unat d)"
  using assms by (simp add: unat_word_ariths)

lemma unat_diff_Suc:
  fixes t h :: "'l::len word"
  assumes "Suc (unat (t - h)) < 2 ^ LENGTH('l)"
  shows "unat (t + 1 - h) = Suc (unat (t - h))"
  using unat_plus_one [OF assms] by (simp only: diff_add_eq)

lemma unat_diff_pred:
  fixes t h :: "'l::len word"
  assumes "t \<noteq> h"
  shows "Suc (unat (t - (h + 1))) = unat (t - h)"
proof -
  have "t - (h + 1) = (t - h) - 1" by (simp add: algebra_simps)
  moreover have "0 < unat (t - h)" using assms by (simp add: unat_gt_0)
  ultimately show ?thesis using assms by (metis Suc_pred' right_minus_eq unat_minus_one)
qed

lemma counter_at_distance:
  fixes t h :: "'l::len word"
  shows "h + of_nat (unat (t - h)) = t"
  by simp

end
