(* ===== verification/Spsc_Ring.thy ===== *)
theory Spsc_Ring
  imports Fifo_Spec
begin

section \<open>The kernel's rings (crates/sys/core/src/ring.rs)\<close>

text \<open>
  \<open>SpscRing<T, N>\<close> is \<open>N\<close> possibly uninitialised slots and two wrapping \<open>usize\<close> counters
  (64 bits on both targets). An uninitialised slot is \<open>None\<close>. Reading one with
  \<open>assume_init_read\<close> is undefined behaviour in Rust and the value \<open>Undefined\<close> here; a value
  moved out leaves its slot uninitialised.
\<close>

datatype 'a outcome = Undefined | Returns 'a

record 'a spsc =
  spsc_slots :: "'a option list"
  spsc_head :: u64
  spsc_tail :: u64

definition spsc_new :: "nat \<Rightarrow> 'a spsc" where
  "spsc_new n = \<lparr>spsc_slots = replicate n None, spsc_head = 0, spsc_tail = 0\<rparr>"

definition spsc_capacity :: "'a spsc \<Rightarrow> nat" where
  "spsc_capacity r = length (spsc_slots r)"

definition spsc_try_push :: "'a spsc \<Rightarrow> 'a \<Rightarrow> ('a + unit) \<times> 'a spsc" where
  "spsc_try_push r v =
     (let t = spsc_tail r; h = spsc_head r; n = spsc_capacity r
      in if t - h = of_nat n then (Inl v, r)
         else (Inr (), r\<lparr>spsc_slots := (spsc_slots r)[slot_of n t := Some v], spsc_tail := t + 1\<rparr>))"

definition spsc_try_pop :: "'a spsc \<Rightarrow> ('a option \<times> 'a spsc) outcome" where
  "spsc_try_pop r =
     (let h = spsc_head r; t = spsc_tail r; n = spsc_capacity r
      in if h = t then Returns (None, r)
         else case spsc_slots r ! slot_of n h of
           None \<Rightarrow> Undefined
         | Some v \<Rightarrow> Returns (Some v, r\<lparr>spsc_slots := (spsc_slots r)[slot_of n h := None], spsc_head := h + 1\<rparr>))"

text \<open>\<open>Drop\<close> walks from head to tail and drops each value in place.\<close>

function spsc_drop_from :: "'a option list \<Rightarrow> u64 \<Rightarrow> u64 \<Rightarrow> 'a list outcome" where
  "spsc_drop_from xs h t =
     (if h = t then Returns []
      else case xs ! slot_of (length xs) h of
        None \<Rightarrow> Undefined
      | Some v \<Rightarrow>
          (case spsc_drop_from (xs[slot_of (length xs) h := None]) (h + 1) t of
             Undefined \<Rightarrow> Undefined
           | Returns vs \<Rightarrow> Returns (v # vs)))"
  by pat_completeness auto
termination
proof (relation "measure (\<lambda>(xs, h, t). unat (t - h))", simp)
  fix xs :: "'a option list" and h t :: u64
  assume "h \<noteq> t"
  then show "((xs[slot_of (length xs) h := None], h + 1, t), xs, h, t)
    \<in> measure (\<lambda>(xs, h, t). unat (t - h))" for xs :: "'a option list"
    using unat_diff_pred [of t h] by simp
qed

declare spsc_drop_from.simps [simp del]

definition spsc_drop :: "'a spsc \<Rightarrow> 'a list outcome" where
  "spsc_drop r = spsc_drop_from (spsc_slots r) (spsc_head r) (spsc_tail r)"

subsection \<open>The paired rings\<close>

record 'o submission =
  sub_id :: u64
  sub_op :: 'o

record 'c completion =
  comp_id :: u64
  comp_result :: 'c

record ('o, 'c) io_ring =
  io_submissions :: "'o submission spsc"
  io_completions :: "'c completion spsc"

definition io_new :: "nat \<Rightarrow> ('o, 'c) io_ring" where
  "io_new n = \<lparr>io_submissions = spsc_new n, io_completions = spsc_new n\<rparr>"

definition client_try_submit ::
  "('o, 'c) io_ring \<Rightarrow> 'o submission \<Rightarrow> ('o submission + unit) \<times> ('o, 'c) io_ring" where
  "client_try_submit r s =
     (case spsc_try_push (io_submissions r) s of (res, q) \<Rightarrow> (res, r\<lparr>io_submissions := q\<rparr>))"

definition client_try_completion ::
  "('o, 'c) io_ring \<Rightarrow> ('c completion option \<times> ('o, 'c) io_ring) outcome" where
  "client_try_completion r =
     (case spsc_try_pop (io_completions r) of
        Undefined \<Rightarrow> Undefined
      | Returns (v, q) \<Rightarrow> Returns (v, r\<lparr>io_completions := q\<rparr>))"

definition driver_try_next ::
  "('o, 'c) io_ring \<Rightarrow> ('o submission option \<times> ('o, 'c) io_ring) outcome" where
  "driver_try_next r =
     (case spsc_try_pop (io_submissions r) of
        Undefined \<Rightarrow> Undefined
      | Returns (v, q) \<Rightarrow> Returns (v, r\<lparr>io_submissions := q\<rparr>))"

definition driver_try_complete ::
  "('o, 'c) io_ring \<Rightarrow> 'c completion \<Rightarrow> ('c completion + unit) \<times> ('o, 'c) io_ring" where
  "driver_try_complete r c =
     (case spsc_try_push (io_completions r) c of (res, q) \<Rightarrow> (res, r\<lparr>io_completions := q\<rparr>))"

subsection \<open>Invariant and contents\<close>

text \<open>
  Exactly the slots between head and tail are initialised. The slot arithmetic survives the
  counters' wrap only when \<open>N\<close> divides \<open>2 ^ 64\<close>.
\<close>

definition spsc_count :: "'a spsc \<Rightarrow> nat" where
  "spsc_count r = unat (spsc_tail r - spsc_head r)"

definition spsc_contents :: "'a spsc \<Rightarrow> 'a list" where
  "spsc_contents r =
     map the (window (spsc_capacity r) ((!) (spsc_slots r)) (spsc_head r) (spsc_count r))"

definition spsc_inv :: "'a spsc \<Rightarrow> bool" where
  "spsc_inv r \<longleftrightarrow>
     (let n = spsc_capacity r
      in 0 < n \<and> n < u64_limit \<and> n dvd u64_limit \<and> spsc_count r \<le> n \<and>
         (\<forall>j < n. spsc_slots r ! slot_of n (spsc_head r + of_nat j) \<noteq> None \<longleftrightarrow> j < spsc_count r))"

lemma spsc_full_iff:
  assumes "spsc_inv r"
  shows "spsc_tail r - spsc_head r = of_nat (spsc_capacity r) \<longleftrightarrow> spsc_count r = spsc_capacity r"
proof -
  have n: "spsc_capacity r < 2 ^ LENGTH(64)"
    using assms by (simp add: spsc_inv_def Let_def)
  show ?thesis
  proof
    assume "spsc_tail r - spsc_head r = of_nat (spsc_capacity r)"
    then show "spsc_count r = spsc_capacity r"
      using n by (simp add: spsc_count_def unat_of_nat)
  next
    assume "spsc_count r = spsc_capacity r"
    then show "spsc_tail r - spsc_head r = of_nat (spsc_capacity r)"
      by (auto simp: spsc_count_def dest: sym)
  qed
qed

lemma spsc_new_inv: "0 < n \<Longrightarrow> n < u64_limit \<Longrightarrow> n dvd u64_limit \<Longrightarrow> spsc_inv (spsc_new n)"
  by (simp add: spsc_inv_def spsc_new_def spsc_capacity_def spsc_count_def Let_def)

lemma spsc_new_contents [simp]: "spsc_contents (spsc_new n) = []"
  by (simp add: spsc_contents_def spsc_new_def spsc_count_def)

lemma spsc_push_accepted:
  assumes inv: "spsc_inv r" and room: "spsc_count r < spsc_capacity r"
  shows "\<exists>r'. spsc_try_push r v = (Inr (), r') \<and> spsc_inv r' \<and>
    spsc_contents r' = spsc_contents r @ [v] \<and> spsc_capacity r' = spsc_capacity r"
proof -
  define n where "n = spsc_capacity r"
  define h where "h = spsc_head r"
  define k where "k = spsc_count r"
  define r' where "r' = r\<lparr>spsc_slots := (spsc_slots r)[slot_of n (spsc_tail r) := Some v],
    spsc_tail := spsc_tail r + 1\<rparr>"
  have n: "0 < n" "n < u64_limit" "n dvd 2 ^ LENGTH(64)" and kn: "k < n"
    and init: "\<forall>j < n. spsc_slots r ! slot_of n (h + of_nat j) \<noteq> None \<longleftrightarrow> j < k"
    using inv room by (auto simp: spsc_inv_def Let_def n_def h_def k_def)
  have t: "spsc_tail r = h + of_nat k"
    by (simp add: h_def k_def spsc_count_def)
  have len: "length (spsc_slots r) = n" by (simp add: n_def spsc_capacity_def)
  have k': "spsc_count r' = Suc k"
    using n kn unat_diff_Suc [of "spsc_tail r" "spsc_head r"]
    by (simp add: spsc_count_def r'_def k_def)
  have fields: "spsc_capacity r = n" "spsc_capacity r' = n" "spsc_head r = h" "spsc_head r' = h"
    "spsc_count r = k" "spsc_slots r' = (spsc_slots r)[slot_of n (h + of_nat k) := Some v]"
    using len by (simp_all add: r'_def h_def k_def spsc_capacity_def spsc_count_def)
  have cont: "spsc_contents r' = spsc_contents r @ [v]"
    using window_update_back [OF n(3) kn len, of h "Some v"]
    by (simp add: spsc_contents_def fields k')
  have init': "spsc_slots r' ! slot_of n (h + of_nat j) \<noteq> None \<longleftrightarrow> j < Suc k" if "j < n" for j
  proof (cases "j = k")
    case True
    then show ?thesis using n len by (simp add: r'_def t)
  next
    case False
    then have "slot_of n (h + of_nat j) \<noteq> slot_of n (h + of_nat k)"
      using slot_of_inj [OF n(3) that kn, of h] by blast
    then show ?thesis using init that False by (simp add: r'_def t less_Suc_eq)
  qed
  have "spsc_inv r'"
    using n kn init' by (simp add: spsc_inv_def Let_def fields k')
  moreover have "spsc_try_push r v = (Inr (), r')"
    using spsc_full_iff [OF inv] room by (simp add: spsc_try_push_def Let_def r'_def n_def)
  moreover have "spsc_capacity r' = spsc_capacity r" by (simp add: spsc_capacity_def r'_def)
  ultimately show ?thesis using cont by blast
qed

lemma spsc_push_refused:
  assumes "spsc_inv r" and "spsc_count r = spsc_capacity r"
  shows "spsc_try_push r v = (Inl v, r)"
  using spsc_full_iff [OF assms(1)] assms(2) by (simp add: spsc_try_push_def Let_def)

lemma spsc_pop_empty: "spsc_count r = 0 \<Longrightarrow> spsc_try_pop r = Returns (None, r)"
  by (simp add: spsc_try_pop_def Let_def spsc_count_def unat_eq_zero)

lemma spsc_pop_value:
  assumes inv: "spsc_inv r" and some: "0 < spsc_count r"
  shows "\<exists>v r'. spsc_try_pop r = Returns (Some v, r') \<and> spsc_inv r' \<and>
    spsc_contents r = v # spsc_contents r' \<and> spsc_capacity r' = spsc_capacity r"
proof -
  define n where "n = spsc_capacity r"
  define h where "h = spsc_head r"
  obtain k where k: "spsc_count r = Suc k" using some by (cases "spsc_count r") auto
  have n: "0 < n" "n < u64_limit" "n dvd 2 ^ LENGTH(64)" and kn: "Suc k \<le> n"
    and init: "\<forall>j < n. spsc_slots r ! slot_of n (h + of_nat j) \<noteq> None \<longleftrightarrow> j < Suc k"
    using inv k by (auto simp: spsc_inv_def Let_def n_def h_def)
  obtain v where v: "spsc_slots r ! slot_of n h = Some v"
    using init [rule_format, of 0] n by auto
  define r' where "r' = r\<lparr>spsc_slots := (spsc_slots r)[slot_of n h := None], spsc_head := h + 1\<rparr>"
  have len: "length (spsc_slots r) = n" by (simp add: n_def spsc_capacity_def)
  have ne: "spsc_tail r \<noteq> h" using some by (auto simp: spsc_count_def h_def)
  have k': "spsc_count r' = k"
    using unat_diff_pred [OF ne] k by (simp add: spsc_count_def r'_def h_def)
  have win: "window n ((!) (spsc_slots r')) (h + 1) k = window n ((!) (spsc_slots r)) (h + 1) k"
    using window_update_front [OF n(3) kn len, of h None] by (simp add: r'_def)
  have fields: "spsc_capacity r = n" "spsc_capacity r' = n" "spsc_head r = h" "spsc_head r' = h + 1"
    using len by (simp_all add: r'_def h_def spsc_capacity_def)
  have cont: "spsc_contents r = v # spsc_contents r'"
    using win v by (simp add: spsc_contents_def window_Suc_front k' k fields)
  have step: "h + 1 + of_nat j = h + of_nat (Suc j)" for j by simp
  have init': "spsc_slots r' ! slot_of n (h + 1 + of_nat j) \<noteq> None \<longleftrightarrow> j < k" if "j < n" for j
  proof (cases "Suc j < n")
    case True
    then have "spsc_slots r ! slot_of n (h + of_nat (Suc j)) \<noteq> None \<longleftrightarrow> j < k"
      using init by auto
    moreover have "slot_of n (h + of_nat (Suc j)) \<noteq> slot_of n h"
      using slot_of_inj [OF n(3) True n(1), of h] by auto
    ultimately show ?thesis unfolding step by (simp add: r'_def del: of_nat_Suc)
  next
    case False
    then have "Suc j = n" using that by simp
    then have "slot_of n (h + of_nat (Suc j)) = slot_of n h"
      using slot_of_add [OF n(3), of h n] by (simp add: slot_of_def)
    then show ?thesis unfolding step
      using \<open>Suc j = n\<close> kn n len by (simp add: r'_def del: of_nat_Suc)
  qed
  have "spsc_inv r'"
    using n kn init' by (simp add: spsc_inv_def Let_def fields k')
  moreover have "spsc_try_pop r = Returns (Some v, r')"
    using v ne by (simp add: spsc_try_pop_def Let_def r'_def n_def h_def)
  moreover have "spsc_capacity r' = spsc_capacity r" by (simp add: spsc_capacity_def r'_def)
  ultimately show ?thesis using cont by blast
qed

subsection \<open>The ring implements the queue contract\<close>

definition spsc_push :: "'a spsc \<Rightarrow> 'a \<Rightarrow> 'a spsc option" where
  "spsc_push r v = (case spsc_try_push r v of (Inl _, _) \<Rightarrow> None | (Inr _, r') \<Rightarrow> Some r')"

definition spsc_pop :: "'a spsc \<Rightarrow> ('a \<times> 'a spsc) option" where
  "spsc_pop r = (case spsc_try_pop r of Returns (Some v, r') \<Rightarrow> Some (v, r') | _ \<Rightarrow> None)"

lemma spsc_push_eqs:
  "spsc_try_push r v = (Inl e, r') \<Longrightarrow> spsc_push r v = None"
  "spsc_try_push r v = (Inr u, r') \<Longrightarrow> spsc_push r v = Some r'"
  "spsc_try_pop r = Returns (None, r') \<Longrightarrow> spsc_pop r = None"
  "spsc_try_pop r = Returns (Some v, r') \<Longrightarrow> spsc_pop r = Some (v, r')"
  by (simp_all add: spsc_push_def spsc_pop_def)

lemma spsc_capacity_new [simp]: "spsc_capacity (spsc_new n) = n"
  by (simp add: spsc_capacity_def spsc_new_def)

lemma spsc_length_contents [simp]: "length (spsc_contents r) = spsc_count r"
  by (simp add: spsc_contents_def)

lemma spsc_count_le: "spsc_inv r \<Longrightarrow> spsc_count r \<le> spsc_capacity r"
  by (simp add: spsc_inv_def Let_def)

interpretation spsc_queue: bounded_fifo spsc_push spsc_pop spsc_contents spsc_capacity spsc_inv
proof
  fix r r' :: "'a spsc" and x
  assume inv: "spsc_inv r"
  consider "spsc_count r = spsc_capacity r" | "spsc_count r < spsc_capacity r"
    using spsc_count_le [OF inv] by linarith
  note room = this
  show "spsc_push r x = None \<longleftrightarrow> length (spsc_contents r) = spsc_capacity r"
    using room
    by cases (auto simp: spsc_push_def spsc_push_refused [OF inv] dest: spsc_push_accepted [OF inv, of x])
  show "spsc_inv r' \<and> spsc_contents r' = spsc_contents r @ [x] \<and> spsc_capacity r' = spsc_capacity r"
    if "spsc_push r x = Some r'"
    using room that
    by cases (auto simp: spsc_push_def spsc_push_refused [OF inv] dest: spsc_push_accepted [OF inv, of x])
  show "spsc_pop r = None \<longleftrightarrow> spsc_contents r = []"
    using spsc_pop_value [OF inv] spsc_pop_empty [of r]
    by (cases "spsc_count r = 0") (auto simp: spsc_pop_def simp flip: length_0_conv)
  show "spsc_inv r' \<and> spsc_contents r = x # spsc_contents r' \<and> spsc_capacity r' = spsc_capacity r"
    if "spsc_pop r = Some (x, r')"
    using spsc_pop_value [OF inv] spsc_pop_empty [of r] that
    by (cases "spsc_count r = 0") (auto simp: spsc_pop_def)
  show "length (spsc_contents r) \<le> spsc_capacity r"
    using spsc_count_le [OF inv] by simp
qed

text \<open>A run of the ring itself, in which an uninitialised read would show.\<close>

fun spsc_run :: "'a spsc \<Rightarrow> 'a fifo_op list \<Rightarrow> ('a list \<times> 'a list \<times> 'a spsc) outcome" where
  "spsc_run r [] = Returns ([], [], r)"
| "spsc_run r (Push v # ops) =
     (case spsc_try_push r v of
        (Inl _, r') \<Rightarrow> spsc_run r' ops
      | (Inr _, r') \<Rightarrow>
          (case spsc_run r' ops of
             Undefined \<Rightarrow> Undefined
           | Returns (ins, outs, s) \<Rightarrow> Returns (v # ins, outs, s)))"
| "spsc_run r (Pop # ops) =
     (case spsc_try_pop r of
        Undefined \<Rightarrow> Undefined
      | Returns (None, r') \<Rightarrow> spsc_run r' ops
      | Returns (Some v, r') \<Rightarrow>
          (case spsc_run r' ops of
             Undefined \<Rightarrow> Undefined
           | Returns (ins, outs, s) \<Rightarrow> Returns (ins, v # outs, s)))"

lemma spsc_run_queue: "spsc_inv r \<Longrightarrow> spsc_run r ops = Returns (spsc_queue.run r ops)"
proof (induction r ops rule: spsc_run.induct)
  case (1 r)
  then show ?case by simp
next
  case (2 r v ops)
  consider "spsc_count r = spsc_capacity r" | "spsc_count r < spsc_capacity r"
    using spsc_count_le [OF 2(3)] by linarith
  then show ?case
  proof cases
    case 1
    then show ?thesis using 2 by (simp add: spsc_push_refused spsc_push_eqs)
  next
    case 2
    then show ?thesis
      using spsc_push_accepted [OF "2.prems" 2, of v] "2.IH"
      by (auto simp: spsc_push_eqs split: prod.splits)
  qed
next
  case (3 r ops)
  then show ?case
    using spsc_pop_value [OF "3.prems"] spsc_pop_empty [of r]
    by (cases "spsc_count r = 0") (auto simp: spsc_push_eqs split: prod.splits)
qed

text \<open>
  C4. When the capacity divides 2^64, any run of pushes and pops on a fresh ring has defined
  behaviour, and the ring is a bounded first-in first-out queue: the accepted values are the
  popped values followed by what the ring still holds.
\<close>

theorem spsc_fifo_no_undefined:
  assumes "0 < n" and "n < u64_limit" and "n dvd u64_limit"
  shows "\<exists>ins outs r. spsc_run (spsc_new n) ops = Returns (ins, outs, r) \<and>
    ins = outs @ spsc_contents r \<and> length (spsc_contents r) \<le> n"
proof -
  have inv: "spsc_inv (spsc_new n :: 'a spsc)" using assms by (rule spsc_new_inv)
  obtain ins outs r where run: "spsc_queue.run (spsc_new n) ops = (ins, outs, r)"
    by (cases "spsc_queue.run (spsc_new n) ops") auto
  show ?thesis
    using spsc_queue.run_from_empty [OF inv _ run] spsc_run_queue [OF inv, of ops] run
    by simp
qed

theorem spsc_fifo_no_undefined_witness:
  "\<exists>ins outs r. spsc_run (spsc_new 2) [Push 10, Push 20, Push (30::nat), Pop, Push 40] =
     Returns (ins, outs, r) \<and> ins = outs @ spsc_contents r \<and> length (spsc_contents r) \<le> 2"
  by (rule spsc_fifo_no_undefined) simp_all

lemma spsc_drop_from_contents:
  assumes "spsc_inv r"
  shows "spsc_drop_from (spsc_slots r) (spsc_head r) (spsc_tail r) = Returns (spsc_contents r)"
  using assms
proof (induction "spsc_count r" arbitrary: r)
  case 0
  then show ?case
    by (simp add: spsc_drop_from.simps spsc_count_def unat_eq_zero spsc_contents_def)
next
  case (Suc k)
  obtain v r' where pop: "spsc_try_pop r = Returns (Some v, r')" and inv': "spsc_inv r'"
    and c: "spsc_contents r = v # spsc_contents r'"
    using spsc_pop_value [OF Suc.prems] Suc.hyps(2) by auto
  have "spsc_count r' = k"
    using c Suc.hyps(2) by (metis Suc_inject length_Cons spsc_length_contents)
  then have "spsc_drop_from (spsc_slots r') (spsc_head r') (spsc_tail r') = Returns (spsc_contents r')"
    using Suc.hyps(1) inv' by simp
  then show ?case using pop c
    by (subst spsc_drop_from.simps)
      (auto simp: spsc_try_pop_def Let_def spsc_capacity_def split: if_splits option.splits)
qed

theorem spsc_drop_exact: "spsc_inv r \<Longrightarrow> spsc_drop r = Returns (spsc_contents r)"
  by (simp add: spsc_drop_def spsc_drop_from_contents)

theorem spsc_drop_exact_witness: "spsc_drop (snd (spsc_try_push (spsc_new 2) (10::nat))) = Returns [10]"
proof -
  have "spsc_inv (spsc_new 2 :: nat spsc)" by (rule spsc_new_inv) simp_all
  then obtain r where "spsc_try_push (spsc_new 2) (10::nat) = (Inr (), r)" "spsc_inv r"
    "spsc_contents r = spsc_contents (spsc_new 2) @ [10 :: nat]"
    using spsc_push_accepted [of "spsc_new 2" "10::nat"] by (auto simp: spsc_count_def spsc_new_def spsc_capacity_def)
  then show ?thesis using spsc_drop_exact [of r] by simp
qed

subsection \<open>Producer and consumer interleaved\<close>

text \<open>
  The endpoints run on different cores. A step of this relation is one access to shared
  memory: a load or store of a counter, or a slot being written or read. Counters are
  published with release stores and read with acquire loads, so an interleaving of these
  steps is what the two cores see.
\<close>

datatype 'a producer = P_Idle | P_Tail 'a u64 | P_Write 'a u64 | P_Publish 'a u64
datatype 'a consumer = C_Idle | C_Head u64 | C_Read u64 | C_Publish 'a u64

record 'a race =
  race_ring :: "'a spsc"
  race_producer :: "'a producer"
  race_consumer :: "'a consumer"
  race_sent :: "'a list"
  race_received :: "'a list"
  race_undefined :: bool

definition race_start :: "nat \<Rightarrow> 'a race" where
  "race_start n = \<lparr>race_ring = spsc_new n, race_producer = P_Idle, race_consumer = C_Idle,
     race_sent = [], race_received = [], race_undefined = False\<rparr>"

abbreviation race_slot :: "'a race \<Rightarrow> u64 \<Rightarrow> nat" where
  "race_slot s i \<equiv> slot_of (spsc_capacity (race_ring s)) i"

inductive race_step :: "'a race \<Rightarrow> 'a race \<Rightarrow> bool" where
  push_load_tail: "race_producer s = P_Idle \<Longrightarrow>
    race_step s (s\<lparr>race_producer := P_Tail v (spsc_tail (race_ring s))\<rparr>)"
| push_full: "race_producer s = P_Tail v t \<Longrightarrow>
    t - spsc_head (race_ring s) = of_nat (spsc_capacity (race_ring s)) \<Longrightarrow>
    race_step s (s\<lparr>race_producer := P_Idle\<rparr>)"
| push_room: "race_producer s = P_Tail v t \<Longrightarrow>
    t - spsc_head (race_ring s) \<noteq> of_nat (spsc_capacity (race_ring s)) \<Longrightarrow>
    race_step s (s\<lparr>race_producer := P_Write v t\<rparr>)"
| push_write: "race_producer s = P_Write v t \<Longrightarrow>
    race_step s (s\<lparr>race_ring := (race_ring s)\<lparr>spsc_slots :=
        (spsc_slots (race_ring s))[race_slot s t := Some v]\<rparr>,
      race_producer := P_Publish v t\<rparr>)"
| push_publish: "race_producer s = P_Publish v t \<Longrightarrow>
    race_step s (s\<lparr>race_ring := (race_ring s)\<lparr>spsc_tail := t + 1\<rparr>,
      race_producer := P_Idle, race_sent := race_sent s @ [v]\<rparr>)"
| pop_load_head: "race_consumer s = C_Idle \<Longrightarrow>
    race_step s (s\<lparr>race_consumer := C_Head (spsc_head (race_ring s))\<rparr>)"
| pop_empty: "race_consumer s = C_Head h \<Longrightarrow> h = spsc_tail (race_ring s) \<Longrightarrow>
    race_step s (s\<lparr>race_consumer := C_Idle\<rparr>)"
| pop_ready: "race_consumer s = C_Head h \<Longrightarrow> h \<noteq> spsc_tail (race_ring s) \<Longrightarrow>
    race_step s (s\<lparr>race_consumer := C_Read h\<rparr>)"
| pop_read: "race_consumer s = C_Read h \<Longrightarrow>
    spsc_slots (race_ring s) ! race_slot s h = Some v \<Longrightarrow>
    race_step s (s\<lparr>race_ring := (race_ring s)\<lparr>spsc_slots :=
        (spsc_slots (race_ring s))[race_slot s h := None]\<rparr>,
      race_consumer := C_Publish v h\<rparr>)"
| pop_uninitialised: "race_consumer s = C_Read h \<Longrightarrow>
    spsc_slots (race_ring s) ! race_slot s h = None \<Longrightarrow>
    race_step s (s\<lparr>race_consumer := C_Idle, race_undefined := True\<rparr>)"
| pop_publish: "race_consumer s = C_Publish v h \<Longrightarrow>
    race_step s (s\<lparr>race_ring := (race_ring s)\<lparr>spsc_head := h + 1\<rparr>,
      race_consumer := C_Idle, race_received := race_received s @ [v]\<rparr>)"

inductive race_reachable :: "nat \<Rightarrow> 'a race \<Rightarrow> bool" for n where
  start: "race_reachable n (race_start n)"
| step: "race_reachable n s \<Longrightarrow> race_step s s' \<Longrightarrow> race_reachable n s'"

text \<open>
  The invariant names what every slot holds: slot \<open>j\<close> counted from the head is the
  \<open>j\<close>-th value still under way, except that a value being taken has left its slot and a
  value being published is already in its own.
\<close>

definition race_queue :: "'a race \<Rightarrow> 'a list" where
  "race_queue s = drop (length (race_received s)) (race_sent s)"

fun placed :: "'a producer \<Rightarrow> 'a option" where
  "placed (P_Publish v _) = Some v"
| "placed _ = None"

fun taking :: "'a consumer \<Rightarrow> bool" where
  "taking (C_Publish _ _) = True"
| "taking _ = False"

definition race_cell :: "'a list \<Rightarrow> 'a option \<Rightarrow> bool \<Rightarrow> nat \<Rightarrow> 'a option" where
  "race_cell q p c j =
     (if j < length q then (if c \<and> j = 0 then None else Some (q ! j))
      else if j = length q then p else None)"

fun producer_ok :: "'a producer \<Rightarrow> nat \<Rightarrow> nat \<Rightarrow> u64 \<Rightarrow> bool" where
  "producer_ok P_Idle n k t = True"
| "producer_ok (P_Tail v i) n k t = (i = t)"
| "producer_ok (P_Write v i) n k t = (i = t \<and> k < n)"
| "producer_ok (P_Publish v i) n k t = (i = t \<and> k < n)"

fun consumer_ok :: "'a consumer \<Rightarrow> 'a list \<Rightarrow> u64 \<Rightarrow> bool" where
  "consumer_ok C_Idle q h = True"
| "consumer_ok (C_Head i) q h = (i = h)"
| "consumer_ok (C_Read i) q h = (i = h \<and> q \<noteq> [])"
| "consumer_ok (C_Publish v i) q h = (i = h \<and> q \<noteq> [] \<and> hd q = v)"

definition race_inv :: "nat \<Rightarrow> 'a race \<Rightarrow> bool" where
  "race_inv n s \<longleftrightarrow>
     (let r = race_ring s; q = race_queue s
      in length (spsc_slots r) = n \<and>
         race_sent s = race_received s @ q \<and>
         unat (spsc_tail r - spsc_head r) = length q \<and> length q \<le> n \<and>
         producer_ok (race_producer s) n (length q) (spsc_tail r) \<and>
         consumer_ok (race_consumer s) q (spsc_head r) \<and>
         (\<forall>j < n. spsc_slots r ! slot_of n (spsc_head r + of_nat j) =
            race_cell q (placed (race_producer s)) (taking (race_consumer s)) j) \<and>
         \<not> race_undefined s)"

lemma race_queue_frame [simp]:
  "race_queue (s\<lparr>race_producer := p\<rparr>) = race_queue s"
  "race_queue (s\<lparr>race_consumer := c\<rparr>) = race_queue s"
  "race_queue (s\<lparr>race_ring := r\<rparr>) = race_queue s"
  by (simp_all add: race_queue_def)

lemma race_start_inv: "0 < n \<Longrightarrow> race_inv n (race_start n)"
  by (simp add: race_inv_def race_start_def race_queue_def race_cell_def spsc_new_def)

lemma race_step_inv:
  assumes n: "0 < n" "n < 2 ^ LENGTH(64)" "n dvd 2 ^ LENGTH(64)"
    and step: "race_step s s'" and inv: "race_inv n s"
  shows "race_inv n s'"
proof -
  define r where "r = race_ring s"
  define q where "q = race_queue s"
  define h where "h = spsc_head r"
  have len: "length (spsc_slots r) = n" and hist: "race_sent s = race_received s @ q"
    and cnt: "unat (spsc_tail r - h) = length q" and bound: "length q \<le> n"
    and pok: "producer_ok (race_producer s) n (length q) (spsc_tail r)"
    and cok: "consumer_ok (race_consumer s) q h"
    and cells: "\<And>j. j < n \<Longrightarrow> spsc_slots r ! slot_of n (h + of_nat j) =
      race_cell q (placed (race_producer s)) (taking (race_consumer s)) j"
    and def: "\<not> race_undefined s"
    using inv by (auto simp: race_inv_def Let_def r_def q_def h_def)
  have cap: "spsc_capacity r = n" using len by (simp add: spsc_capacity_def)
  have tail: "spsc_tail r = h + of_nat (length q)" using cnt counter_at_distance [of h "spsc_tail r"] by simp
  note frame = r_def [symmetric] q_def [symmetric] h_def [symmetric]
  from step show ?thesis
  proof (cases rule: race_step.cases)
    case (push_load_tail v)
    with inv show ?thesis by (simp add: race_inv_def Let_def)
  next
    case (push_full v t)
    with inv show ?thesis by (simp add: race_inv_def Let_def)
  next
    case (push_room v t)
    have "length q \<noteq> n"
    proof
      assume "length q = n"
      then have "t - spsc_head (race_ring s) = of_nat (spsc_capacity (race_ring s))"
        using pok push_room(2) tail by (simp add: frame cap)
      with push_room(3) show False ..
    qed
    with push_room inv bound show ?thesis by (simp add: race_inv_def Let_def frame)
  next
    case (push_write v t)
    then have t: "t = h + of_nat (length q)" and room: "length q < n" and idle: "placed (race_producer s) = None"
      using pok tail by auto
    have "(spsc_slots r)[slot_of n t := Some v] ! slot_of n (h + of_nat j) =
      race_cell q (Some v) (taking (race_consumer s)) j" if j: "j < n" for j
    proof (cases "j = length q")
      case True
      then show ?thesis using n len t by (simp add: race_cell_def)
    next
      case False
      then have "slot_of n (h + of_nat j) \<noteq> slot_of n t"
        using slot_of_inj [OF n(3) j room, of h] t by blast
      then show ?thesis using cells [OF j] False by (simp add: race_cell_def idle)
    qed
    then show ?thesis
      using push_write inv room by (simp add: race_inv_def Let_def frame cap)
  next
    case (push_publish v t)
    then have t: "t = spsc_tail r" and room: "length q < n"
      using pok by auto
    have queue: "race_queue s' = q @ [v]"
      using push_publish(1) hist by (simp add: race_queue_def)
    have some: "taking (race_consumer s) \<Longrightarrow> q \<noteq> []"
      using cok by (cases "race_consumer s") auto
    have cell: "race_cell (q @ [v]) None (taking (race_consumer s)) j =
      race_cell q (Some v) (taking (race_consumer s)) j" for j
      using some by (auto simp: race_cell_def nth_append)
    have "unat (t + 1 - h) = Suc (length q)"
      using unat_diff_Suc [of t h] cnt t room n by simp
    moreover have "consumer_ok (race_consumer s) (q @ [v]) h"
      using cok by (cases "race_consumer s") auto
    ultimately show ?thesis
      unfolding race_inv_def Let_def queue
      using push_publish len hist room cells def by (simp add: frame cell)
  next
    case (pop_load_head)
    with inv show ?thesis by (simp add: race_inv_def Let_def)
  next
    case (pop_empty i)
    with len hist cnt bound pok cells def show ?thesis
      by (auto simp: race_inv_def Let_def frame)
  next
    case (pop_ready i)
    then have "q \<noteq> []" using cok tail by (auto simp: frame)
    with pop_ready inv show ?thesis by (simp add: race_inv_def Let_def frame)
  next
    case (pop_read i v)
    then have i: "i = h" and some: "q \<noteq> []" and take: "taking (race_consumer s) = False"
      using cok by auto
    then have v: "hd q = v"
      using cells [of 0] pop_read(3) n by (simp add: race_cell_def frame cap hd_conv_nth)
    have "(spsc_slots r)[slot_of n h := None] ! slot_of n (h + of_nat j) =
      race_cell q (placed (race_producer s)) True j" if j: "j < n" for j
    proof (cases "j = 0")
      case True
      then show ?thesis using n len some by (simp add: race_cell_def)
    next
      case False
      then have "slot_of n (h + of_nat j) \<noteq> slot_of n h"
        using slot_of_inj [OF n(3) j n(1), of h] by auto
      then show ?thesis using cells [OF j] False by (simp add: race_cell_def take)
    qed
    then show ?thesis
      using pop_read inv i some v by (simp add: race_inv_def Let_def frame cap)
  next
    case (pop_uninitialised i)
    then have "spsc_slots r ! slot_of n h = None" and "q \<noteq> []" using cok by (auto simp: frame cap)
    then show ?thesis using cells [of 0] n pop_uninitialised by (simp add: race_cell_def)
  next
    case (pop_publish v i)
    then obtain q' where q: "q = v # q'" and i: "i = h" and take: "taking (race_consumer s)"
      using cok by (cases q) auto
    have queue: "race_queue s' = q'"
      using pop_publish(1) hist q by (simp add: race_queue_def)
    have idle: "placed (race_producer s) = None" if "length q = n"
      using pok that by (cases "race_producer s") auto
    have "spsc_slots r ! slot_of n (h + 1 + of_nat j) = race_cell q' (placed (race_producer s)) False j"
      if j: "j < n" for j
    proof (cases "Suc j < n")
      case True
      then show ?thesis using cells [OF True] q by (simp add: race_cell_def take add.assoc)
    next
      case False
      with j have "Suc j = n" by simp
      then have "slot_of n (h + of_nat (Suc j)) = slot_of n h"
        using slot_of_add [OF n(3), of h n] by (simp add: slot_of_def)
      then show ?thesis using cells [OF n(1)] \<open>Suc j = n\<close> bound idle q
        by (auto simp: race_cell_def take add.assoc)
    qed
    moreover have "unat (spsc_tail r - (h + 1)) = length q'"
      using unat_diff_pred [of "spsc_tail r" h] cnt q by (cases "spsc_tail r = h") auto
    moreover have "producer_ok (race_producer s) n (length q') (spsc_tail r)"
      using pok q by (cases "race_producer s") auto
    ultimately show ?thesis
      unfolding race_inv_def Let_def queue
      using pop_publish len hist bound def q i by (simp add: frame)
  qed
qed

lemma race_reachable_inv:
  assumes "0 < n" "n < u64_limit" "n dvd u64_limit"
  shows "race_reachable n s \<Longrightarrow> race_inv n s"
  by (induction rule: race_reachable.induct)
    (use assms in \<open>auto intro: race_start_inv dest: race_step_inv [rotated 3]\<close>)



subsection \<open>A length that does not divide the counters' period\<close>

text \<open>
  \<open>SpscRing::new\<close> only asks for \<open>N > 0\<close>. A ring of three slots whose counters have reached
  \<open>2 ^ 64 - 1\<close> puts two consecutive values into one slot.
\<close>

lemma spsc_run_append:
  "spsc_run r ops = Returns (ins, outs, r') \<Longrightarrow> spsc_run r' ops' = Undefined \<Longrightarrow>
   spsc_run r (ops @ ops') = Undefined"
  by (induction r ops arbitrary: ins outs rule: spsc_run.induct)
    (fastforce split: prod.splits sum.splits outcome.splits option.splits)+

lemma three_slots_step:
  "spsc_run \<lparr>spsc_slots = [None, None, None], spsc_head = i, spsc_tail = i\<rparr> [Push v, Pop] =
     Returns ([v], [v], \<lparr>spsc_slots = [None, None, None], spsc_head = i + 1, spsc_tail = i + 1\<rparr>)"
proof -
  have "slot_of (Suc (Suc (Suc 0))) i < Suc (Suc (Suc 0))" by simp
  then consider "slot_of (Suc (Suc (Suc 0))) i = 0" | "slot_of (Suc (Suc (Suc 0))) i = Suc 0"
    | "slot_of (Suc (Suc (Suc 0))) i = Suc (Suc 0)" by linarith
  then show ?thesis
    by cases (simp_all add: spsc_try_push_def spsc_try_pop_def spsc_capacity_def Let_def)
qed

lemma three_slots_reach:
  "spsc_run (spsc_new 3) (concat (replicate k [Push v, Pop]) @ ops) = Undefined"
  if "spsc_run \<lparr>spsc_slots = [None, None, None], spsc_head = of_nat k, spsc_tail = of_nat k\<rparr> ops = Undefined"
  using that
proof (induction k arbitrary: ops)
  case 0
  then show ?case by (simp add: spsc_new_def numeral_3_eq_3)
next
  case (Suc k)
  have "spsc_run \<lparr>spsc_slots = [None, None, None], spsc_head = of_nat k, spsc_tail = of_nat k\<rparr>
    ([Push v, Pop] @ ops) = Undefined"
    using spsc_run_append [OF three_slots_step [of "of_nat k" v], where ops' = ops] Suc.prems
    by (simp add: algebra_simps del: spsc_run.simps)
  then show ?case
    using Suc.IH [of "[Push v, Pop] @ ops"]
    by (simp add: replicate_append_same [symmetric] del: spsc_run.simps)
qed

text \<open>
  C38. A ring of three slots, whose length does not divide 2^64, reads an uninitialised slot
  after 2^64 - 1 push/pop pairs followed by two pushes and two pops.
\<close>

theorem three_slot_ring_breaks_at_wrap:
  "spsc_run (spsc_new 3)
     (concat (replicate (u64_limit - 1) [Push v, Pop]) @ [Push a, Push b, Pop, Pop]) = Undefined"
  by (rule three_slots_reach)
    (simp add: spsc_try_push_def spsc_try_pop_def spsc_capacity_def Let_def slot_of_def)

end
