(* ===== verification/Net_Service.thy ===== *)
theory Net_Service
  imports Net_Wire Io_Buffer Spsc_Ring "HOL-Library.Multiset"
begin

unbundle bit_operations_syntax

text \<open>
  The IP service of a link (crates/stack/net/src: service.rs, neighbor.rs, op.rs). Its clients submit
  operations on a ring and read their completions from it; frames arrive through \<open>ingest\<close>. The device
  is a value of some type with its \<open>transmit\<close> as a parameter \<open>tx\<close>, the ring is the paired ring of
  Spsc_Ring, endpoints are handles of a capability table and payloads are ranges of registered buffers.
  An uninitialised read of the ring would make a call \<open>Undefined\<close>.
\<close>

section \<open>The neighbour cache\<close>

record neighbor =
  nb_address :: ip_addr
  nb_hardware :: mac_addr

type_synonym neighbor_cache = "neighbor option list"

definition flatten :: "'a option list \<Rightarrow> 'a list" where
  "flatten xs = List.map_filter (\<lambda>x. x) xs"

definition some_and :: "('a \<Rightarrow> bool) \<Rightarrow> 'a option \<Rightarrow> bool" where
  "some_and p slot = (case slot of None \<Rightarrow> False | Some x \<Rightarrow> p x)"

definition cache_resolve :: "neighbor_cache \<Rightarrow> ip_addr \<Rightarrow> mac_addr option" where
  "cache_resolve entries address = map_option nb_hardware (List.find (\<lambda>n. nb_address n = address) (flatten entries))"

definition cache_learn :: "neighbor_cache \<Rightarrow> ip_addr \<Rightarrow> mac_addr \<Rightarrow> neighbor_cache" where
  "cache_learn entries address hardware =
     (case find_index (some_and (\<lambda>n. nb_address n = address)) entries of
        Some i \<Rightarrow> entries[i := map_option (nb_hardware_update (\<lambda>_. hardware)) (entries ! i)]
      | None \<Rightarrow>
          (case find_index (\<lambda>slot. slot = None) entries of
             Some i \<Rightarrow> entries[i := Some \<lparr>nb_address = address, nb_hardware = hardware\<rparr>]
           | None \<Rightarrow> if entries = [] then entries else entries[0 := Some \<lparr>nb_address = address, nb_hardware = hardware\<rparr>]))"

section \<open>Operations and state\<close>

datatype ip_op =
    IpBind byte
  | IpSend capability ip_addr buffer_operation
  | IpRecv capability buffer_operation
  | IpClose capability

datatype ip_done = IpBound capability | IpSent nat | IpReceived ip_addr nat | IpClosed

datatype link_error = LinkBusy | LinkDevice

datatype ip_error =
    IpWire net_error
  | IpCapability capability_error
  | IpBuffer buffer_error
  | IpAlreadyBound | IpBusy | IpFull | IpLink | IpTooLarge | IpUnsupported

record config =
  cf_mac :: mac_addr
  cf_addr :: ip_addr
  cf_prefix :: nat
  cf_gateway :: ip_addr

record ip_receive =
  rx_id :: u64
  rx_endpoint :: capability
  rx_payload :: buffer_operation

record pending_send =
  ps_submission :: "ip_op submission"
  ps_waiting :: bool

datatype send_state = Sent nat | Waiting | Retry

type_synonym ip_completion = "(ip_error + ip_done) completion"
type_synonym ip_ring = "(ip_op, ip_error + ip_done) io_ring"

record 'l ip =
  ip_link :: 'l
  ip_config :: config
  ip_protocols :: "byte table"
  ip_bound :: "byte option list"
  ip_neighbors :: neighbor_cache
  ip_receives :: "ip_receive option list"
  ip_send :: "pending_send option"
  ip_completion :: "ip_completion option"

type_synonym 'l transmitter = "'l \<Rightarrow> byte list \<Rightarrow> (link_error + unit) \<times> 'l"

abbreviation MTU :: nat where "MTU \<equiv> 1500"
abbreviation FRAME :: nat where "FRAME \<equiv> 1514"

definition ALL_NODES :: ipv6_addr where
  "ALL_NODES = ipv6_new [0xff02, 0, 0, 0, 0, 0, 0, 1]"

definition ip_new :: "nat \<Rightarrow> 'l \<Rightarrow> config \<Rightarrow> 'l ip" where
  "ip_new n link config =
     \<lparr>ip_link = link, ip_config = config, ip_protocols = table_new n, ip_bound = replicate n None,
      ip_neighbors = replicate n None, ip_receives = replicate n None, ip_send = None, ip_completion = None\<rparr>"

section \<open>Addressing\<close>

definition same_prefix :: "byte list \<Rightarrow> byte list \<Rightarrow> nat \<Rightarrow> bool" where
  "same_prefix left right prefix =
     (let whole = prefix div 8; bits = prefix mod 8 in
      if take whole left \<noteq> take whole right then False
      else if bits = 0 then True
      else let mask = push_bit (8 - bits) 0xff in left ! whole AND mask = right ! whole AND mask)"

definition link_scoped :: "ipv6_addr \<Rightarrow> bool" where
  "link_scoped a \<longleftrightarrow> be_value [a ! 0, a ! 1] AND 0xffc0 = 0xfe80"

definition ip_resolve :: "'l ip \<Rightarrow> ip_addr \<Rightarrow> mac_addr option" where
  "ip_resolve ip hop =
     (case hop of
        V6 g \<Rightarrow> if ipv6_is_multicast g then Some (mac_multicast g) else cache_resolve (ip_neighbors ip) hop
      | V4 _ \<Rightarrow> cache_resolve (ip_neighbors ip) hop)"

definition ip_owns :: "'l ip \<Rightarrow> ipv6_addr \<Rightarrow> bool" where
  "ip_owns ip a \<longleftrightarrow> cf_addr (ip_config ip) = V6 a \<or> link_local (cf_mac (ip_config ip)) = a"

definition ip_accepts :: "'l ip \<Rightarrow> ipv6_addr \<Rightarrow> bool" where
  "ip_accepts ip dst \<longleftrightarrow>
     ip_owns ip dst \<or> dst = ALL_NODES \<or> dst = solicited_node (link_local (cf_mac (ip_config ip)))
     \<or> (case cf_addr (ip_config ip) of V6 a \<Rightarrow> dst = solicited_node a | V4 _ \<Rightarrow> False)"

definition ip_ipv4_addr :: "'l ip \<Rightarrow> ip_error + ipv4_addr" where
  "ip_ipv4_addr ip = (case cf_addr (ip_config ip) of V4 a \<Rightarrow> Inr a | V6 _ \<Rightarrow> Inl IpUnsupported)"

definition ip_ipv6_addr :: "'l ip \<Rightarrow> ipv6_addr" where
  "ip_ipv6_addr ip = (case cf_addr (ip_config ip) of V6 a \<Rightarrow> a | V4 _ \<Rightarrow> link_local (cf_mac (ip_config ip)))"

definition next_hop :: "config \<Rightarrow> ip_addr \<Rightarrow> ip_error + ip_addr" where
  "next_hop config dst =
     (case (case (cf_addr config, dst) of
              (V4 s, V4 d) \<Rightarrow> Inr (same_prefix s d (min (cf_prefix config) 32))
            | (V6 s, V6 d) \<Rightarrow>
                Inr (ipv6_is_multicast d \<or> link_scoped d \<or> same_prefix s d (min (cf_prefix config) 128))
            | _ \<Rightarrow> Inl IpUnsupported) of
        Inl e \<Rightarrow> Inl e
      | Inr on_link \<Rightarrow>
          if on_link then Inr dst else
          (case (cf_addr config, cf_gateway config) of
             (V4 _, V4 g) \<Rightarrow> Inr (V4 g)
           | (V6 _, V6 g) \<Rightarrow> Inr (V6 g)
           | _ \<Rightarrow> Inl IpUnsupported))"

section \<open>Frames out\<close>

definition ip_transmit :: "'l transmitter \<Rightarrow> 'l ip \<Rightarrow> mac_addr \<Rightarrow> ether_type \<Rightarrow> byte list \<Rightarrow> (link_error + unit) \<times> 'l ip" where
  "ip_transmit tx ip dst ether_type payload =
     (case frame_emit \<lparr>fr_dst = dst, fr_src = cf_mac (ip_config ip), fr_ether_type = ether_type, fr_payload = payload\<rparr>
             (replicate FRAME 0) of
        Inl _ \<Rightarrow> (Inl LinkDevice, ip)
      | Inr (len, frame) \<Rightarrow> (case tx (ip_link ip) (take len frame) of (r, link) \<Rightarrow> (r, ip\<lparr>ip_link := link\<rparr>)))"

definition ip_arp :: "'l transmitter \<Rightarrow> 'l ip \<Rightarrow> mac_addr \<Rightarrow> arp \<Rightarrow> (link_error + unit) \<times> 'l ip" where
  "ip_arp tx ip dst packet =
     (case arp_emit packet (replicate 28 0) of
        Inl _ \<Rightarrow> (Inl LinkDevice, ip)
      | Inr (_, bytes) \<Rightarrow> ip_transmit tx ip dst EtherArp bytes)"

definition arp_request :: "'l transmitter \<Rightarrow> 'l ip \<Rightarrow> ipv4_addr \<Rightarrow> (link_error + unit) \<times> 'l ip" where
  "arp_request tx ip target =
     (case ip_ipv4_addr ip of
        Inl _ \<Rightarrow> (Inl LinkDevice, ip)
      | Inr source \<Rightarrow>
          ip_arp tx ip mac_BROADCAST
            \<lparr>arp_operation = ArpRequest, arp_tx_hardware = cf_mac (ip_config ip), arp_tx_protocol = source,
             arp_rx_hardware = replicate 6 0, arp_rx_protocol = target\<rparr>)"

definition arp_reply :: "'l transmitter \<Rightarrow> 'l ip \<Rightarrow> mac_addr \<Rightarrow> ipv4_addr \<Rightarrow> (link_error + unit) \<times> 'l ip" where
  "arp_reply tx ip hardware target =
     (case ip_ipv4_addr ip of
        Inl _ \<Rightarrow> (Inl LinkDevice, ip)
      | Inr source \<Rightarrow>
          ip_arp tx ip hardware
            \<lparr>arp_operation = ArpReply, arp_tx_hardware = cf_mac (ip_config ip), arp_tx_protocol = source,
             arp_rx_hardware = hardware, arp_rx_protocol = target\<rparr>)"

fun discovery :: "icmp_message \<Rightarrow> bool" where
  "discovery (Solicitation target source) = True"
| "discovery (Advertisement target hardware solicited) = True"
| "discovery m = False"

definition ip_icmpv6 ::
  "'l transmitter \<Rightarrow> 'l ip \<Rightarrow> mac_addr \<Rightarrow> ipv6_addr \<Rightarrow> ipv6_addr \<Rightarrow> icmp_message \<Rightarrow> (link_error + unit) \<times> 'l ip" where
  "ip_icmpv6 tx ip dst src to message =
     (case icmp_emit message src to (replicate (MTU - 40) 0) of
        Inl _ \<Rightarrow> (Inl LinkDevice, ip)
      | Inr (len, payload) \<Rightarrow>
          let packet = ipv6_packet src to ICMP_PROTOCOL (take len payload);
              packet = (if discovery message then packet\<lparr>ip6_hop_limit := ICMP_HOPS\<rparr> else packet)
          in (case ipv6_emit packet (replicate MTU 0) of
                Inl _ \<Rightarrow> (Inl LinkDevice, ip)
              | Inr (len, bytes) \<Rightarrow> ip_transmit tx ip dst EtherIpv6 (take len bytes)))"

definition ip_solicit :: "'l transmitter \<Rightarrow> 'l ip \<Rightarrow> ipv6_addr \<Rightarrow> (link_error + unit) \<times> 'l ip" where
  "ip_solicit tx ip target =
     (let g = solicited_node target
      in ip_icmpv6 tx ip (mac_multicast g) (ip_ipv6_addr ip) g (Solicitation target (Some (cf_mac (ip_config ip)))))"

definition ip_advertise ::
  "'l transmitter \<Rightarrow> 'l ip \<Rightarrow> mac_addr \<Rightarrow> ipv6_addr \<Rightarrow> ipv6_addr \<Rightarrow> (link_error + unit) \<times> 'l ip" where
  "ip_advertise tx ip dst target to =
     ip_icmpv6 tx ip dst target to (Advertisement target (Some (cf_mac (ip_config ip))) (to \<noteq> ALL_NODES))"

definition ip_discover :: "'l transmitter \<Rightarrow> 'l ip \<Rightarrow> ip_addr \<Rightarrow> (link_error + unit) \<times> 'l ip" where
  "ip_discover tx ip hop = (case hop of V4 a \<Rightarrow> arp_request tx ip a | V6 a \<Rightarrow> ip_solicit tx ip a)"

section \<open>Operations\<close>

definition ip_publish :: "'l ip \<Rightarrow> ip_ring \<Rightarrow> ip_completion \<Rightarrow> nat \<times> 'l ip \<times> ip_ring" where
  "ip_publish ip ring c =
     (case driver_try_complete ring c of
        (Inr _, ring') \<Rightarrow> (1, ip, ring')
      | (Inl c', ring') \<Rightarrow> (0, ip\<lparr>ip_completion := Some c'\<rparr>, ring'))"

definition ip_flush :: "'l ip \<Rightarrow> ip_ring \<Rightarrow> nat \<times> 'l ip \<times> ip_ring" where
  "ip_flush ip ring =
     (case ip_completion ip of
        None \<Rightarrow> (0, ip, ring)
      | Some c \<Rightarrow>
          (let ip = ip\<lparr>ip_completion := None\<rparr> in
           case driver_try_complete ring c of
             (Inr _, ring') \<Rightarrow> (1, ip, ring')
           | (Inl c', ring') \<Rightarrow> (0, ip\<lparr>ip_completion := Some c'\<rparr>, ring')))"

definition ip_bind :: "'l ip \<Rightarrow> cell_id \<Rightarrow> byte \<Rightarrow> (ip_error + capability) \<times> 'l ip" where
  "ip_bind ip own protocol =
     (if Some protocol \<in> set (ip_bound ip) then (Inl IpAlreadyBound, ip) else
      case table_insert READ_WRITE (ip_protocols ip) own protocol of
        (Inl _, t) \<Rightarrow> (Inl IpFull, ip\<lparr>ip_protocols := t\<rparr>)
      | (Inr endpoint, t) \<Rightarrow>
          (let ip = ip\<lparr>ip_protocols := t\<rparr> in
           case find_index (\<lambda>slot. slot = None) (ip_bound ip) of
             None \<Rightarrow> (Inl IpFull, ip)
           | Some i \<Rightarrow> (Inr endpoint, ip\<lparr>ip_bound := (ip_bound ip)[i := Some protocol]\<rparr>)))"

definition waits_for :: "byte table \<Rightarrow> byte \<Rightarrow> ip_receive \<Rightarrow> bool" where
  "waits_for protocols protocol w \<longleftrightarrow> table_get READ_WRITE protocols (rx_endpoint w) = Inr protocol"

definition ip_wait :: "'l ip \<Rightarrow> u64 \<Rightarrow> capability \<Rightarrow> buffer_operation \<Rightarrow> (ip_error + unit) \<times> 'l ip" where
  "ip_wait ip ident endpoint payload =
     (case table_get READ_WRITE (ip_protocols ip) endpoint of
        Inl e \<Rightarrow> (Inl (IpCapability e), ip)
      | Inr protocol \<Rightarrow>
          if list_ex (waits_for (ip_protocols ip) protocol) (flatten (ip_receives ip)) then (Inl IpBusy, ip) else
          (case find_index (\<lambda>slot. slot = None) (ip_receives ip) of
             None \<Rightarrow> (Inl IpFull, ip)
           | Some i \<Rightarrow>
               (Inr (), ip\<lparr>ip_receives := (ip_receives ip)
                          [i := Some \<lparr>rx_id = ident, rx_endpoint = endpoint, rx_payload = payload\<rparr>]\<rparr>)))"

definition ip_close :: "'l ip \<Rightarrow> capability \<Rightarrow> (ip_error + unit) \<times> 'l ip" where
  "ip_close ip endpoint =
     (if list_ex (\<lambda>w. rx_endpoint w = endpoint) (flatten (ip_receives ip)) then (Inl IpBusy, ip) else
      case table_revoke READ_WRITE (ip_protocols ip) endpoint of
        (Inl e, t) \<Rightarrow> (Inl (IpCapability e), ip\<lparr>ip_protocols := t\<rparr>)
      | (Inr protocol, t) \<Rightarrow>
          (let ip = ip\<lparr>ip_protocols := t\<rparr> in
           case find_index (\<lambda>slot. slot = Some protocol) (ip_bound ip) of
             None \<Rightarrow> (Inr (), ip)
           | Some i \<Rightarrow> (Inr (), ip\<lparr>ip_bound := (ip_bound ip)[i := None]\<rparr>)))"

text \<open>The packet of a send, before its frame: the family is the one both addresses have.\<close>

definition send_packet :: "config \<Rightarrow> ip_addr \<Rightarrow> byte \<Rightarrow> byte list \<Rightarrow> ip_error + (ether_type \<times> byte list)" where
  "send_packet config to protocol payload =
     (case (cf_addr config, to) of
        (V4 src, V4 dst) \<Rightarrow>
          if length payload > MTU - 20 then Inl IpTooLarge else
          (case ipv4_emit \<lparr>ip4_src = src, ip4_dst = dst, ip4_protocol = protocol, ip4_payload = payload\<rparr> (replicate MTU 0) of
             Inl e \<Rightarrow> Inl (IpWire e) | Inr (len, packet) \<Rightarrow> Inr (EtherIpv4, take len packet))
      | (V6 src, V6 dst) \<Rightarrow>
          if length payload > MTU - 40 then Inl IpTooLarge else
          (case ipv6_emit (ipv6_packet src dst protocol payload) (replicate MTU 0) of
             Inl e \<Rightarrow> Inl (IpWire e) | Inr (len, packet) \<Rightarrow> Inr (EtherIpv6, take len packet))
      | _ \<Rightarrow> Inl IpUnsupported)"

definition link_state :: "nat option \<Rightarrow> link_error + unit \<Rightarrow> ip_error + send_state" where
  "link_state len r =
     (case r of
        Inr _ \<Rightarrow> Inr (case len of Some n \<Rightarrow> Sent n | None \<Rightarrow> Waiting)
      | Inl LinkBusy \<Rightarrow> Inr Retry
      | Inl LinkDevice \<Rightarrow> Inl IpLink)"

definition try_send :: "'l transmitter \<Rightarrow> 'l ip \<Rightarrow> buffer_registry \<Rightarrow> ip_op \<Rightarrow> (ip_error + send_state) \<times> 'l ip" where
  "try_send tx ip buffers opn =
     (case opn of
        IpSend endpoint to operation \<Rightarrow>
          (case table_get READ_WRITE (ip_protocols ip) endpoint of Inl e \<Rightarrow> (Inl (IpCapability e), ip) | Inr protocol \<Rightarrow>
           case resolve_read buffers operation of Inl e \<Rightarrow> (Inl (IpBuffer e), ip) | Inr payload \<Rightarrow>
           case next_hop (ip_config ip) to of Inl e \<Rightarrow> (Inl e, ip) | Inr hop \<Rightarrow>
           case ip_resolve ip hop of
             None \<Rightarrow> (case ip_discover tx ip hop of (r, ip) \<Rightarrow> (link_state None r, ip))
           | Some hardware \<Rightarrow>
               (case send_packet (ip_config ip) to protocol payload of Inl e \<Rightarrow> (Inl e, ip) | Inr (ether_type, packet) \<Rightarrow>
                case ip_transmit tx ip hardware ether_type packet of (r, ip) \<Rightarrow>
                (link_state (Some (length payload)) r, ip)))
      | _ \<Rightarrow> (Inl IpBusy, ip))"

definition ip_retry :: "'l transmitter \<Rightarrow> 'l ip \<Rightarrow> ip_ring \<Rightarrow> buffer_registry \<Rightarrow> nat \<times> 'l ip \<times> ip_ring" where
  "ip_retry tx ip ring buffers =
     (case ip_send ip of None \<Rightarrow> (0, ip, ring) | Some pending \<Rightarrow>
      if ps_waiting pending then (0, ip, ring) else
      let ident = sub_id (ps_submission pending) in
      case try_send tx ip buffers (sub_op (ps_submission pending)) of
        (Inr (Sent len), ip) \<Rightarrow> ip_publish (ip\<lparr>ip_send := None\<rparr>) ring \<lparr>comp_id = ident, comp_result = Inr (IpSent len)\<rparr>
      | (Inr Waiting, ip) \<Rightarrow> (0, ip\<lparr>ip_send := Some (pending\<lparr>ps_waiting := True\<rparr>)\<rparr>, ring)
      | (Inr Retry, ip) \<Rightarrow> (0, ip, ring)
      | (Inl e, ip) \<Rightarrow> ip_publish (ip\<lparr>ip_send := None\<rparr>) ring \<lparr>comp_id = ident, comp_result = Inl e\<rparr>)"

definition ip_resume :: "'l transmitter \<Rightarrow> 'l ip \<Rightarrow> ip_ring \<Rightarrow> buffer_registry \<Rightarrow> 'l ip \<times> ip_ring" where
  "ip_resume tx ip ring buffers =
     (case ip_send ip of None \<Rightarrow> (ip, ring) | Some pending \<Rightarrow>
      case sub_op (ps_submission pending) of
        IpSend endpoint to payload \<Rightarrow>
          (case next_hop (ip_config ip) to of Inl _ \<Rightarrow> (ip, ring) | Inr hop \<Rightarrow>
           if ip_resolve ip hop = None then (ip, ring)
           else snd (ip_retry tx (ip\<lparr>ip_send := Some (pending\<lparr>ps_waiting := False\<rparr>)\<rparr>) ring buffers))
      | _ \<Rightarrow> (ip, ring))"

section \<open>Frames in\<close>

definition ip_deliver ::
  "'l ip \<Rightarrow> ip_ring \<Rightarrow> buffer_registry \<Rightarrow> ip_addr \<Rightarrow> byte \<Rightarrow> byte list \<Rightarrow> (ip_error + bool) \<times> 'l ip \<times> ip_ring \<times> buffer_registry" where
  "ip_deliver ip ring buffers from protocol payload =
     (case find_index (some_and (waits_for (ip_protocols ip) protocol)) (ip_receives ip) of
        None \<Rightarrow> (Inr False, ip, ring, buffers)
      | Some index \<Rightarrow>
          let wait = the (ip_receives ip ! index);
              ip = ip\<lparr>ip_receives := (ip_receives ip)[index := None]\<rparr>
          in if length payload > bo_len (rx_payload wait) then
               (case ip_publish ip ring \<lparr>comp_id = rx_id wait, comp_result = Inl IpTooLarge\<rparr> of (_, ip, ring) \<Rightarrow>
                  (Inr True, ip, ring, buffers))
             else
               (case resolve_write (\<lambda>target. ((), put_slice 0 payload target)) buffers (rx_payload wait) of
                  (Inl e, buffers) \<Rightarrow> (Inl (IpBuffer e), ip, ring, buffers)
                | (Inr _, buffers) \<Rightarrow>
                    (case ip_publish ip ring \<lparr>comp_id = rx_id wait, comp_result = Inr (IpReceived from (length payload))\<rparr> of
                       (_, ip, ring) \<Rightarrow> (Inr True, ip, ring, buffers))))"

definition ingest_arp ::
  "'l transmitter \<Rightarrow> 'l ip \<Rightarrow> ip_ring \<Rightarrow> buffer_registry \<Rightarrow> byte list \<Rightarrow> (ip_error + bool) \<times> 'l ip \<times> ip_ring" where
  "ingest_arp tx ip ring buffers bytes =
     (case arp_parse bytes of Inl e \<Rightarrow> (Inl (IpWire e), ip, ring) | Inr packet \<Rightarrow>
      let ip = ip\<lparr>ip_neighbors := cache_learn (ip_neighbors ip) (V4 (arp_tx_protocol packet)) (arp_tx_hardware packet)\<rparr> in
      case (if arp_operation packet = ArpRequest \<and> V4 (arp_rx_protocol packet) = cf_addr (ip_config ip)
            then arp_reply tx ip (arp_tx_hardware packet) (arp_tx_protocol packet) else (Inr (), ip)) of
        (Inl _, ip) \<Rightarrow> (Inl IpLink, ip, ring)
      | (Inr _, ip) \<Rightarrow> (case ip_resume tx ip ring buffers of (ip, ring) \<Rightarrow> (Inr True, ip, ring)))"

definition ingest_ipv4 ::
  "'l ip \<Rightarrow> ip_ring \<Rightarrow> buffer_registry \<Rightarrow> byte list \<Rightarrow> (ip_error + bool) \<times> 'l ip \<times> ip_ring \<times> buffer_registry" where
  "ingest_ipv4 ip ring buffers bytes =
     (case ipv4_parse bytes of Inl e \<Rightarrow> (Inl (IpWire e), ip, ring, buffers) | Inr packet \<Rightarrow>
      if V4 (ip4_dst packet) \<noteq> cf_addr (ip_config ip) then (Inr False, ip, ring, buffers)
      else ip_deliver ip ring buffers (V4 (ip4_src packet)) (ip4_protocol packet) (ip4_payload packet))"

definition ingest_icmpv6 ::
  "'l transmitter \<Rightarrow> 'l ip \<Rightarrow> ip_ring \<Rightarrow> buffer_registry \<Rightarrow> mac_addr \<Rightarrow> ipv6 \<Rightarrow> (ip_error + bool) \<times> 'l ip \<times> ip_ring" where
  "ingest_icmpv6 tx ip ring buffers hardware packet =
     (case icmp_parse (ip6_src packet) (ip6_dst packet) (ip6_payload packet) of
        Inl e \<Rightarrow> (Inl (IpWire e), ip, ring)
      | Inr message \<Rightarrow>
          let neighborly = (ip6_hop_limit packet = ICMP_HOPS) in
          (case message of
             Solicitation target source \<Rightarrow>
               if \<not> neighborly then (Inr False, ip, ring)
               else if \<not> ip_owns ip target then (Inr False, ip, ring)
               else (let (dst, to, ip) =
                       (if ipv6_is_unspecified (ip6_src packet) then (mac_multicast ALL_NODES, ALL_NODES, ip)
                        else let link = (case source of Some m \<Rightarrow> m | None \<Rightarrow> hardware)
                             in (link, ip6_src packet,
                                 ip\<lparr>ip_neighbors := cache_learn (ip_neighbors ip) (V6 (ip6_src packet)) link\<rparr>))
                     in case ip_advertise tx ip dst target to of
                          (Inl _, ip) \<Rightarrow> (Inl IpLink, ip, ring)
                        | (Inr _, ip) \<Rightarrow> (case ip_resume tx ip ring buffers of (ip, ring) \<Rightarrow> (Inr True, ip, ring)))
           | Advertisement target link solicited \<Rightarrow>
               if \<not> neighborly then (Inr False, ip, ring)
               else (let ip = ip\<lparr>ip_neighbors := cache_learn (ip_neighbors ip) (V6 target)
                                   (case link of Some m \<Rightarrow> m | None \<Rightarrow> hardware)\<rparr>
                     in case ip_resume tx ip ring buffers of (ip, ring) \<Rightarrow> (Inr True, ip, ring))
           | EchoRequest ident seq data \<Rightarrow>
               if \<not> ip_accepts ip (ip6_dst packet) then (Inr False, ip, ring)
               else (case ip_icmpv6 tx ip hardware (ip_ipv6_addr ip) (ip6_src packet) (EchoReply ident seq data) of
                       (Inl _, ip) \<Rightarrow> (Inl IpLink, ip, ring)
                     | (Inr _, ip) \<Rightarrow> (Inr True, ip, ring))
           | EchoReply ident seq data \<Rightarrow> (Inr False, ip, ring)))"

definition ingest_ipv6 ::
  "'l transmitter \<Rightarrow> 'l ip \<Rightarrow> ip_ring \<Rightarrow> buffer_registry \<Rightarrow> mac_addr \<Rightarrow> byte list
   \<Rightarrow> (ip_error + bool) \<times> 'l ip \<times> ip_ring \<times> buffer_registry" where
  "ingest_ipv6 tx ip ring buffers hardware bytes =
     (case ipv6_parse bytes of Inl e \<Rightarrow> (Inl (IpWire e), ip, ring, buffers) | Inr packet \<Rightarrow>
      if ip6_next_header packet = ICMP_PROTOCOL then
        (case ingest_icmpv6 tx ip ring buffers hardware packet of (r, ip, ring) \<Rightarrow> (r, ip, ring, buffers))
      else if \<not> ip_accepts ip (ip6_dst packet) then (Inr False, ip, ring, buffers)
      else ip_deliver ip ring buffers (V6 (ip6_src packet)) (ip6_next_header packet) (ip6_payload packet))"

definition ip_ingest ::
  "'l transmitter \<Rightarrow> 'l ip \<Rightarrow> ip_ring \<Rightarrow> buffer_registry \<Rightarrow> byte list \<Rightarrow> (ip_error + bool) \<times> 'l ip \<times> ip_ring \<times> buffer_registry" where
  "ip_ingest tx ip ring buffers bytes =
     (if ip_completion ip \<noteq> None then (Inl IpBusy, ip, ring, buffers) else
      case frame_parse bytes of Inl e \<Rightarrow> (Inl (IpWire e), ip, ring, buffers) | Inr frame \<Rightarrow>
      if fr_dst frame \<noteq> cf_mac (ip_config ip) \<and> \<not> mac_is_multicast (fr_dst frame) then (Inr False, ip, ring, buffers) else
      case fr_ether_type frame of
        EtherArp \<Rightarrow> (case ingest_arp tx ip ring buffers (fr_payload frame) of (r, ip, ring) \<Rightarrow> (r, ip, ring, buffers))
      | EtherIpv4 \<Rightarrow> ingest_ipv4 ip ring buffers (fr_payload frame)
      | EtherIpv6 \<Rightarrow> ingest_ipv6 tx ip ring buffers (fr_src frame) (fr_payload frame))"

section \<open>Serving the ring\<close>

definition serve_one ::
  "'l transmitter \<Rightarrow> cell_id \<Rightarrow> 'l ip \<Rightarrow> ip_ring \<Rightarrow> buffer_registry \<Rightarrow> ip_op submission \<Rightarrow> nat \<times> 'l ip \<times> ip_ring" where
  "serve_one tx own ip ring buffers submission =
     (let ident = sub_id submission in
      case sub_op submission of
        IpBind protocol \<Rightarrow>
          (case ip_bind ip own protocol of (r, ip) \<Rightarrow>
             ip_publish ip ring \<lparr>comp_id = ident, comp_result = map_sum id IpBound r\<rparr>)
      | IpSend endpoint to payload \<Rightarrow>
          (case try_send tx ip buffers (IpSend endpoint to payload) of
             (Inr (Sent len), ip) \<Rightarrow> ip_publish ip ring \<lparr>comp_id = ident, comp_result = Inr (IpSent len)\<rparr>
           | (Inr Waiting, ip) \<Rightarrow> (0, ip\<lparr>ip_send := Some \<lparr>ps_submission = submission, ps_waiting = True\<rparr>\<rparr>, ring)
           | (Inr Retry, ip) \<Rightarrow> (0, ip\<lparr>ip_send := Some \<lparr>ps_submission = submission, ps_waiting = False\<rparr>\<rparr>, ring)
           | (Inl e, ip) \<Rightarrow> ip_publish ip ring \<lparr>comp_id = ident, comp_result = Inl e\<rparr>)
      | IpRecv endpoint payload \<Rightarrow>
          (case ip_wait ip ident endpoint payload of
             (Inl e, ip) \<Rightarrow> ip_publish ip ring \<lparr>comp_id = ident, comp_result = Inl e\<rparr>
           | (Inr _, ip) \<Rightarrow> (0, ip, ring))
      | IpClose endpoint \<Rightarrow>
          (case ip_close ip endpoint of (r, ip) \<Rightarrow>
             ip_publish ip ring \<lparr>comp_id = ident, comp_result = map_sum id (\<lambda>_. IpClosed) r\<rparr>))"

lemma publish_submissions [simp]:
  "ip_publish ip ring c = (n, ip', ring') \<Longrightarrow> io_submissions ring' = io_submissions ring"
  by (auto simp: ip_publish_def driver_try_complete_def split: prod.splits sum.splits)

lemma serve_one_submissions:
  "serve_one tx own ip ring buffers s = (n, ip', ring') \<Longrightarrow> io_submissions ring' = io_submissions ring"
  by (auto simp: serve_one_def Let_def split: ip_op.splits prod.splits sum.splits send_state.splits)

lemma driver_next_count:
  assumes "driver_try_next ring = Returns (Some s, ring')"
  shows "spsc_count (io_submissions ring') < spsc_count (io_submissions ring)"
    and "io_completions ring' = io_completions ring"
proof -
  let ?q = "io_submissions ring"
  obtain q' where pop: "spsc_try_pop ?q = Returns (Some s, q')" and ring': "ring' = ring\<lparr>io_submissions := q'\<rparr>"
    using assms by (auto simp: driver_try_next_def split: outcome.splits prod.splits)
  have "spsc_tail ?q \<noteq> spsc_head ?q" and "spsc_head q' = spsc_head ?q + 1" and "spsc_tail q' = spsc_tail ?q"
    using pop by (auto simp: spsc_try_pop_def Let_def split: if_splits option.splits)
  then have "spsc_count q' < spsc_count ?q"
    using unat_diff_pred [of "spsc_tail ?q" "spsc_head ?q"] by (simp add: spsc_count_def)
  then show "spsc_count (io_submissions ring') < spsc_count (io_submissions ring)" "io_completions ring' = io_completions ring"
    by (simp_all add: ring')
qed

function serve_loop ::
  "'l transmitter \<Rightarrow> cell_id \<Rightarrow> 'l ip \<Rightarrow> ip_ring \<Rightarrow> buffer_registry \<Rightarrow> nat \<Rightarrow> (nat \<times> 'l ip \<times> ip_ring) outcome" where
  "serve_loop tx own ip ring buffers served =
     (case driver_try_next ring of
        Undefined \<Rightarrow> Undefined
      | Returns (None, ring) \<Rightarrow> Returns (served, ip, ring)
      | Returns (Some submission, ring) \<Rightarrow>
          (case serve_one tx own ip ring buffers submission of (n, ip, ring) \<Rightarrow>
             if ip_send ip \<noteq> None \<or> ip_completion ip \<noteq> None then Returns (served + n, ip, ring)
             else serve_loop tx own ip ring buffers (served + n)))"
  by pat_completeness auto
termination
  by (relation "measure (\<lambda>(tx, own, ip, ring, buffers, served). spsc_count (io_submissions ring))")
    (auto dest!: driver_next_count(1) serve_one_submissions [OF sym])

declare serve_loop.simps [simp del]

definition ip_serve ::
  "'l transmitter \<Rightarrow> cell_id \<Rightarrow> 'l ip \<Rightarrow> ip_ring \<Rightarrow> buffer_registry \<Rightarrow> (nat \<times> 'l ip \<times> ip_ring) outcome" where
  "ip_serve tx own ip ring buffers =
     (case ip_flush ip ring of (served, ip, ring) \<Rightarrow>
      if ip_completion ip \<noteq> None then Returns (served, ip, ring) else
      case ip_retry tx ip ring buffers of (n, ip, ring) \<Rightarrow>
      if ip_send ip \<noteq> None \<or> ip_completion ip \<noteq> None then Returns (served + n, ip, ring)
      else serve_loop tx own ip ring buffers (served + n))"

end
