(* ===== verification/Net_Requests.thy ===== *)
theory Net_Requests
  imports Net_Service
begin

text \<open>
  No request of the IP service is lost or answered twice. \<open>requests\<close> is the multiset of the identifiers
  of a service and its ring: submitted, parked in a receive or a send, held back by a full ring, or
  completed. Serving the ring keeps it and never reads an uninitialised slot; so does a frame that
  arrives, but for one path of the code, on which a receive whose buffer is gone is dropped.
\<close>

section \<open>The identifiers in flight\<close>

definition ring_ok :: "('o, 'c) io_ring \<Rightarrow> bool" where
  "ring_ok ring \<longleftrightarrow> spsc_inv (io_submissions ring) \<and> spsc_inv (io_completions ring)"

abbreviation submitted :: "('o, 'c) io_ring \<Rightarrow> u64 multiset" where
  "submitted ring \<equiv> mset (map sub_id (spsc_contents (io_submissions ring)))"

abbreviation completed :: "('o, 'c) io_ring \<Rightarrow> u64 multiset" where
  "completed ring \<equiv> mset (map comp_id (spsc_contents (io_completions ring)))"

abbreviation held :: "('a \<Rightarrow> 'b) \<Rightarrow> 'a option \<Rightarrow> 'b multiset" where
  "held f x \<equiv> (case x of None \<Rightarrow> {#} | Some y \<Rightarrow> {#f y#})"

definition parked :: "'l ip \<Rightarrow> u64 multiset" where
  "parked ip = mset (map rx_id (flatten (ip_receives ip))) + held (\<lambda>p. sub_id (ps_submission p)) (ip_send ip)"

definition requests :: "'l ip \<Rightarrow> ip_ring \<Rightarrow> u64 multiset" where
  "requests ip ring = submitted ring + parked ip + held comp_id (ip_completion ip) + completed ring"

section \<open>Slots of options\<close>

lemma flatten_simps [simp]:
  "flatten [] = []" "flatten (None # xs) = flatten xs" "flatten (Some x # xs) = x # flatten xs"
  "flatten (xs @ ys) = flatten xs @ flatten ys" "flatten (replicate n None) = []"
  by (induction n) (simp_all add: flatten_def map_filter_def)

lemma flatten_mset: "i < length xs \<Longrightarrow>
  mset (map f (flatten (xs[i := y]))) + held f (xs ! i) = mset (map f (flatten xs)) + held f y"
proof (induction xs arbitrary: i)
  case (Cons x xs)
  then show ?case by (cases i; cases x; cases y) auto
qed simp

lemma set_flatten: "x \<in> set (flatten xs) \<longleftrightarrow> Some x \<in> set xs"
  by (induction xs) (auto simp: flatten_def map_filter_def split: option.splits)

lemma some_and_iff: "some_and p slot \<longleftrightarrow> (\<exists>x. slot = Some x \<and> p x)"
  by (cases slot) (auto simp: some_and_def)

section \<open>Rings\<close>

lemma try_complete_cases:
  assumes "ring_ok ring"
  obtains (full) "driver_try_complete ring c = (Inl c, ring)"
  | (room) ring' where "driver_try_complete ring c = (Inr (), ring')" "ring_ok ring'"
      "io_submissions ring' = io_submissions ring"
      "spsc_contents (io_completions ring') = spsc_contents (io_completions ring) @ [c]"
proof (cases "spsc_count (io_completions ring) = spsc_capacity (io_completions ring)")
  case True
  then have "spsc_try_push (io_completions ring) c = (Inl c, io_completions ring)"
    using assms by (simp add: spsc_push_refused ring_ok_def)
  then show thesis using full by (simp add: driver_try_complete_def)
next
  case False
  then have "spsc_count (io_completions ring) < spsc_capacity (io_completions ring)"
    using assms spsc_count_le [of "io_completions ring"] by (simp add: ring_ok_def)
  then obtain q where "spsc_try_push (io_completions ring) c = (Inr (), q)" "spsc_inv q"
    "spsc_contents q = spsc_contents (io_completions ring) @ [c]"
    using spsc_push_accepted assms by (metis ring_ok_def)
  then show thesis using room [of "ring\<lparr>io_completions := q\<rparr>"] assms by (simp add: driver_try_complete_def ring_ok_def)
qed

lemma try_next_cases:
  assumes "ring_ok ring"
  obtains (empty) "driver_try_next ring = Returns (None, ring)" "spsc_contents (io_submissions ring) = []"
  | (taken) s ring' where "driver_try_next ring = Returns (Some s, ring')" "ring_ok ring'"
      "io_completions ring' = io_completions ring"
      "spsc_contents (io_submissions ring) = s # spsc_contents (io_submissions ring')"
proof (cases "spsc_count (io_submissions ring) = 0")
  case True
  then show thesis using empty spsc_pop_empty [of "io_submissions ring"]
    by (simp add: driver_try_next_def flip: length_0_conv)
next
  case False
  then obtain v q where "spsc_try_pop (io_submissions ring) = Returns (Some v, q)" "spsc_inv q"
    "spsc_contents (io_submissions ring) = v # spsc_contents q"
    using assms spsc_pop_value [of "io_submissions ring"] by (auto simp: ring_ok_def)
  then show thesis using taken [of v "ring\<lparr>io_submissions := q\<rparr>"] assms
    by (simp add: driver_try_next_def ring_ok_def)
qed

section \<open>One step\<close>

text \<open>
  \<open>answers n xs ip ring ip' ring'\<close>: the identifiers \<open>xs\<close> are now parked, held or completed besides
  those there were, and \<open>n\<close> completions were published.
\<close>

definition answers :: "nat \<Rightarrow> u64 multiset \<Rightarrow> 'l ip \<Rightarrow> ip_ring \<Rightarrow> 'l ip \<Rightarrow> ip_ring \<Rightarrow> bool" where
  "answers n xs ip ring ip' ring' \<longleftrightarrow>
     ring_ok ring' \<and> io_submissions ring' = io_submissions ring
     \<and> parked ip' + held comp_id (ip_completion ip') + completed ring'
       = parked ip + held comp_id (ip_completion ip) + completed ring + xs
     \<and> size (completed ring') = size (completed ring) + n"

lemma publish_answers:
  assumes "ring_ok ring" and "ip_completion ip = None" and "ip_publish ip ring c = (n, ip', ring')"
  shows "answers n {#comp_id c#} ip ring ip' ring'"
  using assms(1)
proof (cases rule: try_complete_cases [of ring c])
  case full
  then show ?thesis using assms by (auto simp: ip_publish_def answers_def parked_def)
next
  case (room r)
  then show ?thesis using assms by (auto simp: ip_publish_def answers_def parked_def)
qed

lemma flush_answers:
  assumes "ring_ok ring" and "ip_flush ip ring = (n, ip', ring')"
  shows "answers n {#} ip ring ip' ring'"
proof (cases "ip_completion ip")
  case None
  then show ?thesis using assms by (simp add: ip_flush_def answers_def)
next
  case (Some c)
  show ?thesis using assms(1)
  proof (cases rule: try_complete_cases [of ring c])
    case full
    then show ?thesis using assms Some by (auto simp: ip_flush_def answers_def parked_def)
  next
    case (room r)
    then show ?thesis using assms Some by (auto simp: ip_flush_def answers_def parked_def)
  qed
qed

lemma answers_trans:
  "answers m xs ip ring ip' ring' \<Longrightarrow> answers n ys ip' ring' ip'' ring'' \<Longrightarrow> answers (m + n) (xs + ys) ip ring ip'' ring''"
  by (simp add: answers_def)

lemma answers_requests: "answers n xs ip ring ip' ring' \<Longrightarrow> requests ip' ring' = requests ip ring + xs"
  by (simp add: answers_def requests_def add.assoc)

lemma answers_refl: "ring_ok ring \<Longrightarrow> answers 0 {#} ip ring ip ring"
  by (simp add: answers_def)

text \<open>What a change of the other fields keeps.\<close>

definition ip_same :: "'l ip \<Rightarrow> 'l ip \<Rightarrow> bool" where
  "ip_same ip ip' \<longleftrightarrow> ip_receives ip' = ip_receives ip \<and> ip_send ip' = ip_send ip \<and> ip_completion ip' = ip_completion ip"

named_theorems ip_frames

lemma ip_same_refl [simp]: "ip_same ip ip"
  by (simp add: ip_same_def)

lemma ip_same_trans: "ip_same a b \<Longrightarrow> ip_same b c \<Longrightarrow> ip_same a c"
  by (simp add: ip_same_def)

lemma answers_same: "answers n xs ip' ring ip'' ring' \<Longrightarrow> ip_same ip ip' \<Longrightarrow> answers n xs ip ring ip'' ring'"
  by (simp add: answers_def ip_same_def parked_def)

lemma transmit_link:
  assumes "ip_transmit tx ip dst et payload = (r, ip')"
  obtains l where "ip' = ip\<lparr>ip_link := l\<rparr>"
proof (cases "frame_emit \<lparr>fr_dst = dst, fr_src = cf_mac (ip_config ip), fr_ether_type = et, fr_payload = payload\<rparr> (replicate FRAME 0)")
  case (Inl e)
  then show thesis using that [of "ip_link ip"] assms by (simp add: ip_transmit_def)
next
  case (Inr v)
  then show thesis using assms that
    by (cases v; cases "tx (ip_link ip) (take (fst v) (snd v))") (auto simp: ip_transmit_def)
qed

text \<open>\<open>only_link ip ip'\<close>: nothing but the device changed.\<close>

definition only_link :: "'l ip \<Rightarrow> 'l ip \<Rightarrow> bool" where
  "only_link ip ip' \<longleftrightarrow> ip' = ip\<lparr>ip_link := ip_link ip'\<rparr>"

lemma only_linkI [simp]: "only_link ip ip" "only_link ip (ip\<lparr>ip_link := l\<rparr>)"
  by (simp_all add: only_link_def)

lemma only_link_fields:
  "only_link ip ip' \<Longrightarrow> ip_config ip' = ip_config ip \<and> ip_protocols ip' = ip_protocols ip \<and> ip_bound ip' = ip_bound ip
     \<and> ip_neighbors ip' = ip_neighbors ip \<and> ip_same ip ip'"
  unfolding only_link_def ip_same_def by (metis ip.select_convs ip.surjective ip.update_convs(1))

lemma transmit_only: "ip_transmit tx ip dst et payload = (r, ip') \<Longrightarrow> only_link ip ip'"
  by (auto elim: transmit_link)

lemma arp_only:
  "ip_arp tx ip dst p = (r, ip') \<Longrightarrow> only_link ip ip'"
  "arp_request tx ip a = (r, ip') \<Longrightarrow> only_link ip ip'"
  "arp_reply tx ip h a = (r, ip') \<Longrightarrow> only_link ip ip'"
  by (auto simp: ip_arp_def arp_request_def arp_reply_def split: sum.splits prod.splits dest: transmit_only)

lemma icmpv6_only:
  "ip_icmpv6 tx ip dst src to m = (r, ip') \<Longrightarrow> only_link ip ip'"
  by (auto simp: ip_icmpv6_def Let_def split: sum.splits prod.splits if_splits dest: transmit_only)

lemma discover_only:
  "ip_solicit tx ip a = (r, ip') \<Longrightarrow> only_link ip ip'"
  "ip_advertise tx ip dst target to = (r, ip') \<Longrightarrow> only_link ip ip'"
  "ip_discover tx ip hop = (r, ip') \<Longrightarrow> only_link ip ip'"
  by (auto simp: ip_solicit_def ip_advertise_def ip_discover_def Let_def split: ip_addr.splits dest: icmpv6_only arp_only)

lemma try_send_only: "try_send tx ip buffers opn = (r, ip') \<Longrightarrow> only_link ip ip'"
  by (auto simp: try_send_def split: ip_op.splits sum.splits prod.splits option.splits dest: transmit_only discover_only)

lemma bind_same: "ip_bind ip own p = (r, ip') \<Longrightarrow> ip_same ip ip'"
  by (auto simp: ip_bind_def ip_same_def Let_def split: if_splits prod.splits sum.splits option.splits)

lemma close_same: "ip_close ip c = (r, ip') \<Longrightarrow> ip_same ip ip'"
  by (auto simp: ip_close_def ip_same_def Let_def split: if_splits prod.splits sum.splits option.splits)

lemma wait_cases:
  assumes "ip_wait ip ident endpoint payload = (r, ip')"
  obtains (refused) e where "r = Inl e" "ip' = ip"
  | (parked) i where "r = Inr ()" "i < length (ip_receives ip)" "ip_receives ip ! i = None"
      "ip' = ip\<lparr>ip_receives := (ip_receives ip)[i := Some \<lparr>rx_id = ident, rx_endpoint = endpoint, rx_payload = payload\<rparr>]\<rparr>"
proof -
  have "(\<exists>e. r = Inl e \<and> ip' = ip) \<or> (\<exists>i. find_index (\<lambda>slot. slot = None) (ip_receives ip) = Some i \<and> r = Inr () \<and>
    ip' = ip\<lparr>ip_receives := (ip_receives ip)[i := Some \<lparr>rx_id = ident, rx_endpoint = endpoint, rx_payload = payload\<rparr>]\<rparr>)"
    using assms by (auto simp: ip_wait_def split: sum.splits if_splits option.splits)
  then show thesis using refused parked find_index_SomeD by blast
qed

lemma parked_update:
  "i < length (ip_receives ip) \<Longrightarrow> ip_receives ip ! i = None \<Longrightarrow>
   parked (ip\<lparr>ip_receives := (ip_receives ip)[i := Some w]\<rparr>) = add_mset (rx_id w) (parked ip)"
  using flatten_mset [of i "ip_receives ip" rx_id "Some w"] by (simp add: parked_def)

lemma parked_take:
  "i < length (ip_receives ip) \<Longrightarrow> ip_receives ip ! i = Some w \<Longrightarrow>
   parked ip = add_mset (rx_id w) (parked (ip\<lparr>ip_receives := (ip_receives ip)[i := None]\<rparr>))"
  using flatten_mset [of i "ip_receives ip" rx_id None] by (simp add: parked_def)

lemma send_parked_answers:
  assumes "ring_ok ring" "only_link ip ip'" "ip_send ip = None"
  shows "answers 0 {#sub_id (ps_submission p)#} ip ring (ip'\<lparr>ip_send := Some p\<rparr>) ring"
  using assms only_link_fields [OF assms(2)] by (simp add: answers_def parked_def ip_same_def)

lemma serve_one_answers:
  assumes ring: "ring_ok ring" and free: "ip_send ip = None" "ip_completion ip = None"
    and served: "serve_one tx own ip ring buffers s = (n, ip', ring')"
  shows "answers n {#sub_id s#} ip ring ip' ring'"
proof -
  have publish: "answers n {#sub_id s#} ip ring ip' ring'"
    if "ip_publish ip1 ring \<lparr>comp_id = sub_id s, comp_result = res\<rparr> = (n, ip', ring')" "ip_same ip ip1" for ip1 res
    using answers_same [OF publish_answers [OF ring _ that(1)] that(2)] that(2) free by (simp add: ip_same_def)
  show ?thesis
  proof (cases "sub_op s")
    case (IpBind protocol)
    then show ?thesis using served publish [OF _ bind_same] by (auto simp: serve_one_def Let_def split: prod.splits)
  next
    case (IpSend endpoint to payload)
    obtain r ip1 where t: "try_send tx ip buffers (IpSend endpoint to payload) = (r, ip1)" by fastforce
    note only = try_send_only [OF t]
    have same: "ip_same ip ip1" using only_link_fields [OF only] by simp
    show ?thesis using served IpSend t publish [OF _ same] send_parked_answers [OF ring only free(1)]
      by (auto simp: serve_one_def Let_def split: sum.splits send_state.splits)
        (metis pending_send.select_convs(1))+
  next
    case (IpRecv endpoint payload)
    obtain r ip1 where w: "ip_wait ip (sub_id s) endpoint payload = (r, ip1)" by fastforce
    then show ?thesis
    proof (cases rule: wait_cases)
      case (refused e)
      then show ?thesis using served IpRecv w publish by (auto simp: serve_one_def Let_def)
    next
      case (parked i)
      then show ?thesis using served IpRecv w ring by (auto simp: serve_one_def Let_def answers_def parked_update)
    qed
  next
    case (IpClose endpoint)
    then show ?thesis using served publish [OF _ close_same] by (auto simp: serve_one_def Let_def split: prod.splits)
  qed
qed

lemma retry_answers:
  assumes ring: "ring_ok ring" and free: "ip_completion ip = None"
    and retried: "ip_retry tx ip ring buffers = (n, ip', ring')"
  shows "answers n {#} ip ring ip' ring'"
proof (cases "ip_send ip")
  case None
  then show ?thesis using retried ring by (simp add: ip_retry_def answers_refl)
next
  case (Some p)
  obtain r ip1 where t: "try_send tx ip buffers (sub_op (ps_submission p)) = (r, ip1)" by fastforce
  have same: "ip_same ip ip1" using only_link_fields [OF try_send_only [OF t]] by simp
  have publish: "answers n {#} ip ring ip' ring'"
    if "ip_publish (ip1\<lparr>ip_send := None\<rparr>) ring \<lparr>comp_id = sub_id (ps_submission p), comp_result = res\<rparr> = (n, ip', ring')" for res
    using publish_answers [OF ring _ that] same free Some by (simp add: ip_same_def answers_def parked_def)
  show ?thesis
  proof (cases "ps_waiting p")
    case True
    then show ?thesis using retried ring Some by (simp add: ip_retry_def answers_refl)
  next
    case False
    have "answers 0 {#} ip ring ip1 ring" "answers 0 {#} ip ring (ip1\<lparr>ip_send := Some (p\<lparr>ps_waiting := True\<rparr>)\<rparr>) ring"
      using same ring Some by (simp_all add: answers_def ip_same_def parked_def)
    then show ?thesis using retried Some t False publish
      by (auto simp: ip_retry_def Let_def split: sum.splits send_state.splits)
  qed
qed

lemma snd_eq_iff: "snd x = y \<longleftrightarrow> (\<exists>n. x = (n, y))"
  by (cases x) auto

lemma resume_answers:
  assumes "ring_ok ring" and "ip_completion ip = None" and "ip_resume tx ip ring buffers = (ip', ring')"
  shows "\<exists>n. answers n {#} ip ring ip' ring'"
proof (cases "ip' = ip \<and> ring' = ring")
  case True
  then show ?thesis using answers_refl [OF assms(1)] by blast
next
  case False
  then obtain p n where p: "ip_send ip = Some p"
    and r: "ip_retry tx (ip\<lparr>ip_send := Some (p\<lparr>ps_waiting := False\<rparr>)\<rparr>) ring buffers = (n, ip', ring')"
    using assms(3) by (auto simp: ip_resume_def snd_eq_iff split: option.splits ip_op.splits sum.splits if_splits)
  show ?thesis using retry_answers [OF assms(1) _ r] assms(2) p by (auto simp: answers_def parked_def)
qed

section \<open>Serving\<close>

lemma serve_loop_conserves:
  assumes "ring_ok ring" and "ip_send ip = None" "ip_completion ip = None"
  shows "\<exists>n ip' ring'. serve_loop tx own ip ring buffers served = Returns (served + n, ip', ring') \<and> ring_ok ring'
    \<and> requests ip' ring' = requests ip ring \<and> size (completed ring') = size (completed ring) + n
    \<and> (spsc_contents (io_submissions ring') = [] \<or> ip_send ip' \<noteq> None \<or> ip_completion ip' \<noteq> None)"
  using assms
proof (induction tx own ip ring buffers served rule: serve_loop.induct)
  case (1 tx own ip ring buffers served)
  show ?case using "1.prems"(1)
  proof (cases rule: try_next_cases [of ring])
    case empty
    then show ?thesis using "1.prems" by (subst serve_loop.simps) simp
  next
    case (taken s ring1)
    obtain n1 ip1 ring2 where one: "serve_one tx own ip ring1 buffers s = (n1, ip1, ring2)" by (metis prod_cases3)
    have step: "answers n1 {#sub_id s#} ip ring1 ip1 ring2" by (rule serve_one_answers [OF taken(2) "1.prems"(2,3) one])
    have req: "requests ip1 ring2 = requests ip ring" and size: "size (completed ring2) = size (completed ring) + n1"
      and ok: "ring_ok ring2"
      using answers_requests [OF step] step taken(3,4) by (simp_all add: answers_def requests_def)
    show ?thesis
    proof (cases "ip_send ip1 \<noteq> None \<or> ip_completion ip1 \<noteq> None")
      case True
      then show ?thesis using taken(1) one req size ok
        by (subst serve_loop.simps) auto
    next
      case False
      then have "\<exists>n ip' ring'. serve_loop tx own ip1 ring2 buffers (served + n1) = Returns (served + n1 + n, ip', ring') \<and> ring_ok ring'
        \<and> requests ip' ring' = requests ip1 ring2 \<and> size (completed ring') = size (completed ring2) + n
        \<and> (spsc_contents (io_submissions ring') = [] \<or> ip_send ip' \<noteq> None \<or> ip_completion ip' \<noteq> None)"
        using "1.IH" [OF taken(1) refl refl one [symmetric] refl] ok by auto
      then show ?thesis using taken(1) one req size False
        by (subst serve_loop.simps) (auto simp: add.assoc)
    qed
  qed
qed

lemma serve_answers:
  assumes "ring_ok ring"
  shows "\<exists>n ip' ring'. ip_serve tx own ip ring buffers = Returns (n, ip', ring') \<and> ring_ok ring'
    \<and> requests ip' ring' = requests ip ring \<and> size (completed ring') = size (completed ring) + n
    \<and> (spsc_contents (io_submissions ring') = [] \<or> ip_send ip' \<noteq> None \<or> ip_completion ip' \<noteq> None)"
proof -
  obtain n1 ip1 ring1 where f: "ip_flush ip ring = (n1, ip1, ring1)" by (metis prod_cases3)
  have a1: "answers n1 {#} ip ring ip1 ring1" by (rule flush_answers [OF assms f])
  obtain n2 ip2 ring2 where r: "ip_retry tx ip1 ring1 buffers = (n2, ip2, ring2)" by (metis prod_cases3)
  show ?thesis
  proof (cases "ip_completion ip1")
    case (Some c)
    then show ?thesis using f a1 answers_requests [OF a1] by (auto simp: ip_serve_def answers_def)
  next
    case None
    have a2: "answers n2 {#} ip1 ring1 ip2 ring2" using retry_answers [OF _ None r] a1 by (simp add: answers_def)
    then have ok: "ring_ok ring2" and req: "requests ip2 ring2 = requests ip ring"
      and size: "size (completed ring2) = size (completed ring) + (n1 + n2)"
      using a1 a2 answers_requests [OF a1] answers_requests [OF a2] by (simp_all add: answers_def)
    show ?thesis
    proof (cases "ip_send ip2 \<noteq> None \<or> ip_completion ip2 \<noteq> None")
      case True
      then show ?thesis using f r None ok req size by (auto simp: ip_serve_def)
    next
      case False
      then show ?thesis using f r None req size serve_loop_conserves [OF ok, of ip2 tx own buffers "n1 + n2"]
        by (auto simp: ip_serve_def)
    qed
  qed
qed

section \<open>Frames\<close>

text \<open>\<open>dropped\<close>: the receive \<open>w\<close> was taken for a payload its buffer could not be resolved for.\<close>

definition dropped :: "ip_receive \<Rightarrow> 'l ip \<Rightarrow> ip_ring \<Rightarrow> buffer_registry \<Rightarrow> ip_error + bool \<Rightarrow> 'l ip \<Rightarrow> ip_ring \<Rightarrow> bool" where
  "dropped w ip ring buffers r ip' ring' \<longleftrightarrow>
     (\<exists>e. r = Inl (IpBuffer e) \<and> fst (resolve_write (\<lambda>target. ((), target)) buffers (rx_payload w)) = Inl e)
     \<and> Some w \<in> set (ip_receives ip) \<and> requests ip ring = add_mset (rx_id w) (requests ip' ring')"

lemma resolve_write_fails:
  "fst (resolve_write f buffers opn) = Inl e \<longleftrightarrow> fst (resolve_write g buffers opn) = Inl e"
  by (auto simp: resolve_write_def split: prod.splits sum.splits)

lemma deliver_answers:
  assumes ring: "ring_ok ring" and free: "ip_completion ip = None"
    and delivered: "ip_deliver ip ring buffers from protocol payload = (r, ip', ring', buffers')"
  shows "ring_ok ring' \<and> (requests ip' ring' = requests ip ring \<or> (\<exists>w. dropped w ip ring buffers r ip' ring'))"
proof (cases "find_index (some_and (waits_for (ip_protocols ip) protocol)) (ip_receives ip)")
  case None
  then show ?thesis using delivered ring by (simp add: ip_deliver_def)
next
  case (Some i)
  then obtain w where i: "i < length (ip_receives ip)" and w: "ip_receives ip ! i = Some w"
    using find_index_SomeD [OF Some] by (auto simp: some_and_iff)
  let ?ip = "ip\<lparr>ip_receives := (ip_receives ip)[i := None]\<rparr>"
  have taken: "requests ip ring = add_mset (rx_id w) (requests ?ip ring)"
    using parked_take [OF i w] by (simp add: requests_def)
  have publish: "ring_ok ring' \<and> requests ip' ring' = requests ip ring"
    if "ip_publish ?ip ring \<lparr>comp_id = rx_id w, comp_result = res\<rparr> = (n, ip', ring')" for n res
  proof -
    have "answers n {#rx_id w#} ?ip ring ip' ring'" using publish_answers [OF ring _ that] free by simp
    then show ?thesis using answers_requests [of n "{#rx_id w#}" ?ip ring ip' ring'] taken by (simp add: answers_def)
  qed
  have lost: "\<exists>w. dropped w ip ring buffers r ?ip ring"
    if "resolve_write (\<lambda>target. ((), put_slice 0 payload target)) buffers (rx_payload w) = (Inl e, b)" "r = Inl (IpBuffer e)" for e b
    using that taken i w resolve_write_fails [of "\<lambda>target. ((), put_slice 0 payload target)" buffers "rx_payload w" e "\<lambda>target. ((), target)"]
    by (auto simp: dropped_def in_set_conv_nth)
  show ?thesis using delivered Some w ring publish lost
    by (auto simp: ip_deliver_def Let_def split: if_splits prod.splits sum.splits)
qed

lemma resume_conserves:
  assumes "ring_ok ring" "ip_same ip ip1" "ip_completion ip = None" "ip_resume tx ip1 ring buffers = (ip', ring')"
  shows "ring_ok ring' \<and> requests ip' ring' = requests ip ring"
proof -
  have "ip_completion ip1 = None" using assms(2,3) by (simp add: ip_same_def)
  then obtain n where "answers n {#} ip1 ring ip' ring'" using resume_answers [OF assms(1) _ assms(4)] by blast
  then have a: "answers n {#} ip ring ip' ring'" by (rule answers_same [OF _ assms(2)])
  then show ?thesis using answers_requests [OF a] by (simp add: answers_def)
qed

lemma requests_same: "ip_same ip ip' \<Longrightarrow> requests ip' ring = requests ip ring"
  by (simp add: ip_same_def requests_def parked_def)

lemma ip_same_neighbors [simp]: "ip_same ip (ip\<lparr>ip_neighbors := c\<rparr>)"
  by (simp add: ip_same_def)

lemma only_link_same: "only_link ip1 ip2 \<Longrightarrow> ip_same ip ip1 \<Longrightarrow> ip_same ip ip2"
  using only_link_fields ip_same_trans by blast

lemma ingest_arp_conserves:
  assumes "ring_ok ring" "ip_completion ip = None" "ingest_arp tx ip ring buffers bytes = (r, ip', ring')"
  shows "ring_ok ring' \<and> requests ip' ring' = requests ip ring"
proof (cases "arp_parse bytes")
  case (Inl e)
  then show ?thesis using assms by (simp add: ingest_arp_def)
next
  case (Inr packet)
  let ?ip = "ip\<lparr>ip_neighbors := cache_learn (ip_neighbors ip) (V4 (arp_tx_protocol packet)) (arp_tx_hardware packet)\<rparr>"
  obtain q ip1 where q: "(if arp_operation packet = ArpRequest \<and> V4 (arp_rx_protocol packet) = cf_addr (ip_config ?ip)
      then arp_reply tx ?ip (arp_tx_hardware packet) (arp_tx_protocol packet) else (Inr (), ?ip)) = (q, ip1)" by fastforce
  have "only_link ?ip ip1" using q by (auto split: if_splits dest: arp_only)
  then have same: "ip_same ip ip1" by (rule only_link_same) simp
  then show ?thesis using assms q Inr resume_conserves [OF assms(1) same assms(2)] requests_same [OF same]
    by (auto simp: ingest_arp_def Let_def split: sum.splits prod.splits)
qed

lemma ingest_icmpv6_conserves:
  assumes "ring_ok ring" "ip_completion ip = None" "ingest_icmpv6 tx ip ring buffers hardware packet = (r, ip', ring')"
  shows "ring_ok ring' \<and> requests ip' ring' = requests ip ring"
proof -
  have resumed: "ring_ok ring' \<and> requests ip' ring' = requests ip ring"
    if "ip_resume tx ip1 ring buffers = (ip', ring')" "ip_same ip ip1" for ip1
    using resume_conserves [OF assms(1) that(2) assms(2) that(1)] .
  have ended: "requests ip1 ring = requests ip ring" if "ip_same ip ip1" for ip1 using requests_same [OF that] .
  have chain: "ip_same ip ip2" if "only_link ip1 ip2" "ip_same ip ip1" for ip1 ip2 using only_link_same [OF that] .
  show ?thesis
  proof (cases "icmp_parse (ip6_src packet) (ip6_dst packet) (ip6_payload packet)")
    case (Inl e)
    then show ?thesis using assms by (simp add: ingest_icmpv6_def)
  next
    case (Inr m)
    show ?thesis
      using assms(1,3) Inr
      by (auto simp: ingest_icmpv6_def Let_def split: icmp_message.splits if_splits sum.splits prod.splits
          dest!: icmpv6_only discover_only dest: chain resumed ended)
  qed
qed

lemma ingest_answers:
  assumes "ring_ok ring" and "ip_ingest tx ip ring buffers bytes = (r, ip', ring', buffers')"
  shows "ring_ok ring' \<and> (requests ip' ring' = requests ip ring \<or> (\<exists>w. dropped w ip ring buffers r ip' ring'))"
proof (cases "ip_completion ip")
  case (Some c)
  then show ?thesis using assms by (simp add: ip_ingest_def)
next
  case None
  show ?thesis using assms None
      ingest_arp_conserves [OF assms(1) None] ingest_icmpv6_conserves [OF assms(1) None] deliver_answers [OF assms(1) None]
    by (auto simp: ip_ingest_def ingest_ipv4_def ingest_ipv6_def split: sum.splits if_splits ether_type.splits prod.splits)
qed

section \<open>Conservation\<close>

text \<open>
  C10. One turn of the IP service neither loses nor duplicates a request: what was queued,
  waiting or pending before is afterwards queued, waiting, pending or answered, each exactly
  once, whatever the link does.
\<close>

theorem serve_conserves:
  assumes "ring_ok ring"
  shows "\<exists>n ip' ring'. ip_serve tx own ip ring buffers = Returns (n, ip', ring') \<and> ring_ok ring'
    \<and> requests ip' ring' = requests ip ring \<and> size (completed ring') = size (completed ring) + n
    \<and> (spsc_contents (io_submissions ring') = [] \<or> ip_send ip' \<noteq> None \<or> ip_completion ip' \<noteq> None)"
  by (rule serve_answers [OF assms])

theorem serve_conserves_witness:
  "\<exists>n ip' ring'. ip_serve (\<lambda>l f. (Inr (), l)) 0
      (ip_new 1 () \<lparr>cf_mac = [2, 0, 0, 0, 0, 1], cf_addr = V4 [10, 0, 0, 1], cf_prefix = 24, cf_gateway = V4 [10, 0, 0, 254]\<rparr>)
      (io_new 4) (buffers_new 1) = Returns (n, ip', ring') \<and> ring_ok ring'"
proof -
  have "ring_ok (io_new 4 :: ip_ring)" by (simp add: ring_ok_def io_new_def spsc_new_inv)
  from serve_conserves [OF this] show ?thesis by blast
qed



end
