(* ===== verification/Net_Delivery.thy ===== *)
theory Net_Delivery
  imports Net_Requests
begin

text \<open>
  What the IP service does with a payload. The frame a send hands to its device, ingested by the peer it
  is addressed to, puts the payload into the buffer of the receive that waits for its protocol and
  completes that receive; nobody else's traffic touches a buffer. Neighbours are learnt from ARP and from
  discovery at the full hop limit only, a protocol has one endpoint at a time, and the next hop is the
  destination exactly when the prefix says so.
\<close>

section \<open>From one host to another\<close>

fun addr_fits :: "ip_addr \<Rightarrow> bool" where
  "addr_fits (V4 a) \<longleftrightarrow> length a = 4"
| "addr_fits (V6 a) \<longleftrightarrow> length a = 16"

definition config_fits :: "config \<Rightarrow> bool" where
  "config_fits c \<longleftrightarrow> length (cf_mac c) = 6 \<and> addr_fits (cf_addr c)"

text \<open>
  \<open>peers c b to protocol payload\<close>: a host with configuration \<open>c\<close> can address \<open>b\<close> by \<open>to\<close>, the payload
  fits a packet, and over IPv6 the protocol is neither ICMPv6 nor an extension header.
\<close>

fun peers :: "config \<Rightarrow> 'l ip \<Rightarrow> ip_addr \<Rightarrow> byte \<Rightarrow> byte list \<Rightarrow> bool" where
  "peers c b (V4 d) protocol payload \<longleftrightarrow>
     (\<exists>s. cf_addr c = V4 s) \<and> cf_addr (ip_config b) = V4 d \<and> length payload \<le> 1480"
| "peers c b (V6 d) protocol payload \<longleftrightarrow>
     (\<exists>s. cf_addr c = V6 s) \<and> ip_accepts b d \<and> length payload \<le> 1460 \<and> protocol \<notin> {0, 43, 44, 51, 58, 60}"

lemma frame_sent:
  assumes "length dst = 6" "length (cf_mac (ip_config ip)) = 6" "length packet \<le> 1500"
  obtains frame where
    "\<And>tx. ip_transmit tx ip dst et packet = (case tx (ip_link ip) frame of (r, link) \<Rightarrow> (r, ip\<lparr>ip_link := link\<rparr>))"
    "frame_parse frame = Inr \<lparr>fr_dst = dst, fr_src = cf_mac (ip_config ip), fr_ether_type = et, fr_payload = packet\<rparr>"
proof -
  let ?f = "\<lparr>fr_dst = dst, fr_src = cf_mac (ip_config ip), fr_ether_type = et, fr_payload = packet\<rparr>"
  have fits: "frame_fits ?f" using assms by (simp add: frame_fits_def)
  then obtain out where e: "frame_emit ?f (replicate FRAME 0) = Inr (14 + length packet, out)"
    using assms(3) by (simp add: frame_emit_image)
  have "frame_parse (take (14 + length packet) out) = Inr ?f" by (rule frame_roundtrip(1) [OF fits e])
  then show thesis using that [of "take (14 + length packet) out"] e by (simp add: ip_transmit_def)
qed

lemma packet_sent:
  assumes "config_fits c" "addr_fits to" "peers c b to protocol payload"
  obtains et packet where "send_packet c to protocol payload = Inr (et, packet)" "length packet \<le> 1500"
    "\<And>tx ring buffers hardware. case et of
       EtherIpv4 \<Rightarrow> ingest_ipv4 b ring buffers packet = ip_deliver b ring buffers (cf_addr c) protocol payload
     | EtherIpv6 \<Rightarrow> ingest_ipv6 tx b ring buffers hardware packet = ip_deliver b ring buffers (cf_addr c) protocol payload
     | EtherArp \<Rightarrow> False"
proof (cases "(c, b, to, protocol, payload)" rule: peers.cases)
  case (1 c b d protocol payload)
  then obtain s where s: "cf_addr c = V4 s" "cf_addr (ip_config b) = V4 d" "length payload \<le> 1480" using assms(3) by auto
  let ?p = "\<lparr>ip4_src = s, ip4_dst = d, ip4_protocol = protocol, ip4_payload = payload\<rparr>"
  obtain out where out: "ipv4_emit ?p (replicate MTU 0) = Inr (20 + length payload, out)"
    "ipv4_parse (take (20 + length payload) out) = Inr ?p"
    using ipv4_roundtrip [of ?p "replicate MTU 0"] s 1 assms
    by (auto simp: ipv4_fits_def config_fits_def) (metis append_Nil2)
  show thesis using that [of EtherIpv4 "take (20 + length payload) out"] s 1 out
    by (simp add: send_packet_def ingest_ipv4_def)
next
  case (2 c b d protocol payload)
  then obtain s where s: "cf_addr c = V6 s" "ip_accepts b d" "length payload \<le> 1460" "protocol \<notin> {0, 43, 44, 51, 58, 60}"
    using assms(3) by auto
  let ?p = "ipv6_packet s d protocol payload"
  have p: "ip6_payload ?p = payload" "ip6_src ?p = s" "ip6_dst ?p = d" "ip6_next_header ?p = protocol"
    by (simp_all add: ipv6_packet_def)
  have "ipv6_fits ?p" using s 2 assms by (auto simp: ipv6_fits_def p config_fits_def)
  then obtain out where out: "ipv6_emit ?p (replicate MTU 0) = Inr (40 + length payload, out)"
    "ipv6_parse (take (40 + length payload) out) = Inr ?p"
    using ipv6_roundtrip [of ?p "replicate MTU 0"] s by (auto simp: p) (metis append_Nil2)
  show thesis using that [of EtherIpv6 "take (40 + length payload) out"] s 2 out
    by (simp add: send_packet_def ingest_ipv6_def p ICMP_PROTOCOL_def)
qed

text \<open>\<open>ready b ring buffers protocol w bytes n\<close>: \<open>w\<close> waits for the protocol, and \<open>n\<close> bytes fit its buffer.\<close>

definition ready :: "'l ip \<Rightarrow> ip_ring \<Rightarrow> buffer_registry \<Rightarrow> byte \<Rightarrow> nat \<Rightarrow> ip_receive \<Rightarrow> nat \<Rightarrow> bool" where
  "ready b ring buffers protocol i w n \<longleftrightarrow>
     ip_completion b = None \<and> ring_ok ring
     \<and> spsc_count (io_completions ring) < spsc_capacity (io_completions ring)
     \<and> find_index (some_and (waits_for (ip_protocols b) protocol)) (ip_receives b) = Some i
     \<and> ip_receives b ! i = Some w \<and> n \<le> bo_len (rx_payload w)
     \<and> (\<exists>bytes. table_get WRITE buffers (bo_buffer (rx_payload w)) = Inr bytes
          \<and> bo_offset (rx_payload w) + bo_len (rx_payload w) \<le> length bytes \<and> length bytes < u64_limit)"

lemma completed_room:
  assumes "ring_ok ring" "spsc_count (io_completions ring) < spsc_capacity (io_completions ring)"
  obtains ring' where "driver_try_complete ring c = (Inr (), ring')" "ring_ok ring'" "io_submissions ring' = io_submissions ring"
    "spsc_contents (io_completions ring') = spsc_contents (io_completions ring) @ [c]"
  using spsc_push_accepted [of "io_completions ring" c] assms that
  by (fastforce simp: driver_try_complete_def ring_ok_def)

lemma put_slice_within:
  assumes "length payload \<le> n" "at + n \<le> length bytes"
  shows "put_slice at (put_slice 0 payload (sub_slice at n bytes)) bytes = put_slice at payload bytes"
proof -
  have "drop (length payload) (take n (drop at bytes)) @ drop n (drop at bytes) = drop (length payload) (drop at bytes)"
    using assms by (metis append_take_drop_id drop_append drop_drop le_add_diff_inverse2 length_drop length_take min_def
        add_le_imp_le_diff diff_is_0_eq drop_0 le_trans add.commute add_diff_cancel_left')
  then show ?thesis using assms by (simp add: put_slice_def sub_slice_def add.commute)
qed

lemma table_get_resource: "table_get v t c = Inr r \<Longrightarrow> resource (t ! capability_index c) = Some r"
  by (auto simp: table_get_eq split: option.splits if_splits)

lemma payload_written:
  assumes mem: "table_get WRITE buffers (bo_buffer opn) = Inr mem" "bo_offset opn + bo_len opn \<le> length mem" "length mem < u64_limit"
    and fits: "length payload \<le> bo_len opn"
  obtains buffers' where "resolve_write (\<lambda>target. ((), put_slice 0 payload target)) buffers opn = (Inr (), buffers')"
    "\<And>v c bytes. capability_index c = capability_index (bo_buffer opn) \<Longrightarrow> table_get v buffers c = Inr bytes \<Longrightarrow>
       table_get v buffers' c = Inr (put_slice (bo_offset opn) payload bytes)"
    "\<And>v c. capability_index c \<noteq> capability_index (bo_buffer opn) \<Longrightarrow> table_get v buffers' c = table_get v buffers c"
proof -
  let ?f = "\<lambda>target :: byte list. ((), put_slice 0 payload target)"
  have range: "buffer_range mem (bo_offset opn) (bo_len opn) = Inr (sub_slice (bo_offset opn) (bo_len opn) mem)"
    using mem by (simp add: buffer_range_Inr)
  obtain buffers' where wr: "resolve_write ?f buffers opn = (Inr (), buffers')"
    using mem range by (cases rule: resolve_write_cases [of buffers opn ?f]) auto
  obtain target' where other: "\<And>v c. capability_index c \<noteq> capability_index (bo_buffer opn) \<Longrightarrow> table_get v buffers' c = table_get v buffers c"
    and same: "\<And>v c. capability_index c = capability_index (bo_buffer opn) \<Longrightarrow>
       table_get v buffers' c = map_sum id (put_slice (bo_offset opn) target') (table_get v buffers c)"
    and target': "target' = put_slice 0 payload (sub_slice (bo_offset opn) (bo_len opn) mem)"
    using resolve_write_table [OF wr] mem(1) range by (metis Inr_inject Pair_inject)
  have get: "table_get v buffers' c = Inr (put_slice (bo_offset opn) payload bytes)"
    if "capability_index c = capability_index (bo_buffer opn)" "table_get v buffers c = Inr bytes" for v c bytes
    using same [OF that(1), of v] that table_get_resource [OF that(2)] table_get_resource [OF mem(1)]
      put_slice_within [OF fits mem(2)] by (simp add: target')
  show thesis using that [OF wr get other] by simp
qed

lemma deliver_ready:
  assumes "ready b ring buffers protocol i w (length payload)"
  obtains ring' buffers' where
    "ip_deliver b ring buffers from protocol payload =
       (Inr True, b\<lparr>ip_receives := (ip_receives b)[i := None]\<rparr>, ring', buffers')"
    "spsc_contents (io_completions ring') =
       spsc_contents (io_completions ring) @ [\<lparr>comp_id = rx_id w, comp_result = Inr (IpReceived from (length payload))\<rparr>]"
    "\<And>v c bytes. capability_index c = capability_index (bo_buffer (rx_payload w)) \<Longrightarrow> table_get v buffers c = Inr bytes \<Longrightarrow>
       table_get v buffers' c = Inr (put_slice (bo_offset (rx_payload w)) payload bytes)"
    "\<And>v c. capability_index c \<noteq> capability_index (bo_buffer (rx_payload w)) \<Longrightarrow> table_get v buffers' c = table_get v buffers c"
proof -
  obtain mem where mem: "table_get WRITE buffers (bo_buffer (rx_payload w)) = Inr mem"
    "bo_offset (rx_payload w) + bo_len (rx_payload w) \<le> length mem" "length mem < u64_limit" "length payload \<le> bo_len (rx_payload w)"
    using assms by (auto simp: ready_def)
  obtain buffers' where wr: "resolve_write (\<lambda>target. ((), put_slice 0 payload target)) buffers (rx_payload w) = (Inr (), buffers')"
    and get: "\<And>v c bytes. capability_index c = capability_index (bo_buffer (rx_payload w)) \<Longrightarrow> table_get v buffers c = Inr bytes \<Longrightarrow>
       table_get v buffers' c = Inr (put_slice (bo_offset (rx_payload w)) payload bytes)"
    and other: "\<And>v c. capability_index c \<noteq> capability_index (bo_buffer (rx_payload w)) \<Longrightarrow> table_get v buffers' c = table_get v buffers c"
    using payload_written [OF mem] by blast
  obtain ring' where c: "driver_try_complete ring \<lparr>comp_id = rx_id w, comp_result = Inr (IpReceived from (length payload))\<rparr> = (Inr (), ring')"
    "spsc_contents (io_completions ring') =
       spsc_contents (io_completions ring) @ [\<lparr>comp_id = rx_id w, comp_result = Inr (IpReceived from (length payload))\<rparr>]"
    using completed_room [of ring] assms by (auto simp: ready_def)
  show thesis
    using that [OF _ c(2) get other] assms c(1) wr mem(4) by (simp add: ip_deliver_def ready_def ip_publish_def)
qed

lemma payload_reaches_peer:
  assumes "config_fits (ip_config a)" and "table_get READ_WRITE (ip_protocols a) endpoint = Inr protocol"
    and "resolve_read buffers operation = Inr payload" and "next_hop (ip_config a) to = Inr hop"
    and "ip_resolve a hop = Some (cf_mac (ip_config b))" and "addr_fits to" and "config_fits (ip_config b)"
    and "peers (ip_config a) b to protocol payload" and "ready b ring mem protocol i w (length payload)"
    and "table_get READ mem c = Inr bytes" and "capability_index c = capability_index (bo_buffer (rx_payload w))"
  shows "\<exists>frame ring' mem'.
    (\<forall>tx. try_send tx a buffers (IpSend endpoint to operation) =
       (case tx (ip_link a) frame of (r, link) \<Rightarrow> (link_state (Some (length payload)) r, a\<lparr>ip_link := link\<rparr>)))
    \<and> (\<forall>tx. ip_ingest tx b ring mem frame = (Inr True, b\<lparr>ip_receives := (ip_receives b)[i := None]\<rparr>, ring', mem'))
    \<and> spsc_contents (io_completions ring') = spsc_contents (io_completions ring)
        @ [\<lparr>comp_id = rx_id w, comp_result = Inr (IpReceived (cf_addr (ip_config a)) (length payload))\<rparr>]
    \<and> resolve_read mem' \<lparr>bo_buffer = c, bo_offset = bo_offset (rx_payload w), bo_len = length payload\<rparr> = Inr payload
    \<and> (\<forall>v d. capability_index d \<noteq> capability_index (bo_buffer (rx_payload w)) \<longrightarrow> table_get v mem' d = table_get v mem d)"
proof -
  obtain et packet where sent: "send_packet (ip_config a) to protocol payload = Inr (et, packet)" "length packet \<le> 1500"
    and received: "\<And>tx ring buffers hardware. case et of
       EtherIpv4 \<Rightarrow> ingest_ipv4 b ring buffers packet = ip_deliver b ring buffers (cf_addr (ip_config a)) protocol payload
     | EtherIpv6 \<Rightarrow> ingest_ipv6 tx b ring buffers hardware packet = ip_deliver b ring buffers (cf_addr (ip_config a)) protocol payload
     | EtherArp \<Rightarrow> False"
    using packet_sent [OF assms(1,6,8)] by blast
  obtain frame where out: "\<And>tx. ip_transmit tx a (cf_mac (ip_config b)) et packet =
      (case tx (ip_link a) frame of (r, link) \<Rightarrow> (r, a\<lparr>ip_link := link\<rparr>))"
    and parsed: "frame_parse frame = Inr \<lparr>fr_dst = cf_mac (ip_config b), fr_src = cf_mac (ip_config a), fr_ether_type = et, fr_payload = packet\<rparr>"
    using frame_sent [of "cf_mac (ip_config b)" a packet et] assms(1,7) sent(2) by (auto simp: config_fits_def)
  obtain ring' mem' where got: "ip_deliver b ring mem (cf_addr (ip_config a)) protocol payload =
       (Inr True, b\<lparr>ip_receives := (ip_receives b)[i := None]\<rparr>, ring', mem')"
    "spsc_contents (io_completions ring') = spsc_contents (io_completions ring)
        @ [\<lparr>comp_id = rx_id w, comp_result = Inr (IpReceived (cf_addr (ip_config a)) (length payload))\<rparr>]"
    "table_get READ mem' c = Inr (put_slice (bo_offset (rx_payload w)) payload bytes)"
    "\<And>v d. capability_index d \<noteq> capability_index (bo_buffer (rx_payload w)) \<Longrightarrow> table_get v mem' d = table_get v mem d"
    using deliver_ready [OF assms(9), of "cf_addr (ip_config a)"] assms(10,11) by metis
  have "try_send tx a buffers (IpSend endpoint to operation) =
       (case tx (ip_link a) frame of (r, link) \<Rightarrow> (link_state (Some (length payload)) r, a\<lparr>ip_link := link\<rparr>))" for tx
    using assms(2-5) sent(1) out [of tx] by (simp add: try_send_def split: prod.splits)
  moreover have "ip_ingest tx b ring mem frame = (Inr True, b\<lparr>ip_receives := (ip_receives b)[i := None]\<rparr>, ring', mem')" for tx
    using assms(9) parsed received [where tx = tx] got(1) by (auto simp: ip_ingest_def ready_def split: ether_type.splits)
  moreover have "bo_offset (rx_payload w) + length payload \<le> length bytes" "length bytes < u64_limit"
    using assms(9-11) table_get_resource [OF assms(10)] table_get_resource by (fastforce simp: ready_def)+
  then have "resolve_read mem' \<lparr>bo_buffer = c, bo_offset = bo_offset (rx_payload w), bo_len = length payload\<rparr> = Inr payload"
    using got(3) by (simp add: resolve_read_def buffer_range_Inr put_slice_length slice_put_slice)
  ultimately show ?thesis using got(2,4) by blast
qed

theorem datagram_reaches_peer:
  assumes "config_fits (ip_config a)" and "table_get READ_WRITE (ip_protocols a) endpoint = Inr protocol"
    and "resolve_read buffers operation = Inr payload" and "next_hop (ip_config a) to = Inr hop"
    and "ip_resolve a hop = Some (cf_mac (ip_config b))" and "addr_fits to" and "config_fits (ip_config b)"
    and "peers (ip_config a) b to protocol payload" and "ready b ring mem protocol i w (length payload)"
    and "table_get READ mem c = Inr bytes" and "capability_index c = capability_index (bo_buffer (rx_payload w))"
  shows "\<exists>frame ring' mem'.
    (\<forall>tx. try_send tx a buffers (IpSend endpoint to operation) =
       (case tx (ip_link a) frame of (r, link) \<Rightarrow> (link_state (Some (length payload)) r, a\<lparr>ip_link := link\<rparr>)))
    \<and> (\<forall>tx. ip_ingest tx b ring mem frame = (Inr True, b\<lparr>ip_receives := (ip_receives b)[i := None]\<rparr>, ring', mem'))
    \<and> spsc_contents (io_completions ring') = spsc_contents (io_completions ring)
        @ [\<lparr>comp_id = rx_id w, comp_result = Inr (IpReceived (cf_addr (ip_config a)) (length payload))\<rparr>]
    \<and> resolve_read mem' \<lparr>bo_buffer = c, bo_offset = bo_offset (rx_payload w), bo_len = length payload\<rparr> = Inr payload"
  using payload_reaches_peer [OF assms] by blast

text \<open>Two hosts on one link: the first has bound protocol 17 and knows the second, which waits for it.\<close>

definition sample_host :: "byte \<Rightarrow> unit ip" where
  "sample_host x = ip_new 1 () \<lparr>cf_mac = [2, 0, 0, 0, 0, x], cf_addr = V4 [10, 0, 0, x], cf_prefix = 24, cf_gateway = V4 [10, 0, 0, 254]\<rparr>"

definition sample_cap :: capability where
  "sample_cap = capability_new 0 1"

definition sample_range :: "nat \<Rightarrow> nat \<Rightarrow> buffer_operation" where
  "sample_range offset len = \<lparr>bo_buffer = sample_cap, bo_offset = offset, bo_len = len\<rparr>"

definition sample_buffers :: "byte list \<Rightarrow> buffer_registry" where
  "sample_buffers bytes = snd (register READ_WRITE (buffers_new 1) 7 bytes)"

definition sample_sender :: "unit ip" where
  "sample_sender = (snd (ip_bind (sample_host 1) 7 17))\<lparr>ip_neighbors := cache_learn [None] (V4 [10, 0, 0, 2]) [2, 0, 0, 0, 0, 2]\<rparr>"

definition sample_receiver :: "unit ip" where
  "sample_receiver = snd (ip_wait (snd (ip_bind (sample_host 2) 7 17)) 5 sample_cap (sample_range 4 8))"

lemma sample_sender_facts:
  "config_fits (ip_config sample_sender)" "table_get READ_WRITE (ip_protocols sample_sender) sample_cap = Inr 17"
  "next_hop (ip_config sample_sender) (V4 [10, 0, 0, 2]) = Inr (V4 [10, 0, 0, 2])"
  "ip_resolve sample_sender (V4 [10, 0, 0, 2]) = Some (cf_mac (ip_config sample_receiver))"
  "cf_addr (ip_config sample_sender) = V4 [10, 0, 0, 1]"
  by code_simp+

lemma sample_receiver_facts:
  "config_fits (ip_config sample_receiver)" "cf_addr (ip_config sample_receiver) = V4 [10, 0, 0, 2]"
  "find_index (some_and (waits_for (ip_protocols sample_receiver) 17)) (ip_receives sample_receiver) = Some 0"
  "ip_receives sample_receiver = [Some \<lparr>rx_id = 5, rx_endpoint = sample_cap, rx_payload = sample_range 4 8\<rparr>]"
  "ip_completion sample_receiver = None"
  by code_simp+

lemma sample_buffers_get: "rights_contains READ_WRITE v \<Longrightarrow> table_get v (sample_buffers bytes) sample_cap = Inr bytes"
  by (simp add: sample_buffers_def register_def buffers_new_def table_insert_def table_new_def slot_empty_def table_get_eq
      sample_cap_def capability_index_def capability_new_def capability_generation_def)

lemma sample_rights [simp]: "rights_contains READ_WRITE READ" "rights_contains READ_WRITE WRITE"
  by code_simp+

lemma sample_ring: "ring_ok (io_new 4 :: ip_ring)"
  by (simp add: ring_ok_def io_new_def spsc_new_inv)

lemma sample_ready:
  "n \<le> 8 \<Longrightarrow> ready sample_receiver (io_new 4) (sample_buffers (replicate 16 0)) 17 0
     \<lparr>rx_id = 5, rx_endpoint = sample_cap, rx_payload = sample_range 4 8\<rparr> n"
  unfolding ready_def
proof (intro conjI)
  show "find_index (some_and (waits_for (ip_protocols sample_receiver) 17)) (ip_receives sample_receiver) = Some 0"
    by (rule sample_receiver_facts)
  show "spsc_count (io_completions (io_new 4)) < spsc_capacity (io_completions (io_new 4))"
    by (simp add: io_new_def spsc_count_def spsc_new_def spsc_capacity_def)
  show "\<exists>bytes. table_get WRITE (sample_buffers (replicate 16 0)) (bo_buffer (rx_payload \<lparr>rx_id = 5, rx_endpoint = sample_cap, rx_payload = sample_range 4 8\<rparr>)) = Inr bytes
      \<and> bo_offset (rx_payload \<lparr>rx_id = 5, rx_endpoint = sample_cap, rx_payload = sample_range 4 8\<rparr>)
        + bo_len (rx_payload \<lparr>rx_id = 5, rx_endpoint = sample_cap, rx_payload = sample_range 4 8\<rparr>) \<le> length bytes \<and> length bytes < u64_limit"
    by (simp add: sample_range_def sample_buffers_get)
qed (simp_all add: sample_receiver_facts(4,5) sample_ring sample_range_def)

theorem datagram_reaches_peer_witness:
  "\<exists>frame ring' mem'. (\<forall>tx. ip_ingest tx sample_receiver (io_new 4) (sample_buffers (replicate 16 0)) frame =
       (Inr True, sample_receiver\<lparr>ip_receives := [None]\<rparr>, ring', mem'))
    \<and> spsc_contents (io_completions ring') = [\<lparr>comp_id = 5, comp_result = Inr (IpReceived (V4 [10, 0, 0, 1]) 3)\<rparr>]
    \<and> resolve_read mem' (sample_range 4 3) = Inr [1, 2, 3]"
proof -
  have payload: "resolve_read (sample_buffers [1, 2, 3]) (sample_range 0 3) = Inr [1, 2, 3]"
    by (simp add: resolve_read_def sample_buffers_get sample_range_def buffer_range_Inr sub_slice_def)
  have peers: "peers (ip_config sample_sender) sample_receiver (V4 [10, 0, 0, 2]) 17 [1, 2, 3]"
    by (simp add: sample_sender_facts sample_receiver_facts)
  show ?thesis
    using datagram_reaches_peer [OF sample_sender_facts(1,2) payload sample_sender_facts(3,4) _ sample_receiver_facts(1) peers
        sample_ready sample_buffers_get [of READ]]
    by (auto simp: sample_receiver_facts sample_sender_facts sample_range_def io_new_def numeral_3_eq_3)
qed

section \<open>The prefix\<close>

definition addr_bit :: "byte list \<Rightarrow> nat \<Rightarrow> bool" where
  "addr_bit a i = bit (a ! (i div 8)) (7 - i mod 8)"

lemma byte_mask_eq:
  fixes x y :: byte
  assumes "k \<le> 8"
  shows "x AND push_bit (8 - k) 0xff = y AND push_bit (8 - k) 0xff \<longleftrightarrow> (\<forall>j < k. bit x (7 - j) = bit y (7 - j))"
proof -
  have ff: "(0xff :: byte) = mask 8" by (simp add: mask_eq_exp_minus_1)
  have "x AND push_bit (8 - k) 0xff = y AND push_bit (8 - k) 0xff \<longleftrightarrow> (\<forall>n. n < 8 \<longrightarrow> 8 - k \<le> n \<longrightarrow> bit x n = bit y n)"
    unfolding ff by (auto simp: bit_eq_iff bit_and_iff bit_push_bit_iff bit_mask_iff)
  also have "\<dots> \<longleftrightarrow> (\<forall>j < k. bit x (7 - j) = bit y (7 - j))"
  proof (rule iffI; intro allI impI)
    fix n
    assume a: "\<forall>j < k. bit x (7 - j) = bit y (7 - j)" and n: "n < 8" "8 - k \<le> n"
    then have "7 - n < k" "7 - (7 - n) = n" by auto
    then show "bit x n = bit y n" using a by metis
  next
    fix j
    assume a: "\<forall>n. n < 8 \<longrightarrow> 8 - k \<le> n \<longrightarrow> bit x n = bit y n" and "j < k"
    then have "7 - j < 8" "8 - k \<le> 7 - j" by auto
    then show "bit x (7 - j) = bit y (7 - j)" using a by blast
  qed
  finally show ?thesis .
qed

lemma byte_bits: "x = y \<longleftrightarrow> (\<forall>j < 8. bit x (7 - j) = bit (y :: byte) (7 - j))"
proof -
  have ones: "(0xff :: byte) = -1" by simp
  have "z AND 0xff = z" for z :: byte unfolding ones by simp
  then show ?thesis using byte_mask_eq [of 8 x y] by simp
qed

lemma all_less_add: "(\<forall>i < m + n. P i) \<longleftrightarrow> (\<forall>i < m. P i) \<and> (\<forall>j < n. P (m + j :: nat))"
  by (metis add_diff_inverse_nat nat_add_left_cancel_less trans_less_add1)

theorem same_prefix_bits:
  assumes "length left = length right" and "prefix \<le> 8 * length left"
  shows "same_prefix left right prefix \<longleftrightarrow> (\<forall>i < prefix. addr_bit left i = addr_bit right i)"
proof -
  define whole bits where "whole = prefix div 8" and "bits = prefix mod 8"
  have p: "prefix = 8 * whole + bits" "bits < 8" "whole \<le> length left" using assms(2) by (auto simp: whole_def bits_def)
  have "take whole left = take whole right \<longleftrightarrow> (\<forall>k < whole. left ! k = right ! k)"
    using p(3) assms(1) by (auto simp: list_eq_iff_nth_eq)
  also have "\<dots> \<longleftrightarrow> (\<forall>i < 8 * whole. addr_bit left i = addr_bit right i)"
  proof (rule iffI; intro allI impI)
    fix i
    assume "\<forall>k < whole. left ! k = right ! k" and "i < 8 * whole"
    then show "addr_bit left i = addr_bit right i" by (simp add: addr_bit_def)
  next
    fix k
    assume a: "\<forall>i < 8 * whole. addr_bit left i = addr_bit right i" and "k < whole"
    then have "bit (left ! k) (7 - j) = bit (right ! k) (7 - j)" if "j < 8" for j
      using a [rule_format, of "8 * k + j"] that by (simp add: addr_bit_def)
    then show "left ! k = right ! k" by (simp add: byte_bits [of "left ! k"])
  qed
  finally have whole: "take whole left = take whole right \<longleftrightarrow> (\<forall>i < 8 * whole. addr_bit left i = addr_bit right i)" .
  have rest: "left ! whole AND push_bit (8 - bits) 0xff = right ! whole AND push_bit (8 - bits) 0xff
      \<longleftrightarrow> (\<forall>j < bits. addr_bit left (8 * whole + j) = addr_bit right (8 * whole + j))"
    using byte_mask_eq [of bits "left ! whole" "right ! whole"] p(2) by (auto simp: addr_bit_def)
  have "(\<forall>i < prefix. addr_bit left i = addr_bit right i) \<longleftrightarrow>
      (\<forall>i < 8 * whole. addr_bit left i = addr_bit right i) \<and> (\<forall>j < bits. addr_bit left (8 * whole + j) = addr_bit right (8 * whole + j))"
    unfolding p(1) by (rule all_less_add)
  then show ?thesis using whole rest by (auto simp: same_prefix_def Let_def simp flip: whole_def bits_def)
qed

theorem next_hop_choice:
  assumes "config_fits config" and "addr_fits dst" and "next_hop config dst = Inr hop"
  shows "hop = dst \<or> hop = cf_gateway config"
    and "(\<exists>s d. cf_addr config = V4 s \<and> dst = V4 d \<and> (\<forall>i < min (cf_prefix config) 32. addr_bit s i = addr_bit d i)) \<Longrightarrow> hop = dst"
  using assms by (auto simp: next_hop_def same_prefix_bits config_fits_def split: ip_addr.splits if_splits)

section \<open>The cache\<close>

definition cache_ok :: "neighbor_cache \<Rightarrow> bool" where
  "cache_ok entries \<longleftrightarrow> (\<forall>j < length entries. \<forall>k < length entries. \<forall>n m.
     entries ! j = Some n \<and> entries ! k = Some m \<and> nb_address n = nb_address m \<longrightarrow> j = k)"

lemma cache_ok_unique:
  "cache_ok entries \<Longrightarrow> Some n \<in> set entries \<Longrightarrow> Some m \<in> set entries \<Longrightarrow> nb_address n = nb_address m \<Longrightarrow> n = m"
  unfolding cache_ok_def in_set_conv_nth by (metis option.inject)

lemma cache_resolve_iff:
  assumes "cache_ok entries"
  shows "cache_resolve entries a = Some h \<longleftrightarrow> (\<exists>j < length entries. entries ! j = Some \<lparr>nb_address = a, nb_hardware = h\<rparr>)"
proof -
  have "cache_resolve entries a = Some h \<longleftrightarrow> (\<exists>n. Some n \<in> set entries \<and> nb_address n = a \<and> nb_hardware n = h)"
  proof (cases "List.find (\<lambda>n. nb_address n = a) (flatten entries)")
    case None
    then have "cache_resolve entries a = None" "\<forall>n. Some n \<in> set entries \<longrightarrow> nb_address n \<noteq> a"
      by (simp_all add: cache_resolve_def) (auto simp: find_None_iff set_flatten)
    then show ?thesis by auto
  next
    case (Some n)
    then obtain k where "k < length (flatten entries)" "nb_address n = a" "flatten entries ! k = n"
      by (auto simp: find_Some_iff)
    from this have n: "Some n \<in> set entries" "nb_address n = a" using nth_mem [of k "flatten entries"] by (auto simp: set_flatten)
    moreover have "cache_resolve entries a = Some (nb_hardware n)" using Some by (simp add: cache_resolve_def)
    ultimately show ?thesis using cache_ok_unique [OF assms n(1)] by (metis option.inject)
  qed
  also have "\<dots> \<longleftrightarrow> (\<exists>j < length entries. entries ! j = Some \<lparr>nb_address = a, nb_hardware = h\<rparr>)"
    by (auto simp: in_set_conv_nth intro: neighbor.equality)
  finally show ?thesis .
qed

lemma cache_resolve_None:
  "cache_resolve entries a = None \<longleftrightarrow> (\<forall>n. Some n \<in> set entries \<longrightarrow> nb_address n \<noteq> a)"
  by (auto simp: cache_resolve_def find_None_iff set_flatten)

text \<open>Where \<open>learn\<close> writes: the address's entry, the first free slot, or the first slot of a full cache.\<close>

lemma cache_learn_slot:
  assumes "entries \<noteq> []"
  obtains i where "i < length entries" "cache_learn entries a h = entries[i := Some \<lparr>nb_address = a, nb_hardware = h\<rparr>]"
    "(\<exists>n. entries ! i = Some n \<and> nb_address n = a) \<or> cache_resolve entries a = None \<and> entries ! i = None
     \<or> cache_resolve entries a = None \<and> i = 0 \<and> None \<notin> set entries"
proof (cases "find_index (some_and (\<lambda>n. nb_address n = a)) entries")
  case (Some i)
  then obtain n where n: "i < length entries" "entries ! i = Some n" "nb_address n = a"
    using find_index_SomeD [OF Some] by (auto simp: some_and_iff)
  then obtain m where "n = \<lparr>nb_address = a, nb_hardware = m\<rparr>" by (cases n) auto
  then have "cache_learn entries a h = entries[i := Some \<lparr>nb_address = a, nb_hardware = h\<rparr>]"
    using Some n by (simp add: cache_learn_def)
  then show thesis using that [of i] n by simp
next
  case absent: None
  then have unknown: "cache_resolve entries a = None"
    by (auto simp: cache_resolve_None find_index_None_iff some_and_iff)
  show thesis
  proof (cases "find_index (\<lambda>slot. slot = None) entries")
    case (Some i)
    then show thesis using that [of i] absent unknown find_index_SomeD [OF Some] by (simp add: cache_learn_def)
  next
    assume full: "find_index (\<lambda>slot. slot = None) entries = None"
    then have "None \<notin> set entries" by (auto simp: find_index_None_iff)
    moreover have "cache_learn entries a h = entries[0 := Some \<lparr>nb_address = a, nb_hardware = h\<rparr>]"
      using absent full assms by (simp add: cache_learn_def)
    ultimately show thesis using that [of 0] unknown assms by simp
  qed
qed

theorem cache_learn_resolve:
  assumes "cache_ok entries" and "entries \<noteq> []"
  shows "cache_ok (cache_learn entries a h) \<and> cache_resolve (cache_learn entries a h) a = Some h
    \<and> (\<forall>b. b \<noteq> a \<longrightarrow> cache_resolve (cache_learn entries a h) b = cache_resolve entries b
         \<or> None \<notin> set entries \<and> cache_resolve entries a = None
           \<and> map_option nb_address (entries ! 0) = Some b \<and> cache_resolve (cache_learn entries a h) b = None)"
proof -
  obtain i where i: "i < length entries" and new: "cache_learn entries a h = entries[i := Some \<lparr>nb_address = a, nb_hardware = h\<rparr>]"
    and why: "(\<exists>n. entries ! i = Some n \<and> nb_address n = a) \<or> cache_resolve entries a = None \<and> entries ! i = None
     \<or> cache_resolve entries a = None \<and> i = 0 \<and> None \<notin> set entries"
    using cache_learn_slot [OF assms(2)] .
  have alone: "j = i" if "j < length entries" "entries ! j = Some n" "nb_address n = a" for j n
  proof (rule ccontr)
    assume "j \<noteq> i"
    then have "cache_resolve entries a \<noteq> None" using that nth_mem [of j entries] by (auto simp: cache_resolve_None)
    then obtain m where "entries ! i = Some m" "nb_address m = a" using why by auto
    then show False using assms(1) i that \<open>j \<noteq> i\<close> by (auto simp: cache_ok_def)
  qed
  have ok: "cache_ok (cache_learn entries a h)"
    unfolding new cache_ok_def using assms(1) i alone
    by (auto simp: nth_list_update cache_ok_def split: if_splits)
  have self: "cache_resolve (cache_learn entries a h) a = Some h"
    using i by (subst cache_resolve_iff [OF ok]) (auto simp: new intro: exI [of _ i])
  have other: "cache_resolve (cache_learn entries a h) b = cache_resolve entries b
      \<or> None \<notin> set entries \<and> cache_resolve entries a = None
           \<and> map_option nb_address (entries ! 0) = Some b \<and> cache_resolve (cache_learn entries a h) b = None" if "b \<noteq> a" for b
  proof (cases "\<exists>n. entries ! i = Some n \<and> nb_address n = b")
    case False
    have "cache_resolve (cache_learn entries a h) b = Some x \<longleftrightarrow> cache_resolve entries b = Some x" for x
      using False i that unfolding cache_resolve_iff [OF ok] cache_resolve_iff [OF assms(1)]
      by (auto simp: new nth_list_update split: if_splits)
    then show ?thesis by (metis not_None_eq)
  next
    case True
    then have "cache_resolve entries a = None" "i = 0" "None \<notin> set entries" using why that by auto
    moreover have "cache_resolve (cache_learn entries a h) b = None"
      using True that assms(1) i by (auto simp: cache_resolve_None new cache_ok_def in_set_conv_nth nth_list_update split: if_splits)
    ultimately show ?thesis using True by auto
  qed
  show ?thesis using ok self other by blast
qed

theorem cache_learn_resolve_witness:
  "cache_resolve (cache_learn [Some \<lparr>nb_address = V4 [10, 0, 0, 1], nb_hardware = [1]\<rparr>] (V4 [10, 0, 0, 2]) [2]) (V4 [10, 0, 0, 2]) = Some [2]"
  using cache_learn_resolve [of "[Some \<lparr>nb_address = V4 [10, 0, 0, 1], nb_hardware = [1]\<rparr>]" "V4 [10, 0, 0, 2]" "[2]"]
  by (simp add: cache_ok_def)

section \<open>A receive without its buffer\<close>

text \<open>
  C39. When the buffer of a waiting receive no longer resolves, delivery removes the request and
  completes nothing: the request is lost.
\<close>

theorem receive_lost_without_buffer:
  assumes "find_index (some_and (waits_for (ip_protocols ip) protocol)) (ip_receives ip) = Some i"
    and "ip_receives ip ! i = Some w" and "length payload \<le> bo_len (rx_payload w)"
    and "table_get WRITE buffers (bo_buffer (rx_payload w)) = Inl e"
  shows "\<exists>ip'. ip_deliver ip ring buffers from protocol payload = (Inl (IpBuffer (BufferCapability e)), ip', ring, buffers)
    \<and> requests ip ring = add_mset (rx_id w) (requests ip' ring)"
proof -
  have "resolve_write (\<lambda>target. ((), put_slice 0 payload target)) buffers (rx_payload w) = (Inl (BufferCapability e), buffers)"
    using assms(4) by (cases rule: resolve_write_cases [of buffers "rx_payload w" "\<lambda>target. ((), put_slice 0 payload target)"]) auto
  moreover have "requests ip ring = add_mset (rx_id w) (requests (ip\<lparr>ip_receives := (ip_receives ip)[i := None]\<rparr>) ring)"
    using parked_take [of i ip w] find_index_SomeD [OF assms(1)] assms(2) by (simp add: requests_def)
  ultimately show ?thesis using assms(1-3) by (simp add: ip_deliver_def)
qed

theorem receive_lost_without_buffer_witness:
  "\<exists>ip'. ip_deliver sample_receiver (io_new 4) (buffers_new 1) (V4 [10, 0, 0, 1]) 17 [1, 2, 3]
      = (Inl (IpBuffer (BufferCapability Stale)), ip', io_new 4, buffers_new 1)
    \<and> requests sample_receiver (io_new 4) = add_mset 5 (requests ip' (io_new 4))"
proof -
  have "table_get WRITE (buffers_new 1) sample_cap = Inl Stale" by code_simp
  then show ?thesis
    using receive_lost_without_buffer [OF sample_receiver_facts(3), of "\<lparr>rx_id = 5, rx_endpoint = sample_cap, rx_payload = sample_range 4 8\<rparr>"
        "[1, 2, 3]" "buffers_new 1" Stale "io_new 4" "V4 [10, 0, 0, 1]"]
    by (simp add: sample_receiver_facts(4) sample_range_def)
qed

theorem same_prefix_bits_witness: "same_prefix [10, 0, 0, 1] [10, 0, 15, 9] 20"
proof -
  have "\<forall>i < 20. addr_bit [10, 0, 0, 1] i = addr_bit [10, 0, 15, 9] i" by code_simp
  then show ?thesis using same_prefix_bits [of "[10, 0, 0, 1]" "[10, 0, 15, 9]" 20] by simp
qed

end
