(* ===== verification/Net_Endpoints.thy ===== *)
theory Net_Endpoints
  imports Net_Delivery
begin

text \<open>
  The endpoint table of the IP service. \<open>endpoints_ok\<close> says that the list of bound protocols and the
  capability table tell the same story and that every parked receive belongs to a live endpoint of its
  own. Every step of a session keeps it, whatever frames arrive and whatever happens to the buffers and
  to the device, so a protocol never has two endpoints and a payload never has two receivers.
\<close>

section \<open>What the steps leave alone\<close>

definition ip_fixed :: "'l ip \<Rightarrow> 'l ip \<Rightarrow> bool" where
  "ip_fixed ip ip' \<longleftrightarrow> ip_config ip' = ip_config ip \<and> ip_protocols ip' = ip_protocols ip \<and> ip_bound ip' = ip_bound ip
     \<and> ip_neighbors ip' = ip_neighbors ip \<and> ip_receives ip' = ip_receives ip"

lemma ip_fixed_refl [simp]: "ip_fixed ip ip"
  by (simp add: ip_fixed_def)

lemma ip_fixed_trans: "ip_fixed a b \<Longrightarrow> ip_fixed b c \<Longrightarrow> ip_fixed a c"
  by (simp add: ip_fixed_def)

lemma only_link_fixed: "only_link ip ip' \<Longrightarrow> ip_fixed ip ip'"
  using only_link_fields by (fastforce simp: ip_fixed_def ip_same_def)

lemma publish_fixed: "ip_publish ip ring c = (n, ip', ring') \<Longrightarrow> ip_fixed ip ip'"
  by (cases "driver_try_complete ring c"; cases "fst (driver_try_complete ring c)") (auto simp: ip_publish_def ip_fixed_def)

lemma flush_fixed: "ip_flush ip ring = (n, ip', ring') \<Longrightarrow> ip_fixed ip ip'"
  by (auto simp: ip_flush_def ip_fixed_def Let_def split: prod.splits sum.splits option.splits)

lemma retry_fixed:
  assumes "ip_retry tx ip ring buffers = (n, ip', ring')"
  shows "ip_fixed ip ip'"
proof (cases "ip_send ip")
  case None
  then show ?thesis using assms by (simp add: ip_retry_def)
next
  case (Some p)
  obtain r ip1 where t: "try_send tx ip buffers (sub_op (ps_submission p)) = (r, ip1)" by fastforce
  have "ip_fixed ip ip1" by (rule only_link_fixed [OF try_send_only [OF t]])
  then show ?thesis using assms Some t
    by (auto simp: ip_retry_def Let_def ip_fixed_def split: if_splits sum.splits send_state.splits dest!: publish_fixed)
qed

lemma resume_fixed:
  assumes "ip_resume tx ip ring buffers = (ip', ring')"
  shows "ip_fixed ip ip'"
proof (cases "ip' = ip")
  case False
  then obtain p n where "ip_retry tx (ip\<lparr>ip_send := Some (p\<lparr>ps_waiting := False\<rparr>)\<rparr>) ring buffers = (n, ip', ring')"
    using assms by (auto simp: ip_resume_def snd_eq_iff split: option.splits ip_op.splits sum.splits if_splits)
  then show ?thesis by (auto dest!: retry_fixed simp: ip_fixed_def)
qed simp

section \<open>Who teaches the cache\<close>

text \<open>The sender of an ARP packet, or of a neighbour discovery message that crossed no router.\<close>

fun teaches :: "'l ip \<Rightarrow> frame \<Rightarrow> bool" where
  "teaches ip f \<longleftrightarrow> (fr_dst f = cf_mac (ip_config ip) \<or> mac_is_multicast (fr_dst f)) \<and>
     (case fr_ether_type f of
        EtherArp \<Rightarrow> (\<exists>p. arp_parse (fr_payload f) = Inr p)
      | EtherIpv4 \<Rightarrow> False
      | EtherIpv6 \<Rightarrow> (\<exists>p m. ipv6_parse (fr_payload f) = Inr p \<and> ip6_next_header p = ICMP_PROTOCOL
          \<and> icmp_parse (ip6_src p) (ip6_dst p) (ip6_payload p) = Inr m \<and> discovery m \<and> ip6_hop_limit p = ICMP_HOPS))"

lemma deliver_neighbors:
  "ip_deliver ip ring buffers from protocol payload = (r, ip', ring', buffers') \<Longrightarrow> ip_neighbors ip' = ip_neighbors ip"
  by (auto simp: ip_deliver_def Let_def ip_fixed_def split: option.splits if_splits prod.splits sum.splits dest!: publish_fixed)

lemma icmpv6_neighbors:
  assumes "ingest_icmpv6 tx ip ring buffers hardware packet = (r, ip', ring')" and "ip_neighbors ip' \<noteq> ip_neighbors ip"
  shows "\<exists>m. icmp_parse (ip6_src packet) (ip6_dst packet) (ip6_payload packet) = Inr m \<and> discovery m \<and> ip6_hop_limit packet = ICMP_HOPS"
proof (cases "icmp_parse (ip6_src packet) (ip6_dst packet) (ip6_payload packet)")
  case (Inl e)
  then show ?thesis using assms by (simp add: ingest_icmpv6_def)
next
  case (Inr m)
  then show ?thesis using assms only_link_fields
    by (cases m) (auto simp: ingest_icmpv6_def Let_def split: if_splits sum.splits prod.splits dest!: icmpv6_only)
qed

text \<open>
  C25. The neighbour cache changes only on a frame addressed to the host or to a group that
  holds a well-formed ARP packet, or a neighbour discovery message with a valid checksum and the
  full hop limit, which no router can have forwarded.
\<close>

theorem neighbours_are_on_the_link:
  assumes "ip_ingest tx ip ring buffers bytes = (r, ip', ring', buffers')" and "ip_neighbors ip' \<noteq> ip_neighbors ip"
  shows "\<exists>f. frame_parse bytes = Inr f \<and> teaches ip f"
proof (cases "frame_parse bytes")
  case (Inl e)
  then show ?thesis using assms by (auto simp: ip_ingest_def split: if_splits)
next
  case (Inr f)
  have "teaches ip f" using assms Inr
    by (auto simp: ip_ingest_def ingest_arp_def ingest_ipv4_def ingest_ipv6_def
        split: if_splits ether_type.splits sum.splits prod.splits dest: deliver_neighbors dest!: icmpv6_neighbors)
  then show ?thesis using Inr by blast
qed

text \<open>A request from the first host, broadcast: who has the address of the second.\<close>

definition sample_query :: arp where
  "sample_query = \<lparr>arp_operation = ArpRequest, arp_tx_hardware = [2, 0, 0, 0, 0, 1], arp_tx_protocol = [10, 0, 0, 1],
     arp_rx_hardware = replicate 6 0, arp_rx_protocol = [10, 0, 0, 2]\<rparr>"

lemma arp_is_learnt:
  assumes "arp_parse bytes = Inr p"
  shows "ip_neighbors (fst (snd (ingest_arp tx ip ring buffers bytes))) =
    cache_learn (ip_neighbors ip) (V4 (arp_tx_protocol p)) (arp_tx_hardware p)"
proof -
  let ?ip = "ip\<lparr>ip_neighbors := cache_learn (ip_neighbors ip) (V4 (arp_tx_protocol p)) (arp_tx_hardware p)\<rparr>"
  obtain q ip1 where q: "(if arp_operation p = ArpRequest \<and> V4 (arp_rx_protocol p) = cf_addr (ip_config ?ip)
      then arp_reply tx ?ip (arp_tx_hardware p) (arp_tx_protocol p) else (Inr (), ?ip)) = (q, ip1)" by fastforce
  have "only_link ?ip ip1" using q by (auto split: if_splits dest: arp_only)
  then have n1: "ip_neighbors ip1 = ip_neighbors ?ip" using only_link_fields by blast
  obtain ip2 ring2 where res: "ip_resume tx ip1 ring buffers = (ip2, ring2)" by fastforce
  have "ip_neighbors ip2 = ip_neighbors ip1" using resume_fixed [OF res] by (simp add: ip_fixed_def)
  then show ?thesis using assms q n1 res by (simp add: ingest_arp_def Let_def split: sum.splits)
qed

theorem neighbours_are_on_the_link_witness:
  "\<exists>bytes f. arp_parse (fr_payload f) = Inr sample_query \<and> frame_parse bytes = Inr f \<and> teaches (sample_host 2) f"
proof -
  obtain out where out: "arp_parse out = Inr sample_query"
    using arp_roundtrip [of sample_query "replicate 28 0"] by (auto simp: arp_fits_def sample_query_def)
  let ?f = "\<lparr>fr_dst = mac_BROADCAST, fr_src = [2, 0, 0, 0, 0, 1], fr_ether_type = EtherArp, fr_payload = out\<rparr>"
  let ?ingest = "ip_ingest (\<lambda>l f. (Inr (), l)) (sample_host 2) (io_new 4) (buffers_new 1)"
  obtain bytes where f: "frame_parse bytes = Inr ?f"
    using frame_parse_image [of ?f out] by (auto simp: frame_fits_def mac_BROADCAST_def)
  have host: "ip_completion (sample_host 2) = None" "ip_neighbors (sample_host 2) = [None]" by (simp_all add: sample_host_def ip_new_def)
  have multicast: "mac_is_multicast mac_BROADCAST" by (simp add: mac_is_multicast_def mac_BROADCAST_def)
  have "[None] \<noteq> cache_learn [None] a h" for a h by (simp add: cache_learn_def some_and_def)
  then have "ip_neighbors (fst (snd (?ingest bytes))) \<noteq> ip_neighbors (sample_host 2)"
    using arp_is_learnt [OF out, of "\<lambda>l f. (Inr (), l)" "sample_host 2" "io_new 4" "buffers_new 1"] host
    by (auto simp: ip_ingest_def f multicast split: prod.splits)
  then have "\<exists>f. frame_parse bytes = Inr f \<and> teaches (sample_host 2) f"
    by (rule neighbours_are_on_the_link [of "\<lambda>l f. (Inr (), l)" "sample_host 2" "io_new 4" "buffers_new 1" bytes
        "fst (?ingest bytes)" "fst (snd (?ingest bytes))" "fst (snd (snd (?ingest bytes)))" "snd (snd (snd (?ingest bytes)))", rotated]) simp
  then have "teaches (sample_host 2) ?f" using f by auto
  then show ?thesis using f out by (intro exI [of _ bytes] exI [of _ ?f]) simp
qed

section \<open>One endpoint for a protocol\<close>

definition endpoints_ok :: "'l ip \<Rightarrow> bool" where
  "endpoints_ok ip \<longleftrightarrow>
     table_ok (ip_protocols ip) \<and> length (ip_bound ip) = length (ip_protocols ip)
     \<and> mset (flatten (ip_bound ip)) = mset (flatten (map resource (ip_protocols ip))) \<and> distinct (flatten (ip_bound ip))
     \<and> (\<forall>w \<in> set (flatten (ip_receives ip)). \<exists>p. table_get READ_WRITE (ip_protocols ip) (rx_endpoint w) = Inr p)
     \<and> distinct (map rx_endpoint (flatten (ip_receives ip)))"

lemma endpoints_ok_fixed: "ip_fixed ip ip' \<Longrightarrow> endpoints_ok ip' = endpoints_ok ip"
  by (simp add: ip_fixed_def endpoints_ok_def)

lemma endpoints_ok_neighbors [simp]: "endpoints_ok (ip\<lparr>ip_neighbors := c\<rparr>) = endpoints_ok ip"
  by (simp add: endpoints_ok_def)

lemma flatten_map: "flatten (map (map_option f) xs) = map f (flatten xs)"
  by (induction xs) (auto simp: flatten_def map_filter_def)

lemma flatten_count: "length (flatten xs) + length (filter (\<lambda>x. x = None) xs) = length xs"
  by (induction xs) (auto simp: flatten_def map_filter_def)

lemma flatten_full: "length (flatten xs) = length xs \<longleftrightarrow> None \<notin> set xs"
  using flatten_count [of xs] filter_empty_conv [of "\<lambda>x. x = None" xs] by fastforce

lemma flatten_nth: "i < length xs \<Longrightarrow> xs ! i = Some x \<Longrightarrow> x \<in> set (flatten xs)"
  using nth_mem [of i xs] by (simp add: set_flatten)

lemma flatten_distinct_index:
  assumes "distinct (flatten xs)" "i < length xs" "j < length xs" "xs ! i = Some x" "xs ! j = Some x"
  shows "i = j"
proof (rule ccontr)
  assume "i \<noteq> j"
  have "mset (flatten (xs[i := None])) + {#x#} = mset (flatten xs)"
    using flatten_mset [of i xs "\<lambda>y. y" None] assms by simp
  moreover have "x \<in> set (flatten (xs[i := None]))"
    using flatten_nth [of j "xs[i := None]" x] assms \<open>i \<noteq> j\<close> by simp
  ultimately have "2 \<le> count (mset (flatten xs)) x" by (metis One_nat_def Suc_leI add_mset_add_single count_add_mset
        count_greater_zero_iff numeral_2_eq_2 set_mset_mset Suc_le_mono)
  then show False using assms(1) by (simp add: distinct_count_atmost_1) (metis One_nat_def not_numeral_le_zero numeral_le_one_iff semiring_norm(69))
qed

lemma capability_eqI:
  assumes "capability_index c = capability_index d" "capability_generation c = capability_generation d"
  shows "c = d"
proof -
  have "(ucast c :: u32) = ucast d" by (subst word_unat_eq_iff) (rule assms(1) [unfolded capability_index_def])
  then show ?thesis using assms(2) capability_rebuild by metis
qed

lemma live_endpoint_unique:
  assumes "endpoints_ok ip" "table_get READ_WRITE (ip_protocols ip) c = Inr p" "table_get READ_WRITE (ip_protocols ip) d = Inr p"
  shows "c = d"
proof -
  let ?t = "ip_protocols ip"
  have live: "capability_index c < length ?t" "resource (?t ! capability_index c) = Some p" "capability_generation c = generation (?t ! capability_index c)"
    "capability_index d < length ?t" "resource (?t ! capability_index d) = Some p" "capability_generation d = generation (?t ! capability_index d)"
    using assms(2,3) by (auto simp: table_get_eq split: if_splits option.splits)
  have "distinct (flatten (map resource ?t))" using assms(1) mset_eq_imp_distinct_iff by (auto simp: endpoints_ok_def)
  then have "capability_index c = capability_index d"
    using flatten_distinct_index [of "map resource ?t" "capability_index c" "capability_index d" p] live by simp
  then show ?thesis using live by (intro capability_eqI) simp_all
qed

lemma resource_update: "map resource (t[i := s]) = (map resource t)[i := resource s]"
  by (simp add: map_update)

text \<open>The two lists agree on how many slots are taken, so a free capability slot comes with a free name.\<close>

lemma endpoints_free_slot:
  assumes "endpoints_ok ip" and "i < length (ip_protocols ip)" "resource (ip_protocols ip ! i) = None"
  obtains j where "find_index (\<lambda>slot. slot = None) (ip_bound ip) = Some j" "j < length (ip_bound ip)" "ip_bound ip ! j = None"
proof -
  let ?t = "ip_protocols ip"
  have t: "length (ip_bound ip) = length ?t" "mset (flatten (ip_bound ip)) = mset (flatten (map resource ?t))"
    using assms(1) by (auto simp: endpoints_ok_def)
  have "None \<in> set (map resource ?t)" using assms(2,3) by (metis length_map nth_map nth_mem)
  then have "length (flatten (ip_bound ip)) \<noteq> length (ip_bound ip)"
    using flatten_full [of "map resource ?t"] t(1) mset_eq_length [OF t(2)] by simp
  then obtain j where "find_index (\<lambda>slot. slot = None) (ip_bound ip) = Some j"
    using flatten_full [of "ip_bound ip"] find_index_None_iff [of "\<lambda>slot. slot = None" "ip_bound ip"]
    by (cases "find_index (\<lambda>slot. slot = None) (ip_bound ip)") auto
  then show thesis using that find_index_SomeD by blast
qed

lemma table_insert_keeps:
  assumes "table_ok t" "table_insert want t own x = (Inr c, t')" "table_get v t d = Inr p"
  shows "table_get v t' d = Inr p"
proof -
  note i = table_insert_InrD [OF assms(1,2)]
  have "capability_index d \<noteq> capability_index c" using assms(3) i(2) by (auto simp: table_get_eq split: if_splits)
  then show ?thesis unfolding i(4) using assms(3) by (simp add: table_get_update_other)
qed

lemma bind_endpoints:
  assumes ok: "endpoints_ok ip" and b: "ip_bind ip own protocol = (r, ip')"
  shows "endpoints_ok ip'"
proof (cases "Some protocol \<in> set (ip_bound ip)")
  case True
  then show ?thesis using b ok by (auto simp: ip_bind_def)
next
  case fresh: False
  let ?t = "ip_protocols ip"
  have t: "table_ok ?t" "distinct (flatten (ip_bound ip))" using ok by (auto simp: endpoints_ok_def)
  obtain q t' where ins: "table_insert READ_WRITE ?t own protocol = (q, t')" by fastforce
  show ?thesis
  proof (cases q)
    case (Inl x)
    then have "t' = ?t" using ins by (auto simp: table_insert_def Let_def split: option.splits)
    then show ?thesis using b ok ins Inl fresh by (simp add: ip_bind_def)
  next
    case (Inr c)
    note ins = ins [unfolded Inr]
    note i = table_insert_InrD [OF t(1) ins]
    obtain j where j: "find_index (\<lambda>slot. slot = None) (ip_bound ip) = Some j" "j < length (ip_bound ip)" "ip_bound ip ! j = None"
      using endpoints_free_slot [OF ok i(1,2)] .
    have ip': "ip' = ip\<lparr>ip_protocols := t', ip_bound := (ip_bound ip)[j := Some protocol]\<rparr>"
      using b ins fresh j by (auto simp: ip_bind_def Let_def)
    have bound: "mset (flatten ((ip_bound ip)[j := Some protocol])) = add_mset protocol (mset (flatten (ip_bound ip)))"
      using flatten_mset [of j "ip_bound ip" "\<lambda>x. x" "Some protocol"] j by simp
    have live: "mset (flatten (map resource t')) = add_mset protocol (mset (flatten (map resource ?t)))"
      using flatten_mset [of "capability_index c" "map resource ?t" "\<lambda>x. x" "Some protocol"] i by (simp add: resource_update)
    have "distinct (flatten ((ip_bound ip)[j := Some protocol]))"
      using bound fresh t(2) mset_eq_imp_distinct_iff [of "flatten ((ip_bound ip)[j := Some protocol])" "protocol # flatten (ip_bound ip)"]
      by (simp add: set_flatten)
    moreover have "table_ok t'" unfolding i(4) using i(1) t(1) by (intro table_ok_update) (auto simp: table_ok_def)
    ultimately show ?thesis using ok ip' bound live i(4) table_insert_keeps [OF t(1) ins]
      unfolding endpoints_ok_def by (auto simp: t)
  qed
qed

lemma wait_endpoints:
  assumes ok: "endpoints_ok ip" and w: "ip_wait ip ident endpoint payload = (r, ip')"
  shows "endpoints_ok ip'"
  using w
proof (cases rule: wait_cases)
  case (parked i)
  obtain p where p: "table_get READ_WRITE (ip_protocols ip) endpoint = Inr p"
    "\<not> list_ex (waits_for (ip_protocols ip) p) (flatten (ip_receives ip))"
    using w parked(1) by (auto simp: ip_wait_def split: sum.splits if_splits)
  then have fresh: "endpoint \<notin> rx_endpoint ` set (flatten (ip_receives ip))" by (auto simp: list_ex_iff waits_for_def)
  let ?w = "\<lparr>rx_id = ident, rx_endpoint = endpoint, rx_payload = payload\<rparr>"
  let ?rs = "flatten ((ip_receives ip)[i := Some ?w])"
  have ms: "mset ?rs = add_mset ?w (mset (flatten (ip_receives ip)))"
    using flatten_mset [of i "ip_receives ip" "\<lambda>x. x" "Some ?w"] parked by simp
  then have "mset (map rx_endpoint ?rs) = mset (map rx_endpoint (?w # flatten (ip_receives ip)))" by simp
  then have "distinct (map rx_endpoint ?rs)"
    using mset_eq_imp_distinct_iff fresh ok by (fastforce simp: endpoints_ok_def)
  moreover have "set ?rs = insert ?w (set (flatten (ip_receives ip)))" using ms by (metis set_mset_mset set_mset_add_mset_insert)
  ultimately show ?thesis using ok parked(4) p(1) by (auto simp: endpoints_ok_def)
qed (use ok in simp)

lemma close_endpoints:
  assumes ok: "endpoints_ok ip" and cl: "ip_close ip endpoint = (r, ip')"
  shows "endpoints_ok ip'"
proof (cases "list_ex (\<lambda>w. rx_endpoint w = endpoint) (flatten (ip_receives ip))")
  case True
  then show ?thesis using cl ok by (simp add: ip_close_def)
next
  case idle: False
  let ?t = "ip_protocols ip"
  obtain q t' where rev: "table_revoke READ_WRITE ?t endpoint = (q, t')" by fastforce
  show ?thesis
  proof (cases q)
    case (Inl e)
    then have "t' = ?t" using rev by (auto simp: table_revoke_def Let_def split: if_splits option.splits)
    then show ?thesis using cl ok rev Inl idle by (simp add: ip_close_def)
  next
    case (Inr p)
    note i = table_revoke_InrD [OF rev [unfolded Inr]]
    have ok_t: "table_ok ?t" "mset (flatten (ip_bound ip)) = mset (flatten (map resource ?t))" "distinct (flatten (ip_bound ip))"
      using ok by (auto simp: endpoints_ok_def)
    have "p \<in> set (flatten (ip_bound ip))"
      using flatten_nth [of "capability_index endpoint" "map resource ?t" p] i mset_eq_setD [OF ok_t(2)] by simp
    then obtain j where j: "find_index (\<lambda>slot. slot = Some p) (ip_bound ip) = Some j" "j < length (ip_bound ip)" "ip_bound ip ! j = Some p"
      using find_index_None_iff [of "\<lambda>slot. slot = Some p" "ip_bound ip"] find_index_SomeD [of "\<lambda>slot. slot = Some p" "ip_bound ip"]
      by (cases "find_index (\<lambda>slot. slot = Some p) (ip_bound ip)") (auto simp: set_flatten)
    have ip': "ip' = ip\<lparr>ip_protocols := t', ip_bound := (ip_bound ip)[j := None]\<rparr>"
      using cl rev Inr idle j by (auto simp: ip_close_def Let_def)
    have bound: "add_mset p (mset (flatten ((ip_bound ip)[j := None]))) = mset (flatten (ip_bound ip))"
      using flatten_mset [of j "ip_bound ip" "\<lambda>x. x" None] j by simp
    have live: "add_mset p (mset (flatten (map resource t'))) = mset (flatten (map resource ?t))"
      using flatten_mset [of "capability_index endpoint" "map resource ?t" "\<lambda>x. x" None] i by (simp add: resource_update)
    have "distinct (p # flatten ((ip_bound ip)[j := None]))"
      using bound ok_t(3) mset_eq_imp_distinct_iff [of "p # flatten ((ip_bound ip)[j := None])" "flatten (ip_bound ip)"] by simp
    moreover have "table_ok t'" unfolding i(5) using table_ok_nth [OF ok_t(1) i(1)] ok_t(1) by (intro table_ok_update) simp_all
    moreover have "table_get READ_WRITE t' d = Inr x" if "table_get READ_WRITE ?t d = Inr x" "d \<noteq> endpoint" for d x
    proof -
      have "capability_index d \<noteq> capability_index endpoint"
        using that i(2) capability_eqI [of d endpoint] by (auto simp: table_get_eq split: if_splits option.splits)
      then show ?thesis unfolding i(5) using that(1) by (simp add: table_get_update_other)
    qed
    moreover have "add_mset p (mset (flatten ((ip_bound ip)[j := None]))) = add_mset p (mset (flatten (map resource t')))"
      using bound live ok_t(2) by simp
    moreover have "length t' = length ?t" using i(5) by simp
    ultimately show ?thesis using ok idle unfolding ip' endpoints_ok_def list_ex_iff by auto
  qed
qed

section \<open>Sessions\<close>

lemma serve_one_endpoints:
  assumes "endpoints_ok ip" "serve_one tx own ip ring buffers s = (n, ip', ring')"
  shows "endpoints_ok ip'"
proof -
  have step: "endpoints_ok ip'" if "ip_publish ip1 ring c = (n, ip', ring')" "endpoints_ok ip1" for ip1 c
    using endpoints_ok_fixed [OF publish_fixed [OF that(1)]] that(2) by simp
  have sent: "endpoints_ok ip1" if "try_send tx ip buffers opn = (r, ip1)" for opn r ip1
    using endpoints_ok_fixed [OF only_link_fixed [OF try_send_only [OF that]]] assms(1) by simp
  have parked: "endpoints_ok (ip1\<lparr>ip_send := p\<rparr>) = endpoints_ok ip1" for ip1 p by (simp add: endpoints_ok_def)
  show ?thesis
  proof (cases "sub_op s")
    case (IpBind protocol)
    then show ?thesis using assms(2) step bind_endpoints [OF assms(1)]
      by (cases "ip_bind ip own protocol") (simp add: serve_one_def Let_def)
  next
    case (IpSend endpoint to payload)
    obtain r ip1 where t: "try_send tx ip buffers (IpSend endpoint to payload) = (r, ip1)" by fastforce
    show ?thesis using assms(2) IpSend t sent [OF t] step parked
      by (auto simp: serve_one_def Let_def split: sum.splits send_state.splits)
  next
    case (IpRecv endpoint payload)
    obtain r ip1 where w: "ip_wait ip (sub_id s) endpoint payload = (r, ip1)" by fastforce
    show ?thesis using assms(2) IpRecv w wait_endpoints [OF assms(1) w] step
      by (auto simp: serve_one_def Let_def split: sum.splits)
  next
    case (IpClose endpoint)
    then show ?thesis using assms(2) step close_endpoints [OF assms(1)]
      by (cases "ip_close ip endpoint") (simp add: serve_one_def Let_def)
  qed
qed

lemma serve_endpoints:
  assumes "endpoints_ok ip" "ip_serve tx own ip ring buffers = Returns (n, ip', ring')"
  shows "endpoints_ok ip'"
proof -
  have loop: "endpoints_ok ip2" if "serve_loop tx own ip1 ring1 buffers m = Returns (k, ip2, ring2)" "endpoints_ok ip1"
    for ip1 ring1 m k ip2 ring2
    using that
  proof (induction tx own ip1 ring1 buffers m rule: serve_loop.induct)
    case (1 tx own ip ring buffers served)
    then show ?case
      by (subst (asm) (2) serve_loop.simps)
        (auto split: outcome.splits option.splits prod.splits if_splits dest: serve_one_endpoints)
  qed
  obtain n1 ip1 ring1 where f: "ip_flush ip ring = (n1, ip1, ring1)" by (metis prod_cases3)
  obtain n2 ip2 ring2 where r: "ip_retry tx ip1 ring1 buffers = (n2, ip2, ring2)" by (metis prod_cases3)
  have "endpoints_ok ip1" "endpoints_ok ip2"
    using assms(1) endpoints_ok_fixed flush_fixed [OF f] retry_fixed [OF r] by blast+
  then show ?thesis using assms(2) f r loop by (auto simp: ip_serve_def split: if_splits)
qed

lemma flatten_removed:
  assumes "distinct (map f (flatten xs))"
  shows "distinct (map f (flatten (xs[i := None])))" and "set (flatten (xs[i := None])) \<subseteq> set (flatten xs)"
proof -
  show "set (flatten (xs[i := None])) \<subseteq> set (flatten xs)" using set_update_subset_insert [of xs i None] by (auto simp: set_flatten)
  show "distinct (map f (flatten (xs[i := None])))"
  proof (cases "i < length xs \<and> xs ! i \<noteq> None")
    case True
    then obtain w where w: "i < length xs" "xs ! i = Some w" by auto
    then have "mset (f w # map f (flatten (xs[i := None]))) = mset (map f (flatten xs))"
      using flatten_mset [of i xs f None] by simp
    then show ?thesis using assms mset_eq_imp_distinct_iff by fastforce
  next
    case False
    then have "xs[i := None] = xs" by (metis list_update_beyond list_update_id not_less)
    then show ?thesis using assms by simp
  qed
qed

lemma taken_endpoints: "endpoints_ok ip \<Longrightarrow> endpoints_ok (ip\<lparr>ip_receives := (ip_receives ip)[i := None]\<rparr>)"
  using flatten_removed [of rx_endpoint "ip_receives ip" i] by (auto simp: endpoints_ok_def)

lemma deliver_endpoints:
  assumes "endpoints_ok ip" "ip_deliver ip ring buffers from protocol payload = (r, ip', ring', buffers')"
  shows "endpoints_ok ip'"
proof -
  have step: "endpoints_ok ip'" if "ip_publish ip1 ring c = (n, ip', ring')" "endpoints_ok ip1" for ip1 c n
    using endpoints_ok_fixed [OF publish_fixed [OF that(1)]] that(2) by simp
  show ?thesis using assms step [OF _ taken_endpoints [OF assms(1)]] taken_endpoints [OF assms(1)]
    by (auto simp: ip_deliver_def Let_def split: option.splits if_splits prod.splits sum.splits)
qed

lemma ingest_endpoints:
  assumes "endpoints_ok ip" "ip_ingest tx ip ring buffers bytes = (r, ip', ring', buffers')"
  shows "endpoints_ok ip'"
proof -
  have link: "endpoints_ok ip2" if "only_link ip1 ip2" "endpoints_ok ip1" for ip1 ip2
    using endpoints_ok_fixed [OF only_link_fixed [OF that(1)]] that(2) by simp
  have resumed: "endpoints_ok ip2" if "ip_resume tx ip1 ring buffers = (ip2, ring2)" "endpoints_ok ip1" for ip1 ip2 ring2
    using endpoints_ok_fixed [OF resume_fixed [OF that(1)]] that(2) by simp
  have arp: "endpoints_ok ip2" if "ingest_arp tx ip ring buffers b = (q, ip2, ring2)" for b q ip2 ring2
    using that assms(1)
    by (auto simp: ingest_arp_def Let_def split: sum.splits prod.splits if_splits dest!: arp_only dest: link resumed)
  have icmp: "endpoints_ok ip2" if "ingest_icmpv6 tx ip ring buffers h p = (q, ip2, ring2)" for h p q ip2 ring2
    using that assms(1)
    by (auto simp: ingest_icmpv6_def Let_def split: icmp_message.splits if_splits sum.splits prod.splits
        dest!: icmpv6_only discover_only dest: link resumed)
  show ?thesis using assms arp icmp deliver_endpoints [OF assms(1)]
    by (auto simp: ip_ingest_def ingest_ipv4_def ingest_ipv6_def split: sum.splits if_splits ether_type.splits prod.splits)
qed

text \<open>
  A service with its ring: the client submits and collects, the service is woken or handed a frame with
  whatever buffers are registered by then, and the device changes on its own.
\<close>

inductive ip_session :: "'l transmitter \<Rightarrow> cell_id \<Rightarrow> 'l ip \<Rightarrow> ip_ring \<Rightarrow> bool" for tx own where
  start: "n \<le> 2 ^ 32 \<Longrightarrow> 0 < m \<Longrightarrow> m < u64_limit \<Longrightarrow> m dvd u64_limit \<Longrightarrow> ip_session tx own (ip_new n link config) (io_new m)"
| submit: "ip_session tx own ip ring \<Longrightarrow> client_try_submit ring s = (r, ring') \<Longrightarrow> ip_session tx own ip ring'"
| collect: "ip_session tx own ip ring \<Longrightarrow> client_try_completion ring = Returns (c, ring') \<Longrightarrow> ip_session tx own ip ring'"
| serve: "ip_session tx own ip ring \<Longrightarrow> ip_serve tx own ip ring buffers = Returns (k, ip', ring') \<Longrightarrow> ip_session tx own ip' ring'"
| ingest: "ip_session tx own ip ring \<Longrightarrow> ip_ingest tx ip ring buffers bytes = (q, ip', ring', buffers') \<Longrightarrow> ip_session tx own ip' ring'"
| device: "ip_session tx own ip ring \<Longrightarrow> ip_session tx own (ip\<lparr>ip_link := l\<rparr>) ring"

lemma submit_ring_ok:
  assumes "ring_ok ring" "client_try_submit ring s = (r, ring')"
  shows "ring_ok ring'"
proof (cases "spsc_count (io_submissions ring) = spsc_capacity (io_submissions ring)")
  case True
  then show ?thesis using assms spsc_push_refused [of "io_submissions ring" s] by (auto simp: client_try_submit_def ring_ok_def)
next
  case False
  then have "spsc_count (io_submissions ring) < spsc_capacity (io_submissions ring)"
    using assms(1) spsc_count_le [of "io_submissions ring"] by (simp add: ring_ok_def)
  then show ?thesis using assms spsc_push_accepted [of "io_submissions ring" s] by (auto simp: client_try_submit_def ring_ok_def)
qed

lemma collect_ring_ok:
  assumes "ring_ok ring"
  obtains c ring' where "client_try_completion ring = Returns (c, ring')" "ring_ok ring'"
proof (cases "spsc_count (io_completions ring) = 0")
  case True
  then show thesis using assms that spsc_pop_empty [of "io_completions ring"] by (simp add: client_try_completion_def ring_ok_def)
next
  case False
  then obtain v q where "spsc_try_pop (io_completions ring) = Returns (Some v, q)" "spsc_inv q"
    using assms spsc_pop_value [of "io_completions ring"] by (auto simp: ring_ok_def)
  then show thesis using assms that by (simp add: client_try_completion_def ring_ok_def)
qed

lemma ip_session_inv: "ip_session tx own ip ring \<Longrightarrow> ring_ok ring \<and> endpoints_ok ip"
proof (induction rule: ip_session.induct)
  case (start n m link config)
  then show ?case using table_new_ok [of n]
    by (simp add: spsc_new_inv ring_ok_def io_new_def endpoints_ok_def ip_new_def table_new_def slot_empty_def)
next
  case (submit ip ring s r ring')
  then show ?case using submit_ring_ok by blast
next
  case (collect ip ring c ring')
  then show ?case using collect_ring_ok [of ring] by (metis outcome.inject prod.inject)
next
  case (serve ip ring buffers k ip' ring')
  then show ?case using serve_answers [of ring tx own ip buffers] serve_endpoints by fastforce
next
  case (ingest ip ring buffers bytes q ip' ring' buffers')
  then show ?case using ingest_answers [of ring tx ip buffers bytes] ingest_endpoints by blast
next
  case (device ip ring l)
  then show ?case by (simp add: endpoints_ok_def)
qed

text \<open>
  C15. Through any session of binds, submitted and served requests and frames, no step reads a
  slot of the ring that is not written, no two live endpoints have the same protocol, and at
  most one waiting receive is the one a packet of a protocol goes to.
\<close>

theorem ip_session_exclusive:
  assumes "ip_session tx own ip ring"
  shows "(\<forall>buffers. ip_serve tx own ip ring buffers \<noteq> Undefined) \<and> client_try_completion ring \<noteq> Undefined
    \<and> (\<forall>c d p. table_get READ_WRITE (ip_protocols ip) c = Inr p \<and> table_get READ_WRITE (ip_protocols ip) d = Inr p \<longrightarrow> c = d)
    \<and> (\<forall>i j v w p. i < length (ip_receives ip) \<and> j < length (ip_receives ip) \<and> ip_receives ip ! i = Some v \<and> ip_receives ip ! j = Some w
         \<and> waits_for (ip_protocols ip) p v \<and> waits_for (ip_protocols ip) p w \<longrightarrow> i = j)"
proof -
  have ok: "ring_ok ring" "endpoints_ok ip" using ip_session_inv [OF assms] by simp_all
  have "i = j" if "i < length (ip_receives ip)" "j < length (ip_receives ip)" "ip_receives ip ! i = Some v" "ip_receives ip ! j = Some w"
      "waits_for (ip_protocols ip) p v" "waits_for (ip_protocols ip) p w" for i j v w p
  proof -
    have "rx_endpoint v = rx_endpoint w" using live_endpoint_unique [OF ok(2)] that(5,6) by (simp add: waits_for_def)
    then have "map (map_option rx_endpoint) (ip_receives ip) ! i = Some (rx_endpoint w)"
      "map (map_option rx_endpoint) (ip_receives ip) ! j = Some (rx_endpoint w)" using that by simp_all
    then show ?thesis using flatten_distinct_index [of "map (map_option rx_endpoint) (ip_receives ip)" i j "rx_endpoint w"] that(1,2) ok(2)
      by (simp add: endpoints_ok_def flatten_map)
  qed
  moreover have "ip_serve tx own ip ring buffers \<noteq> Undefined" for buffers using serve_answers [OF ok(1), of tx own ip buffers] by auto
  moreover have "client_try_completion ring \<noteq> Undefined" using collect_ring_ok [OF ok(1)] by (metis outcome.distinct(1))
  ultimately show ?thesis using live_endpoint_unique [OF ok(2)] by blast
qed

theorem ip_session_exclusive_witness:
  "ip_serve (\<lambda>l f. (Inr (), l)) 7 (sample_host 1) (io_new 4) (buffers_new 1) \<noteq> Undefined"
proof -
  have "ip_session (\<lambda>l f. (Inr (), l)) 7 (sample_host 1) (io_new 4)"
    unfolding sample_host_def by (rule ip_session.start) simp_all
  then show ?thesis using ip_session_exclusive by blast
qed

end
