(* ===== verification/Udp_Service.thy ===== *)
theory Udp_Service
  imports Net_Endpoints
begin

text \<open>
  The UDP service (crates/stack/udp/src: wire.rs, service.rs, op.rs, error.rs, cell.rs). It is the driver
  of the ring its clients submit to and the client of the IP service's ring, between which it keeps one
  bind, one receive and one send in flight. Datagrams for a bound port go to the receive that waits on
  its socket or into the inbox.
\<close>

section \<open>Datagrams\<close>

datatype udp_error =
    UdpBuffer | UdpMalformed | UdpChecksum
  | UdpWire net_error | UdpIp ip_error | UdpCapability capability_error | UdpRegistered buffer_error
  | UdpAlreadyBound | UdpBusy | UdpFull | UdpTooLarge

record ip_endpoint =
  ep_addr :: ip_addr
  ep_port :: nat

record datagram =
  dg_src :: ip_endpoint
  dg_dst :: ip_endpoint
  dg_payload :: "byte list"

definition UDP_PROTOCOL :: byte where
  "UDP_PROTOCOL = 17"

definition udp_checksum :: "ip_addr \<Rightarrow> ip_addr \<Rightarrow> byte list \<Rightarrow> udp_error + nat" where
  "udp_checksum src dst bytes =
     (case (src, dst) of
        (V4 s, V4 d) \<Rightarrow> Inr (over_ipv4 s d UDP_PROTOCOL bytes)
      | (V6 s, V6 d) \<Rightarrow> Inr (over_ipv6 s d UDP_PROTOCOL bytes)
      | _ \<Rightarrow> Inl UdpMalformed)"

definition udp_parse :: "ip_addr \<Rightarrow> ip_addr \<Rightarrow> byte list \<Rightarrow> udp_error + datagram" where
  "udp_parse src dst bytes =
     (if length bytes < 8 then Inl UdpMalformed else
      let len = field_be 2 4 bytes in
      if len < 8 \<or> length bytes < len then Inl UdpMalformed else
      let transmitted = field_be 2 6 bytes in
      if transmitted = 0 \<and> (case src of V6 _ \<Rightarrow> True | V4 _ \<Rightarrow> False) then Inl UdpChecksum else
      case (if transmitted \<noteq> 0 then udp_checksum src dst (take len bytes) else Inr 0) of
        Inl e \<Rightarrow> Inl e
      | Inr c \<Rightarrow>
          if c \<noteq> 0 then Inl UdpChecksum
          else Inr \<lparr>dg_src = \<lparr>ep_addr = src, ep_port = field_be 2 0 bytes\<rparr>,
                    dg_dst = \<lparr>ep_addr = dst, ep_port = field_be 2 2 bytes\<rparr>,
                    dg_payload = sub_slice 8 (len - 8) bytes\<rparr>)"

text \<open>\<open>emit\<close> fills the buffer before it can fail on addresses of two families, so the buffer comes back either way.\<close>

definition udp_emit :: "datagram \<Rightarrow> byte list \<Rightarrow> (udp_error + nat) \<times> byte list" where
  "udp_emit d bytes =
     (let len = 8 + length (dg_payload d) in
      if len \<ge> 2 ^ 16 \<or> length bytes < len then (Inl UdpBuffer, bytes) else
      let bytes = put_be 2 0 (ep_port (dg_src d)) bytes;
          bytes = put_be 2 2 (ep_port (dg_dst d)) bytes;
          bytes = put_be 2 4 len bytes;
          bytes = put_slice 6 [0, 0] bytes;
          bytes = put_slice 8 (dg_payload d) bytes
      in (case udp_checksum (ep_addr (dg_src d)) (ep_addr (dg_dst d)) (take len bytes) of
            Inl e \<Rightarrow> (Inl e, bytes)
          | Inr c \<Rightarrow> (Inr len, put_be 2 6 (if c = 0 then 65535 else c) bytes)))"

section \<open>Operations and state\<close>

datatype udp_op =
    UdpBind nat
  | UdpSend capability ip_endpoint buffer_operation
  | UdpRecv capability buffer_operation
  | UdpClose capability

datatype udp_done = UdpBound capability | UdpSent nat | UdpReceived ip_endpoint nat | UdpClosed

record scratch =
  sc_read :: buffer_operation
  sc_write :: buffer_operation

definition scratch_from_registered :: "capability \<Rightarrow> nat \<Rightarrow> buffer_registry \<Rightarrow> udp_error + scratch" where
  "scratch_from_registered buffer len buffers =
     (case read_capability buffers buffer of Inl e \<Rightarrow> Inl (UdpCapability e) | Inr rd \<Rightarrow>
      case write_capability buffers buffer of Inl e \<Rightarrow> Inl (UdpCapability e) | Inr wr \<Rightarrow>
      Inr \<lparr>sc_read = \<lparr>bo_buffer = rd, bo_offset = 0, bo_len = len\<rparr>, sc_write = \<lparr>bo_buffer = wr, bo_offset = 0, bo_len = len\<rparr>\<rparr>)"

record udp_bound =
  ub_port :: nat
  ub_socket :: capability

record udp_waiting =
  ur_id :: u64
  ur_socket :: capability
  ur_payload :: buffer_operation

record udp_send =
  us_id :: u64
  us_socket :: capability
  us_len :: nat

record stored =
  st_socket :: capability
  st_from :: ip_endpoint
  st_len :: nat
  st_bytes :: "byte list"

type_synonym udp_completion = "(udp_error + udp_done) completion"
type_synonym udp_ring = "(udp_op, udp_error + udp_done) io_ring"

record udp =
  ud_local :: ip_addr
  ud_tx :: scratch
  ud_rx :: scratch
  ud_sockets :: "nat table"
  ud_bound :: "udp_bound option list"
  ud_receives :: "udp_waiting option list"
  ud_inbox :: "stored option list"
  ud_endpoint :: "capability option"
  ud_bind_inflight :: bool
  ud_recv_inflight :: bool
  ud_send_inflight :: bool
  ud_send :: "udp_send option"
  ud_completion :: "udp_completion option"

abbreviation BIND_ID :: u64 where "BIND_ID \<equiv> 0"
abbreviation RECV_ID :: u64 where "RECV_ID \<equiv> 1"
abbreviation SEND_ID :: u64 where "SEND_ID \<equiv> 2"
abbreviation MAX_PAYLOAD :: nat where "MAX_PAYLOAD \<equiv> 1472"
abbreviation MAX_SEGMENT :: nat where "MAX_SEGMENT \<equiv> 1480"

definition udp_new :: "nat \<Rightarrow> nat \<Rightarrow> ip_addr \<Rightarrow> scratch \<Rightarrow> scratch \<Rightarrow> udp" where
  "udp_new n q local tx rx =
     \<lparr>ud_local = local, ud_tx = tx, ud_rx = rx, ud_sockets = table_new n, ud_bound = replicate n None,
      ud_receives = replicate n None, ud_inbox = replicate q None, ud_endpoint = None, ud_bind_inflight = False,
      ud_recv_inflight = False, ud_send_inflight = False, ud_send = None, ud_completion = None\<rparr>"

definition udp_reset :: "udp \<Rightarrow> udp" where
  "udp_reset u =
     u\<lparr>ud_sockets := snd (table_revoke_all (ud_sockets u)),
       ud_bound := replicate (length (ud_bound u)) None,
       ud_receives := replicate (length (ud_receives u)) None,
       ud_inbox := replicate (length (ud_inbox u)) None,
       ud_send := None, ud_completion := None\<rparr>"

text \<open>Slots whose socket is gone are emptied.\<close>

definition live_only :: "nat table \<Rightarrow> ('a \<Rightarrow> capability) \<Rightarrow> 'a option \<Rightarrow> 'a option" where
  "live_only sockets socket slot =
     (if some_and (\<lambda>x. isl (table_get READ_WRITE sockets (socket x))) slot then None else slot)"

definition udp_revoke :: "udp \<Rightarrow> cell_id \<Rightarrow> nat \<times> udp" where
  "udp_revoke u own =
     (case table_revoke_owner (ud_sockets u) own of (revoked, sockets) \<Rightarrow>
        (revoked,
         u\<lparr>ud_sockets := sockets,
           ud_bound := map (live_only sockets ub_socket) (ud_bound u),
           ud_receives := map (live_only sockets ur_socket) (ud_receives u),
           ud_inbox := map (live_only sockets st_socket) (ud_inbox u),
           ud_send := live_only sockets us_socket (ud_send u)\<rparr>))"

section \<open>Sockets\<close>

definition udp_bind :: "udp \<Rightarrow> cell_id \<Rightarrow> nat \<Rightarrow> (udp_error + capability) \<times> udp" where
  "udp_bind u own port =
     (if port = 0 \<or> list_ex (\<lambda>b. ub_port b = port) (flatten (ud_bound u)) then (Inl UdpAlreadyBound, u) else
      case table_insert READ_WRITE (ud_sockets u) own port of
        (Inl _, t) \<Rightarrow> (Inl UdpFull, u\<lparr>ud_sockets := t\<rparr>)
      | (Inr socket, t) \<Rightarrow>
          (let u = u\<lparr>ud_sockets := t\<rparr> in
           case find_index (\<lambda>slot. slot = None) (ud_bound u) of
             None \<Rightarrow> (Inl UdpFull, u)
           | Some i \<Rightarrow> (Inr socket, u\<lparr>ud_bound := (ud_bound u)[i := Some \<lparr>ub_port = port, ub_socket = socket\<rparr>]\<rparr>)))"

definition udp_deliver :: "stored \<Rightarrow> udp_waiting \<Rightarrow> buffer_registry \<Rightarrow> (udp_error + udp_done) \<times> buffer_registry" where
  "udp_deliver stored receive buffers =
     (if st_len stored > bo_len (ur_payload receive) then (Inl UdpTooLarge, buffers) else
      case resolve_write (\<lambda>target. ((), put_slice 0 (take (st_len stored) (st_bytes stored)) target)) buffers (ur_payload receive) of
        (Inl e, buffers) \<Rightarrow> (Inl (UdpRegistered e), buffers)
      | (Inr _, buffers) \<Rightarrow> (Inr (UdpReceived (st_from stored) (st_len stored)), buffers))"

definition start_send ::
  "udp \<Rightarrow> u64 \<Rightarrow> capability \<Rightarrow> ip_endpoint \<Rightarrow> buffer_operation \<Rightarrow> ip_ring \<Rightarrow> buffer_registry
   \<Rightarrow> (udp_error + udp_done option) \<times> udp \<times> ip_ring \<times> buffer_registry" where
  "start_send u ident socket to payload ip buffers =
     (case ud_endpoint u of None \<Rightarrow> (Inl UdpBusy, u, ip, buffers) | Some endpoint \<Rightarrow>
      if ud_send_inflight u then (Inl UdpBusy, u, ip, buffers) else
      case table_get READ_WRITE (ud_sockets u) socket of Inl e \<Rightarrow> (Inl (UdpCapability e), u, ip, buffers) | Inr port \<Rightarrow>
      case resolve_read buffers payload of Inl e \<Rightarrow> (Inl (UdpRegistered e), u, ip, buffers) | Inr source \<Rightarrow>
      if length source > MAX_PAYLOAD then (Inl UdpTooLarge, u, ip, buffers) else
      case resolve_write
             (udp_emit \<lparr>dg_src = \<lparr>ep_addr = ud_local u, ep_port = port\<rparr>, dg_dst = to, dg_payload = source\<rparr>)
             buffers (sc_write (ud_tx u)) of
        (Inl e, buffers) \<Rightarrow> (Inl (UdpRegistered e), u, ip, buffers)
      | (Inr (Inl e), buffers) \<Rightarrow> (Inl e, u, ip, buffers)
      | (Inr (Inr len), buffers) \<Rightarrow>
          (case client_try_submit ip \<lparr>sub_id = SEND_ID, sub_op =
                  IpSend endpoint (ep_addr to) \<lparr>bo_buffer = bo_buffer (sc_read (ud_tx u)), bo_offset = 0, bo_len = len\<rparr>\<rparr> of
             (Inl _, ip) \<Rightarrow> (Inl UdpBusy, u, ip, buffers)
           | (Inr _, ip) \<Rightarrow>
               (Inr None,
                u\<lparr>ud_send_inflight := True, ud_send := Some \<lparr>us_id = ident, us_socket = socket, us_len = length source\<rparr>\<rparr>,
                ip, buffers)))"

definition start_recv ::
  "udp \<Rightarrow> u64 \<Rightarrow> capability \<Rightarrow> buffer_operation \<Rightarrow> buffer_registry
   \<Rightarrow> (udp_error + udp_done option) \<times> udp \<times> buffer_registry" where
  "start_recv u ident socket payload buffers =
     (case table_get READ_WRITE (ud_sockets u) socket of Inl e \<Rightarrow> (Inl (UdpCapability e), u, buffers) | Inr _ \<Rightarrow>
      if list_ex (\<lambda>r. ur_socket r = socket) (flatten (ud_receives u)) then (Inl UdpBusy, u, buffers) else
      let receive = \<lparr>ur_id = ident, ur_socket = socket, ur_payload = payload\<rparr> in
      case find_index (some_and (\<lambda>s. st_socket s = socket)) (ud_inbox u) of
        Some index \<Rightarrow>
          (let stored = the (ud_inbox u ! index);
               u = u\<lparr>ud_inbox := (ud_inbox u)[index := None]\<rparr>
           in case udp_deliver stored receive buffers of (r, buffers) \<Rightarrow> (map_sum id Some r, u, buffers))
      | None \<Rightarrow>
          (case find_index (\<lambda>slot. slot = None) (ud_receives u) of
             None \<Rightarrow> (Inl UdpFull, u, buffers)
           | Some i \<Rightarrow> (Inr None, u\<lparr>ud_receives := (ud_receives u)[i := Some receive]\<rparr>, buffers)))"

definition udp_close :: "udp \<Rightarrow> capability \<Rightarrow> (udp_error + unit) \<times> udp" where
  "udp_close u socket =
     (if list_ex (\<lambda>r. ur_socket r = socket) (flatten (ud_receives u)) \<or> some_and (\<lambda>s. us_socket s = socket) (ud_send u)
      then (Inl UdpBusy, u) else
      case table_revoke READ_WRITE (ud_sockets u) socket of
        (Inl e, t) \<Rightarrow> (Inl (UdpCapability e), u\<lparr>ud_sockets := t\<rparr>)
      | (Inr _, t) \<Rightarrow>
          (let u = u\<lparr>ud_sockets := t\<rparr>;
               u = (case find_index (some_and (\<lambda>b. ub_socket b = socket)) (ud_bound u) of
                      None \<Rightarrow> u | Some i \<Rightarrow> u\<lparr>ud_bound := (ud_bound u)[i := None]\<rparr>)
           in (Inr (), u\<lparr>ud_inbox := map (\<lambda>slot. if some_and (\<lambda>s. st_socket s = socket) slot then None else slot) (ud_inbox u)\<rparr>)))"

section \<open>The IP ring\<close>

definition udp_publish :: "udp \<Rightarrow> udp_ring \<Rightarrow> udp_completion \<Rightarrow> nat \<times> udp \<times> udp_ring" where
  "udp_publish u ring c =
     (case driver_try_complete ring c of
        (Inr _, ring') \<Rightarrow> (1, u, ring')
      | (Inl c', ring') \<Rightarrow> (0, u\<lparr>ud_completion := Some c'\<rparr>, ring'))"

definition udp_flush :: "udp \<Rightarrow> udp_ring \<Rightarrow> nat \<times> udp \<times> udp_ring" where
  "udp_flush u ring =
     (case ud_completion u of
        None \<Rightarrow> (0, u, ring)
      | Some c \<Rightarrow>
          (let u = u\<lparr>ud_completion := None\<rparr> in
           case driver_try_complete ring c of
             (Inr _, ring') \<Rightarrow> (1, u, ring')
           | (Inl c', ring') \<Rightarrow> (0, u\<lparr>ud_completion := Some c'\<rparr>, ring')))"

definition arm_ip :: "udp \<Rightarrow> ip_ring \<Rightarrow> udp \<times> ip_ring" where
  "arm_ip u ip =
     (if ud_endpoint u = None \<and> \<not> ud_bind_inflight u then
        (case client_try_submit ip \<lparr>sub_id = BIND_ID, sub_op = IpBind UDP_PROTOCOL\<rparr> of
           (Inr _, ip) \<Rightarrow> (u\<lparr>ud_bind_inflight := True\<rparr>, ip)
         | (Inl _, ip) \<Rightarrow> (u, ip))
      else case ud_endpoint u of None \<Rightarrow> (u, ip) | Some endpoint \<Rightarrow>
        if ud_recv_inflight u then (u, ip) else
        (case client_try_submit ip \<lparr>sub_id = RECV_ID, sub_op = IpRecv endpoint (sc_write (ud_rx u))\<rparr> of
           (Inr _, ip) \<Rightarrow> (u\<lparr>ud_recv_inflight := True\<rparr>, ip)
         | (Inl _, ip) \<Rightarrow> (u, ip)))"

definition udp_receive ::
  "udp \<Rightarrow> ip_addr \<Rightarrow> nat \<Rightarrow> buffer_registry \<Rightarrow> (u64 \<times> (udp_error + udp_done)) option \<times> udp \<times> buffer_registry" where
  "udp_receive u source len buffers =
     (if len > bo_len (sc_read (ud_rx u)) \<or> len > MAX_SEGMENT then (None, u, buffers) else
      case resolve_read buffers \<lparr>bo_buffer = bo_buffer (sc_read (ud_rx u)), bo_offset = 0, bo_len = len\<rparr> of
        Inl _ \<Rightarrow> (None, u, buffers)
      | Inr bytes \<Rightarrow>
      case udp_parse source (ud_local u) bytes of Inl _ \<Rightarrow> (None, u, buffers) | Inr datagram \<Rightarrow>
      case List.find (\<lambda>b. ub_port b = ep_port (dg_dst datagram)) (flatten (ud_bound u)) of None \<Rightarrow> (None, u, buffers) | Some bound \<Rightarrow>
      if length (dg_payload datagram) > MAX_PAYLOAD then (None, u, buffers) else
      let stored = \<lparr>st_socket = ub_socket bound, st_from = dg_src datagram, st_len = length (dg_payload datagram),
                    st_bytes = put_slice 0 (dg_payload datagram) (replicate MAX_PAYLOAD 0)\<rparr> in
      case find_index (some_and (\<lambda>r. ur_socket r = ub_socket bound)) (ud_receives u) of
        Some index \<Rightarrow>
          (let receive = the (ud_receives u ! index);
               u = u\<lparr>ud_receives := (ud_receives u)[index := None]\<rparr>
           in case udp_deliver stored receive buffers of (r, buffers) \<Rightarrow> (Some (ur_id receive, r), u, buffers))
      | None \<Rightarrow>
          (case find_index (\<lambda>slot. slot = None) (ud_inbox u) of
             None \<Rightarrow> (None, u, buffers)
           | Some i \<Rightarrow> (None, u\<lparr>ud_inbox := (ud_inbox u)[i := Some stored]\<rparr>, buffers)))"

definition pump_one ::
  "udp \<Rightarrow> udp_ring \<Rightarrow> buffer_registry \<Rightarrow> ip_completion \<Rightarrow> nat \<times> udp \<times> udp_ring \<times> buffer_registry" where
  "pump_one u ring buffers c =
     (if comp_id c = BIND_ID then
        (let u = u\<lparr>ud_bind_inflight := False\<rparr>
         in (0, (case comp_result c of Inr (IpBound endpoint) \<Rightarrow> u\<lparr>ud_endpoint := Some endpoint\<rparr> | _ \<Rightarrow> u), ring, buffers))
      else if comp_id c = RECV_ID then
        (let u = u\<lparr>ud_recv_inflight := False\<rparr>
         in case comp_result c of
              Inr (IpReceived source len) \<Rightarrow>
                (case udp_receive u source len buffers of
                   (Some (ident, r), u, buffers) \<Rightarrow>
                     (case udp_publish u ring \<lparr>comp_id = ident, comp_result = r\<rparr> of (n, u, ring) \<Rightarrow> (n, u, ring, buffers))
                 | (None, u, buffers) \<Rightarrow> (0, u, ring, buffers))
            | _ \<Rightarrow> (0, u, ring, buffers))
      else if comp_id c = SEND_ID then
        (let u = u\<lparr>ud_send_inflight := False\<rparr>
         in case ud_send u of
              None \<Rightarrow> (0, u, ring, buffers)
            | Some send \<Rightarrow>
                (let u = u\<lparr>ud_send := None\<rparr>;
                     r = (case comp_result c of
                            Inr (IpSent _) \<Rightarrow> Inr (UdpSent (us_len send)) | Inr _ \<Rightarrow> Inl UdpMalformed | Inl e \<Rightarrow> Inl (UdpIp e))
                 in case udp_publish u ring \<lparr>comp_id = us_id send, comp_result = r\<rparr> of (n, u, ring) \<Rightarrow> (n, u, ring, buffers)))
      else (0, u, ring, buffers))"

lemma completion_count:
  assumes "client_try_completion ring = Returns (Some c, ring')"
  shows "spsc_count (io_completions ring') < spsc_count (io_completions ring)"
    and "io_submissions ring' = io_submissions ring"
proof -
  let ?q = "io_completions ring"
  obtain q' where pop: "spsc_try_pop ?q = Returns (Some c, q')" and ring': "ring' = ring\<lparr>io_completions := q'\<rparr>"
    using assms by (auto simp: client_try_completion_def split: outcome.splits prod.splits)
  have "spsc_tail ?q \<noteq> spsc_head ?q" and "spsc_head q' = spsc_head ?q + 1" and "spsc_tail q' = spsc_tail ?q"
    using pop by (auto simp: spsc_try_pop_def Let_def split: if_splits option.splits)
  then have "spsc_count q' < spsc_count ?q"
    using unat_diff_pred [of "spsc_tail ?q" "spsc_head ?q"] by (simp add: spsc_count_def)
  then show "spsc_count (io_completions ring') < spsc_count (io_completions ring)" "io_submissions ring' = io_submissions ring"
    by (simp_all add: ring')
qed

function pump_loop ::
  "udp \<Rightarrow> udp_ring \<Rightarrow> ip_ring \<Rightarrow> buffer_registry \<Rightarrow> nat \<Rightarrow> (nat \<times> udp \<times> udp_ring \<times> ip_ring \<times> buffer_registry) outcome" where
  "pump_loop u ring ip buffers served =
     (case client_try_completion ip of
        Undefined \<Rightarrow> Undefined
      | Returns (None, ip) \<Rightarrow> Returns (served, u, ring, ip, buffers)
      | Returns (Some c, ip) \<Rightarrow>
          (case pump_one u ring buffers c of (n, u, ring, buffers) \<Rightarrow>
             if ud_completion u \<noteq> None then Returns (served + n, u, ring, ip, buffers)
             else pump_loop u ring ip buffers (served + n)))"
  by pat_completeness auto
termination
  by (relation "measure (\<lambda>(u, ring, ip, buffers, served). spsc_count (io_completions ip))")
    (auto dest!: completion_count(1))

declare pump_loop.simps [simp del]

definition pump_ip ::
  "udp \<Rightarrow> udp_ring \<Rightarrow> ip_ring \<Rightarrow> buffer_registry \<Rightarrow> (nat \<times> udp \<times> udp_ring \<times> ip_ring \<times> buffer_registry) outcome" where
  "pump_ip u ring ip buffers =
     (case pump_loop u ring ip buffers 0 of
        Undefined \<Rightarrow> Undefined
      | Returns (served, u, ring, ip, buffers) \<Rightarrow> (case arm_ip u ip of (u, ip) \<Rightarrow> Returns (served, u, ring, ip, buffers)))"

section \<open>Serving the ring\<close>

definition udp_serve_one ::
  "cell_id \<Rightarrow> udp \<Rightarrow> udp_ring \<Rightarrow> ip_ring \<Rightarrow> buffer_registry \<Rightarrow> udp_op submission
   \<Rightarrow> nat \<times> udp \<times> udp_ring \<times> ip_ring \<times> buffer_registry" where
  "udp_serve_one own u ring ip buffers submission =
     (let ident = sub_id submission in
      case sub_op submission of
        UdpBind port \<Rightarrow>
          (case udp_bind u own port of (r, u) \<Rightarrow>
           case udp_publish u ring \<lparr>comp_id = ident, comp_result = map_sum id UdpBound r\<rparr> of (n, u, ring) \<Rightarrow> (n, u, ring, ip, buffers))
      | UdpSend socket to payload \<Rightarrow>
          (case start_send u ident socket to payload ip buffers of
             (Inr None, u, ip, buffers) \<Rightarrow> (0, u, ring, ip, buffers)
           | (Inr (Some d), u, ip, buffers) \<Rightarrow>
               (case udp_publish u ring \<lparr>comp_id = ident, comp_result = Inr d\<rparr> of (n, u, ring) \<Rightarrow> (n, u, ring, ip, buffers))
           | (Inl e, u, ip, buffers) \<Rightarrow>
               (case udp_publish u ring \<lparr>comp_id = ident, comp_result = Inl e\<rparr> of (n, u, ring) \<Rightarrow> (n, u, ring, ip, buffers)))
      | UdpRecv socket payload \<Rightarrow>
          (case start_recv u ident socket payload buffers of
             (Inr None, u, buffers) \<Rightarrow> (0, u, ring, ip, buffers)
           | (Inr (Some d), u, buffers) \<Rightarrow>
               (case udp_publish u ring \<lparr>comp_id = ident, comp_result = Inr d\<rparr> of (n, u, ring) \<Rightarrow> (n, u, ring, ip, buffers))
           | (Inl e, u, buffers) \<Rightarrow>
               (case udp_publish u ring \<lparr>comp_id = ident, comp_result = Inl e\<rparr> of (n, u, ring) \<Rightarrow> (n, u, ring, ip, buffers)))
      | UdpClose socket \<Rightarrow>
          (case udp_close u socket of (r, u) \<Rightarrow>
           case udp_publish u ring \<lparr>comp_id = ident, comp_result = map_sum id (\<lambda>_. UdpClosed) r\<rparr> of
             (n, u, ring) \<Rightarrow> (n, u, ring, ip, buffers)))"

lemma udp_publish_submissions [simp]:
  "udp_publish u ring c = (n, u', ring') \<Longrightarrow> io_submissions ring' = io_submissions ring"
  by (auto simp: udp_publish_def driver_try_complete_def split: prod.splits sum.splits)

lemma udp_serve_one_submissions:
  "udp_serve_one own u ring ip buffers s = (n, u', ring', ip', buffers') \<Longrightarrow> io_submissions ring' = io_submissions ring"
  by (auto simp: udp_serve_one_def Let_def split: udp_op.splits prod.splits sum.splits option.splits)

function udp_serve_loop ::
  "cell_id \<Rightarrow> udp \<Rightarrow> udp_ring \<Rightarrow> ip_ring \<Rightarrow> buffer_registry \<Rightarrow> nat
   \<Rightarrow> (nat \<times> udp \<times> udp_ring \<times> ip_ring \<times> buffer_registry) outcome" where
  "udp_serve_loop own u ring ip buffers served =
     (case driver_try_next ring of
        Undefined \<Rightarrow> Undefined
      | Returns (None, ring) \<Rightarrow> Returns (served, u, ring, ip, buffers)
      | Returns (Some submission, ring) \<Rightarrow>
          (case udp_serve_one own u ring ip buffers submission of (n, u, ring, ip, buffers) \<Rightarrow>
             if ud_completion u \<noteq> None then Returns (served + n, u, ring, ip, buffers)
             else udp_serve_loop own u ring ip buffers (served + n)))"
  by pat_completeness auto
termination
  by (relation "measure (\<lambda>(own, u, ring, ip, buffers, served). spsc_count (io_submissions ring))")
    (auto dest!: driver_next_count(1) udp_serve_one_submissions [OF sym])

declare udp_serve_loop.simps [simp del]

definition udp_serve ::
  "cell_id \<Rightarrow> udp \<Rightarrow> udp_ring \<Rightarrow> ip_ring \<Rightarrow> buffer_registry \<Rightarrow> (nat \<times> udp \<times> udp_ring \<times> ip_ring \<times> buffer_registry) outcome" where
  "udp_serve own u ring ip buffers =
     (case udp_flush u ring of (served, u, ring) \<Rightarrow>
      if ud_completion u \<noteq> None then Returns (served, u, ring, ip, buffers) else
      case pump_ip u ring ip buffers of Undefined \<Rightarrow> Undefined | Returns (n, u, ring, ip, buffers) \<Rightarrow>
      if ud_completion u \<noteq> None then Returns (served + n, u, ring, ip, buffers) else
      case udp_serve_loop own u ring ip buffers (served + n) of Undefined \<Rightarrow> Undefined
      | Returns (served, u, ring, ip, buffers) \<Rightarrow> (case arm_ip u ip of (u, ip) \<Rightarrow> Returns (served, u, ring, ip, buffers)))"

section \<open>The restart boundary\<close>

record udp_state =
  us_local :: ip_addr
  us_tx :: scratch
  us_rx :: scratch

definition udp_cell_spawn :: "nat \<Rightarrow> nat \<Rightarrow> udp_state \<Rightarrow> udp_error + udp" where
  "udp_cell_spawn n q state = Inr (udp_new n q (us_local state) (us_tx state) (us_rx state))"

definition udp_cell_restart :: "udp \<Rightarrow> (udp_error + unit) \<times> udp" where
  "udp_cell_restart u = (Inr (), udp_reset u)"

end
