(* ===== verification/Udp_Requests.thy ===== *)
theory Udp_Requests
  imports Udp_Service
begin

text \<open>
  No request of the UDP service is lost or answered twice, and its use of the IP ring is orderly: every
  wake-up returns, keeps the multiset of its clients' identifiers, and keeps at most one bind, one receive
  and one send in flight below.
\<close>

section \<open>The identifiers in flight\<close>

definition udp_parked :: "udp \<Rightarrow> u64 multiset" where
  "udp_parked u = mset (map ur_id (flatten (ud_receives u))) + held us_id (ud_send u)"

definition udp_requests :: "udp \<Rightarrow> udp_ring \<Rightarrow> u64 multiset" where
  "udp_requests u ring = submitted ring + udp_parked u + held comp_id (ud_completion u) + completed ring"

text \<open>A parked send belongs to the send in flight, so accepting a new one never forgets another.\<close>

definition udp_ok :: "udp \<Rightarrow> bool" where
  "udp_ok u \<longleftrightarrow> (ud_send u \<noteq> None \<longrightarrow> ud_send_inflight u)"

definition udp_answers :: "nat \<Rightarrow> u64 multiset \<Rightarrow> udp \<Rightarrow> udp_ring \<Rightarrow> udp \<Rightarrow> udp_ring \<Rightarrow> bool" where
  "udp_answers n xs u ring u' ring' \<longleftrightarrow>
     ring_ok ring' \<and> udp_ok u' \<and> io_submissions ring' = io_submissions ring
     \<and> udp_parked u' + held comp_id (ud_completion u') + completed ring'
       = udp_parked u + held comp_id (ud_completion u) + completed ring + xs
     \<and> size (completed ring') = size (completed ring) + n"

lemma udp_answers_requests: "udp_answers n xs u ring u' ring' \<Longrightarrow> udp_requests u' ring' = udp_requests u ring + xs"
  by (simp add: udp_answers_def udp_requests_def add.assoc)

lemma udp_answers_refl: "ring_ok ring \<Longrightarrow> udp_ok u \<Longrightarrow> udp_answers 0 {#} u ring u ring"
  by (simp add: udp_answers_def)

definition udp_same :: "udp \<Rightarrow> udp \<Rightarrow> bool" where
  "udp_same u u' \<longleftrightarrow> ud_receives u' = ud_receives u \<and> ud_send u' = ud_send u \<and> ud_completion u' = ud_completion u
     \<and> ud_send_inflight u' = ud_send_inflight u"

lemma udp_same_refl [simp]: "udp_same u u"
  by (simp add: udp_same_def)

lemma udp_publish_answers:
  assumes "ring_ok ring" "udp_ok u" "ud_completion u = None" "udp_publish u ring c = (n, u', ring')"
  shows "udp_answers n {#comp_id c#} u ring u' ring'"
  using assms(1)
proof (cases rule: try_complete_cases [of ring c])
  case full
  then show ?thesis using assms by (auto simp: udp_publish_def udp_answers_def udp_parked_def udp_ok_def)
next
  case (room r)
  then show ?thesis using assms by (auto simp: udp_publish_def udp_answers_def udp_parked_def)
qed

lemma udp_flush_answers:
  assumes "ring_ok ring" "udp_ok u" "udp_flush u ring = (n, u', ring')"
  shows "udp_answers n {#} u ring u' ring'"
proof (cases "ud_completion u")
  case None
  then show ?thesis using assms by (simp add: udp_flush_def udp_answers_def)
next
  case (Some c)
  show ?thesis using assms(1)
  proof (cases rule: try_complete_cases [of ring c])
    case full
    then show ?thesis using assms Some by (auto simp: udp_flush_def udp_answers_def udp_parked_def udp_ok_def)
  next
    case (room r)
    then show ?thesis using assms Some by (auto simp: udp_flush_def udp_answers_def udp_parked_def udp_ok_def)
  qed
qed

text \<open>Publishing the answer to \<open>x\<close> from a state in which \<open>xs\<close> more are parked, none of them lost.\<close>

lemma udp_publish_after:
  assumes "ring_ok ring" "udp_publish u1 ring \<lparr>comp_id = x, comp_result = r\<rparr> = (n, u', ring')"
    and "udp_ok u1" "ud_completion u = None" "ud_completion u1 = None" "add_mset x (udp_parked u1) = udp_parked u + xs"
  shows "udp_answers n xs u ring u' ring'"
proof -
  have "udp_answers n {#x#} u1 ring u' ring'" using udp_publish_answers [OF assms(1,3,5,2)] by simp
  then show ?thesis using assms(4,5) arg_cong [OF assms(6), of "\<lambda>m. m + completed ring"]
    by (auto simp: udp_answers_def ac_simps)
qed

lemma udp_parked_take:
  "i < length (ud_receives u) \<Longrightarrow> ud_receives u ! i = Some w \<Longrightarrow>
   udp_parked u = add_mset (ur_id w) (udp_parked (u\<lparr>ud_receives := (ud_receives u)[i := None]\<rparr>))"
  using flatten_mset [of i "ud_receives u" ur_id None] by (simp add: udp_parked_def)

lemma udp_parked_put:
  "i < length (ud_receives u) \<Longrightarrow> ud_receives u ! i = None \<Longrightarrow>
   udp_parked (u\<lparr>ud_receives := (ud_receives u)[i := Some w]\<rparr>) = add_mset (ur_id w) (udp_parked u)"
  using flatten_mset [of i "ud_receives u" ur_id "Some w"] by (simp add: udp_parked_def)

section \<open>Completions from below\<close>

lemma udp_receive_cases:
  assumes "udp_receive u source len buffers = (r, u', buffers')"
  obtains (none) "r = None" "udp_same u u'"
  | (some) i w d where "r = Some (ur_id w, d)" "i < length (ud_receives u)" "ud_receives u ! i = Some w"
      "u' = u\<lparr>ud_receives := (ud_receives u)[i := None]\<rparr>"
proof (cases r)
  case None
  then have "udp_same u u'" using assms
    by (auto simp: udp_receive_def udp_same_def Let_def split: if_splits sum.splits option.splits prod.splits)
  then show thesis using none None by blast
next
  case (Some x)
  then obtain b i where i: "find_index (some_and (\<lambda>r. ur_socket r = b)) (ud_receives u) = Some i"
    and r: "fst x = ur_id (the (ud_receives u ! i))" and u': "u' = u\<lparr>ud_receives := (ud_receives u)[i := None]\<rparr>"
    using assms by (auto simp: udp_receive_def Let_def split: if_splits sum.splits option.splits prod.splits)
  obtain w where "i < length (ud_receives u)" "ud_receives u ! i = Some w"
    using find_index_SomeD [OF i] by (auto simp: some_and_iff)
  then show thesis using some [of w "snd x" i] Some r u' by (cases x) simp
qed

lemma pump_one_answers:
  assumes ring: "ring_ok ring" and ok: "udp_ok u" and free: "ud_completion u = None"
    and one: "pump_one u ring buffers c = (n, u', ring', buffers')"
  shows "udp_answers n {#} u ring u' ring'"
proof -
  consider "comp_id c = BIND_ID" | "comp_id c = RECV_ID" | "comp_id c = SEND_ID" | "comp_id c \<notin> {BIND_ID, RECV_ID, SEND_ID}" by blast
  then show ?thesis
  proof cases
    case 1
    then show ?thesis using one ring ok
      by (auto simp: pump_one_def Let_def udp_answers_def udp_parked_def udp_ok_def split: sum.splits ip_done.splits)
  next
    case 2
    let ?u = "u\<lparr>ud_recv_inflight := False\<rparr>"
    have idle: "udp_answers 0 {#} u ring u1 ring" if "udp_same ?u u1" for u1
      using that ring ok by (simp add: udp_answers_def udp_same_def udp_parked_def udp_ok_def)
    show ?thesis
    proof (cases "\<exists>source len. comp_result c = Inr (IpReceived source len)")
      case False
      then show ?thesis using one 2 idle [of ?u] by (auto simp: pump_one_def Let_def split: sum.splits ip_done.splits)
    next
      case True
      then obtain source len where res: "comp_result c = Inr (IpReceived source len)" by blast
      obtain r u1 b1 where rec: "udp_receive ?u source len buffers = (r, u1, b1)" by (metis prod_cases3)
      then show ?thesis
      proof (cases rule: udp_receive_cases)
        case none
        then show ?thesis using one 2 res rec idle by (simp add: pump_one_def Let_def)
      next
        case (some i w d)
        have "udp_parked u = add_mset (ur_id w) (udp_parked u1)"
          using udp_parked_take [of i ?u w] some by (simp add: udp_parked_def)
        then show ?thesis using one 2 res rec some ok free
          by (intro udp_publish_after [OF ring, of u1 "ur_id w" d]) (auto simp: pump_one_def Let_def udp_ok_def split: prod.splits)
      qed
    qed
  next
    case 3
    show ?thesis
    proof (cases "ud_send u")
      case None
      then show ?thesis using one 3 ring by (auto simp: pump_one_def Let_def udp_answers_def udp_parked_def udp_ok_def)
    next
      case (Some s)
      let ?u = "u\<lparr>ud_send_inflight := False, ud_send := None\<rparr>"
      obtain r where "udp_publish ?u ring \<lparr>comp_id = us_id s, comp_result = r\<rparr> = (n, u', ring')"
        using one 3 Some by (auto simp: pump_one_def Let_def split: prod.splits)
      then show ?thesis using Some free
        by (intro udp_publish_after [OF ring, of ?u "us_id s" r]) (auto simp: udp_ok_def udp_parked_def)
    qed
  next
    case 4
    then show ?thesis using one ring ok by (auto simp: pump_one_def udp_answers_refl)
  qed
qed

lemma arm_ip_same:
  assumes "arm_ip u ip = (u', ip')"
  shows "udp_same u u'" and "ring_ok ip \<Longrightarrow> ring_ok ip'" and "io_completions ip' = io_completions ip"
proof -
  have sub: "io_completions ip2 = io_completions ip" if "client_try_submit ip s = (r, ip2)" for s r ip2
    using that by (auto simp: client_try_submit_def split: prod.splits)
  show "udp_same u u'" "io_completions ip' = io_completions ip"
    using assms sub by (auto simp: arm_ip_def udp_same_def split: if_splits option.splits prod.splits sum.splits)
  show "ring_ok ip \<Longrightarrow> ring_ok ip'"
    using assms submit_ring_ok by (auto simp: arm_ip_def split: if_splits option.splits prod.splits sum.splits)
qed

lemma pump_loop_answers:
  assumes "ring_ok ring" "ring_ok ip" "udp_ok u" "ud_completion u = None"
  shows "\<exists>n u' ring' ip' buffers'. pump_loop u ring ip buffers served = Returns (served + n, u', ring', ip', buffers')
    \<and> udp_answers n {#} u ring u' ring' \<and> ring_ok ip'"
  using assms
proof (induction u ring ip buffers served rule: pump_loop.induct)
  case (1 u ring ip buffers served)
  obtain c ip1 where col: "client_try_completion ip = Returns (c, ip1)" "ring_ok ip1" using collect_ring_ok [OF "1.prems"(2)] .
  show ?case
  proof (cases c)
    case None
    then show ?thesis using col "1.prems" by (subst pump_loop.simps) (auto intro: udp_answers_refl)
  next
    case (Some x)
    obtain n1 u1 ring1 b1 where one: "pump_one u ring buffers x = (n1, u1, ring1, b1)" by (metis prod_cases4)
    note a1 = pump_one_answers [OF "1.prems"(1,3,4) one]
    show ?thesis
    proof (cases "ud_completion u1 = None")
      case False
      then show ?thesis using col Some one a1 by (subst pump_loop.simps) auto
    next
      case True
      then obtain n u' ring' ip' buffers' where
        "pump_loop u1 ring1 ip1 b1 (served + n1) = Returns (served + n1 + n, u', ring', ip', buffers')"
        "udp_answers n {#} u1 ring1 u' ring'" "ring_ok ip'"
        using "1.IH" [OF col(1) refl Some one [symmetric] refl refl] a1 col(2) by (auto simp: udp_answers_def)
      then show ?thesis using col Some one a1 True
        by (subst pump_loop.simps) (auto simp: udp_answers_def add.assoc)
    qed
  qed
qed

section \<open>Operations from above\<close>

lemma start_send_cases:
  assumes "start_send u ident socket to payload ip buffers = (r, u', ip', buffers')"
  obtains (refused) e where "r = Inl e" "u' = u"
  | (parked) n where "r = Inr None" "\<not> ud_send_inflight u"
      "u' = u\<lparr>ud_send_inflight := True, ud_send := Some \<lparr>us_id = ident, us_socket = socket, us_len = n\<rparr>\<rparr>"
proof -
  have "(\<exists>e. r = Inl e \<and> u' = u) \<or> (\<exists>n. r = Inr None \<and> \<not> ud_send_inflight u
      \<and> u' = u\<lparr>ud_send_inflight := True, ud_send := Some \<lparr>us_id = ident, us_socket = socket, us_len = n\<rparr>\<rparr>)"
    using assms by (auto simp: start_send_def split: option.splits if_splits sum.splits prod.splits)
  then show thesis using refused parked by blast
qed

lemma start_send_ring:
  "start_send u ident socket to payload ip buffers = (r, u', ip', buffers') \<Longrightarrow> ring_ok ip \<Longrightarrow> ring_ok ip'"
  by (auto simp: start_send_def split: option.splits if_splits sum.splits prod.splits dest: submit_ring_ok)

lemma map_sum_Some [simp]: "map_sum id Some x \<noteq> Inr None"
  by (cases x) simp_all

lemma start_recv_cases:
  assumes "start_recv u ident socket payload buffers = (r, u', buffers')"
  obtains (answered) "r \<noteq> Inr None" "udp_same u u'"
  | (parked) i where "r = Inr None" "i < length (ud_receives u)" "ud_receives u ! i = None"
      "u' = u\<lparr>ud_receives := (ud_receives u)[i := Some \<lparr>ur_id = ident, ur_socket = socket, ur_payload = payload\<rparr>]\<rparr>"
proof -
  have "(r \<noteq> Inr None \<and> udp_same u u') \<or> (\<exists>i. r = Inr None \<and> find_index (\<lambda>slot. slot = None) (ud_receives u) = Some i
      \<and> u' = u\<lparr>ud_receives := (ud_receives u)[i := Some \<lparr>ur_id = ident, ur_socket = socket, ur_payload = payload\<rparr>]\<rparr>)"
    using assms
    by (auto simp: start_recv_def udp_same_def Let_def split: option.splits if_splits sum.splits prod.splits)
  then show thesis using answered parked find_index_SomeD by blast
qed

lemma udp_bind_same: "udp_bind u own port = (r, u') \<Longrightarrow> udp_same u u'"
  by (auto simp: udp_bind_def udp_same_def Let_def split: if_splits prod.splits sum.splits option.splits)

lemma udp_close_same: "udp_close u socket = (r, u') \<Longrightarrow> udp_same u u'"
  by (auto simp: udp_close_def udp_same_def Let_def split: if_splits prod.splits sum.splits option.splits)

lemma udp_serve_one_answers:
  assumes ring: "ring_ok ring" and ok: "udp_ok u" "ud_completion u = None"
    and served: "udp_serve_one own u ring ip buffers s = (n, u', ring', ip', buffers')"
  shows "udp_answers n {#sub_id s#} u ring u' ring'" and "ring_ok ip \<Longrightarrow> ring_ok ip'"
proof -
  have publish: "udp_answers n {#sub_id s#} u ring u' ring'"
    if "udp_publish u1 ring \<lparr>comp_id = sub_id s, comp_result = res\<rparr> = (n, u', ring')" "udp_same u u1" for u1 res
    using udp_publish_after [OF ring that(1), of u "{#sub_id s#}"] that(2) ok by (simp add: udp_same_def udp_ok_def udp_parked_def)
  have "udp_answers n {#sub_id s#} u ring u' ring' \<and> (ring_ok ip \<longrightarrow> ring_ok ip')"
  proof (cases "sub_op s")
    case (UdpBind port)
    then show ?thesis using served publish [OF _ udp_bind_same] by (auto simp: udp_serve_one_def Let_def split: prod.splits)
  next
    case (UdpSend socket to payload)
    obtain r u1 ip1 b1 where st: "start_send u (sub_id s) socket to payload ip buffers = (r, u1, ip1, b1)" by (metis prod_cases4)
    show ?thesis using st
    proof (cases rule: start_send_cases)
      case (refused e)
      then show ?thesis using served UdpSend st publish start_send_ring [OF st]
        by (auto simp: udp_serve_one_def Let_def split: prod.splits)
    next
      case (parked k)
      then have "ud_send u = None" using ok by (auto simp: udp_ok_def)
      then show ?thesis using served UdpSend st parked ring start_send_ring [OF st]
        by (auto simp: udp_serve_one_def Let_def udp_answers_def udp_parked_def udp_ok_def)
    qed
  next
    case (UdpRecv socket payload)
    obtain r u1 b1 where st: "start_recv u (sub_id s) socket payload buffers = (r, u1, b1)" by (metis prod_cases3)
    show ?thesis using st
    proof (cases rule: start_recv_cases)
      case answered
      then show ?thesis using served UdpRecv st publish
        by (auto simp: udp_serve_one_def Let_def split: prod.splits sum.splits option.splits)
    next
      case (parked i)
      then show ?thesis using served UdpRecv st ring ok udp_parked_put [of i u]
        by (auto simp: udp_serve_one_def Let_def udp_answers_def udp_ok_def)
    qed
  next
    case (UdpClose socket)
    then show ?thesis using served publish [OF _ udp_close_same] by (auto simp: udp_serve_one_def Let_def split: prod.splits)
  qed
  then show "udp_answers n {#sub_id s#} u ring u' ring'" and "ring_ok ip \<Longrightarrow> ring_ok ip'" by simp_all
qed

section \<open>Serving\<close>

lemma udp_serve_loop_conserves:
  assumes "ring_ok ring" "ring_ok ip" "udp_ok u" "ud_completion u = None"
  shows "\<exists>n u' ring' ip' buffers'. udp_serve_loop own u ring ip buffers served = Returns (served + n, u', ring', ip', buffers')
    \<and> ring_ok ring' \<and> ring_ok ip' \<and> udp_ok u' \<and> udp_requests u' ring' = udp_requests u ring
    \<and> size (completed ring') = size (completed ring) + n
    \<and> (spsc_contents (io_submissions ring') = [] \<or> ud_completion u' \<noteq> None)"
  using assms
proof (induction own u ring ip buffers served rule: udp_serve_loop.induct)
  case (1 own u ring ip buffers served)
  show ?case using "1.prems"(1)
  proof (cases rule: try_next_cases [of ring])
    case empty
    then show ?thesis using "1.prems" by (subst udp_serve_loop.simps) simp
  next
    case (taken s ring1)
    obtain n1 u1 ring2 ip1 b1 where one: "udp_serve_one own u ring1 ip buffers s = (n1, u1, ring2, ip1, b1)" by (metis prod_cases5)
    note step = udp_serve_one_answers [OF taken(2) "1.prems"(3,4) one]
    have facts: "udp_requests u1 ring2 = udp_requests u ring" "size (completed ring2) = size (completed ring) + n1"
      "ring_ok ring2" "udp_ok u1" "ring_ok ip1"
      using udp_answers_requests [OF step(1)] step(1) step(2) [OF "1.prems"(2)] taken(3,4)
      by (simp_all add: udp_answers_def udp_requests_def)
    show ?thesis
    proof (cases "ud_completion u1 = None")
      case False
      then show ?thesis using taken(1) one facts by (subst udp_serve_loop.simps) auto
    next
      case True
      then obtain n u' ring' ip' buffers' where
        "udp_serve_loop own u1 ring2 ip1 b1 (served + n1) = Returns (served + n1 + n, u', ring', ip', buffers')"
        "ring_ok ring'" "ring_ok ip'" "udp_ok u'" "udp_requests u' ring' = udp_requests u1 ring2"
        "size (completed ring') = size (completed ring2) + n" "spsc_contents (io_submissions ring') = [] \<or> ud_completion u' \<noteq> None"
        using "1.IH" [OF taken(1) refl refl one [symmetric] refl refl refl] facts by auto
      then show ?thesis using taken(1) one facts True by (subst udp_serve_loop.simps) (auto simp: add.assoc)
    qed
  qed
qed

lemma udp_requests_same: "udp_same u u' \<Longrightarrow> udp_requests u' ring = udp_requests u ring \<and> udp_ok u' = udp_ok u"
  by (simp add: udp_same_def udp_requests_def udp_parked_def udp_ok_def)

lemma pump_ip_answers:
  assumes "ring_ok ring" "ring_ok ip" "udp_ok u" "ud_completion u = None"
  obtains n u' ring' ip' buffers' where "pump_ip u ring ip buffers = Returns (n, u', ring', ip', buffers')"
    "ring_ok ring'" "ring_ok ip'" "udp_ok u'" "udp_requests u' ring' = udp_requests u ring"
    "size (completed ring') = size (completed ring) + n"
proof -
  obtain n u1 ring1 ip1 b1 where l: "pump_loop u ring ip buffers 0 = Returns (n, u1, ring1, ip1, b1)"
    "udp_answers n {#} u ring u1 ring1" "ring_ok ip1"
    using pump_loop_answers [OF assms, of buffers 0] by auto
  obtain u2 ip2 where a: "arm_ip u1 ip1 = (u2, ip2)" by fastforce
  show thesis
    using that [of n u2 ring1 ip2 b1] l a arm_ip_same [OF a] udp_requests_same udp_answers_requests [OF l(2)]
    by (auto simp: pump_ip_def udp_answers_def)
qed

text \<open>
  C11. One turn of the UDP service neither loses nor duplicates a request of a client: each one
  queued, waiting or in flight before is afterwards still so, or answered, exactly once.
\<close>

theorem udp_serve_conserves:
  assumes "ring_ok ring" and "ring_ok ip" and "udp_ok u"
  shows "\<exists>n u' ring' ip' buffers'. udp_serve own u ring ip buffers = Returns (n, u', ring', ip', buffers')
    \<and> ring_ok ring' \<and> ring_ok ip' \<and> udp_ok u' \<and> udp_requests u' ring' = udp_requests u ring
    \<and> size (completed ring') = size (completed ring) + n
    \<and> (spsc_contents (io_submissions ring') = [] \<or> ud_completion u' \<noteq> None)"
proof -
  obtain n1 u1 ring1 where f: "udp_flush u ring = (n1, u1, ring1)" by (metis prod_cases3)
  note a1 = udp_flush_answers [OF assms(1,3) f]
  then have ok1: "ring_ok ring1" "udp_ok u1" "udp_requests u1 ring1 = udp_requests u ring"
    "size (completed ring1) = size (completed ring) + n1"
    using udp_answers_requests [OF a1] by (simp_all add: udp_answers_def)
  show ?thesis
  proof (cases "ud_completion u1 = None")
    case False
    then show ?thesis using f ok1 assms(2) by (auto simp: udp_serve_def)
  next
    case free: True
    obtain n2 u2 ring2 ip2 b2 where p: "pump_ip u1 ring1 ip buffers = Returns (n2, u2, ring2, ip2, b2)"
      and ok2: "ring_ok ring2" "ring_ok ip2" "udp_ok u2" "udp_requests u2 ring2 = udp_requests u1 ring1"
        "size (completed ring2) = size (completed ring1) + n2"
      using pump_ip_answers [OF ok1(1) assms(2) ok1(2) free] .
    show ?thesis
    proof (cases "ud_completion u2 = None")
      case False
      then show ?thesis using f p free ok1 ok2 by (auto simp: udp_serve_def)
    next
      case True
      obtain n3 u3 ring3 ip3 b3 where l: "udp_serve_loop own u2 ring2 ip2 b2 (n1 + n2) = Returns (n1 + n2 + n3, u3, ring3, ip3, b3)"
        and ok3: "ring_ok ring3" "ring_ok ip3" "udp_ok u3" "udp_requests u3 ring3 = udp_requests u2 ring2"
          "size (completed ring3) = size (completed ring2) + n3" "spsc_contents (io_submissions ring3) = [] \<or> ud_completion u3 \<noteq> None"
        using udp_serve_loop_conserves [OF ok2(1-3) True, of own b2 "n1 + n2"] by auto
      obtain u4 ip4 where a: "arm_ip u3 ip3 = (u4, ip4)" by fastforce
      show ?thesis using f p free True l a ok1 ok2 ok3 arm_ip_same [OF a] udp_requests_same [of u3 u4 ring3]
        by (auto simp: udp_serve_def udp_same_def)
    qed
  qed
qed

theorem udp_serve_conserves_witness:
  "\<exists>n u' ring' ip' buffers'. udp_serve 7
      (udp_new 2 2 (V4 [10, 0, 0, 1]) \<lparr>sc_read = sample_range 0 8, sc_write = sample_range 0 8\<rparr> \<lparr>sc_read = sample_range 8 8, sc_write = sample_range 8 8\<rparr>)
      (io_new 4) (io_new 4) (sample_buffers (replicate 16 0)) = Returns (n, u', ring', ip', buffers') \<and> udp_ok u'"
proof -
  have "ring_ok (io_new 4 :: udp_ring)" by (simp add: ring_ok_def io_new_def spsc_new_inv)
  moreover have "udp_ok (udp_new 2 2 local tx rx)" for local tx rx by (simp add: udp_ok_def udp_new_def)
  ultimately show ?thesis using udp_serve_conserves [OF _ sample_ring] by blast
qed

end
