(* ===== verification/Udp_Delivery.thy ===== *)
theory Udp_Delivery
  imports Udp_Requests
begin

text \<open>
  What becomes of a datagram. What \<open>emit\<close> writes, \<open>parse\<close> reads, checksum included. A client's send,
  through the UDP and IP services of its host, over the link, and through the IP and UDP services of the
  peer, ends in the buffer of the client that waits on the port it was sent to.
\<close>

section \<open>The datagram on the wire\<close>

lemma compute_parts_ones:
  assumes "even (length xs)" and "length xs + length ys + 2 \<le> 2 ^ 17"
    and "concat parts = xs @ [0, 0] @ ys" and "concat parts' = xs @ be_bytes 2 65535 @ ys" and "compute_parts parts = 0"
  shows "compute_parts parts' = 0"
proof -
  have s: "word_sum (concat parts) = word_sum xs + word_sum ys"
    using assms(1,3) by (simp add: word_sum_append be_value_two)
  have "word_sum (be_bytes 2 65535 @ ys) = 65535 + word_sum ys" by (simp add: be_bytes_two be_value_two)
  then have t: "word_sum (concat parts') = word_sum (concat parts) + 65535" using assms(1,4) s by (simp add: word_sum_append)
  have "65535 dvd word_sum (concat parts)" using assms(2,3,5) compute_parts_zero [of parts] by simp
  then show ?thesis using assms(2,4) t by (subst compute_parts_zero) auto
qed

text \<open>A sum of zero is sent as its other representation, zero being no checksum at all.\<close>

definition udp_field :: "nat \<Rightarrow> nat" where
  "udp_field c = (if c = 0 then 65535 else c)"

lemma over_ipv4_sent:
  assumes "length src = 4" "length dst = 4" "even (length xs)" "length xs + length ys < 2 ^ 16"
  shows "over_ipv4 src dst proto (xs @ be_bytes 2 (udp_field (over_ipv4 src dst proto (xs @ [0, 0] @ ys))) @ ys) = 0"
proof (cases "over_ipv4 src dst proto (xs @ [0, 0] @ ys) = 0")
  case True
  then have c: "compute_parts [src @ dst @ [0, proto] @ be_bytes 2 (length (xs @ [0, 0] @ ys)), xs @ [0, 0] @ ys] = 0"
    by (simp only: over_ipv4_parts [OF assms(1,2)])
  have "over_ipv4 src dst proto (xs @ be_bytes 2 65535 @ ys) = 0"
    unfolding over_ipv4_parts [OF assms(1,2)]
    by (rule compute_parts_ones [OF _ _ _ _ c, of "src @ dst @ [0, proto] @ be_bytes 2 (length xs + 2 + length ys) @ xs" ys])
      (use assms in simp_all)
  then show ?thesis unfolding True by (simp add: udp_field_def)
next
  case False
  then show ?thesis using over_ipv4_sealed [OF assms] by (simp add: udp_field_def)
qed

lemma over_ipv6_sent:
  assumes "length src = 16" "length dst = 16" "even (length xs)" "length xs + length ys < 2 ^ 16"
  shows "over_ipv6 src dst proto (xs @ be_bytes 2 (udp_field (over_ipv6 src dst proto (xs @ [0, 0] @ ys))) @ ys) = 0"
proof (cases "over_ipv6 src dst proto (xs @ [0, 0] @ ys) = 0")
  case True
  then have c: "compute_parts [src @ dst @ be_bytes 4 (length (xs @ [0, 0] @ ys)) @ [0, 0, 0, proto], xs @ [0, 0] @ ys] = 0"
    by (simp only: over_ipv6_parts [OF assms(1,2)])
  have "over_ipv6 src dst proto (xs @ be_bytes 2 65535 @ ys) = 0"
    unfolding over_ipv6_parts [OF assms(1,2)]
    by (rule compute_parts_ones [OF _ _ _ _ c, of "src @ dst @ be_bytes 4 (length xs + 2 + length ys) @ [0, 0, 0, proto] @ xs" ys])
      (use assms in simp_all)
  then show ?thesis unfolding True by (simp add: udp_field_def)
next
  case False
  then show ?thesis using over_ipv6_sealed [OF assms] by (simp add: udp_field_def)
qed

fun same_family :: "ip_addr \<Rightarrow> ip_addr \<Rightarrow> bool" where
  "same_family (V4 a) (V4 b) \<longleftrightarrow> length a = 4 \<and> length b = 4"
| "same_family (V6 a) (V6 b) \<longleftrightarrow> length a = 16 \<and> length b = 16"
| "same_family a b \<longleftrightarrow> False"

definition datagram_fits :: "datagram \<Rightarrow> bool" where
  "datagram_fits d \<longleftrightarrow> same_family (ep_addr (dg_src d)) (ep_addr (dg_dst d))
     \<and> ep_port (dg_src d) < 2 ^ 16 \<and> ep_port (dg_dst d) < 2 ^ 16 \<and> 8 + length (dg_payload d) < 2 ^ 16"

lemma udp_checksum_sent:
  assumes "same_family src dst" "even (length xs)" "length xs + length ys < 2 ^ 16"
  obtains c where "udp_checksum src dst (xs @ [0, 0] @ ys) = Inr c" "c < 2 ^ 16"
    "udp_checksum src dst (xs @ be_bytes 2 (udp_field c) @ ys) = Inr 0"
proof (cases "(src, dst)" rule: same_family.cases)
  case (1 a b)
  have "over_ipv4 a b UDP_PROTOCOL (xs @ [0, 0] @ ys) < 2 ^ 16"
    using assms 1 by (subst over_ipv4_parts) (auto simp: compute_parts_value)
  then show thesis using that [of "over_ipv4 a b UDP_PROTOCOL (xs @ [0, 0] @ ys)"] 1 assms over_ipv4_sent [of a b xs ys UDP_PROTOCOL]
    by (simp add: udp_checksum_def)
next
  case (2 a b)
  have "over_ipv6 a b UDP_PROTOCOL (xs @ [0, 0] @ ys) < 2 ^ 16"
    using assms 2 by (subst over_ipv6_parts) (auto simp: compute_parts_value)
  then show thesis using that [of "over_ipv6 a b UDP_PROTOCOL (xs @ [0, 0] @ ys)"] 2 assms over_ipv6_sent [of a b xs ys UDP_PROTOCOL]
    by (simp add: udp_checksum_def)
qed (use assms in auto)

lemma udp_parse_image:
  assumes "datagram_fits d" "k \<noteq> 0" "k < 2 ^ 16"
    and "udp_checksum (ep_addr (dg_src d)) (ep_addr (dg_dst d)) ((be_bytes 2 (ep_port (dg_src d)) @ be_bytes 2 (ep_port (dg_dst d))
      @ be_bytes 2 (8 + length (dg_payload d))) @ be_bytes 2 k @ dg_payload d) = Inr 0"
  shows "udp_parse (ep_addr (dg_src d)) (ep_addr (dg_dst d)) ((be_bytes 2 (ep_port (dg_src d)) @ be_bytes 2 (ep_port (dg_dst d))
      @ be_bytes 2 (8 + length (dg_payload d))) @ be_bytes 2 k @ dg_payload d) = Inr d"
proof -
  have "d = \<lparr>dg_src = \<lparr>ep_addr = ep_addr (dg_src d), ep_port = ep_port (dg_src d)\<rparr>,
      dg_dst = \<lparr>ep_addr = ep_addr (dg_dst d), ep_port = ep_port (dg_dst d)\<rparr>, dg_payload = dg_payload d\<rparr>" by simp
  moreover have "8 + length (dg_payload d) < 65536" "ep_port (dg_src d) < 65536" "ep_port (dg_dst d) < 65536"
    using assms(1) by (simp_all add: datagram_fits_def)
  ultimately show ?thesis using assms(2-4) by (simp add: udp_parse_def)
qed

lemma udp_emitted:
  assumes "datagram_fits d" "8 + length (dg_payload d) \<le> length bytes"
  obtains out where "udp_emit d bytes = (Inr (8 + length (dg_payload d)), out)" "length out = length bytes"
    "udp_parse (ep_addr (dg_src d)) (ep_addr (dg_dst d)) (take (8 + length (dg_payload d)) out) = Inr d"
proof -
  let ?n = "8 + length (dg_payload d)"
  let ?xs = "be_bytes 2 (ep_port (dg_src d)) @ be_bytes 2 (ep_port (dg_dst d)) @ be_bytes 2 ?n"
  have family: "same_family (ep_addr (dg_src d)) (ep_addr (dg_dst d))" using assms(1) by (simp add: datagram_fits_def)
  obtain c where c: "udp_checksum (ep_addr (dg_src d)) (ep_addr (dg_dst d)) (?xs @ [0, 0] @ dg_payload d) = Inr c" "c < 2 ^ 16"
    and sealed: "udp_checksum (ep_addr (dg_src d)) (ep_addr (dg_dst d)) (?xs @ be_bytes 2 (udp_field c) @ dg_payload d) = Inr 0"
    using udp_checksum_sent [OF family, of ?xs "dg_payload d"] assms(1) by (auto simp: datagram_fits_def)
  let ?out = "?xs @ be_bytes 2 (udp_field c) @ dg_payload d @ drop ?n bytes"
  have emitted: "udp_emit d bytes = (Inr ?n, ?out)"
    using assms c(1) by (simp add: udp_emit_def Let_def put_be_def datagram_fits_def add.commute udp_field_def)
  have parsed: "udp_parse (ep_addr (dg_src d)) (ep_addr (dg_dst d)) (?xs @ be_bytes 2 (udp_field c) @ dg_payload d) = Inr d"
    using udp_parse_image [OF assms(1) _ _ sealed] c(2) by (simp add: udp_field_def)
  show thesis
    using that [OF emitted] parsed assms(2) by simp
qed

section \<open>From client to client\<close>

text \<open>A scratch buffer with room for \<open>n\<close> bytes: its two views are of one registered buffer.\<close>

definition scratch_ok :: "scratch \<Rightarrow> buffer_registry \<Rightarrow> nat \<Rightarrow> bool" where
  "scratch_ok sc buffers n \<longleftrightarrow>
     bo_offset (sc_write sc) = 0 \<and> capability_index (bo_buffer (sc_read sc)) = capability_index (bo_buffer (sc_write sc))
     \<and> n \<le> bo_len (sc_write sc) \<and> n \<le> bo_len (sc_read sc)
     \<and> (\<exists>bytes. table_get WRITE buffers (bo_buffer (sc_write sc)) = Inr bytes
          \<and> table_get READ buffers (bo_buffer (sc_read sc)) = Inr bytes \<and> bo_len (sc_write sc) \<le> length bytes \<and> length bytes < u64_limit)"

lemma scratch_registered:
  assumes "table_get READ_WRITE buffers c = Inr bytes" "len \<le> length bytes" "length bytes < u64_limit"
  obtains sc where "scratch_from_registered c len buffers = Inr sc" "scratch_ok sc buffers len"
proof -
  let ?s = "buffers ! capability_index c"
  have slot: "capability_index c < length buffers" "generation ?s = capability_generation c" "resource ?s = Some bytes"
    "rights_contains (slot_rights ?s) READ_WRITE"
    using assms(1) by (auto simp: table_get_eq split: option.splits if_splits)
  have sub: "rights_contains (slot_rights ?s) READ" "rights_contains (slot_rights ?s) WRITE"
    using slot(4) rights_contains_trans sample_rights by blast+
  let ?op = "\<lparr>bo_buffer = c, bo_offset = 0, bo_len = len\<rparr>"
  have "scratch_from_registered c len buffers = Inr \<lparr>sc_read = ?op, sc_write = ?op\<rparr>"
    using slot sub by (simp add: scratch_from_registered_def read_capability_def write_capability_def table_attenuate_def table_validate_def)
  moreover have "scratch_ok \<lparr>sc_read = ?op, sc_write = ?op\<rparr> buffers len"
    using slot sub assms(2,3) by (simp add: scratch_ok_def table_get_eq)
  ultimately show thesis using that by blast
qed

lemma submitted_room:
  assumes "ring_ok ring" "spsc_count (io_submissions ring) < spsc_capacity (io_submissions ring)"
  obtains ring' where "client_try_submit ring s = (Inr (), ring')" "ring_ok ring'"
    "spsc_contents (io_submissions ring') = spsc_contents (io_submissions ring) @ [s]"
  using spsc_push_accepted [of "io_submissions ring" s] assms that
  by (fastforce simp: client_try_submit_def ring_ok_def)

text \<open>Writing all of a buffer's front through one view and reading it back through the other.\<close>

lemma scratch_written:
  assumes "scratch_ok sc buffers n" and "table_get WRITE buffers (bo_buffer (sc_write sc)) = Inr bytes"
    and "f (take (bo_len (sc_write sc)) bytes) = (x, out)" and "length out = bo_len (sc_write sc)"
  obtains buffers' where "resolve_write f buffers (sc_write sc) = (Inr x, buffers')"
    "\<And>m. m \<le> bo_len (sc_write sc) \<Longrightarrow>
       resolve_read buffers' \<lparr>bo_buffer = bo_buffer (sc_read sc), bo_offset = 0, bo_len = m\<rparr> = Inr (take m out)"
    "\<And>v d. capability_index d \<noteq> capability_index (bo_buffer (sc_write sc)) \<Longrightarrow> table_get v buffers' d = table_get v buffers d"
proof -
  have sc: "bo_offset (sc_write sc) = 0" "capability_index (bo_buffer (sc_read sc)) = capability_index (bo_buffer (sc_write sc))"
    "table_get READ buffers (bo_buffer (sc_read sc)) = Inr bytes" "bo_len (sc_write sc) \<le> length bytes" "length bytes < u64_limit"
    using assms(1,2) by (auto simp: scratch_ok_def)
  have range: "buffer_range bytes (bo_offset (sc_write sc)) (bo_len (sc_write sc)) = Inr (take (bo_len (sc_write sc)) bytes)"
    using sc by (simp add: buffer_range_Inr sub_slice_def)
  obtain buffers' where wr: "resolve_write f buffers (sc_write sc) = (Inr x, buffers')"
    using assms(2,3) range by (cases rule: resolve_write_cases [of buffers "sc_write sc" f]) auto
  obtain target' where other: "\<And>v c. capability_index c \<noteq> capability_index (bo_buffer (sc_write sc)) \<Longrightarrow> table_get v buffers' c = table_get v buffers c"
    and same: "\<And>v c. capability_index c = capability_index (bo_buffer (sc_write sc)) \<Longrightarrow>
       table_get v buffers' c = map_sum id (put_slice (bo_offset (sc_write sc)) target') (table_get v buffers c)"
    and target': "target' = out"
    using resolve_write_table [OF wr] assms(2,3) range by (metis Inr_inject Pair_inject)
  have rd: "table_get READ buffers' (bo_buffer (sc_read sc)) = Inr (out @ drop (length out) bytes)"
    using same [OF sc(2), of READ] sc(1,3) target' by simp
  have "resolve_read buffers' \<lparr>bo_buffer = bo_buffer (sc_read sc), bo_offset = 0, bo_len = m\<rparr> = Inr (take m out)"
    if "m \<le> bo_len (sc_write sc)" for m
    using that rd sc(4,5) assms(4) by (simp add: resolve_read_def buffer_range_Inr sub_slice_def)
  then show thesis using that wr other by blast
qed

definition udp_can_send :: "udp \<Rightarrow> nat \<Rightarrow> capability \<Rightarrow> capability \<Rightarrow> ip_ring \<Rightarrow> buffer_registry \<Rightarrow> byte list \<Rightarrow> bool" where
  "udp_can_send u port endpoint socket ip buffers data \<longleftrightarrow>
     ud_endpoint u = Some endpoint \<and> \<not> ud_send_inflight u \<and> table_get READ_WRITE (ud_sockets u) socket = Inr port
     \<and> length data \<le> 1452 \<and> scratch_ok (ud_tx u) buffers (8 + length data)
     \<and> ring_ok ip \<and> spsc_count (io_submissions ip) < spsc_capacity (io_submissions ip)"

lemma start_send_submits:
  assumes can: "udp_can_send u port endpoint socket ip buffers data" and data: "resolve_read buffers payload = Inr data"
    and fits: "datagram_fits \<lparr>dg_src = \<lparr>ep_addr = ud_local u, ep_port = port\<rparr>, dg_dst = to, dg_payload = data\<rparr>"
  obtains u' ip' buffers' bytes rd where
    "start_send u ident socket to payload ip buffers = (Inr None, u', ip', buffers')"
    "spsc_contents (io_submissions ip') = spsc_contents (io_submissions ip) @ [\<lparr>sub_id = SEND_ID, sub_op = IpSend endpoint (ep_addr to) rd\<rparr>]"
    "resolve_read buffers' rd = Inr bytes" "length bytes = 8 + length data"
    "udp_parse (ud_local u) (ep_addr to) bytes = Inr \<lparr>dg_src = \<lparr>ep_addr = ud_local u, ep_port = port\<rparr>, dg_dst = to, dg_payload = data\<rparr>"
proof -
  let ?d = "\<lparr>dg_src = \<lparr>ep_addr = ud_local u, ep_port = port\<rparr>, dg_dst = to, dg_payload = data\<rparr>"
  let ?w = "sc_write (ud_tx u)"
  have sc: "scratch_ok (ud_tx u) buffers (8 + length data)" using can by (simp add: udp_can_send_def)
  then obtain mem where mem: "table_get WRITE buffers (bo_buffer ?w) = Inr mem" "8 + length data \<le> bo_len ?w" "bo_len ?w \<le> length mem"
    by (auto simp: scratch_ok_def)
  obtain out where out: "udp_emit ?d (take (bo_len ?w) mem) = (Inr (8 + length data), out)" "length out = bo_len ?w"
    "udp_parse (ud_local u) (ep_addr to) (take (8 + length data) out) = Inr ?d"
    using udp_emitted [OF fits, of "take (bo_len ?w) mem"] mem by auto
  obtain buffers' where wr: "resolve_write (udp_emit ?d) buffers ?w = (Inr (Inr (8 + length data)), buffers')"
    "resolve_read buffers' \<lparr>bo_buffer = bo_buffer (sc_read (ud_tx u)), bo_offset = 0, bo_len = 8 + length data\<rparr> = Inr (take (8 + length data) out)"
    using scratch_written [where f = "udp_emit ?d", OF sc mem(1) out(1,2)] mem(2) by metis
  let ?s = "\<lparr>sub_id = SEND_ID, sub_op = IpSend endpoint (ep_addr to)
      \<lparr>bo_buffer = bo_buffer (sc_read (ud_tx u)), bo_offset = 0, bo_len = 8 + length data\<rparr>\<rparr>"
  obtain ip' where sub: "client_try_submit ip ?s = (Inr (), ip')"
    "spsc_contents (io_submissions ip') = spsc_contents (io_submissions ip) @ [?s]"
    using submitted_room [of ip ?s] can by (auto simp: udp_can_send_def)
  show thesis
    using that [OF _ sub(2) wr(2) _ out(3)] can data wr(1) sub(1) out(2) mem(2) by (simp add: start_send_def udp_can_send_def)
qed

text \<open>A client of the peer that waits on the port a datagram is for, with room for \<open>n\<close> bytes.\<close>

definition udp_waits :: "udp \<Rightarrow> nat \<Rightarrow> nat \<Rightarrow> udp_waiting \<Rightarrow> buffer_registry \<Rightarrow> nat \<Rightarrow> bool" where
  "udp_waits v port j r buffers n \<longleftrightarrow>
     (\<exists>b. List.find (\<lambda>b. ub_port b = port) (flatten (ud_bound v)) = Some b
        \<and> find_index (some_and (\<lambda>r. ur_socket r = ub_socket b)) (ud_receives v) = Some j)
     \<and> ud_receives v ! j = Some r \<and> n \<le> bo_len (ur_payload r)
     \<and> (\<exists>bytes. table_get WRITE buffers (bo_buffer (ur_payload r)) = Inr bytes
          \<and> bo_offset (ur_payload r) + bo_len (ur_payload r) \<le> length bytes \<and> length bytes < u64_limit)"

lemma udp_receive_delivers:
  assumes waits: "udp_waits v port j r buffers (length data)" and len: "n = 8 + length data" "n \<le> 1480" "n \<le> bo_len (sc_read (ud_rx v))"
    and rx: "resolve_read buffers \<lparr>bo_buffer = bo_buffer (sc_read (ud_rx v)), bo_offset = 0, bo_len = n\<rparr> = Inr bytes"
    and dg: "udp_parse source (ud_local v) bytes = Inr \<lparr>dg_src = from, dg_dst = to, dg_payload = data\<rparr>" "ep_port to = port"
    and rd: "table_get READ buffers c = Inr cbytes" "capability_index c = capability_index (bo_buffer (ur_payload r))"
  obtains buffers' where
    "udp_receive v source n buffers =
       (Some (ur_id r, Inr (UdpReceived from (length data))), v\<lparr>ud_receives := (ud_receives v)[j := None]\<rparr>, buffers')"
    "resolve_read buffers' \<lparr>bo_buffer = c, bo_offset = bo_offset (ur_payload r), bo_len = length data\<rparr> = Inr data"
proof -
  let ?bytes = "put_slice 0 data (replicate MAX_PAYLOAD 0)"
  obtain b where b: "List.find (\<lambda>b. ub_port b = port) (flatten (ud_bound v)) = Some b"
      "find_index (some_and (\<lambda>r. ur_socket r = ub_socket b)) (ud_receives v) = Some j"
    and r: "ud_receives v ! j = Some r" "length data \<le> bo_len (ur_payload r)"
    using waits by (auto simp: udp_waits_def)
  obtain mem where mem: "table_get WRITE buffers (bo_buffer (ur_payload r)) = Inr mem"
    "bo_offset (ur_payload r) + bo_len (ur_payload r) \<le> length mem" "length mem < u64_limit"
    using waits by (auto simp: udp_waits_def)
  have take: "take (length data) ?bytes = data" by simp
  obtain buffers' where wr: "resolve_write (\<lambda>target. ((), put_slice 0 data target)) buffers (ur_payload r) = (Inr (), buffers')"
    "table_get READ buffers' c = Inr (put_slice (bo_offset (ur_payload r)) data cbytes)"
    using payload_written [OF mem r(2)] rd by metis
  have "udp_receive v source n buffers =
       (Some (ur_id r, Inr (UdpReceived from (length data))), v\<lparr>ud_receives := (ud_receives v)[j := None]\<rparr>, buffers')"
    using len rx dg b r take wr(1) by (simp add: udp_receive_def udp_deliver_def Let_def)
  moreover have "length cbytes = length mem" using table_get_resource [OF rd(1)] table_get_resource [OF mem(1)] rd(2) by simp
  then have "resolve_read buffers' \<lparr>bo_buffer = c, bo_offset = bo_offset (ur_payload r), bo_len = length data\<rparr> = Inr data"
    using wr(2) mem(2,3) r(2) by (simp add: resolve_read_def buffer_range_Inr put_slice_length slice_put_slice)
  ultimately show thesis using that by blast
qed


text \<open>
  Two hosts with a client each. A host's first buffer is its client's, the second its UDP service's
  scratch; the first host's client owns port 9, the second one's waits on port 53.
\<close>

definition scratch_cap :: capability where
  "scratch_cap = capability_new 1 1"

definition sample_memory :: "byte list \<Rightarrow> buffer_registry" where
  "sample_memory bytes = snd (register READ_WRITE (snd (register READ_WRITE (buffers_new 2) 7 bytes)) 8 (replicate 16 0))"

definition sample_scratch :: scratch where
  "sample_scratch = \<lparr>sc_read = \<lparr>bo_buffer = scratch_cap, bo_offset = 0, bo_len = 16\<rparr>, sc_write = \<lparr>bo_buffer = scratch_cap, bo_offset = 0, bo_len = 16\<rparr>\<rparr>"

definition sample_udp :: "byte \<Rightarrow> udp" where
  "sample_udp x = udp_new 1 1 (V4 [10, 0, 0, x]) sample_scratch sample_scratch"

definition udp_sender :: udp where
  "udp_sender = (snd (udp_bind (sample_udp 1) 7 9))\<lparr>ud_endpoint := Some sample_cap\<rparr>"

definition udp_receiver :: udp where
  "udp_receiver = fst (snd (start_recv (snd (udp_bind (sample_udp 2) 7 53)) 5 sample_cap (sample_range 2 6) (buffers_new 2)))"

definition udp_link_receiver :: "unit ip" where
  "udp_link_receiver = snd (ip_wait (snd (ip_bind (sample_host 2) 8 17)) 1 sample_cap (sc_write sample_scratch))"

lemma sample_memory_get:
  assumes "rights_contains READ_WRITE v"
  shows "table_get v (sample_memory bytes) sample_cap = Inr bytes" "table_get v (sample_memory bytes) scratch_cap = Inr (replicate 16 0)"
proof -
  have i: "capability_index sample_cap = 0" "capability_generation sample_cap = 1" "capability_index scratch_cap = 1" "capability_generation scratch_cap = 1"
    by code_simp+
  have "sample_memory bytes = [\<lparr>generation = 1, owner = 7, slot_rights = READ_WRITE, resource = Some bytes\<rparr>,
      \<lparr>generation = 1, owner = 8, slot_rights = READ_WRITE, resource = Some (replicate 16 0)\<rparr>]"
    by (simp add: sample_memory_def register_def buffers_new_def table_insert_def table_new_def slot_empty_def numeral_2_eq_2)
  then show "table_get v (sample_memory bytes) sample_cap = Inr bytes" "table_get v (sample_memory bytes) scratch_cap = Inr (replicate 16 0)"
    using assms by (simp_all add: table_get_eq i)
qed

lemma sample_index: "capability_index sample_cap = 0" "capability_index scratch_cap = 1"
  by code_simp+

lemma sample_scratch_ok: "scratch_ok sample_scratch (sample_memory bytes) 11"
  by (simp add: scratch_ok_def sample_scratch_def sample_memory_get)

lemma udp_sender_facts:
  "ud_endpoint udp_sender = Some sample_cap" "\<not> ud_send_inflight udp_sender" "table_get READ_WRITE (ud_sockets udp_sender) sample_cap = Inr 9"
  "ud_tx udp_sender = sample_scratch" "ud_local udp_sender = V4 [10, 0, 0, 1]"
  by code_simp+

lemma udp_receiver_facts:
  "ud_rx udp_receiver = sample_scratch" "ud_local udp_receiver = V4 [10, 0, 0, 2]"
  "ud_receives udp_receiver = [Some \<lparr>ur_id = 5, ur_socket = sample_cap, ur_payload = sample_range 2 6\<rparr>]"
  "ud_bound udp_receiver = [Some \<lparr>ub_port = 53, ub_socket = sample_cap\<rparr>]"
  by code_simp+

lemma udp_link_receiver_facts:
  "find_index (some_and (waits_for (ip_protocols udp_link_receiver) 17)) (ip_receives udp_link_receiver) = Some 0"
  "ip_receives udp_link_receiver = [Some \<lparr>rx_id = 1, rx_endpoint = sample_cap, rx_payload = sc_write sample_scratch\<rparr>]"
  "ip_completion udp_link_receiver = None" "ip_config udp_link_receiver = ip_config sample_receiver"
  by code_simp+

lemma sample_ring_room:
  "spsc_count (io_completions (io_new 4)) < spsc_capacity (io_completions (io_new 4))"
  "spsc_count (io_submissions (io_new 4)) < spsc_capacity (io_submissions (io_new 4))"
  by (simp_all add: io_new_def spsc_count_def spsc_new_def spsc_capacity_def)

lemma udp_sender_can: "udp_can_send udp_sender 9 sample_cap sample_cap (io_new 4) (sample_memory bytes) [1, 2, 3]"
  using sample_ring sample_ring_room sample_scratch_ok [of bytes] by (simp add: udp_can_send_def udp_sender_facts)

lemma udp_receiver_waits:
  "udp_waits udp_receiver 53 0 \<lparr>ur_id = 5, ur_socket = sample_cap, ur_payload = sample_range 2 6\<rparr> (sample_memory (replicate 8 0)) 3"
  by (simp add: udp_waits_def udp_receiver_facts some_and_def sample_range_def sample_memory_get)

lemma udp_link_ready:
  "ready udp_link_receiver (io_new 4) (sample_memory bytes) UDP_PROTOCOL 0
     \<lparr>rx_id = 1, rx_endpoint = sample_cap, rx_payload = sc_write sample_scratch\<rparr> 11"
  unfolding ready_def UDP_PROTOCOL_def
proof (intro conjI)
  show "find_index (some_and (waits_for (ip_protocols udp_link_receiver) 17)) (ip_receives udp_link_receiver) = Some 0"
    by (rule udp_link_receiver_facts)
  show "spsc_count (io_completions (io_new 4)) < spsc_capacity (io_completions (io_new 4))" by (rule sample_ring_room)
qed (simp_all add: udp_link_receiver_facts(2,3) sample_ring sample_scratch_def sample_memory_get)


section \<open>A client that is gone\<close>

lemma revoke_owner_get:
  "table_get v (snd (table_revoke_owner t own)) c = Inr p \<longleftrightarrow> table_get v t c = Inr p \<and> owner (t ! capability_index c) \<noteq> own"
  by (auto simp: revoke_owner_eq table_get_eq split: option.splits if_splits)

lemma flatten_live: "x \<in> set (flatten (map (live_only t f) xs)) \<longleftrightarrow> x \<in> set (flatten xs) \<and> \<not> isl (table_get READ_WRITE t (f x))"
  by (auto simp: set_flatten live_only_def some_and_iff image_iff split: if_splits)

lemma not_isl_iff: "\<not> isl x \<longleftrightarrow> (\<exists>p. x = Inr p)"
  by (cases x) simp_all

theorem udp_revoke_exact:
  assumes "udp_revoke u own = (n, u')"
  shows "(\<forall>c p. table_get READ_WRITE (ud_sockets u') c = Inr p \<longleftrightarrow>
           table_get READ_WRITE (ud_sockets u) c = Inr p \<and> owner (ud_sockets u ! capability_index c) \<noteq> own)
    \<and> (\<forall>b. b \<in> set (flatten (ud_bound u')) \<longleftrightarrow> b \<in> set (flatten (ud_bound u)) \<and> (\<exists>p. table_get READ_WRITE (ud_sockets u') (ub_socket b) = Inr p))
    \<and> (\<forall>r. r \<in> set (flatten (ud_receives u')) \<longleftrightarrow> r \<in> set (flatten (ud_receives u)) \<and> (\<exists>p. table_get READ_WRITE (ud_sockets u') (ur_socket r) = Inr p))
    \<and> (\<forall>s. s \<in> set (flatten (ud_inbox u')) \<longleftrightarrow> s \<in> set (flatten (ud_inbox u)) \<and> (\<exists>p. table_get READ_WRITE (ud_sockets u') (st_socket s) = Inr p))
    \<and> (\<forall>s. ud_send u' = Some s \<longleftrightarrow> ud_send u = Some s \<and> (\<exists>p. table_get READ_WRITE (ud_sockets u') (us_socket s) = Inr p))"
proof -
  let ?t = "snd (table_revoke_owner (ud_sockets u) own)"
  have u': "u' = u\<lparr>ud_sockets := ?t, ud_bound := map (live_only ?t ub_socket) (ud_bound u), ud_receives := map (live_only ?t ur_socket) (ud_receives u),
      ud_inbox := map (live_only ?t st_socket) (ud_inbox u), ud_send := live_only ?t us_socket (ud_send u)\<rparr>"
    using assms by (auto simp: udp_revoke_def split: prod.splits)
  have send: "live_only ?t us_socket x = Some s \<longleftrightarrow> x = Some s \<and> (\<exists>p. table_get READ_WRITE ?t (us_socket s) = Inr p)" for x s
    by (auto simp: live_only_def some_and_iff not_isl_iff split: if_splits)
  show ?thesis unfolding u' by (simp add: revoke_owner_get flatten_live not_isl_iff send del: split_paired_All)
qed

theorem udp_revoke_exact_witness:
  "flatten (ud_receives (snd (udp_revoke udp_receiver 7))) = []"
proof -
  obtain n u' where r: "udp_revoke udp_receiver 7 = (n, u')" by fastforce
  have own: "owner (ud_sockets udp_receiver ! capability_index sample_cap) = 7" by code_simp
  have "x \<notin> set (flatten (ud_receives u'))" for x
    using udp_revoke_exact [OF r] own by (auto simp: udp_receiver_facts(3))
  then show ?thesis using r by (cases "flatten (ud_receives u')") auto
qed

end
