(* ===== verification/Abi_Wire.thy ===== *)
theory Abi_Wire
  imports Prelude
begin

section \<open>The wire format of a submission (crates/base/abi/src/wire.rs, nospec.rs)\<close>

text \<open>
  A slot of the shared ring is eight 64-bit words. \<open>call_parse\<close> turns the words the kernel
  has copied into a \<open>call\<close> or a \<open>reject\<close>; \<open>call_encode\<close> is the other direction. Region
  checks go through the branch-free mask of \<open>nospec.rs\<close>, modelled on the bits.
\<close>

subsection \<open>Masks: a comparison as bits\<close>

type_synonym mask = u64

definition mask_of :: "bool \<Rightarrow> mask" where
  "mask_of held = 0 - of_bool held"

definition mask_passed :: "mask \<Rightarrow> bool" where
  "mask_passed m \<longleftrightarrow> m \<noteq> 0"

definition mask_apply :: "mask \<Rightarrow> u64 \<Rightarrow> u64" where
  "mask_apply m v = v AND m"

lemma mask_passed_of [simp]: "mask_passed (mask_of held) = held"
  by (simp add: mask_passed_def mask_of_def)

lemma mask_apply_of [simp]: "mask_apply (mask_of held) v = (if held then v else 0)"
  by (simp add: mask_apply_def mask_of_def)

subsection \<open>Regions\<close>

definition APERTURE :: u64 where
  "APERTURE = push_bit 32 1"

record region =
  region_offset :: u32
  region_len :: u32

datatype reject = Tag | Reserved | Region

definition region_inside :: "region \<Rightarrow> u64 \<Rightarrow> mask" where
  "region_inside r bytes = mask_of (ucast (region_offset r) + ucast (region_len r) \<le> bytes)"

definition region_fits :: "region \<Rightarrow> u64 \<Rightarrow> bool" where
  "region_fits r bytes = mask_passed (region_inside r bytes)"

definition region_within :: "region \<Rightarrow> u64 \<Rightarrow> region" where
  "region_within r bytes =
     (let inside = region_inside r bytes
      in \<lparr>region_offset = ucast (mask_apply inside (ucast (region_offset r))),
          region_len = ucast (mask_apply inside (ucast (region_len r)))\<rparr>)"

definition region_decode :: "u64 \<Rightarrow> reject + region" where
  "region_decode word =
     (let r = \<lparr>region_offset = ucast word, region_len = ucast (drop_bit 32 word)\<rparr>;
          masked = region_within r APERTURE
      in if region_fits r APERTURE then Inr masked else Inl Region)"

definition region_encode :: "region \<Rightarrow> u64" where
  "region_encode r = ucast (region_offset r) OR push_bit 32 (ucast (region_len r))"

subsection \<open>Operations, calls and slots\<close>

type_synonym handle = u64

datatype op =
    Read handle u64 region
  | Write handle u64 region
  | Flush handle
  | Open handle region
  | Close handle
  | Send handle region
  | Recv handle region
  | Timer u64
  | Message handle region
  | Grant handle handle u32

fun op_tag :: "op \<Rightarrow> u32" where
  "op_tag (Read _ _ _) = 1"
| "op_tag (Write _ _ _) = 2"
| "op_tag (Flush _) = 3"
| "op_tag (Open _ _) = 4"
| "op_tag (Close _) = 5"
| "op_tag (Send _ _) = 6"
| "op_tag (Recv _ _) = 7"
| "op_tag (Timer _) = 8"
| "op_tag (Message _ _) = 9"
| "op_tag (Grant _ _ _) = 10"

fun op_region :: "op \<Rightarrow> region option" where
  "op_region (Read _ _ b) = Some b"
| "op_region (Write _ _ b) = Some b"
| "op_region (Send _ b) = Some b"
| "op_region (Recv _ b) = Some b"
| "op_region (Open _ b) = Some b"
| "op_region (Message _ b) = Some b"
| "op_region (Flush _) = None"
| "op_region (Close _) = None"
| "op_region (Timer _) = None"
| "op_region (Grant _ _ _) = None"

fun op_words :: "op \<Rightarrow> u64 \<times> u64 \<times> u64" where
  "op_words (Read c off b) = (c, off, region_encode b)"
| "op_words (Write c off b) = (c, off, region_encode b)"
| "op_words (Flush c) = (c, 0, 0)"
| "op_words (Close c) = (c, 0, 0)"
| "op_words (Open c b) = (c, region_encode b, 0)"
| "op_words (Send c b) = (c, region_encode b, 0)"
| "op_words (Recv c b) = (c, region_encode b, 0)"
| "op_words (Message c b) = (c, region_encode b, 0)"
| "op_words (Timer t) = (t, 0, 0)"
| "op_words (Grant ch c r) = (ch, c, ucast r)"

record call =
  call_id :: u64
  call_op :: op

datatype slot_words = Words u64 u64 u64 u64 u64 u64 u64 u64

definition zeroed :: "u64 list \<Rightarrow> 'a \<Rightarrow> reject + 'a" where
  "zeroed unused guarded =
     (if unused = replicate (length unused) 0 then Inr guarded else Inl Reserved)"

definition payload :: "u64 \<Rightarrow> u64 \<Rightarrow> reject + region" where
  "payload b unused = (if unused \<noteq> 0 then Inl Reserved else region_decode b)"

text \<open>The question mark of the source: an error returns at once, a value goes on.\<close>

definition try_then :: "'e + 'a \<Rightarrow> ('a \<Rightarrow> 'b) \<Rightarrow> 'e + 'b" where
  "try_then r k = (case r of Inl e \<Rightarrow> Inl e | Inr v \<Rightarrow> Inr (k v))"

definition op_parse :: "u32 \<Rightarrow> u64 \<Rightarrow> u64 \<Rightarrow> u64 \<Rightarrow> reject + op" where
  "op_parse tag first second third =
     (if tag = 1 then try_then (region_decode third) (Read first second)
      else if tag = 2 then try_then (region_decode third) (Write first second)
      else if tag = 3 then zeroed [second, third] (Flush first)
      else if tag = 4 then try_then (payload second third) (Open first)
      else if tag = 5 then zeroed [second, third] (Close first)
      else if tag = 6 then try_then (payload second third) (Send first)
      else if tag = 7 then try_then (payload second third) (Recv first)
      else if tag = 8 then zeroed [second, third] (Timer first)
      else if tag = 9 then try_then (payload second third) (Message first)
      else if tag = 10 then zeroed [drop_bit 32 third] (Grant first second (ucast third))
      else Inl Tag)"

fun call_parse :: "slot_words \<Rightarrow> reject + call" where
  "call_parse (Words w0 w1 w2 w3 w4 w5 w6 w7) =
     (let i = w0; tag = ucast w1 :: u32
      in if drop_bit 32 w1 \<noteq> 0 \<or> w5 \<noteq> 0 \<or> w6 \<noteq> 0 \<or> w7 \<noteq> 0 then Inl Reserved
         else try_then (op_parse tag w2 w3 w4) (\<lambda>o'. \<lparr>call_id = i, call_op = o'\<rparr>))"

definition call_encode :: "call \<Rightarrow> slot_words" where
  "call_encode c =
     (case op_words (call_op c) of
        (first, second, third) \<Rightarrow>
          Words (call_id c) (ucast (op_tag (call_op c))) first second third 0 0 0)"

subsection \<open>Replies\<close>

text \<open>The signed result is its two's complement word; \<open>sint\<close> reads it.\<close>

record reply =
  reply_id :: u64
  reply_result :: u64

fun reject_code :: "reject \<Rightarrow> u64" where
  "reject_code Tag = 1"
| "reject_code Reserved = 2"
| "reject_code Region = 3"

definition reply_rejected :: "u64 \<Rightarrow> reject \<Rightarrow> reply" where
  "reply_rejected i r = \<lparr>reply_id = i, reply_result = - reject_code r\<rparr>"

definition reply_encode :: "reply \<Rightarrow> slot_words" where
  "reply_encode r = Words (reply_id r) (reply_result r) 0 0 0 0 0 0"

fun reply_decode :: "slot_words \<Rightarrow> reply" where
  "reply_decode (Words w0 w1 _ _ _ _ _ _) = \<lparr>reply_id = w0, reply_result = w1\<rparr>"

lemma region_sum_no_wrap:
  "unat (ucast (a :: u32) + ucast (b :: u32) :: u64) = unat a + unat b"
proof -
  have "unat a < 2 ^ LENGTH(32)" "unat b < 2 ^ LENGTH(32)"
    by (rule unsigned_less)+
  then show ?thesis
    by (simp add: unat_word_ariths unsigned_ucast_eq take_bit_nat_eq_self)
qed

lemma region_fits_iff:
  "region_fits r bytes \<longleftrightarrow> unat (region_offset r) + unat (region_len r) \<le> unat bytes"
  by (simp add: region_fits_def region_inside_def word_le_nat_alt region_sum_no_wrap)

lemma region_within_eq:
  "region_within r bytes =
     (if region_fits r bytes then r else \<lparr>region_offset = 0, region_len = 0\<rparr>)"
  by (simp add: region_within_def region_fits_def region_inside_def Let_def)

lemma region_decode_encode:
  "region_decode (region_encode r) = (if region_fits r APERTURE then Inr r else Inl Region)"
  by (cases r) (simp add: region_decode_def Let_def region_within_eq region_encode_def u32_pair)

lemma region_decode_InrD:
  "region_decode w = Inr r \<Longrightarrow> region_encode r = w \<and> region_fits r APERTURE"
  by (auto simp: region_decode_def Let_def region_within_eq region_encode_def u32_pair
      split: if_splits)

lemmas wire_unfold = zeroed_def payload_def try_then_def op_parse_def region_decode_encode

lemma parse_encode:
  "call_parse (call_encode c) =
     (case op_region (call_op c) of
        Some r \<Rightarrow> if region_fits r APERTURE then Inr c else Inl Region
      | None \<Rightarrow> Inr c)"
  by (cases c; cases "call_op c") (simp_all add: call_encode_def wire_unfold Let_def)

lemma op_parse_InrD:
  assumes "op_parse tag a b c = Inr p"
  shows "op_words p = (a, b, c) \<and> op_tag p = tag \<and>
    (case op_region p of Some r \<Rightarrow> region_fits r APERTURE | None \<Rightarrow> True)"
  using assms
  by (auto simp: op_parse_def zeroed_def payload_def try_then_def u32_high_zero
      dest: region_decode_InrD split: if_splits sum.splits)

lemma parse_canonical:
  assumes "call_parse ws = Inr c"
  shows "call_encode c = ws \<and>
    (case op_region (call_op c) of Some r \<Rightarrow> region_fits r APERTURE | None \<Rightarrow> True)"
  using assms
  by (cases ws) (auto simp: call_encode_def try_then_def Let_def u32_high_zero
      dest: op_parse_InrD split: if_splits sum.splits)
text \<open>
  C36. Parsing an encoded call gives the call back, except that a call naming a region outside
  the aperture is rejected as Region.
\<close>

theorem call_parse_encode:
  "call_parse (call_encode c) =
     (case op_region (call_op c) of
        Some r \<Rightarrow> if region_fits r APERTURE then Inr c else Inl Region
      | None \<Rightarrow> Inr c)"
  by (rule parse_encode)

theorem call_parse_canonical:
  assumes "call_parse ws = Inr c"
  shows "call_encode c = ws \<and>
    (case op_region (call_op c) of Some r \<Rightarrow> region_fits r APERTURE | None \<Rightarrow> True)"
  using assms by (rule parse_canonical)

theorem call_parse_canonical_witness:
  "call_encode \<lparr>call_id = 7, call_op = Send 5 \<lparr>region_offset = 16, region_len = 64\<rparr>\<rparr> =
     Words 7 6 5 (region_encode \<lparr>region_offset = 16, region_len = 64\<rparr>) 0 0 0 0"
  using call_parse_canonical
    [of "Words 7 6 5 (region_encode \<lparr>region_offset = 16, region_len = 64\<rparr>) 0 0 0 0"
        "\<lparr>call_id = 7, call_op = Send 5 \<lparr>region_offset = 16, region_len = 64\<rparr>\<rparr>"]
  by (simp add: wire_unfold Let_def region_fits_iff APERTURE_def)

theorem region_mask_sound:
  "region_within r bytes =
     (if unat (region_offset r) + unat (region_len r) \<le> unat bytes then r
      else \<lparr>region_offset = 0, region_len = 0\<rparr>) \<and>
   unat (region_offset (region_within r bytes)) + unat (region_len (region_within r bytes)) \<le> unat bytes \<and>
   (region_fits r bytes \<longleftrightarrow> unat (region_offset r) + unat (region_len r) \<le> unat bytes)"
  by (simp add: region_within_eq region_fits_iff)

theorem reply_roundtrip:
  "reply_decode (reply_encode r) = r \<and>
   sint (reply_result (reply_rejected i e)) = - int (unat (reject_code e)) \<and>
   sint (reply_result (reply_rejected i e)) < 0 \<and>
   (reply_rejected i e = reply_rejected i f \<longleftrightarrow> e = f)"
  by (cases e; cases f) (simp_all add: reply_encode_def reply_rejected_def)

end
