(* ===== verification/Abi_Ring.thy ===== *)
theory Abi_Ring
  imports Abi_Wire Fifo_Spec
begin

section \<open>Rings in memory an untrusted domain also writes (crates/base/abi/src/ring.rs)\<close>

text \<open>
  The shared part of a ring is two 32-bit indices and \<open>N\<close> slots, any of which the domain can
  overwrite at any time. The kernel's ends keep the index they act on to themselves.
\<close>

record ring =
  ring_tail :: u32
  ring_head :: u32
  ring_slots :: "slot_words list"

definition empty_slot :: slot_words where
  "empty_slot = Words 0 0 0 0 0 0 0 0"

definition ring_new :: "nat \<Rightarrow> ring" where
  "ring_new n = \<lparr>ring_tail = 0, ring_head = 0, ring_slots = replicate n empty_slot\<rparr>"

abbreviation ring_size :: "ring \<Rightarrow> nat" where
  "ring_size r \<equiv> length (ring_slots r)"

definition ring_index :: "nat \<Rightarrow> u32 \<Rightarrow> nat" where
  "ring_index n i = unat i AND (n - 1)"

definition ring_read :: "ring \<Rightarrow> u32 \<Rightarrow> slot_words" where
  "ring_read r i = ring_slots r ! ring_index (ring_size r) i"

definition ring_write :: "ring \<Rightarrow> u32 \<Rightarrow> slot_words \<Rightarrow> ring" where
  "ring_write r i ws = r\<lparr>ring_slots := (ring_slots r)[ring_index (ring_size r) i := ws]\<rparr>"

record channel =
  chan_submissions :: ring
  chan_completions :: ring

definition channel_new :: "nat \<Rightarrow> channel" where
  "channel_new n = \<lparr>chan_submissions = ring_new n, chan_completions = ring_new n\<rparr>"

datatype fault = Tail

datatype next_call = Empty | Ready call | Rejected u64 reject

subsection \<open>The kernel's ends\<close>

record submissions =
  subs_head :: u32
  subs_fault :: "fault option"

record completions =
  comps_tail :: u32

definition channel_kernel :: "submissions \<times> completions" where
  "channel_kernel = (\<lparr>subs_head = 0, subs_fault = None\<rparr>, \<lparr>comps_tail = 0\<rparr>)"

fun word0 :: "slot_words \<Rightarrow> u64" where
  "word0 (Words w0 _ _ _ _ _ _ _) = w0"

text \<open>
  \<open>take_published\<close> is the body of \<open>Submissions::take\<close> over the two things it loads from shared
  memory, the published tail and the words of one slot. Each is loaded once.
\<close>

definition take_published ::
  "nat \<Rightarrow> submissions \<Rightarrow> u32 \<Rightarrow> slot_words \<Rightarrow> (fault + next_call) \<times> submissions \<times> u32 option" where
  "take_published n s published words =
     (case subs_fault s of
        Some f \<Rightarrow> (Inl f, s, None)
      | None \<Rightarrow>
          (let ready = published - subs_head s
           in if ready = 0 then (Inr Empty, s, None)
              else if unat ready > n then (Inl Tail, s\<lparr>subs_fault := Some Tail\<rparr>, None)
              else (let head' = subs_head s + 1
                    in (Inr (case call_parse words of
                               Inr c \<Rightarrow> Ready c
                             | Inl e \<Rightarrow> Rejected (word0 words) e),
                        s\<lparr>subs_head := head'\<rparr>, Some head'))))"

definition submissions_take :: "ring \<Rightarrow> submissions \<Rightarrow> (fault + next_call) \<times> submissions \<times> ring" where
  "submissions_take r s =
     (case take_published (ring_size r) s (ring_tail r) (ring_read r (subs_head s)) of
        (res, s', None) \<Rightarrow> (res, s', r)
      | (res, s', Some h) \<Rightarrow> (res, s', r\<lparr>ring_head := h\<rparr>))"

definition completions_publish ::
  "ring \<Rightarrow> completions \<Rightarrow> reply \<Rightarrow> (reply + unit) \<times> completions \<times> ring" where
  "completions_publish r c rep =
     (let taken = ring_head r
      in if unat (comps_tail c - taken) \<ge> ring_size r then (Inl rep, c, r)
         else (let r' = ring_write r (comps_tail c) (reply_encode rep);
                   tail' = comps_tail c + 1
               in (Inr (), c\<lparr>comps_tail := tail'\<rparr>, r'\<lparr>ring_tail := tail'\<rparr>)))"

subsection \<open>The domain's end\<close>

record domain =
  dom_tail :: u32
  dom_head :: u32

definition channel_domain :: domain where
  "channel_domain = \<lparr>dom_tail = 0, dom_head = 0\<rparr>"

definition domain_write :: "channel \<Rightarrow> domain \<Rightarrow> slot_words \<Rightarrow> channel \<times> domain" where
  "domain_write ch d ws =
     (let r = ring_write (chan_submissions ch) (dom_tail d) ws;
          t = dom_tail d + 1
      in (ch\<lparr>chan_submissions := r\<lparr>ring_tail := t\<rparr>\<rparr>, d\<lparr>dom_tail := t\<rparr>))"

definition domain_submit :: "channel \<Rightarrow> domain \<Rightarrow> call \<Rightarrow> channel \<times> domain" where
  "domain_submit ch d c = domain_write ch d (call_encode c)"

definition domain_claim :: "channel \<Rightarrow> domain \<Rightarrow> u32 \<Rightarrow> channel \<times> domain" where
  "domain_claim ch d ahead =
     (let t = dom_tail d + ahead
      in (ch\<lparr>chan_submissions := (chan_submissions ch)\<lparr>ring_tail := t\<rparr>\<rparr>, d\<lparr>dom_tail := t\<rparr>))"

definition domain_consumed :: "channel \<Rightarrow> domain \<Rightarrow> u32 \<Rightarrow> channel \<times> domain" where
  "domain_consumed ch d ahead =
     (let h = dom_head d + ahead
      in (ch\<lparr>chan_completions := (chan_completions ch)\<lparr>ring_head := h\<rparr>\<rparr>, d\<lparr>dom_head := h\<rparr>))"

definition domain_reply :: "channel \<Rightarrow> domain \<Rightarrow> reply option \<times> channel \<times> domain" where
  "domain_reply ch d =
     (let r = chan_completions ch
      in if ring_tail r = dom_head d then (None, ch, d)
         else (let ws = ring_read r (dom_head d); h = dom_head d + 1
               in (Some (reply_decode ws), ch\<lparr>chan_completions := r\<lparr>ring_head := h\<rparr>\<rparr>, d\<lparr>dom_head := h\<rparr>)))"

subsection \<open>Indices\<close>

definition ring_length_ok :: "nat \<Rightarrow> bool" where
  "ring_length_ok n \<longleftrightarrow> (\<exists>k < 32. n = 2 ^ k)"

lemma ring_index_slot: "ring_length_ok n \<Longrightarrow> ring_index n i = slot_of n i"
  by (auto simp: ring_length_ok_def ring_index_def slot_of_def take_bit_eq_mask mask_eq_exp_minus_1
      simp flip: take_bit_eq_mod)

lemma ring_length_facts:
  assumes "ring_length_ok n"
  shows "0 < n" and "n < 2 ^ LENGTH(32)" and "n dvd 2 ^ LENGTH(32)"
proof -
  obtain k where k: "k < 32" "n = 2 ^ k" using assms by (auto simp: ring_length_ok_def)
  show "0 < n" using k by simp
  have "(2::nat) ^ k < 2 ^ 32" using k(1) by (intro power_strict_increasing) simp_all
  then show "n < 2 ^ LENGTH(32)" using k(2) by simp
  have "(2::nat) ^ k dvd 2 ^ 32" using k(1) by (intro le_imp_power_dvd) simp
  then show "n dvd 2 ^ LENGTH(32)" using k(2) by simp
qed

lemma ring_index_less: "ring_length_ok n \<Longrightarrow> ring_index n i < n"
  by (simp add: ring_index_slot ring_length_facts)

subsection \<open>A hostile domain\<close>

text \<open>
  C23. Submissions::take against a hostile domain: whatever tail and slot words the loads
  return, the slot index stays inside the ring, a tail further ahead than the ring latches the
  Tail fault for good, an equal tail is Empty, and otherwise exactly one slot is consumed, as
  the call those words encode or as a rejection carrying its id.
\<close>

theorem take_published_hostile:
  assumes "ring_length_ok n"
  shows "ring_index n (subs_head s) < n \<and>
    (case take_published n s published words of (res, s', store) \<Rightarrow>
       (subs_fault s = Some f \<longrightarrow> res = Inl f \<and> s' = s \<and> store = None) \<and>
       (subs_fault s = None \<longrightarrow>
          (res = Inl Tail \<longleftrightarrow> n < unat (published - subs_head s)) \<and>
          (res = Inr Empty \<longleftrightarrow> published = subs_head s) \<and>
          (res = Inl Tail \<longrightarrow> s' = s\<lparr>subs_fault := Some Tail\<rparr> \<and> store = None) \<and>
          (res = Inr Empty \<longrightarrow> s' = s \<and> store = None) \<and>
          (\<forall>c. res = Inr (Ready c) \<longrightarrow>
             call_encode c = words \<and> s' = s\<lparr>subs_head := subs_head s + 1\<rparr> \<and>
             store = Some (subs_head s + 1)) \<and>
          (\<forall>i e. res = Inr (Rejected i e) \<longrightarrow>
             call_parse words = Inl e \<and> i = word0 words \<and>
             s' = s\<lparr>subs_head := subs_head s + 1\<rparr> \<and> store = Some (subs_head s + 1))))"
proof -
  have "n < 2 ^ LENGTH(32)" using ring_length_facts [OF assms] by simp
  then show ?thesis
    using ring_index_less [OF assms]
    by (auto simp: take_published_def Let_def dest: parse_canonical split: option.splits sum.splits if_splits)
qed

text \<open>The kernel draining a ring while the domain writes whatever it likes in between.\<close>

fun drain :: "nat \<Rightarrow> submissions \<Rightarrow> (u32 \<times> slot_words) list \<Rightarrow> (fault + next_call) list \<times> submissions" where
  "drain n s [] = ([], s)"
| "drain n s ((published, words) # rest) =
     (case take_published n s published words of
        (res, s', _) \<Rightarrow> (case drain n s' rest of (rs, s'') \<Rightarrow> (res # rs, s'')))"

fun delivered :: "fault + next_call \<Rightarrow> bool" where
  "delivered (Inr Empty) = False"
| "delivered (Inr _) = True"
| "delivered (Inl _) = False"

lemma drain_faulted:
  "subs_fault s = Some f \<Longrightarrow> drain n s views = (replicate (length views) (Inl f), s)"
  by (induction n s views rule: drain.induct) (auto simp: take_published_def)

theorem drain_hostile:
  assumes "subs_fault s = None" and "drain n s views = (rs, s')"
  shows "\<exists>good k. rs = good @ replicate k (Inl Tail) \<and> (\<forall>r \<in> set good. \<exists>c. r = Inr c) \<and>
    (0 < k \<longleftrightarrow> subs_fault s' = Some Tail) \<and>
    subs_head s' = subs_head s + of_nat (length (filter delivered rs))"
  using assms
proof (induction n s views arbitrary: rs rule: drain.induct)
  case (1 n s)
  then show ?case by (auto intro!: exI [of _ "[]"] exI [of _ 0])
next
  case (2 n s published words rest)
  obtain res s1 st where take: "take_published n s published words = (res, s1, st)"
    by (cases "take_published n s published words") auto
  obtain rs1 where rest: "drain n s1 rest = (rs1, s')" and rs: "rs = res # rs1"
    using "2.prems"(2) take by (auto split: prod.splits)
  show ?case
  proof (cases res)
    case (Inl f)
    then have f: "subs_fault s1 = Some Tail" "res = Inl Tail" "subs_head s1 = subs_head s"
      using take "2.prems"(1) by (auto simp: take_published_def Let_def split: if_splits sum.splits)
    then have "rs1 = replicate (length rest) (Inl Tail)" and "s' = s1"
      using drain_faulted [OF f(1), of n rest] rest by auto
    then show ?thesis
      using f rs by (intro exI [of _ "[]"] exI [of _ "Suc (length rest)"]) (simp add: filter_replicate)
  next
    case (Inr c)
    then have ok: "subs_fault s1 = None"
      and head: "subs_head s1 = subs_head s + (if delivered res then 1 else 0)"
      using take "2.prems"(1) by (auto simp: take_published_def Let_def split: if_splits sum.splits)
    from "2.IH" [OF take [symmetric] _ ok rest] obtain good k where
      "rs1 = good @ replicate k (Inl Tail)" "\<forall>r \<in> set good. \<exists>c. r = Inr c"
      "0 < k \<longleftrightarrow> subs_fault s' = Some Tail"
      "subs_head s' = subs_head s1 + of_nat (length (filter delivered rs1))"
      by auto
    then show ?thesis
      using rs Inr head by (intro exI [of _ "res # good"] exI [of _ k]) auto
  qed
qed

subsection \<open>A domain that keeps to the protocol\<close>

text \<open>
  The two directions of a channel as queues. A domain that only writes while there is room
  and only moves its own indices gets the queue contract: the completion ring carries
  replies, the submission ring carries the words of calls.
\<close>

type_synonym reply_link = "channel \<times> completions \<times> domain"

definition reply_push :: "reply_link \<Rightarrow> reply \<Rightarrow> reply_link option" where
  "reply_push q rep =
     (case q of (ch, c, d) \<Rightarrow>
        (case completions_publish (chan_completions ch) c rep of
           (Inl _, _, _) \<Rightarrow> None
         | (Inr _, c', r') \<Rightarrow> Some (ch\<lparr>chan_completions := r'\<rparr>, c', d)))"

definition reply_pop :: "reply_link \<Rightarrow> (reply \<times> reply_link) option" where
  "reply_pop q =
     (case q of (ch, c, d) \<Rightarrow>
        (case domain_reply ch d of
           (None, _, _) \<Rightarrow> None
         | (Some rep, ch', d') \<Rightarrow> Some (rep, (ch', c, d'))))"

definition reply_contents :: "reply_link \<Rightarrow> reply list" where
  "reply_contents q =
     (case q of (ch, c, d) \<Rightarrow>
        map reply_decode (window (ring_size (chan_completions ch)) ((!) (ring_slots (chan_completions ch)))
          (dom_head d) (unat (comps_tail c - dom_head d))))"

definition reply_capacity :: "reply_link \<Rightarrow> nat" where
  "reply_capacity q = ring_size (chan_completions (fst q))"

definition reply_link_ok :: "reply_link \<Rightarrow> bool" where
  "reply_link_ok q \<longleftrightarrow>
     (case q of (ch, c, d) \<Rightarrow>
        ring_length_ok (ring_size (chan_completions ch)) \<and>
        ring_tail (chan_completions ch) = comps_tail c \<and>
        ring_head (chan_completions ch) = dom_head d \<and>
        unat (comps_tail c - dom_head d) \<le> ring_size (chan_completions ch))"

lemma reply_decode_encode [simp]: "reply_decode (reply_encode r) = r"
  by (simp add: reply_encode_def)

lemma reply_push_room:
  assumes ok: "reply_link_ok (ch, c, d)" and n: "n = ring_size (chan_completions ch)"
    and room: "unat (comps_tail c - dom_head d) < n"
  shows "\<exists>q'. reply_push (ch, c, d) rep = Some q' \<and> reply_link_ok q' \<and>
    reply_contents q' = reply_contents (ch, c, d) @ [rep] \<and> reply_capacity q' = n"
proof -
  note len = ring_length_facts [of n]
  have n_ok: "ring_length_ok n" and links: "ring_tail (chan_completions ch) = comps_tail c"
    "ring_head (chan_completions ch) = dom_head d"
    using ok n by (auto simp: reply_link_ok_def)
  have Suc: "unat (comps_tail c + 1 - dom_head d) = Suc (unat (comps_tail c - dom_head d))"
    using room len(2) [OF n_ok] by (intro unat_diff_Suc) linarith
  have win: "window n ((!) ((ring_slots (chan_completions ch))[slot_of n (comps_tail c) := w])) (dom_head d)
      (Suc (unat (comps_tail c - dom_head d))) =
    window n ((!) (ring_slots (chan_completions ch))) (dom_head d) (unat (comps_tail c - dom_head d)) @ [w]" for w
    using window_update_back [OF len(3) [OF n_ok] room n [symmetric], of "dom_head d" w] by simp
  show ?thesis
    using room n_ok links win
    by (simp add: reply_push_def completions_publish_def Let_def ring_write_def ring_index_slot
        reply_link_ok_def reply_contents_def reply_capacity_def Suc flip: n)
qed

lemma reply_pop_some:
  assumes ok: "reply_link_ok (ch, c, d)" and n: "n = ring_size (chan_completions ch)"
    and some: "comps_tail c \<noteq> dom_head d"
  shows "\<exists>rep q'. reply_pop (ch, c, d) = Some (rep, q') \<and> reply_link_ok q' \<and>
    reply_contents (ch, c, d) = rep # reply_contents q' \<and> reply_capacity q' = n"
proof -
  have n_ok: "ring_length_ok n" and links: "ring_tail (chan_completions ch) = comps_tail c"
    "ring_head (chan_completions ch) = dom_head d" "unat (comps_tail c - dom_head d) \<le> n"
    using ok n by (auto simp: reply_link_ok_def)
  have k: "unat (comps_tail c - dom_head d) = Suc (unat (comps_tail c - (dom_head d + 1)))"
    using unat_diff_pred [OF some] by simp
  show ?thesis
    using n_ok links k some
    by (simp add: reply_pop_def domain_reply_def Let_def ring_read_def ring_index_slot
        reply_link_ok_def reply_contents_def reply_capacity_def window_Suc_front flip: n)
qed

interpretation reply_queue: bounded_fifo reply_push reply_pop reply_contents reply_capacity reply_link_ok
proof
  fix q q' :: reply_link and x :: reply
  assume ok: "reply_link_ok q"
  obtain ch c d where q: "q = (ch, c, d)" by (cases q)
  let ?k = "unat (comps_tail c - dom_head d)" and ?n = "ring_size (chan_completions ch)"
  have le: "?k \<le> ?n" and links: "ring_tail (chan_completions ch) = comps_tail c"
    "ring_head (chan_completions ch) = dom_head d" using ok q by (auto simp: reply_link_ok_def)
  have len: "length (reply_contents q) = ?k" and cap: "reply_capacity q = ?n"
    using q by (auto simp: reply_contents_def reply_capacity_def)
  have full: "reply_push q x = None" if "?k = ?n"
    using that links q by (simp add: reply_push_def completions_publish_def Let_def)
  have room: "?k < ?n" if "?k \<noteq> ?n" using that le by simp
  have empty: "reply_pop q = None" if "comps_tail c = dom_head d"
    using that links q by (simp add: reply_pop_def domain_reply_def Let_def)
  show "reply_push q x = None \<longleftrightarrow> length (reply_contents q) = reply_capacity q"
    using full reply_push_room [of ch c d ?n x] room ok q len cap by (cases "?k = ?n") auto
  show "reply_link_ok q' \<and> reply_contents q' = reply_contents q @ [x] \<and> reply_capacity q' = reply_capacity q"
    if "reply_push q x = Some q'"
    using that full reply_push_room [of ch c d ?n x] room ok q cap by (cases "?k = ?n") auto
  show "reply_pop q = None \<longleftrightarrow> reply_contents q = []"
    using empty reply_pop_some [of ch c d ?n] ok q len
    by (cases "comps_tail c = dom_head d") (auto simp flip: length_0_conv)
  show "reply_link_ok q' \<and> reply_contents q = x # reply_contents q' \<and> reply_capacity q' = reply_capacity q"
    if "reply_pop q = Some (x, q')"
    using that empty reply_pop_some [of ch c d ?n] ok q cap by (cases "comps_tail c = dom_head d") auto
  show "length (reply_contents q) \<le> reply_capacity q" using len cap le by simp
qed

type_synonym word_link = "channel \<times> submissions \<times> domain"

definition word_room :: "word_link \<Rightarrow> bool" where
  "word_room q \<longleftrightarrow>
     (case q of (ch, s, d) \<Rightarrow>
        unat (dom_tail d - ring_head (chan_submissions ch)) < ring_size (chan_submissions ch))"

definition word_push :: "word_link \<Rightarrow> slot_words \<Rightarrow> word_link option" where
  "word_push q ws =
     (case q of (ch, s, d) \<Rightarrow>
        if word_room q then (case domain_write ch d ws of (ch', d') \<Rightarrow> Some (ch', s, d')) else None)"

definition word_pop :: "word_link \<Rightarrow> (slot_words \<times> word_link) option" where
  "word_pop q =
     (case q of (ch, s, d) \<Rightarrow>
        (case submissions_take (chan_submissions ch) s of
           (Inl _, _, _) \<Rightarrow> None
         | (Inr Empty, _, _) \<Rightarrow> None
         | (Inr _, s', r') \<Rightarrow>
             Some (ring_read (chan_submissions ch) (subs_head s), (ch\<lparr>chan_submissions := r'\<rparr>, s', d))))"

definition word_contents :: "word_link \<Rightarrow> slot_words list" where
  "word_contents q =
     (case q of (ch, s, d) \<Rightarrow>
        window (ring_size (chan_submissions ch)) ((!) (ring_slots (chan_submissions ch)))
          (subs_head s) (unat (dom_tail d - subs_head s)))"

definition word_capacity :: "word_link \<Rightarrow> nat" where
  "word_capacity q = ring_size (chan_submissions (fst q))"

definition word_link_ok :: "word_link \<Rightarrow> bool" where
  "word_link_ok q \<longleftrightarrow>
     (case q of (ch, s, d) \<Rightarrow>
        ring_length_ok (ring_size (chan_submissions ch)) \<and> subs_fault s = None \<and>
        ring_tail (chan_submissions ch) = dom_tail d \<and>
        ring_head (chan_submissions ch) = subs_head s \<and>
        unat (dom_tail d - subs_head s) \<le> ring_size (chan_submissions ch))"

definition classify :: "slot_words \<Rightarrow> next_call" where
  "classify ws = (case call_parse ws of Inr c \<Rightarrow> Ready c | Inl e \<Rightarrow> Rejected (word0 ws) e)"

lemma classify_not_Empty [simp]: "classify ws \<noteq> Empty"
  by (simp add: classify_def split: sum.splits)

lemma word_push_room:
  assumes ok: "word_link_ok (ch, s, d)" and n: "n = ring_size (chan_submissions ch)"
    and room: "unat (dom_tail d - subs_head s) < n"
  shows "\<exists>q'. word_push (ch, s, d) ws = Some q' \<and> word_link_ok q' \<and>
    word_contents q' = word_contents (ch, s, d) @ [ws] \<and> word_capacity q' = n"
proof -
  note len = ring_length_facts [of n]
  have n_ok: "ring_length_ok n" and links: "ring_tail (chan_submissions ch) = dom_tail d"
    "ring_head (chan_submissions ch) = subs_head s" "subs_fault s = None"
    using ok n by (auto simp: word_link_ok_def)
  have Suc: "unat (dom_tail d + 1 - subs_head s) = Suc (unat (dom_tail d - subs_head s))"
    using room len(2) [OF n_ok] by (intro unat_diff_Suc) linarith
  have win: "window n ((!) ((ring_slots (chan_submissions ch))[slot_of n (dom_tail d) := ws])) (subs_head s)
      (Suc (unat (dom_tail d - subs_head s))) =
    window n ((!) (ring_slots (chan_submissions ch))) (subs_head s) (unat (dom_tail d - subs_head s)) @ [ws]"
    using window_update_back [OF len(3) [OF n_ok] room n [symmetric], of "subs_head s" ws] by simp
  show ?thesis
    using room n_ok links win
    by (simp add: word_push_def word_room_def domain_write_def Let_def ring_write_def ring_index_slot
        word_link_ok_def word_contents_def word_capacity_def Suc flip: n)
qed

lemma word_take_some:
  assumes ok: "word_link_ok (ch, s, d)" and n: "n = ring_size (chan_submissions ch)"
    and some: "dom_tail d \<noteq> subs_head s"
  shows "\<exists>ws s' r'. submissions_take (chan_submissions ch) s = (Inr (classify ws), s', r') \<and>
    word_pop (ch, s, d) = Some (ws, (ch\<lparr>chan_submissions := r'\<rparr>, s', d)) \<and>
    word_link_ok (ch\<lparr>chan_submissions := r'\<rparr>, s', d) \<and>
    word_contents (ch, s, d) = ws # word_contents (ch\<lparr>chan_submissions := r'\<rparr>, s', d) \<and>
    word_capacity (ch\<lparr>chan_submissions := r'\<rparr>, s', d) = n"
proof -
  have n_ok: "ring_length_ok n" and links: "ring_tail (chan_submissions ch) = dom_tail d"
    "ring_head (chan_submissions ch) = subs_head s" "subs_fault s = None"
    "unat (dom_tail d - subs_head s) \<le> n"
    using ok n by (auto simp: word_link_ok_def)
  have k: "unat (dom_tail d - subs_head s) = Suc (unat (dom_tail d - (subs_head s + 1)))"
    using unat_diff_pred [OF some] by simp
  let ?ws = "ring_read (chan_submissions ch) (subs_head s)"
  let ?s = "s\<lparr>subs_head := subs_head s + 1\<rparr>"
  let ?r = "(chan_submissions ch)\<lparr>ring_head := subs_head s + 1\<rparr>"
  have take: "submissions_take (chan_submissions ch) s = (Inr (classify ?ws), ?s, ?r)"
    using links some k n
    by (simp add: submissions_take_def take_published_def Let_def classify_def)
  then have "word_pop (ch, s, d) = Some (?ws, (ch\<lparr>chan_submissions := ?r\<rparr>, ?s, d))"
    using classify_not_Empty [of ?ws] by (simp add: word_pop_def split: next_call.splits)
  moreover have "word_contents (ch, s, d) = ?ws # word_contents (ch\<lparr>chan_submissions := ?r\<rparr>, ?s, d)"
    using k n_ok n by (simp add: word_contents_def window_Suc_front ring_read_def ring_index_slot)
  ultimately show ?thesis
    using take n_ok links k n
    by (intro exI [of _ ?ws] exI [of _ ?s] exI [of _ ?r]) (simp add: word_link_ok_def word_capacity_def)
qed

interpretation word_queue: bounded_fifo word_push word_pop word_contents word_capacity word_link_ok
proof
  fix q q' :: word_link and x :: slot_words
  assume ok: "word_link_ok q"
  obtain ch s d where q: "q = (ch, s, d)" by (cases q)
  let ?k = "unat (dom_tail d - subs_head s)" and ?n = "ring_size (chan_submissions ch)"
  have le: "?k \<le> ?n" and links: "ring_tail (chan_submissions ch) = dom_tail d"
    "ring_head (chan_submissions ch) = subs_head s" "subs_fault s = None"
    using ok q by (auto simp: word_link_ok_def)
  have len: "length (word_contents q) = ?k" and cap: "word_capacity q = ?n"
    using q by (auto simp: word_contents_def word_capacity_def)
  have full: "word_push q x = None" if "?k = ?n"
    using that links q by (simp add: word_push_def word_room_def)
  have room: "?k < ?n" if "?k \<noteq> ?n" using that le by simp
  have empty: "word_pop q = None" if "dom_tail d = subs_head s"
    using that links q by (simp add: word_pop_def submissions_take_def take_published_def Let_def)
  show "word_push q x = None \<longleftrightarrow> length (word_contents q) = word_capacity q"
    using full word_push_room [of ch s d ?n x] room ok q len cap by (cases "?k = ?n") auto
  show "word_link_ok q' \<and> word_contents q' = word_contents q @ [x] \<and> word_capacity q' = word_capacity q"
    if "word_push q x = Some q'"
    using that full word_push_room [of ch s d ?n x] room ok q cap by (cases "?k = ?n") auto
  show "word_pop q = None \<longleftrightarrow> word_contents q = []"
    using empty word_take_some [of ch s d ?n] ok q len
    by (cases "dom_tail d = subs_head s") (auto simp flip: length_0_conv)
  show "word_link_ok q' \<and> word_contents q = x # word_contents q' \<and> word_capacity q' = word_capacity q"
    if "word_pop q = Some (x, q')"
    using that empty word_take_some [of ch s d ?n] ok q cap by (cases "dom_tail d = subs_head s") auto
  show "length (word_contents q) \<le> word_capacity q" using len cap le by simp
qed

text \<open>
  A session: the domain submits calls while there is room, the kernel takes them. The run
  keeps the calls that were accepted and everything the kernel saw other than \<open>Empty\<close>.
\<close>

fun session_run ::
  "word_link \<Rightarrow> call fifo_op list \<Rightarrow> call list \<times> (fault + next_call) list \<times> word_link" where
  "session_run q [] = ([], [], q)"
| "session_run (ch, s, d) (Push c # ops) =
     (if word_room (ch, s, d) then
        (case domain_submit ch d c of (ch', d') \<Rightarrow>
           (case session_run (ch', s, d') ops of (ins, outs, q) \<Rightarrow> (c # ins, outs, q)))
      else session_run (ch, s, d) ops)"
| "session_run (ch, s, d) (Pop # ops) =
     (case submissions_take (chan_submissions ch) s of (res, s', r') \<Rightarrow>
        (case session_run (ch\<lparr>chan_submissions := r'\<rparr>, s', d) ops of (ins, outs, q) \<Rightarrow>
           (ins, (if res = Inr Empty then outs else res # outs), q)))"

definition answer :: "call \<Rightarrow> next_call" where
  "answer c =
     (case op_region (call_op c) of
        Some r \<Rightarrow> if region_fits r APERTURE then Ready c else Rejected (call_id c) Region
      | None \<Rightarrow> Ready c)"

lemma word0_encode [simp]: "word0 (call_encode c) = call_id c"
  by (simp add: call_encode_def split: prod.splits)

lemma classify_encode: "classify (call_encode c) = answer c"
  by (simp add: classify_def answer_def parse_encode split: option.splits)

lemma session_run_answers:
  assumes "word_link_ok q" and "word_contents q = map call_encode pend"
    and "session_run q ops = (ins, outs, q')"
  shows "\<exists>taken. outs = map (\<lambda>c. Inr (answer c)) taken \<and>
    (\<exists>left. pend @ ins = taken @ left \<and> length left \<le> word_capacity q)"
  using assms
proof (induction q ops arbitrary: pend ins outs rule: session_run.induct)
  case (1 q)
  then show ?case using word_queue.within_capacity [OF 1(1)] by auto
next
  case (2 ch s d c ops)
  show ?case
  proof (cases "word_room (ch, s, d)")
    case True
    obtain ch' d' where w: "domain_submit ch d c = (ch', d')" by (cases "domain_submit ch d c")
    then have push: "word_push (ch, s, d) (call_encode c) = Some (ch', s, d')"
      using True by (simp add: word_push_def domain_submit_def)
    obtain ins1 where run: "session_run (ch', s, d') ops = (ins1, outs, q')" and ins: "ins = c # ins1"
      using 2(5) True w by (auto split: prod.splits)
    have "word_link_ok (ch', s, d') \<and> word_contents (ch', s, d') = map call_encode (pend @ [c]) \<and>
      word_capacity (ch', s, d') = word_capacity (ch, s, d)"
      using word_queue.push_Some [OF 2(3) push] 2(4) by simp
    then show ?thesis using "2.IH"(1) [OF True w [symmetric] _ _ run] ins by fastforce
  next
    case False
    then show ?thesis using 2 by auto
  qed
next
  case (3 ch s d ops)
  show ?case
  proof (cases "dom_tail d = subs_head s")
    case True
    then have "submissions_take (chan_submissions ch) s = (Inr Empty, s, chan_submissions ch)"
      using 3(2) by (simp add: word_link_ok_def submissions_take_def take_published_def Let_def)
    then show ?thesis using 3 by (auto split: prod.splits)
  next
    case False
    obtain ws s' r' where take: "submissions_take (chan_submissions ch) s = (Inr (classify ws), s', r')"
      and ok: "word_link_ok (ch\<lparr>chan_submissions := r'\<rparr>, s', d)"
      and cont: "word_contents (ch, s, d) = ws # word_contents (ch\<lparr>chan_submissions := r'\<rparr>, s', d)"
      and cap: "word_capacity (ch\<lparr>chan_submissions := r'\<rparr>, s', d) = word_capacity (ch, s, d)"
      using word_take_some [OF 3(2) refl False] by (auto simp: word_capacity_def)
    obtain c pend1 where pend: "pend = c # pend1" and ws: "ws = call_encode c"
      and cont1: "word_contents (ch\<lparr>chan_submissions := r'\<rparr>, s', d) = map call_encode pend1"
      using cont 3(3) by (cases pend) auto
    obtain outs1 where run: "session_run (ch\<lparr>chan_submissions := r'\<rparr>, s', d) ops = (ins, outs1, q')"
      and outs: "outs = Inr (answer c) # outs1"
      using 3(4) take classify_not_Empty [of ws] ws by (auto simp: classify_encode split: prod.splits)
    from "3.IH" [OF take [symmetric] refl ok cont1 run] obtain taken left where
      "outs1 = map (\<lambda>c. Inr (answer c)) taken" "pend1 @ ins = taken @ left"
      "length left \<le> word_capacity (ch, s, d)" using cap by auto
    then show ?thesis using pend outs
      by (intro exI [of _ "c # taken"] conjI exI [of _ left]) simp_all
  qed
qed


lemma ring_length_ok_4: "ring_length_ok 4"
  unfolding ring_length_ok_def by (rule exI [of _ 2]) simp


theorem take_published_hostile_witness:
  "ring_index 4 (subs_head \<lparr>subs_head = 6, subs_fault = None\<rparr>) < 4 \<and>
   fst (take_published 4 \<lparr>subs_head = 6, subs_fault = None\<rparr> 90 empty_slot) = Inl Tail"
  using take_published_hostile [OF ring_length_ok_4, where
      s = "\<lparr>subs_head = 6, subs_fault = None\<rparr>" and published = 90 and words = empty_slot]
  by (simp split: prod.splits)

theorem drain_hostile_witness:
  "\<exists>good k. fst (drain 4 \<lparr>subs_head = 0, subs_fault = None\<rparr> [(1, empty_slot), (77, empty_slot), (2, empty_slot)]) =
     good @ replicate k (Inl Tail) \<and> (\<forall>r \<in> set good. \<exists>c. r = Inr c)"
  using drain_hostile [of "\<lparr>subs_head = 0, subs_fault = None\<rparr>" 4
      "[(1, empty_slot), (77, empty_slot), (2, empty_slot)]"
      "fst (drain 4 \<lparr>subs_head = 0, subs_fault = None\<rparr> [(1, empty_slot), (77, empty_slot), (2, empty_slot)])"
      "snd (drain 4 \<lparr>subs_head = 0, subs_fault = None\<rparr> [(1, empty_slot), (77, empty_slot), (2, empty_slot)])"]
  by fastforce

theorem replies_in_order:
  assumes "ring_length_ok n"
    and "reply_queue.run (channel_new n, snd channel_kernel, channel_domain) ops = (ins, outs, q)"
  shows "ins = outs @ reply_contents q \<and> length (reply_contents q) \<le> n"
  using reply_queue.run_from_empty [OF _ _ assms(2)] assms(1)
  by (simp add: reply_link_ok_def reply_contents_def reply_capacity_def channel_new_def
        ring_new_def channel_kernel_def channel_domain_def)

theorem replies_in_order_witness:
  "fst (reply_queue.run (channel_new 4, snd channel_kernel, channel_domain)
       [Push \<lparr>reply_id = 1, reply_result = 9\<rparr>, Pop]) =
     fst (snd (reply_queue.run (channel_new 4, snd channel_kernel, channel_domain)
       [Push \<lparr>reply_id = 1, reply_result = 9\<rparr>, Pop])) @
     reply_contents (snd (snd (reply_queue.run (channel_new 4, snd channel_kernel, channel_domain)
       [Push \<lparr>reply_id = 1, reply_result = 9\<rparr>, Pop])))"
  using replies_in_order [OF ring_length_ok_4, where
      ops = "[Push \<lparr>reply_id = 1, reply_result = 9\<rparr>, Pop]",
      OF prod.collapse [symmetric, THEN trans, OF prod.collapse [symmetric, THEN arg_cong2 [where f = Pair, OF refl]]]]
  by simp

end
