(* ===== verification/Cell_Supervisor.thy ===== *)
theory Cell_Supervisor
  imports Capability
begin

section \<open>Restartable cells (crates/sys/core/src/cell.rs)\<close>

text \<open>
  A cell is whatever implements the \<open>Cell\<close> trait: its \<open>spawn\<close> and \<open>restart\<close> are parameters, as
  are the three hooks of \<open>RestartHooks\<close>, each a function on the state the hooks own.
\<close>

record cell_identity =
  ident_id :: cell_id
  ident_generation :: u64

datatype health = Running | Failed

record ('c, 'a) supervisor =
  sup_cell :: 'c
  sup_arena :: 'a
  sup_identity :: cell_identity
  sup_heartbeat :: u64
  sup_health :: health

record 'h restart_hooks =
  stop_submissions :: "'h \<Rightarrow> 'h"
  cancel_requests :: "'h \<Rightarrow> 'h"
  revoke_capabilities :: "'h \<Rightarrow> 'h"

definition quiesced :: "'h restart_hooks" where
  "quiesced = \<lparr>stop_submissions = id, cancel_requests = id, revoke_capabilities = id\<rparr>"

definition with_arena ::
  "('s \<Rightarrow> 'e + 'c) \<Rightarrow> cell_id \<Rightarrow> 's \<Rightarrow> 'a \<Rightarrow> 'e + ('c, 'a) supervisor" where
  "with_arena spawn i st ar =
     (case spawn st of
        Inl e \<Rightarrow> Inl e
      | Inr c \<Rightarrow> Inr \<lparr>sup_cell = c, sup_arena = ar,
                      sup_identity = \<lparr>ident_id = i, ident_generation = 0\<rparr>,
                      sup_heartbeat = 0, sup_health = Running\<rparr>)"

definition supervisor_new :: "('s \<Rightarrow> 'e + 'c) \<Rightarrow> 's \<Rightarrow> 'e + ('c, unit) supervisor" where
  "supervisor_new spawn st = with_arena spawn 0 st ()"

definition record_heartbeat :: "('c, 'a) supervisor \<Rightarrow> u64 \<Rightarrow> ('c, 'a) supervisor" where
  "record_heartbeat s tick = s\<lparr>sup_heartbeat := tick\<rparr>"

definition supervisor_call ::
  "('c \<Rightarrow> 'm \<Rightarrow> 'r \<times> 'c) \<Rightarrow> ('c, 'a) supervisor \<Rightarrow> 'm \<Rightarrow> 'r \<times> ('c, 'a) supervisor" where
  "supervisor_call handle s msg =
     (case handle (sup_cell s) msg of (reply, c) \<Rightarrow> (reply, s\<lparr>sup_cell := c\<rparr>))"

text \<open>\<open>saturating_sub\<close> on \<open>u64\<close>.\<close>

definition overdue :: "('c, 'a) supervisor \<Rightarrow> u64 \<Rightarrow> u64 \<Rightarrow> bool" where
  "overdue s tick deadline \<longleftrightarrow>
     (if sup_heartbeat s \<le> tick then tick - sup_heartbeat s else 0) > deadline"

definition restart_with_arena ::
  "('c \<Rightarrow> ('e + unit) \<times> 'c) \<Rightarrow> 'h restart_hooks \<Rightarrow> ('c, 'a) supervisor \<Rightarrow> 'a \<Rightarrow> 'h \<Rightarrow>
   ('e + unit) \<times> ('c, 'a) supervisor \<times> 'h" where
  "restart_with_arena restart_cell hooks s ar h =
     (let h' = (if sup_health s = Running
                then revoke_capabilities hooks (cancel_requests hooks (stop_submissions hooks h))
                else h);
          s1 = s\<lparr>sup_arena := ar\<rparr>
      in case restart_cell (sup_cell s1) of
           (Inl e, c) \<Rightarrow> (Inl e, s1\<lparr>sup_cell := c, sup_health := Failed\<rparr>, h')
         | (Inr _, c) \<Rightarrow>
             (Inr (), s1\<lparr>sup_cell := c, sup_health := Running,
                         sup_identity := (sup_identity s1)
                           \<lparr>ident_generation := ident_generation (sup_identity s1) + 1\<rparr>,
                         sup_heartbeat := 0\<rparr>, h'))"

definition supervisor_restart ::
  "('c \<Rightarrow> ('e + unit) \<times> 'c) \<Rightarrow> 'h restart_hooks \<Rightarrow> ('c, unit) supervisor \<Rightarrow> 'h \<Rightarrow>
   ('e + unit) \<times> ('c, unit) supervisor \<times> 'h" where
  "supervisor_restart restart_cell hooks s h = restart_with_arena restart_cell hooks s () h"

definition watch ::
  "('c \<Rightarrow> ('e + unit) \<times> 'c) \<Rightarrow> 'h restart_hooks \<Rightarrow> ('c, unit) supervisor \<Rightarrow> u64 \<Rightarrow> u64 \<Rightarrow> 'h \<Rightarrow>
   ('e + unit) option \<times> ('c, unit) supervisor \<times> 'h" where
  "watch restart_cell hooks s tick deadline h =
     (if \<not> overdue s tick deadline then (None, s, h)
      else case supervisor_restart restart_cell hooks s h of
             (restarted, s', h') \<Rightarrow> (Some restarted, record_heartbeat s' tick, h'))"

subsection \<open>A run of restarts\<close>

text \<open>The outcomes of a run of restarts, given the arena each one installs.\<close>

fun restarts ::
  "('c \<Rightarrow> ('e + unit) \<times> 'c) \<Rightarrow> 'h restart_hooks \<Rightarrow> ('c, 'a) supervisor \<Rightarrow> 'a list \<Rightarrow> 'h \<Rightarrow>
   ('e + unit) list \<times> ('c, 'a) supervisor \<times> 'h" where
  "restarts restart_cell hooks s [] h = ([], s, h)"
| "restarts restart_cell hooks s (ar # ars) h =
     (case restart_with_arena restart_cell hooks s ar h of
        (res, s', h') \<Rightarrow>
          (case restarts restart_cell hooks s' ars h' of (ress, s'', h'') \<Rightarrow> (res # ress, s'', h'')))"

definition hooks_once :: "'h restart_hooks \<Rightarrow> 'h \<Rightarrow> 'h" where
  "hooks_once hooks h = revoke_capabilities hooks (cancel_requests hooks (stop_submissions hooks h))"

text \<open>Whether the supervisor was running before each attempt of a run.\<close>

fun running_before :: "health \<Rightarrow> ('e + unit) list \<Rightarrow> bool list" where
  "running_before hl [] = []"
| "running_before hl (r # rs) = (hl = Running) # running_before (if isl r then Failed else Running) rs"

lemma restart_effect:
  assumes "restart_with_arena restart_cell hooks s ar h = (res, s', h')"
  shows "h' = (if sup_health s = Running then hooks_once hooks h else h)"
    and "sup_health s' = (if isl res then Failed else Running)"
    and "sup_arena s' = ar"
    and "ident_id (sup_identity s') = ident_id (sup_identity s)"
    and "ident_generation (sup_identity s') = ident_generation (sup_identity s) + (if isl res then 0 else 1)"
    and "sup_heartbeat s' = (if isl res then sup_heartbeat s else 0)"
  using assms
  by (auto simp: restart_with_arena_def hooks_once_def Let_def split: prod.splits sum.splits if_splits)

text \<open>
  C37. Over any run of restarts, the hooks run in the order stop, cancel, revoke once for each
  attempt made while running, the generation counts the attempts that succeeded, the identity
  stays, the health is that of the last attempt, and the last arena is installed.
\<close>

theorem restarts_effect:
  "case restarts restart_cell hooks s ars h of (ress, s', h') \<Rightarrow>
     length ress = length ars \<and>
     h' = (hooks_once hooks ^^ length (filter id (running_before (sup_health s) ress))) h \<and>
     ident_id (sup_identity s') = ident_id (sup_identity s) \<and>
     ident_generation (sup_identity s') =
       ident_generation (sup_identity s) + of_nat (length (filter (\<lambda>r. \<not> isl r) ress)) \<and>
     sup_health s' = (if ress = [] then sup_health s else if isl (last ress) then Failed else Running) \<and>
     sup_arena s' = last (sup_arena s # ars)"
proof (induction ars arbitrary: s h)
  case (Cons ar ars)
  obtain res s1 h1 where one: "restart_with_arena restart_cell hooks s ar h = (res, s1, h1)"
    by (cases "restart_with_arena restart_cell hooks s ar h") auto
  obtain ress s2 h2 where rest: "restarts restart_cell hooks s1 ars h1 = (ress, s2, h2)"
    by (cases "restarts restart_cell hooks s1 ars h1") auto
  have both: "restarts restart_cell hooks s (ar # ars) h = (res # ress, s2, h2)" by (simp add: one rest)
  note eff = restart_effect [OF one] and IH = Cons.IH [of s1 h1, unfolded rest]
  show ?case unfolding both using eff IH by (auto simp: funpow_swap1)
qed simp

lemma overdue_iff:
  "overdue s t deadline \<longleftrightarrow> unat t > unat (sup_heartbeat s) + unat deadline"
  by (auto simp: overdue_def word_less_nat_alt word_le_nat_alt unat_sub)

theorem watch_deadline:
  "case watch restart_cell hooks s tick deadline h of (out, s', h') \<Rightarrow>
     (out = None \<longleftrightarrow> unat tick \<le> unat (sup_heartbeat s) + unat deadline) \<and>
     (if out = None then s' = s \<and> h' = h
      else h' = (if sup_health s = Running then hooks_once hooks h else h) \<and>
        (\<forall>t. overdue s' t deadline \<longleftrightarrow> unat t > unat tick + unat deadline))"
proof -
  obtain res s1 h1 where one: "restart_with_arena restart_cell hooks s () h = (res, s1, h1)"
    by (cases "restart_with_arena restart_cell hooks s () h") auto
  have "sup_heartbeat (record_heartbeat s1 tick) = tick" by (simp add: record_heartbeat_def)
  then show ?thesis
    using restart_effect(1) [OF one] 
    by (auto simp: overdue_iff watch_def supervisor_restart_def one)
qed

end
