(* ===== verification/Spans.thy ===== *)
theory Spans
  imports Prelude
begin

section \<open>Sorted, disjoint address spans\<close>

text \<open>
  The address space's free list, the leaf counts and the heap's free list are all lists of
  half-open ranges in address order that never overlap. Here they are lists over any record
  type with a start and an end, given by the functions \<open>st\<close> and \<open>en\<close>. \<open>spans st en lo xs hi\<close>
  says that the records are non-empty, in order, disjoint and inside \<open>[lo, hi)\<close>;
  \<open>span_at\<close> is the record that covers an address.
\<close>

fun spans :: "('h \<Rightarrow> nat) \<Rightarrow> ('h \<Rightarrow> nat) \<Rightarrow> nat \<Rightarrow> 'h list \<Rightarrow> nat \<Rightarrow> bool" where
  "spans st en lo [] hi \<longleftrightarrow> lo \<le> hi"
| "spans st en lo (h # hs) hi \<longleftrightarrow> lo \<le> st h \<and> st h < en h \<and> spans st en (en h) hs hi"

definition span_at :: "('h \<Rightarrow> nat) \<Rightarrow> ('h \<Rightarrow> nat) \<Rightarrow> 'h list \<Rightarrow> nat \<Rightarrow> 'h option" where
  "span_at st en hs x = find (\<lambda>h. st h \<le> x \<and> x < en h) hs"

definition span_bytes :: "('h \<Rightarrow> nat) \<Rightarrow> ('h \<Rightarrow> nat) \<Rightarrow> 'h list \<Rightarrow> nat" where
  "span_bytes st en hs = (\<Sum>h \<leftarrow> hs. en h - st h)"

lemma span_at_simps [simp]:
  "span_at st en [] x = None"
  "span_at st en (h # hs) x = (if st h \<le> x \<and> x < en h then Some h else span_at st en hs x)"
  by (simp_all add: span_at_def)

lemma span_bytes_simps [simp]:
  "span_bytes st en [] = 0"
  "span_bytes st en (h # hs) = en h - st h + span_bytes st en hs"
  "span_bytes st en (hs @ hs') = span_bytes st en hs + span_bytes st en hs'"
  by (simp_all add: span_bytes_def)

lemma span_at_append:
  "span_at st en (xs @ ys) x = (case span_at st en xs x of None \<Rightarrow> span_at st en ys x | Some h \<Rightarrow> Some h)"
  by (induction xs) auto

lemma spans_le: "spans st en lo xs hi \<Longrightarrow> lo \<le> hi"
proof (induction xs arbitrary: lo)
  case (Cons h hs)
  then have "lo \<le> st h" "st h < en h" "en h \<le> hi" by auto
  then show ?case by simp
qed simp

lemma spans_weaken: "spans st en lo xs hi \<Longrightarrow> lo' \<le> lo \<Longrightarrow> hi \<le> hi' \<Longrightarrow> spans st en lo' xs hi'"
proof (induction xs arbitrary: lo lo')
  case (Cons h hs)
  then show ?case using Cons.IH [of "en h" "en h"] by auto
qed simp

lemma spans_append:
  "spans st en lo (xs @ ys) hi \<longleftrightarrow> (\<exists>m. spans st en lo xs m \<and> spans st en m ys hi)"
proof (induction xs arbitrary: lo)
  case Nil
  show ?case using spans_weaken [of st en _ ys hi lo hi] by auto
qed auto

lemma spans_mem:
  "spans st en lo xs hi \<Longrightarrow> h \<in> set xs \<Longrightarrow> lo \<le> st h \<and> st h < en h \<and> en h \<le> hi"
proof (induction xs arbitrary: lo)
  case (Cons x xs)
  then show ?case using spans_le [of st en "en x" xs hi] by force
qed simp

lemma spans_upper: "spans st en lo xs hi \<Longrightarrow> (\<And>h. h \<in> set xs \<Longrightarrow> en h \<le> m) \<Longrightarrow> lo \<le> m \<Longrightarrow> spans st en lo xs m"
  by (induction xs arbitrary: lo) auto

text \<open>The last record before a point, in a list cut at that point.\<close>

lemma spans_snoc:
  "spans st en lo (xs @ [h]) hi \<longleftrightarrow> spans st en lo xs (st h) \<and> st h < en h \<and> en h \<le> hi"
proof -
  have "spans st en lo xs (st h)" if "spans st en lo xs m" "m \<le> st h" for m
    using that by (rule spans_weaken [OF _ order_refl])
  then show ?thesis by (auto simp: spans_append)
qed

lemma span_at_bounds:
  "spans st en lo xs hi \<Longrightarrow> span_at st en xs x = Some h \<Longrightarrow> h \<in> set xs \<and> st h \<le> x \<and> x < en h \<and> lo \<le> x \<and> x < hi"
proof (induction xs arbitrary: lo)
  case (Cons y ys)
  then show ?case using spans_le [of st en "en y" ys hi] by (force split: if_splits)
qed simp

lemma span_at_outside: "spans st en lo xs hi \<Longrightarrow> x < lo \<or> hi \<le> x \<Longrightarrow> span_at st en xs x = None"
  using span_at_bounds [of st en lo xs hi x] by (cases "span_at st en xs x") force+

lemma span_at_mem:
  "spans st en lo xs hi \<Longrightarrow> h \<in> set xs \<Longrightarrow> st h \<le> x \<Longrightarrow> x < en h \<Longrightarrow> span_at st en xs x = Some h"
proof (induction xs arbitrary: lo)
  case (Cons y ys)
  then show ?case using spans_mem [of st en "en y" ys hi h] by auto
qed simp

lemma span_at_nth:
  "spans st en lo xs hi \<Longrightarrow> i < length xs \<Longrightarrow> st (xs ! i) \<le> x \<Longrightarrow> x < en (xs ! i) \<Longrightarrow>
   span_at st en xs x = Some (xs ! i)"
  by (rule span_at_mem) simp_all

lemma spans_nth_order:
  assumes "spans st en lo xs hi" and "i < j" and "j < length xs"
  shows "en (xs ! i) \<le> st (xs ! j)"
proof -
  have xs: "xs = take i xs @ xs ! i # drop (Suc i) xs" using assms by (simp add: id_take_nth_drop)
  have "spans st en lo (take i xs @ xs ! i # drop (Suc i) xs) hi" using assms(1) xs by simp
  then have "spans st en (en (xs ! i)) (drop (Suc i) xs) hi" by (auto simp: spans_append)
  moreover have "xs ! j \<in> set (drop (Suc i) xs)"
    using assms by (auto simp: in_set_conv_nth intro!: exI [of _ "j - Suc i"])
  ultimately show ?thesis using spans_mem by metis
qed

lemma spans_mem_disjoint:
  assumes "spans st en lo xs hi" and "g \<in> set xs" and "h \<in> set xs" and "st g < en h" and "st h < en g"
  shows "g = h"
proof -
  let ?x = "max (st g) (st h)"
  have "st g < en g" "st h < en h" using spans_mem [OF assms(1)] assms(2,3) by auto
  then show ?thesis
    using span_at_mem [OF assms(1,2), of ?x] span_at_mem [OF assms(1,3), of ?x] assms(4,5) by simp
qed

text \<open>The records starting below a point are a prefix: what \<open>partition_point\<close> needs.\<close>

lemma spans_partition:
  assumes "spans st en lo xs hi" and "at = partition_point (\<lambda>h. st h < p) xs"
  shows "\<And>h. h \<in> set (take at xs) \<Longrightarrow> st h < p" and "\<And>h. h \<in> set (drop at xs) \<Longrightarrow> p \<le> st h"
proof -
  show "st h < p" if "h \<in> set (take at xs)" for h
    using that unfolding assms(2) partition_point_def takeWhile_eq_take [symmetric]
    by (rule set_takeWhileD [THEN conjunct2])
  show "p \<le> st h" if mem: "h \<in> set (drop at xs)" for h
  proof -
    have "drop at xs \<noteq> []" using mem by auto
    then have first: "p \<le> st (xs ! at)" and lt: "at < length xs"
      using partition_point_at [of "\<lambda>h. st h < p" xs] assms(2) by auto
    obtain k where "k < length xs - at" "h = xs ! (at + k)"
      using mem lt by (auto simp: in_set_conv_nth)
    then obtain j where j: "h = xs ! j" "at \<le> j" "j < length xs" using lt by auto
    show ?thesis
    proof (cases "j = at")
      case True
      then show ?thesis using first j by simp
    next
      case False
      then have "en (xs ! at) \<le> st h" using spans_nth_order [OF assms(1), of at j] j by simp
      moreover have "st (xs ! at) < en (xs ! at)" using spans_mem [OF assms(1)] lt by simp
      ultimately show ?thesis using first by simp
    qed
  qed
qed

lemma spans_cut:
  "spans st en lo xs hi \<Longrightarrow> (\<And>h. h \<in> set xs \<Longrightarrow> \<not> (st h < a \<and> a < en h)) \<Longrightarrow> lo \<le> a \<Longrightarrow> a \<le> hi \<Longrightarrow>
   \<exists>pre post. xs = pre @ post \<and> spans st en lo pre a \<and> spans st en a post hi"
proof (induction xs arbitrary: lo)
  case (Cons h hs)
  show ?case
  proof (cases "en h \<le> a")
    case True
    obtain pre post where "hs = pre @ post" "spans st en (en h) pre a" "spans st en a post hi"
      using Cons.IH [of "en h"] Cons.prems True by auto
    then show ?thesis using Cons.prems(1) by (intro exI [of _ "h # pre"] exI [of _ post]) simp
  next
    case False
    then have "a \<le> st h" using Cons.prems(2) [of h] by auto
    then show ?thesis using Cons.prems by (intro exI [of _ "[]"] exI [of _ "h # hs"]) simp
  qed
qed simp

lemma spans_filter: "spans st en lo xs hi \<Longrightarrow> spans st en lo (filter P xs) hi"
proof (induction xs arbitrary: lo)
  case (Cons x xs)
  then show ?case using spans_weaken [of st en "en x" "filter P xs" hi lo hi] by auto
qed simp

lemma span_at_filter:
  "spans st en lo xs hi \<Longrightarrow> span_at st en (filter P xs) x = Option.bind (span_at st en xs x) (\<lambda>h. if P h then Some h else None)"
proof (induction xs arbitrary: lo)
  case (Cons h hs)
  have "span_at st en (filter P hs) x = None" if "x < en h"
    using span_at_outside [OF spans_filter [of st en "en h" hs hi]] Cons.prems that by auto
  then show ?case using Cons by auto
qed simp

lemma spans_bytes_le: "spans st en lo xs hi \<Longrightarrow> span_bytes st en xs \<le> hi - lo"
proof (induction xs arbitrary: lo)
  case (Cons h hs)
  then have "span_bytes st en hs \<le> hi - en h" "en h \<le> hi" "lo \<le> st h" "st h < en h"
    using Cons.IH [of "en h"] spans_le [of st en "en h" hs hi] by auto
  then show ?case by simp
qed simp

lemma spans_bytes_card: "spans st en lo xs hi \<Longrightarrow> card {x. span_at st en xs x \<noteq> None} = span_bytes st en xs"
proof (induction xs arbitrary: lo)
  case (Cons h hs)
  have tail: "spans st en (en h) hs hi" and pos: "st h < en h" using Cons.prems by auto
  have "{x. span_at st en (h # hs) x \<noteq> None} = {st h..<en h} \<union> {x. span_at st en hs x \<noteq> None}" by auto
  moreover have "{st h..<en h} \<inter> {x. span_at st en hs x \<noteq> None} = {}"
    using span_at_outside [OF tail] by fastforce
  moreover have "finite {x. span_at st en hs x \<noteq> None}"
    by (rule finite_subset [of _ "{..<hi}"]) (use span_at_bounds [OF tail] in auto)
  ultimately show ?case using Cons.IH [OF tail] pos by (simp add: card_Un_disjoint)
qed simp

section \<open>Joining neighbours\<close>

lemma option_rel_trans:
  "transp R \<Longrightarrow> rel_option R a b \<Longrightarrow> rel_option R b c \<Longrightarrow> rel_option R a c"
  by (cases a; cases b; cases c) (auto dest: transpD)

text \<open>What joining adjacent records keeps, for any rule that joins two touching records into the
  record that covers both.\<close>

locale span_join =
  fixes st en :: "'h \<Rightarrow> nat"
    and joins :: "'h \<Rightarrow> 'h \<Rightarrow> bool"
    and join :: "'h \<Rightarrow> 'h \<Rightarrow> 'h"
  assumes touch: "joins p n \<Longrightarrow> en p = st n"
    and join_start: "joins p n \<Longrightarrow> st (join p n) = st p"
    and join_end: "joins p n \<Longrightarrow> en (join p n) = en n"
    and joins_first: "joins n m \<Longrightarrow> joins p (join n m) \<Longrightarrow> joins p n"
begin

abbreviation joined :: "'h list \<Rightarrow> 'h list" where
  "joined \<equiv> join_list joins join"

lemmas joined_induct = join_list_induct [where J = joins and f = join, case_names short join skip]

lemma joined_spans: "spans st en lo hs hi \<Longrightarrow> spans st en lo (joined hs) hi"
proof (induction hs arbitrary: lo rule: joined_induct)
  case (join p n xs)
  then show ?case using touch join_start join_end by simp
qed (simp_all add: join_list_short)

lemma joined_bytes: "spans st en lo hs hi \<Longrightarrow> span_bytes st en (joined hs) = span_bytes st en hs"
proof (induction hs arbitrary: lo rule: joined_induct)
  case (join p n xs)
  have pos: "st p < en p" "st n < en n" "en p = st n" using join.prems touch [OF join.hyps] by auto
  have "spans st en lo (join p n # xs) hi"
    using join.prems pos join_start [OF join.hyps] join_end [OF join.hyps] by auto
  from join.IH [OF this] show ?case using join.hyps pos join_start [OF join.hyps] join_end [OF join.hyps] by simp
qed (auto simp: join_list_short)

lemma joined_all:
  assumes "\<And>p n. Q p \<Longrightarrow> Q n \<Longrightarrow> joins p n \<Longrightarrow> Q (join p n)"
  shows "\<forall>h \<in> set hs. Q h \<Longrightarrow> \<forall>h \<in> set (joined hs). Q h"
proof (induction hs rule: joined_induct)
  case (join p n xs)
  then show ?case using assms by simp
qed (auto simp: join_list_short)

lemma joined_at:
  assumes refl: "\<And>v. R v v" and trans: "transp R"
    and keep: "\<And>p n. joins p n \<Longrightarrow> R (val p) (val (join p n)) \<and> R (val n) (val (join p n))"
  shows "spans st en lo hs hi \<Longrightarrow>
    rel_option R (map_option val (span_at st en hs x)) (map_option val (span_at st en (joined hs) x))"
proof (induction hs arbitrary: lo rule: joined_induct)
  case (short xs)
  then show ?case using refl by (simp add: join_list_short option.rel_refl)
next
  case (join p n xs)
  have sp: "spans st en lo (join p n # xs) hi"
    using join.prems join_start [OF join.hyps] join_end [OF join.hyps] touch [OF join.hyps] by auto
  have "rel_option R (map_option val (span_at st en (p # n # xs) x)) (map_option val (span_at st en (join p n # xs) x))"
    using join.prems join_start [OF join.hyps] join_end [OF join.hyps] touch [OF join.hyps] keep [OF join.hyps]
    by (auto simp: option.rel_refl [OF refl])
  moreover have "rel_option R (map_option val (span_at st en (join p n # xs) x)) (map_option val (span_at st en (joined (p # n # xs)) x))"
    using join.IH [OF sp] join.hyps by simp
  ultimately show ?case
    by (rule option_rel_trans [OF trans])
next
  case (skip p n xs)
  have "spans st en (en p) (n # xs) hi" using skip.prems by simp
  from skip.IH [OF this] show ?case using skip.hyps refl by simp
qed

lemma joined_hd:
  "hs \<noteq> [] \<Longrightarrow> joined hs \<noteq> [] \<and> (joins p (hd (joined hs)) \<longrightarrow> joins p (hd hs))"
proof (induction hs rule: joined_induct)
  case (join q n xs)
  then show ?case using joins_first [OF join.hyps] by simp
qed (auto simp: join_list_short)

lemma joined_settled: "Suc i < length (joined hs) \<Longrightarrow> \<not> joins (joined hs ! i) (joined hs ! Suc i)"
proof (induction hs arbitrary: i rule: joined_induct)
  case (skip p n xs)
  have "hd (joined (n # xs)) = joined (n # xs) ! 0" using joined_hd [of "n # xs"] by (simp add: hd_conv_nth)
  then have "\<not> joins p (joined (n # xs) ! 0)" using joined_hd [of "n # xs" p] skip.hyps by simp
  then show ?case using skip by (cases i) simp_all
qed (auto simp: join_list_short)

end

end
