(* ===== verification/Va_Arena.thy ===== *)
theory Va_Arena
  imports Spans
begin

section \<open>Arenas of the virtual address space (crates/sys/arch/src/va.rs)\<close>

text \<open>
  One arena per leaf size, each a free list in a fixed slice of hole slots of which the first
  \<open>arena_len\<close> are live. A released range is stamped with the open epoch and comes back into
  circulation only when that epoch is retired. Addresses and epochs are natural numbers; the
  arithmetic that the source checks is checked here.
\<close>

subsection \<open>Classes, epochs, regions, extents\<close>

definition FRAME_SIZE :: nat where "FRAME_SIZE = 4096"

datatype va_error = Width | Storage | NoBytes | Exhausted | NoSlot | Foreign | Overlap

datatype leaf_class = Page | Mega | Giga

definition class_ALL :: "leaf_class list" where
  "class_ALL = [Page, Mega, Giga]"

definition FANOUT :: nat where "FANOUT = 512"

primrec level :: "leaf_class \<Rightarrow> nat" where
  "level Page = 0"
| "level Mega = 1"
| "level Giga = 2"

definition granule :: "leaf_class \<Rightarrow> nat" where
  "granule c = push_bit (9 * level c) FRAME_SIZE"

primrec smaller :: "leaf_class \<Rightarrow> leaf_class option" where
  "smaller Page = None"
| "smaller Mega = Some Page"
| "smaller Giga = Some Mega"

primrec larger :: "leaf_class \<Rightarrow> leaf_class option" where
  "larger Page = Some Mega"
| "larger Mega = Some Giga"
| "larger Giga = None"

definition class_at :: "nat \<Rightarrow> leaf_class option" where
  "class_at lv = (if lv = 0 then Some Page else if lv = 1 then Some Mega
                  else if lv = 2 then Some Giga else None)"

type_synonym epoch = nat

definition epoch_FIRST :: epoch where "epoch_FIRST = 0"

definition epoch_next :: "epoch \<Rightarrow> epoch" where
  "epoch_next e = saturating_add e 1"

record va_region =
  reg_start :: nat
  reg_end :: nat

definition va_region_new :: "nat \<Rightarrow> nat \<Rightarrow> va_error + va_region" where
  "va_region_new s e = (if s \<ge> e then Inl NoBytes else Inr \<lparr>reg_start = s, reg_end = e\<rparr>)"

definition reg_bytes :: "va_region \<Rightarrow> nat" where
  "reg_bytes r = reg_end r - reg_start r"

definition reg_contains :: "va_region \<Rightarrow> nat \<Rightarrow> bool" where
  "reg_contains r a \<longleftrightarrow> reg_start r \<le> a \<and> a < reg_end r"

definition reg_covers :: "va_region \<Rightarrow> va_region \<Rightarrow> bool" where
  "reg_covers r other \<longleftrightarrow> reg_start r \<le> reg_start other \<and> reg_end other \<le> reg_end r"

record extent =
  ext_region :: va_region
  ext_class :: leaf_class

definition ext_bytes :: "extent \<Rightarrow> nat" where
  "ext_bytes x = reg_bytes (ext_region x)"

definition ext_leaves :: "extent \<Rightarrow> nat" where
  "ext_leaves x = reg_bytes (ext_region x) div granule (ext_class x)"

subsection \<open>One arena\<close>

record hole =
  hole_start :: nat
  hole_end :: nat
  hole_ready :: epoch

definition hole_EMPTY :: hole where
  "hole_EMPTY = \<lparr>hole_start = 0, hole_end = 0, hole_ready = epoch_FIRST\<rparr>"

definition hole_bytes :: "hole \<Rightarrow> nat" where
  "hole_bytes h = hole_end h - hole_start h"

record arena =
  arena_class :: leaf_class
  arena_bounds :: va_region
  arena_holes :: "hole list"
  arena_len :: nat

definition arena_live :: "arena \<Rightarrow> hole list" where
  "arena_live a = take (arena_len a) (arena_holes a)"

definition arena_new :: "leaf_class \<Rightarrow> va_region \<Rightarrow> hole list \<Rightarrow> va_error + arena" where
  "arena_new c bounds holes =
     (if holes = [] then Inl Storage
      else if reg_bytes bounds < granule c \<or> reg_start bounds mod granule c \<noteq> 0 then Inl Width
      else Inr \<lparr>arena_class = c, arena_bounds = bounds,
                arena_holes = (replicate (length holes) hole_EMPTY)
                  [0 := \<lparr>hole_start = reg_start bounds, hole_end = reg_end bounds, hole_ready = epoch_FIRST\<rparr>],
                arena_len = 1\<rparr>)"

definition arena_remove :: "arena \<Rightarrow> nat \<Rightarrow> arena" where
  "arena_remove a i =
     (let holes = copy_within (arena_holes a) (i + 1) (arena_len a) i;
          n = arena_len a - 1
      in a\<lparr>arena_holes := holes[n := hole_EMPTY], arena_len := n\<rparr>)"

definition arena_allocate :: "arena \<Rightarrow> nat \<Rightarrow> epoch \<Rightarrow> (va_error + extent) \<times> arena" where
  "arena_allocate a bytes retired =
     (case checked_next_multiple_of bytes (granule (arena_class a)) of
        None \<Rightarrow> (Inl Exhausted, a)
      | Some sz \<Rightarrow>
          (case find_index (\<lambda>h. hole_ready h \<le> retired \<and> hole_bytes h \<ge> sz) (arena_live a) of
             None \<Rightarrow> (Inl Exhausted, a)
           | Some i \<Rightarrow>
               (let hole = arena_holes a ! i; start = hole_start hole;
                    hole' = hole\<lparr>hole_start := start + sz\<rparr>;
                    a' = a\<lparr>arena_holes := (arena_holes a)[i := hole']\<rparr>;
                    a'' = (if hole_start hole' = hole_end hole' then arena_remove a' i else a')
                in (Inr \<lparr>ext_region = \<lparr>reg_start = start, reg_end = start + sz\<rparr>,
                         ext_class = arena_class a\<rparr>, a''))))"

definition arena_release :: "arena \<Rightarrow> extent \<Rightarrow> epoch \<Rightarrow> (va_error \<times> extent + unit) \<times> arena" where
  "arena_release a x ready =
     (if ext_class x \<noteq> arena_class a \<or> \<not> reg_covers (arena_bounds a) (ext_region x)
      then (Inl (Foreign, x), a)
      else
        (let start = reg_start (ext_region x); fin = reg_end (ext_region x);
             holes = arena_holes a;
             at = partition_point (\<lambda>h. hole_start h < fin) (arena_live a)
         in if at > 0 \<and> hole_end (holes ! (at - 1)) > start then (Inl (Overlap, x), a)
            else
              (let full = (arena_len a = length holes);
                   joins = (\<lambda>h. full \<or> hole_ready h = ready);
                   below = (at > 0 \<and> hole_end (holes ! (at - 1)) = start \<and> joins (holes ! (at - 1)));
                   above = (at < arena_len a \<and> hole_start (holes ! at) = fin \<and> joins (holes ! at))
               in if below \<and> above then
                    (Inr (), arena_remove
                       (a\<lparr>arena_holes := holes[at - 1 := (holes ! (at - 1))
                            \<lparr>hole_end := hole_end (holes ! at), hole_ready := ready\<rparr>]\<rparr>) at)
                  else if below then
                    (Inr (), a\<lparr>arena_holes := holes[at - 1 := (holes ! (at - 1))
                            \<lparr>hole_end := fin, hole_ready := ready\<rparr>]\<rparr>)
                  else if above then
                    (Inr (), a\<lparr>arena_holes := holes[at := (holes ! at)
                            \<lparr>hole_start := start, hole_ready := ready\<rparr>]\<rparr>)
                  else if full then (Inl (NoSlot, x), a)
                  else
                    (Inr (), a\<lparr>arena_holes := (copy_within holes at (arena_len a) (at + 1))
                            [at := \<lparr>hole_start = start, hole_end = fin, hole_ready = ready\<rparr>],
                          arena_len := arena_len a + 1\<rparr>))))"

function settle_from :: "arena \<Rightarrow> epoch \<Rightarrow> nat \<Rightarrow> arena" where
  "settle_from a retired i =
     (if i + 1 < arena_len a then
        (let hole = arena_holes a ! i; nxt = arena_holes a ! (i + 1)
         in if hole_end hole = hole_start nxt \<and> hole_ready hole \<le> retired \<and> hole_ready nxt \<le> retired
            then settle_from
                   (arena_remove
                      (a\<lparr>arena_holes := (arena_holes a)[i := hole
                           \<lparr>hole_end := hole_end nxt, hole_ready := max (hole_ready hole) (hole_ready nxt)\<rparr>]\<rparr>)
                      (i + 1)) retired i
            else settle_from a retired (i + 1))
      else a)"
  by auto
termination
  by (relation "measure (\<lambda>(a, retired, i). arena_len a - i)") (auto simp: arena_remove_def Let_def)

declare settle_from.simps [simp del]

definition arena_settle :: "arena \<Rightarrow> epoch \<Rightarrow> arena" where
  "arena_settle a retired = settle_from a retired 0"

definition arena_free :: "arena \<Rightarrow> epoch \<Rightarrow> nat" where
  "arena_free a retired = (\<Sum>h \<leftarrow> filter (\<lambda>h. hole_ready h \<le> retired) (arena_live a). hole_bytes h)"

definition arena_quarantined :: "arena \<Rightarrow> epoch \<Rightarrow> nat" where
  "arena_quarantined a retired = (\<Sum>h \<leftarrow> filter (\<lambda>h. hole_ready h > retired) (arena_live a). hole_bytes h)"

definition arena_largest :: "arena \<Rightarrow> epoch \<Rightarrow> nat" where
  "arena_largest a retired =
     fold max (map hole_bytes (filter (\<lambda>h. hole_ready h \<le> retired) (arena_live a))) 0"

subsection \<open>The free list behind the slice\<close>

lemma granule_pos [simp]: "0 < granule c"
  by (cases c) (simp_all add: granule_def FRAME_SIZE_def)

lemma hole_EMPTY_fields [simp]: "hole_start hole_EMPTY = 0" "hole_end hole_EMPTY = 0"
  by (simp_all add: hole_EMPTY_def)

abbreviation hole_spans :: "nat \<Rightarrow> hole list \<Rightarrow> nat \<Rightarrow> bool" where
  "hole_spans \<equiv> spans hole_start hole_end"

definition arena_ok :: "arena \<Rightarrow> epoch \<Rightarrow> bool" where
  "arena_ok a open_epoch \<longleftrightarrow>
     arena_len a \<le> length (arena_holes a) \<and>
     granule (arena_class a) dvd reg_start (arena_bounds a) \<and>
     granule (arena_class a) dvd reg_end (arena_bounds a) \<and>
     reg_end (arena_bounds a) < u64_limit \<and>
     hole_spans (reg_start (arena_bounds a)) (arena_live a) (reg_end (arena_bounds a)) \<and>
     (\<forall>h \<in> set (arena_live a). granule (arena_class a) dvd hole_start h \<and>
        granule (arena_class a) dvd hole_end h \<and> hole_ready h \<le> open_epoch)"

lemma arena_live_length: "arena_len a \<le> length (arena_holes a) \<Longrightarrow> length (arena_live a) = arena_len a"
  by (simp add: arena_live_def)

lemma arena_live_nth: "i < arena_len a \<Longrightarrow> arena_live a ! i = arena_holes a ! i"
  by (simp add: arena_live_def)

lemma arena_live_update:
  "arena_live (a\<lparr>arena_holes := (arena_holes a)[i := h]\<rparr>) = (arena_live a)[i := h]"
  by (simp add: arena_live_def take_update_swap)

lemma arena_live_remove:
  assumes "i < arena_len a" and "arena_len a \<le> length (arena_holes a)"
  shows "arena_live (arena_remove a i) = remove_nth i (arena_live a)"
  using copy_within_remove [OF assms, of hole_EMPTY]
  by (simp add: arena_live_def arena_remove_def Let_def)

lemma arena_remove_fields [simp]:
  "arena_class (arena_remove a i) = arena_class a" "arena_bounds (arena_remove a i) = arena_bounds a"
  "arena_len (arena_remove a i) = arena_len a - 1"
  by (simp_all add: arena_remove_def Let_def)

lemma arena_remove_capacity:
  "i < arena_len a \<Longrightarrow> arena_len a \<le> length (arena_holes a) \<Longrightarrow>
   length (arena_holes (arena_remove a i)) = length (arena_holes a)"
  by (simp add: arena_remove_def Let_def)

text \<open>Every operation leaves the class, the bounds and the slice's capacity alone.\<close>

definition same_arena :: "arena \<Rightarrow> arena \<Rightarrow> bool" where
  "same_arena a b \<longleftrightarrow> arena_class b = arena_class a \<and> arena_bounds b = arena_bounds a \<and>
     length (arena_holes b) = length (arena_holes a)"

lemma same_arena_refl [simp]: "same_arena a a"
  by (simp add: same_arena_def)

text \<open>\<open>allocate\<close> takes the front of one hole.\<close>

lemma arena_allocate_InrD:
  assumes "arena_ok a e" and "arena_allocate a bytes retired = (Inr x, a')" and "0 < bytes"
  obtains pre h post sz where
    "arena_live a = pre @ h # post" and "hole_ready h \<le> retired" and "sz \<le> hole_bytes h"
    and "checked_next_multiple_of bytes (granule (arena_class a)) = Some sz"
    and "\<forall>g \<in> set pre. \<not> (hole_ready g \<le> retired \<and> hole_bytes g \<ge> sz)"
    and "x = \<lparr>ext_region = \<lparr>reg_start = hole_start h, reg_end = hole_start h + sz\<rparr>, ext_class = arena_class a\<rparr>"
    and "arena_live a' = pre @ (if sz = hole_bytes h then [] else [h\<lparr>hole_start := hole_start h + sz\<rparr>]) @ post"
    and "arena_len a' \<le> length (arena_holes a')" and "same_arena a a'"
proof -
  obtain sz where sz: "checked_next_multiple_of bytes (granule (arena_class a)) = Some sz"
    using assms(2) by (auto simp: arena_allocate_def split: option.splits)
  obtain i where i: "find_index (\<lambda>h. hole_ready h \<le> retired \<and> hole_bytes h \<ge> sz) (arena_live a) = Some i"
    using assms(2) sz by (auto simp: arena_allocate_def split: option.splits)
  note found = find_index_SomeD [OF i]
  have cap: "arena_len a \<le> length (arena_holes a)" using assms(1) by (simp add: arena_ok_def)
  then have lt: "i < arena_len a" and len: "length (arena_live a) = arena_len a"
    using found by (simp_all add: arena_live_length)
  define h where "h = arena_holes a ! i"
  have hi: "arena_live a ! i = h" using lt by (simp add: h_def arena_live_nth)
  define b where "b = a\<lparr>arena_holes := (arena_holes a)[i := h\<lparr>hole_start := hole_start h + sz\<rparr>]\<rparr>"
  have pos: "hole_start h < hole_end h"
    using assms(1) spans_mem [of hole_start hole_end _ "arena_live a" _ h] hi lt len
    by (auto simp: arena_ok_def in_set_conv_nth)
  have a': "a' = (if sz = hole_bytes h then arena_remove b i else b)"
    and x: "x = \<lparr>ext_region = \<lparr>reg_start = hole_start h, reg_end = hole_start h + sz\<rparr>, ext_class = arena_class a\<rparr>"
    using assms(2) sz i pos
    by (auto simp: arena_allocate_def Let_def h_def b_def hole_bytes_def split: if_splits)
  have split: "arena_live a = take i (arena_live a) @ h # drop (Suc i) (arena_live a)"
    using hi lt len by (metis id_take_nth_drop)
  have b_live: "arena_live b = take i (arena_live a) @ h\<lparr>hole_start := hole_start h + sz\<rparr> # drop (Suc i) (arena_live a)"
    using lt len by (simp add: b_def arena_live_update upd_conv_take_nth_drop)
  have b_fields: "arena_len b = arena_len a" "length (arena_holes b) = length (arena_holes a)"
    "arena_class b = arena_class a" "arena_bounds b = arena_bounds a"
    by (simp_all add: b_def)
  have live': "arena_live a' = take i (arena_live a) @
      (if sz = hole_bytes h then [] else [h\<lparr>hole_start := hole_start h + sz\<rparr>]) @ drop (Suc i) (arena_live a)"
    using a' b_live b_fields lt cap len by (simp add: arena_live_remove remove_nth_def)
  have cap': "arena_len a' \<le> length (arena_holes a')" and same: "same_arena a a'"
    using a' b_fields lt cap by (auto simp: arena_remove_capacity same_arena_def)
  have none: "\<forall>g \<in> set (take i (arena_live a)). \<not> (hole_ready g \<le> retired \<and> hole_bytes g \<ge> sz)"
    using found len lt by (auto simp: in_set_conv_nth)
  show thesis using that [OF split _ _ sz none x live' cap' same] found hi by simp
qed

text \<open>\<open>release\<close> replaces up to two neighbours and the freed range by one hole.\<close>

lemma arena_release_split:
  assumes "arena_ok a e" and "reg_covers (arena_bounds a) (ext_region x)"
    and "start = reg_start (ext_region x)" and "fin = reg_end (ext_region x)" and "start < fin"
    and "at = partition_point (\<lambda>h. hole_start h < fin) (arena_live a)"
    and "\<not> (at > 0 \<and> hole_end (arena_holes a ! (at - 1)) > start)"
  shows "at \<le> arena_len a" and "hole_spans (reg_start (arena_bounds a)) (take at (arena_live a)) start"
    and "hole_spans fin (drop at (arena_live a)) (reg_end (arena_bounds a))"
proof -
  let ?live = "arena_live a" and ?lo = "reg_start (arena_bounds a)" and ?hi = "reg_end (arena_bounds a)"
  have sp: "hole_spans ?lo ?live ?hi" and len: "length ?live = arena_len a"
    using assms(1) by (simp_all add: arena_ok_def arena_live_length)
  show le: "at \<le> arena_len a" using assms(6) len partition_point_le by metis
  have sp': "hole_spans ?lo (take at ?live @ drop at ?live) ?hi" using sp by simp
  then obtain m where m: "hole_spans ?lo (take at ?live) m" "hole_spans m (drop at ?live) ?hi"
    unfolding spans_append by blast
  have lo: "?lo \<le> start" and hi: "fin \<le> ?hi" using assms(2-4) by (simp_all add: reg_covers_def)
  have "hole_end h \<le> start" if "h \<in> set (take at ?live)" for h
  proof -
    obtain j where j: "j < at" "h = ?live ! j" using \<open>h \<in> set (take at ?live)\<close> len le
      by (auto simp: in_set_conv_nth)
    have last: "hole_end (?live ! (at - 1)) \<le> start"
      using assms(7) j(1) le by (simp add: arena_live_nth)
    show ?thesis
    proof (cases "j = at - 1")
      case True
      then show ?thesis using last j by simp
    next
      case False
      then have "hole_end h \<le> hole_start (?live ! (at - 1))"
        using spans_nth_order [OF sp, of j "at - 1"] j le len by simp
      also have "\<dots> < hole_end (?live ! (at - 1))"
        using spans_mem [OF sp, of "?live ! (at - 1)"] j le len by simp
      finally show ?thesis using last by simp
    qed
  qed
  then show "hole_spans ?lo (take at ?live) start" using spans_upper [OF m(1)] lo by blast
  have "fin \<le> hole_start h" if "h \<in> set (drop at ?live)" for h
    using spans_partition(2) [OF sp assms(6)] that by blast
  then show "hole_spans fin (drop at ?live) ?hi"
    using m(2) hi by (cases "drop at ?live") simp_all
qed

lemma live_parts:
  assumes "arena_len a \<le> length (arena_holes a)"
  shows "0 < at \<Longrightarrow> at \<le> arena_len a \<Longrightarrow>
      take at (arena_live a) = take (at - 1) (arena_live a) @ [arena_holes a ! (at - 1)]"
    and "at < arena_len a \<Longrightarrow> drop at (arena_live a) = arena_holes a ! at # drop (Suc at) (arena_live a)"
  using assms take_Suc_conv_app_nth [of "at - 1" "arena_live a"] Cons_nth_drop_Suc [of at "arena_live a"]
  by (simp_all add: arena_live_length arena_live_nth)

lemma live_results:
  assumes "arena_len a \<le> length (arena_holes a)" and "at \<le> arena_len a"
  shows "0 < at \<Longrightarrow> arena_live (a\<lparr>arena_holes := (arena_holes a)[at - 1 := m]\<rparr>) =
      take (at - 1) (arena_live a) @ m # drop at (arena_live a)"
    and "at < arena_len a \<Longrightarrow> arena_live (a\<lparr>arena_holes := (arena_holes a)[at := m]\<rparr>) =
      take at (arena_live a) @ m # drop (Suc at) (arena_live a)"
    and "0 < at \<Longrightarrow> at < arena_len a \<Longrightarrow>
      arena_live (arena_remove (a\<lparr>arena_holes := (arena_holes a)[at - 1 := m]\<rparr>) at) =
      take (at - 1) (arena_live a) @ m # drop (Suc at) (arena_live a)"
    and "arena_len a < length (arena_holes a) \<Longrightarrow>
      arena_live (a\<lparr>arena_holes := (copy_within (arena_holes a) at (arena_len a) (at + 1))[at := m],
                    arena_len := arena_len a + 1\<rparr>) = take at (arena_live a) @ m # drop at (arena_live a)"
proof -
  have len: "length (arena_live a) = arena_len a" using assms(1) by (rule arena_live_length)
  show below: "arena_live (a\<lparr>arena_holes := (arena_holes a)[at - 1 := m]\<rparr>) =
      take (at - 1) (arena_live a) @ m # drop at (arena_live a)" if "0 < at"
    using that assms len unfolding arena_live_update by (simp add: upd_conv_take_nth_drop)
  show "arena_live (a\<lparr>arena_holes := (arena_holes a)[at := m]\<rparr>) =
      take at (arena_live a) @ m # drop (Suc at) (arena_live a)" if "at < arena_len a"
    using that len unfolding arena_live_update by (simp add: upd_conv_take_nth_drop)
  show "arena_live (arena_remove (a\<lparr>arena_holes := (arena_holes a)[at - 1 := m]\<rparr>) at) =
      take (at - 1) (arena_live a) @ m # drop (Suc at) (arena_live a)" if "0 < at" "at < arena_len a"
  proof -
    have "remove_nth at (take (at - 1) (arena_live a) @ m # drop at (arena_live a)) =
        take (at - 1) (arena_live a) @ m # drop (Suc at) (arena_live a)"
      using that len by (cases at) (simp_all add: remove_nth_def min_def)
    then show ?thesis using that assms below by (simp add: arena_live_remove)
  qed
  show "arena_live (a\<lparr>arena_holes := (copy_within (arena_holes a) at (arena_len a) (at + 1))[at := m],
        arena_len := arena_len a + 1\<rparr>) = take at (arena_live a) @ m # drop at (arena_live a)"
    if "arena_len a < length (arena_holes a)"
    using copy_within_insert [OF assms(2) that] by (simp add: arena_live_def insert_nth_def)
qed

lemma arena_release_InrD:
  assumes "arena_ok a e" and "arena_release a x ready = (Inr (), a')"
    and "reg_start (ext_region x) < reg_end (ext_region x)"
  obtains pre l r post m where
    "arena_live a = pre @ l @ r @ post" and "arena_live a' = pre @ m # post"
    and "l = [] \<and> hole_start m = reg_start (ext_region x) \<or>
         (\<exists>p. l = [p] \<and> hole_start m = hole_start p \<and> hole_end p = reg_start (ext_region x))"
    and "r = [] \<and> hole_end m = reg_end (ext_region x) \<or>
         (\<exists>n. r = [n] \<and> hole_end m = hole_end n \<and> hole_start n = reg_end (ext_region x))"
    and "hole_ready m = ready"
    and "arena_len a = length (arena_holes a) \<or> (\<forall>h \<in> set (l @ r). hole_ready h = ready)"
    and "hole_spans (reg_start (arena_bounds a)) (pre @ l) (reg_start (ext_region x))"
    and "hole_spans (reg_end (ext_region x)) (r @ post) (reg_end (arena_bounds a))"
    and "arena_len a' \<le> length (arena_holes a')" and "same_arena a a'"
    and "ext_class x = arena_class a" and "reg_covers (arena_bounds a) (ext_region x)"
proof -
  define start where "start = reg_start (ext_region x)"
  define fin where "fin = reg_end (ext_region x)"
  define at where "at = partition_point (\<lambda>h. hole_start h < fin) (arena_live a)"
  define full where "full \<longleftrightarrow> arena_len a = length (arena_holes a)"
  define below where "below \<longleftrightarrow> at > 0 \<and> hole_end (arena_holes a ! (at - 1)) = start \<and>
    (full \<or> hole_ready (arena_holes a ! (at - 1)) = ready)"
  define above where "above \<longleftrightarrow> at < arena_len a \<and> hole_start (arena_holes a ! at) = fin \<and>
    (full \<or> hole_ready (arena_holes a ! at) = ready)"
  have cap: "arena_len a \<le> length (arena_holes a)" using assms(1) by (simp add: arena_ok_def)
  have cls: "ext_class x = arena_class a" and cov: "reg_covers (arena_bounds a) (ext_region x)"
    and gap: "\<not> (at > 0 \<and> hole_end (arena_holes a ! (at - 1)) > start)"
    using assms(2) unfolding at_def start_def fin_def arena_release_def Let_def
    by (auto split: if_splits)
  note sp = arena_release_split [OF assms(1) cov start_def fin_def assms(3) [folded start_def fin_def] at_def gap]
  let ?result = "(if below \<and> above then
       (Inr (), arena_remove (a\<lparr>arena_holes := (arena_holes a)[at - 1 := (arena_holes a ! (at - 1))
          \<lparr>hole_end := hole_end (arena_holes a ! at), hole_ready := ready\<rparr>]\<rparr>) at)
     else if below then (Inr (), a\<lparr>arena_holes := (arena_holes a)[at - 1 := (arena_holes a ! (at - 1))
          \<lparr>hole_end := fin, hole_ready := ready\<rparr>]\<rparr>)
     else if above then (Inr (), a\<lparr>arena_holes := (arena_holes a)[at := (arena_holes a ! at)
          \<lparr>hole_start := start, hole_ready := ready\<rparr>]\<rparr>)
     else if full then (Inl (NoSlot, x), a)
     else (Inr (), a\<lparr>arena_holes := (copy_within (arena_holes a) at (arena_len a) (at + 1))
          [at := \<lparr>hole_start = start, hole_end = fin, hole_ready = ready\<rparr>], arena_len := arena_len a + 1\<rparr>))"
  have "arena_release a x ready =
      (if ext_class x \<noteq> arena_class a \<or> \<not> reg_covers (arena_bounds a) (ext_region x) then (Inl (Foreign, x), a)
       else if at > 0 \<and> hole_end (arena_holes a ! (at - 1)) > start then (Inl (Overlap, x), a) else ?result)"
    unfolding below_def above_def full_def at_def start_def fin_def arena_release_def Let_def by (rule refl)
  moreover have "\<not> (ext_class x \<noteq> arena_class a \<or> \<not> reg_covers (arena_bounds a) (ext_region x))"
    using cls cov by simp
  ultimately have res: "(Inr (), a') = ?result" using assms(2) gap by (simp only: if_False)
  define l where "l = (if below then [arena_holes a ! (at - 1)] else [])"
  define r where "r = (if above then [arena_holes a ! at] else [])"
  define pre where "pre = (if below then take (at - 1) (arena_live a) else take at (arena_live a))"
  define post where "post = (if above then drop (Suc at) (arena_live a) else drop at (arena_live a))"
  define m where "m = \<lparr>hole_start = (if below then hole_start (arena_holes a ! (at - 1)) else start),
    hole_end = (if above then hole_end (arena_holes a ! at) else fin), hole_ready = ready\<rparr>"
  note shape = l_def r_def pre_def post_def m_def
  have left: "pre @ l = take at (arena_live a)" and right: "r @ post = drop at (arena_live a)"
    using live_parts [OF cap] sp(1) by (auto simp: shape below_def above_def)
  have "arena_live a = (pre @ l) @ (r @ post)" unfolding left right by simp
  then have live: "arena_live a = pre @ l @ r @ post" by simp
  have live': "arena_live a' = pre @ m # post" and cap': "arena_len a' \<le> length (arena_holes a')"
    and same: "same_arena a a'"
    using res live_results [OF cap sp(1)] sp(1) cap
    by (auto simp: shape below_def above_def full_def same_arena_def arena_remove_capacity split: if_splits)
  show thesis
    by (rule that [OF live live' _ _ _ _ _ _ cap' same cls cov])
      (use left right sp in \<open>auto simp: shape below_def above_def full_def start_def fin_def\<close>)
qed

text \<open>\<open>settle\<close>, read as a function on the free list itself.\<close>

definition joinable :: "epoch \<Rightarrow> hole \<Rightarrow> hole \<Rightarrow> bool" where
  "joinable retired p n \<longleftrightarrow> hole_end p = hole_start n \<and> hole_ready p \<le> retired \<and> hole_ready n \<le> retired"

definition join_holes :: "hole \<Rightarrow> hole \<Rightarrow> hole" where
  "join_holes p n = p\<lparr>hole_end := hole_end n, hole_ready := max (hole_ready p) (hole_ready n)\<rparr>"

lemma join_holes_fields [simp]:
  "hole_start (join_holes p n) = hole_start p" "hole_end (join_holes p n) = hole_end n"
  "hole_ready (join_holes p n) = max (hole_ready p) (hole_ready n)"
  by (simp_all add: join_holes_def)

lemma settle_from_join:
  "settle_from a retired i =
     (case join_from (joinable retired) join_holes hole_EMPTY (arena_holes a) (arena_len a) i of
        (holes, n) \<Rightarrow> a\<lparr>arena_holes := holes, arena_len := n\<rparr>)"
proof (induction a retired i rule: settle_from.induct)
  case (1 a retired i)
  let ?p = "arena_holes a ! i" and ?n = "arena_holes a ! (i + 1)"
  let ?b = "arena_remove (a\<lparr>arena_holes := (arena_holes a)[i := join_holes ?p ?n]\<rparr>) (i + 1)"
  let ?join = "join_from (joinable retired) join_holes hole_EMPTY"
  note here = joinable_def [of retired ?p "arena_holes a ! Suc i"] join_holes_def [of ?p "arena_holes a ! Suc i"]
  consider (stop) "\<not> i + 1 < arena_len a" | (join) "i + 1 < arena_len a" "joinable retired ?p ?n"
    | (skip) "i + 1 < arena_len a" "\<not> joinable retired ?p ?n" by blast
  then show ?case
  proof cases
    case stop
    then show ?thesis by (simp add: settle_from.simps [of a retired i] join_from.simps [of _ _ _ _ _ i])
  next
    case join
    have "settle_from a retired i = settle_from ?b retired i"
      using join by (subst settle_from.simps) (simp add: joinable_def join_holes_def Let_def)
    moreover have "?join (arena_holes a) (arena_len a) i = ?join (arena_holes ?b) (arena_len ?b) i"
      using join by (subst join_from.simps) (simp add: arena_remove_def array_remove_def Let_def)
    moreover have "settle_from ?b retired i =
        (case ?join (arena_holes ?b) (arena_len ?b) i of (holes, n) \<Rightarrow> ?b\<lparr>arena_holes := holes, arena_len := n\<rparr>)"
      using "1.IH"(1) [OF join(1) refl refl] join(2) by (simp add: here)
    ultimately show ?thesis by (simp add: arena_remove_def Let_def)
  next
    case skip
    have "settle_from a retired i = settle_from a retired (i + 1)"
      using skip by (subst settle_from.simps) (auto simp: joinable_def Let_def)
    moreover have "?join (arena_holes a) (arena_len a) i = ?join (arena_holes a) (arena_len a) (i + 1)"
      using skip by (subst join_from.simps) simp
    moreover note "1.IH"(2) [OF skip(1) refl refl]
    ultimately show ?thesis using skip(2) by (simp add: here)
  qed
qed

abbreviation settle_list :: "epoch \<Rightarrow> hole list \<Rightarrow> hole list" where
  "settle_list retired \<equiv> join_list (joinable retired) join_holes"

lemma settle_live:
  assumes "arena_len a \<le> length (arena_holes a)"
  shows "arena_live (arena_settle a retired) = settle_list retired (arena_live a)"
    and "arena_len (arena_settle a retired) \<le> length (arena_holes (arena_settle a retired))"
    and "same_arena a (arena_settle a retired)"
  using join_from_list [OF assms, where J = "joinable retired" and f = join_holes and e = hole_EMPTY and i = 0]
  by (auto simp: arena_settle_def settle_from_join arena_live_def same_arena_def split: prod.splits)

interpretation hole_join: span_join hole_start hole_end "joinable retired" join_holes for retired
  by unfold_locales (auto simp: joinable_def)

subsection \<open>What an address is: held, or free from an epoch on\<close>

text \<open>\<open>ready_at\<close> is the abstract state of the free list: for each address, \<open>None\<close> when it is not in
  the list, and otherwise the epoch whose retirement makes it allocatable.\<close>

definition ready_at :: "hole list \<Rightarrow> nat \<Rightarrow> epoch option" where
  "ready_at hs x = map_option hole_ready (span_at hole_start hole_end hs x)"

lemma ready_at_simps [simp]:
  "ready_at [] x = None"
  "ready_at (h # hs) x = (if hole_start h \<le> x \<and> x < hole_end h then Some (hole_ready h) else ready_at hs x)"
  by (simp_all add: ready_at_def)

lemma ready_at_append:
  "ready_at (xs @ ys) x = (case ready_at xs x of None \<Rightarrow> ready_at ys x | Some e \<Rightarrow> Some e)"
  by (simp add: ready_at_def span_at_append split: option.splits)

lemma ready_at_outside: "hole_spans lo hs hi \<Longrightarrow> x < lo \<or> hi \<le> x \<Longrightarrow> ready_at hs x = None"
  by (simp add: ready_at_def span_at_outside)

text \<open>Settling moves no address in or out, and none across the retired line.\<close>

definition settles_to :: "epoch \<Rightarrow> epoch option \<Rightarrow> epoch option \<Rightarrow> bool" where
  "settles_to retired u v \<longleftrightarrow> u = v \<or> (\<exists>d e. u = Some d \<and> v = Some e \<and> d \<le> e \<and> e \<le> retired)"

lemma settles_to_refl [simp]: "settles_to retired u u"
  by (simp add: settles_to_def)

lemma settle_list_ready:
  assumes "hole_spans lo hs hi"
  shows "settles_to retired (ready_at hs x) (ready_at (settle_list retired hs) x)"
proof -
  let ?R = "\<lambda>d e. d = e \<or> (d \<le> e \<and> e \<le> retired)"
  have "rel_option ?R (ready_at hs x) (ready_at (settle_list retired hs) x)"
    unfolding ready_at_def using assms
    by (intro hole_join.joined_at) (auto simp: joinable_def intro!: transpI)
  then show ?thesis by (cases "ready_at hs x"; cases "ready_at (settle_list retired hs) x") (auto simp: settles_to_def)
qed

definition in_extent :: "extent \<Rightarrow> nat \<Rightarrow> bool" where
  "in_extent x y \<longleftrightarrow> reg_contains (ext_region x) y"

definition extent_ok :: "arena \<Rightarrow> extent \<Rightarrow> bool" where
  "extent_ok a x \<longleftrightarrow> ext_class x = arena_class a \<and> reg_covers (arena_bounds a) (ext_region x) \<and>
     reg_start (ext_region x) < reg_end (ext_region x) \<and>
     granule (arena_class a) dvd reg_start (ext_region x) \<and> granule (arena_class a) dvd reg_end (ext_region x)"

abbreviation arena_total :: "arena \<Rightarrow> nat" where
  "arena_total a \<equiv> span_bytes hole_start hole_end (arena_live a)"

lemma checked_next_multiple_of_bounds:
  assumes "checked_next_multiple_of b g = Some sz" and "0 < b"
  shows "g dvd sz" and "b \<le> sz" and "sz < b + g" and "0 < sz"
proof -
  have g: "0 < g" using assms(1) by (auto simp: checked_next_multiple_of_def split: if_splits)
  define q r where "q = b div g" and "r = b mod g"
  have b: "b = g * q + r" and r: "r < g" using g by (simp_all add: q_def r_def)
  have "sz = (if r = 0 then b else b + (g - r))"
    using assms(1) by (auto simp: checked_next_multiple_of_def r_def split: if_splits)
  then have "sz = (if r = 0 then g * q else g * (q + 1))" using b r by (simp add: algebra_simps)
  then show "g dvd sz" "b \<le> sz" "sz < b + g" "0 < sz" using b r assms(2) g by (auto split: if_splits)
qed

lemma ready_at_front:
  assumes "hole_spans lo (pre @ h # post) hi" and fit: "sz \<le> hole_bytes h"
  shows "ready_at (pre @ (if sz = hole_bytes h then [] else [h\<lparr>hole_start := hole_start h + sz\<rparr>]) @ post) y =
      (if hole_start h \<le> y \<and> y < hole_start h + sz then None else ready_at (pre @ h # post) y)"
proof -
  obtain m where m: "hole_spans lo pre m" "m \<le> hole_start h" "hole_start h < hole_end h"
    "hole_spans (hole_end h) post hi"
    using assms by (auto simp: spans_append)
  have pre: "ready_at pre y = None" if "hole_start h \<le> y" using ready_at_outside [OF m(1)] m(2) that by simp
  have post: "ready_at post y = None" if "y < hole_end h" using ready_at_outside [OF m(4)] that by simp
  show ?thesis using pre post fit m(3)
    by (cases "hole_start h \<le> y"; cases "y < hole_end h")
      (auto simp: ready_at_append hole_bytes_def split: option.splits)
qed

lemma arena_allocate_effect:
  assumes ok: "arena_ok a e" and run: "arena_allocate a bytes retired = (Inr x, a')" and pos: "0 < bytes"
  shows "arena_ok a' e" and "same_arena a a'" and "extent_ok a x"
    and "bytes \<le> ext_bytes x \<and> ext_bytes x < bytes + granule (arena_class a)"
    and "ready_at (arena_live a') y = (if in_extent x y then None else ready_at (arena_live a) y)"
    and "in_extent x y \<Longrightarrow> \<exists>d \<le> retired. ready_at (arena_live a) y = Some d"
    and "arena_total a' + ext_bytes x = arena_total a"
proof -
  let ?lo = "reg_start (arena_bounds a)" and ?hi = "reg_end (arena_bounds a)" and ?g = "granule (arena_class a)"
  obtain pre h post sz where live: "arena_live a = pre @ h # post" and ready: "hole_ready h \<le> retired"
    and fit: "sz \<le> hole_bytes h" and sz: "checked_next_multiple_of bytes ?g = Some sz"
    and x: "x = \<lparr>ext_region = \<lparr>reg_start = hole_start h, reg_end = hole_start h + sz\<rparr>, ext_class = arena_class a\<rparr>"
    and live': "arena_live a' = pre @ (if sz = hole_bytes h then [] else [h\<lparr>hole_start := hole_start h + sz\<rparr>]) @ post"
    and cap: "arena_len a' \<le> length (arena_holes a')" and same: "same_arena a a'"
    using arena_allocate_InrD [OF ok run pos] by metis
  note szs = checked_next_multiple_of_bounds [OF sz pos]
  have sp: "hole_spans ?lo (pre @ h # post) ?hi" using ok live by (simp add: arena_ok_def)
  then have "hole_spans ?lo (pre @ [h] @ post) ?hi" by simp
  then obtain m where m: "hole_spans ?lo pre m" "m \<le> hole_start h" "hole_start h < hole_end h"
    "hole_spans (hole_end h) post ?hi"
    by (auto simp: spans_append)
  have fit': "hole_start h + sz \<le> hole_end h" using fit m(3) by (simp add: hole_bytes_def)
  have aligned: "?g dvd hole_start h" "?g dvd hole_start h + sz" using ok live szs(1) by (auto simp: arena_ok_def)
  have bnd: "?lo \<le> hole_start h" "hole_end h \<le> ?hi" using spans_mem [OF sp, of h] by auto
  show "same_arena a a'" by (fact same)
  show "extent_ok a x" using aligned bnd fit' szs by (simp add: extent_ok_def x reg_covers_def)
  show "bytes \<le> ext_bytes x \<and> ext_bytes x < bytes + ?g" using szs by (simp add: x ext_bytes_def reg_bytes_def)
  show at: "ready_at (arena_live a') y = (if in_extent x y then None else ready_at (arena_live a) y)"
    using ready_at_front [OF sp fit, of y] by (simp add: live live' x in_extent_def reg_contains_def)
  show "\<exists>d \<le> retired. ready_at (arena_live a) y = Some d" if "in_extent x y"
    using span_at_mem [OF sp, of h y] that ready fit' by (auto simp: x in_extent_def reg_contains_def live ready_at_def)
  show "arena_total a' + ext_bytes x = arena_total a"
    using fit' szs(4) by (auto simp: live live' x ext_bytes_def reg_bytes_def hole_bytes_def)
  have "hole_spans ?lo (arena_live a') ?hi"
  proof (cases "sz = hole_bytes h")
    case True
    have "hole_spans m post ?hi" using spans_weaken [OF m(4), of m ?hi] m(2,3) by simp
    then show ?thesis using True m(1) unfolding live' spans_append by auto
  next
    case False
    then have "hole_start h + sz < hole_end h" using fit' m(3) by (simp add: hole_bytes_def)
    then show ?thesis using False m(1,2,4) unfolding live' spans_append by auto
  qed
  then show "arena_ok a' e"
    using ok cap same aligned by (auto simp: arena_ok_def same_arena_def live live' split: if_splits)
qed

lemma ready_merge:
  assumes "hole_spans lo (pre @ l) s" and "hole_spans f (r @ post) hi" and "s < f"
    and l: "l = [] \<and> hole_start m = s \<or> (\<exists>p. l = [p] \<and> hole_start m = hole_start p \<and> hole_end p = s)"
    and r: "r = [] \<and> hole_end m = f \<or> (\<exists>n. r = [n] \<and> hole_end m = hole_end n \<and> hole_start n = f)"
    and y: "\<not> (s \<le> y \<and> y < f)"
  shows "ready_at (pre @ m # post) y = ready_at (pre @ l @ r @ post) y \<or>
    (\<exists>h \<in> set (l @ r). ready_at (pre @ l @ r @ post) y = Some (hole_ready h) \<and>
       ready_at (pre @ m # post) y = Some (hole_ready m))"
proof -
  have pre: "hole_spans lo pre (hole_start m)" using l assms(1) by (auto simp: spans_snoc)
  have post: "hole_spans (hole_end m) post hi" using r assms(2) by auto
  have wide: "hole_start m \<le> s" "f \<le> hole_end m" using l r assms(1,2) by (auto simp: spans_snoc)
  have none: "hole_start m \<le> y \<Longrightarrow> ready_at pre y = None" "y < hole_end m \<Longrightarrow> ready_at post y = None"
    using ready_at_outside [OF pre, of y] ready_at_outside [OF post, of y] by auto
  consider "y < hole_start m" | "hole_start m \<le> y" "y < s" | "f \<le> y" "y < hole_end m" | "hole_end m \<le> y"
    using y by linarith
  then show ?thesis
    using l r wide none assms(3) by cases (auto simp: ready_at_append split: option.splits)
qed

lemma arena_release_effect:
  assumes ok: "arena_ok a e" and run: "arena_release a x e = (Inr (), a')" and ext: "extent_ok a x"
  shows "arena_ok a' e" and "same_arena a a'" and "arena_total a' = arena_total a + ext_bytes x"
    and "in_extent x y \<Longrightarrow> ready_at (arena_live a) y = None \<and> ready_at (arena_live a') y = Some e"
    and "\<not> in_extent x y \<Longrightarrow> ready_at (arena_live a') y = ready_at (arena_live a) y \<or>
      (\<exists>d. arena_len a = length (arena_holes a) \<and> d \<le> e \<and>
        ready_at (arena_live a) y = Some d \<and> ready_at (arena_live a') y = Some e)"
proof -
  let ?lo = "reg_start (arena_bounds a)" and ?hi = "reg_end (arena_bounds a)"
  let ?s = "reg_start (ext_region x)" and ?f = "reg_end (ext_region x)"
  have pos: "?s < ?f" using ext by (simp add: extent_ok_def)
  obtain pre l r post m where live: "arena_live a = pre @ l @ r @ post" and live': "arena_live a' = pre @ m # post"
    and l: "l = [] \<and> hole_start m = ?s \<or> (\<exists>p. l = [p] \<and> hole_start m = hole_start p \<and> hole_end p = ?s)"
    and r: "r = [] \<and> hole_end m = ?f \<or> (\<exists>n. r = [n] \<and> hole_end m = hole_end n \<and> hole_start n = ?f)"
    and m: "hole_ready m = e"
    and merged: "arena_len a = length (arena_holes a) \<or> (\<forall>h \<in> set (l @ r). hole_ready h = e)"
    and sp: "hole_spans ?lo (pre @ l) ?s" "hole_spans ?f (r @ post) ?hi"
    and cap: "arena_len a' \<le> length (arena_holes a')" and same: "same_arena a a'"
    and "ext_class x = arena_class a" and "reg_covers (arena_bounds a) (ext_region x)"
    by (rule arena_release_InrD [OF ok run pos])
  have left: "hole_spans ?lo pre (hole_start m)" "hole_start m \<le> ?s"
    using l sp(1) by (auto simp: spans_snoc)
  have right: "hole_spans (hole_end m) post ?hi" "?f \<le> hole_end m"
    using r sp(2) by auto
  have ready_le: "\<forall>h \<in> set (l @ r). hole_ready h \<le> e" using ok live by (auto simp: arena_ok_def)
  show "same_arena a a'" by (fact same)
  have "hole_spans ?lo (arena_live a') ?hi"
    unfolding live' spans_append using left right pos by (intro exI [of _ "hole_start m"]) simp
  then show "arena_ok a' e"
    using ok cap same ext m l r by (auto simp: arena_ok_def same_arena_def live live' extent_ok_def)
  have widths: "span_bytes hole_start hole_end l = ?s - hole_start m"
    "span_bytes hole_start hole_end r = hole_end m - ?f"
    using l r by auto
  show "arena_total a' = arena_total a + ext_bytes x"
    using widths left(2) right(2) pos by (simp add: live live' ext_bytes_def reg_bytes_def)
  have free: "ready_at (pre @ l) y = None" if "?s \<le> y" for y using ready_at_outside [OF sp(1)] that by simp
  have free': "ready_at (r @ post) y = None" if "y < ?f" for y using ready_at_outside [OF sp(2)] that by simp
  have whole: "ready_at (arena_live a) y = (case ready_at (pre @ l) y of None \<Rightarrow> ready_at (r @ post) y | Some d \<Rightarrow> Some d)" for y
    using ready_at_append [of "pre @ l" "r @ post" y] by (simp add: live)
  show "ready_at (arena_live a) y = None \<and> ready_at (arena_live a') y = Some e" if "in_extent x y"
    using that free [of y] free' [of y] left right m ready_at_outside [OF left(1), of y] whole [of y]
    by (simp add: in_extent_def reg_contains_def live' ready_at_append)
  show "ready_at (arena_live a') y = ready_at (arena_live a) y \<or>
      (\<exists>d. arena_len a = length (arena_holes a) \<and> d \<le> e \<and>
        ready_at (arena_live a) y = Some d \<and> ready_at (arena_live a') y = Some e)" if "\<not> in_extent x y"
  proof -
    have "\<not> (?s \<le> y \<and> y < ?f)" using that by (simp add: in_extent_def reg_contains_def)
    from ready_merge [OF sp pos l r this] show ?thesis
      using merged ready_le unfolding live live' m by (cases "arena_len a = length (arena_holes a)") auto
  qed
qed

lemma arena_release_overlap_iff:
  assumes ok: "arena_ok a e" and cov: "reg_covers (arena_bounds a) (ext_region x)"
    and pos: "reg_start (ext_region x) < reg_end (ext_region x)"
    and at: "at = partition_point (\<lambda>h. hole_start h < reg_end (ext_region x)) (arena_live a)"
  shows "(at > 0 \<and> hole_end (arena_holes a ! (at - 1)) > reg_start (ext_region x)) \<longleftrightarrow>
    (\<exists>y. in_extent x y \<and> ready_at (arena_live a) y \<noteq> None)"
proof
  assume hit: "at > 0 \<and> hole_end (arena_holes a ! (at - 1)) > reg_start (ext_region x)"
  let ?h = "arena_live a ! (at - 1)"
  have sp: "hole_spans (reg_start (arena_bounds a)) (arena_live a) (reg_end (arena_bounds a))"
    and len: "length (arena_live a) = arena_len a" using ok by (simp_all add: arena_ok_def arena_live_length)
  have le: "at \<le> arena_len a" using at len partition_point_le by metis
  have h: "?h \<in> set (arena_live a)" using hit le len by (intro nth_mem) linarith
  have "at - 1 < arena_len a" using hit le by linarith
  then have "?h = arena_holes a ! (at - 1)" by (rule arena_live_nth)
  note h = h this
  have "hole_start ?h < reg_end (ext_region x)"
    using partition_point_below [of "at - 1" "\<lambda>h. hole_start h < reg_end (ext_region x)" "arena_live a"] hit at by simp
  then have "in_extent x (max (hole_start ?h) (reg_start (ext_region x)))"
    and "ready_at (arena_live a) (max (hole_start ?h) (reg_start (ext_region x))) = Some (hole_ready ?h)"
    using hit h pos spans_mem [OF sp h(1)] span_at_mem [OF sp h(1)]
    by (auto simp: in_extent_def reg_contains_def ready_at_def)
  then show "\<exists>y. in_extent x y \<and> ready_at (arena_live a) y \<noteq> None" by (metis option.distinct(1))
next
  assume "\<exists>y. in_extent x y \<and> ready_at (arena_live a) y \<noteq> None"
  then obtain y where y: "in_extent x y" "ready_at (arena_live a) y \<noteq> None" by blast
  show "at > 0 \<and> hole_end (arena_holes a ! (at - 1)) > reg_start (ext_region x)"
  proof (rule ccontr)
    assume miss: "\<not> ?thesis"
    note sp = arena_release_split [OF ok cov refl refl pos at miss]
    have "ready_at (take at (arena_live a)) y = None" "ready_at (drop at (arena_live a)) y = None"
      using y(1) ready_at_outside [OF sp(2), of y] ready_at_outside [OF sp(3), of y]
      by (auto simp: in_extent_def reg_contains_def)
    then have "ready_at (take at (arena_live a) @ drop at (arena_live a)) y = None"
      by (simp only: ready_at_append) simp
    then show False using y(2) by simp
  qed
qed

lemma arena_settle_effect:
  assumes "arena_ok a e"
  shows "arena_ok (arena_settle a retired) e" and "same_arena a (arena_settle a retired)"
    and "arena_total (arena_settle a retired) = arena_total a"
    and "settles_to retired (ready_at (arena_live a) y) (ready_at (arena_live (arena_settle a retired)) y)"
proof -
  let ?b = "arena_settle a retired"
  have "arena_len a \<le> length (arena_holes a)" using assms by (simp add: arena_ok_def)
  note live = settle_live(1) [OF this] and cap = settle_live(2) [OF this] and same = settle_live(3) [OF this]
  have sp: "hole_spans (reg_start (arena_bounds a)) (arena_live a) (reg_end (arena_bounds a))"
    using assms by (simp add: arena_ok_def)
  show "same_arena a ?b" by (fact same)
  show "arena_total ?b = arena_total a" unfolding live by (rule hole_join.joined_bytes [OF sp])
  show "settles_to retired (ready_at (arena_live a) y) (ready_at (arena_live ?b) y)"
    unfolding live by (rule settle_list_ready [OF sp])
  have fields: "arena_class ?b = arena_class a" "arena_bounds ?b = arena_bounds a"
    using same by (simp_all add: same_arena_def)
  let ?Q = "\<lambda>h. granule (arena_class a) dvd hole_start h \<and> granule (arena_class a) dvd hole_end h \<and> hole_ready h \<le> e"
  have "\<forall>h \<in> set (settle_list retired (arena_live a)). ?Q h"
    by (rule hole_join.joined_all) (use assms in \<open>auto simp: arena_ok_def\<close>)
  then show "arena_ok ?b e"
    using assms cap hole_join.joined_spans [OF sp, of retired] unfolding arena_ok_def live fields by blast
qed

end
