(* ===== verification/Va_Space.thy ===== *)
theory Va_Space
  imports Va_Arena
begin

section \<open>The virtual address space (crates/sys/arch/src/va.rs)\<close>

text \<open>
  One arena per class, an open epoch that releases join and a retired epoch up to which
  released addresses are back in circulation. The space is taken together with the extents
  its callers hold, so that what is handed out can be said to be disjoint.
\<close>

subsection \<open>The space\<close>

record space =
  space_arenas :: "arena list"
  space_open :: epoch
  space_retired :: epoch

definition space_bounds :: "nat \<Rightarrow> va_error + va_region" where
  "space_bounds bits =
     (if bits < 35 \<or> bits > 64 then Inl Width
      else (let quarter = push_bit (bits - 3) 1 in va_region_new (3 * quarter) (4 * quarter)))"

definition space_over :: "nat \<Rightarrow> hole list \<Rightarrow> va_error + space" where
  "space_over bits holes =
     (case space_bounds bits of
        Inl e \<Rightarrow> Inl e
      | Inr bounds \<Rightarrow>
          if length holes < length class_ALL then Inl Storage
          else
            (let each = length holes div length class_ALL;
                 page = take each holes; rest = drop each holes;
                 mega = take each rest; giga = drop each rest;
                 quarter = reg_bytes bounds div 4; first = reg_start bounds
             in case va_region_new first (first + quarter) of Inl e \<Rightarrow> Inl e | Inr r0 \<Rightarrow>
                (case arena_new Page r0 page of Inl e \<Rightarrow> Inl e | Inr a0 \<Rightarrow>
                (case va_region_new (first + quarter) (first + 2 * quarter) of Inl e \<Rightarrow> Inl e | Inr r1 \<Rightarrow>
                (case arena_new Mega r1 mega of Inl e \<Rightarrow> Inl e | Inr a1 \<Rightarrow>
                (case va_region_new (first + 2 * quarter) (reg_end bounds) of Inl e \<Rightarrow> Inl e | Inr r2 \<Rightarrow>
                (case arena_new Giga r2 giga of Inl e \<Rightarrow> Inl e | Inr a2 \<Rightarrow>
                   Inr \<lparr>space_arenas = [a0, a1, a2], space_open = epoch_next epoch_FIRST,
                        space_retired = epoch_FIRST\<rparr>)))))))"

definition space_allocate :: "space \<Rightarrow> leaf_class \<Rightarrow> nat \<Rightarrow> (va_error + extent) \<times> space" where
  "space_allocate s c bytes =
     (if bytes = 0 then (Inl NoBytes, s)
      else case arena_allocate (space_arenas s ! level c) bytes (space_retired s) of
             (res, a) \<Rightarrow> (res, s\<lparr>space_arenas := (space_arenas s)[level c := a]\<rparr>))"

definition space_release :: "space \<Rightarrow> extent \<Rightarrow> (va_error \<times> extent + unit) \<times> space" where
  "space_release s x =
     (case arena_release (space_arenas s ! level (ext_class x)) x (space_open s) of
        (res, a) \<Rightarrow> (res, s\<lparr>space_arenas := (space_arenas s)[level (ext_class x) := a]\<rparr>))"

definition space_sweep :: "space \<Rightarrow> epoch \<times> space" where
  "space_sweep s = (let closing = space_open s in (closing, s\<lparr>space_open := epoch_next closing\<rparr>))"

definition space_retire :: "space \<Rightarrow> epoch \<Rightarrow> space" where
  "space_retire s e =
     (if e \<ge> space_open s then s
      else (let retired = max (space_retired s) e
            in s\<lparr>space_retired := retired,
                 space_arenas := map (\<lambda>a. arena_settle a retired) (space_arenas s)\<rparr>))"

definition space_free :: "space \<Rightarrow> leaf_class \<Rightarrow> nat" where
  "space_free s c = arena_free (space_arenas s ! level c) (space_retired s)"

definition space_quarantined :: "space \<Rightarrow> leaf_class \<Rightarrow> nat" where
  "space_quarantined s c = arena_quarantined (space_arenas s ! level c) (space_retired s)"

definition space_largest :: "space \<Rightarrow> leaf_class \<Rightarrow> nat" where
  "space_largest s c = arena_largest (space_arenas s ! level c) (space_retired s)"

subsection \<open>The space and the extents it has handed out\<close>

abbreviation arena_of :: "space \<Rightarrow> leaf_class \<Rightarrow> arena" where
  "arena_of s c \<equiv> space_arenas s ! level c"

definition space_ok :: "space \<Rightarrow> bool" where
  "space_ok s \<longleftrightarrow> length (space_arenas s) = 3 \<and> space_retired s < space_open s \<and> space_open s < u64_limit \<and>
     (\<forall>c. arena_class (arena_of s c) = c \<and> arena_ok (arena_of s c) (space_open s)) \<and>
     reg_end (arena_bounds (arena_of s Page)) \<le> reg_start (arena_bounds (arena_of s Mega)) \<and>
     reg_end (arena_bounds (arena_of s Mega)) \<le> reg_start (arena_bounds (arena_of s Giga))"

lemma level_less: "level c < 3"
  by (cases c) simp_all

lemma level_inj [simp]: "level c = level d \<longleftrightarrow> c = d"
  by (cases c; cases d) simp_all

lemma arena_ok_mono: "arena_ok a e \<Longrightarrow> e \<le> e' \<Longrightarrow> arena_ok a e'"
  by (auto simp: arena_ok_def)

lemma epoch_next_ge: "e < u64_limit \<Longrightarrow> e \<le> epoch_next e"
  by (simp add: epoch_next_def saturating_add_def)

definition space_address :: "space \<Rightarrow> leaf_class \<Rightarrow> nat \<Rightarrow> epoch option" where
  "space_address s c y = ready_at (arena_live (arena_of s c)) y"

text \<open>The space together with the extents its callers hold: allocation adds one, a release that
  succeeds takes one away, and a release that is refused hands it back.\<close>

record world =
  w_space :: space
  w_out :: "extent list"

datatype va_op = VAllocate leaf_class nat | VRelease nat | VSweep | VRetire epoch

fun va_step :: "world \<Rightarrow> va_op \<Rightarrow> world" where
  "va_step w (VAllocate c bytes) =
     (case space_allocate (w_space w) c bytes of
        (Inl e, s) \<Rightarrow> w\<lparr>w_space := s\<rparr>
      | (Inr x, s) \<Rightarrow> \<lparr>w_space = s, w_out = w_out w @ [x]\<rparr>)"
| "va_step w (VRelease i) =
     (if i < length (w_out w) then
        (case space_release (w_space w) (w_out w ! i) of
           (Inl (e, x), s) \<Rightarrow> w\<lparr>w_space := s, w_out := (w_out w)[i := x]\<rparr>
         | (Inr _, s) \<Rightarrow> \<lparr>w_space = s, w_out = remove_nth i (w_out w)\<rparr>)
      else w)"
| "va_step w VSweep = w\<lparr>w_space := snd (space_sweep (w_space w))\<rparr>"
| "va_step w (VRetire e) = w\<lparr>w_space := space_retire (w_space w) e\<rparr>"

definition apart :: "extent \<Rightarrow> extent \<Rightarrow> bool" where
  "apart x x' \<longleftrightarrow> (\<forall>y. \<not> (in_extent x y \<and> in_extent x' y))"

definition out_bytes :: "extent list \<Rightarrow> leaf_class \<Rightarrow> nat" where
  "out_bytes xs c = (\<Sum>x \<leftarrow> filter (\<lambda>x. ext_class x = c) xs. ext_bytes x)"

definition world_ok :: "world \<Rightarrow> bool" where
  "world_ok w \<longleftrightarrow> space_ok (w_space w) \<and> sorted_wrt apart (w_out w) \<and>
     (\<forall>x \<in> set (w_out w). extent_ok (arena_of (w_space w) (ext_class x)) x \<and>
        (\<forall>y. in_extent x y \<longrightarrow> space_address (w_space w) (ext_class x) y = None)) \<and>
     (\<forall>c. arena_total (arena_of (w_space w) c) + out_bytes (w_out w) c =
        reg_bytes (arena_bounds (arena_of (w_space w) c)))"

lemma space_ok_update:
  assumes "space_ok s" and "arena_ok a (space_open s)" and "same_arena (arena_of s c) a"
  shows "space_ok (s\<lparr>space_arenas := (space_arenas s)[level c := a]\<rparr>)"
proof -
  let ?s = "s\<lparr>space_arenas := (space_arenas s)[level c := a]\<rparr>"
  have len: "level c < length (space_arenas s)" using assms(1) level_less by (simp add: space_ok_def)
  have at: "arena_of ?s d = (if d = c then a else arena_of s d)" for d
    using len by (simp add: nth_list_update)
  then have same: "arena_bounds (arena_of ?s d) = arena_bounds (arena_of s d)" for d
    using assms(3) by (simp add: same_arena_def)
  show ?thesis
    using assms at same [of Page] same [of Mega] same [of Giga] by (simp add: space_ok_def same_arena_def)
qed

lemma arena_of_update:
  "space_ok s \<Longrightarrow> arena_of (s\<lparr>space_arenas := (space_arenas s)[level c := a]\<rparr>) d = (if d = c then a else arena_of s d)"
  using level_less by (simp add: space_ok_def nth_list_update)

lemma space_allocate_effect:
  assumes ok: "space_ok s" and run: "space_allocate s c bytes = (Inr x, s')"
  shows "space_ok s'" and "ext_class x = c" and "extent_ok (arena_of s c) x"
    and "bytes \<le> ext_bytes x \<and> ext_bytes x < bytes + granule c"
    and "same_arena (arena_of s d) (arena_of s' d)"
    and "space_address s' d y = (if d = c \<and> in_extent x y then None else space_address s d y)"
    and "in_extent x y \<Longrightarrow> \<exists>e \<le> space_retired s. space_address s c y = Some e"
    and "arena_total (arena_of s' d) + (if d = c then ext_bytes x else 0) = arena_total (arena_of s d)"
    and "space_open s' = space_open s" and "space_retired s' = space_retired s"
proof -
  let ?a = "arena_of s c"
  obtain a where a: "arena_allocate ?a bytes (space_retired s) = (Inr x, a)" and pos: "0 < bytes"
    and s': "s' = s\<lparr>space_arenas := (space_arenas s)[level c := a]\<rparr>"
    using run by (auto simp: space_allocate_def split: if_splits prod.splits)
  have cls: "arena_class ?a = c" and aok: "arena_ok ?a (space_open s)" using ok by (simp_all add: space_ok_def)
  note eff = arena_allocate_effect [OF aok a pos]
  have at: "arena_of s' d = (if d = c then a else arena_of s d)" for d
    unfolding s' by (rule arena_of_update [OF ok])
  show "space_ok s'" unfolding s' using ok eff(1,2) by (rule space_ok_update)
  show "extent_ok ?a x" by (rule eff(3))
  then show "ext_class x = c" using cls by (simp add: extent_ok_def)
  show "bytes \<le> ext_bytes x \<and> ext_bytes x < bytes + granule c" using eff(4) cls by simp
  show "same_arena (arena_of s d) (arena_of s' d)" using at eff(2) by simp
  show "space_address s' d y = (if d = c \<and> in_extent x y then None else space_address s d y)"
    using at eff(5) by (simp add: space_address_def)
  show "in_extent x y \<Longrightarrow> \<exists>e \<le> space_retired s. space_address s c y = Some e"
    using eff(6) by (simp add: space_address_def)
  show "arena_total (arena_of s' d) + (if d = c then ext_bytes x else 0) = arena_total (arena_of s d)"
    using at eff(7) by simp
  show "space_open s' = space_open s" "space_retired s' = space_retired s" by (simp_all add: s')
qed

lemma arena_error_unchanged:
  "arena_allocate a bytes retired = (Inl e, a') \<Longrightarrow> a' = a"
  "arena_release a x ready = (Inl e', a') \<Longrightarrow> a' = a \<and> snd e' = x"
  by (auto simp: arena_allocate_def arena_release_def Let_def split: option.splits if_splits)

lemma space_error_unchanged:
  "space_allocate s c bytes = (Inl e, s') \<Longrightarrow> s' = s"
  "space_release s x = (Inl e', s') \<Longrightarrow> s' = s \<and> snd e' = x"
  by (auto simp: space_allocate_def space_release_def split: if_splits prod.splits dest: arena_error_unchanged)

lemma space_release_effect:
  assumes ok: "space_ok s" and run: "space_release s x = (Inr u, s')"
    and ext: "extent_ok (arena_of s (ext_class x)) x"
  shows "space_ok s'" and "same_arena (arena_of s d) (arena_of s' d)"
    and "arena_total (arena_of s' d) = arena_total (arena_of s d) + (if d = ext_class x then ext_bytes x else 0)"
    and "in_extent x y \<Longrightarrow>
      space_address s (ext_class x) y = None \<and> space_address s' (ext_class x) y = Some (space_open s)"
    and "\<not> (d = ext_class x \<and> in_extent x y) \<Longrightarrow> space_address s' d y = space_address s d y \<or>
      (\<exists>e \<le> space_open s. space_address s d y = Some e \<and> space_address s' d y = Some (space_open s))"
    and "space_open s' = space_open s" and "space_retired s' = space_retired s"
proof -
  let ?c = "ext_class x" and ?a = "arena_of s (ext_class x)"
  obtain a where a: "arena_release ?a x (space_open s) = (Inr (), a)"
    and s': "s' = s\<lparr>space_arenas := (space_arenas s)[level ?c := a]\<rparr>"
    using run by (auto simp: space_release_def split: prod.splits)
  have aok: "arena_ok ?a (space_open s)" using ok by (simp add: space_ok_def)
  note eff = arena_release_effect [OF aok a ext]
  have at: "arena_of s' d = (if d = ?c then a else arena_of s d)" for d
    unfolding s' by (rule arena_of_update [OF ok])
  show "space_ok s'" unfolding s' using ok eff(1,2) by (rule space_ok_update)
  show "same_arena (arena_of s d) (arena_of s' d)" using at eff(2) by simp
  show "arena_total (arena_of s' d) = arena_total (arena_of s d) + (if d = ?c then ext_bytes x else 0)"
    using at eff(3) by simp
  show "in_extent x y \<Longrightarrow> space_address s ?c y = None \<and> space_address s' ?c y = Some (space_open s)"
    using at eff(4) by (simp add: space_address_def)
  show "space_address s' d y = space_address s d y \<or>
      (\<exists>e \<le> space_open s. space_address s d y = Some e \<and> space_address s' d y = Some (space_open s))"
    if "\<not> (d = ?c \<and> in_extent x y)"
    using that eff(5) [of y] at [of d] by (cases "d = ?c") (auto simp: space_address_def)
  show "space_open s' = space_open s" "space_retired s' = space_retired s" by (simp_all add: s')
qed

lemma space_retire_effect:
  assumes ok: "space_ok s"
  shows "space_ok (space_retire s e)" and "same_arena (arena_of s d) (arena_of (space_retire s e) d)"
    and "arena_total (arena_of (space_retire s e) d) = arena_total (arena_of s d)"
    and "settles_to (space_retired (space_retire s e)) (space_address s d y) (space_address (space_retire s e) d y)"
    and "space_open (space_retire s e) = space_open s"
    and "space_retired (space_retire s e) = (if e < space_open s then max (space_retired s) e else space_retired s)"
proof -
  let ?s = "space_retire s e" and ?r = "max (space_retired s) e"
  have aok: "arena_ok (arena_of s d) (space_open s)" for d using ok by (simp add: space_ok_def)
  note eff = arena_settle_effect [OF aok]
  have at: "arena_of ?s d = (if e < space_open s then arena_settle (arena_of s d) ?r else arena_of s d)" for d
    using ok level_less [of d] by (simp add: space_retire_def Let_def space_ok_def)
  show same: "same_arena (arena_of s d) (arena_of ?s d)" for d using at eff(2) by simp
  show "arena_total (arena_of ?s d) = arena_total (arena_of s d)" using at eff(3) by simp
  show "space_open ?s = space_open s"
    and retired: "space_retired ?s = (if e < space_open s then ?r else space_retired s)"
    by (simp_all add: space_retire_def Let_def)
  show "settles_to (space_retired ?s) (space_address s d y) (space_address ?s d y)"
    using at eff(4) retired by (simp add: space_address_def)
  have "length (space_arenas ?s) = 3" "space_retired ?s < space_open ?s" "space_open ?s < u64_limit"
    using ok by (simp_all add: space_retire_def Let_def space_ok_def)
  moreover have "arena_ok (arena_of ?s d) (space_open ?s)" for d
    using at eff(1) aok \<open>space_open ?s = space_open s\<close> by simp
  moreover have "arena_bounds (arena_of ?s d) = arena_bounds (arena_of s d)"
    "arena_class (arena_of ?s d) = arena_class (arena_of s d)" for d
    using same [of d] by (simp_all add: same_arena_def)
  ultimately show "space_ok ?s" using ok by (simp only: space_ok_def) simp
qed

lemma arena_bounds_apart:
  assumes ok: "space_ok s" and "c \<noteq> d"
  shows "\<not> (reg_contains (arena_bounds (arena_of s c)) y \<and> reg_contains (arena_bounds (arena_of s d)) y)"
proof -
  have le: "reg_start (arena_bounds (arena_of s k)) \<le> reg_end (arena_bounds (arena_of s k))" for k
  proof -
    have "arena_ok (arena_of s k) (space_open s)" using ok by (simp add: space_ok_def)
    then show ?thesis by (auto simp: arena_ok_def intro: spans_le)
  qed
  have lt: "reg_end (arena_bounds (arena_of s k)) \<le> reg_start (arena_bounds (arena_of s m))"
    if "level k < level m" for k m
    using that ok le [of Mega] by (cases k; cases m) (auto simp: space_ok_def)
  have "level c < level d \<or> level d < level c" using assms(2) by (metis level_inj linorder_neqE_nat)
  then show ?thesis using lt [of c d] lt [of d c] by (auto simp: reg_contains_def)
qed

lemma in_extent_bounds: "extent_ok a x \<Longrightarrow> in_extent x y \<Longrightarrow> reg_contains (arena_bounds a) y"
  by (auto simp: extent_ok_def in_extent_def reg_contains_def reg_covers_def)

lemma space_address_bounds:
  assumes "space_ok s" and "space_address s c y = Some e"
  shows "reg_contains (arena_bounds (arena_of s c)) y"
proof -
  have "hole_spans (reg_start (arena_bounds (arena_of s c))) (arena_live (arena_of s c)) (reg_end (arena_bounds (arena_of s c)))"
    using assms(1) by (simp add: space_ok_def arena_ok_def)
  then show ?thesis using assms(2) ready_at_outside [of _ "arena_live (arena_of s c)" _ y]
    by (fastforce simp: space_address_def reg_contains_def)
qed

lemma extents_of_classes_apart:
  "space_ok s \<Longrightarrow> c \<noteq> d \<Longrightarrow> extent_ok (arena_of s c) x \<Longrightarrow> extent_ok (arena_of s d) x' \<Longrightarrow> apart x x'"
  unfolding apart_def using arena_bounds_apart in_extent_bounds by blast

lemma space_sweep_effect:
  assumes "space_ok s"
  shows "space_ok (snd (space_sweep s))" and "space_arenas (snd (space_sweep s)) = space_arenas s"
    and "space_retired (snd (space_sweep s)) = space_retired s"
    and "space_open s \<le> space_open (snd (space_sweep s))"
proof -
  have lim: "space_open s < u64_limit" using assms by (simp add: space_ok_def)
  show le: "space_open s \<le> space_open (snd (space_sweep s))"
    using epoch_next_ge [OF lim] by (simp add: space_sweep_def Let_def)
  show "space_arenas (snd (space_sweep s)) = space_arenas s"
    "space_retired (snd (space_sweep s)) = space_retired s" by (simp_all add: space_sweep_def Let_def)
  moreover have "space_open (snd (space_sweep s)) < u64_limit"
    by (simp add: space_sweep_def Let_def epoch_next_def saturating_add_def)
  ultimately show "space_ok (snd (space_sweep s))"
    using assms le by (auto simp: space_ok_def intro: arena_ok_mono)
qed

lemma extent_ok_same: "same_arena a b \<Longrightarrow> extent_ok b x = extent_ok a x"
  by (simp add: extent_ok_def same_arena_def)

lemma world_allocate_ok:
  assumes ok: "world_ok w" and run: "space_allocate (w_space w) c bytes = (Inr x, s)"
  shows "world_ok \<lparr>w_space = s, w_out = w_out w @ [x]\<rparr>"
proof -
  have sok: "space_ok (w_space w)" using ok by (simp add: world_ok_def)
  note eff = space_allocate_effect [OF sok run]
  have new: "extent_ok (arena_of s (ext_class x)) x" "\<And>y. in_extent x y \<Longrightarrow> space_address s c y = None"
    using eff(2,3,6) by (simp_all add: extent_ok_same [OF eff(5)])
  have old: "extent_ok (arena_of s (ext_class x')) x' \<and> (\<forall>y. in_extent x' y \<longrightarrow> space_address s (ext_class x') y = None)"
    and apart: "apart x' x" if "x' \<in> set (w_out w)" for x'
  proof -
    have x': "extent_ok (arena_of (w_space w) (ext_class x')) x'"
      "\<And>y. in_extent x' y \<Longrightarrow> space_address (w_space w) (ext_class x') y = None"
      using ok that by (simp_all add: world_ok_def)
    then show "extent_ok (arena_of s (ext_class x')) x' \<and> (\<forall>y. in_extent x' y \<longrightarrow> space_address s (ext_class x') y = None)"
      using eff(6) by (simp add: extent_ok_same [OF eff(5)])
    show "apart x' x"
    proof (cases "ext_class x' = c")
      case True
      then show ?thesis using x'(2) eff(7) by (fastforce simp: apart_def)
    next
      case False
      then show ?thesis using extents_of_classes_apart [OF sok _ x'(1) eff(3)] by blast
    qed
  qed
  have "arena_total (arena_of s d) + out_bytes (w_out w @ [x]) d = reg_bytes (arena_bounds (arena_of s d))" for d
  proof -
    have "arena_bounds (arena_of s d) = arena_bounds (arena_of (w_space w) d)" using eff(5) by (simp add: same_arena_def)
    moreover have "arena_total (arena_of (w_space w) d) + out_bytes (w_out w) d = reg_bytes (arena_bounds (arena_of (w_space w) d))"
      using ok by (simp add: world_ok_def)
    ultimately show ?thesis using eff(2) eff(8) [of d] by (auto simp: out_bytes_def split: if_splits)
  qed
  then show ?thesis using ok eff(1,2) new old apart by (auto simp: world_ok_def sorted_wrt_append)
qed

lemma world_release_ok:
  assumes ok: "world_ok w" and i: "i < length (w_out w)"
    and run: "space_release (w_space w) (w_out w ! i) = (Inr u, s)"
  shows "world_ok \<lparr>w_space = s, w_out = remove_nth i (w_out w)\<rparr>"
proof -
  let ?x = "w_out w ! i" and ?out = "remove_nth i (w_out w)"
  have split: "w_out w = take i (w_out w) @ ?x # drop (Suc i) (w_out w)" using i by (rule id_take_nth_drop)
  have sok: "space_ok (w_space w)" and ext: "extent_ok (arena_of (w_space w) (ext_class ?x)) ?x"
    using ok i by (auto simp: world_ok_def)
  note eff = space_release_effect [OF sok run ext]
  have srt: "sorted_wrt apart (take i (w_out w) @ ?x # drop (Suc i) (w_out w))"
    using ok split by (simp add: world_ok_def)
  then have srt': "sorted_wrt apart ?out" by (simp add: remove_nth_def sorted_wrt_append)
  have clear: "apart x ?x" if "x \<in> set ?out" for x
    using srt that by (auto simp: remove_nth_def sorted_wrt_append apart_def)
  have sub: "set ?out \<subseteq> set (w_out w)"
    by (auto simp: remove_nth_def dest: in_set_takeD in_set_dropD)
  have old: "extent_ok (arena_of s (ext_class x)) x \<and>
      (\<forall>y. in_extent x y \<longrightarrow> space_address s (ext_class x) y = None)" if mem: "x \<in> set ?out" for x
  proof -
    have x: "apart x ?x" "extent_ok (arena_of (w_space w) (ext_class x)) x"
      "\<And>y. in_extent x y \<Longrightarrow> space_address (w_space w) (ext_class x) y = None"
      using mem ok sub clear by (auto simp: world_ok_def)
    have "space_address s (ext_class x) y = None" if "in_extent x y" for y
      using that x eff(5) [of "ext_class x" y] by (auto simp: apart_def)
    then show ?thesis using x(2) by (simp add: extent_ok_same [OF eff(2)])
  qed
  have "arena_total (arena_of s d) + out_bytes ?out d = reg_bytes (arena_bounds (arena_of s d))" for d
  proof -
    have "arena_bounds (arena_of s d) = arena_bounds (arena_of (w_space w) d)" using eff(2) by (simp add: same_arena_def)
    moreover have "out_bytes (w_out w) d = out_bytes ?out d + (if d = ext_class ?x then ext_bytes ?x else 0)"
      by (subst split) (simp add: out_bytes_def remove_nth_def)
    moreover have "arena_total (arena_of (w_space w) d) + out_bytes (w_out w) d = reg_bytes (arena_bounds (arena_of (w_space w) d))"
      using ok by (simp add: world_ok_def)
    ultimately show ?thesis using eff(3) [of d] by simp
  qed
  then show ?thesis using eff(1) srt' old by (simp add: world_ok_def)
qed

lemma world_step_ok:
  assumes "world_ok w"
  shows "world_ok (va_step w opn)"
proof (cases opn)
  case (VAllocate c bytes)
  then show ?thesis using assms world_allocate_ok [OF assms, of c bytes]
    by (auto split: prod.splits sum.splits dest: space_error_unchanged(1))
next
  case (VRelease i)
  show ?thesis
  proof (cases "i < length (w_out w)")
    case True
    have "w\<lparr>w_space := w_space w, w_out := (w_out w)[i := w_out w ! i]\<rparr> = w" using True by simp
    then show ?thesis using VRelease True assms world_release_ok [OF assms True] space_error_unchanged(2)
      by (fastforce split: prod.splits sum.splits)
  qed (use VRelease assms in simp)
next
  case VSweep
  then show ?thesis using assms space_sweep_effect [of "w_space w"]
    by (auto simp: world_ok_def space_address_def)
next
  case (VRetire e)
  have ok: "space_ok (w_space w)" using assms by (simp add: world_ok_def)
  note eff = space_retire_effect [OF ok, where e = e]
  have "space_address (space_retire (w_space w) e) c y = None" if "space_address (w_space w) c y = None" for c y
    using eff(4) [of c y] that by (auto simp: settles_to_def)
  moreover have "arena_bounds (arena_of (space_retire (w_space w) e) c) = arena_bounds (arena_of (w_space w) c)" for c
    using eff(2) by (simp add: same_arena_def)
  ultimately show ?thesis
    using VRetire assms eff(1,3) extent_ok_same [OF eff(2)] by (simp add: world_ok_def)
qed

lemma world_run_ok: "world_ok w \<Longrightarrow> world_ok (foldl va_step w ops)"
  by (induction ops arbitrary: w) (simp_all add: world_step_ok)

lemma granule_power: "granule c = 2 ^ (12 + 9 * level c)"
  by (cases c) (simp_all add: granule_def FRAME_SIZE_def push_bit_eq_mult)

lemma granule_dvd_power: "30 \<le> n \<Longrightarrow> granule c dvd 2 ^ n"
proof -
  assume "30 \<le> n"
  moreover have "12 + 9 * level c \<le> 30" by (cases c) simp_all
  ultimately show ?thesis unfolding granule_power by (intro le_imp_power_dvd) simp
qed

lemma space_bounds_eq:
  assumes "35 \<le> bits" and "bits \<le> 64"
  shows "space_bounds bits = Inr \<lparr>reg_start = 12 * 2 ^ (bits - 5), reg_end = 16 * 2 ^ (bits - 5)\<rparr>"
proof -
  have "bits - 3 = 2 + (bits - 5)" using assms by simp
  then have "push_bit (bits - 3) 1 = (4 * 2 ^ (bits - 5) :: nat)" by (simp add: push_bit_eq_mult power_add)
  then show ?thesis using assms by (simp add: space_bounds_def Let_def va_region_new_def)
qed

definition arena_whole :: "leaf_class \<Rightarrow> nat \<Rightarrow> nat \<Rightarrow> nat \<Rightarrow> arena" where
  "arena_whole c lo hi n = \<lparr>arena_class = c, arena_bounds = \<lparr>reg_start = lo, reg_end = hi\<rparr>,
     arena_holes = (replicate n hole_EMPTY)[0 := \<lparr>hole_start = lo, hole_end = hi, hole_ready = epoch_FIRST\<rparr>],
     arena_len = 1\<rparr>"

lemma arena_new_eq:
  assumes "holes \<noteq> []" and "granule c dvd lo" and "granule c \<le> hi - lo"
  shows "arena_new c \<lparr>reg_start = lo, reg_end = hi\<rparr> holes = Inr (arena_whole c lo hi (length holes))"
  using assms by (simp add: arena_new_def reg_bytes_def arena_whole_def dvd_eq_mod_eq_0 not_less)

lemma space_over_eq:
  assumes "35 \<le> bits" and "bits \<le> 64" and "3 \<le> length holes"
  defines "q \<equiv> 2 ^ (bits - 5)" and "n \<equiv> length holes div 3"
  shows "space_over bits holes =
    Inr \<lparr>space_arenas = [arena_whole Page (12 * q) (13 * q) n, arena_whole Mega (13 * q) (14 * q) n,
                         arena_whole Giga (14 * q) (16 * q) (length holes - 2 * n)],
         space_open = 1, space_retired = 0\<rparr>"
proof -
  have q: "granule c dvd q" "0 < q" for c unfolding q_def using assms(1) by (auto intro: granule_dvd_power)
  then have le: "granule c \<le> k * q" if "0 < k" for c k
    using that by (intro dvd_imp_le) auto
  have n: "0 < n" "2 * n < length holes" using assms(3) by (auto simp: n_def)
  then have parts: "take n holes \<noteq> []" "take n (drop n holes) \<noteq> []" "drop n (drop n holes) \<noteq> []"
    using assms(3) by auto
  have lens: "length (take n holes) = n" "length (take n (drop n holes)) = n"
    "length (drop n (drop n holes)) = length holes - 2 * n"
    using n by simp_all
  have new: "arena_new c \<lparr>reg_start = k * q, reg_end = m * q\<rparr> hs = Inr (arena_whole c (k * q) (m * q) (length hs))"
    if "hs \<noteq> []" "k < m" for c k m hs
    using that q le [of "m - k"] by (intro arena_new_eq) (simp_all add: diff_mult_distrib)
  have one: "epoch_next epoch_FIRST = 1" "epoch_FIRST = 0"
    by (simp_all add: epoch_next_def epoch_FIRST_def saturating_add_def)
  have "space_over bits holes = (case arena_new Page \<lparr>reg_start = 12 * q, reg_end = 13 * q\<rparr> (take n holes) of
      Inl e \<Rightarrow> Inl e | Inr a0 \<Rightarrow>
     (case arena_new Mega \<lparr>reg_start = 13 * q, reg_end = 14 * q\<rparr> (take n (drop n holes)) of
      Inl e \<Rightarrow> Inl e | Inr a1 \<Rightarrow>
     (case arena_new Giga \<lparr>reg_start = 14 * q, reg_end = 16 * q\<rparr> (drop n (drop n holes)) of
      Inl e \<Rightarrow> Inl e | Inr a2 \<Rightarrow>
        Inr \<lparr>space_arenas = [a0, a1, a2], space_open = 1, space_retired = 0\<rparr>)))"
    using assms(3) q(2) unfolding space_over_def space_bounds_eq [OF assms(1,2)] n_def one(1) unfolding one(2)
    by (simp add: Let_def class_ALL_def va_region_new_def reg_bytes_def q_def [symmetric] cong: sum.case_cong)
  then show ?thesis using parts lens by (simp add: new)
qed

lemma arena_whole_ok:
  assumes "lo < hi" and "granule c dvd lo" and "granule c dvd hi" and "hi < u64_limit" and "0 < n"
  shows "arena_ok (arena_whole c lo hi n) e" and "arena_total (arena_whole c lo hi n) = hi - lo"
proof -
  have "arena_live (arena_whole c lo hi n) = [\<lparr>hole_start = lo, hole_end = hi, hole_ready = epoch_FIRST\<rparr>]"
    using assms(5) by (cases n) (simp_all add: arena_live_def arena_whole_def)
  then show "arena_ok (arena_whole c lo hi n) e" "arena_total (arena_whole c lo hi n) = hi - lo"
    using assms by (simp_all add: arena_ok_def) (simp_all add: arena_whole_def epoch_FIRST_def)
qed

lemma space_over_InrD:
  assumes "space_over bits holes = Inr s"
  shows "35 \<le> bits" and "bits \<le> 64" and "3 \<le> length holes"
  using assms by (auto simp: space_over_def space_bounds_def class_ALL_def split: if_splits sum.splits)

lemma all_classes: "(\<forall>c. P c) \<longleftrightarrow> P Page \<and> P Mega \<and> P Giga"
  by (metis leaf_class.exhaust)

lemma space_over_world_ok:
  assumes "space_over bits holes = Inr s"
  shows "world_ok \<lparr>w_space = s, w_out = []\<rparr>"
proof -
  note over = space_over_InrD [OF assms]
  define q :: nat where "q = 2 ^ (bits - 5)"
  define n where "n = length holes div 3"
  have s: "s = \<lparr>space_arenas = [arena_whole Page (12 * q) (13 * q) n, arena_whole Mega (13 * q) (14 * q) n,
      arena_whole Giga (14 * q) (16 * q) (length holes - 2 * n)], space_open = 1, space_retired = 0\<rparr>"
    using assms space_over_eq [OF over] by (simp add: q_def n_def)
  have "bits - 5 \<le> 59" using over(2) by simp
  then have "q \<le> 2 ^ 59" unfolding q_def by (rule power_increasing) simp
  then have lim: "k * q < u64_limit" if "k \<le> 16" for k
    using that mult_le_mono [of k 16 q "2 ^ 59"] by simp
  have g: "granule c dvd k * q" and pos: "0 < q" for c k
    using over(1) granule_dvd_power [of "bits - 5" c] by (simp_all add: q_def)
  have n: "0 < n" "0 < length holes - 2 * n" using over(3) by (auto simp: n_def)
  have oks: "arena_ok (arena_whole Page (12 * q) (13 * q) n) 1" "arena_ok (arena_whole Mega (13 * q) (14 * q) n) 1"
    "arena_ok (arena_whole Giga (14 * q) (16 * q) (length holes - 2 * n)) 1"
    and totals: "arena_total (arena_whole Page (12 * q) (13 * q) n) = 13 * q - 12 * q"
    "arena_total (arena_whole Mega (13 * q) (14 * q) n) = 14 * q - 13 * q"
    "arena_total (arena_whole Giga (14 * q) (16 * q) (length holes - 2 * n)) = 16 * q - 14 * q"
    using g lim pos n by (simp_all add: arena_whole_ok)
  have fields: "arena_class (arena_whole c lo hi k) = c"
    "arena_bounds (arena_whole c lo hi k) = \<lparr>reg_start = lo, reg_end = hi\<rparr>" for c lo hi k
    by (simp_all add: arena_whole_def)
  show ?thesis
    using oks totals unfolding s world_ok_def space_ok_def all_classes
    by (simp add: fields reg_bytes_def out_bytes_def)
qed

lemma free_quarantined: "arena_free a retired + arena_quarantined a retired = arena_total a"
proof -
  have "(\<Sum>h \<leftarrow> filter (\<lambda>h. hole_ready h \<le> retired) hs. hole_bytes h) +
      (\<Sum>h \<leftarrow> filter (\<lambda>h. hole_ready h > retired) hs. hole_bytes h) = span_bytes hole_start hole_end hs" for hs
    by (induction hs) (simp_all add: hole_bytes_def)
  then show ?thesis by (simp add: arena_free_def arena_quarantined_def)
qed

text \<open>
  C14. From a fresh space and through any sequence of allocations, releases, sweeps and
  retirements, the extents outstanding are pairwise disjoint, aligned to their class and inside
  its arena, and per class the free, the quarantined and the outstanding bytes add up to the
  arena.
\<close>

theorem space_hands_out_disjoint:
  assumes "space_over bits holes = Inr s" and "w = foldl va_step \<lparr>w_space = s, w_out = []\<rparr> ops"
  shows "sorted_wrt apart (w_out w) \<and>
    (\<forall>x \<in> set (w_out w). extent_ok (arena_of (w_space w) (ext_class x)) x) \<and>
    (\<forall>c. space_free (w_space w) c + space_quarantined (w_space w) c + out_bytes (w_out w) c =
       reg_bytes (arena_bounds (arena_of (w_space w) c)))"
proof -
  have "world_ok w" unfolding assms(2) using space_over_world_ok [OF assms(1)] by (rule world_run_ok)
  then show ?thesis
    by (auto simp: world_ok_def space_free_def space_quarantined_def free_quarantined)
qed

subsection \<open>Quarantine\<close>

text \<open>What a client of the address space relies on: an address that waits for an epoch stays out of
  circulation until that epoch is retired.\<close>

locale quarantine =
  fixes step :: "'w \<Rightarrow> 'o \<Rightarrow> 'w"
    and addr :: "'w \<Rightarrow> 'k \<Rightarrow> epoch option"
    and retired :: "'w \<Rightarrow> epoch"
    and ok :: "'w \<Rightarrow> bool"
  assumes ok_step: "ok w \<Longrightarrow> ok (step w opn)"
    and retired_mono: "ok w \<Longrightarrow> retired w \<le> retired (step w opn)"
    and waits: "ok w \<Longrightarrow> addr w k = Some d \<Longrightarrow>
      (\<exists>e \<ge> d. addr (step w opn) k = Some e) \<or> (addr (step w opn) k = None \<and> d \<le> retired w)"
begin

lemma run_ok: "ok w \<Longrightarrow> ok (foldl step w ops)"
  by (induction ops arbitrary: w) (simp_all add: ok_step)

lemma run_retired_mono: "ok w \<Longrightarrow> retired w \<le> retired (foldl step w ops)"
proof (induction ops arbitrary: w)
  case (Cons opn ops)
  show ?case using Cons.IH [OF ok_step [OF Cons.prems], of opn] retired_mono [OF Cons.prems, of opn] by simp
qed simp

lemma run_waits:
  "ok w \<Longrightarrow> addr w k = Some d \<Longrightarrow> retired (foldl step w ops) < d \<Longrightarrow>
   \<exists>e \<ge> d. addr (foldl step w ops) k = Some e"
proof (induction ops arbitrary: w d)
  case (Cons opn ops)
  let ?w = "step w opn"
  have ok: "ok ?w" using Cons.prems(1) by (rule ok_step)
  have "retired w < d"
    using Cons.prems(3) run_retired_mono [OF ok, of ops] retired_mono [OF Cons.prems(1), of opn] by simp
  then obtain e where e: "d \<le> e" "addr ?w k = Some e" using waits [OF Cons.prems(1,2), of opn] by auto
  from Cons.IH [OF ok e(2)] Cons.prems(3) e(1) show ?case by force
qed simp

end

definition world_address :: "world \<Rightarrow> leaf_class \<times> nat \<Rightarrow> epoch option" where
  "world_address w k = space_address (w_space w) (fst k) (snd k)"

lemma va_step_retired:
  assumes "world_ok w"
  shows "space_retired (w_space w) \<le> space_retired (w_space (va_step w opn))"
proof (cases opn)
  case (VAllocate c bytes)
  then show ?thesis by (auto simp: space_allocate_def split: prod.splits sum.splits if_splits)
next
  case (VRelease i)
  then show ?thesis by (auto simp: space_release_def split: prod.splits sum.splits)
qed (auto simp: space_sweep_def space_retire_def Let_def)

lemma va_step_waits:
  assumes ok: "world_ok w" and held: "space_address (w_space w) c y = Some d"
  shows "(\<exists>e \<ge> d. space_address (w_space (va_step w opn)) c y = Some e) \<or>
      (space_address (w_space (va_step w opn)) c y = None \<and> d \<le> space_retired (w_space w))"
proof (cases opn)
  case (VAllocate k bytes)
  have sok: "space_ok (w_space w)" using ok by (simp add: world_ok_def)
  show ?thesis
  proof (cases "space_allocate (w_space w) k bytes")
    case (Pair res s)
    show ?thesis
    proof (cases res)
      case (Inl e)
      then show ?thesis using VAllocate held Pair by (auto dest: space_error_unchanged(1))
    next
      case (Inr x)
      note eff = space_allocate_effect(6,7) [OF sok Pair [unfolded Inr]]
      show ?thesis using VAllocate Pair Inr held eff(1) [of c y] eff(2) [of y] by auto
    qed
  qed
next
  case (VRelease i)
  show ?thesis
  proof (cases "i < length (w_out w)")
    case True
    have sok: "space_ok (w_space w)" and ext: "extent_ok (arena_of (w_space w) (ext_class (w_out w ! i))) (w_out w ! i)"
      using ok True by (auto simp: world_ok_def)
    show ?thesis
    proof (cases "space_release (w_space w) (w_out w ! i)")
      case (Pair res s)
      show ?thesis
      proof (cases res)
        case (Inl e)
        then show ?thesis using VRelease True held Pair
          by (auto split: prod.splits dest: space_error_unchanged(2))
      next
        case (Inr u)
        note eff = space_release_effect(4,5) [OF sok Pair [unfolded Inr] ext]
        have "\<exists>e \<ge> d. space_address s c y = Some e"
          using eff(1) [of y] eff(2) [of c y] held by (cases "c = ext_class (w_out w ! i) \<and> in_extent (w_out w ! i) y") auto
        then show ?thesis using VRelease True Pair Inr by simp
      qed
    qed
  qed (use VRelease held in simp)
next
  case VSweep
  then show ?thesis using held by (auto simp: space_sweep_def Let_def space_address_def)
next
  case (VRetire e)
  have "space_ok (w_space w)" using ok by (simp add: world_ok_def)
  from space_retire_effect(4) [OF this, where e = e and d = c and y = y] show ?thesis
    using VRetire held by (auto simp: settles_to_def)
qed

interpretation va_quarantine: quarantine va_step world_address "\<lambda>w. space_retired (w_space w)" world_ok
  by unfold_locales
    (simp_all add: world_step_ok va_step_retired world_address_def va_step_waits)

text \<open>
  C28. An address released while epoch e was open is in no extent handed out until the space has
  retired e or a later epoch.
\<close>

theorem released_waits_for_flush:
  assumes "space_over bits holes = Inr s" and "w = foldl va_step \<lparr>w_space = s, w_out = []\<rparr> before"
    and "i < length (w_out w)" and "space_release (w_space w) (w_out w ! i) = (Inr u, s')"
    and "w' = foldl va_step (va_step w (VRelease i)) after"
    and "space_retired (w_space w') < space_open (w_space w)"
    and "in_extent (w_out w ! i) y" and "x \<in> set (w_out w')"
  shows "\<not> in_extent x y"
proof
  assume inx: "in_extent x y"
  let ?x = "w_out w ! i" and ?w = "va_step w (VRelease i)"
  have ok: "world_ok w" unfolding assms(2) using space_over_world_ok [OF assms(1)] by (rule world_run_ok)
  have sok: "space_ok (w_space w)" and ext: "extent_ok (arena_of (w_space w) (ext_class ?x)) ?x"
    using ok assms(3) by (auto simp: world_ok_def)
  have "world_address ?w (ext_class ?x, y) = Some (space_open (w_space w))"
    using space_release_effect(4) [OF sok assms(4) ext assms(7)] assms(3,4) by (simp add: world_address_def)
  from va_quarantine.run_waits [OF world_step_ok [OF ok] this, of after] obtain e
    where e: "space_address (w_space w') (ext_class ?x) y = Some e"
    using assms(5,6) by (auto simp: world_address_def)
  have ok': "world_ok w'" unfolding assms(5) using world_step_ok [OF ok] by (rule world_run_ok)
  then have x: "extent_ok (arena_of (w_space w') (ext_class x)) x" "space_address (w_space w') (ext_class x) y = None"
    using assms(8) inx by (auto simp: world_ok_def)
  show False
  proof (cases "ext_class x = ext_class ?x")
    case True
    then show False using e x by simp
  next
    case False
    have "space_ok (w_space w')" using ok' by (simp add: world_ok_def)
    then show False using arena_bounds_apart [OF _ False] space_address_bounds e in_extent_bounds [OF x(1) inx] by blast
  qed
qed

lemma fold_max_ge: "(k :: nat) \<le> fold max xs m \<longleftrightarrow> k \<le> m \<or> (\<exists>x \<in> set xs. k \<le> x)"
  by (induction xs arbitrary: m) auto

lemma arena_largest_ge:
  "0 < sz \<Longrightarrow> sz \<le> arena_largest a retired \<longleftrightarrow>
     (\<exists>h \<in> set (arena_live a). hole_ready h \<le> retired \<and> sz \<le> hole_bytes h)"
  by (auto simp: arena_largest_def fold_max_ge)

lemma arena_allocate_success:
  assumes "0 < bytes"
  shows "(\<exists>x a'. arena_allocate a bytes retired = (Inr x, a')) \<longleftrightarrow>
    (\<exists>sz. checked_next_multiple_of bytes (granule (arena_class a)) = Some sz \<and> sz \<le> arena_largest a retired)"
proof (cases "checked_next_multiple_of bytes (granule (arena_class a))")
  case None
  then show ?thesis by (simp add: arena_allocate_def)
next
  case (Some sz)
  have "0 < sz" using checked_next_multiple_of_bounds(4) [OF Some assms] .
  then show ?thesis
    using Some find_index_None_iff [of "\<lambda>h. hole_ready h \<le> retired \<and> sz \<le> hole_bytes h" "arena_live a"]
    by (auto simp: arena_allocate_def arena_largest_ge Let_def split: option.splits)
qed

lemma arena_allocate_lowest:
  assumes ok: "arena_ok a e" and run: "arena_allocate a bytes retired = (Inr x, a')" and pos: "0 < bytes"
    and h: "h \<in> set (arena_live a)" "hole_ready h \<le> retired" "ext_bytes x \<le> hole_bytes h"
  shows "reg_start (ext_region x) \<le> hole_start h"
proof -
  obtain pre g post sz where live: "arena_live a = pre @ g # post"
    and pre: "\<forall>g \<in> set pre. \<not> (hole_ready g \<le> retired \<and> hole_bytes g \<ge> sz)"
    and x: "x = \<lparr>ext_region = \<lparr>reg_start = hole_start g, reg_end = hole_start g + sz\<rparr>, ext_class = arena_class a\<rparr>"
    using arena_allocate_InrD [OF ok run pos] by metis
  have sp: "hole_spans (reg_start (arena_bounds a)) (pre @ g # post) (reg_end (arena_bounds a))"
    using ok live by (simp add: arena_ok_def)
  then have tail: "hole_spans (hole_end g) post (reg_end (arena_bounds a))" "hole_start g < hole_end g"
    by (auto simp: spans_append)
  have "h \<notin> set pre" using pre h by (auto simp: x ext_bytes_def reg_bytes_def)
  then have "h = g \<or> h \<in> set post" using h(1) live by auto
  then show ?thesis using spans_mem [OF tail(1), of h] tail(2) by (auto simp: x)
qed

theorem space_allocate_exact:
  assumes "space_ok s"
  shows "((\<exists>x s'. space_allocate s c bytes = (Inr x, s')) \<longleftrightarrow>
      0 < bytes \<and> (\<exists>sz. checked_next_multiple_of bytes (granule c) = Some sz \<and> sz \<le> space_largest s c)) \<and>
    (\<forall>x s'. space_allocate s c bytes = (Inr x, s') \<longrightarrow>
      extent_ok (arena_of s c) x \<and> bytes \<le> ext_bytes x \<and> ext_bytes x < bytes + granule c \<and>
      (\<forall>y. in_extent x y \<longrightarrow> (\<exists>e \<le> space_retired s. space_address s c y = Some e)) \<and>
      (\<forall>d y. space_address s' d y = (if d = c \<and> in_extent x y then None else space_address s d y)) \<and>
      (\<forall>h \<in> set (arena_live (arena_of s c)). hole_ready h \<le> space_retired s \<and> ext_bytes x \<le> hole_bytes h \<longrightarrow>
         reg_start (ext_region x) \<le> hole_start h))"
proof (intro conjI)
  have cls: "arena_class (arena_of s c) = c" and aok: "arena_ok (arena_of s c) (space_open s)"
    using assms by (simp_all add: space_ok_def)
  show "(\<exists>x s'. space_allocate s c bytes = (Inr x, s')) \<longleftrightarrow>
      0 < bytes \<and> (\<exists>sz. checked_next_multiple_of bytes (granule c) = Some sz \<and> sz \<le> space_largest s c)"
  proof (cases "0 < bytes")
    case True
    then show ?thesis using arena_allocate_success [OF True, of "arena_of s c" "space_retired s"] cls
      by (auto simp: space_allocate_def space_largest_def split: prod.splits)
  qed (auto simp: space_allocate_def)
  show "\<forall>x s'. space_allocate s c bytes = (Inr x, s') \<longrightarrow>
      extent_ok (arena_of s c) x \<and> bytes \<le> ext_bytes x \<and> ext_bytes x < bytes + granule c \<and>
      (\<forall>y. in_extent x y \<longrightarrow> (\<exists>e \<le> space_retired s. space_address s c y = Some e)) \<and>
      (\<forall>d y. space_address s' d y = (if d = c \<and> in_extent x y then None else space_address s d y)) \<and>
      (\<forall>h \<in> set (arena_live (arena_of s c)). hole_ready h \<le> space_retired s \<and> ext_bytes x \<le> hole_bytes h \<longrightarrow>
         reg_start (ext_region x) \<le> hole_start h)"
  proof (intro allI impI)
    fix x s'
    assume run: "space_allocate s c bytes = (Inr x, s')"
    then obtain a where a: "arena_allocate (arena_of s c) bytes (space_retired s) = (Inr x, a)" "0 < bytes"
      by (auto simp: space_allocate_def split: if_splits prod.splits)
    note eff = space_allocate_effect [OF assms run] and low = arena_allocate_lowest [OF aok a]
    show "extent_ok (arena_of s c) x \<and> bytes \<le> ext_bytes x \<and> ext_bytes x < bytes + granule c \<and>
      (\<forall>y. in_extent x y \<longrightarrow> (\<exists>e \<le> space_retired s. space_address s c y = Some e)) \<and>
      (\<forall>d y. space_address s' d y = (if d = c \<and> in_extent x y then None else space_address s d y)) \<and>
      (\<forall>h \<in> set (arena_live (arena_of s c)). hole_ready h \<le> space_retired s \<and> ext_bytes x \<le> hole_bytes h \<longrightarrow>
         reg_start (ext_region x) \<le> hole_start h)"
      using eff(3,4,6,7) low by blast
  qed
qed

lemma release_neighbours:
  assumes ok: "arena_ok a e" and cov: "reg_covers (arena_bounds a) (ext_region x)"
    and pos: "reg_start (ext_region x) < reg_end (ext_region x)"
    and at: "at = partition_point (\<lambda>h. hole_start h < reg_end (ext_region x)) (arena_live a)"
    and gap: "\<not> (at > 0 \<and> hole_end (arena_holes a ! (at - 1)) > reg_start (ext_region x))"
  shows "(\<exists>h \<in> set (arena_live a). hole_end h = reg_start (ext_region x)) \<longleftrightarrow>
      at > 0 \<and> hole_end (arena_holes a ! (at - 1)) = reg_start (ext_region x)" (is "?L \<longleftrightarrow> ?L'")
    and "(\<exists>h \<in> set (arena_live a). hole_start h = reg_end (ext_region x)) \<longleftrightarrow>
      at < arena_len a \<and> hole_start (arena_holes a ! at) = reg_end (ext_region x)" (is "?R \<longleftrightarrow> ?R'")
proof -
  let ?live = "arena_live a"
  note sp = arena_release_split [OF ok cov refl refl pos at gap]
  have cap: "arena_len a \<le> length (arena_holes a)" using ok by (simp add: arena_ok_def)
  note parts = live_parts [OF cap, of at]
  have split: "set ?live = set (take at ?live) \<union> set (drop at ?live)" by (metis append_take_drop_id set_append)
  have right: "reg_end (ext_region x) \<le> hole_start h \<and> hole_start h < hole_end h" if "h \<in> set (drop at ?live)" for h
    using spans_mem [OF sp(3) that] by simp
  have left: "hole_start h < hole_end h \<and> hole_end h \<le> reg_start (ext_region x)" if "h \<in> set (take at ?live)" for h
    using spans_mem [OF sp(2) that] by simp
  show "?L \<longleftrightarrow> ?L'"
  proof (cases "at = 0")
    case True
    then show ?thesis using right pos by fastforce
  next
    case False
    then have front: "take at ?live = take (at - 1) ?live @ [arena_holes a ! (at - 1)]" using parts(1) sp(1) by simp
    have "hole_end h < reg_start (ext_region x)" if "h \<in> set (take (at - 1) ?live)" for h
    proof -
      have "hole_spans (reg_start (arena_bounds a)) (take (at - 1) ?live) (hole_start (arena_holes a ! (at - 1)))"
        using sp(2) unfolding front spans_snoc by simp
      from spans_mem [OF this that] have "hole_end h \<le> hole_start (arena_holes a ! (at - 1))" by simp
      then show ?thesis using left [of "arena_holes a ! (at - 1)"] front by simp
    qed
    then show ?thesis using False right pos unfolding split front by fastforce
  qed
  show "?R \<longleftrightarrow> ?R'"
  proof (cases "at < arena_len a")
    case True
    then have rear: "drop at ?live = arena_holes a ! at # drop (Suc at) ?live" by (rule parts(2))
    have "reg_end (ext_region x) < hole_start h" if "h \<in> set (drop (Suc at) ?live)" for h
    proof -
      have "hole_spans (hole_end (arena_holes a ! at)) (drop (Suc at) ?live) (reg_end (arena_bounds a))"
        using sp(3) unfolding rear by simp
      from spans_mem [OF this that] have "hole_end (arena_holes a ! at) \<le> hole_start h" by simp
      then show ?thesis using right [of "arena_holes a ! at"] rear by simp
    qed
    then show ?thesis using True left pos unfolding split rear by fastforce
  next
    case False
    then have "drop at ?live = []" using arena_live_length [OF cap] by simp
    then show ?thesis using False left pos unfolding split by fastforce
  qed
qed

lemma arena_release_result:
  assumes ok: "arena_ok a e" and ext: "extent_ok a x"
  shows "fst (arena_release a x e) =
    (if \<exists>y. in_extent x y \<and> ready_at (arena_live a) y \<noteq> None then Inl (Overlap, x)
     else if arena_len a = length (arena_holes a) \<and>
       \<not> (\<exists>h \<in> set (arena_live a). hole_end h = reg_start (ext_region x) \<or> hole_start h = reg_end (ext_region x))
     then Inl (NoSlot, x) else Inr ())"
proof -
  define at where "at = partition_point (\<lambda>h. hole_start h < reg_end (ext_region x)) (arena_live a)"
  have cls: "ext_class x = arena_class a" and cov: "reg_covers (arena_bounds a) (ext_region x)"
    and pos: "reg_start (ext_region x) < reg_end (ext_region x)" using ext by (simp_all add: extent_ok_def)
  note hit = arena_release_overlap_iff [OF ok cov pos at_def]
  show ?thesis
  proof (cases "\<exists>y. in_extent x y \<and> ready_at (arena_live a) y \<noteq> None")
    case True
    then show ?thesis using hit cls cov by (simp add: arena_release_def Let_def at_def [symmetric])
  next
    case False
    then have gap: "\<not> (at > 0 \<and> hole_end (arena_holes a ! (at - 1)) > reg_start (ext_region x))" using hit by simp
    note near = release_neighbours [OF ok cov pos at_def gap]
    have some: "(\<exists>h \<in> set (arena_live a). hole_end h = reg_start (ext_region x) \<or> hole_start h = reg_end (ext_region x)) \<longleftrightarrow>
      (at > 0 \<and> hole_end (arena_holes a ! (at - 1)) = reg_start (ext_region x)) \<or>
      (at < arena_len a \<and> hole_start (arena_holes a ! at) = reg_end (ext_region x))"
      using near by blast
    show ?thesis using False gap cls cov unfolding some
      by (auto simp: arena_release_def Let_def at_def [symmetric])
  qed
qed

theorem space_release_exact:
  assumes "space_ok s" and "extent_ok (arena_of s (ext_class x)) x" and "a = arena_of s (ext_class x)"
  shows "fst (space_release s x) =
    (if \<exists>y. in_extent x y \<and> space_address s (ext_class x) y \<noteq> None then Inl (Overlap, x)
     else if arena_len a = length (arena_holes a) \<and>
       \<not> (\<exists>h \<in> set (arena_live a). hole_end h = reg_start (ext_region x) \<or> hole_start h = reg_end (ext_region x))
     then Inl (NoSlot, x) else Inr ()) \<and>
    (isl (fst (space_release s x)) \<longrightarrow> snd (space_release s x) = s)"
proof -
  have aok: "arena_ok (arena_of s (ext_class x)) (space_open s)" using assms(1) by (simp add: space_ok_def)
  have "fst (space_release s x) = fst (arena_release (arena_of s (ext_class x)) x (space_open s))"
    by (simp add: space_release_def split: prod.splits)
  moreover have "snd (space_release s x) = s" if "isl (fst (space_release s x))"
    using that space_error_unchanged(2) [of s x] by (cases "space_release s x"; cases "fst (space_release s x)") auto
  ultimately show ?thesis
    using arena_release_result [OF aok assms(2)] unfolding assms(3) space_address_def by (simp only:) simp
qed

theorem space_retire_coalesces:
  assumes "space_ok s" and "e < space_open s" and "a = arena_of (space_retire s e) c"
  shows "(\<forall>i. Suc i < length (arena_live a) \<longrightarrow>
      \<not> joinable (space_retired (space_retire s e)) (arena_live a ! i) (arena_live a ! Suc i)) \<and>
    (\<forall>y. settles_to (space_retired (space_retire s e)) (space_address s c y) (space_address (space_retire s e) c y))"
proof -
  let ?r = "max (space_retired s) e"
  have len: "level c < length (space_arenas s)" using assms(1) level_less by (simp add: space_ok_def)
  have cap: "arena_len (arena_of s c) \<le> length (arena_holes (arena_of s c))"
    using assms(1) by (simp add: space_ok_def arena_ok_def)
  have a: "a = arena_settle (arena_of s c) ?r" and r: "space_retired (space_retire s e) = ?r"
    using assms(2,3) len by (simp_all add: space_retire_def Let_def)
  have "arena_live a = settle_list ?r (arena_live (arena_of s c))"
    unfolding a by (rule settle_live(1) [OF cap])
  then show ?thesis
    using hole_join.joined_settled [of _ ?r "arena_live (arena_of s c)"] space_retire_effect(4) [OF assms(1)] r
    by metis
qed

text \<open>A small space for the concrete instances: Sv39 with one hole slot per class.\<close>

definition sv39 :: space where
  "sv39 = \<lparr>space_arenas = [arena_whole Page (12 * 2 ^ 34) (13 * 2 ^ 34) 1, arena_whole Mega (13 * 2 ^ 34) (14 * 2 ^ 34) 1,
     arena_whole Giga (14 * 2 ^ 34) (16 * 2 ^ 34) 1], space_open = 1, space_retired = 0\<rparr>"

lemma sv39_over: "space_over 39 (replicate 3 hole_EMPTY) = Inr sv39"
  using space_over_eq [of 39 "replicate 3 hole_EMPTY"] by (simp add: sv39_def)

definition sv39_page :: extent where
  "sv39_page = \<lparr>ext_region = \<lparr>reg_start = 12 * 2 ^ 34, reg_end = 12 * 2 ^ 34 + 4096\<rparr>, ext_class = Page\<rparr>"

definition sv39_taken :: space where
  "sv39_taken = sv39\<lparr>space_arenas := (space_arenas sv39)[0 := \<lparr>arena_class = Page,
     arena_bounds = \<lparr>reg_start = 12 * 2 ^ 34, reg_end = 13 * 2 ^ 34\<rparr>,
     arena_holes = [\<lparr>hole_start = 12 * 2 ^ 34 + 4096, hole_end = 13 * 2 ^ 34, hole_ready = 0\<rparr>], arena_len = 1\<rparr>]\<rparr>"

lemma sv39_allocate: "space_allocate sv39 Page 100 = (Inr sv39_page, sv39_taken)"
  by (simp add: space_allocate_def sv39_def sv39_taken_def sv39_page_def arena_allocate_def arena_whole_def arena_live_def
      checked_next_multiple_of_def checked_add_def granule_def FRAME_SIZE_def hole_bytes_def epoch_FIRST_def)

lemma sv39_release: "\<exists>s. space_release sv39_taken sv39_page = (Inr (), s)"
  by (simp add: space_release_def sv39_def sv39_taken_def sv39_page_def arena_release_def arena_live_def
      reg_covers_def partition_point_def)

theorem space_hands_out_disjoint_witness:
  "space_over 39 (replicate 3 hole_EMPTY) = Inr sv39 \<and>
   (let w = foldl va_step \<lparr>w_space = sv39, w_out = []\<rparr> [VAllocate Page 100, VAllocate Giga 5, VRelease 0, VSweep]
    in sorted_wrt apart (w_out w) \<and>
       (\<forall>c. space_free (w_space w) c + space_quarantined (w_space w) c + out_bytes (w_out w) c =
          reg_bytes (arena_bounds (arena_of (w_space w) c))))"
  using space_hands_out_disjoint [OF sv39_over refl, of "[VAllocate Page 100, VAllocate Giga 5, VRelease 0, VSweep]"] sv39_over
  by (simp only: Let_def) blast

theorem released_waits_for_flush_witness:
  "list_all (\<lambda>x. \<not> in_extent x (12 * 2 ^ 34))
     (w_out (foldl va_step \<lparr>w_space = sv39, w_out = []\<rparr> [VAllocate Page 100, VRelease 0, VSweep, VAllocate Page 100]))"
  unfolding list_all_iff
proof
  fix x
  let ?w = "foldl va_step \<lparr>w_space = sv39, w_out = []\<rparr> [VAllocate Page 100]"
  let ?w' = "foldl va_step (va_step ?w (VRelease 0)) [VSweep, VAllocate Page 100]"
  assume "x \<in> set (w_out (foldl va_step \<lparr>w_space = sv39, w_out = []\<rparr> [VAllocate Page 100, VRelease 0, VSweep, VAllocate Page 100]))"
  then have x: "x \<in> set (w_out ?w')" by simp
  have w: "w_space ?w = sv39_taken" "w_out ?w = [sv39_page]" by (simp_all add: sv39_allocate)
  obtain s where s: "space_release sv39_taken sv39_page = (Inr (), s)" using sv39_release by blast
  have kept: "space_retired s = 0"
    using s by (auto simp: space_release_def sv39_taken_def sv39_def split: prod.splits)
  have "space_retired (w_space ?w') < space_open (w_space ?w)"
    using w s kept by (simp add: sv39_taken_def sv39_def space_sweep_def Let_def space_allocate_def split: prod.splits sum.splits)
  moreover have "in_extent (w_out ?w ! 0) (12 * 2 ^ 34)" and "0 < length (w_out ?w)"
    and "space_release (w_space ?w) (w_out ?w ! 0) = (Inr (), s)"
    unfolding w using s by (simp_all add: in_extent_def reg_contains_def sv39_page_def)
  ultimately show "\<not> in_extent x (12 * 2 ^ 34)"
    using released_waits_for_flush [OF sv39_over refl _ _ refl _ _ x] by blast
qed

lemma sv39_ok: "space_ok sv39"
  using space_over_world_ok [OF sv39_over] by (simp add: world_ok_def)

theorem space_allocate_exact_witness:
  "space_ok sv39 \<and> extent_ok (arena_of sv39 Page) sv39_page \<and> 100 \<le> ext_bytes sv39_page"
  using space_allocate_exact [OF sv39_ok, of Page 100] sv39_allocate sv39_ok by blast

theorem space_release_exact_witness: "fst (space_release sv39 sv39_page) = Inl (Overlap, sv39_page)"
proof -
  have ext: "extent_ok (arena_of sv39 (ext_class sv39_page)) sv39_page"
    by (simp add: extent_ok_def sv39_def sv39_page_def arena_whole_def reg_covers_def granule_def FRAME_SIZE_def)
  have "in_extent sv39_page (12 * 2 ^ 34)" "space_address sv39 Page (12 * 2 ^ 34) \<noteq> None"
    by (simp_all add: in_extent_def reg_contains_def sv39_page_def space_address_def sv39_def arena_whole_def arena_live_def)
  then show ?thesis
    using space_release_exact [OF sv39_ok ext refl] by (auto simp: sv39_page_def)
qed

theorem space_retire_coalesces_witness:
  "settles_to (space_retired (space_retire sv39 0)) (space_address sv39 Page 0) (space_address (space_retire sv39 0) Page 0)"
  using space_retire_coalesces [OF sv39_ok _ refl, of 0 Page] by (simp add: sv39_def)

end
