(* ===== verification/Shootdown.thy ===== *)
theory Shootdown
  imports Va_Space
begin

section \<open>Shootdown rounds (crates/sys/arch/src/shootdown.rs)\<close>

text \<open>
  Which cores still owe a flush for which epoch. A core is its index; the two masks are
  64-bit words, so that a core of index 64 or more has no bit.
\<close>

datatype shootdown_error = SWidth | SEmpty | SOpen | SClosed | SStale | SForeign

record shootdown =
  sd_asked :: u64
  sd_flushed :: u64
  sd_epoch :: "epoch option"
  sd_retired :: epoch
  sd_rounds :: u64

definition sd_LIMIT :: nat where "sd_LIMIT = 64"

definition shootdown_new :: shootdown where
  "shootdown_new = \<lparr>sd_asked = 0, sd_flushed = 0, sd_epoch = None, sd_retired = epoch_FIRST, sd_rounds = 0\<rparr>"

definition checked_shl_1 :: "nat \<Rightarrow> u64 option" where
  "checked_shl_1 i = (if i < sd_LIMIT then Some (push_bit i 1) else None)"

definition count_ones :: "u64 \<Rightarrow> nat" where
  "count_ones w = length (filter (bit w) [0..<64])"

fun asked_mask :: "u64 \<Rightarrow> nat list \<Rightarrow> shootdown_error + u64" where
  "asked_mask m [] = Inr m"
| "asked_mask m (cpu # cpus) =
     (case checked_shl_1 cpu of None \<Rightarrow> Inl SWidth | Some b \<Rightarrow> asked_mask (m OR b) cpus)"

definition shootdown_begin :: "shootdown \<Rightarrow> epoch \<Rightarrow> nat list \<Rightarrow> (shootdown_error + nat) \<times> shootdown" where
  "shootdown_begin s e cores =
     (if sd_epoch s \<noteq> None then (Inl SOpen, s)
      else if e \<le> sd_retired s then (Inl SStale, s)
      else case asked_mask 0 cores of
             Inl err \<Rightarrow> (Inl err, s)
           | Inr asked \<Rightarrow>
               if asked = 0 then (Inl SEmpty, s)
               else (Inr (count_ones asked), s\<lparr>sd_asked := asked, sd_flushed := 0, sd_epoch := Some e\<rparr>))"

definition in_round :: "shootdown \<Rightarrow> nat \<Rightarrow> bool" where
  "in_round s cpu \<longleftrightarrow> cpu < sd_LIMIT \<and> sd_asked s AND push_bit cpu 1 \<noteq> 0"

definition has_flushed :: "shootdown \<Rightarrow> nat \<Rightarrow> bool" where
  "has_flushed s cpu \<longleftrightarrow> cpu < sd_LIMIT \<and> sd_flushed s AND push_bit cpu 1 \<noteq> 0"

definition acknowledge :: "shootdown \<Rightarrow> nat \<Rightarrow> (shootdown_error + epoch option) \<times> shootdown" where
  "acknowledge s cpu =
     (case sd_epoch s of
        None \<Rightarrow> (Inl SClosed, s)
      | Some e \<Rightarrow>
          if cpu \<ge> sd_LIMIT \<or> \<not> in_round s cpu then (Inl SForeign, s)
          else
            (let s1 = s\<lparr>sd_flushed := sd_flushed s OR push_bit cpu 1\<rparr>
             in if sd_flushed s1 \<noteq> sd_asked s1 then (Inr None, s1)
                else (Inr (Some e), s1\<lparr>sd_epoch := None, sd_retired := e, sd_rounds := sd_rounds s1 + 1\<rparr>)))"

definition outstanding :: "shootdown \<Rightarrow> nat" where
  "outstanding s = (if sd_epoch s \<noteq> None then count_ones (sd_asked s AND NOT (sd_flushed s)) else 0)"

definition pending :: "shootdown \<Rightarrow> nat \<Rightarrow> bool" where
  "pending s cpu \<longleftrightarrow> sd_epoch s \<noteq> None \<and> in_round s cpu \<and> \<not> has_flushed s cpu"

subsection \<open>A mask is a set of cores\<close>

definition cores_of :: "u64 \<Rightarrow> nat set" where
  "cores_of w = {i. bit w i}"

lemma cores_of_inject: "cores_of v = cores_of w \<longleftrightarrow> v = w"
  by (auto simp: cores_of_def intro: bit_word_eqI)

lemma cores_of_lt: "i \<in> cores_of w \<Longrightarrow> i < 64"
  using bit_imp_le_length [of w i] by (auto simp: cores_of_def)

lemma cores_of_zero [simp]: "cores_of 0 = {}"
  by (simp add: cores_of_def)

lemma cores_of_or [simp]: "cores_of (v OR w) = cores_of v \<union> cores_of w"
  by (auto simp: cores_of_def bit_or_iff)

lemma cores_of_single [simp]: "i < 64 \<Longrightarrow> cores_of (2 ^ i) = {i}"
  by (auto simp: cores_of_def bit_exp_iff)

lemma cores_of_and: "cores_of (v AND w) = cores_of v \<inter> cores_of w"
  by (auto simp: cores_of_def bit_and_iff)

lemma cores_of_not: "cores_of (v AND NOT w) = cores_of v - cores_of w"
  using cores_of_lt [of _ v] by (auto simp: cores_of_def bit_and_iff bit_not_iff)

lemma cores_of_empty_iff: "w = 0 \<longleftrightarrow> cores_of w = {}"
  using cores_of_inject [of w 0] by simp

lemma count_ones_card: "count_ones w = card (cores_of w)"
proof -
  have "cores_of w = set (filter (bit w) [0..<64])" using cores_of_lt [of _ w] by (auto simp: cores_of_def)
  then show ?thesis
    unfolding count_ones_def using distinct_card [OF distinct_filter [OF distinct_upt], of "bit w" 0 64] by simp
qed

lemma in_round_iff: "in_round s cpu \<longleftrightarrow> cpu \<in> cores_of (sd_asked s)"
  using cores_of_lt [of cpu "sd_asked s"]
  by (auto simp: in_round_def sd_LIMIT_def cores_of_empty_iff cores_of_and)

lemma has_flushed_iff: "has_flushed s cpu \<longleftrightarrow> cpu \<in> cores_of (sd_flushed s)"
  using cores_of_lt [of cpu "sd_flushed s"]
  by (auto simp: has_flushed_def sd_LIMIT_def cores_of_empty_iff cores_of_and)

lemma asked_mask_cores:
  "if \<exists>cpu \<in> set cpus. 64 \<le> cpu then asked_mask m cpus = Inl SWidth
   else \<exists>w. asked_mask m cpus = Inr w \<and> cores_of w = cores_of m \<union> set cpus"
proof (induction cpus arbitrary: m)
  case (Cons cpu cpus)
  show ?case
  proof (cases "cpu < 64")
    case True
    then show ?thesis using Cons.IH [of "m OR push_bit cpu 1"]
      by (auto simp: checked_shl_1_def sd_LIMIT_def split: if_splits)
  qed (simp add: checked_shl_1_def sd_LIMIT_def not_less)
qed simp

lemma shootdown_begin_cases:
  "shootdown_begin s e cores =
     (if sd_epoch s \<noteq> None then (Inl SOpen, s)
      else if e \<le> sd_retired s then (Inl SStale, s)
      else if \<exists>cpu \<in> set cores. 64 \<le> cpu then (Inl SWidth, s)
      else if cores = [] then (Inl SEmpty, s)
      else shootdown_begin s e cores)"
  using asked_mask_cores [of cores 0] by (auto simp: shootdown_begin_def cores_of_empty_iff split: if_splits)

lemma shootdown_begin_InrD:
  assumes "shootdown_begin s e cores = (Inr k, s')"
  shows "sd_epoch s = None" and "sd_retired s < e" and "\<forall>cpu \<in> set cores. cpu < 64" and "cores \<noteq> []"
    and "k = card (set cores)" and "cores_of (sd_asked s') = set cores" and "sd_flushed s' = 0"
    and "sd_epoch s' = Some e" and "sd_retired s' = sd_retired s" and "sd_rounds s' = sd_rounds s"
  using assms asked_mask_cores [of cores 0]
  by (auto simp: shootdown_begin_def count_ones_card cores_of_empty_iff not_le split: if_splits sum.splits)

lemma acknowledge_open:
  assumes "sd_epoch s = Some e"
  shows "acknowledge s cpu =
    (if cpu \<notin> cores_of (sd_asked s) then (Inl SForeign, s)
     else if cores_of (sd_flushed s) \<union> {cpu} \<noteq> cores_of (sd_asked s)
     then (Inr None, s\<lparr>sd_flushed := sd_flushed s OR 2 ^ cpu\<rparr>)
     else (Inr (Some e), s\<lparr>sd_flushed := sd_flushed s OR 2 ^ cpu, sd_epoch := None, sd_retired := e,
                           sd_rounds := sd_rounds s + 1\<rparr>))"
proof (cases "cpu \<in> cores_of (sd_asked s)")
  case True
  then have lt: "cpu < 64" by (rule cores_of_lt)
  have "sd_flushed s OR 2 ^ cpu = sd_asked s \<longleftrightarrow> cores_of (sd_flushed s) \<union> {cpu} = cores_of (sd_asked s)"
    using lt by (simp flip: cores_of_inject)
  then show ?thesis using assms True lt by (simp add: acknowledge_def Let_def in_round_iff sd_LIMIT_def)
qed (use assms in \<open>simp add: acknowledge_def in_round_iff\<close>)

subsection \<open>A round\<close>

text \<open>The answers a run of acknowledgements gets.\<close>

fun acknowledge_all :: "shootdown \<Rightarrow> nat list \<Rightarrow> (shootdown_error + epoch option) list \<times> shootdown" where
  "acknowledge_all s [] = ([], s)"
| "acknowledge_all s (cpu # cpus) =
     (case acknowledge s cpu of (r, s1) \<Rightarrow>
        (case acknowledge_all s1 cpus of (rs, s2) \<Rightarrow> (r # rs, s2)))"

lemma acknowledge_closed:
  "sd_epoch s = None \<Longrightarrow> acknowledge_all s cpus = (replicate (length cpus) (Inl SClosed), s)"
  by (induction cpus) (simp_all add: acknowledge_def)

lemma acknowledge_round:
  assumes "sd_epoch s = Some e" and "cores_of (sd_flushed s) \<subset> cores_of (sd_asked s)"
  shows "case acknowledge_all s cpus of (rs, s') \<Rightarrow>
    (if cores_of (sd_asked s) \<subseteq> cores_of (sd_flushed s) \<union> set cpus
     then sd_epoch s' = None \<and> sd_retired s' = e \<and> sd_rounds s' = sd_rounds s + 1 \<and>
       length (filter (\<lambda>r. r = Inr (Some e)) rs) = 1
     else sd_epoch s' = Some e \<and> sd_asked s' = sd_asked s \<and> sd_retired s' = sd_retired s \<and>
       sd_rounds s' = sd_rounds s \<and> length (filter (\<lambda>r. r = Inr (Some e)) rs) = 0 \<and>
       cores_of (sd_flushed s') = cores_of (sd_flushed s) \<union> (cores_of (sd_asked s) \<inter> set cpus))"
  using assms
proof (induction cpus arbitrary: s)
  case Nil
  then show ?case by auto
next
  case (Cons cpu cpus)
  let ?A = "cores_of (sd_asked s)" and ?F = "cores_of (sd_flushed s)"
  consider (foreign) "cpu \<notin> ?A" | (more) "cpu \<in> ?A" "?F \<union> {cpu} \<noteq> ?A" | (last) "cpu \<in> ?A" "?F \<union> {cpu} = ?A"
    by blast
  then show ?case
  proof cases
    case foreign
    have "?A \<subseteq> insert cpu (?F \<union> set cpus) \<longleftrightarrow> ?A \<subseteq> ?F \<union> set cpus"
      "?A \<inter> insert cpu (set cpus) = ?A \<inter> set cpus"
      using foreign by auto
    then show ?thesis using Cons.IH [OF Cons.prems] foreign Cons.prems(1)
      by (simp add: acknowledge_open split: prod.splits if_splits)
  next
    case more
    let ?s = "s\<lparr>sd_flushed := sd_flushed s OR 2 ^ cpu\<rparr>"
    have F: "cores_of (sd_flushed ?s) = ?F \<union> {cpu}" using cores_of_lt [OF more(1)] by simp
    then have "cores_of (sd_flushed ?s) \<subset> cores_of (sd_asked ?s)" using more Cons.prems(2) by auto
    from Cons.IH [OF _ this] show ?thesis using more Cons.prems(1) F
      by (auto simp: acknowledge_open split: prod.splits if_splits)
  next
    case last
    then have "?A \<subseteq> ?F \<union> set (cpu # cpus)" by auto
    then show ?thesis using last Cons.prems(1) by (auto simp: acknowledge_open acknowledge_closed)
  qed
qed

text \<open>
  C27. A round opened over a list of cores reports their number, retires nothing until every
  core asked has answered, whatever the order and the repetitions, and closes exactly on the
  answer that leaves nobody owing, retiring its own epoch.
\<close>

theorem round_closes_on_last_flush:
  assumes "shootdown_begin s e cores = (Inr k, s1)" and "acknowledge_all s1 cpus = (rs, s2)"
  shows "k = card (set cores) \<and> outstanding s2 = card (set cores - set cpus) \<and>
    (\<forall>cpu. pending s2 cpu \<longleftrightarrow> cpu \<in> set cores - set cpus) \<and>
    length (filter (\<lambda>r. r = Inr (Some e)) rs) = (if set cores \<subseteq> set cpus then 1 else 0) \<and>
    sd_epoch s2 = (if set cores \<subseteq> set cpus then None else Some e) \<and>
    sd_retired s2 = (if set cores \<subseteq> set cpus then e else sd_retired s) \<and>
    sd_rounds s2 = sd_rounds s + (if set cores \<subseteq> set cpus then 1 else 0)"
proof -
  note beg = shootdown_begin_InrD [OF assms(1)]
  have "cores_of (sd_flushed s1) \<subset> cores_of (sd_asked s1)" using beg(4,6,7) by auto
  from acknowledge_round [OF beg(8) this, of cpus] show ?thesis
    using beg assms(2)
    by (auto simp: outstanding_def pending_def in_round_iff has_flushed_iff count_ones_card cores_of_not
        intro!: arg_cong [of _ _ card] split: if_splits)
qed

theorem round_closes_on_last_flush_witness:
  "sd_epoch (snd (acknowledge_all (snd (shootdown_begin shootdown_new 1 [0, 2])) [2, 2, 5])) = Some 1"
proof -
  have "shootdown_begin shootdown_new 1 [0, 2] = (Inr 2, snd (shootdown_begin shootdown_new 1 [0, 2]))"
    by (simp add: shootdown_begin_def shootdown_new_def epoch_FIRST_def checked_shl_1_def sd_LIMIT_def count_ones_def upt_rec)
  from round_closes_on_last_flush [OF this prod.collapse [symmetric], of "[2, 2, 5]"] show ?thesis by simp
qed

theorem shootdown_refusals:
  "(case shootdown_begin s e cores of (r, s') \<Rightarrow>
      r = (if sd_epoch s \<noteq> None then Inl SOpen else if e \<le> sd_retired s then Inl SStale
           else if \<exists>cpu. cpu \<in> set cores \<and> 64 \<le> cpu then Inl SWidth else if cores = [] then Inl SEmpty
           else Inr (card (set cores))) \<and> (if isl r then s' = s else sd_epoch s' = Some e)) \<and>
   (case acknowledge s cpu of (r, s') \<Rightarrow>
      (\<not> isl r \<longleftrightarrow> sd_epoch s \<noteq> None \<and> in_round s cpu) \<and>
      (if isl r then s' = s \<and> r = Inl (if sd_epoch s = None then SClosed else SForeign)
       else has_flushed s' cpu \<and> sd_asked s' = sd_asked s))"
proof (intro conjI)
  show "case shootdown_begin s e cores of (r, s') \<Rightarrow>
      r = (if sd_epoch s \<noteq> None then Inl SOpen else if e \<le> sd_retired s then Inl SStale
           else if \<exists>cpu. cpu \<in> set cores \<and> 64 \<le> cpu then Inl SWidth else if cores = [] then Inl SEmpty
           else Inr (card (set cores))) \<and> (if isl r then s' = s else sd_epoch s' = Some e)"
    using asked_mask_cores [of cores 0]
    by (auto simp: shootdown_begin_def cores_of_empty_iff count_ones_card split: if_splits sum.splits)
  show "case acknowledge s cpu of (r, s') \<Rightarrow>
      (\<not> isl r \<longleftrightarrow> sd_epoch s \<noteq> None \<and> in_round s cpu) \<and>
      (if isl r then s' = s \<and> r = Inl (if sd_epoch s = None then SClosed else SForeign)
       else has_flushed s' cpu \<and> sd_asked s' = sd_asked s)"
  proof (cases "sd_epoch s")
    case None
    then show ?thesis by (simp add: acknowledge_def)
  next
    case (Some e)
    then show ?thesis using cores_of_lt [of cpu "sd_asked s"]
      by (auto simp: acknowledge_open in_round_iff has_flushed_iff)
  qed
qed

end
