(* ===== verification/Asid.thy ===== *)
theory Asid
  imports Prelude
begin

section \<open>Address space identifiers (crates/sys/arch/src/asid.rs)\<close>

text \<open>
  Tags are handed out in order and a generation is bumped when they run out. \<open>width\<close> and
  \<open>next\<close> stay below \<open>2 ^ 17\<close>, so they are natural numbers; the generation is a 64-bit counter
  that only grows and is a natural number too, as no machine assigns \<open>2 ^ 64\<close> tags.
\<close>

record asids =
  as_width :: nat
  as_next :: nat
  as_generation :: nat
  as_rollovers :: nat

record asid =
  asid_value :: nat
  asid_generation :: nat

datatype flush = Nothing | Everything

record grant =
  grant_asid :: asid
  grant_flush :: flush

definition asid_KERNEL :: asid where
  "asid_KERNEL = \<lparr>asid_value = 0, asid_generation = 0\<rparr>"

definition asids_new :: "nat \<Rightarrow> asids" where
  "asids_new width =
     \<lparr>as_width = (if width > 16 then 16 else width), as_next = 1, as_generation = 1, as_rollovers = 0\<rparr>"

definition asids_capacity :: "asids \<Rightarrow> nat" where
  "asids_capacity a = push_bit (as_width a) 1 - 1"

text \<open>\<open>self.next as u16\<close> keeps the low sixteen bits.\<close>

definition asids_assign :: "asids \<Rightarrow> grant \<times> asids" where
  "asids_assign a =
     (if as_next a > asids_capacity a then
        (let a1 = a\<lparr>as_generation := as_generation a + 1, as_rollovers := as_rollovers a + 1\<rparr>;
             v = (if asids_capacity a1 = 0 then 0 else 1)
         in (\<lparr>grant_asid = \<lparr>asid_value = v, asid_generation = as_generation a1\<rparr>, grant_flush = Everything\<rparr>,
             a1\<lparr>as_next := v + 1\<rparr>))
      else (\<lparr>grant_asid = \<lparr>asid_value = as_next a mod 2 ^ 16, asid_generation = as_generation a\<rparr>,
             grant_flush = Nothing\<rparr>,
            a\<lparr>as_next := as_next a + 1\<rparr>))"

definition asids_live :: "asids \<Rightarrow> asid \<Rightarrow> bool" where
  "asids_live a t \<longleftrightarrow> asid_generation t = as_generation a"

subsection \<open>A run of assignments\<close>

fun assignments :: "nat \<Rightarrow> asids \<Rightarrow> grant list \<times> asids" where
  "assignments 0 a = ([], a)"
| "assignments (Suc n) a =
     (case asids_assign a of (g, a1) \<Rightarrow> (case assignments n a1 of (gs, a2) \<Rightarrow> (g # gs, a2)))"

text \<open>The \<open>k\<close>-th tag a machine of \<open>c\<close> tags hands out, counting from zero.\<close>

definition nth_grant :: "nat \<Rightarrow> nat \<Rightarrow> grant" where
  "nth_grant c k =
     (if c = 0 then \<lparr>grant_asid = \<lparr>asid_value = 0, asid_generation = k + 2\<rparr>, grant_flush = Everything\<rparr>
      else \<lparr>grant_asid = \<lparr>asid_value = k mod c + 1, asid_generation = k div c + 1\<rparr>,
            grant_flush = (if 0 < k \<and> k mod c = 0 then Everything else Nothing)\<rparr>)"

definition asids_at :: "nat \<Rightarrow> nat \<Rightarrow> asids \<Rightarrow> bool" where
  "asids_at c k a \<longleftrightarrow> asids_capacity a = c \<and>
     (if c = 0 then as_next a = 1 \<and> as_generation a = k + 1
      else if k = 0 then as_next a = 1 \<and> as_generation a = 1
      else as_next a = (k - 1) mod c + 2 \<and> as_generation a = (k - 1) div c + 1)"

lemma asids_capacity_frame [simp]:
  "asids_capacity (a\<lparr>as_next := v\<rparr>) = asids_capacity a"
  "asids_capacity (a\<lparr>as_generation := g\<rparr>) = asids_capacity a"
  "asids_capacity (a\<lparr>as_rollovers := r\<rparr>) = asids_capacity a"
  by (simp_all add: asids_capacity_def)

lemma asids_assign_at:
  assumes "asids_at c k a" and "c < 2 ^ 16"
  shows "asids_at c (Suc k) (snd (asids_assign a)) \<and> fst (asids_assign a) = nth_grant c k"
proof (cases "c = 0 \<or> k = 0")
  case True
  then show ?thesis using assms
    by (cases "c = 0") (auto simp: asids_at_def asids_assign_def nth_grant_def Let_def split: if_splits)
next
  case False
  then obtain j where j: "k = Suc j" and c: "0 < c" by (cases k) auto
  have nxt: "as_next a = j mod c + 2" and gen: "as_generation a = j div c + 1" and cap: "asids_capacity a = c"
    using assms(1) j c by (simp_all add: asids_at_def)
  have lt: "j mod c < c" using c by simp
  show ?thesis
  proof (cases "Suc (j mod c) = c")
    case True
    then have "Suc j mod c = 0" "Suc j div c = Suc (j div c)" by (simp_all add: mod_Suc div_Suc)
    then show ?thesis using True j c nxt gen cap by (simp add: asids_at_def asids_assign_def nth_grant_def Let_def)
  next
    case False
    then have "Suc j mod c = Suc (j mod c)" "Suc j div c = j div c" by (simp_all add: mod_Suc div_Suc)
    then show ?thesis using False j c nxt gen cap lt assms(2)
      by (simp add: asids_at_def asids_assign_def nth_grant_def Let_def)
  qed
qed

lemma assignments_at:
  "asids_at c k a \<Longrightarrow> c < 2 ^ 16 \<Longrightarrow> fst (assignments n a) = map (nth_grant c) [k..<k + n]"
proof (induction n arbitrary: k a)
  case (Suc n)
  note one = asids_assign_at [OF Suc.prems]
  have "[k..<k + Suc n] = k # [Suc k..<Suc k + n]" by (simp add: upt_conv_Cons del: upt_Suc)
  then show ?case using Suc.IH [OF one [THEN conjunct1] Suc.prems(2)] one
    by (auto split: prod.splits simp del: upt_Suc)
qed simp

lemma assignments_new:
  "fst (assignments n (asids_new width)) = map (nth_grant (2 ^ min width 16 - 1)) [0..<n]"
proof -
  have "(2::nat) ^ min width 16 \<le> 2 ^ 16" by (rule power_increasing) simp_all
  moreover have "(0::nat) < 2 ^ min width 16" by simp
  ultimately have "(2::nat) ^ min width 16 - 1 < 2 ^ 16" by linarith
  moreover have "asids_at (2 ^ min width 16 - 1) 0 (asids_new width)"
    by (auto simp: asids_at_def asids_new_def asids_capacity_def min_def)
  ultimately show ?thesis using assignments_at [of _ 0 "asids_new width" n] by simp
qed



theorem asid_budget:
  "map (\<lambda>g. (asid_value (grant_asid g), grant_flush g))
     (fst (assignments (2 ^ min width 16 - 1) (asids_new width))) =
   map (\<lambda>v. (v, Nothing)) [1..<2 ^ min width 16]"
proof -
  define c :: nat where "c = 2 ^ min width 16 - 1"
  have "(1::nat) \<le> 2 ^ min width 16" by simp
  then have top: "2 ^ min width 16 = Suc c" unfolding c_def by (rule Suc_diff_1 [symmetric, OF less_le_trans [OF zero_less_one]])
  have "map (\<lambda>k. (k mod c + 1, Nothing)) [0..<c] = map (\<lambda>v. (v, Nothing)) [1..<Suc c]"
    by (rule nth_equalityI) (simp_all add: nth_append del: upt_Suc)
  moreover have "map ((\<lambda>g. (asid_value (grant_asid g), grant_flush g)) \<circ> nth_grant c) [0..<c] = map (\<lambda>k. (k mod c + 1, Nothing)) [0..<c]"
    by (rule map_cong) (auto simp: nth_grant_def)
  ultimately show ?thesis by (simp add: assignments_new top)
qed

end
