(* ===== verification/Leaf_Refcount.thy ===== *)
theory Leaf_Refcount
  imports Va_Arena
begin

section \<open>Counts per mapped leaf (crates/sys/arch/src/refcount.rs)\<close>

text \<open>
  One record per stretch of adjacent leaves of one class that share a count, in address order
  in a slice of which the first \<open>lv_len\<close> are live. Counts are natural numbers below
  \<open>2 ^ 32\<close>; the sums that the source leaves unchecked wrap at \<open>2 ^ 64\<close>.
\<close>

datatype rc_error = RStorage | RMisaligned | ROverlap | RUntracked | RStraddle | RGranule | RUneven | RAddress | RSaturated

record leaf_run =
  run_start :: nat
  run_leaves :: nat
  run_class :: leaf_class
  run_count :: nat

definition run_EMPTY :: leaf_run where
  "run_EMPTY = \<lparr>run_start = 0, run_leaves = 0, run_class = Page, run_count = 0\<rparr>"

definition run_end :: "leaf_run \<Rightarrow> nat" where
  "run_end r = run_start r + run_leaves r * granule (run_class r)"

definition run_holds :: "leaf_run \<Rightarrow> nat \<Rightarrow> bool" where
  "run_holds r a \<longleftrightarrow> run_leaves r \<noteq> 0 \<and> run_start r \<le> a \<and> a < run_end r"

record reclaimed =
  rec_leaves :: nat
  rec_bytes :: nat

record leaves =
  lv_runs :: "leaf_run list"
  lv_len :: nat

definition lv_live :: "leaves \<Rightarrow> leaf_run list" where
  "lv_live t = take (lv_len t) (lv_runs t)"

definition leaves_over :: "leaf_run list \<Rightarrow> leaves" where
  "leaves_over runs = \<lparr>lv_runs = replicate (length runs) run_EMPTY, lv_len = 0\<rparr>"

definition run_new :: "nat \<Rightarrow> leaf_class \<Rightarrow> nat \<Rightarrow> nat \<Rightarrow> rc_error + leaf_run" where
  "run_new start c n count =
     (if n = 0 then Inl RUntracked
      else if start mod granule c \<noteq> 0 then Inl RMisaligned
      else case Option.bind (checked_mul n (granule c)) (checked_add start) of
             None \<Rightarrow> Inl RAddress
           | Some _ \<Rightarrow> Inr \<lparr>run_start = start, run_leaves = n, run_class = c, run_count = count\<rparr>)"

definition leaves_find :: "leaves \<Rightarrow> nat \<Rightarrow> nat option" where
  "leaves_find t a =
     (let at = partition_point (\<lambda>r. run_start r \<le> a) (lv_live t)
      in if at = 0 then None
         else if run_holds (lv_runs t ! (at - 1)) a then Some (at - 1) else None)"

definition leaves_place :: "leaves \<Rightarrow> leaf_run \<Rightarrow> rc_error + nat" where
  "leaves_place t run =
     (let at = partition_point (\<lambda>r. run_start r < run_start run) (lv_live t)
      in if at > 0 \<and> run_end (lv_runs t ! (at - 1)) > run_start run then Inl ROverlap
         else if at < lv_len t \<and> run_start (lv_runs t ! at) < run_end run then Inl ROverlap
         else Inr at)"

definition leaves_insert :: "leaves \<Rightarrow> nat \<Rightarrow> leaf_run \<Rightarrow> (rc_error + unit) \<times> leaves" where
  "leaves_insert t at run =
     (if lv_len t = length (lv_runs t) then (Inl RStorage, t)
      else (Inr (), t\<lparr>lv_runs := (copy_within (lv_runs t) at (lv_len t) (at + 1))[at := run],
                      lv_len := lv_len t + 1\<rparr>))"

definition leaves_remove :: "leaves \<Rightarrow> nat \<Rightarrow> leaves" where
  "leaves_remove t at =
     (let runs = copy_within (lv_runs t) (at + 1) (lv_len t) at; n = lv_len t - 1
      in t\<lparr>lv_runs := runs[n := run_EMPTY], lv_len := n\<rparr>)"

function coalesce_from :: "leaves \<Rightarrow> nat \<Rightarrow> leaves" where
  "coalesce_from t i =
     (if i + 1 < lv_len t then
        (let run = lv_runs t ! i; nxt = lv_runs t ! (i + 1);
             joins = (run_end run = run_start nxt \<and> run_class run = run_class nxt \<and> run_count run = run_count nxt)
         in if joins
            then coalesce_from
                   (leaves_remove (t\<lparr>lv_runs := (lv_runs t)[i := run\<lparr>run_leaves := run_leaves run + run_leaves nxt\<rparr>]\<rparr>)
                      (i + 1)) i
            else coalesce_from t (i + 1))
      else t)"
  by auto
termination
  by (relation "measure (\<lambda>(t, i). lv_len t - i)") (auto simp: leaves_remove_def Let_def)

declare coalesce_from.simps [simp del]

definition leaves_coalesce :: "leaves \<Rightarrow> leaves" where
  "leaves_coalesce t = coalesce_from t 0"

definition leaves_map :: "leaves \<Rightarrow> nat \<Rightarrow> leaf_class \<Rightarrow> nat \<Rightarrow> (rc_error + unit) \<times> leaves" where
  "leaves_map t start c n =
     (case run_new start c n 1 of
        Inl e \<Rightarrow> (Inl e, t)
      | Inr run \<Rightarrow>
          (case leaves_place t run of
             Inl e \<Rightarrow> (Inl e, t)
           | Inr at \<Rightarrow>
               (case leaves_insert t at run of
                  (Inl e, t1) \<Rightarrow> (Inl e, t1)
                | (Inr _, t1) \<Rightarrow> (Inr (), leaves_coalesce t1))))"

subsection \<open>Covering a region with whole records\<close>

definition leaves_splits :: "leaves \<Rightarrow> nat \<Rightarrow> rc_error + bool" where
  "leaves_splits t a =
     (case leaves_find t a of
        None \<Rightarrow> Inr False
      | Some i \<Rightarrow>
          (let run = lv_runs t ! i
           in if a mod granule (run_class run) \<noteq> 0 then Inl RStraddle else Inr (run_start run \<noteq> a)))"

text \<open>The walk from record to record: \<open>False\<close> when it meets an address that is not counted.\<close>

function cover_reaches :: "leaves \<Rightarrow> nat \<Rightarrow> nat \<Rightarrow> bool" where
  "cover_reaches t reached fin =
     (if reached < fin then
        (case leaves_find t reached of
           None \<Rightarrow> False
         | Some i \<Rightarrow> cover_reaches t (run_end (lv_runs t ! i)) fin)
      else True)"
  by auto
termination
proof (relation "measure (\<lambda>(t, reached, fin). fin - reached)", goal_cases)
  case (2 t reached fin i)
  then show ?case by (auto simp: leaves_find_def Let_def run_holds_def split: if_splits)
qed simp

declare cover_reaches.simps [simp del]

definition cover_cut :: "leaves \<Rightarrow> nat \<Rightarrow> (rc_error + unit) \<times> leaves" where
  "cover_cut t a =
     (case leaves_find t a of
        None \<Rightarrow> (Inr (), t)
      | Some i \<Rightarrow>
          (let run = lv_runs t ! i
           in if run_start run = a then (Inr (), t)
              else (let before = (a - run_start run) div granule (run_class run)
                    in leaves_insert (t\<lparr>lv_runs := (lv_runs t)[i := run\<lparr>run_leaves := before\<rparr>]\<rparr>) (i + 1)
                         (run\<lparr>run_start := a, run_leaves := run_leaves run - before\<rparr>))))"

text \<open>The last loop of \<open>cover\<close>, which stops at the record that reaches the region's end. It stays
  inside the slice because the region is covered.\<close>

function cover_last :: "leaf_run list \<Rightarrow> nat \<Rightarrow> nat \<Rightarrow> nat" where
  "cover_last runs fin lst =
     (if lst < length runs \<and> run_end (runs ! lst) < fin then cover_last runs fin (lst + 1) else lst)"
  by auto
termination
  by (relation "measure (\<lambda>(runs, fin, lst). length runs - lst)") auto

declare cover_last.simps [simp del]

definition leaves_cover :: "leaves \<Rightarrow> va_region \<Rightarrow> (rc_error + nat \<times> nat) \<times> leaves" where
  "leaves_cover t r =
     (if \<not> cover_reaches t (reg_start r) (reg_end r) then (Inl RUntracked, t)
      else case leaves_splits t (reg_start r) of Inl e \<Rightarrow> (Inl e, t) | Inr b1 \<Rightarrow>
          (case leaves_splits t (reg_end r) of Inl e \<Rightarrow> (Inl e, t) | Inr b2 \<Rightarrow>
          if lv_len t + (of_bool b1 + of_bool b2) > length (lv_runs t) then (Inl RStorage, t)
          else (case cover_cut t (reg_start r) of (Inl e, t1) \<Rightarrow> (Inl e, t1) | (Inr _, t1) \<Rightarrow>
               (case cover_cut t1 (reg_end r) of (Inl e, t2) \<Rightarrow> (Inl e, t2) | (Inr _, t2) \<Rightarrow>
               (case leaves_find t2 (reg_start r) of
                  None \<Rightarrow> (Inl RUntracked, t2)
                | Some first \<Rightarrow> (Inr (first, cover_last (lv_runs t2) (reg_end r) first + 1), t2))))))"

subsection \<open>Sharing, releasing, splitting, merging\<close>

definition count_range :: "(nat \<Rightarrow> nat) \<Rightarrow> nat \<Rightarrow> nat \<Rightarrow> leaf_run list \<Rightarrow> leaf_run list" where
  "count_range f first lst runs =
     map (\<lambda>(i, r). if first \<le> i \<and> i < lst then r\<lparr>run_count := f (run_count r)\<rparr> else r) (enumerate 0 runs)"

definition leaves_share :: "leaves \<Rightarrow> va_region \<Rightarrow> (rc_error + unit) \<times> leaves" where
  "leaves_share t r =
     (if \<exists>run \<in> set (lv_live t). run_count run = 2 ^ 32 - 1 \<and> run_start run < reg_end r \<and> run_end run > reg_start r
      then (Inl RSaturated, t)
      else case leaves_cover t r of
             (Inl e, t1) \<Rightarrow> (Inl e, t1)
           | (Inr (first, lst), t1) \<Rightarrow>
               (Inr (), leaves_coalesce (t1\<lparr>lv_runs := count_range (\<lambda>n. n + 1) first lst (lv_runs t1)\<rparr>)))"

function release_zeros :: "leaves \<Rightarrow> reclaimed \<Rightarrow> nat \<Rightarrow> nat \<Rightarrow> reclaimed \<times> leaves" where
  "release_zeros t rec i fin =
     (if i < fin then
        (if run_count (lv_runs t ! i) \<noteq> 0 then release_zeros t rec (i + 1) fin
         else (let run = lv_runs t ! i
               in release_zeros (leaves_remove t i)
                    \<lparr>rec_leaves = rec_leaves rec + run_leaves run,
                     rec_bytes = rec_bytes rec + run_leaves run * granule (run_class run)\<rparr> i (fin - 1)))
      else (rec, t))"
  by auto
termination
  by (relation "measure (\<lambda>(t, rec, i, fin). fin - i)") auto

declare release_zeros.simps [simp del]

definition leaves_release :: "leaves \<Rightarrow> va_region \<Rightarrow> (rc_error + reclaimed) \<times> leaves" where
  "leaves_release t r =
     (case leaves_cover t r of
        (Inl e, t1) \<Rightarrow> (Inl e, t1)
      | (Inr (first, lst), t1) \<Rightarrow>
          (case release_zeros (t1\<lparr>lv_runs := count_range (\<lambda>n. n - 1) first lst (lv_runs t1)\<rparr>)
                  \<lparr>rec_leaves = 0, rec_bytes = 0\<rparr> first lst of
             (rec, t2) \<Rightarrow> (Inr rec, leaves_coalesce t2)))"

definition wrapping_add :: "nat \<Rightarrow> nat \<Rightarrow> nat" where
  "wrapping_add a b = (a + b) mod u64_limit"

definition leaves_split :: "leaves \<Rightarrow> nat \<Rightarrow> (rc_error + leaf_class) \<times> leaves" where
  "leaves_split t a =
     (case leaves_find t a of None \<Rightarrow> (Inl RUntracked, t) | Some i \<Rightarrow>
     (let run = lv_runs t ! i
      in case smaller (run_class run) of None \<Rightarrow> (Inl RGranule, t) | Some child \<Rightarrow>
        (let g = granule (run_class run); leaf = a - a mod g
         in case va_region_new leaf (wrapping_add leaf g) of Inl _ \<Rightarrow> (Inl RAddress, t) | Inr region \<Rightarrow>
           (case leaves_cover t region of
              (Inl e, t1) \<Rightarrow> (Inl e, t1)
            | (Inr (first, _), t1) \<Rightarrow>
                (case run_new leaf child FANOUT (run_count run) of
                   Inl e \<Rightarrow> (Inl e, t1)
                 | Inr new \<Rightarrow> (Inr child, leaves_coalesce (t1\<lparr>lv_runs := (lv_runs t1)[first := new]\<rparr>)))))))"

definition leaves_merge :: "leaves \<Rightarrow> nat \<Rightarrow> (rc_error + leaf_class) \<times> leaves" where
  "leaves_merge t a =
     (case leaves_find t a of None \<Rightarrow> (Inl RUntracked, t) | Some i \<Rightarrow>
     (let run = lv_runs t ! i
      in case larger (run_class run) of None \<Rightarrow> (Inl RGranule, t) | Some parent \<Rightarrow>
        (let g = granule parent; group = a - a mod g
         in case va_region_new group (wrapping_add group g) of Inl _ \<Rightarrow> (Inl RAddress, t) | Inr region \<Rightarrow>
           if run_start run > group \<or> run_end run < reg_end region then (Inl RUneven, t)
           else (case leaves_cover t region of
                   (Inl e, t1) \<Rightarrow> (Inl e, t1)
                 | (Inr (first, _), t1) \<Rightarrow>
                     (case run_new group parent 1 (run_count (lv_runs t1 ! first)) of
                        Inl e \<Rightarrow> (Inl e, t1)
                      | Inr new \<Rightarrow> (Inr parent, leaves_coalesce (t1\<lparr>lv_runs := (lv_runs t1)[first := new]\<rparr>)))))))"

definition leaves_count :: "leaves \<Rightarrow> nat \<Rightarrow> nat option" where
  "leaves_count t a = map_option (\<lambda>i. run_count (lv_runs t ! i)) (leaves_find t a)"

definition leaves_class :: "leaves \<Rightarrow> nat \<Rightarrow> leaf_class option" where
  "leaves_class t a = map_option (\<lambda>i. run_class (lv_runs t ! i)) (leaves_find t a)"

definition leaves_leaves :: "leaves \<Rightarrow> nat" where
  "leaves_leaves t = (\<Sum>r \<leftarrow> lv_live t. run_leaves r)"

definition leaves_bytes :: "leaves \<Rightarrow> nat" where
  "leaves_bytes t = (\<Sum>r \<leftarrow> lv_live t. run_leaves r * granule (run_class r))"

definition leaves_frames :: "leaves \<Rightarrow> nat" where
  "leaves_frames t = leaves_bytes t div FRAME_SIZE"

end
