(* ===== verification/Leaf_Counts.thy ===== *)
theory Leaf_Counts
  imports Leaf_Refcount
begin

text \<open>
  The leaf counts as a map from addresses to the class and the count of the leaf over them. Every
  operation of \<open>refcount.rs\<close> is shown to change that map as its documentation says or to refuse for
  the stated reason and change nothing, and the records stay sorted, disjoint and joined.
\<close>

subsection \<open>The table as counts per address\<close>

abbreviation run_spans :: "nat \<Rightarrow> leaf_run list \<Rightarrow> nat \<Rightarrow> bool" where
  "run_spans \<equiv> spans run_start run_end"

abbreviation run_at :: "leaf_run list \<Rightarrow> nat \<Rightarrow> leaf_run option" where
  "run_at \<equiv> span_at run_start run_end"

definition run_ok :: "leaf_run \<Rightarrow> bool" where
  "run_ok r \<longleftrightarrow> granule (run_class r) dvd run_start r \<and> 0 < run_count r \<and> run_count r < 2 ^ 32"

definition runs_ok :: "leaf_run list \<Rightarrow> bool" where
  "runs_ok rs \<longleftrightarrow> run_spans 0 rs (u64_limit - 1) \<and> (\<forall>r \<in> set rs. run_ok r)"

definition leaves_ok :: "leaves \<Rightarrow> bool" where
  "leaves_ok t \<longleftrightarrow> lv_len t \<le> length (lv_runs t) \<and> runs_ok (lv_live t)"

text \<open>The abstract state: the class and the count of the leaf that covers an address.\<close>

definition leaf_of :: "leaf_run list \<Rightarrow> nat \<Rightarrow> (leaf_class \<times> nat) option" where
  "leaf_of rs x = map_option (\<lambda>r. (run_class r, run_count r)) (run_at rs x)"

abbreviation leaf_at :: "leaves \<Rightarrow> nat \<Rightarrow> (leaf_class \<times> nat) option" where
  "leaf_at t \<equiv> leaf_of (lv_live t)"

lemma run_end_pos: "run_start r < run_end r \<longleftrightarrow> 0 < run_leaves r"
  by (simp add: run_end_def)

lemma lv_live_length: "leaves_ok t \<Longrightarrow> length (lv_live t) = lv_len t"
  by (simp add: leaves_ok_def lv_live_def)

lemma lv_live_nth: "i < lv_len t \<Longrightarrow> lv_live t ! i = lv_runs t ! i"
  by (simp add: lv_live_def)

lemma find_Some_iff:
  assumes "leaves_ok t"
  shows "leaves_find t a = Some i \<longleftrightarrow> i < lv_len t \<and> run_start (lv_runs t ! i) \<le> a \<and> a < run_end (lv_runs t ! i)"
proof -
  let ?live = "lv_live t" and ?at = "partition_point (\<lambda>r. run_start r \<le> a) (lv_live t)"
  have sp: "run_spans 0 ?live (u64_limit - 1)" and len: "length ?live = lv_len t"
    using assms by (simp_all add: leaves_ok_def runs_ok_def lv_live_def)
  have le: "?at \<le> lv_len t" using partition_point_le [of _ ?live] len by simp
  show ?thesis
  proof
    assume "leaves_find t a = Some i"
    then show "i < lv_len t \<and> run_start (lv_runs t ! i) \<le> a \<and> a < run_end (lv_runs t ! i)"
      using le by (auto simp: leaves_find_def Let_def run_holds_def split: if_splits)
  next
    assume i: "i < lv_len t \<and> run_start (lv_runs t ! i) \<le> a \<and> a < run_end (lv_runs t ! i)"
    then have live: "?live ! i = lv_runs t ! i" by (simp add: lv_live_nth)
    have "run_start (?live ! j) \<le> a" if "j \<le> i" for j
      using spans_nth_order [OF sp, of j i] spans_mem [OF sp, of "?live ! j"] that i live len
      by (cases "j = i") (auto simp: less_le)
    moreover have "a < run_start (?live ! Suc i)" if "Suc i < lv_len t"
      using spans_nth_order [OF sp, of i "Suc i"] that i live len by simp
    ultimately have at: "?at = Suc i"
      using i len partition_point_below [of "Suc i" "\<lambda>r. run_start r \<le> a" ?live]
        partition_point_at [of "\<lambda>r. run_start r \<le> a" ?live] le
      by (metis Suc_leI le_less_Suc_eq linorder_not_le not_less_eq order_le_imp_less_or_eq)
    then show "leaves_find t a = Some i"
      using i run_end_pos [of "lv_runs t ! i"] by (simp add: leaves_find_def Let_def run_holds_def)
  qed
qed

lemma find_run_at:
  assumes "leaves_ok t"
  shows "run_at (lv_live t) a = map_option (\<lambda>i. lv_runs t ! i) (leaves_find t a)"
proof (cases "leaves_find t a")
  case None
  have "run_at (lv_live t) a = None"
  proof (rule ccontr)
    assume "run_at (lv_live t) a \<noteq> None"
    then obtain r where r: "run_at (lv_live t) a = Some r" by blast
    have "r \<in> set (lv_live t) \<and> run_start r \<le> a \<and> a < run_end r"
      using span_at_bounds [OF _ r] assms by (auto simp: leaves_ok_def runs_ok_def)
    then obtain i where "i < lv_len t" "lv_runs t ! i = r" "run_start r \<le> a" "a < run_end r"
      using lv_live_length [OF assms] by (auto simp: in_set_conv_nth lv_live_nth)
    then show False using find_Some_iff [OF assms, of a i] None by simp
  qed
  then show ?thesis using None by simp
next
  case (Some i)
  then have "i < lv_len t" "run_start (lv_live t ! i) \<le> a" "a < run_end (lv_live t ! i)"
    using find_Some_iff [OF assms] by (auto simp: lv_live_nth)
  then show ?thesis
    using span_at_nth [of run_start run_end 0 "lv_live t" "u64_limit - 1" i a] Some assms lv_live_length [OF assms]
    by (auto simp: leaves_ok_def runs_ok_def lv_live_nth)
qed

lemma leaves_lookup:
  assumes "leaves_ok t"
  shows "leaves_count t a = map_option snd (leaf_at t a)" and "leaves_class t a = map_option fst (leaf_at t a)"
  by (simp_all add: leaves_count_def leaves_class_def leaf_of_def find_run_at [OF assms] option.map_comp comp_def)

subsection \<open>Coalescing\<close>

definition run_joins :: "leaf_run \<Rightarrow> leaf_run \<Rightarrow> bool" where
  "run_joins p n \<longleftrightarrow> run_end p = run_start n \<and> run_class p = run_class n \<and> run_count p = run_count n"

definition join_runs :: "leaf_run \<Rightarrow> leaf_run \<Rightarrow> leaf_run" where
  "join_runs p n = p\<lparr>run_leaves := run_leaves p + run_leaves n\<rparr>"

lemma join_runs_fields [simp]:
  "run_start (join_runs p n) = run_start p" "run_class (join_runs p n) = run_class p"
  "run_count (join_runs p n) = run_count p"
  by (simp_all add: join_runs_def)

lemma join_runs_end: "run_joins p n \<Longrightarrow> run_end (join_runs p n) = run_end n"
  by (auto simp: run_joins_def run_end_def join_runs_def algebra_simps)

interpretation run_join: span_join run_start run_end run_joins join_runs
  by unfold_locales (auto simp: run_joins_def join_runs_end [unfolded run_joins_def])

lemma coalesce_from_join:
  "coalesce_from t i =
     (case join_from run_joins join_runs run_EMPTY (lv_runs t) (lv_len t) i of
        (runs, n) \<Rightarrow> t\<lparr>lv_runs := runs, lv_len := n\<rparr>)"
proof (induction t i rule: coalesce_from.induct)
  case (1 t i)
  let ?p = "lv_runs t ! i" and ?n = "lv_runs t ! (i + 1)"
  let ?b = "leaves_remove (t\<lparr>lv_runs := (lv_runs t)[i := join_runs ?p ?n]\<rparr>) (i + 1)"
  let ?join = "join_from run_joins join_runs run_EMPTY"
  note here = run_joins_def [of ?p "lv_runs t ! Suc i"] join_runs_def [of ?p "lv_runs t ! Suc i"]
  consider (stop) "\<not> i + 1 < lv_len t" | (join) "i + 1 < lv_len t" "run_joins ?p ?n"
    | (skip) "i + 1 < lv_len t" "\<not> run_joins ?p ?n" by blast
  then show ?case
  proof cases
    case stop
    then show ?thesis by (simp add: coalesce_from.simps [of t i] join_from.simps [of _ _ _ _ _ i])
  next
    case join
    have "coalesce_from t i = coalesce_from ?b i"
      using join by (subst coalesce_from.simps) (simp add: run_joins_def join_runs_def Let_def)
    moreover have "?join (lv_runs t) (lv_len t) i = ?join (lv_runs ?b) (lv_len ?b) i"
      using join by (subst join_from.simps) (simp add: leaves_remove_def array_remove_def Let_def)
    moreover have "coalesce_from ?b i =
        (case ?join (lv_runs ?b) (lv_len ?b) i of (runs, n) \<Rightarrow> ?b\<lparr>lv_runs := runs, lv_len := n\<rparr>)"
      using "1.IH"(1) [OF join(1) refl refl refl] join(2) by (simp add: here)
    ultimately show ?thesis by (simp add: leaves_remove_def Let_def)
  next
    case skip
    have "coalesce_from t i = coalesce_from t (i + 1)"
      using skip by (subst coalesce_from.simps) (auto simp: run_joins_def Let_def)
    moreover have "?join (lv_runs t) (lv_len t) i = ?join (lv_runs t) (lv_len t) (i + 1)"
      using skip by (subst join_from.simps) simp
    moreover note "1.IH"(2) [OF skip(1) refl refl refl]
    ultimately show ?thesis using skip(2) by (simp add: here)
  qed
qed

lemma coalesce_live:
  assumes "lv_len t \<le> length (lv_runs t)"
  shows "lv_live (leaves_coalesce t) = join_list run_joins join_runs (lv_live t)"
    and "lv_len (leaves_coalesce t) \<le> length (lv_runs (leaves_coalesce t))"
    and "length (lv_runs (leaves_coalesce t)) = length (lv_runs t)"
  using join_from_list [OF assms, where J = run_joins and f = join_runs and e = run_EMPTY and i = 0]
  by (auto simp: leaves_coalesce_def coalesce_from_join lv_live_def split: prod.splits)

lemma joined_leaf_of:
  assumes "run_spans lo rs hi"
  shows "leaf_of (join_list run_joins join_runs rs) x = leaf_of rs x"
proof -
  have "rel_option (=) (leaf_of rs x) (leaf_of (join_list run_joins join_runs rs) x)"
    unfolding leaf_of_def using assms
    by (intro run_join.joined_at) (auto simp: run_joins_def intro!: transpI)
  then show ?thesis by (simp add: option.rel_eq)
qed

text \<open>Between calls no two neighbouring records could be one.\<close>

definition leaves_settled :: "leaves \<Rightarrow> bool" where
  "leaves_settled t \<longleftrightarrow> (\<forall>i. Suc i < lv_len t \<longrightarrow> \<not> run_joins (lv_runs t ! i) (lv_runs t ! Suc i))"

lemma coalesce_settled:
  assumes "lv_len t \<le> length (lv_runs t)"
  shows "leaves_settled (leaves_coalesce t)"
proof -
  let ?c = "leaves_coalesce t"
  have "length (lv_live ?c) = lv_len ?c" using coalesce_live(2) [OF assms] by (simp add: lv_live_def)
  then show ?thesis
    using run_join.joined_settled [of _ "lv_live t"] coalesce_live(1) [OF assms] lv_live_nth [of _ ?c]
    by (simp add: leaves_settled_def)
qed

lemma coalesce_effect:
  assumes "lv_len t \<le> length (lv_runs t)" and "runs_ok (lv_live t)"
  shows "leaves_ok (leaves_coalesce t)" and "leaf_at (leaves_coalesce t) x = leaf_at t x"
    and "length (lv_runs (leaves_coalesce t)) = length (lv_runs t)" and "leaves_settled (leaves_coalesce t)"
proof -
  show "leaves_settled (leaves_coalesce t)" by (rule coalesce_settled [OF assms(1)])
  have sp: "run_spans 0 (lv_live t) (u64_limit - 1)" and all: "\<forall>r \<in> set (lv_live t). run_ok r"
    using assms(2) by (simp_all add: runs_ok_def)
  note co = coalesce_live [OF assms(1)]
  show "length (lv_runs (leaves_coalesce t)) = length (lv_runs t)" by (rule co(3))
  show "leaf_at (leaves_coalesce t) x = leaf_at t x" unfolding co(1) by (rule joined_leaf_of [OF sp])
  have "\<forall>r \<in> set (join_list run_joins join_runs (lv_live t)). run_ok r"
    by (rule run_join.joined_all) (use all in \<open>auto simp: run_ok_def\<close>)
  then show "leaves_ok (leaves_coalesce t)"
    using co run_join.joined_spans [OF sp] by (simp add: leaves_ok_def runs_ok_def)
qed

subsection \<open>Cutting and covering\<close>

lemma insert_live:
  assumes "lv_len t < length (lv_runs t)" and "at \<le> lv_len t"
  shows "\<exists>t'. leaves_insert t at run = (Inr (), t') \<and> lv_live t' = insert_nth at run (lv_live t) \<and>
    lv_len t' = lv_len t + 1 \<and> length (lv_runs t') = length (lv_runs t)"
  using assms copy_within_insert [OF assms(2,1), of run] by (auto simp: leaves_insert_def lv_live_def)

text \<open>A point is a boundary when no record reaches across it.\<close>

definition boundary :: "nat \<Rightarrow> leaf_run list \<Rightarrow> bool" where
  "boundary a rs \<longleftrightarrow> (\<forall>r \<in> set rs. \<not> (run_start r < a \<and> a < run_end r))"

lemma cut_run:
  assumes "run_start r < a" and "a < run_end r" and "granule (run_class r) dvd a" and "granule (run_class r) dvd run_start r"
  defines "b \<equiv> (a - run_start r) div granule (run_class r)"
  shows "run_end (r\<lparr>run_leaves := b\<rparr>) = a" and "0 < b" and "b < run_leaves r"
    and "run_end (r\<lparr>run_start := a, run_leaves := run_leaves r - b\<rparr>) = run_end r"
proof -
  let ?g = "granule (run_class r)"
  have "?g dvd a - run_start r" using assms(3,4) by simp
  then have bg: "b * ?g = a - run_start r" unfolding b_def by simp
  show left: "run_end (r\<lparr>run_leaves := b\<rparr>) = a" using assms(1) bg by (simp add: run_end_def)
  have "b * ?g < run_leaves r * ?g" using assms(1,2) bg by (simp add: run_end_def)
  then show lt: "b < run_leaves r" by simp
  show "0 < b" using assms(1) bg by (cases b) simp_all
  show "run_end (r\<lparr>run_start := a, run_leaves := run_leaves r - b\<rparr>) = run_end r"
    using assms(1,2) bg lt by (simp add: run_end_def diff_mult_distrib)
qed

lemma cut_list:
  assumes ok: "runs_ok (xs @ r # ys)" and inside: "run_start r < a" "a < run_end r" and dvd: "granule (run_class r) dvd a"
  defines "k \<equiv> (a - run_start r) div granule (run_class r)"
  defines "l \<equiv> r\<lparr>run_leaves := k\<rparr>" and "m \<equiv> r\<lparr>run_start := a, run_leaves := run_leaves r - k\<rparr>"
  shows "runs_ok (xs @ l # m # ys)" and "leaf_of (xs @ l # m # ys) x = leaf_of (xs @ r # ys) x"
    and "boundary a (xs @ l # m # ys)" and "boundary c (xs @ r # ys) \<Longrightarrow> boundary c (xs @ l # m # ys)"
proof -
  have rok: "run_ok r" and sp: "run_spans 0 (xs @ r # ys) (u64_limit - 1)" using ok by (simp_all add: runs_ok_def)
  note cut = cut_run [OF inside dvd, folded k_def, folded l_def m_def]
  have parts: "run_start l = run_start r" "run_end l = a" "run_start m = a" "run_end m = run_end r"
    "run_class l = run_class r" "run_class m = run_class r" "run_count l = run_count r" "run_count m = run_count r"
    using cut rok by (simp_all add: l_def m_def run_ok_def)
  obtain h where h: "run_spans 0 xs h" "h \<le> run_start r" "run_spans (run_end r) ys (u64_limit - 1)"
    using sp by (auto simp: spans_append)
  have "run_spans 0 (xs @ l # m # ys) (u64_limit - 1)" unfolding spans_append using parts inside h by auto
  then show "runs_ok (xs @ l # m # ys)" using ok parts dvd by (auto simp: runs_ok_def run_ok_def)
  show "leaf_of (xs @ l # m # ys) x = leaf_of (xs @ r # ys) x"
    using parts inside by (auto simp: leaf_of_def span_at_append split: option.splits)
  have "run_end q \<le> h" if "q \<in> set xs" for q using spans_mem [OF h(1) that] by simp
  moreover have "run_end r \<le> run_start q" if "q \<in> set ys" for q using spans_mem [OF h(3) that] by simp
  ultimately show "boundary a (xs @ l # m # ys)" using parts inside h(2) by (fastforce simp: boundary_def)
  show "boundary c (xs @ l # m # ys)" if "boundary c (xs @ r # ys)"
    using that parts inside by (auto simp: boundary_def)
qed

lemma not_inside_boundary:
  assumes ok: "leaves_ok t" and "\<nexists>i. leaves_find t a = Some i \<and> run_start (lv_runs t ! i) \<noteq> a"
  shows "boundary a (lv_live t)"
  unfolding boundary_def
proof (intro ballI notI)
  fix r
  assume r: "r \<in> set (lv_live t)" "run_start r < a \<and> a < run_end r"
  have "run_spans 0 (lv_live t) (u64_limit - 1)" using ok by (simp add: leaves_ok_def runs_ok_def)
  then have "run_at (lv_live t) a = Some r" using span_at_mem [OF _ r(1)] r(2) by simp
  then show False using find_run_at [OF ok, of a] assms(2) r(2) by auto
qed

lemma cover_cut_effect:
  assumes ok: "leaves_ok t" and splits: "leaves_splits t a = Inr b" and room: "lv_len t + of_bool b \<le> length (lv_runs t)"
  shows "\<exists>t'. cover_cut t a = (Inr (), t') \<and> leaves_ok t' \<and> (\<forall>x. leaf_at t' x = leaf_at t x) \<and>
    boundary a (lv_live t') \<and> (\<forall>c. boundary c (lv_live t) \<longrightarrow> boundary c (lv_live t')) \<and>
    lv_len t' = lv_len t + of_bool b \<and> length (lv_runs t') = length (lv_runs t) \<and>
    run_start ` set (lv_live t') \<subseteq> insert a (run_start ` set (lv_live t))"
proof (cases "\<exists>i. leaves_find t a = Some i \<and> run_start (lv_runs t ! i) \<noteq> a")
  case False
  then have "boundary a (lv_live t)" by (rule not_inside_boundary [OF ok])
  moreover have "b = False"
    using splits False by (auto simp: leaves_splits_def Let_def split: option.splits if_splits)
  moreover have "cover_cut t a = (Inr (), t)" using False by (auto simp: cover_cut_def Let_def split: option.splits)
  ultimately show ?thesis using ok by auto
next
  case True
  then obtain i where find: "leaves_find t a = Some i" and ne: "run_start (lv_runs t ! i) \<noteq> a" by blast
  define r where "r = lv_runs t ! i"
  have i: "i < lv_len t" "run_start r < a" "a < run_end r"
    using find_Some_iff [OF ok] find ne by (auto simp: r_def)
  have dvd: "granule (run_class r) dvd a" and b: "b = True"
    using splits find ne by (auto simp: leaves_splits_def Let_def r_def split: if_splits)
  define k where "k = (a - run_start r) div granule (run_class r)"
  define l m where "l = r\<lparr>run_leaves := k\<rparr>" and "m = r\<lparr>run_start := a, run_leaves := run_leaves r - k\<rparr>"
  let ?t = "t\<lparr>lv_runs := (lv_runs t)[i := l]\<rparr>" and ?xs = "take i (lv_live t)" and ?ys = "drop (Suc i) (lv_live t)"
  have room': "lv_len ?t < length (lv_runs ?t)" and le: "i + 1 \<le> lv_len ?t" using room b i by simp_all
  have cutting: "cover_cut t a = leaves_insert ?t (i + 1) m"
    using find ne by (simp add: cover_cut_def Let_def r_def k_def l_def m_def)
  obtain t' where t': "leaves_insert ?t (i + 1) m = (Inr (), t')" "lv_live t' = insert_nth (i + 1) m (lv_live ?t)"
    "lv_len t' = lv_len t + 1" "length (lv_runs t') = length (lv_runs t)"
    using insert_live [OF room' le, of m] by auto
  have old: "lv_live t = ?xs @ r # ?ys"
    using i lv_live_length [OF ok] by (metis id_take_nth_drop lv_live_nth r_def)
  have "lv_live ?t = (lv_live t)[i := l]" by (simp add: lv_live_def take_update_swap)
  then have new: "lv_live t' = ?xs @ l # m # ?ys"
    using t'(2) i lv_live_length [OF ok] by (simp add: insert_nth_def upd_conv_take_nth_drop min_def)
  have "runs_ok (?xs @ r # ?ys)" using ok old by (simp add: leaves_ok_def)
  note cut = cut_list [OF this i(2,3) dvd, folded k_def, folded l_def m_def, folded new old]
  have "leaves_ok t'" using cut(1) t'(3,4) room b by (simp add: leaves_ok_def)
  moreover have "run_start ` set (lv_live t') \<subseteq> insert a (run_start ` set (lv_live t))"
    unfolding new by (subst old) (auto simp: l_def m_def)
  ultimately show ?thesis using cutting t' b cut(2-4) by auto
qed

lemma boundary_cut:
  assumes "run_spans lo rs hi" and "boundary a rs" and "lo \<le> a" and "a \<le> hi"
  obtains pre post where "rs = pre @ post" "run_spans lo pre a" "run_spans a post hi"
  using spans_cut [OF assms(1) _ assms(3,4)] assms(2) by (auto simp: boundary_def)

lemma boundary_append [simp]: "boundary a (xs @ ys) \<longleftrightarrow> boundary a xs \<and> boundary a ys"
  by (auto simp: boundary_def)

lemma leaf_at_find: "leaves_ok t \<Longrightarrow> leaf_at t x = None \<longleftrightarrow> leaves_find t x = None"
  by (simp add: leaf_of_def find_run_at)

lemma leaf_at_inside:
  assumes "leaves_ok t" and "i < lv_len t" and "run_start (lv_runs t ! i) \<le> x" and "x < run_end (lv_runs t ! i)"
  shows "leaf_at t x = Some (run_class (lv_runs t ! i), run_count (lv_runs t ! i))"
proof -
  have "leaves_find t x = Some i" using find_Some_iff [OF assms(1)] assms by simp
  then show ?thesis by (simp add: leaf_of_def find_run_at [OF assms(1)])
qed

lemma cover_reaches_iff:
  assumes "leaves_ok t"
  shows "cover_reaches t a b \<longleftrightarrow> (\<forall>x. a \<le> x \<and> x < b \<longrightarrow> leaf_at t x \<noteq> None)"
  using assms
proof (induction t a b rule: cover_reaches.induct)
  case (1 t a b)
  show ?case
  proof (cases "a < b \<and> leaves_find t a \<noteq> None")
    case True
    then obtain i where i: "leaves_find t a = Some i" by blast
    let ?r = "lv_runs t ! i"
    have b: "i < lv_len t" "run_start ?r \<le> a" "a < run_end ?r" using find_Some_iff [OF "1.prems"] i by auto
    have step: "cover_reaches t a b = cover_reaches t (run_end ?r) b"
      using True i by (subst cover_reaches.simps) simp
    have "leaf_at t x \<noteq> None" if "a \<le> x" "x < run_end ?r" for x
      using leaf_at_inside [OF "1.prems" b(1), of x] that b by simp
    then have "(\<forall>x. run_end ?r \<le> x \<and> x < b \<longrightarrow> leaf_at t x \<noteq> None) \<longleftrightarrow> (\<forall>x. a \<le> x \<and> x < b \<longrightarrow> leaf_at t x \<noteq> None)"
      using b(3) by (intro iff_allI) (metis linorder_not_less order.strict_trans1 order.strict_implies_order)
    then show ?thesis unfolding step using "1.IH" [OF _ i "1.prems"] True by blast
  next
    case False
    then show ?thesis using leaf_at_find [OF "1.prems", of a]
      by (subst cover_reaches.simps) (auto split: option.splits)
  qed
qed

lemma cover_last_is:
  "lst \<le> k \<Longrightarrow> k < length runs \<Longrightarrow> (\<And>i. lst \<le> i \<Longrightarrow> i < k \<Longrightarrow> run_end (runs ! i) < fin) \<Longrightarrow> fin \<le> run_end (runs ! k) \<Longrightarrow>
   cover_last runs fin lst = k"
proof (induction runs fin lst rule: cover_last.induct)
  case (1 runs fin lst)
  then show ?case by (cases "lst = k") (subst cover_last.simps; simp)+
qed

text \<open>A stretch of records without a gap, as \<open>cover\<close> finds it.\<close>

lemma covered_last:
  assumes sp: "run_spans lo mid hi" and "lo < hi" and all: "\<And>x. lo \<le> x \<Longrightarrow> x < hi \<Longrightarrow> run_at mid x \<noteq> None"
  shows "mid \<noteq> []" and "run_start (mid ! 0) = lo" and "run_end (mid ! (length mid - 1)) = hi"
    and "\<And>i. i < length mid - 1 \<Longrightarrow> run_end (mid ! i) < hi"
proof -
  obtain r where r: "run_at mid lo = Some r" using all [of lo] assms(2) by auto
  show ne: "mid \<noteq> []" using r by auto
  then obtain q qs where mid: "mid = q # qs" by (cases mid) auto
  have "run_start q \<le> lo" using span_at_outside [of run_start run_end "run_end q" qs hi lo] r sp mid
    by (auto split: if_splits)
  then show "run_start (mid ! 0) = lo" using sp mid by simp
  have "lo \<le> hi - 1" "hi - 1 < hi" using assms(2) by auto
  then obtain l where l: "run_at mid (hi - 1) = Some l" using all by blast
  have inl: "l \<in> set mid" "hi - 1 < run_end l" using span_at_bounds [OF sp l] by auto
  have top: "run_start (mid ! i) < run_end (mid ! i) \<and> run_end (mid ! i) \<le> hi" if "i < length mid" for i
    using spans_mem [OF sp] that by simp
  show below: "run_end (mid ! i) < hi" if "i < length mid - 1" for i
  proof -
    have "Suc i < length mid" using that by simp
    then show ?thesis using spans_nth_order [OF sp, of i "Suc i"] top [of "Suc i"] by simp
  qed
  obtain j where j: "j < length mid" "mid ! j = l" using inl by (auto simp: in_set_conv_nth)
  have "j = length mid - 1" using below [of j] inl(2) j by (cases "j < length mid - 1") auto
  moreover have "hi \<le> run_end l" using inl(2) by linarith
  ultimately show "run_end (mid ! (length mid - 1)) = hi" using top [OF j(1)] j by simp
qed

text \<open>What \<open>cover\<close> leaves when it succeeds: the live records cut in three, the middle ones over the
  region exactly, and no leaf changed.\<close>

lemma cover_middle:
  assumes ok: "leaves_ok t" and "a < b" and "b < u64_limit" and "boundary a (lv_live t)" and "boundary b (lv_live t)"
    and all: "\<And>x. a \<le> x \<Longrightarrow> x < b \<Longrightarrow> leaf_at t x \<noteq> None"
  obtains pre mid post where "lv_live t = pre @ mid @ post" "run_spans 0 pre a" "run_spans a mid b"
    "run_spans b post (u64_limit - 1)" "mid \<noteq> []" "leaves_find t a = Some (length pre)"
    "cover_last (lv_runs t) b (length pre) + 1 = length pre + length mid"
proof -
  have sp: "run_spans 0 (lv_live t) (u64_limit - 1)" using ok by (simp add: leaves_ok_def runs_ok_def)
  obtain pre rest where pre: "lv_live t = pre @ rest" "run_spans 0 pre a" "run_spans a rest (u64_limit - 1)"
    using boundary_cut [OF sp assms(4)] assms(2,3) by auto
  have rest: "boundary b rest" "a \<le> b" "b \<le> u64_limit - 1" using assms(2,3,5) pre(1) by simp_all
  obtain mid post where mid: "rest = mid @ post" "run_spans a mid b" "run_spans b post (u64_limit - 1)"
    by (rule boundary_cut [OF pre(3) rest])
  have live: "lv_live t = pre @ mid @ post" using pre mid by simp
  have "run_at mid x \<noteq> None" if "a \<le> x" "x < b" for x
    using all [OF that] span_at_outside [OF pre(2), of x] span_at_outside [OF mid(3), of x] that
    by (auto simp: leaf_of_def live span_at_append split: option.splits)
  note last = covered_last [OF mid(2) assms(2) this]
  have len: "length pre + length mid \<le> lv_len t" "lv_len t \<le> length (lv_runs t)"
    using lv_live_length [OF ok] ok live by (simp_all add: leaves_ok_def)
  have nth: "lv_runs t ! (length pre + i) = mid ! i" if "i < length mid" for i
    using lv_live_nth [of "length pre + i" t] len that by (simp add: live nth_append)
  have pos: "0 < length mid" using last(1) by simp
  have top: "run_start (mid ! 0) < run_end (mid ! 0)" using spans_mem [OF mid(2)] pos by simp
  have "leaves_find t a = Some (length pre)"
    using find_Some_iff [OF ok, of a "length pre"] nth [OF pos] last(2) top len pos by simp
  moreover have "cover_last (lv_runs t) b (length pre) = length pre + (length mid - 1)"
  proof (rule cover_last_is)
    show "length pre + (length mid - 1) < length (lv_runs t)" using len pos by linarith
    show "run_end (lv_runs t ! i) < b" if "length pre \<le> i" "i < length pre + (length mid - 1)" for i
      using last(4) [of "i - length pre"] nth [of "i - length pre"] that by simp
  qed (use pos last(3) nth [of "length mid - 1"] in auto)
  ultimately show thesis using that [OF live pre(2) mid(2,3) last(1)] pos by simp
qed

definition mid_leaf :: "leaves \<Rightarrow> nat \<Rightarrow> bool" where
  "mid_leaf t a \<longleftrightarrow> (\<exists>c n. leaf_at t a = Some (c, n) \<and> \<not> granule c dvd a)"

lemma splits_is:
  assumes ok: "leaves_ok t"
  shows "leaves_splits t a = (if mid_leaf t a then Inl RStraddle else Inr (\<not> boundary a (lv_live t)))"
proof (cases "leaves_find t a")
  case None
  then show ?thesis using not_inside_boundary [OF ok, of a] leaf_at_find [OF ok, of a]
    by (simp add: leaves_splits_def mid_leaf_def)
next
  case (Some i)
  let ?r = "lv_runs t ! i"
  have i: "i < lv_len t" "run_start ?r \<le> a" "a < run_end ?r" using find_Some_iff [OF ok] Some by auto
  then have "?r \<in> set (lv_live t)" using lv_live_length [OF ok] lv_live_nth [of i t] by (metis nth_mem)
  then have "boundary a (lv_live t) \<longleftrightarrow> run_start ?r = a"
    using not_inside_boundary [OF ok, of a] i(2,3) Some by (auto simp: boundary_def)
  then show ?thesis using leaf_at_inside [OF ok i] Some
    by (simp add: leaves_splits_def Let_def mid_leaf_def dvd_eq_mod_eq_0)
qed

definition cover_cuts :: "leaves \<Rightarrow> va_region \<Rightarrow> nat" where
  "cover_cuts t r = of_bool (\<not> boundary (reg_start r) (lv_live t)) + of_bool (\<not> boundary (reg_end r) (lv_live t))"

definition counted_over :: "leaves \<Rightarrow> va_region \<Rightarrow> bool" where
  "counted_over t r \<longleftrightarrow> (\<forall>x. reg_start r \<le> x \<and> x < reg_end r \<longrightarrow> leaf_at t x \<noteq> None)"

definition coverable :: "leaves \<Rightarrow> va_region \<Rightarrow> bool" where
  "coverable t r \<longleftrightarrow> counted_over t r \<and> \<not> mid_leaf t (reg_start r) \<and> \<not> mid_leaf t (reg_end r) \<and>
     lv_len t + cover_cuts t r \<le> length (lv_runs t)"

lemma cut_both:
  assumes ok: "leaves_ok t" and cov: "coverable t r"
  obtains t1 t2 where "cover_cut t (reg_start r) = (Inr (), t1)" "cover_cut t1 (reg_end r) = (Inr (), t2)"
    "leaves_ok t2" "\<And>x. leaf_at t2 x = leaf_at t x" "boundary (reg_start r) (lv_live t2)" "boundary (reg_end r) (lv_live t2)"
    "length (lv_runs t2) = length (lv_runs t)"
    "run_start ` set (lv_live t2) \<subseteq> {reg_start r, reg_end r} \<union> run_start ` set (lv_live t)"
proof -
  let ?a = "reg_start r" and ?b = "reg_end r"
  have room: "lv_len t + of_bool (\<not> boundary ?a (lv_live t)) + of_bool (\<not> boundary ?b (lv_live t)) \<le> length (lv_runs t)"
    and mid: "\<not> mid_leaf t ?a" "\<not> mid_leaf t ?b"
    using cov by (simp_all add: coverable_def cover_cuts_def)
  have "leaves_splits t ?a = Inr (\<not> boundary ?a (lv_live t))" using splits_is [OF ok] mid by simp
  from cover_cut_effect [OF ok this] room obtain t1 where t1: "cover_cut t ?a = (Inr (), t1)" "leaves_ok t1"
    "\<And>x. leaf_at t1 x = leaf_at t x" "boundary ?a (lv_live t1)" "boundary ?b (lv_live t) \<Longrightarrow> boundary ?b (lv_live t1)"
    "lv_len t1 = lv_len t + of_bool (\<not> boundary ?a (lv_live t))" "length (lv_runs t1) = length (lv_runs t)"
    "run_start ` set (lv_live t1) \<subseteq> insert ?a (run_start ` set (lv_live t))"
    by auto
  have split: "leaves_splits t1 ?b = Inr (\<not> boundary ?b (lv_live t1))"
    using splits_is [OF t1(2)] mid t1(3) by (simp add: mid_leaf_def)
  have fits: "lv_len t1 + of_bool (\<not> boundary ?b (lv_live t1)) \<le> length (lv_runs t1)"
    using room t1(5-7) by (cases "boundary ?b (lv_live t1)"; cases "boundary ?b (lv_live t)") auto
  from cover_cut_effect [OF t1(2) split fits] obtain t2 where "cover_cut t1 ?b = (Inr (), t2)" "leaves_ok t2"
    "\<And>x. leaf_at t2 x = leaf_at t1 x" "boundary ?b (lv_live t2)" "boundary ?a (lv_live t1) \<Longrightarrow> boundary ?a (lv_live t2)"
    "length (lv_runs t2) = length (lv_runs t1)" "run_start ` set (lv_live t2) \<subseteq> insert ?b (run_start ` set (lv_live t1))"
    by blast
  moreover from this(7) t1(8) have "run_start ` set (lv_live t2) \<subseteq> {?a, ?b} \<union> run_start ` set (lv_live t)" by blast
  ultimately show thesis using that [OF t1(1), of t2] t1 by simp
qed

lemma cover_refused:
  assumes ok: "leaves_ok t" and "\<not> coverable t r"
  shows "leaves_cover t r =
    (Inl (if \<not> counted_over t r then RUntracked
          else if mid_leaf t (reg_start r) \<or> mid_leaf t (reg_end r) then RStraddle else RStorage), t)"
  using assms(2) by (auto simp: leaves_cover_def coverable_def cover_reaches_iff [OF ok] counted_over_def splits_is [OF ok] cover_cuts_def)

lemma cover_effect:
  assumes ok: "leaves_ok t" and r: "reg_start r < reg_end r" "reg_end r < u64_limit" and cov: "coverable t r"
  obtains t' pre mid post where "leaves_cover t r = (Inr (length pre, length pre + length mid), t')" "leaves_ok t'"
    "\<And>x. leaf_at t' x = leaf_at t x" "length (lv_runs t') = length (lv_runs t)"
    "lv_live t' = pre @ mid @ post" "run_spans 0 pre (reg_start r)" "run_spans (reg_start r) mid (reg_end r)"
    "run_spans (reg_end r) post (u64_limit - 1)" "mid \<noteq> []"
    "run_start ` set (lv_live t') \<subseteq> {reg_start r, reg_end r} \<union> run_start ` set (lv_live t)"
proof -
  obtain t1 t2 where t2: "cover_cut t (reg_start r) = (Inr (), t1)" "cover_cut t1 (reg_end r) = (Inr (), t2)"
    "leaves_ok t2" "\<And>x. leaf_at t2 x = leaf_at t x" "boundary (reg_start r) (lv_live t2)" "boundary (reg_end r) (lv_live t2)"
    "length (lv_runs t2) = length (lv_runs t)"
    "run_start ` set (lv_live t2) \<subseteq> {reg_start r, reg_end r} \<union> run_start ` set (lv_live t)" by (rule cut_both [OF ok cov]) blast
  have "leaf_at t2 x \<noteq> None" if "reg_start r \<le> x" "x < reg_end r" for x
    using cov that t2(4) by (simp add: coverable_def counted_over_def)
  from cover_middle [OF t2(3) r t2(5,6) this] obtain pre mid post where
    mid: "lv_live t2 = pre @ mid @ post" "run_spans 0 pre (reg_start r)" "run_spans (reg_start r) mid (reg_end r)"
    "run_spans (reg_end r) post (u64_limit - 1)" "mid \<noteq> []" "leaves_find t2 (reg_start r) = Some (length pre)"
    "cover_last (lv_runs t2) (reg_end r) (length pre) + 1 = length pre + length mid" .
  have "leaves_cover t r = (Inr (length pre, length pre + length mid), t2)"
    using cov t2(1,2) mid(6,7)
    by (simp add: leaves_cover_def coverable_def cover_reaches_iff [OF ok] counted_over_def splits_is [OF ok] cover_cuts_def)
  then show thesis using that mid t2 by blast
qed

subsection \<open>Replacing the records over a region\<close>

lemma leaf_of_append3:
  assumes "run_spans 0 pre a" and "run_spans a mid b" and "run_spans b post hi"
  shows "leaf_of (pre @ mid @ post) x = (if a \<le> x \<and> x < b then leaf_of mid x else leaf_of (pre @ post) x)"
  using span_at_outside [OF assms(1), of x] span_at_outside [OF assms(2), of x] span_at_outside [OF assms(3), of x]
    spans_le [OF assms(2)]
  by (auto simp: leaf_of_def span_at_append split: option.splits)

lemma replace_middle:
  assumes live: "lv_live t = pre @ mid @ post" and runs: "runs_ok (lv_live t)"
    and sp: "run_spans 0 pre a" "run_spans a mid b" "run_spans b post (u64_limit - 1)"
    and live': "lv_live t' = pre @ mid' @ post" and mid': "run_spans a mid' b" "\<forall>r \<in> set mid'. run_ok r"
    and len: "lv_len t' \<le> length (lv_runs t')"
  shows "leaves_ok (leaves_coalesce t')"
    and "leaf_at (leaves_coalesce t') x = (if a \<le> x \<and> x < b then leaf_of mid' x else leaf_at t x)"
    and "length (lv_runs (leaves_coalesce t')) = length (lv_runs t')" and "leaves_settled (leaves_coalesce t')"
proof -
  have "run_spans 0 (pre @ mid' @ post) (u64_limit - 1)"
    using sp mid'(1) spans_append by (metis (no_types, lifting))
  then have runs': "runs_ok (lv_live t')" using runs mid'(2) live live' by (auto simp: runs_ok_def)
  note co = coalesce_effect [OF len runs']
  show "leaves_ok (leaves_coalesce t')" "length (lv_runs (leaves_coalesce t')) = length (lv_runs t')"
    "leaves_settled (leaves_coalesce t')" by (fact co)+
  show "leaf_at (leaves_coalesce t') x = (if a \<le> x \<and> x < b then leaf_of mid' x else leaf_at t x)"
    unfolding co(2) live' live leaf_of_append3 [OF sp(1) mid'(1) sp(3)] leaf_of_append3 [OF sp] by simp
qed

definition recount :: "(nat \<Rightarrow> nat) \<Rightarrow> leaf_run \<Rightarrow> leaf_run" where
  "recount f r = r\<lparr>run_count := f (run_count r)\<rparr>"

lemma recount_fields [simp]:
  "run_start (recount f r) = run_start r" "run_end (recount f r) = run_end r" "run_class (recount f r) = run_class r"
  "run_leaves (recount f r) = run_leaves r" "run_count (recount f r) = f (run_count r)"
  by (simp_all add: recount_def run_end_def)

lemma recount_spans [simp]: "run_spans lo (map (recount f) rs) hi \<longleftrightarrow> run_spans lo rs hi"
  by (induction rs arbitrary: lo) auto

lemma recount_leaf_of: "leaf_of (map (recount f) rs) x = map_option (apsnd f) (leaf_of rs x)"
  by (induction rs) (auto simp: leaf_of_def)

lemma count_range_length [simp]: "length (count_range f i j runs) = length runs"
  by (simp add: count_range_def)

lemma count_range_middle:
  "count_range f (length pre) (length pre + length mid) (pre @ mid @ post) = pre @ map (recount f) mid @ post"
  by (rule nth_equalityI) (auto simp: count_range_def nth_enumerate_eq nth_append recount_def)

lemma count_range_live:
  assumes "leaves_ok t" and "lv_live t = pre @ mid @ post"
  shows "lv_live (t\<lparr>lv_runs := count_range f (length pre) (length pre + length mid) (lv_runs t)\<rparr>) = pre @ map (recount f) mid @ post"
proof -
  have len: "lv_len t = length (pre @ mid @ post)" using lv_live_length [OF assms(1)] assms(2) by simp
  have "lv_runs t = pre @ mid @ post @ drop (lv_len t) (lv_runs t)"
    using assms(2) by (metis append_take_drop_id append.assoc lv_live_def)
  then have "count_range f (length pre) (length pre + length mid) (lv_runs t) = pre @ map (recount f) mid @ post @ drop (lv_len t) (lv_runs t)"
    using count_range_middle [of f pre mid "post @ drop (lv_len t) (lv_runs t)"] by simp
  then show ?thesis using len by (simp add: lv_live_def)
qed

lemma runs_ok_middle:
  assumes "leaves_ok t" and "lv_live t = pre @ mid @ post" and "r \<in> set mid" and "run_spans a mid b"
  shows "run_ok r" and "leaf_at t (run_start r) = Some (run_class r, run_count r)" and "a \<le> run_start r \<and> run_start r < b"
proof -
  have r: "r \<in> set (lv_live t)" using assms(2,3) by simp
  show "run_ok r" using assms(1) r by (simp add: leaves_ok_def runs_ok_def)
  have b: "a \<le> run_start r \<and> run_start r < run_end r \<and> run_end r \<le> b" using spans_mem [OF assms(4,3)] .
  then show "a \<le> run_start r \<and> run_start r < b" by auto
  have "run_at (lv_live t) (run_start r) = Some r"
    using span_at_mem [OF _ r] assms(1) b by (auto simp: leaves_ok_def runs_ok_def)
  then show "leaf_at t (run_start r) = Some (run_class r, run_count r)" by (simp add: leaf_of_def)
qed

subsection \<open>Sharing\<close>

definition saturated_over :: "leaves \<Rightarrow> va_region \<Rightarrow> bool" where
  "saturated_over t r \<longleftrightarrow> (\<exists>x c. reg_start r \<le> x \<and> x < reg_end r \<and> leaf_at t x = Some (c, 2 ^ 32 - 1))"

lemma saturated_iff:
  assumes ok: "leaves_ok t" and "reg_start r < reg_end r"
  shows "(\<exists>run \<in> set (lv_live t). run_count run = 2 ^ 32 - 1 \<and> run_start run < reg_end r \<and> run_end run > reg_start r) \<longleftrightarrow>
    saturated_over t r"
proof
  have sp: "run_spans 0 (lv_live t) (u64_limit - 1)" using ok by (simp add: leaves_ok_def runs_ok_def)
  assume "\<exists>run \<in> set (lv_live t). run_count run = 2 ^ 32 - 1 \<and> run_start run < reg_end r \<and> run_end run > reg_start r"
  then obtain run where run: "run \<in> set (lv_live t)" "run_count run = 2 ^ 32 - 1" "run_start run < reg_end r" "run_end run > reg_start r" by blast
  let ?x = "max (run_start run) (reg_start r)"
  have "run_at (lv_live t) ?x = Some run"
    using span_at_mem [OF sp run(1)] spans_mem [OF sp run(1)] run(4) by simp
  then have "leaf_at t ?x = Some (run_class run, 2 ^ 32 - 1)" using run(2) by (simp add: leaf_of_def)
  then show "saturated_over t r" using run(3) assms(2) unfolding saturated_over_def by (meson max.cobounded2 max_less_iff_conj)
next
  assume "saturated_over t r"
  then obtain x c where x: "reg_start r \<le> x" "x < reg_end r" "leaf_at t x = Some (c, 2 ^ 32 - 1)"
    by (auto simp: saturated_over_def)
  then obtain run where run: "run_at (lv_live t) x = Some run" "run_count run = 2 ^ 32 - 1" by (auto simp: leaf_of_def)
  have "run \<in> set (lv_live t)" "run_start run \<le> x" "x < run_end run"
    using span_at_bounds [OF _ run(1)] ok by (auto simp: leaves_ok_def runs_ok_def)
  then show "\<exists>run \<in> set (lv_live t). run_count run = 2 ^ 32 - 1 \<and> run_start run < reg_end r \<and> run_end run > reg_start r"
    using run(2) x by force
qed

lemma share_effect:
  assumes ok: "leaves_ok t" and r: "reg_start r < reg_end r" "reg_end r < u64_limit"
    and "\<not> saturated_over t r" and cov: "coverable t r"
  obtains t' where "leaves_share t r = (Inr (), t')" "leaves_ok t'" "leaves_settled t'" "length (lv_runs t') = length (lv_runs t)"
    "\<And>x. leaf_at t' x = (if reg_contains r x then map_option (apsnd Suc) (leaf_at t x) else leaf_at t x)"
proof -
  obtain t1 pre mid post where c: "leaves_cover t r = (Inr (length pre, length pre + length mid), t1)" "leaves_ok t1"
    "\<And>x. leaf_at t1 x = leaf_at t x" "length (lv_runs t1) = length (lv_runs t)"
    "lv_live t1 = pre @ mid @ post" "run_spans 0 pre (reg_start r)" "run_spans (reg_start r) mid (reg_end r)"
    "run_spans (reg_end r) post (u64_limit - 1)" by (rule cover_effect [OF ok r cov]) blast
  let ?t = "t1\<lparr>lv_runs := count_range (\<lambda>n. n + 1) (length pre) (length pre + length mid) (lv_runs t1)\<rparr>"
  have up: "run_ok (recount (\<lambda>n. n + 1) q)" if "q \<in> set mid" for q
    using runs_ok_middle [OF c(2,5) that c(7)] assms(4) c(3) unfolding saturated_over_def run_ok_def by fastforce
  have ok1: "runs_ok (lv_live t1)" "lv_len ?t \<le> length (lv_runs ?t)" using c(2) by (simp_all add: leaves_ok_def)
  have mid': "run_spans (reg_start r) (map (recount (\<lambda>n. n + 1)) mid) (reg_end r)"
    "\<forall>q \<in> set (map (recount (\<lambda>n. n + 1)) mid). run_ok q" using c(7) up by auto
  note new = replace_middle [OF c(5) ok1(1) c(6-8) count_range_live [OF c(2,5)] mid' ok1(2)]
  have "leaves_share t r = (Inr (), leaves_coalesce ?t)"
    using saturated_iff [OF ok r(1)] assms(4) c(1) by (auto simp: leaves_share_def)
  moreover have "leaf_at (leaves_coalesce ?t) x = (if reg_contains r x then map_option (apsnd Suc) (leaf_at t x) else leaf_at t x)" for x
  proof -
    have "leaf_at t1 x = leaf_of mid x" if "reg_start r \<le> x \<and> x < reg_end r"
      unfolding c(5) leaf_of_append3 [OF c(6-8)] using that by simp
    then show ?thesis unfolding new(2) recount_leaf_of using c(3) by (auto simp: reg_contains_def)
  qed
  ultimately show thesis using that new c(4) by simp
qed

subsection \<open>Releasing\<close>

lemma remove_live:
  assumes "i < lv_len t" and "lv_len t \<le> length (lv_runs t)"
  shows "lv_live (leaves_remove t i) = remove_nth i (lv_live t)" and "lv_len (leaves_remove t i) = lv_len t - 1"
    and "length (lv_runs (leaves_remove t i)) = length (lv_runs t)"
  using array_remove_live [OF assms, of run_EMPTY] array_remove_length [OF assms, of run_EMPTY]
  by (simp_all add: leaves_remove_def Let_def lv_live_def array_remove_def)

text \<open>What the loop of \<open>release\<close> drops is the records of the region whose count reached zero.\<close>

lemma release_zeros_drops:
  assumes "lv_live t = pre @ mid @ post" and "lv_len t \<le> length (lv_runs t)"
  defines "gone \<equiv> filter (\<lambda>r. run_count r = 0) mid"
  shows "\<exists>t'. release_zeros t rec (length pre) (length pre + length mid) =
      (\<lparr>rec_leaves = rec_leaves rec + (\<Sum>r \<leftarrow> gone. run_leaves r),
        rec_bytes = rec_bytes rec + (\<Sum>r \<leftarrow> gone. run_leaves r * granule (run_class r))\<rparr>, t') \<and>
    lv_live t' = pre @ filter (\<lambda>r. run_count r \<noteq> 0) mid @ post \<and> lv_len t' \<le> length (lv_runs t') \<and>
    length (lv_runs t') = length (lv_runs t)"
  using assms(1,2) unfolding gone_def
proof (induction mid arbitrary: t pre rec)
  case Nil
  then show ?case by (simp add: release_zeros.simps)
next
  case (Cons r mid)
  have len: "lv_len t = length (pre @ (r # mid) @ post)"
    using Cons.prems by (metis length_take lv_live_def min.absorb2)
  have here: "lv_runs t ! length pre = r"
    using lv_live_nth [of "length pre" t] len Cons.prems(1) by (simp add: nth_append)
  show ?case
  proof (cases "run_count r = 0")
    case False
    have "release_zeros t rec (length pre) (length pre + length (r # mid)) =
        release_zeros t rec (length (pre @ [r])) (length (pre @ [r]) + length mid)"
      using here False by (subst release_zeros.simps) simp
    then show ?thesis using Cons.IH [of t "pre @ [r]" rec] Cons.prems False by simp
  next
    case True
    let ?rec = "\<lparr>rec_leaves = rec_leaves rec + run_leaves r, rec_bytes = rec_bytes rec + run_leaves r * granule (run_class r)\<rparr>"
    have lt: "length pre < lv_len t" using len by simp
    have "lv_live (leaves_remove t (length pre)) = pre @ mid @ post"
      using remove_live(1) [OF lt Cons.prems(2)] Cons.prems(1) by (simp add: remove_nth_def)
    moreover have "release_zeros t rec (length pre) (length pre + length (r # mid)) =
        release_zeros (leaves_remove t (length pre)) ?rec (length pre) (length pre + length mid)"
      using here True by (subst release_zeros.simps) (simp add: Let_def)
    ultimately show ?thesis
      using Cons.IH [of "leaves_remove t (length pre)" pre ?rec] remove_live(2,3) [OF lt Cons.prems(2)] Cons.prems(2) True
      by (auto simp: add.assoc)
  qed
qed

definition drop_one :: "leaf_class \<times> nat \<Rightarrow> (leaf_class \<times> nat) option" where
  "drop_one v = (if snd v = 1 then None else Some (fst v, snd v - 1))"

lemma leaf_of_Cons:
  "leaf_of (r # rs) x = (if run_start r \<le> x \<and> x < run_end r then Some (run_class r, run_count r) else leaf_of rs x)"
  by (simp add: leaf_of_def)

lemma leaf_of_filter:
  assumes "run_spans lo rs hi"
  shows "leaf_of (filter (\<lambda>r. P (run_count r)) rs) x = Option.bind (leaf_of rs x) (\<lambda>v. if P (snd v) then Some v else None)"
  unfolding leaf_of_def span_at_filter [OF assms] by (cases "run_at rs x") auto

lemma leaf_of_pos:
  assumes "run_spans lo mid hi" and "\<forall>r \<in> set mid. run_ok r" and "leaf_of mid x = Some (c, n)"
  shows "0 < n"
  using assms(2,3) span_at_bounds [OF assms(1)] by (auto simp: leaf_of_def run_ok_def)

lemma leaf_of_dropped:
  assumes "run_spans lo mid hi" and "\<forall>r \<in> set mid. run_ok r"
  shows "leaf_of (filter (\<lambda>r. run_count r \<noteq> 0) (map (recount (\<lambda>n. n - 1)) mid)) x = Option.bind (leaf_of mid x) drop_one"
    and "leaf_of (filter (\<lambda>r. run_count r = 0) (map (recount (\<lambda>n. n - 1)) mid)) x = Some (c, n) \<longleftrightarrow>
      n = 0 \<and> leaf_of mid x = Some (c, 1)"
proof -
  have sp: "run_spans lo (map (recount (\<lambda>n. n - 1)) mid) hi" using assms(1) by simp
  note pos = leaf_of_pos [OF assms, of x]
  show "leaf_of (filter (\<lambda>r. run_count r \<noteq> 0) (map (recount (\<lambda>n. n - 1)) mid)) x = Option.bind (leaf_of mid x) drop_one"
    unfolding leaf_of_filter [OF sp, of "\<lambda>n. n \<noteq> 0"] recount_leaf_of using pos
    by (cases "leaf_of mid x") (auto simp: drop_one_def)
  show "leaf_of (filter (\<lambda>r. run_count r = 0) (map (recount (\<lambda>n. n - 1)) mid)) x = Some (c, n) \<longleftrightarrow>
      n = 0 \<and> leaf_of mid x = Some (c, 1)"
    unfolding leaf_of_filter [OF sp, of "\<lambda>n. n = 0"] recount_leaf_of using pos
    by (cases "leaf_of mid x") auto
qed

text \<open>The bytes a list of records covers are its addresses, and its leaves are the aligned ones.\<close>

lemma runs_bytes_card:
  assumes "run_spans lo rs hi"
  shows "(\<Sum>r \<leftarrow> rs. run_leaves r * granule (run_class r)) = card {x. leaf_of rs x \<noteq> None}"
proof -
  have "span_bytes run_start run_end rs = (\<Sum>r \<leftarrow> rs. run_leaves r * granule (run_class r))"
    by (simp add: span_bytes_def run_end_def)
  then show ?thesis using spans_bytes_card [OF assms] by (simp add: leaf_of_def)
qed

lemma card_multiples:
  assumes "0 < (g::nat)" and "g dvd s"
  shows "card {x. s \<le> x \<and> x < s + n * g \<and> g dvd x} = n"
proof -
  have "{x. s \<le> x \<and> x < s + n * g \<and> g dvd x} = (\<lambda>i. s + i * g) ` {..<n}"
  proof (intro set_eqI iffI)
    fix x
    assume "x \<in> {x. s \<le> x \<and> x < s + n * g \<and> g dvd x}"
    then have x: "s \<le> x" "x - s < n * g" "g dvd x - s" using assms(2) by auto
    then obtain i where "x - s = g * i" by (auto elim: dvdE)
    then show "x \<in> (\<lambda>i. s + i * g) ` {..<n}" using x by (intro image_eqI [of _ _ i]) (auto simp: mult.commute)
  qed (use assms in auto)
  moreover have "inj_on (\<lambda>i. s + i * g) {..<n}" using assms(1) by (auto simp: inj_on_def)
  ultimately show ?thesis by (simp add: card_image)
qed

definition leaf_starts :: "leaf_run list \<Rightarrow> nat set" where
  "leaf_starts rs = {x. \<exists>c n. leaf_of rs x = Some (c, n) \<and> granule c dvd x}"

lemma runs_leaves_card:
  assumes "run_spans lo rs hi" and "\<forall>r \<in> set rs. granule (run_class r) dvd run_start r"
  shows "(\<Sum>r \<leftarrow> rs. run_leaves r) = card (leaf_starts rs)"
  using assms
proof (induction rs arbitrary: lo)
  case Nil
  then show ?case by (simp add: leaf_starts_def leaf_of_def)
next
  case (Cons r rs)
  let ?head = "{x. run_start r \<le> x \<and> x < run_start r + run_leaves r * granule (run_class r) \<and> granule (run_class r) dvd x}"
  have tail: "run_spans (run_end r) rs hi" and r: "granule (run_class r) dvd run_start r"
    using Cons.prems by auto
  have far: "run_end r \<le> x" if "leaf_of rs x \<noteq> None" for x
    using span_at_outside [OF tail, of x] that by (cases "run_end r \<le> x") (auto simp: leaf_of_def)
  have "x \<in> leaf_starts (r # rs) \<longleftrightarrow> x \<in> ?head \<union> leaf_starts rs" for x
    using far [of x] by (cases "x < run_end r") (auto simp: leaf_starts_def leaf_of_Cons run_end_def)
  then have "leaf_starts (r # rs) = ?head \<union> leaf_starts rs" by blast
  moreover have "?head \<inter> leaf_starts rs = {}" using far by (fastforce simp: leaf_starts_def run_end_def)
  moreover have "leaf_starts rs \<subseteq> {..<hi}"
    using span_at_outside [OF tail] by (fastforce simp: leaf_starts_def leaf_of_def not_le)
  then have "finite (leaf_starts rs)" by (rule finite_subset) simp
  ultimately have "card (leaf_starts (r # rs)) = card ?head + card (leaf_starts rs)"
    by (simp add: card_Un_disjoint)
  then show ?case using Cons card_multiples [OF granule_pos r] tail by simp
qed

lemma gone_counts:
  assumes "run_spans lo mid hi" and "\<forall>r \<in> set mid. run_ok r"
  defines "gone \<equiv> filter (\<lambda>r. run_count r = 0) (map (recount (\<lambda>n. n - 1)) mid)"
  shows "(\<Sum>r \<leftarrow> gone. run_leaves r * granule (run_class r)) = card {x. \<exists>c. leaf_of mid x = Some (c, 1)}"
    and "(\<Sum>r \<leftarrow> gone. run_leaves r) = card {x. \<exists>c. leaf_of mid x = Some (c, 1) \<and> granule c dvd x}"
proof -
  have sp: "run_spans lo gone hi" unfolding gone_def by (rule spans_filter) (use assms(1) in simp)
  have at: "leaf_of gone x = Some (c, n) \<longleftrightarrow> n = 0 \<and> leaf_of mid x = Some (c, 1)" for x c n
    unfolding gone_def by (rule leaf_of_dropped(2) [OF assms(1,2)])
  then have "leaf_of gone x \<noteq> None \<longleftrightarrow> (\<exists>c. leaf_of mid x = Some (c, 1))" for x by auto
  then show "(\<Sum>r \<leftarrow> gone. run_leaves r * granule (run_class r)) = card {x. \<exists>c. leaf_of mid x = Some (c, 1)}"
    using runs_bytes_card [OF sp] by simp
  have "\<forall>r \<in> set gone. granule (run_class r) dvd run_start r" using assms(2) by (auto simp: gone_def run_ok_def)
  then show "(\<Sum>r \<leftarrow> gone. run_leaves r) = card {x. \<exists>c. leaf_of mid x = Some (c, 1) \<and> granule c dvd x}"
    using runs_leaves_card [OF sp] at by (simp add: leaf_starts_def)
qed

lemma release_effect:
  assumes ok: "leaves_ok t" and r: "reg_start r < reg_end r" "reg_end r < u64_limit" and cov: "coverable t r"
  obtains rec t' where "leaves_release t r = (Inr rec, t')" "leaves_ok t'" "leaves_settled t'" "length (lv_runs t') = length (lv_runs t)"
    "\<And>x. leaf_at t' x = (if reg_contains r x then Option.bind (leaf_at t x) drop_one else leaf_at t x)"
    "rec_bytes rec = card {x. reg_contains r x \<and> (\<exists>c. leaf_at t x = Some (c, 1))}"
    "rec_leaves rec = card {x. reg_contains r x \<and> (\<exists>c. leaf_at t x = Some (c, 1) \<and> granule c dvd x)}"
proof -
  obtain t1 pre mid post where c: "leaves_cover t r = (Inr (length pre, length pre + length mid), t1)" "leaves_ok t1"
    "\<And>x. leaf_at t1 x = leaf_at t x" "length (lv_runs t1) = length (lv_runs t)"
    "lv_live t1 = pre @ mid @ post" "run_spans 0 pre (reg_start r)" "run_spans (reg_start r) mid (reg_end r)"
    "run_spans (reg_end r) post (u64_limit - 1)" by (rule cover_effect [OF ok r cov]) blast
  let ?down = "map (recount (\<lambda>n. n - 1)) mid"
  let ?t = "t1\<lparr>lv_runs := count_range (\<lambda>n. n - 1) (length pre) (length pre + length mid) (lv_runs t1)\<rparr>"
  let ?left = "filter (\<lambda>r. run_count r \<noteq> 0) ?down" and ?gone = "filter (\<lambda>r. run_count r = 0) ?down"
  have all: "\<forall>q \<in> set mid. run_ok q" using runs_ok_middle(1) [OF c(2,5) _ c(7)] by blast
  have ok1: "runs_ok (lv_live t1)" "lv_len ?t \<le> length (lv_runs ?t)" using c(2) by (simp_all add: leaves_ok_def)
  from release_zeros_drops [OF count_range_live [OF c(2,5)] ok1(2), where rec = "\<lparr>rec_leaves = 0, rec_bytes = 0\<rparr>"]
  obtain t2 where t2: "release_zeros ?t \<lparr>rec_leaves = 0, rec_bytes = 0\<rparr> (length pre) (length pre + length mid) =
      (\<lparr>rec_leaves = (\<Sum>r \<leftarrow> ?gone. run_leaves r), rec_bytes = (\<Sum>r \<leftarrow> ?gone. run_leaves r * granule (run_class r))\<rparr>, t2)"
    "lv_live t2 = pre @ ?left @ post" "lv_len t2 \<le> length (lv_runs t2)" "length (lv_runs t2) = length (lv_runs t1)"
    by auto
  have left: "run_spans (reg_start r) ?left (reg_end r)" "\<forall>q \<in> set ?left. run_ok q"
    using spans_filter [of run_start run_end _ ?down] c(7) all by (auto simp: run_ok_def)
  note new = replace_middle [OF c(5) ok1(1) c(6-8) t2(2) left t2(3)]
  have here: "leaf_of mid x = (if reg_contains r x then leaf_at t x else None)" for x
    unfolding c(3) [symmetric] c(5) leaf_of_append3 [OF c(6-8)] using span_at_outside [OF c(7), of x]
    by (auto simp: reg_contains_def leaf_of_def)
  have res: "leaves_release t r = (Inr \<lparr>rec_leaves = (\<Sum>r \<leftarrow> ?gone. run_leaves r), rec_bytes = (\<Sum>r \<leftarrow> ?gone. run_leaves r * granule (run_class r))\<rparr>, leaves_coalesce t2)"
    using c(1) t2(1) by (simp add: leaves_release_def)
  have at: "leaf_at (leaves_coalesce t2) x = (if reg_contains r x then Option.bind (leaf_at t x) drop_one else leaf_at t x)" for x
    unfolding new(2) leaf_of_dropped [OF c(7) all] here using c(3) by (simp add: reg_contains_def)
  have one: "leaf_of mid x = Some (c, 1) \<longleftrightarrow> reg_contains r x \<and> leaf_at t x = Some (c, 1)" for x c using here by simp
  have len: "length (lv_runs (leaves_coalesce t2)) = length (lv_runs t)" using new(3) t2(4) c(4) by simp
  show thesis by (rule that [OF res new(1,4) len at]) (use gone_counts [OF c(7) all, unfolded one] in \<open>simp_all add: conj_assoc\<close>)
qed

subsection \<open>Mapping\<close>

lemma place_gap:
  assumes ok: "leaves_ok t" and at: "at = partition_point (\<lambda>r. run_start r < p) (lv_live t)" and top: "e < u64_limit"
    and below: "at > 0 \<Longrightarrow> run_end (lv_runs t ! (at - 1)) \<le> p" and above: "at < lv_len t \<Longrightarrow> e \<le> run_start (lv_runs t ! at)"
  shows "run_spans 0 (take at (lv_live t)) p" and "run_spans e (drop at (lv_live t)) (u64_limit - 1)"
proof -
  let ?live = "lv_live t"
  have sp: "run_spans 0 ?live (u64_limit - 1)" using ok by (simp add: leaves_ok_def runs_ok_def)
  have len: "length ?live = lv_len t" "at \<le> lv_len t"
    using lv_live_length [OF ok] partition_point_le [of _ ?live] at by simp_all
  have low: "run_end r \<le> p" if r: "r \<in> set (take at ?live)" for r
  proof -
    obtain i where i: "i < at" "r = ?live ! i" using r by (auto simp: in_set_conv_nth)
    have lt: "at - 1 < lv_len t" and le: "run_end (lv_runs t ! (at - 1)) \<le> p" using i len below by auto
    have "run_start (?live ! (at - 1)) < run_end (?live ! (at - 1))" using spans_mem [OF sp] lt len by simp
    moreover have "i = at - 1 \<or> i < at - 1" using i(1) by linarith
    ultimately show ?thesis using spans_nth_order [OF sp, of i "at - 1"] i lt len le lv_live_nth [OF lt] by auto
  qed
  obtain m where m: "run_spans 0 (take at ?live) m" "run_spans m (drop at ?live) (u64_limit - 1)"
    using sp spans_append [of run_start run_end 0 "take at ?live" "drop at ?live" "u64_limit - 1"] by auto
  show "run_spans 0 (take at ?live) (p)" using spans_upper [OF m(1)] low by simp
  show "run_spans (e) (drop at ?live) (u64_limit - 1)"
  proof (cases "drop at ?live")
    case (Cons y ys)
    have "y = lv_runs t ! at" "at < lv_len t"
      using Cons len by (metis hd_drop_conv_nth list.sel(1) lv_live_nth drop_eq_Nil linorder_not_le list.distinct(1))+
    then show ?thesis using above m(2) Cons by simp
  qed (use top in simp)
qed

lemma place_is:
  assumes ok: "leaves_ok t" and pos: "run_start q < run_end q" and top: "run_end q < u64_limit"
  shows "(\<exists>x. run_start q \<le> x \<and> x < run_end q \<and> leaf_at t x \<noteq> None) \<and> leaves_place t q = Inl ROverlap \<or>
    (\<exists>pre post. lv_live t = pre @ post \<and> run_spans 0 pre (run_start q) \<and> run_spans (run_end q) post (u64_limit - 1) \<and>
       leaves_place t q = Inr (length pre))"
proof -
  let ?live = "lv_live t" and ?at = "partition_point (\<lambda>r. run_start r < run_start q) (lv_live t)"
  have sp: "run_spans 0 ?live (u64_limit - 1)" using ok by (simp add: leaves_ok_def runs_ok_def)
  have len: "length ?live = lv_len t" "?at \<le> lv_len t"
    using lv_live_length [OF ok] partition_point_le [of _ ?live] by simp_all
  consider (left) "?at > 0" "run_end (lv_runs t ! (?at - 1)) > run_start q"
    | (right) "\<not> (?at > 0 \<and> run_end (lv_runs t ! (?at - 1)) > run_start q)" "?at < lv_len t" "run_start (lv_runs t ! ?at) < run_end q"
    | (free) "?at > 0 \<Longrightarrow> run_end (lv_runs t ! (?at - 1)) \<le> run_start q" "?at < lv_len t \<Longrightarrow> run_end q \<le> run_start (lv_runs t ! ?at)"
    by fastforce
  then show ?thesis
  proof cases
    case left
    have lt: "?at - 1 < lv_len t" using left(1) len by linarith
    have "run_start (?live ! (?at - 1)) < run_start q"
      using partition_point_below [of "?at - 1" "\<lambda>r. run_start r < run_start q" ?live] left(1) by simp
    then have "leaf_at t (run_start q) \<noteq> None"
      using leaf_at_inside [OF ok lt, of "run_start q"] left(2) lv_live_nth [OF lt] by simp
    then show ?thesis using left pos by (auto simp: leaves_place_def Let_def)
  next
    case right
    let ?r = "lv_runs t ! ?at"
    have "run_start q \<le> run_start ?r"
      using partition_point_at [of "\<lambda>r. run_start r < run_start q" ?live] right(2) len lv_live_nth [OF right(2)] by simp
    moreover have "run_start ?r < run_end ?r"
      using spans_mem [OF sp, of ?r] right(2) len lv_live_nth [OF right(2)] by (metis nth_mem)
    ultimately have "\<exists>x. run_start q \<le> x \<and> x < run_end q \<and> leaf_at t x \<noteq> None"
      using leaf_at_inside [OF ok right(2), of "run_start ?r"] right(3) by (intro exI [of _ "run_start ?r"]) simp
    then show ?thesis using right by (simp add: leaves_place_def Let_def)
  next
    case free
    note gap = place_gap [OF ok refl top free]
    have "\<not> (?at > 0 \<and> run_end (lv_runs t ! (?at - 1)) > run_start q)" "\<not> (?at < lv_len t \<and> run_start (lv_runs t ! ?at) < run_end q)"
      using free by linarith+
    then have "leaves_place t q = Inr ?at" unfolding leaves_place_def Let_def by (simp only: if_False)
    then show ?thesis using gap len by (intro disjI2 exI [of _ "take ?at ?live"] exI [of _ "drop ?at ?live"]) (simp add: min_def)
  qed
qed

definition map_refusal :: "leaves \<Rightarrow> nat \<Rightarrow> leaf_class \<Rightarrow> nat \<Rightarrow> rc_error option" where
  "map_refusal t start c n =
     (if n = 0 then Some RUntracked
      else if \<not> granule c dvd start then Some RMisaligned
      else if u64_limit \<le> start + n * granule c then Some RAddress
      else if \<exists>x. start \<le> x \<and> x < start + n * granule c \<and> leaf_at t x \<noteq> None then Some ROverlap
      else if lv_len t = length (lv_runs t) then Some RStorage
      else None)"

lemma run_new_is:
  "run_new start c n count =
     (if n = 0 then Inl RUntracked
      else if \<not> granule c dvd start then Inl RMisaligned
      else if u64_limit \<le> start + n * granule c then Inl RAddress
      else Inr \<lparr>run_start = start, run_leaves = n, run_class = c, run_count = count\<rparr>)"
  by (auto simp: run_new_def dvd_eq_mod_eq_0 checked_mul_def checked_add_def split: option.splits)

lemma insert_gap:
  assumes ok: "leaves_ok t" and room: "lv_len t < length (lv_runs t)" and live: "lv_live t = pre @ post"
    and q: "run_start q < run_end q" "run_ok q"
    and sp: "run_spans 0 pre (run_start q)" "run_spans (run_end q) post (u64_limit - 1)"
  obtains t1 where "leaves_insert t (length pre) q = (Inr (), t1)" "leaves_ok (leaves_coalesce t1)" "leaves_settled (leaves_coalesce t1)"
    "length (lv_runs (leaves_coalesce t1)) = length (lv_runs t)"
    "\<And>x. leaf_at (leaves_coalesce t1) x =
      (if run_start q \<le> x \<and> x < run_end q then Some (run_class q, run_count q) else leaf_at t x)"
proof -
  have len: "length pre \<le> lv_len t" using live lv_live_length [OF ok] by simp
  from insert_live [OF room len, of q] obtain t1 where t1: "leaves_insert t (length pre) q = (Inr (), t1)"
    "lv_live t1 = pre @ [q] @ post" "lv_len t1 \<le> length (lv_runs t1)" "length (lv_runs t1) = length (lv_runs t)"
    using len room by (auto simp: insert_nth_def live)
  have empty: "lv_live t = pre @ [] @ post" "run_spans (run_start q) [] (run_end q)" using live q(1) by simp_all
  have one: "run_spans (run_start q) [q] (run_end q)" "\<forall>r \<in> set [q]. run_ok r" using q by simp_all
  have "runs_ok (lv_live t)" using ok by (simp add: leaves_ok_def)
  note new = replace_middle [OF empty(1) this sp(1) empty(2) sp(2) t1(2) one t1(3)]
  show thesis by (rule that [OF t1(1) new(1,4)]) (simp_all add: new(2,3) t1(4) leaf_of_Cons)
qed

lemma map_effect:
  assumes ok: "leaves_ok t"
  shows "case map_refusal t start c n of
      Some e \<Rightarrow> leaves_map t start c n = (Inl e, t)
    | None \<Rightarrow> \<exists>t'. leaves_map t start c n = (Inr (), t') \<and> leaves_ok t' \<and> leaves_settled t' \<and>
        length (lv_runs t') = length (lv_runs t) \<and> (\<forall>x. leaf_at t' x = (if start \<le> x \<and> x < start + n * granule c then Some (c, 1) else leaf_at t x))"
proof (cases "n = 0 \<or> \<not> granule c dvd start \<or> u64_limit \<le> start + n * granule c")
  case True
  then show ?thesis by (auto simp: map_refusal_def leaves_map_def run_new_is)
next
  case False
  let ?q = "\<lparr>run_start = start, run_leaves = n, run_class = c, run_count = 1\<rparr>"
  have end_q: "run_end ?q = start + n * granule c" by (simp add: run_end_def)
  have q: "run_start ?q < run_end ?q" "run_end ?q < u64_limit" "run_ok ?q" using False by (auto simp: run_end_def run_ok_def)
  from place_is [OF ok q(1,2)] show ?thesis
  proof (elim disjE conjE exE)
    fix x
    assume "run_start ?q \<le> x" "x < run_end ?q" "leaf_at t x \<noteq> None" "leaves_place t ?q = Inl ROverlap"
    moreover from this(1-3) have "\<exists>x. start \<le> x \<and> x < start + n * granule c \<and> leaf_at t x \<noteq> None" unfolding end_q by auto
    ultimately show ?thesis using False by (simp add: map_refusal_def leaves_map_def run_new_is)
  next
    fix pre post
    assume live: "lv_live t = pre @ post" and pre: "run_spans 0 pre (run_start ?q)"
      and post: "run_spans (run_end ?q) post (u64_limit - 1)" and place: "leaves_place t ?q = Inr (length pre)"
    have "leaf_at t x = None" if "run_start ?q \<le> x" "x < run_end ?q" for x
      using span_at_outside [OF pre, of x] span_at_outside [OF post, of x] that
      by (simp add: leaf_of_def live span_at_append)
    then have clear: "\<not> (\<exists>x. start \<le> x \<and> x < start + n * granule c \<and> leaf_at t x \<noteq> None)" unfolding end_q by auto
    show ?thesis
    proof (cases "lv_len t = length (lv_runs t)")
      case True
      then show ?thesis using False clear place by (simp add: map_refusal_def leaves_map_def run_new_is leaves_insert_def)
    next
      case room: False
      then have "lv_len t < length (lv_runs t)" using ok by (simp add: leaves_ok_def)
      from insert_gap [OF ok this live q(1,3) pre post] obtain t1 where t1: "leaves_insert t (length pre) ?q = (Inr (), t1)"
        "leaves_ok (leaves_coalesce t1)" "leaves_settled (leaves_coalesce t1)" "length (lv_runs (leaves_coalesce t1)) = length (lv_runs t)"
        "\<And>x. leaf_at (leaves_coalesce t1) x =
           (if run_start ?q \<le> x \<and> x < run_end ?q then Some (run_class ?q, run_count ?q) else leaf_at t x)" by blast
      moreover have "leaf_at (leaves_coalesce t1) x = (if start \<le> x \<and> x < start + n * granule c then Some (c, 1) else leaf_at t x)" for x
        unfolding t1(5) end_q by simp
      moreover have "map_refusal t start c n = None" using False clear room by (simp add: map_refusal_def)
      ultimately show ?thesis using False place by (auto simp: leaves_map_def run_new_is)
    qed
  qed
qed

subsection \<open>Splitting and merging\<close>

lemma leaf_at_record:
  assumes "leaves_ok t" and "leaf_at t x = Some (c, n)"
  obtains j where "j < lv_len t" "run_start (lv_runs t ! j) \<le> x" "x < run_end (lv_runs t ! j)"
    "run_class (lv_runs t ! j) = c" "run_count (lv_runs t ! j) = n" "leaves_find t x = Some j"
proof (cases "leaves_find t x")
  case None
  then show thesis using leaf_at_find [OF assms(1), of x] assms(2) by simp
next
  case (Some j)
  then have j: "j < lv_len t" "run_start (lv_runs t ! j) \<le> x" "x < run_end (lv_runs t ! j)"
    using find_Some_iff [OF assms(1)] by simp_all
  then show thesis using that [of j] leaf_at_inside [OF assms(1) j] assms(2) Some by simp
qed

lemma record_mem: "leaves_ok t \<Longrightarrow> i < lv_len t \<Longrightarrow> lv_runs t ! i \<in> set (lv_live t)"
  using lv_live_length [of t] lv_live_nth [of i t] by (metis nth_mem)

lemma record_pos:
  assumes "leaves_ok t" and "i < lv_len t"
  shows "run_start (lv_runs t ! i) < run_end (lv_runs t ! i)" and "run_end (lv_runs t ! i) < u64_limit" and "run_ok (lv_runs t ! i)"
  using spans_mem [OF _ record_mem [OF assms], of run_start run_end 0 "u64_limit - 1"] record_mem [OF assms] assms
  by (auto simp: leaves_ok_def runs_ok_def)

lemma record_order:
  assumes "leaves_ok t" and "i < j" and "j < lv_len t"
  shows "run_end (lv_runs t ! i) \<le> run_start (lv_runs t ! j)"
  using spans_nth_order [of run_start run_end 0 "lv_live t" "u64_limit - 1" i j] assms lv_live_length [OF assms(1)]
    lv_live_nth [of i t] lv_live_nth [of j t]
  by (simp add: leaves_ok_def runs_ok_def)

lemma touching_records:
  assumes ok: "leaves_ok t" and i: "i < lv_len t" and j: "j < lv_len t"
    and touch: "run_end (lv_runs t ! i) = run_start (lv_runs t ! j)"
  shows "j = Suc i"
proof -
  note pos = record_pos(1) [OF ok] and order = record_order [OF ok]
  have "\<not> j \<le> i" using order [of j i] pos [OF i] pos [OF j] i touch by (cases "j = i") auto
  moreover have "\<not> Suc i < j" using order [of i "Suc i"] order [of "Suc i" j] pos [of "Suc i"] j touch by fastforce
  ultimately show ?thesis by simp
qed

text \<open>Records that touch and agree do not exist between calls, so leaves that agree lie in one record.\<close>

lemma agreeing_leaves_one_record:
  assumes ok: "leaves_ok t" and settled: "leaves_settled t" and find: "leaves_find t a = Some i" and a: "lo \<le> a" "a < hi"
  defines "r \<equiv> lv_runs t ! i"
  shows "run_start r \<le> lo \<and> hi \<le> run_end r \<longleftrightarrow> (\<forall>x. lo \<le> x \<and> x < hi \<longrightarrow> leaf_at t x = Some (run_class r, run_count r))"
    (is "?one \<longleftrightarrow> ?all")
proof
  have i: "i < lv_len t" "run_start r \<le> a" "a < run_end r" using find_Some_iff [OF ok] find by (auto simp: r_def)
  show ?all if ?one using that leaf_at_inside [OF ok i(1)] by (auto simp: r_def)
  assume all: ?all
  have other: "\<exists>j < lv_len t. run_start (lv_runs t ! j) \<le> x \<and> x < run_end (lv_runs t ! j) \<and>
      run_class (lv_runs t ! j) = run_class r \<and> run_count (lv_runs t ! j) = run_count r" if "lo \<le> x" "x < hi" for x
    using all that leaf_at_record [OF ok, of x] by metis
  show ?one
  proof (rule ccontr)
    assume "\<not> ?one"
    then consider "run_end r < hi" | "lo < run_start r" by linarith
    then show False
    proof cases
      case 1
      then obtain j where j: "j < lv_len t" "run_start (lv_runs t ! j) \<le> run_end r" "run_end r < run_end (lv_runs t ! j)"
        "run_class (lv_runs t ! j) = run_class r" "run_count (lv_runs t ! j) = run_count r"
        using other [of "run_end r"] a i by auto
      have "i < j" using record_order [OF ok, of j i] record_pos(1) [OF ok i(1)] i(1) j(3) by (cases i j rule: linorder_cases) (auto simp: r_def)
      then have "run_end r = run_start (lv_runs t ! j)" using record_order [OF ok _ j(1), of i] j(2) by (simp add: r_def)
      then show False using touching_records [OF ok i(1) j(1)] settled j by (auto simp: r_def leaves_settled_def run_joins_def)
    next
      case 2
      then have "lo \<le> run_start r - 1" "run_start r - 1 < hi" using a i by linarith+
      from other [OF this] obtain j where j: "j < lv_len t" "run_start (lv_runs t ! j) \<le> run_start r - 1" "run_start r - 1 < run_end (lv_runs t ! j)"
        "run_class (lv_runs t ! j) = run_class r" "run_count (lv_runs t ! j) = run_count r" by blast
      have "j < i" using record_order [OF ok, of i j] record_pos(1) [OF ok i(1)] j(1,2) 2 by (cases i j rule: linorder_cases) (auto simp: r_def)
      then have "run_end (lv_runs t ! j) = run_start r" using record_order [OF ok _ i(1), of j] j(3) 2 by (simp add: r_def)
      then show False using touching_records [OF ok j(1) i(1)] settled i(1) j by (auto simp: r_def leaves_settled_def run_joins_def)
    qed
  qed
qed

text \<open>Covering a region inside one record leaves one record over it.\<close>

lemma record_bounds_not_mid:
  assumes ok: "leaves_ok t" and i: "i < lv_len t" and a: "run_start (lv_runs t ! i) \<le> a" "a \<le> run_end (lv_runs t ! i)"
    and dvd: "granule (run_class (lv_runs t ! i)) dvd a"
  shows "\<not> mid_leaf t a"
proof
  assume "mid_leaf t a"
  then obtain c n where c: "leaf_at t a = Some (c, n)" "\<not> granule c dvd a" by (auto simp: mid_leaf_def)
  from leaf_at_record [OF ok c(1)] obtain j where j: "j < lv_len t" "run_start (lv_runs t ! j) \<le> a" "a < run_end (lv_runs t ! j)"
    "run_class (lv_runs t ! j) = c" by blast
  have "i \<noteq> j" using dvd c(2) j(4) by auto
  then consider "i < j" | "j < i" by linarith
  then have "a = run_start (lv_runs t ! j)"
  proof cases
    case 1
    then show ?thesis using record_order [OF ok 1 j(1)] j(2) a(2) by simp
  next
    case 2
    then show ?thesis using record_order [OF ok 2 i] j(3) a(1) by simp
  qed
  then show False using record_pos(3) [OF ok j(1)] j(4) c(2) by (simp add: run_ok_def)
qed

lemma cover_inside_record:
  assumes ok: "leaves_ok t" and i: "i < lv_len t" and r: "reg_start r < reg_end r"
    and inside: "run_start (lv_runs t ! i) \<le> reg_start r" "reg_end r \<le> run_end (lv_runs t ! i)"
    and dvd: "granule (run_class (lv_runs t ! i)) dvd reg_start r" "granule (run_class (lv_runs t ! i)) dvd reg_end r"
    and room: "lv_len t + cover_cuts t r \<le> length (lv_runs t)"
  obtains t1 pre q post where "leaves_cover t r = (Inr (length pre, length pre + 1), t1)" "leaves_ok t1"
    "\<And>x. leaf_at t1 x = leaf_at t x" "length (lv_runs t1) = length (lv_runs t)" "lv_live t1 = pre @ [q] @ post"
    "run_spans 0 pre (reg_start r)" "run_start q = reg_start r" "run_end q = reg_end r" "run_spans (reg_end r) post (u64_limit - 1)"
    "run_count q = run_count (lv_runs t ! i)"
proof -
  have top: "reg_end r < u64_limit" using inside(2) record_pos(2) [OF ok i] by simp
  have in_r: "leaf_at t x = Some (run_class (lv_runs t ! i), run_count (lv_runs t ! i))" if "reg_start r \<le> x" "x < reg_end r" for x
    using leaf_at_inside [OF ok i] inside that by simp
  have cov: "coverable t r"
    using room in_r record_bounds_not_mid [OF ok i _ _ dvd(1)] record_bounds_not_mid [OF ok i _ _ dvd(2)] inside r
    by (simp add: coverable_def counted_over_def)
  obtain t1 pre mid post where c: "leaves_cover t r = (Inr (length pre, length pre + length mid), t1)" "leaves_ok t1"
    "\<And>x. leaf_at t1 x = leaf_at t x" "length (lv_runs t1) = length (lv_runs t)"
    "lv_live t1 = pre @ mid @ post" "run_spans 0 pre (reg_start r)" "run_spans (reg_start r) mid (reg_end r)"
    "run_spans (reg_end r) post (u64_limit - 1)" "mid \<noteq> []"
    "run_start ` set (lv_live t1) \<subseteq> {reg_start r, reg_end r} \<union> run_start ` set (lv_live t)"
    by (rule cover_effect [OF ok r top cov]) blast
  have starts: "run_start m = reg_start r" if m: "m \<in> set mid" for m
  proof (rule ccontr)
    assume ne: "run_start m \<noteq> reg_start r"
    have b: "reg_start r < run_start m" "run_start m < reg_end r" using spans_mem [OF c(7) m] ne by auto
    have "run_start m \<in> run_start ` set (lv_live t1)" using m c(5) by simp
    then obtain k where k: "k < lv_len t" "run_start (lv_runs t ! k) = run_start m"
      using c(10) b lv_live_length [OF ok] by (fastforce simp: in_set_conv_nth lv_live_nth)
    consider "k < i" | "k = i" | "i < k" by linarith
    then show False using record_order [OF ok, of k i] record_order [OF ok, of i k] record_pos(1) [OF ok k(1)] i k b inside
      by cases auto
  qed
  obtain q rest where mid: "mid = q # rest" using c(9) by (cases mid) auto
  have "rest = []" using c(7) starts [of q] starts [of "hd rest"] by (cases rest) (simp_all add: mid)
  moreover have "run_end q = reg_end r"
    using covered_last(3) [OF c(7) r] in_r c(3,5) leaf_of_append3 [OF c(6-8)] mid calculation
    by (metis (no_types, lifting) diff_Suc_1 leaf_of_def length_Cons list.size(3) nth_Cons_0 option.discI option.simps(8))
  moreover have "run_count q = run_count (lv_runs t ! i)"
    using runs_ok_middle(2) [OF c(2,5) _ c(7), of q] mid starts [of q] in_r [of "reg_start r"] r c(3) by simp
  ultimately show thesis using that [of pre t1 q post] c mid starts by simp
qed

lemma retile:
  assumes ok: "leaves_ok t" and i: "i < lv_len t" and r: "reg_start r < reg_end r"
    and inside: "run_start (lv_runs t ! i) \<le> reg_start r" "reg_end r \<le> run_end (lv_runs t ! i)"
    and dvd: "granule (run_class (lv_runs t ! i)) dvd reg_start r" "granule (run_class (lv_runs t ! i)) dvd reg_end r"
    and room: "lv_len t + cover_cuts t r \<le> length (lv_runs t)"
    and q: "run_start q = reg_start r" "run_end q = reg_end r" "run_ok q"
  obtains first lst t1 where "leaves_cover t r = (Inr (first, lst), t1)" "run_count (lv_runs t1 ! first) = run_count (lv_runs t ! i)"
    "leaves_settled (leaves_coalesce (t1\<lparr>lv_runs := (lv_runs t1)[first := q]\<rparr>))"
    "leaves_ok (leaves_coalesce (t1\<lparr>lv_runs := (lv_runs t1)[first := q]\<rparr>))"
    "length (lv_runs (leaves_coalesce (t1\<lparr>lv_runs := (lv_runs t1)[first := q]\<rparr>))) = length (lv_runs t)"
    "\<And>x. leaf_at (leaves_coalesce (t1\<lparr>lv_runs := (lv_runs t1)[first := q]\<rparr>)) x =
       (if reg_contains r x then Some (run_class q, run_count q) else leaf_at t x)"
proof -
  obtain t1 pre p post where c: "leaves_cover t r = (Inr (length pre, length pre + 1), t1)" "leaves_ok t1"
    "\<And>x. leaf_at t1 x = leaf_at t x" "length (lv_runs t1) = length (lv_runs t)" "lv_live t1 = pre @ [p] @ post"
    "run_spans 0 pre (reg_start r)" "run_start p = reg_start r" "run_end p = reg_end r" "run_spans (reg_end r) post (u64_limit - 1)"
    "run_count p = run_count (lv_runs t ! i)"
    by (rule cover_inside_record [OF ok i r inside dvd room]) blast
  let ?t = "t1\<lparr>lv_runs := (lv_runs t1)[length pre := q]\<rparr>"
  have len: "length pre < lv_len t1" "lv_len t1 \<le> length (lv_runs t1)"
    using lv_live_length [OF c(2)] c(2,5) by (simp_all add: leaves_ok_def)
  have first: "lv_runs t1 ! length pre = p" using lv_live_nth [OF len(1)] c(5) by (simp add: nth_append)
  have "lv_live ?t = (lv_live t1)[length pre := q]" by (simp add: lv_live_def take_update_swap)
  then have live: "lv_live ?t = pre @ [q] @ post" using c(5) by simp
  have old: "run_spans (reg_start r) [p] (reg_end r)" and new: "run_spans (reg_start r) [q] (reg_end r)"
    using c(7,8) q r by simp_all
  have "runs_ok (lv_live t1)" "\<forall>s \<in> set [q]. run_ok s" "lv_len ?t \<le> length (lv_runs ?t)"
    using c(2) q(3) by (simp_all add: leaves_ok_def)
  note rep = replace_middle [OF c(5) this(1) c(6) old c(9) live new this(2,3)]
  show thesis
    by (rule that [OF c(1) _ rep(4,1)])
      (simp_all add: first c(4,10) rep(2,3) c(3) leaf_of_Cons q reg_contains_def)
qed

lemma smaller_granule: "smaller c = Some d \<Longrightarrow> granule c = FANOUT * granule d"
  by (cases c) (auto simp: granule_def FRAME_SIZE_def FANOUT_def)

lemma larger_smaller: "larger d = Some c \<longleftrightarrow> smaller c = Some d"
  by (cases c; cases d) auto

definition leaf_region :: "leaf_class \<Rightarrow> nat \<Rightarrow> va_region" where
  "leaf_region c a = \<lparr>reg_start = a - a mod granule c, reg_end = a - a mod granule c + granule c\<rparr>"

lemma leaf_region_facts:
  "reg_start (leaf_region c a) \<le> a" "a < reg_end (leaf_region c a)"
  "granule c dvd reg_start (leaf_region c a)" "granule c dvd reg_end (leaf_region c a)"
  "reg_start (leaf_region c a) < reg_end (leaf_region c a)"
  "reg_end (leaf_region c a) = reg_start (leaf_region c a) + granule c"
proof -
  let ?g = "granule c"
  show low: "reg_start (leaf_region c a) \<le> a" by (simp add: leaf_region_def)
  have "a mod ?g < ?g" "a mod ?g \<le> a" by simp_all
  then show "a < reg_end (leaf_region c a)" unfolding leaf_region_def va_region.simps by linarith
  show dvd: "?g dvd reg_start (leaf_region c a)" by (simp add: leaf_region_def dvd_minus_mod)
  show eq: "reg_end (leaf_region c a) = reg_start (leaf_region c a) + granule c" by (simp add: leaf_region_def)
  show "?g dvd reg_end (leaf_region c a)" unfolding eq using dvd by simp
  show "reg_start (leaf_region c a) < reg_end (leaf_region c a)" unfolding eq by simp
qed

lemma leaf_region_inside:
  assumes "granule c dvd s" and "s \<le> a" and "a < e" and "granule c dvd e"
  shows "s \<le> reg_start (leaf_region c a)" and "reg_end (leaf_region c a) \<le> e"
proof -
  obtain i j where ij: "s = granule c * i" "e = granule c * j" using assms(1,4) by (auto elim!: dvdE)
  let ?k = "a div granule c"
  have start: "reg_start (leaf_region c a) = granule c * ?k" by (simp add: leaf_region_def minus_mod_eq_mult_div)
  have "i \<le> ?k" using assms(2) ij(1) by (simp add: less_eq_div_iff_mult_less_eq mult.commute)
  then show "s \<le> reg_start (leaf_region c a)" unfolding start ij(1) by simp
  have "?k < j" using assms(3) ij(2) by (simp add: div_less_iff_less_mult mult.commute)
  then have "granule c * Suc ?k \<le> granule c * j" by (intro mult_le_mono2) simp
  then show "reg_end (leaf_region c a) \<le> e" using leaf_region_facts(6) [where c = c and a = a] start ij(2) by simp
qed

definition split_refusal :: "leaves \<Rightarrow> nat \<Rightarrow> rc_error option" where
  "split_refusal t a =
     (case leaf_at t a of None \<Rightarrow> Some RUntracked | Some (c, n) \<Rightarrow>
      if smaller c = None then Some RGranule
      else if length (lv_runs t) < lv_len t + cover_cuts t (leaf_region c a) then Some RStorage
      else None)"

definition merge_refusal :: "leaves \<Rightarrow> nat \<Rightarrow> rc_error option" where
  "merge_refusal t a =
     (case leaf_at t a of None \<Rightarrow> Some RUntracked | Some (c, n) \<Rightarrow>
      (case larger c of None \<Rightarrow> Some RGranule | Some p \<Rightarrow>
       if u64_limit \<le> reg_end (leaf_region p a) then Some RAddress
       else if \<exists>x. reg_contains (leaf_region p a) x \<and> leaf_at t x \<noteq> Some (c, n) then Some RUneven
       else if length (lv_runs t) < lv_len t + cover_cuts t (leaf_region p a) then Some RStorage
       else None))"

lemma cover_no_room:
  assumes ok: "leaves_ok t" and i: "i < lv_len t"
    and inside: "run_start (lv_runs t ! i) \<le> reg_start r" "reg_end r \<le> run_end (lv_runs t ! i)" "reg_start r < reg_end r"
    and dvd: "granule (run_class (lv_runs t ! i)) dvd reg_start r" "granule (run_class (lv_runs t ! i)) dvd reg_end r"
    and room: "\<not> lv_len t + cover_cuts t r \<le> length (lv_runs t)"
  shows "leaves_cover t r = (Inl RStorage, t)"
proof -
  have "counted_over t r" using leaf_at_inside [OF ok i] inside by (simp add: counted_over_def)
  moreover have "\<not> mid_leaf t (reg_start r)" "\<not> mid_leaf t (reg_end r)"
    using record_bounds_not_mid [OF ok i _ _ dvd(1)] record_bounds_not_mid [OF ok i _ _ dvd(2)] inside by simp_all
  ultimately show ?thesis using cover_refused [OF ok, of r] room by (simp add: coverable_def)
qed

lemma record_end_dvd: "run_ok r \<Longrightarrow> granule (run_class r) dvd run_end r"
  by (simp add: run_ok_def run_end_def)

lemma wrapping_region:
  assumes "granule c dvd s" and "s < u64_limit"
  shows "va_region_new s (wrapping_add s (granule c)) =
    (if u64_limit \<le> s + granule c then Inl NoBytes else Inr \<lparr>reg_start = s, reg_end = s + granule c\<rparr>)"
proof -
  have "granule c < u64_limit" by (cases c) (simp_all add: granule_def FRAME_SIZE_def)
  moreover have "0 < granule c" by simp
  ultimately show ?thesis using assms(2)
    by (auto simp: va_region_new_def wrapping_add_def mod_if)
qed

lemma run_new_run:
  "run_ok q \<Longrightarrow> run_start q < run_end q \<Longrightarrow> run_end q < u64_limit \<Longrightarrow>
   run_new (run_start q) (run_class q) (run_leaves q) (run_count q) = Inr q"
  by (auto simp: run_new_is run_ok_def run_end_def)

lemma split_effect:
  assumes ok: "leaves_ok t"
  shows "case split_refusal t a of
      Some e \<Rightarrow> leaves_split t a = (Inl e, t)
    | None \<Rightarrow> \<exists>c n d t'. leaf_at t a = Some (c, n) \<and> smaller c = Some d \<and> leaves_settled t' \<and>
        leaves_split t a = (Inr d, t') \<and>
        leaves_ok t' \<and> length (lv_runs t') = length (lv_runs t) \<and>
        (\<forall>x. leaf_at t' x = (if reg_contains (leaf_region c a) x then Some (d, n) else leaf_at t x))"
proof (cases "leaf_at t a")
  case None
  then show ?thesis using leaf_at_find [OF ok, of a] by (simp add: split_refusal_def leaves_split_def)
next
  case (Some v)
  then obtain c n where v: "leaf_at t a = Some (c, n)" by (cases v) simp
  from leaf_at_record [OF ok this] obtain i where i: "i < lv_len t" "run_start (lv_runs t ! i) \<le> a" "a < run_end (lv_runs t ! i)"
    "run_class (lv_runs t ! i) = c" "run_count (lv_runs t ! i) = n" "leaves_find t a = Some i" by blast
  note rec = record_pos [OF ok i(1)]
  show ?thesis
  proof (cases "smaller c")
    case None
    then show ?thesis using v i by (simp add: split_refusal_def leaves_split_def Let_def)
  next
    case (Some d)
    let ?r = "leaf_region c a"
    have r: "run_start (lv_runs t ! i) \<le> reg_start ?r" "reg_end ?r \<le> run_end (lv_runs t ! i)"
      using leaf_region_inside [OF _ i(2,3), of c] record_end_dvd [OF rec(3)] rec(3) i(4) by (simp_all add: run_ok_def)
    note facts = leaf_region_facts [where c = c and a = a]
    have top: "reg_end ?r < u64_limit" using r(2) rec(2) by simp
    have region: "va_region_new (a - a mod granule c) (wrapping_add (a - a mod granule c) (granule c)) = Inr ?r"
      using wrapping_region [OF facts(3)] top facts by (simp add: leaf_region_def)
    define q where "q = \<lparr>run_start = reg_start ?r, run_leaves = FANOUT, run_class = d, run_count = n\<rparr>"
    have q: "run_start q = reg_start ?r" "run_end q = reg_end ?r" "run_ok q"
      using smaller_granule [OF Some] facts(3,6) rec(3) i(5) by (auto simp: q_def run_end_def run_ok_def intro: dvd_trans)
    have new: "run_new (a - a mod granule c) d FANOUT n = Inr q"
      using run_new_run [OF q(3)] q(1,2) facts(5) top by (simp add: q_def leaf_region_def)
    have dvd: "granule (run_class (lv_runs t ! i)) dvd reg_start ?r" "granule (run_class (lv_runs t ! i)) dvd reg_end ?r"
      using facts(3,4) i(4) by simp_all
    show ?thesis
    proof (cases "lv_len t + cover_cuts t ?r \<le> length (lv_runs t)")
      case False
      then show ?thesis using cover_no_room [OF ok i(1) r facts(5) dvd] v i(4,6) Some region
        by (simp add: split_refusal_def leaves_split_def Let_def)
    next
      case True
      obtain first lst t1 where t1: "leaves_cover t ?r = (Inr (first, lst), t1)"
        "run_count (lv_runs t1 ! first) = run_count (lv_runs t ! i)"
        "leaves_settled (leaves_coalesce (t1\<lparr>lv_runs := (lv_runs t1)[first := q]\<rparr>))"
    "leaves_ok (leaves_coalesce (t1\<lparr>lv_runs := (lv_runs t1)[first := q]\<rparr>))"
        "length (lv_runs (leaves_coalesce (t1\<lparr>lv_runs := (lv_runs t1)[first := q]\<rparr>))) = length (lv_runs t)"
        "\<And>x. leaf_at (leaves_coalesce (t1\<lparr>lv_runs := (lv_runs t1)[first := q]\<rparr>)) x =
           (if reg_contains ?r x then Some (run_class q, run_count q) else leaf_at t x)"
        by (rule retile [OF ok i(1) facts(5) r dvd True q]) blast
      have "leaves_split t a = (Inr d, leaves_coalesce (t1\<lparr>lv_runs := (lv_runs t1)[first := q]\<rparr>))"
        using i(4-6) Some region new t1(1) by (simp add: leaves_split_def Let_def)
      moreover have "split_refusal t a = None" using v Some True by (simp add: split_refusal_def)
      ultimately show ?thesis using v Some t1(3-6) by (auto simp: q_def intro!: exI [of _ "leaves_coalesce (t1\<lparr>lv_runs := (lv_runs t1)[first := q]\<rparr>)"])
    qed
  qed
qed

lemma merge_fits:
  assumes ok: "leaves_ok t" and i: "i < lv_len t" "leaves_find t a = Some i" and d: "larger (run_class (lv_runs t ! i)) = Some d"
    and one: "run_start (lv_runs t ! i) \<le> reg_start (leaf_region d a)" "reg_end (leaf_region d a) \<le> run_end (lv_runs t ! i)"
  shows "if length (lv_runs t) < lv_len t + cover_cuts t (leaf_region d a) then leaves_merge t a = (Inl RStorage, t)
    else \<exists>t'. leaves_settled t' \<and> leaves_merge t a = (Inr d, t') \<and>
        leaves_ok t' \<and> length (lv_runs t') = length (lv_runs t) \<and>
        (\<forall>x. leaf_at t' x =
          (if reg_contains (leaf_region d a) x then Some (d, run_count (lv_runs t ! i)) else leaf_at t x))"
proof -
  let ?r = "leaf_region d a" and ?i = "lv_runs t ! i"
  note rec = record_pos [OF ok i(1)] and facts = leaf_region_facts [where c = d and a = a]
  have top: "reg_end ?r < u64_limit" using one(2) rec(2) by simp
  have base: "a - a mod granule d = reg_start ?r" by (simp add: leaf_region_def)
  have region: "va_region_new (reg_start ?r) (wrapping_add (reg_start ?r) (granule d)) = Inr ?r"
    using wrapping_region [OF facts(3)] top facts(5,6) by (simp add: leaf_region_def)
  have dvd: "granule (run_class ?i) dvd reg_start ?r" "granule (run_class ?i) dvd reg_end ?r"
    using facts(3,4) smaller_granule d by (auto simp: larger_smaller intro: dvd_trans [OF dvd_triv_right])
  define q where "q = \<lparr>run_start = reg_start ?r, run_leaves = 1, run_class = d, run_count = run_count ?i\<rparr>"
  have q: "run_start q = reg_start ?r" "run_end q = reg_end ?r" "run_ok q"
    using facts(3,6) rec(3) by (simp_all add: q_def run_end_def run_ok_def)
  have new: "run_new (reg_start ?r) d 1 (run_count ?i) = Inr q"
    using run_new_run [OF q(3)] q(1,2) facts(5) top by (simp add: q_def)
  note merge = leaves_merge_def [of t a, unfolded i(2) option.case Let_def d base region sum.case]
  show ?thesis
  proof (cases "lv_len t + cover_cuts t ?r \<le> length (lv_runs t)")
    case False
    then show ?thesis using cover_no_room [OF ok i(1) one facts(5) dvd] one unfolding merge by simp
  next
    case True
    obtain first lst t1 where t1: "leaves_cover t ?r = (Inr (first, lst), t1)"
      "run_count (lv_runs t1 ! first) = run_count ?i"
      "leaves_settled (leaves_coalesce (t1\<lparr>lv_runs := (lv_runs t1)[first := q]\<rparr>))"
    "leaves_ok (leaves_coalesce (t1\<lparr>lv_runs := (lv_runs t1)[first := q]\<rparr>))"
      "length (lv_runs (leaves_coalesce (t1\<lparr>lv_runs := (lv_runs t1)[first := q]\<rparr>))) = length (lv_runs t)"
      "\<And>x. leaf_at (leaves_coalesce (t1\<lparr>lv_runs := (lv_runs t1)[first := q]\<rparr>)) x =
         (if reg_contains ?r x then Some (run_class q, run_count q) else leaf_at t x)"
      by (rule retile [OF ok i(1) facts(5) one dvd True q]) blast
    have "leaves_merge t a = (Inr d, leaves_coalesce (t1\<lparr>lv_runs := (lv_runs t1)[first := q]\<rparr>))"
      using one new t1(1,2) unfolding merge by simp
    then show ?thesis using True t1(3-6) by (auto simp: q_def intro!: exI [of _ "leaves_coalesce (t1\<lparr>lv_runs := (lv_runs t1)[first := q]\<rparr>)"])
  qed
qed

lemma merge_effect:
  assumes ok: "leaves_ok t" and settled: "leaves_settled t"
  shows "case merge_refusal t a of
      Some e \<Rightarrow> leaves_merge t a = (Inl e, t)
    | None \<Rightarrow> \<exists>c n d t'. leaf_at t a = Some (c, n) \<and> larger c = Some d \<and> leaves_settled t' \<and>
        leaves_merge t a = (Inr d, t') \<and>
        leaves_ok t' \<and> length (lv_runs t') = length (lv_runs t) \<and>
        (\<forall>x. leaf_at t' x = (if reg_contains (leaf_region d a) x then Some (d, n) else leaf_at t x))"
proof (cases "leaf_at t a")
  case None
  then show ?thesis using leaf_at_find [OF ok, of a] by (simp add: merge_refusal_def leaves_merge_def)
next
  case (Some v)
  then obtain c n where v: "leaf_at t a = Some (c, n)" by (cases v) simp
  from leaf_at_record [OF ok this] obtain i where i: "i < lv_len t" "run_start (lv_runs t ! i) \<le> a" "a < run_end (lv_runs t ! i)"
    "run_class (lv_runs t ! i) = c" "run_count (lv_runs t ! i) = n" "leaves_find t a = Some i" by blast
  show ?thesis
  proof (cases "larger c")
    case None
    then show ?thesis using v i by (simp add: merge_refusal_def leaves_merge_def Let_def)
  next
    case (Some d)
    let ?r = "leaf_region d a"
    note facts = leaf_region_facts [where c = d and a = a]
    have base: "a - a mod granule d = reg_start ?r" by (simp add: leaf_region_def)
    have low: "reg_start ?r < u64_limit" using facts(1) i(3) record_pos(2) [OF ok i(1)] by simp
    note region = wrapping_region [OF facts(3) low, folded facts(6)]
    have r: "\<lparr>reg_start = reg_start ?r, reg_end = reg_end ?r\<rparr> = ?r" by (simp add: leaf_region_def)
    note one = agreeing_leaves_one_record [OF ok settled i(6) facts(1,2), unfolded i(4,5)]
    consider (wraps) "u64_limit \<le> reg_end ?r" | (uneven) "\<not> u64_limit \<le> reg_end ?r" "\<not> (run_start (lv_runs t ! i) \<le> reg_start ?r \<and> reg_end ?r \<le> run_end (lv_runs t ! i))"
      | (even) "\<not> u64_limit \<le> reg_end ?r" "run_start (lv_runs t ! i) \<le> reg_start ?r" "reg_end ?r \<le> run_end (lv_runs t ! i)" by blast
    then show ?thesis
    proof cases
      case wraps
      then show ?thesis using v i(4,6) Some region by (simp add: merge_refusal_def leaves_merge_def Let_def base)
    next
      case uneven
      then have "merge_refusal t a = Some RUneven" using v Some one by (auto simp: merge_refusal_def reg_contains_def)
      moreover have "run_start (lv_runs t ! i) > reg_start ?r \<or> run_end (lv_runs t ! i) < reg_end ?r" using uneven(2) by linarith
      ultimately show ?thesis using i(4,6) Some region uneven(1) r by (simp add: leaves_merge_def Let_def base)
    next
      case even
      then have "\<not> (\<exists>x. reg_contains ?r x \<and> leaf_at t x \<noteq> Some (c, n))" using one by (auto simp: reg_contains_def)
      then have "merge_refusal t a = (if length (lv_runs t) < lv_len t + cover_cuts t ?r then Some RStorage else None)"
        using v Some even(1) by (auto simp: merge_refusal_def)
      moreover have "larger (run_class (lv_runs t ! i)) = Some d" using Some i(4) by simp
      ultimately show ?thesis using merge_fits [OF ok i(1,6) _ even(2,3)] v Some i(5) by (auto split: if_splits)
    qed
  qed
qed

subsection \<open>The table as an abstract map of leaves\<close>

text \<open>One call of the interface, what the counts say it may be refused for, and what an accepted
  one does to the leaf over an address.\<close>

datatype rc_op = Map_Leaves nat leaf_class nat | Share va_region | Release va_region | Split_Leaf nat | Merge_Leaf nat

definition refused :: "('e + 'a) \<times> 't \<Rightarrow> 'e option \<times> 't" where
  "refused r = (case r of (Inl e, t) \<Rightarrow> (Some e, t) | (Inr _, t) \<Rightarrow> (None, t))"

primrec rc_do :: "rc_op \<Rightarrow> leaves \<Rightarrow> rc_error option \<times> leaves" where
  "rc_do (Map_Leaves s c n) t = refused (leaves_map t s c n)"
| "rc_do (Share r) t = refused (leaves_share t r)"
| "rc_do (Release r) t = refused (leaves_release t r)"
| "rc_do (Split_Leaf a) t = refused (leaves_split t a)"
| "rc_do (Merge_Leaf a) t = refused (leaves_merge t a)"

definition cover_refusal :: "leaves \<Rightarrow> va_region \<Rightarrow> rc_error option" where
  "cover_refusal t r =
     (if \<not> counted_over t r then Some RUntracked
      else if mid_leaf t (reg_start r) \<or> mid_leaf t (reg_end r) then Some RStraddle
      else if length (lv_runs t) < lv_len t + cover_cuts t r then Some RStorage
      else None)"

primrec rc_refusal :: "rc_op \<Rightarrow> leaves \<Rightarrow> rc_error option" where
  "rc_refusal (Map_Leaves s c n) t = map_refusal t s c n"
| "rc_refusal (Share r) t = (if saturated_over t r then Some RSaturated else cover_refusal t r)"
| "rc_refusal (Release r) t = cover_refusal t r"
| "rc_refusal (Split_Leaf a) t = split_refusal t a"
| "rc_refusal (Merge_Leaf a) t = merge_refusal t a"

primrec rc_spec :: "rc_op \<Rightarrow> (nat \<Rightarrow> (leaf_class \<times> nat) option) \<Rightarrow> nat \<Rightarrow> (leaf_class \<times> nat) option" where
  "rc_spec (Map_Leaves s c n) f x = (if s \<le> x \<and> x < s + n * granule c then Some (c, 1) else f x)"
| "rc_spec (Share r) f x = (if reg_contains r x then map_option (apsnd Suc) (f x) else f x)"
| "rc_spec (Release r) f x = (if reg_contains r x then Option.bind (f x) drop_one else f x)"
| "rc_spec (Split_Leaf a) f x =
     (case f a of Some (c, n) \<Rightarrow> (if reg_contains (leaf_region c a) x then Some (the (smaller c), n) else f x) | None \<Rightarrow> f x)"
| "rc_spec (Merge_Leaf a) f x =
     (case f a of Some (c, n) \<Rightarrow> (if reg_contains (leaf_region (the (larger c)) a) x then Some (the (larger c), n) else f x) | None \<Rightarrow> f x)"

primrec rc_valid :: "rc_op \<Rightarrow> bool" where
  "rc_valid (Map_Leaves s c n) = True"
| "rc_valid (Share r) = (reg_start r < reg_end r \<and> reg_end r < u64_limit)"
| "rc_valid (Release r) = (reg_start r < reg_end r \<and> reg_end r < u64_limit)"
| "rc_valid (Split_Leaf a) = True"
| "rc_valid (Merge_Leaf a) = True"

lemma coverable_refusal: "coverable t r \<longleftrightarrow> cover_refusal t r = None"
  by (auto simp: coverable_def cover_refusal_def)

lemma cover_refusal_is: "leaves_ok t \<Longrightarrow> cover_refusal t r = Some e \<Longrightarrow> leaves_cover t r = (Inl e, t)"
  using cover_refused [of t r] coverable_refusal [of t r] by (auto simp: cover_refusal_def split: if_splits)

lemma rc_step_effect:
  assumes ok: "leaves_ok t" and settled: "leaves_settled t" and valid: "rc_valid op"
  shows "case rc_refusal op t of
      Some e \<Rightarrow> rc_do op t = (Some e, t)
    | None \<Rightarrow> \<exists>t'. rc_do op t = (None, t') \<and> leaves_ok t' \<and> leaves_settled t' \<and>
        length (lv_runs t') = length (lv_runs t) \<and> (\<forall>x. leaf_at t' x = rc_spec op (leaf_at t) x)"
proof (cases op)
  case (Map_Leaves s c n)
  then show ?thesis using map_effect [OF ok, of s c n] by (auto simp: refused_def split: option.splits)
next
  case (Share r)
  have r: "reg_start r < reg_end r" "reg_end r < u64_limit" using valid Share by simp_all
  show ?thesis
  proof (cases "saturated_over t r \<or> cover_refusal t r \<noteq> None")
    case True
    then show ?thesis using Share saturated_iff [OF ok r(1)] cover_refusal_is [OF ok, of r]
      by (auto simp: leaves_share_def refused_def)
  next
    case False
    then have "\<not> saturated_over t r" "coverable t r" by (simp_all add: coverable_refusal)
    then show ?thesis by (rule share_effect [OF ok r]) (use Share False in \<open>auto simp: refused_def\<close>)
  qed
next
  case (Release r)
  have r: "reg_start r < reg_end r" "reg_end r < u64_limit" using valid Release by simp_all
  show ?thesis
  proof (cases "cover_refusal t r")
    case None
    then have "coverable t r" by (simp add: coverable_refusal)
    then show ?thesis by (rule release_effect [OF ok r]) (use Release None in \<open>auto simp: refused_def\<close>)
  next
    case (Some e)
    then show ?thesis using Release cover_refusal_is [OF ok Some] by (simp add: leaves_release_def refused_def)
  qed
next
  case (Split_Leaf a)
  then show ?thesis using split_effect [OF ok, of a] by (auto simp: refused_def split: option.splits)
next
  case (Merge_Leaf a)
  then show ?thesis using merge_effect [OF ok settled, of a] by (auto simp: refused_def split: option.splits)
qed

definition rc_run :: "rc_op list \<Rightarrow> leaves \<Rightarrow> leaves" where
  "rc_run ops t = foldl (\<lambda>t op. snd (rc_do op t)) t ops"

text \<open>The leaves as the accepted calls leave them, starting from none.\<close>

fun rc_history :: "rc_op list \<Rightarrow> leaves \<Rightarrow> (nat \<Rightarrow> (leaf_class \<times> nat) option) \<Rightarrow> nat \<Rightarrow> (leaf_class \<times> nat) option" where
  "rc_history [] t f = f"
| "rc_history (op # ops) t f = rc_history ops (snd (rc_do op t)) (if fst (rc_do op t) = None then rc_spec op f else f)"

lemma rc_run_refines:
  "leaves_ok t \<Longrightarrow> leaves_settled t \<Longrightarrow> list_all rc_valid ops \<Longrightarrow> (\<And>x. leaf_at t x = f x) \<Longrightarrow>
   leaves_ok (rc_run ops t) \<and> leaves_settled (rc_run ops t) \<and> leaf_at (rc_run ops t) = rc_history ops t f"
proof (induction ops arbitrary: t f)
  case Nil
  then show ?case by (auto simp: rc_run_def)
next
  case (Cons op ops)
  have eq: "leaf_at t = f" using Cons.prems(4) by blast
  have "rc_valid op" using Cons.prems(3) by simp
  note step = rc_step_effect [OF Cons.prems(1,2) this]
  show ?case
  proof (cases "rc_refusal op t")
    case (Some e)
    then show ?thesis using step Cons.IH [of t f] Cons.prems by (simp add: rc_run_def)
  next
    case None
    then obtain t' where t': "rc_do op t = (None, t')" "leaves_ok t'" "leaves_settled t'" "\<And>x. leaf_at t' x = rc_spec op f x"
      using step eq by auto
    then show ?thesis using Cons.IH [of t' "rc_spec op f"] Cons.prems(3) by (simp add: rc_run_def)
  qed
qed

lemma leaves_over_ok: "leaves_ok (leaves_over slots)" "leaves_settled (leaves_over slots)" "leaf_at (leaves_over slots) x = None"
  by (simp_all add: leaves_ok_def leaves_settled_def leaves_over_def runs_ok_def lv_live_def leaf_of_def)

text \<open>
  C3. Through any sequence of map, share, release, split and merge, the record table is the map
  from addresses to leaves that the accepted calls describe: counts, classes, bytes and leaves
  read off it agree, a call is refused exactly for the reason the abstract leaves give, a
  refusal changes no leaf, and an accepted call changes exactly the leaves it names.
\<close>

theorem leaves_refine_counts:
  assumes valid: "list_all rc_valid ops" "rc_valid op"
    and t: "t = rc_run ops (leaves_over slots)" and f: "f = rc_history ops (leaves_over slots) (\<lambda>_. None)"
  shows "leaves_count t x = map_option snd (f x) \<and> leaves_class t x = map_option fst (f x) \<and>
    leaves_bytes t = card {x. f x \<noteq> None} \<and> leaves_leaves t = card {x. \<exists>c n. f x = Some (c, n) \<and> granule c dvd x} \<and>
    fst (rc_do op t) = rc_refusal op t \<and>
    (\<forall>y. leaf_at (snd (rc_do op t)) y = (if rc_refusal op t = None then rc_spec op f y else f y))"
proof -
  have run: "leaves_ok t" "leaves_settled t" "leaf_at t = f"
    using rc_run_refines [OF leaves_over_ok(1,2) valid(1), of slots "\<lambda>_. None"] leaves_over_ok(3) by (simp_all add: t f)
  have sp: "run_spans 0 (lv_live t) (u64_limit - 1)" "\<forall>r \<in> set (lv_live t). granule (run_class r) dvd run_start r"
    using run(1) by (simp_all add: leaves_ok_def runs_ok_def run_ok_def)
  have "fst (rc_do op t) = rc_refusal op t \<and>
    (\<forall>y. leaf_at (snd (rc_do op t)) y = (if rc_refusal op t = None then rc_spec op f y else f y))"
    using rc_step_effect [OF run(1,2) valid(2)] run(3) by (auto split: option.splits)
  then show ?thesis
    using leaves_lookup [OF run(1), of x] runs_bytes_card [OF sp(1)] runs_leaves_card [OF sp] run(3)
    by (simp add: leaves_bytes_def leaves_leaves_def leaf_starts_def)
qed

lemmas leaves_eval = leaves_map_def leaves_share_def leaves_release_def leaves_split_def leaves_cover_def cover_reaches.simps
  leaves_find_def run_holds_def leaves_splits_def cover_cut_def run_end_def granule_def FRAME_SIZE_def checked_mul_def
  checked_add_def leaves_place_def Let_def partition_point_def lv_live_def leaves_insert_def copy_within_def
  leaves_coalesce_def coalesce_from.simps run_EMPTY_def cover_last.simps count_range_def leaves_over_def run_new_def
  refused_def reg_contains_def

definition two_megas :: "rc_op list" where
  "two_megas = [Map_Leaves 0 Mega 2, Share \<lparr>reg_start = 0, reg_end = 2097152\<rparr>]"

theorem leaves_refine_counts_witness:
  "list_all rc_valid two_megas \<and>
   leaves_count (rc_run two_megas (leaves_over (replicate 3 run_EMPTY))) 4096 = Some 2 \<and>
   leaves_class (rc_run two_megas (leaves_over (replicate 3 run_EMPTY))) 4096 = Some Mega"
proof -
  have v: "list_all rc_valid two_megas" "rc_valid (Merge_Leaf 0)" by (simp_all add: two_megas_def)
  let ?T = "\<lparr>lv_runs = [\<lparr>run_start = 0, run_leaves = 2, run_class = Mega, run_count = Suc 0\<rparr>, run_EMPTY, run_EMPTY], lv_len = 1\<rparr>"
  have "leaves_map (leaves_over (replicate 3 run_EMPTY)) 0 Mega 2 = (Inr (), ?T)" by (simp add: leaves_eval numeral_3_eq_3)
  moreover have "fst (refused (leaves_share ?T \<lparr>reg_start = 0, reg_end = 2097152\<rparr>)) = None" by (simp add: leaves_eval)
  ultimately have "rc_history two_megas (leaves_over (replicate 3 run_EMPTY)) (\<lambda>_. None) 4096 = Some (Mega, 2)"
    by (simp add: two_megas_def refused_def reg_contains_def granule_def FRAME_SIZE_def)
  then show ?thesis using leaves_refine_counts [OF v refl refl, of "replicate 3 run_EMPTY" 4096] v by simp
qed

theorem leaves_release_reclaims:
  assumes "leaves_ok t" and "reg_start r < reg_end r" and "reg_end r < u64_limit" and "cover_refusal t r = None"
  shows "\<exists>rec t'. leaves_release t r = (Inr rec, t') \<and>
    rec_bytes rec = card {x. reg_contains r x \<and> (\<exists>c. leaf_at t x = Some (c, 1))} \<and>
    rec_leaves rec = card {x. reg_contains r x \<and> (\<exists>c. leaf_at t x = Some (c, 1) \<and> granule c dvd x)} \<and>
    (\<forall>x. leaf_at t x \<noteq> None \<and> leaf_at t' x = None \<longleftrightarrow> reg_contains r x \<and> (\<exists>c. leaf_at t x = Some (c, 1)))"
proof -
  have "coverable t r" using assms(4) by (simp add: coverable_refusal)
  then obtain rec t' where t': "leaves_release t r = (Inr rec, t')"
    "\<And>x. leaf_at t' x = (if reg_contains r x then Option.bind (leaf_at t x) drop_one else leaf_at t x)"
    "rec_bytes rec = card {x. reg_contains r x \<and> (\<exists>c. leaf_at t x = Some (c, 1))}"
    "rec_leaves rec = card {x. reg_contains r x \<and> (\<exists>c. leaf_at t x = Some (c, 1) \<and> granule c dvd x)}"
    by (rule release_effect [OF assms(1-3)]) blast
  have "leaf_at t x \<noteq> None \<and> leaf_at t' x = None \<longleftrightarrow> reg_contains r x \<and> (\<exists>c. leaf_at t x = Some (c, 1))" for x
    unfolding t'(2) by (cases "leaf_at t x") (auto simp: drop_one_def split: if_splits)
  then show ?thesis using t' by blast
qed

definition shared_mega :: leaves where
  "shared_mega = \<lparr>lv_runs = [\<lparr>run_start = 0, run_leaves = 1, run_class = Mega, run_count = 2\<rparr>,
     \<lparr>run_start = 2097152, run_leaves = 1, run_class = Mega, run_count = 1\<rparr>], lv_len = 2\<rparr>"

theorem leaves_release_reclaims_witness:
  "leaves_ok shared_mega \<and> (\<exists>rec t'. leaves_release shared_mega \<lparr>reg_start = 0, reg_end = 4194304\<rparr> = (Inr rec, t') \<and>
     rec_bytes rec = 2097152)"
proof -
  let ?r = "\<lparr>reg_start = 0, reg_end = 4194304\<rparr> :: va_region"
  have at: "leaf_at shared_mega x = (if x < 2097152 then Some (Mega, 2) else if x < 4194304 then Some (Mega, 1) else None)" for x
    by (simp add: shared_mega_def lv_live_def leaf_of_def run_end_def granule_def FRAME_SIZE_def)
  have ok: "leaves_ok shared_mega"
    by (simp add: shared_mega_def leaves_ok_def runs_ok_def run_ok_def lv_live_def run_end_def granule_def FRAME_SIZE_def)
  have "cover_refusal shared_mega ?r = None"
    by (auto simp: cover_refusal_def counted_over_def mid_leaf_def cover_cuts_def boundary_def shared_mega_def leaf_of_def
        lv_live_def run_end_def granule_def FRAME_SIZE_def)
  from leaves_release_reclaims [OF ok _ _ this]
  obtain rec t' where t': "leaves_release shared_mega ?r = (Inr rec, t')"
    "rec_bytes rec = card {x. reg_contains ?r x \<and> (\<exists>c. leaf_at shared_mega x = Some (c, 1))}" by auto
  have "{x. reg_contains ?r x \<and> (\<exists>c. leaf_at shared_mega x = Some (c, 1))} = {2097152..<4194304}"
    by (auto simp: reg_contains_def at)
  then show ?thesis using ok t' by simp
qed

end
