(* ===== verification/Spec2Isabelle.thy ===== *)
theory Spec2Isabelle
  imports Fs_Crash Udp_Delivery Abi_Ring Spsc_Ring Registry Cell_Supervisor Va_Space Shootdown Asid Leaf_Counts
begin

text \<open>
  Molt is an operating system whose parts are crates: a capability kernel, the rings between it and
  the domains it runs, the memory of those domains, a copy-on-write filesystem and a network stack. This library
  models the parts whose state is data, and shows that they keep what they promise. Every definition
  is a function that computes, named after the function of the source it follows; the theories name
  the files under src/.

  \<^bold>\<open>Conventions.\<close> \<open>Prelude\<close> has the integer types and the checked arithmetic of the source, \<open>Bytes\<close> the
  little-endian fields of byte windows, \<open>Effect\<close> fallible operations on a state: a result, \<open>Inl\<close> the
  error, and the state they leave also when they fail; \<open>and_then\<close> is the question mark of the source.
  Sizes, addresses and epochs are natural numbers with the checks against \<open>2 ^ 64\<close> written where the
  source checks; generations, ring indices and checksums wrap and are words. An await of a block
  operation is the operation, because a volume has one client. A panic or a refused allocation of the
  heap is left out unless a theorem says it does not happen.

  \<^bold>\<open>Capabilities and services.\<close> \<open>Capability\<close> (crates/sys/core/src/capability.rs, audit.rs): the table
  of slots with generations, lookups, revocation, delegation and the audit log. A revoked capability
  stays stale for a whole period of generations, and delegation never adds a right. \<open>Registry\<close> and
  \<open>Cell_Supervisor\<close> (registry.rs, cell.rs) are clients of the table: a lease resolves from publication
  to withdrawal; a restart tears down, replaces and relinks in that order.

  \<^bold>\<open>Rings.\<close> \<open>Fifo_Spec\<close> states the contract of a bounded queue as the locale \<open>bounded_fifo\<close>.
  \<open>Spsc_Ring\<close> (crates/sys/rt/src/spsc.rs) interprets it, sequentially and for the two ends interleaved
  at their atomic accesses, with reads of slots never undefined; a ring whose size does not divide the
  counter's range breaks, and a theorem says so. \<open>Abi_Wire\<close> and \<open>Abi_Ring\<close> (crates/sys/abi/src) are the calls
  on the wire and the shared ring against a hostile domain: what the kernel accepts was published, in
  order, and parses to what was encoded.

  \<^bold>\<open>Memory of domains.\<close> \<open>Spans\<close>, \<open>Va_Arena\<close>, \<open>Va_Space\<close> (crates/sys/space/src): address ranges handed
  out disjoint and reused only after every core flushed; \<open>Shootdown\<close> the round of flushes, \<open>Asid\<close> the
  address space tags, \<open>Leaf_Refcount\<close> and \<open>Leaf_Counts\<close> the counts of shared leaves, shown to be a map
  from addresses to counts.

  \<^bold>\<open>Storage.\<close> \<open>Blk_Disk\<close> (crates/storage/block/src) is the contract of a disk, the locale
  \<open>block_disk\<close>, for the memory disk and for the disk that loses power at any chosen action. The rest is
  crates/storage/fs/src, bottom up. \<open>Fs_Crc\<close>, \<open>Fs_Bitmap\<close>, \<open>Fs_Layout\<close>, \<open>Fs_Log\<close>, \<open>Fs_Key\<close> and
  \<open>Fs_Node\<close> are the checksum in its three implementations and the formats with their round trips.
  \<open>Fs_Volume\<close> is block input and output through the slots of a mounted volume, \<open>Fs_Tree\<close> the
  copy-on-write tree with its node cache. \<open>Fs_Tree_View\<close>, \<open>Fs_Tree_Lookup\<close>, \<open>Fs_Tree_Insert\<close>,
  \<open>Fs_Tree_Update\<close> and \<open>Fs_Tree_Map\<close> show that the tree is a sorted map: lookups read it, insertion
  updates it on every branch, never writes a block a checkpoint reaches, and succeeds while fifteen
  blocks are free; trees are at most seven levels high because splits leave nodes half full.
  \<open>Fs_Tree_Walk\<close> is the check of a whole tree at mount, accepted exactly when the tree is sound, and the
  marking of its blocks, which ends on every image. \<open>Fs_Mount\<close> shows which checkpoint a mount adopts.
  \<open>Fs_Journal\<close> is the journal: objects, directories, reads, writes, compaction, sync and the checks at
  mount. \<open>Fs_Journal_View\<close> relates a journal to the entries it works on (\<open>jn_holds\<close>), \<open>Fs_Names\<close>
  shows that a directory is a sorted listing and creation an insertion into it, \<open>Fs_Sync\<close> that a
  sync publishes the entries of its transaction or leaves the checkpoint before it, and \<open>Fs_Crash\<close>
  that power loss at any moment of a session leaves the last sync.

  \<^bold>\<open>Network.\<close> \<open>Io_Buffer\<close> (crates/sys/core/src/buffer.rs) has the buffers clients register for
  operations, resolved by a capability and a range. \<open>Net_Wire\<close> (crates/stack/net/src) is the internet
  checksum and the formats of ethernet, ARP, IPv4, IPv6 and ICMPv6: what is emitted parses back, and a
  damaged header is refused. \<open>Net_Service\<close> (service.rs, neighbor.rs) is the IP service as a function of
  its state, the ring of its client, the buffers and a link, which is a parameter: a transmit function
  on a state of its own that may accept, refuse or ask to wait. \<open>Net_Requests\<close> shows that no turn of the
  service loses or repeats a request, with the one exception it proves to be real; \<open>Net_Endpoints\<close> that a
  packet has at most one receiver and that only the link itself teaches the neighbour cache;
  \<open>Net_Delivery\<close> that a payload sent arrives at the peer. \<open>Udp_Service\<close> (crates/stack/udp/src) is a client of the IP
  service through the same ring and a service to its own clients; \<open>Udp_Requests\<close> carries the
  conservation of requests over, and \<open>Udp_Delivery\<close> composes both stacks: a datagram goes from a client
  through two services, one frame and two services more to the client that waits for it.

  \<^bold>\<open>Bounds and fuel.\<close> The walks of the source that follow pointers on the disk have fuel; running out is
  the error \<open>FsDiverge\<close>, which the source does not have, and the theorems show that it is not the
  result: thirteen times the blocks of the arena and one more is enough for marking a tree, eight levels
  for a descent. The number of entries a tree can hold bounds the walks of the journal. Loops of the
  source that advance a cursor are functions with a measure.

  \<^bold>\<open>Not modelled.\<close> Reads, writes and compaction of file bytes and the checks at mount are defined, and
  no theorem yet says what they do. Drivers, interrupt and trap code, page tables and boot work on
  device registers, privileged instructions or raw memory; the executor, the wakers and the file
  service are futures behind reference counts; TCP is a package outside the repository. Statistics are left
  out where nothing reads them.

  The loops and tests of a function that are definitions of their own correspond to lines of that
  function.
\<close>

end
